(* ===== verification/Prelude.thy ===== *)
theory Prelude
  imports Complex_Main "HOL-Library.AList" "HOL-Library.List_Lexorder" "HOL-Library.Char_ord"
    "HOL-Library.Sublist"
begin

text \<open>
  Shared vocabulary of the development: the JavaScript values the stores use (a \<open>Map\<close> as an
  insertion-ordered association list, \<open>Array.prototype.slice\<close> and \<open>sort\<close>, numbers that
  may fail to be finite), the error values of \<open>packages/core/src/errors.ts\<close>, and the runs of
  tenant-scoped operations. Strings are \<open>string\<close>: a JavaScript string whose UTF-16 code units
  are below 256, compared by code unit, which is the order that \<open>List_Lexorder\<close> and
  \<open>Char_ord\<close> give.
\<close>

named_theorems jmap_simps \<open>reads and writes of a JavaScript Map\<close>
named_theorems store_defs \<open>the operations of the stores\<close>

section \<open>JavaScript Map: an insertion-ordered dictionary\<close>

text \<open>
  \<open>Map.prototype.set\<close> overwrites the value of a known key in place and appends a new key at the
  end; \<open>delete\<close> removes the entry; iteration follows insertion order.
\<close>

type_synonym 'v jmap = "(string \<times> 'v) list"

definition jget :: "'v jmap \<Rightarrow> string \<Rightarrow> 'v option" where
  "jget m k = map_of m k"

definition jset :: "string \<Rightarrow> 'v \<Rightarrow> 'v jmap \<Rightarrow> 'v jmap" where
  "jset k v m = AList.update k v m"

definition jdel :: "string \<Rightarrow> 'v jmap \<Rightarrow> 'v jmap" where
  "jdel k m = AList.delete k m"

definition jvals :: "'v jmap \<Rightarrow> 'v list" where
  "jvals m = map snd m"

definition jmap_ok :: "'v jmap \<Rightarrow> bool" where
  "jmap_ok m = distinct (map fst m)"

lemma jget_Nil [simp]: "jget [] k = None"
  by (simp add: jget_def)

lemma jget_jset [simp]: "jget (jset k v m) k' = (if k = k' then Some v else jget m k')"
  by (simp add: jget_def jset_def AList.update_conv')

lemma jget_jdel [simp]: "jget (jdel k m) k' = (if k = k' then None else jget m k')"
  by (simp add: jget_def jdel_def AList.delete_conv')

lemma jmap_ok_Nil [simp]: "jmap_ok []"
  by (simp add: jmap_ok_def)

lemma jmap_ok_jset [simp, intro]: "jmap_ok m \<Longrightarrow> jmap_ok (jset k v m)"
  by (simp add: jmap_ok_def jset_def AList.distinct_update)

lemma jmap_ok_jdel [simp, intro]: "jmap_ok m \<Longrightarrow> jmap_ok (jdel k m)"
  by (simp add: jmap_ok_def jdel_def AList.distinct_delete)

lemma jmap_ok_filter [simp, intro]: "jmap_ok m \<Longrightarrow> jmap_ok (filter P m)"
  by (simp add: jmap_ok_def distinct_map_filter)

lemma jget_Some_iff: "jmap_ok m \<Longrightarrow> jget m k = Some v \<longleftrightarrow> (k, v) \<in> set m"
  by (simp add: jget_def jmap_ok_def map_of_eq_Some_iff)

lemma jget_SomeD: "jget m k = Some v \<Longrightarrow> (k, v) \<in> set m"
  by (simp add: jget_def map_of_SomeD)

lemma jget_None_iff: "jget m k = None \<longleftrightarrow> k \<notin> fst ` set m"
  by (simp add: jget_def map_of_eq_None_iff)

lemma set_jset: "jmap_ok m \<Longrightarrow> set (jset k v m) = insert (k, v) {e \<in> set m. fst e \<noteq> k}"
  unfolding jset_def jmap_ok_def
  by (induction m) (auto, force+)

lemma set_jdel: "set (jdel k m) = {e \<in> set m. fst e \<noteq> k}"
  by (auto simp: jdel_def AList.delete_eq)

lemma jset_idem: "jget m k = Some v \<Longrightarrow> jset k v m = m"
  unfolding jget_def jset_def by (induction m) (auto split: if_splits)

lemma jdel_absent: "jget m k = None \<Longrightarrow> jdel k m = m"
  unfolding jget_def jdel_def AList.delete_eq by (induction m) (auto split: if_splits)

lemma jdel_append: "jdel k (xs @ ys) = jdel k xs @ jdel k ys"
  by (simp add: jdel_def AList.delete_eq)

lemma jget_filter: "jmap_ok s \<Longrightarrow> jget (filter P s) k = (case jget s k of None \<Rightarrow> None | Some v \<Rightarrow> if P (k, v) then Some v else None)"
  unfolding jget_def jmap_ok_def
  by (induction s) (auto split: option.splits simp: map_of_eq_None_iff image_iff)

lemma jset_new: "jget m k = None \<Longrightarrow> jset k v m = m @ [(k, v)]"
  unfolding jget_def jset_def by (induction m) (auto split: if_splits)

text \<open>
  The dictionary contract the stores rely on. \<open>jmap\<close> below provides it.
\<close>

locale js_map =
  fixes get :: "'m \<Rightarrow> 'k \<Rightarrow> 'v option"
    and put :: "'k \<Rightarrow> 'v \<Rightarrow> 'm \<Rightarrow> 'm"
    and del :: "'k \<Rightarrow> 'm \<Rightarrow> 'm"
    and rows :: "'m \<Rightarrow> ('k \<times> 'v) set"
    and ok :: "'m \<Rightarrow> bool"
  assumes get_put: "get (put k v m) k' = (if k = k' then Some v else get m k')"
    and get_del: "get (del k m) k' = (if k = k' then None else get m k')"
    and get_rows: "ok m \<Longrightarrow> get m k = Some v \<longleftrightarrow> (k, v) \<in> rows m"
    and ok_put: "ok m \<Longrightarrow> ok (put k v m)"
    and ok_del: "ok m \<Longrightarrow> ok (del k m)"
begin

lemma rows_put: "ok m \<Longrightarrow> rows (put k v m) = insert (k, v) {e \<in> rows m. fst e \<noteq> k}"
  by (auto simp: get_rows [symmetric] ok_put get_put split: if_splits)

lemma rows_del: "ok m \<Longrightarrow> rows (del k m) = {e \<in> rows m. fst e \<noteq> k}"
  by (auto simp: get_rows [symmetric] ok_del get_del split: if_splits)

text \<open>A property of every row survives a write that establishes it for the written row.\<close>

lemma put_all:
  assumes "ok m" and "\<And>k v. get m k = Some v \<Longrightarrow> P k v" and "P k0 v0"
    and "get (put k0 v0 m) k = Some v"
  shows "P k v"
  using assms by (auto simp: get_put split: if_splits)

lemma del_all:
  assumes "\<And>k v. get m k = Some v \<Longrightarrow> P k v" and "get (del k0 m) k = Some v"
  shows "P k v"
  using assms by (auto simp: get_del split: if_splits)

end

interpretation jm: js_map jget jset jdel set jmap_ok
  by unfold_locales (auto simp: jget_Some_iff)

section \<open>Sums over the rows of a Map\<close>

definition jsum :: "(string \<times> 'v \<Rightarrow> int) \<Rightarrow> 'v jmap \<Rightarrow> int" where
  "jsum f m = sum_list (map f m)"

lemma jsum_Nil [simp]: "jsum f [] = 0"
  by (simp add: jsum_def)

lemma jsum_Cons [simp]: "jsum f (e # m) = f e + jsum f m"
  by (simp add: jsum_def)

lemma jsum_jset:
  "jmap_ok m \<Longrightarrow> jsum f (jset k v m) =
     jsum f m + f (k, v) - (case jget m k of None \<Rightarrow> 0 | Some w \<Rightarrow> f (k, w))"
  unfolding jset_def jget_def jmap_ok_def
  by (induction m) (auto split: option.splits)

lemma jdel_Nil [simp]: "jdel k [] = []"
  by (simp add: jdel_def)

lemma jdel_Cons [simp]: "jdel k ((k', v) # m) = (if k = k' then jdel k m else (k', v) # jdel k m)"
  by (simp add: jdel_def)

lemma jget_Cons: "jget ((k', v) # m) k = (if k = k' then Some v else jget m k)"
  by (simp add: jget_def)

lemma jsum_jdel:
  "jmap_ok m \<Longrightarrow> jsum f (jdel k m) = jsum f m - (case jget m k of None \<Rightarrow> 0 | Some w \<Rightarrow> f (k, w))"
proof (induction m)
  case Nil
  then show ?case by simp
next
  case (Cons e m)
  obtain k' v where e: "e = (k', v)" by (cases e)
  from Cons.prems have ok: "jmap_ok m" and new: "jget m k' = None"
    by (auto simp: e jget_None_iff jmap_ok_def)
  show ?case
    using Cons.IH [OF ok] new by (auto simp: e jget_Cons jdel_absent split: option.splits)
qed

lemma jsum_nonneg: "(\<And>e. e \<in> set m \<Longrightarrow> 0 \<le> f e) \<Longrightarrow> 0 \<le> jsum f m"
  by (induction m) auto

lemma jsum_ge_elem: "(\<And>e. e \<in> set m \<Longrightarrow> 0 \<le> f e) \<Longrightarrow> e \<in> set m \<Longrightarrow> f e \<le> jsum f m"
proof (induction m)
  case Nil
  then show ?case by simp
next
  case (Cons a m)
  have "0 \<le> jsum f m"
    using Cons.prems(1) by (intro jsum_nonneg) simp
  moreover have "0 \<le> f a"
    using Cons.prems(1) by simp
  moreover have "e \<in> set m \<Longrightarrow> f e \<le> jsum f m"
    using Cons.prems(1) by (intro Cons.IH) simp_all
  ultimately show ?case using Cons.prems(2) by auto
qed

section \<open>Arrays\<close>

text \<open>\<open>xs.slice(0, n)\<close>: a negative \<open>n\<close> counts from the end.\<close>

definition slice0 :: "int \<Rightarrow> 'a list \<Rightarrow> 'a list" where
  "slice0 n xs = (if 0 \<le> n then take (nat n) xs else take (length xs - nat (- n)) xs)"

lemma set_slice0: "x \<in> set (slice0 n xs) \<Longrightarrow> x \<in> set xs"
  by (auto simp: slice0_def dest: in_set_takeD split: if_splits)

lemma prefix_slice0: "prefix (slice0 n xs) xs"
  by (simp add: slice0_def take_is_prefix)

lemma length_slice0_le: "0 \<le> n \<Longrightarrow> int (length (slice0 n xs)) \<le> n"
  by (simp add: slice0_def)

lemma length_slice0_bound: "length (slice0 n xs) \<le> length xs"
  by (simp add: slice0_def)

text \<open>\<open>xs.at(-1)\<close>.\<close>

definition at_last :: "'a list \<Rightarrow> 'a option" where
  "at_last xs = (if xs = [] then None else Some (last xs))"

lemma at_last_Some: "at_last xs = Some x \<Longrightarrow> x \<in> set xs"
  by (auto simp: at_last_def split: if_splits)

text \<open>
  \<open>xs.sort(compare)\<close> is a stable sort; for a comparator \<open>cmp\<close> whose result is a signed
  number, insertion sort from the right is one.
\<close>

fun insort_by :: "('a \<Rightarrow> 'a \<Rightarrow> int) \<Rightarrow> 'a \<Rightarrow> 'a list \<Rightarrow> 'a list" where
  "insort_by cmp x [] = [x]"
| "insort_by cmp x (y # ys) = (if cmp x y \<le> 0 then x # y # ys else y # insort_by cmp x ys)"

definition sort_by :: "('a \<Rightarrow> 'a \<Rightarrow> int) \<Rightarrow> 'a list \<Rightarrow> 'a list" where
  "sort_by cmp xs = foldr (insort_by cmp) xs []"

lemma set_insort_by [simp]: "set (insort_by cmp x xs) = insert x (set xs)"
  by (induction xs) auto

lemma length_insort_by [simp]: "length (insort_by cmp x xs) = Suc (length xs)"
  by (induction xs) auto

lemma sort_by_Nil [simp]: "sort_by cmp [] = []"
  by (simp add: sort_by_def)

lemma sort_by_Cons [simp]: "sort_by cmp (x # xs) = insort_by cmp x (sort_by cmp xs)"
  by (simp add: sort_by_def)

lemma set_sort_by [simp]: "set (sort_by cmp xs) = set xs"
  by (induction xs) auto

lemma length_sort_by [simp]: "length (sort_by cmp xs) = length xs"
  by (induction xs) auto

text \<open>A comparator that orders by an integer key gives the library's stable key sort.\<close>

lemma insort_by_key: "insort_by (\<lambda>x y. f x - f y) x xs = insort_key f x xs" for f :: "'a \<Rightarrow> int"
  by (induction xs) auto

lemma sort_by_key: "sort_by (\<lambda>x y. f x - f y) xs = sort_key f xs" for f :: "'a \<Rightarrow> int"
  by (induction xs) (simp_all add: insort_by_key sort_key_def)

text \<open>The comparator \<open>(l < r ? -1 : l > r ? 1 : 0)\<close> on strings.\<close>

definition str_cmp :: "string \<Rightarrow> string \<Rightarrow> int" where
  "str_cmp l r = (if l < r then - 1 else if l > r then 1 else 0)"

lemma insort_by_str_cmp: "insort_by (\<lambda>l r. str_cmp (f l) (f r)) x ys = insort_key f x ys"
  by (induction ys) (auto simp: str_cmp_def)

lemma sort_by_str_cmp: "sort_by (\<lambda>l r. str_cmp (f l) (f r)) xs = sort_key f xs"
  by (induction xs) (simp_all add: insort_by_str_cmp sort_key_def)

section \<open>Numbers\<close>

text \<open>
  A JavaScript number where the source validates it: a finite double is a rational. Numbers the
  stores themselves allocate (sequence numbers, counters) are \<open>int\<close>, as are \<open>bigint\<close>s.
\<close>

datatype jsnum = Fin rat | NaN | PosInf | NegInf

definition MAX_SAFE_INTEGER :: int where
  "MAX_SAFE_INTEGER = 9007199254740991"

fun isFinite :: "jsnum \<Rightarrow> bool" where
  "isFinite (Fin q) = True"
| "isFinite _ = False"

fun isSafeInteger :: "jsnum \<Rightarrow> bool" where
  "isSafeInteger (Fin q) = (of_int \<lfloor>q\<rfloor> = q \<and> \<bar>\<lfloor>q\<rfloor>\<bar> \<le> MAX_SAFE_INTEGER)"
| "isSafeInteger _ = False"

text \<open>The integer of a number that passed \<open>Number.isSafeInteger\<close>.\<close>

fun num_int :: "jsnum \<Rightarrow> int" where
  "num_int (Fin q) = \<lfloor>q\<rfloor>"
| "num_int _ = 0"

section \<open>UTF-8\<close>

text \<open>\<open>new TextEncoder().encode(s).byteLength\<close> for code units below 256.\<close>

definition utf8_length :: "string \<Rightarrow> int" where
  "utf8_length s = sum_list (map (\<lambda>c. if of_char c < (128 :: nat) then 1 else 2) s)"

lemma utf8_length_nonneg [simp]: "0 \<le> utf8_length s"
  by (auto simp: utf8_length_def intro!: sum_list_nonneg)

lemma utf8_length_append [simp]: "utf8_length (s @ s') = utf8_length s + utf8_length s'"
  by (simp add: utf8_length_def)

lemma utf8_length_Nil [simp]: "utf8_length [] = 0"
  by (simp add: utf8_length_def)

lemma utf8_length_Cons: "utf8_length (c # s) = (if of_char c < (128 :: nat) then 1 else 2) + utf8_length s"
  by (simp add: utf8_length_def)

lemma utf8_length_zero: "utf8_length s = 0 \<longleftrightarrow> s = []"
proof (cases s)
  case (Cons c s')
  then show ?thesis using utf8_length_nonneg [of s'] by (simp add: utf8_length_Cons del: utf8_length_nonneg)
qed simp

section \<open>Runs of tenant-scoped operations\<close>

text \<open>
  Every port method takes the tenant first. A run executes a list of (tenant, operation) pairs
  against one shared store and collects what each call answered.
\<close>

fun run_ops :: "('t \<Rightarrow> 'op \<Rightarrow> 's \<Rightarrow> 'r \<times> 's) \<Rightarrow> ('t \<times> 'op) list \<Rightarrow> 's \<Rightarrow> ('t \<times> 'r) list \<times> 's" where
  "run_ops exec [] s = ([], s)"
| "run_ops exec ((t, op) # ops) s =
     (let (r, s') = exec t op s; (rs, s'') = run_ops exec ops s' in ((t, r) # rs, s''))"

definition own_ops :: "'t \<Rightarrow> ('t \<times> 'a) list \<Rightarrow> ('t \<times> 'a) list" where
  "own_ops u xs = filter (\<lambda>(t, _). t = u) xs"

lemma own_ops_Nil [simp]: "own_ops u [] = []"
  by (simp add: own_ops_def)

lemma own_ops_Cons [simp]: "own_ops u ((t, x) # xs) = (if t = u then (t, x) # own_ops u xs else own_ops u xs)"
  by (simp add: own_ops_def)

lemma run_ops_step:
  "run_ops exec ((t, op) # ops) s =
     ((t, fst (exec t op s)) # fst (run_ops exec ops (snd (exec t op s))),
      snd (run_ops exec ops (snd (exec t op s))))"
  by (simp add: Let_def split_beta)

lemma run_ops_inv:
  assumes "\<And>t op s. P s \<Longrightarrow> P (snd (exec t op s))" and "P s"
  shows "P (snd (run_ops exec ops s))"
  using assms(2)
proof (induction ops arbitrary: s)
  case Nil
  then show ?case by simp
next
  case (Cons a ops)
  obtain t op where a: "a = (t, op)" by (cases a)
  from Cons.prems assms(1) have "P (snd (exec t op s))" by blast
  then have "P (snd (run_ops exec ops (snd (exec t op s))))" by (rule Cons.IH)
  then show ?case by (simp add: a split_beta Let_def)
qed

lemma run_ops_append: "snd (run_ops exec (xs @ ys) s) = snd (run_ops exec ys (snd (run_ops exec xs s)))"
proof (induction xs arbitrary: s)
  case (Cons x xs)
  obtain t op where "x = (t, op)" by (cases x)
  with Cons show ?case by (simp add: run_ops_step del: run_ops.simps(2))
qed simp

text \<open>
  What a component that holds a reference to another store can do to it: some calls of that
  store's own operations, all by the tenant it acts for.
\<close>

definition store_calls :: "('t \<Rightarrow> 'op \<Rightarrow> 's \<Rightarrow> 'r \<times> 's) \<Rightarrow> ('op \<Rightarrow> bool) \<Rightarrow> 't \<Rightarrow> 's \<Rightarrow> 's \<Rightarrow> bool" where
  "store_calls exec allowed t s s' =
     (\<exists>ops. list_all (\<lambda>(u, op). u = t \<and> allowed op) ops \<and> s' = snd (run_ops exec ops s))"

lemma store_calls_refl [simp, intro]: "store_calls exec allowed t s s"
  unfolding store_calls_def by (intro exI [of _ "[]"]) simp

lemma store_calls_one: "allowed op \<Longrightarrow> store_calls exec allowed t s (snd (exec t op s))"
  unfolding store_calls_def by (intro exI [of _ "[(t, op)]"]) (simp add: run_ops_step del: run_ops.simps(2))

lemma store_calls_trans [trans]:
  assumes "store_calls exec allowed t a b" and "store_calls exec allowed t b c"
  shows "store_calls exec allowed t a c"
proof -
  obtain xs ys where "list_all (\<lambda>(u, op). u = t \<and> allowed op) xs" "b = snd (run_ops exec xs a)"
    "list_all (\<lambda>(u, op). u = t \<and> allowed op) ys" "c = snd (run_ops exec ys b)"
    using assms unfolding store_calls_def by auto
  then show ?thesis unfolding store_calls_def by (intro exI [of _ "xs @ ys"]) (simp add: run_ops_append)
qed

end
