(* ===== verification/Core_Errors.thy ===== *)
theory Core_Errors
  imports Prelude
begin

text \<open>
  The error taxonomy of \<open>packages/core/src/errors.ts\<close>: one class with a stable code, a
  conflict that carries the snapshot the caller lost to, and the two subclasses that
  \<open>mailbox.ts\<close> and \<open>retention.ts\<close> add. Message texts are not modelled. Besides these, an
  operation can fail with the \<open>RangeError\<close> of \<open>Date.prototype.toISOString\<close> or with an
  error that caller code threw (\<open>Foreign\<close>).
\<close>

datatype core_error_code =
    Retention_input_invalid
  | Retention_collect_failed
  | Tenant_id_invalid
  | Content_hash_invalid
  | Timestamp_not_canonical
  | Capability_declaration_invalid
  | Capability_unavailable
  | Proof_envelope_invalid
  | Proof_canonicalization_failed
  | Assertion_envelope_invalid
  | Webcrypto_unavailable
  | Sealed_secret_invalid
  | Sealed_secret_open_failed
  | Provider_provisioning_request_invalid
  | Mailbox_message_not_found
  | Mailbox_cursor_regression
  | Mailbox_cursor_ahead_of_delivery
  | Mailbox_stream_closed
  | Board_item_not_found
  | Board_item_exists
  | Board_transition_invalid
  | Board_status_conflict
  | Board_claim_conflict
  | Board_not_held
  | Truth_record_not_found
  | Terminal_conflict
  | Truth_revision_conflict
  | Activity_capacity_invalid
  | Activity_batch_invalid
  | Hint_ttl_invalid
  | Hint_rate_limited
  | Object_key_prefix_invalid
  | Object_not_found
  | Object_state_invalid
  | Storage_entitlement_missing
  | Storage_entitlement_version_conflict
  | Storage_reservation_not_found
  | Storage_object_too_large
  | Storage_quota_exceeded
  | Storage_reservation_expired
  | Storage_integrity_mismatch
  | Storage_write_suspended
  | Skill_pack_manifest_invalid
  | Skill_pack_frontmatter_invalid

datatype mailbox_stream_close_cause = Device_revoked | Device_superseded

text \<open>\<open>CollectExpiredCounts\<close> and \<open>CollectExpiredResult\<close> of \<open>retention.ts\<close>.\<close>

record collect_expired_counts =
  cc_removed :: int
  cc_expired :: int
  cc_releasedBytes :: int

record collect_expired_result = collect_expired_counts +
  cr_more :: bool

datatype 'c core_error =
    ByokCoreError core_error_code
  | CoreConflictError core_error_code (conflict_current: 'c) (conflict_observedAt: string)
  | MailboxStreamClosedError string mailbox_stream_close_cause
  | CollectExpiredFailure collect_expired_counts int "bool option"
  | RangeError
  | Foreign string

text \<open>The \<open>code\<close> field; the last two are not instances of \<open>ByokCoreError\<close>.\<close>

fun error_code :: "'c core_error \<Rightarrow> core_error_code option" where
  "error_code (ByokCoreError c) = Some c"
| "error_code (CoreConflictError c _ _) = Some c"
| "error_code (MailboxStreamClosedError _ _) = Some Mailbox_stream_closed"
| "error_code (CollectExpiredFailure _ _ _) = Some Retention_collect_failed"
| "error_code RangeError = None"
| "error_code (Foreign _) = None"

definition isCoreError :: "'c core_error \<Rightarrow> core_error_code option \<Rightarrow> bool" where
  "isCoreError value code =
     (if error_code value = None then False else code = None \<or> error_code value = code)"

definition isCoreConflictError :: "'c core_error \<Rightarrow> core_error_code option \<Rightarrow> bool" where
  "isCoreConflictError value code =
     (case value of
        CoreConflictError c _ _ \<Rightarrow> code = None \<or> Some c = code
      | _ \<Rightarrow> False)"

lemma isCoreConflictError_isCoreError: "isCoreConflictError e c \<Longrightarrow> isCoreError e c"
  by (auto simp: isCoreConflictError_def isCoreError_def split: core_error.splits)

type_synonym ('c, 'a) result = "'c core_error + 'a"

text \<open>
  An operation that fails may still have changed the store, so operations return the outcome
  and the store side by side.
\<close>

type_synonym ('c, 'a, 's) outcome = "('c, 'a) result \<times> 's"

lemma sum_case_Inl_iff: "(case r of Inl e \<Rightarrow> Inl e | Inr x \<Rightarrow> f x) = Inr y \<longleftrightarrow> (\<exists>x. r = Inr x \<and> f x = Inr y)"
  by (cases r) auto

end
