(* ===== verification/Tenant.thy ===== *)
theory Tenant
  imports Core_Errors
begin

text \<open>
  Tenant identity (\<open>packages/core/src/tenant.ts\<close>): the mint point \<open>tenantId\<close>, its
  non-throwing form \<open>isTenantId\<close>, and the flat composite key \<open>tenantKey\<close> with the NUL
  separator. The second part is the interface every tenant-scoped store provides and the
  noninterference theorem that follows from it.
\<close>

type_synonym tenant = string

definition TENANT_ID_MAX_LENGTH :: nat where
  "TENANT_ID_MAX_LENGTH = 200"

definition TENANT_KEY_SEPARATOR :: char where
  "TENANT_KEY_SEPARATOR = CHR 0x00"

text \<open>White space and line terminators of ECMAScript among the code units below 256.\<close>

definition js_space :: "char \<Rightarrow> bool" where
  "js_space c = (c \<in> {CHR 0x09, CHR 0x0A, CHR 0x0B, CHR 0x0C, CHR 0x0D, CHR 0x20, CHR 0xA0})"

definition js_trim :: "string \<Rightarrow> string" where
  "js_trim s = rev (dropWhile js_space (rev (dropWhile js_space s)))"

definition tenantId :: "string \<Rightarrow> ('c, tenant) result" where
  "tenantId candidate =
     (if length candidate = 0 then Inl (ByokCoreError Tenant_id_invalid)
      else if js_trim candidate \<noteq> candidate then Inl (ByokCoreError Tenant_id_invalid)
      else if length candidate > TENANT_ID_MAX_LENGTH then Inl (ByokCoreError Tenant_id_invalid)
      else if TENANT_KEY_SEPARATOR \<in> set candidate then Inl (ByokCoreError Tenant_id_invalid)
      else Inr candidate)"

definition isTenantId :: "string \<Rightarrow> bool" where
  "isTenantId v =
     (length v > 0 \<and> js_trim v = v \<and> length v \<le> TENANT_ID_MAX_LENGTH \<and>
      TENANT_KEY_SEPARATOR \<notin> set v)"

text \<open>\<open>Array.prototype.join\<close> with a one-character separator.\<close>

fun join :: "char \<Rightarrow> string list \<Rightarrow> string" where
  "join sep [] = []"
| "join sep [x] = x"
| "join sep (x # y # zs) = x @ sep # join sep (y # zs)"

definition tenantKey :: "tenant \<Rightarrow> string list \<Rightarrow> string" where
  "tenantKey t parts = join TENANT_KEY_SEPARATOR (t # parts)"

lemma isTenantId_no_sep: "isTenantId t \<Longrightarrow> TENANT_KEY_SEPARATOR \<notin> set t"
  by (simp add: isTenantId_def)

lemma tenantId_Inr: "tenantId v = Inr t \<longleftrightarrow> isTenantId v \<and> t = v"
  by (auto simp: tenantId_def isTenantId_def split: if_splits)

text \<open>Two concrete tenants for the examples of the development.\<close>

lemma sample_tenants [simp]: "isTenantId ''acme''" "isTenantId ''globex''"
  by (simp_all add: isTenantId_def js_trim_def js_space_def TENANT_ID_MAX_LENGTH_def TENANT_KEY_SEPARATOR_def)

section \<open>Composite keys\<close>

lemma append_sep_eq:
  "c \<notin> set a \<Longrightarrow> c \<notin> set b \<Longrightarrow> a @ c # x = b @ c # y \<longleftrightarrow> a = b \<and> x = y"
  by (auto simp: append_eq_append_conv2 append_eq_Cons_conv Cons_eq_append_conv)

lemma prefix_sep:
  "c \<notin> set a \<Longrightarrow> c \<notin> set b \<Longrightarrow> prefix (a @ [c]) (b @ c # y) \<longleftrightarrow> a = b"
  by (auto simp: prefix_def append_sep_eq)

lemma tenantKey_Cons: "tenantKey t (p # ps) = t @ TENANT_KEY_SEPARATOR # join TENANT_KEY_SEPARATOR (p # ps)"
  by (simp add: tenantKey_def)

lemma tenantKey_one [simp]: "tenantKey t [p] = t @ TENANT_KEY_SEPARATOR # p"
  by (simp add: tenantKey_def)

lemma join_inject_last:
  assumes "\<And>p. p \<in> set ps \<Longrightarrow> c \<notin> set p" and "\<And>q. q \<in> set qs \<Longrightarrow> c \<notin> set q"
    and "length ps = length qs"
  shows "join c (ps @ [x]) = join c (qs @ [y]) \<longleftrightarrow> ps = qs \<and> x = y"
  using assms(3,1,2)
proof (induction ps qs rule: list_induct2)
  case Nil
  then show ?case by simp
next
  case (Cons p ps q qs)
  have J: "join c ((a # as) @ [z]) = a @ c # join c (as @ [z])" for a as z
    by (cases as) simp_all
  have IH: "join c (ps @ [x]) = join c (qs @ [y]) \<longleftrightarrow> ps = qs \<and> x = y"
    using Cons.prems by (intro Cons.IH) simp_all
  show ?case
    unfolding J using Cons.prems IH by (auto simp: append_sep_eq)
qed

text \<open>
  Two keys with the same number of parts are equal only for equal parts, as long as every part
  but the last is free of the separator.
\<close>

lemma tenantKey_inject:
  assumes "isTenantId t" and "isTenantId u"
    and "\<And>p. p \<in> set ps \<Longrightarrow> TENANT_KEY_SEPARATOR \<notin> set p"
    and "\<And>q. q \<in> set qs \<Longrightarrow> TENANT_KEY_SEPARATOR \<notin> set q"
    and "length ps = length qs"
  shows "tenantKey t (ps @ [x]) = tenantKey u (qs @ [y]) \<longleftrightarrow> t = u \<and> ps = qs \<and> x = y"
proof -
  have "join TENANT_KEY_SEPARATOR ((t # ps) @ [x]) = join TENANT_KEY_SEPARATOR ((u # qs) @ [y])
      \<longleftrightarrow> t # ps = u # qs \<and> x = y"
    using assms by (intro join_inject_last) (auto dest: isTenantId_no_sep)
  then show ?thesis by (auto simp: tenantKey_def)
qed

lemma tenantKey_one_eq [simp]:
  "isTenantId t \<Longrightarrow> isTenantId u \<Longrightarrow>
     t @ TENANT_KEY_SEPARATOR # i = u @ TENANT_KEY_SEPARATOR # j \<longleftrightarrow> t = u \<and> i = j"
  by (simp add: append_sep_eq isTenantId_no_sep)

text \<open>\<open>key.startsWith(tenantKey(tenant, ''))\<close>: the scan every listing uses.\<close>

definition in_tenant :: "tenant \<Rightarrow> string \<Rightarrow> bool" where
  "in_tenant t key = prefix (tenantKey t ['''']) key"

lemma in_tenant_key:
  "isTenantId t \<Longrightarrow> isTenantId u \<Longrightarrow> ps \<noteq> [] \<Longrightarrow> in_tenant t (tenantKey u ps) \<longleftrightarrow> t = u"
  by (cases ps) (simp_all add: in_tenant_def tenantKey_Cons isTenantId_no_sep prefix_sep)

lemma in_tenant_one [simp]:
  "isTenantId t \<Longrightarrow> isTenantId u \<Longrightarrow> in_tenant t (u @ TENANT_KEY_SEPARATOR # p) \<longleftrightarrow> t = u"
  using in_tenant_key [of t u "[p]"] by simp

lemma in_tenant_own: "ps \<noteq> [] \<Longrightarrow> in_tenant t (tenantKey t ps)"
  by (cases ps) (simp_all add: in_tenant_def tenantKey_Cons)

lemma in_tenant_self [simp]: "in_tenant t (t @ TENANT_KEY_SEPARATOR # p)"
  using in_tenant_own [of "[p]" t] by simp

lemma in_tenant_unique:
  assumes "isTenantId t" and "isTenantId u" and "in_tenant t k" and "in_tenant u k"
  shows "t = u"
proof -
  obtain p where p: "k = t @ TENANT_KEY_SEPARATOR # p" using assms(3) by (auto simp: in_tenant_def prefix_def)
  obtain q where q: "k = u @ TENANT_KEY_SEPARATOR # q" using assms(4) by (auto simp: in_tenant_def prefix_def)
  have "t @ TENANT_KEY_SEPARATOR # p = u @ TENANT_KEY_SEPARATOR # q" using p q by simp
  then show ?thesis using assms(1,2) by simp
qed

section \<open>The rows of one tenant\<close>

definition tenant_rows :: "tenant \<Rightarrow> 'v jmap \<Rightarrow> 'v jmap" where
  "tenant_rows t m = filter (\<lambda>(k, _). in_tenant t k) m"

lemma tenant_rows_Nil [simp]: "tenant_rows t [] = []"
  by (simp add: tenant_rows_def)

lemma jget_tenant_rows [simp]: "in_tenant t k \<Longrightarrow> jget (tenant_rows t m) k = jget m k"
  unfolding tenant_rows_def jget_def by (induction m) auto

lemma tenant_rows_jset_own [simp]:
  "in_tenant t k \<Longrightarrow> tenant_rows t (jset k v m) = jset k v (tenant_rows t m)"
  unfolding tenant_rows_def jset_def by (induction m) auto

lemma tenant_rows_jset_other [simp]:
  "\<not> in_tenant t k \<Longrightarrow> tenant_rows t (jset k v m) = tenant_rows t m"
  unfolding tenant_rows_def jset_def by (induction m) auto

lemma tenant_rows_jdel_own [simp]:
  "in_tenant t k \<Longrightarrow> tenant_rows t (jdel k m) = jdel k (tenant_rows t m)"
  unfolding tenant_rows_def by (induction m) auto

lemma tenant_rows_jdel_other [simp]:
  "\<not> in_tenant t k \<Longrightarrow> tenant_rows t (jdel k m) = tenant_rows t m"
  unfolding tenant_rows_def by (induction m) auto

lemma jmap_ok_tenant_rows [simp]: "jmap_ok m \<Longrightarrow> jmap_ok (tenant_rows t m)"
  by (simp add: tenant_rows_def)

lemma tenant_rows_idem [simp]: "tenant_rows t (tenant_rows t m) = tenant_rows t m"
  by (simp add: tenant_rows_def)

lemma list_ex_rows [simp]:
  "list_ex (\<lambda>(key, d). in_tenant t key \<and> P key d) (tenant_rows t s) = list_ex (\<lambda>(key, d). in_tenant t key \<and> P key d) s"
  by (induction s) (auto simp: tenant_rows_def)

text \<open>\<open>restricts t o1 o2\<close>: the outcome \<open>o1\<close> is \<open>o2\<close> with the store cut to the rows of \<open>t\<close>.\<close>

definition restricts :: "tenant \<Rightarrow> ('r \<times> 'v jmap) \<Rightarrow> ('r \<times> 'v jmap) \<Rightarrow> bool" where
  "restricts t o1 o2 = (o1 = (fst o2, tenant_rows t (snd o2)))"

text \<open>The calls every store admits: those of a valid tenant.\<close>

abbreviation tenant_call :: "tenant \<times> 'op \<Rightarrow> bool" where
  "tenant_call \<equiv> \<lambda>(t, op). isTenantId t"

section \<open>The interface of a store with an invariant\<close>

text \<open>
  A provider promises an invariant that every admissible call keeps; the extension adds a
  preorder along which every such call moves the store, for what a history of calls can never
  undo.
\<close>

locale invariant_store =
  fixes exec :: "tenant \<Rightarrow> 'op \<Rightarrow> 's \<Rightarrow> 'r \<times> 's"
    and ok :: "tenant \<times> 'op \<Rightarrow> bool"
    and inv :: "'s \<Rightarrow> bool"
  assumes exec_inv: "ok (t, op) \<Longrightarrow> inv s \<Longrightarrow> inv (snd (exec t op s))"
begin

lemma run_inv: "\<forall>c \<in> set ops. ok c \<Longrightarrow> inv s \<Longrightarrow> inv (snd (run_ops exec ops s))"
proof (induction ops arbitrary: s)
  case Nil
  then show ?case by simp
next
  case (Cons a ops)
  obtain t op where a: "a = (t, op)" by (cases a)
  have "inv (snd (exec t op s))" using Cons.prems by (intro exec_inv) (simp_all add: a)
  then have "inv (snd (run_ops exec ops (snd (exec t op s))))" using Cons.prems by (intro Cons.IH) simp_all
  then show ?case by (simp add: a run_ops_step del: run_ops.simps)
qed

lemma calls_inv:
  assumes "store_calls exec allowed t s s'" and "\<And>op. allowed op \<Longrightarrow> ok (t, op)" and "inv s"
  shows "inv s'"
proof -
  obtain ops where o: "list_all (\<lambda>(u, op). u = t \<and> allowed op) ops" "s' = snd (run_ops exec ops s)"
    using assms(1) by (auto simp: store_calls_def)
  then have "\<forall>c \<in> set ops. ok c" using assms(2) by (fastforce simp: list_all_iff)
  then show ?thesis using assms(3) unfolding o(2) by (rule run_inv)
qed

end

locale monotone_store = invariant_store exec ok inv
  for exec :: "tenant \<Rightarrow> 'op \<Rightarrow> 's \<Rightarrow> 'r \<times> 's" and ok :: "tenant \<times> 'op \<Rightarrow> bool" and inv :: "'s \<Rightarrow> bool" +
  fixes le :: "'s \<Rightarrow> 's \<Rightarrow> bool"
  assumes le_refl: "le s s"
    and le_trans: "le a b \<Longrightarrow> le b c \<Longrightarrow> le a c"
    and exec_mono: "ok (t, op) \<Longrightarrow> inv s \<Longrightarrow> le s (snd (exec t op s))"
begin

lemma run_mono: "\<forall>c \<in> set ops. ok c \<Longrightarrow> inv s \<Longrightarrow> le s (snd (run_ops exec ops s))"
proof (induction ops arbitrary: s)
  case Nil
  then show ?case by (simp add: le_refl)
next
  case (Cons a ops)
  obtain t op where a: "a = (t, op)" by (cases a)
  have t: "ok (t, op)" using Cons.prems(1) by (simp add: a)
  have "le (snd (exec t op s)) (snd (run_ops exec ops (snd (exec t op s))))"
    using Cons.prems t by (intro Cons.IH exec_inv) simp_all
  with exec_mono [OF t Cons.prems(2)] show ?case
    by (simp add: a run_ops_step del: run_ops.simps) (rule le_trans)
qed

lemma calls_mono:
  assumes "store_calls exec allowed t s s'" and "\<And>op. allowed op \<Longrightarrow> ok (t, op)" and "inv s"
  shows "le s s'"
proof -
  obtain ops where o: "list_all (\<lambda>(u, op). u = t \<and> allowed op) ops" "s' = snd (run_ops exec ops s)"
    using assms(1) by (auto simp: store_calls_def)
  then have "\<forall>c \<in> set ops. ok c" using assms(2) by (fastforce simp: list_all_iff)
  then show ?thesis using assms(3) unfolding o(2) by (rule run_mono)
qed

end

section \<open>The interface of a tenant-scoped store\<close>

text \<open>
  \<open>exec t op s\<close> is one call of tenant \<open>t\<close> and \<open>view t s\<close> everything of the store that
  belongs to \<open>t\<close>. A provider promises, for the stores its invariant admits, that a call leaves
  every other tenant's part alone and that what a call does and answers depends on the caller's
  own part only.
\<close>

locale isolated_store = invariant_store exec tenant_call inv
  for exec :: "tenant \<Rightarrow> 'op \<Rightarrow> 's \<Rightarrow> 'r \<times> 's" and inv :: "'s \<Rightarrow> bool" +
  fixes view :: "tenant \<Rightarrow> 's \<Rightarrow> 'v"
  assumes inv_frame: "inv s \<Longrightarrow> isTenantId t \<Longrightarrow> isTenantId u \<Longrightarrow> t \<noteq> u \<Longrightarrow>
      view u (snd (exec t op s)) = view u s"
    and inv_local: "inv s \<Longrightarrow> inv s' \<Longrightarrow> isTenantId t \<Longrightarrow> view t s = view t s' \<Longrightarrow>
      fst (exec t op s) = fst (exec t op s') \<and>
      view t (snd (exec t op s)) = view t (snd (exec t op s'))"
begin

lemma exec_keeps: "isTenantId t \<Longrightarrow> inv s \<Longrightarrow> inv (snd (exec t op s))"
  by (rule exec_inv) simp_all

lemma run_local:
  assumes "isTenantId u" and "inv s" and "inv s'" and "view u s = view u s'"
  shows "fst (run_ops exec (own_ops u ops) s) = fst (run_ops exec (own_ops u ops) s') \<and>
    view u (snd (run_ops exec (own_ops u ops) s)) = view u (snd (run_ops exec (own_ops u ops) s'))"
  using assms(2-)
proof (induction ops arbitrary: s s')
  case Nil
  then show ?case by simp
next
  case (Cons a ops)
  obtain t op where a: "a = (t, op)" by (cases a)
  show ?case
  proof (cases "t = u")
    case True
    have L: "fst (exec u op s) = fst (exec u op s')"
      and V: "view u (snd (exec u op s)) = view u (snd (exec u op s'))"
      using inv_local [OF Cons.prems(1,2) assms(1) Cons.prems(3)] by blast+
    show ?thesis
      using Cons.IH [OF exec_keeps [OF assms(1) Cons.prems(1)] exec_keeps [OF assms(1) Cons.prems(2)] V]
      by (simp only: a True own_ops_Cons refl if_True run_ops_step fst_conv snd_conv L)
  next
    case False
    then show ?thesis
      using Cons.IH [OF Cons.prems] by (simp only: a own_ops_Cons if_False)
  qed
qed

text \<open>
  Noninterference: after any interleaving of calls, tenant \<open>u\<close> has received the answers and
  holds the state that its own calls alone would have given.
\<close>

lemma isolation:
  assumes "isTenantId u" and "\<forall>(t, op) \<in> set ops. isTenantId t" and "inv s"
  shows "own_ops u (fst (run_ops exec ops s)) = fst (run_ops exec (own_ops u ops) s) \<and>
    view u (snd (run_ops exec ops s)) = view u (snd (run_ops exec (own_ops u ops) s))"
  using assms(2,3)
proof (induction ops arbitrary: s)
  case Nil
  then show ?case by simp
next
  case (Cons a ops)
  obtain t op where a: "a = (t, op)" by (cases a)
  let ?s = "snd (exec t op s)"
  have t: "isTenantId t" using Cons.prems by (simp add: a)
  have inv: "inv ?s" using t Cons.prems(2) by (rule exec_keeps)
  have IH: "own_ops u (fst (run_ops exec ops ?s)) = fst (run_ops exec (own_ops u ops) ?s) \<and>
    view u (snd (run_ops exec ops ?s)) = view u (snd (run_ops exec (own_ops u ops) ?s))"
    using Cons.prems inv by (intro Cons.IH) simp_all
  show ?case
  proof (cases "t = u")
    case True
    with IH show ?thesis
      by (simp only: a own_ops_Cons refl if_True run_ops_step fst_conv snd_conv)
  next
    case False
    then have "view u ?s = view u s"
      using Cons.prems assms(1) t by (intro inv_frame) simp_all
    then have "fst (run_ops exec (own_ops u ops) ?s) = fst (run_ops exec (own_ops u ops) s) \<and>
      view u (snd (run_ops exec (own_ops u ops) ?s)) = view u (snd (run_ops exec (own_ops u ops) s))"
      by (rule run_local [OF assms(1) inv Cons.prems(2)])
    with IH False show ?thesis
      by (simp only: a own_ops_Cons if_False run_ops_step fst_conv snd_conv)
  qed
qed

end

text \<open>A store whose isolation needs no invariant.\<close>

locale tenant_store =
  fixes exec :: "tenant \<Rightarrow> 'op \<Rightarrow> 's \<Rightarrow> 'r \<times> 's"
    and view :: "tenant \<Rightarrow> 's \<Rightarrow> 'v"
  assumes frame: "isTenantId t \<Longrightarrow> isTenantId u \<Longrightarrow> t \<noteq> u \<Longrightarrow> view u (snd (exec t op s)) = view u s"
    and exec_local: "isTenantId t \<Longrightarrow> view t s = view t s' \<Longrightarrow>
      fst (exec t op s) = fst (exec t op s') \<and>
      view t (snd (exec t op s)) = view t (snd (exec t op s'))"

sublocale tenant_store \<subseteq> isolated_store exec "\<lambda>_. True" view
proof (unfold_locales, goal_cases)
  case (2 s t u op)
  from 2(2-4) show ?case by (rule frame)
next
  case (3 s s' t op)
  from 3(3,4) show ?case by (rule exec_local)
qed simp

text \<open>
  A store that is one \<open>Map\<close> keyed by \<open>tenantKey\<close>: it is enough that a call runs alike on the
  rows of its tenant alone and that it leaves the rows of the others.
\<close>

locale row_store =
  fixes exec :: "tenant \<Rightarrow> 'op \<Rightarrow> 'v jmap \<Rightarrow> 'r \<times> 'v jmap"
  assumes exec_rows: "restricts t (exec t op (tenant_rows t s)) (exec t op s)"
    and exec_other: "isTenantId t \<Longrightarrow> isTenantId u \<Longrightarrow> t \<noteq> u \<Longrightarrow> tenant_rows u (snd (exec t op s)) = tenant_rows u s"

sublocale row_store \<subseteq> tenant_store exec tenant_rows
proof (unfold_locales, goal_cases)
  case (1 t u op s)
  then show ?case by (rule exec_other)
next
  case (2 t s s' op)
  have "restricts t (exec t op (tenant_rows t s)) (exec t op s)" "restricts t (exec t op (tenant_rows t s)) (exec t op s')"
    using exec_rows [of t op s] exec_rows [of t op s'] 2(2) by simp_all
  then show ?case by (simp add: restricts_def)
qed

end
