(* ===== verification/Time.thy ===== *)
theory Time
  imports Tenant
begin

text \<open>
  Instants (\<open>packages/core/src/time.ts\<close>, \<open>in-memory/clock.ts\<close>). The stores compare ISO-8601
  strings with \<open><\<close>, which is a time comparison only for the canonical form. This theory models
  the calendar of ECMAScript's \<open>Date\<close> (milliseconds since the epoch as \<open>int\<close>),
  \<open>toISOString\<close>, \<open>Date.parse\<close> on strings of the canonical shape and
  \<open>isCanonicalTimestamp\<close>, and proves that the canonical strings are exactly the renderings of
  the instants of the years 0 to 9999 and that string order is time order on them.
\<close>

section \<open>The calendar\<close>

definition msPerDay :: int where "msPerDay = 86400000"

definition leap_day :: "int \<Rightarrow> int" where
  "leap_day y = (if y mod 4 = 0 \<and> (y mod 100 \<noteq> 0 \<or> y mod 400 = 0) then 1 else 0)"

text \<open>\<open>DayFromYear\<close> of ECMAScript: the day number of 1 January.\<close>

definition day_from_year :: "int \<Rightarrow> int" where
  "day_from_year y =
     365 * (y - 1970) + (y - 1969) div 4 - (y - 1901) div 100 + (y - 1601) div 400"

text \<open>\<open>YearFromTime\<close>: an estimate from the mean year, corrected by at most one year.\<close>

definition year_from_day :: "int \<Rightarrow> int" where
  "year_from_day d =
     (let y = 1970 + (400 * d) div 146097
      in if d < day_from_year y then y - 1
         else if day_from_year (y + 1) \<le> d then y + 1 else y)"

definition month_start :: "int \<Rightarrow> int \<Rightarrow> int" where
  "month_start l m =
     (if m \<le> 1 then 0 else if m = 2 then 31 else if m = 3 then 59 + l else if m = 4 then 90 + l
      else if m = 5 then 120 + l else if m = 6 then 151 + l else if m = 7 then 181 + l
      else if m = 8 then 212 + l else if m = 9 then 243 + l else if m = 10 then 273 + l
      else if m = 11 then 304 + l else 334 + l)"

definition month_of_yday :: "int \<Rightarrow> int \<Rightarrow> int" where
  "month_of_yday l n =
     (if n < 31 then 1 else if n < 59 + l then 2 else if n < 90 + l then 3
      else if n < 120 + l then 4 else if n < 151 + l then 5 else if n < 181 + l then 6
      else if n < 212 + l then 7 else if n < 243 + l then 8 else if n < 273 + l then 9
      else if n < 304 + l then 10 else if n < 334 + l then 11 else 12)"

definition make_day :: "int \<Rightarrow> int \<Rightarrow> int \<Rightarrow> int" where
  "make_day y mo d = day_from_year y + month_start (leap_day y) mo + d - 1"

definition make_time :: "int \<Rightarrow> int \<Rightarrow> int \<Rightarrow> int \<Rightarrow> int" where
  "make_time h mi s ms = h * 3600000 + mi * 60000 + s * 1000 + ms"

section \<open>Rendering and parsing\<close>

definition digit :: "nat \<Rightarrow> char" where
  "digit n = char_of (48 + n)"

fun pad :: "nat \<Rightarrow> nat \<Rightarrow> string" where
  "pad 0 x = []"
| "pad (Suc n) x = pad n (x div 10) @ [digit (x mod 10)]"

definition isdigit :: "char \<Rightarrow> bool" where
  "isdigit c = (CHR ''0'' \<le> c \<and> c \<le> CHR ''9'')"

definition num_of :: "string \<Rightarrow> nat" where
  "num_of s = foldl (\<lambda>a c. 10 * a + (of_char c - 48)) 0 s"

definition time_fields :: "int \<Rightarrow> int \<times> int \<times> int \<times> int \<times> int \<times> int \<times> int" where
  "time_fields t =
     (let d = t div msPerDay; r = t mod msPerDay; y = year_from_day d;
          n = d - day_from_year y; mo = month_of_yday (leap_day y) n
      in (y, mo, n - month_start (leap_day y) mo + 1,
          r div 3600000, r div 60000 mod 60, r div 1000 mod 60, r mod 1000))"

text \<open>The year is four digits, or a sign and six digits outside the years 0 to 9999.\<close>

definition pad_year :: "int \<Rightarrow> string" where
  "pad_year y =
     (if 0 \<le> y \<and> y \<le> 9999 then pad 4 (nat y)
      else (if y < 0 then CHR ''-'' else CHR ''+'') # pad 6 (nat \<bar>y\<bar>))"

definition render :: "int \<times> int \<times> int \<times> int \<times> int \<times> int \<times> int \<Rightarrow> string" where
  "render = (\<lambda>(y, mo, d, h, mi, s, ms).
     pad_year y @ ''-'' @ pad 2 (nat mo) @ ''-'' @ pad 2 (nat d) @ ''T'' @ pad 2 (nat h) @ '':'' @
     pad 2 (nat mi) @ '':'' @ pad 2 (nat s) @ ''.'' @ pad 3 (nat ms) @ ''Z'')"

definition toISOString :: "int \<Rightarrow> string" where
  "toISOString t = render (time_fields t)"

text \<open>
  \<open>new Date(ms).toISOString()\<close>: an instant outside the range of \<open>Date\<close> is an invalid date,
  and rendering it throws.
\<close>

definition MAX_DATE :: int where "MAX_DATE = 8640000000000000"

definition iso_date :: "int \<Rightarrow> ('c, string) result" where
  "iso_date ms = (if \<bar>ms\<bar> \<le> MAX_DATE then Inr (toISOString ms) else Inl RangeError)"

text \<open>
  \<open>new Date(now + ms).toISOString()\<close> for a number \<open>ms\<close> from the caller: \<open>TimeClip\<close> drops the
  fraction, and a number that is not finite gives an invalid date.
\<close>

fun date_after :: "int \<Rightarrow> jsnum \<Rightarrow> ('c, string) result" where
  "date_after now (Fin q) =
     (let v = of_int now + q
      in if \<bar>v\<bar> > of_int MAX_DATE then Inl RangeError else iso_date (if 0 \<le> v then \<lfloor>v\<rfloor> else \<lceil>v\<rceil>))"
| "date_after now _ = Inl RangeError"

definition CANONICAL_TIMESTAMP_PATTERN :: "string \<Rightarrow> bool" where
  "CANONICAL_TIMESTAMP_PATTERN s =
     list_all2 (\<lambda>p c. if p = CHR ''d'' then isdigit c else c = p) ''dddd-dd-ddTdd:dd:dd.dddZ'' s"

text \<open>
  \<open>Date.parse\<close> on a string of that shape. Field ranges are checked one by one; a day past the
  end of its month rolls over, and hour 24 is the midnight that ends the day.
\<close>

definition date_parse :: "string \<Rightarrow> int option" where
  "date_parse s =
     (let y = int (num_of (take 4 s)); mo = int (num_of (take 2 (drop 5 s)));
          d = int (num_of (take 2 (drop 8 s))); h = int (num_of (take 2 (drop 11 s)));
          mi = int (num_of (take 2 (drop 14 s))); sec = int (num_of (take 2 (drop 17 s)));
          ms = int (num_of (take 3 (drop 20 s)))
      in if 1 \<le> mo \<and> mo \<le> 12 \<and> 1 \<le> d \<and> d \<le> 31 \<and> mi \<le> 59 \<and> sec \<le> 59 \<and>
            (h \<le> 23 \<or> h = 24 \<and> mi = 0 \<and> sec = 0 \<and> ms = 0)
         then Some (make_day y mo d * msPerDay + make_time h mi sec ms) else None)"

text \<open>
  \<open>Date.parse\<close> on any string: what a host makes of the other formats is \<open>other\<close>.
\<close>

definition js_date_parse :: "(string \<Rightarrow> int option) \<Rightarrow> string \<Rightarrow> int option" where
  "js_date_parse other s = (if CANONICAL_TIMESTAMP_PATTERN s then date_parse s else other s)"

definition isCanonicalTimestamp :: "string \<Rightarrow> bool" where
  "isCanonicalTimestamp v =
     (if \<not> CANONICAL_TIMESTAMP_PATTERN v then False
      else case date_parse v of
        None \<Rightarrow> False
      | Some parsed \<Rightarrow> toISOString parsed = v)"

definition assertCanonicalTimestamp :: "string \<Rightarrow> ('c, string) result" where
  "assertCanonicalTimestamp v =
     (if \<not> isCanonicalTimestamp v then Inl (ByokCoreError Timestamp_not_canonical) else Inr v)"

text \<open>The instants of the years 0 to 9999.\<close>

definition iso_instant :: "int \<Rightarrow> bool" where
  "iso_instant t = (- 62167219200000 \<le> t \<and> t \<le> 253402300799999)"

section \<open>The injected clock\<close>

text \<open>
  \<open>createMutableClock\<close>: the reading moves only by \<open>advance\<close> and \<open>set\<close>, so every read
  inside one store operation gives the same instant.
\<close>

record mutable_clock =
  clock_current :: int

definition createMutableClock :: "int \<Rightarrow> mutable_clock" where
  "createMutableClock start = \<lparr>clock_current = start\<rparr>"

definition clock_now :: "mutable_clock \<Rightarrow> int" where
  "clock_now c = clock_current c"

definition clock_advance :: "int \<Rightarrow> mutable_clock \<Rightarrow> mutable_clock" where
  "clock_advance ms c = c\<lparr>clock_current := clock_current c + ms\<rparr>"

definition clock_set :: "int \<Rightarrow> mutable_clock \<Rightarrow> mutable_clock" where
  "clock_set instant c = c\<lparr>clock_current := instant\<rparr>"

text \<open>\<open>2026-01-01T00:00:00.000Z\<close>.\<close>

definition IN_MEMORY_CLOCK_EPOCH :: int where
  "IN_MEMORY_CLOCK_EPOCH = 1767225600000"

section \<open>Years and months\<close>

lemma div_step: "0 < n \<Longrightarrow> (x + 1) div n = x div n + (if (x + 1) mod n = 0 then 1 else 0)" for x n :: int
proof (cases "(x + 1) mod n = 0")
  case True
  assume n: "0 < n"
  from True obtain q where q: "x + 1 = n * q" by (auto simp: mod_eq_0_iff_dvd)
  then have "x div n = q - 1"
    using n by (intro int_div_pos_eq [where r = "n - 1"]) (auto simp: algebra_simps)
  with q n True show ?thesis by simp
next
  case False
  assume n: "0 < n"
  have "x + 1 = n * ((x + 1) div n) + (x + 1) mod n" by simp
  moreover have "0 < (x + 1) mod n"
    using False pos_mod_sign [OF n, of "x + 1"] by linarith
  moreover have "(x + 1) mod n < n" using n by simp
  ultimately have "x div n = (x + 1) div n"
    by (intro int_div_pos_eq [where r = "(x + 1) mod n - 1"]) linarith+
  with False show ?thesis by simp
qed

lemma div_lo: "0 < n \<Longrightarrow> n * (x div n) \<le> x" for x n :: int
  using pos_mod_sign [of n x] mult_div_mod_eq [of n x] by linarith

lemma div_hi: "0 < n \<Longrightarrow> x < n * (x div n) + n" for x n :: int
  using pos_mod_bound [of n x] mult_div_mod_eq [of n x] by linarith

lemma div_step_dvd:
  "0 < n \<Longrightarrow> n dvd c \<Longrightarrow> (y - c) div n = (y - c - 1) div n + (if y mod n = 0 then 1 else 0)" for y n c :: int
proof -
  assume "0 < n" and "n dvd c"
  then have "(y - c) mod n = 0 \<longleftrightarrow> y mod n = 0"
    by (metis dvd_diff_right_iff dvd_eq_mod_eq_0 mod_0_imp_dvd dvd_add_right_iff diff_add_cancel)
  then show ?thesis using div_step [OF \<open>0 < n\<close>, of "y - c - 1"] by simp
qed

lemma day_from_year_step: "day_from_year (y + 1) = day_from_year y + 365 + leap_day y"
proof -
  have d: "y mod 400 = 0 \<Longrightarrow> y mod 100 = 0" "y mod 100 = 0 \<Longrightarrow> y mod 4 = 0"
    using dvd_trans [of 100 400 y] dvd_trans [of 4 100 y] by (simp_all add: dvd_eq_mod_eq_0)
  have "(y - 1968) div 4 = (y - 1969) div 4 + (if y mod 4 = 0 then 1 else 0)"
    using div_step_dvd [of 4 1968 y] by (simp add: algebra_simps)
  moreover have "(y - 1900) div 100 = (y - 1901) div 100 + (if y mod 100 = 0 then 1 else 0)"
    using div_step_dvd [of 100 1900 y] by (simp add: algebra_simps)
  moreover have "(y - 1600) div 400 = (y - 1601) div 400 + (if y mod 400 = 0 then 1 else 0)"
    using div_step_dvd [of 400 1600 y] by (simp add: algebra_simps)
  moreover have "y + 1 - 1969 = y - 1968" "y + 1 - 1901 = y - 1900" "y + 1 - 1601 = y - 1600"
    by simp_all
  ultimately have "day_from_year (y + 1) = day_from_year y + 365 + (if y mod 4 = 0 then 1 else 0)
      - (if y mod 100 = 0 then 1 else 0) + (if y mod 400 = 0 then 1 else 0)"
    unfolding day_from_year_def by (simp only:) (simp only: algebra_simps)
  moreover obtain a b c where abc: "a = (y mod 4 = 0)" "b = (y mod 100 = 0)" "c = (y mod 400 = 0)"
    by simp
  ultimately show ?thesis
    using d unfolding leap_day_def abc [symmetric] by (cases a; cases b; cases c) simp_all
qed

lemma leap_day_range: "0 \<le> leap_day y" "leap_day y \<le> 1"
  by (auto simp: leap_day_def)

lemma day_from_year_mono: "y < z \<Longrightarrow> day_from_year y + 365 + leap_day y \<le> day_from_year z"
proof (induction z rule: int_gr_induct)
  case base
  then show ?case by (simp add: day_from_year_step)
next
  case (step z)
  then show ?case using leap_day_range [of z] by (simp add: day_from_year_step)
qed

lemma year_from_day_bounds:
  "day_from_year (year_from_day d) \<le> d \<and> d < day_from_year (year_from_day d + 1)"
proof -
  define k where "k = (400 * d) div 146097"
  have K: "146097 * k \<le> 400 * d" "400 * d < 146097 * k + 146097"
    unfolding k_def by simp_all
  have low: "day_from_year (1970 + k - 1) \<le> d"
    using K div_lo [of 4 "k"] div_lo [of 400 "k + 368"] div_hi [of 100 "k + 68"]
    unfolding day_from_year_def by (simp add: algebra_simps)
  have high: "d < day_from_year (1970 + k + 1 + 1)"
    using K div_hi [of 4 "k + 3"] div_hi [of 400 "k + 371"] div_lo [of 100 "k + 71"]
    unfolding day_from_year_def by (simp add: algebra_simps)
  show ?thesis
    using low high unfolding year_from_day_def Let_def k_def [symmetric] by (auto simp: algebra_simps)
qed

lemma year_from_day_unique:
  assumes "day_from_year y \<le> d" and "d < day_from_year (y + 1)"
  shows "year_from_day d = y"
proof (rule ccontr)
  assume "year_from_day d \<noteq> y"
  then consider "year_from_day d + 1 \<le> y" | "y + 1 \<le> year_from_day d" by linarith
  then show False
  proof cases
    case 1
    then have "day_from_year (year_from_day d + 1) \<le> day_from_year y"
      using day_from_year_mono [of "year_from_day d + 1" y] leap_day_range [of "year_from_day d + 1"]
      by (cases "year_from_day d + 1 = y") auto
    with assms year_from_day_bounds [of d] show False by linarith
  next
    case 2
    then have "day_from_year (y + 1) \<le> day_from_year (year_from_day d)"
      using day_from_year_mono [of "y + 1" "year_from_day d"] leap_day_range [of "y + 1"]
      by (cases "y + 1 = year_from_day d") auto
    with assms year_from_day_bounds [of d] show False by linarith
  qed
qed

lemma year_from_day_mono: "d \<le> e \<Longrightarrow> year_from_day d \<le> year_from_day e"
proof (rule ccontr)
  assume "d \<le> e" and "\<not> year_from_day d \<le> year_from_day e"
  then have "day_from_year (year_from_day e + 1) \<le> day_from_year (year_from_day d)"
    using day_from_year_mono [of "year_from_day e + 1" "year_from_day d"] leap_day_range [of "year_from_day e + 1"]
    by (cases "year_from_day e + 1 = year_from_day d") auto
  with year_from_day_bounds [of d] year_from_day_bounds [of e] \<open>d \<le> e\<close> show False by linarith
qed

lemma month_of_yday_range: "1 \<le> month_of_yday l n" "month_of_yday l n \<le> 12"
  by (simp_all add: month_of_yday_def)

lemma month_day_range:
  assumes "l = 0 \<or> l = 1" and "0 \<le> n" and "n < 365 + l"
  shows "1 \<le> n - month_start l (month_of_yday l n) + 1" "n - month_start l (month_of_yday l n) + 1 \<le> 31"
  using assms by (auto simp: month_start_def month_of_yday_def)

lemma month_day_mono:
  assumes "l = 0 \<or> l = 1" and "0 \<le> n" and "n < k"
  shows "month_of_yday l n < month_of_yday l k \<or>
    month_of_yday l n = month_of_yday l k \<and>
    n - month_start l (month_of_yday l n) < k - month_start l (month_of_yday l k)"
proof -
  have "month_of_yday l n \<le> month_of_yday l k"
    using assms by (auto simp: month_of_yday_def)
  then show ?thesis using assms(3) by (cases "month_of_yday l n = month_of_yday l k") simp_all
qed

section \<open>Digits\<close>

lemma length_pad [simp]: "length (pad n x) = n"
  by (induction n arbitrary: x) auto

lemma of_char_digit: "n < 10 \<Longrightarrow> of_char (digit n) = 48 + n"
  by (simp add: digit_def)

lemma digit_less: "m < 10 \<Longrightarrow> n < 10 \<Longrightarrow> digit m < digit n \<longleftrightarrow> m < n"
  by (simp add: less_char_def of_char_digit)

lemma isdigit_digit: "n < 10 \<Longrightarrow> isdigit (digit n)"
  by (simp add: isdigit_def less_eq_char_def of_char_digit)

lemma isdigit_pad: "c \<in> set (pad n x) \<Longrightarrow> isdigit c"
  by (induction n arbitrary: x) (auto simp: isdigit_digit)

lemma num_of_snoc: "num_of (s @ [c]) = 10 * num_of s + (of_char c - 48)"
  by (simp add: num_of_def)

lemma num_of_pad: "x < 10 ^ n \<Longrightarrow> num_of (pad n x) = x"
  by (induction n arbitrary: x) (auto simp: num_of_snoc of_char_digit num_of_def [of "[]"])

text \<open>Strings whose first parts have equal length compare by the first part, then by the rest.\<close>

lemma append_less_iff:
  "length a = length b \<Longrightarrow> a @ x < b @ y \<longleftrightarrow> a < b \<or> a = b \<and> x < y" for a b x y :: "'a::linorder list"
  by (induction a b rule: list_induct2) auto

lemma digit_pair_less: "b < 10 \<Longrightarrow> d < 10 \<Longrightarrow> 10 * a + b < 10 * c + d \<longleftrightarrow> a < c \<or> a = c \<and> b < d" for a b c d :: nat
  by linarith

lemma pad_less: "x < 10 ^ n \<Longrightarrow> y < 10 ^ n \<Longrightarrow> pad n x < pad n y \<longleftrightarrow> x < y"
proof (induction n arbitrary: x y)
  case 0
  then show ?case by simp
next
  case (Suc n)
  have q: "x div 10 < 10 ^ n" "y div 10 < 10 ^ n" using Suc.prems by (auto simp: less_mult_imp_div_less)
  have eq: "pad n (x div 10) = pad n (y div 10) \<longleftrightarrow> x div 10 = y div 10"
    using num_of_pad [OF q(1)] num_of_pad [OF q(2)] by metis
  have "pad (Suc n) x < pad (Suc n) y \<longleftrightarrow>
      x div 10 < y div 10 \<or> x div 10 = y div 10 \<and> x mod 10 < y mod 10"
    by (simp add: append_less_iff Suc.IH [OF q] eq digit_less)
  also have "\<dots> \<longleftrightarrow> 10 * (x div 10) + x mod 10 < 10 * (y div 10) + y mod 10"
    by (rule digit_pair_less [symmetric]) simp_all
  also have "\<dots> \<longleftrightarrow> x < y" by (simp only: mult_div_mod_eq)
  finally show ?case .
qed

lemma pad_eq: "x < 10 ^ n \<Longrightarrow> y < 10 ^ n \<Longrightarrow> pad n x = pad n y \<longleftrightarrow> x = y"
  using num_of_pad by metis

section \<open>The fields of an instant\<close>

type_synonym fields = "int \<times> int \<times> int \<times> int \<times> int \<times> int \<times> int"

definition valid_fields :: "fields \<Rightarrow> bool" where
  "valid_fields = (\<lambda>(y, mo, d, h, mi, s, ms).
     0 \<le> y \<and> y \<le> 9999 \<and> 1 \<le> mo \<and> mo \<le> 12 \<and> 1 \<le> d \<and> d \<le> 31 \<and> 0 \<le> h \<and> h \<le> 23 \<and>
     0 \<le> mi \<and> mi \<le> 59 \<and> 0 \<le> s \<and> s \<le> 59 \<and> 0 \<le> ms \<and> ms \<le> 999)"

lemma leap_day_01: "leap_day y = 0 \<or> leap_day y = 1"
  by (simp add: leap_day_def)

lemma yday_range:
  "0 \<le> d - day_from_year (year_from_day d)"
  "d - day_from_year (year_from_day d) < 365 + leap_day (year_from_day d)"
  using year_from_day_bounds [of d] by (simp_all add: day_from_year_step)

lemma iso_instant_year:
  assumes "iso_instant t"
  shows "0 \<le> year_from_day (t div msPerDay)" "year_from_day (t div msPerDay) \<le> 9999"
proof -
  have "- 719528 \<le> t div msPerDay" "t div msPerDay \<le> 2932896"
    using assms by (auto simp: iso_instant_def msPerDay_def)
  moreover have "year_from_day (- 719528) = 0" "year_from_day 2932896 = 9999"
    by (simp_all add: year_from_day_def day_from_year_def)
  ultimately show "0 \<le> year_from_day (t div msPerDay)" "year_from_day (t div msPerDay) \<le> 9999"
    using year_from_day_mono by metis+
qed

lemma mod_sixty: "0 \<le> x mod 60" "x mod 60 \<le> 59" "0 \<le> x mod 1000" "x mod 1000 \<le> 999" for x :: int
  using pos_mod_bound [of 60 x] pos_mod_bound [of 1000 x] by simp_all

lemma time_of_day:
  fixes r :: int
  assumes "0 \<le> r" and "r < msPerDay"
  shows "0 \<le> r div 3600000" "r div 3600000 \<le> 23"
    and "make_time (r div 3600000) (r div 60000 mod 60) (r div 1000 mod 60) (r mod 1000) = r"
proof -
  show "0 \<le> r div 3600000" "r div 3600000 \<le> 23"
    using assms div_hi [of 3600000 r] div_lo [of 3600000 r] by (simp_all add: msPerDay_def)
  have a: "r div 3600000 = r div 60000 div 60" "r div 60000 = r div 1000 div 60"
    using zdiv_zmult2_eq [of 60 r 60000] zdiv_zmult2_eq [of 60 r 1000] by simp_all
  have "60 * (r div 60000 div 60) + r div 60000 mod 60 = r div 60000"
    and "60 * (r div 1000 div 60) + r div 1000 mod 60 = r div 1000"
    and "1000 * (r div 1000) + r mod 1000 = r"
    by (rule mult_div_mod_eq)+
  then show "make_time (r div 3600000) (r div 60000 mod 60) (r div 1000 mod 60) (r mod 1000) = r"
    unfolding make_time_def a by linarith
qed

lemma mod_msPerDay: "0 \<le> t mod msPerDay" "t mod msPerDay < msPerDay"
  by (simp_all add: msPerDay_def)

lemma valid_time_fields:
  assumes "iso_instant t"
  shows "valid_fields (time_fields t)"
proof -
  let ?d = "t div msPerDay"
  let ?y = "year_from_day ?d"
  let ?n = "?d - day_from_year ?y"
  have m: "1 \<le> ?n - month_start (leap_day ?y) (month_of_yday (leap_day ?y) ?n) + 1"
    "?n - month_start (leap_day ?y) (month_of_yday (leap_day ?y) ?n) + 1 \<le> 31"
    by (rule month_day_range [OF leap_day_01 yday_range])+
  show ?thesis
    using iso_instant_year [OF assms] month_of_yday_range m time_of_day(1,2) [OF mod_msPerDay, of t]
    unfolding time_fields_def valid_fields_def Let_def by (simp only: split_conv mod_sixty simp_thms)
qed

lemma make_day_fields:
  "time_fields t = (y, mo, d, h, mi, s, ms) \<Longrightarrow> make_day y mo d * msPerDay + make_time h mi s ms = t"
proof -
  assume f: "time_fields t = (y, mo, d, h, mi, s, ms)"
  then have "d = t div msPerDay - day_from_year y - month_start (leap_day y) mo + 1"
    unfolding time_fields_def Let_def prod.inject by (elim conjE) (simp only:)
  then have "make_day y mo d = t div msPerDay"
    unfolding make_day_def by (simp only: algebra_simps)
  moreover have "make_time h mi s ms = t mod msPerDay"
    using time_of_day(3) [OF mod_msPerDay, of t] f
    unfolding time_fields_def Let_def prod.inject by (elim conjE) (simp only:)
  ultimately show "make_day y mo d * msPerDay + make_time h mi s ms = t"
    by (simp only: div_mult_mod_eq)
qed

section \<open>Rendering is injective, ordered and parsed back\<close>

lemma pad_year_small [simp]: "0 \<le> y \<Longrightarrow> y \<le> 9999 \<Longrightarrow> pad_year y = pad 4 (nat y)"
  by (simp add: pad_year_def)

lemma nat_pad_less:
  "0 \<le> x \<Longrightarrow> x < 10 ^ n \<Longrightarrow> 0 \<le> y \<Longrightarrow> y < 10 ^ n \<Longrightarrow> pad n (nat x) < pad n (nat y) \<longleftrightarrow> x < y"
  by (subst pad_less) (auto simp: nat_less_iff)

lemma nat_pad_eq:
  "0 \<le> x \<Longrightarrow> x < 10 ^ n \<Longrightarrow> 0 \<le> y \<Longrightarrow> y < 10 ^ n \<Longrightarrow> pad n (nat x) = pad n (nat y) \<longleftrightarrow> x = y"
  by (subst pad_eq) (auto simp: nat_less_iff)

text \<open>Lexicographic order of the fields.\<close>

definition fields_less :: "fields \<Rightarrow> fields \<Rightarrow> bool" where
  "fields_less = (\<lambda>(y, mo, d, h, mi, s, ms) (y', mo', d', h', mi', s', ms').
     y < y' \<or> y = y' \<and> (mo < mo' \<or> mo = mo' \<and> (d < d' \<or> d = d' \<and> (h < h' \<or> h = h' \<and>
     (mi < mi' \<or> mi = mi' \<and> (s < s' \<or> s = s' \<and> ms < ms'))))))"

lemma render_less:
  assumes "valid_fields f" and "valid_fields g"
  shows "render f < render g \<longleftrightarrow> fields_less f g"
proof -
  obtain y mo d h mi s ms where f: "f = (y, mo, d, h, mi, s, ms)" by (cases f)
  obtain y' mo' d' h' mi' s' ms' where g: "g = (y', mo', d', h', mi', s', ms')" by (cases g)
  show ?thesis
    using assms
    by (simp add: f g valid_fields_def render_def fields_less_def append_less_iff
        nat_pad_less nat_pad_eq)
qed

lemma fields_less_time_of_day:
  fixes r q :: int
  assumes "0 \<le> r" "r < q" "q < msPerDay"
  shows "r div 3600000 < q div 3600000 \<or> r div 3600000 = q div 3600000 \<and>
    (r div 60000 mod 60 < q div 60000 mod 60 \<or> r div 60000 mod 60 = q div 60000 mod 60 \<and>
     (r div 1000 mod 60 < q div 1000 mod 60 \<or> r div 1000 mod 60 = q div 1000 mod 60 \<and>
      r mod 1000 < q mod 1000))"
proof -
  have R: "make_time (r div 3600000) (r div 60000 mod 60) (r div 1000 mod 60) (r mod 1000) = r"
    and Q: "make_time (q div 3600000) (q div 60000 mod 60) (q div 1000 mod 60) (q mod 1000) = q"
    using assms by (auto intro: time_of_day(3))
  obtain a b c d where r: "a = r div 3600000" "b = r div 60000 mod 60" "c = r div 1000 mod 60" "d = r mod 1000"
    by simp
  obtain a' b' c' d' where q: "a' = q div 3600000" "b' = q div 60000 mod 60" "c' = q div 1000 mod 60" "d' = q mod 1000"
    by simp
  have "0 \<le> b" "b \<le> 59" "0 \<le> c" "c \<le> 59" "0 \<le> d" "d \<le> 999" "0 \<le> b'" "b' \<le> 59" "0 \<le> c'" "c' \<le> 59" "0 \<le> d'" "d' \<le> 999"
    unfolding r q by (rule mod_sixty)+
  then show ?thesis
    using R Q assms(2) unfolding r [symmetric] q [symmetric] make_time_def by linarith
qed

lemma fields_less_time:
  assumes "s < t"
  shows "fields_less (time_fields s) (time_fields t)"
proof (cases "s div msPerDay = t div msPerDay")
  case True
  then have "s = t div msPerDay * msPerDay + s mod msPerDay" and "t = t div msPerDay * msPerDay + t mod msPerDay"
    using div_mult_mod_eq [of s msPerDay] by simp_all
  then have "s mod msPerDay < t mod msPerDay"
    using assms by linarith
  from fields_less_time_of_day [OF mod_msPerDay(1) this mod_msPerDay(2)]
  show ?thesis
    unfolding time_fields_def fields_less_def Let_def split_conv True by blast
next
  case False
  let ?d = "s div msPerDay" and ?e = "t div msPerDay"
  have de: "?d < ?e"
    using False assms zdiv_mono1 [of s t msPerDay] by (simp add: msPerDay_def)
  show ?thesis
  proof (cases "year_from_day ?d = year_from_day ?e")
    case True
    let ?y = "year_from_day ?e"
    have "month_of_yday (leap_day ?y) (?d - day_from_year ?y) < month_of_yday (leap_day ?y) (?e - day_from_year ?y) \<or>
      month_of_yday (leap_day ?y) (?d - day_from_year ?y) = month_of_yday (leap_day ?y) (?e - day_from_year ?y) \<and>
      (?d - day_from_year ?y) - month_start (leap_day ?y) (month_of_yday (leap_day ?y) (?d - day_from_year ?y)) <
      (?e - day_from_year ?y) - month_start (leap_day ?y) (month_of_yday (leap_day ?y) (?e - day_from_year ?y))"
      using de yday_range(1) [of ?d] True by (intro month_day_mono [OF leap_day_01]) simp_all
    with True show ?thesis
      unfolding time_fields_def fields_less_def Let_def split_conv True by (elim disjE conjE) simp_all
  next
    case False
    then have "year_from_day ?d < year_from_day ?e"
      using de year_from_day_mono [of ?d ?e] by simp
    then show ?thesis
      unfolding time_fields_def fields_less_def Let_def split_conv by blast
  qed
qed

lemma toISOString_mono:
  "iso_instant s \<Longrightarrow> iso_instant t \<Longrightarrow> s < t \<Longrightarrow> toISOString s < toISOString t"
  unfolding toISOString_def by (simp add: render_less valid_time_fields fields_less_time)

lemma toISOString_less_iff:
  "iso_instant s \<Longrightarrow> iso_instant t \<Longrightarrow> toISOString s < toISOString t \<longleftrightarrow> s < t"
  using toISOString_mono [of s t] toISOString_mono [of t s] by (cases s t rule: linorder_cases) auto

lemma toISOString_le_iff:
  "iso_instant s \<Longrightarrow> iso_instant t \<Longrightarrow> toISOString s \<le> toISOString t \<longleftrightarrow> s \<le> t"
  using toISOString_less_iff [of t s] by (simp add: not_less [symmetric])

lemma render_shape:
  assumes "valid_fields f"
  shows "CANONICAL_TIMESTAMP_PATTERN (render f)"
proof -
  obtain y mo d h mi s ms where f: "f = (y, mo, d, h, mi, s, ms)" by (cases f)
  let ?P = "\<lambda>p c. if p = CHR ''d'' then isdigit c else c = p"
  have D: "list_all2 ?P (replicate n (CHR ''d'')) (pad n x)" for n x
    by (auto simp: list_all2_conv_all_nth intro!: isdigit_pad [of _ n x] nth_mem)
  have pat: "''dddd-dd-ddTdd:dd:dd.dddZ'' = replicate 4 (CHR ''d'') @ ''-'' @ replicate 2 (CHR ''d'') @ ''-'' @
      replicate 2 (CHR ''d'') @ ''T'' @ replicate 2 (CHR ''d'') @ '':'' @ replicate 2 (CHR ''d'') @ '':'' @
      replicate 2 (CHR ''d'') @ ''.'' @ replicate 3 (CHR ''d'') @ ''Z''"
    by (simp add: numeral_eq_Suc)
  have "list_all2 ?P ''-'' ''-''" "list_all2 ?P ''T'' ''T''" "list_all2 ?P '':'' '':''" "list_all2 ?P ''.'' ''.''"
    "list_all2 ?P ''Z'' ''Z''"
    by simp_all
  then show ?thesis
    using assms unfolding CANONICAL_TIMESTAMP_PATTERN_def pat
    by (simp add: f valid_fields_def render_def D list_all2_appendI)
qed

lemma date_parse_render:
  assumes "valid_fields (y, mo, d, h, mi, s, ms)"
  shows "date_parse (render (y, mo, d, h, mi, s, ms)) =
    Some (make_day y mo d * msPerDay + make_time h mi s ms)"
  using assms by (simp add: valid_fields_def render_def date_parse_def num_of_pad nat_less_iff Let_def)

lemma date_parse_toISOString: "iso_instant t \<Longrightarrow> date_parse (toISOString t) = Some t"
  using valid_time_fields [of t] make_day_fields [of t] unfolding toISOString_def
  by (cases "time_fields t") (simp add: date_parse_render)

lemma isCanonicalTimestamp_toISOString: "iso_instant t \<Longrightarrow> isCanonicalTimestamp (toISOString t)"
  using render_shape [OF valid_time_fields, of t] date_parse_toISOString [of t]
  by (simp add: isCanonicalTimestamp_def toISOString_def)

lemma js_date_parse_toISOString [simp]: "iso_instant t \<Longrightarrow> js_date_parse other (toISOString t) = Some t"
  using isCanonicalTimestamp_toISOString [of t]
  by (simp add: js_date_parse_def date_parse_toISOString isCanonicalTimestamp_def split: if_splits)

lemma day_from_year_iso_iff:
  "0 \<le> year_from_day (t div msPerDay) \<and> year_from_day (t div msPerDay) \<le> 9999 \<Longrightarrow> iso_instant t"
proof -
  assume y: "0 \<le> year_from_day (t div msPerDay) \<and> year_from_day (t div msPerDay) \<le> 9999"
  have e: "year_from_day (- 719529) = - 1" "year_from_day 2932897 = 10000"
    by (simp_all add: year_from_day_def day_from_year_def)
  have "\<not> t div msPerDay \<le> - 719529"
    using year_from_day_mono [of "t div msPerDay" "- 719529"] y e by auto
  moreover have "\<not> 2932897 \<le> t div msPerDay"
    using year_from_day_mono [of 2932897 "t div msPerDay"] y e by auto
  ultimately show "iso_instant t"
    using div_lo [of msPerDay t] div_hi [of msPerDay t] by (simp add: iso_instant_def msPerDay_def)
qed

lemma length_render: "length (pad_year y @ rest) = 24 \<Longrightarrow> length rest = 20 \<Longrightarrow> 0 \<le> y \<and> y \<le> 9999"
  by (auto simp: pad_year_def split: if_splits)

text \<open>The canonical timestamps are exactly the renderings of the instants of the years 0 to 9999.\<close>

lemma canonical_instant:
  assumes "isCanonicalTimestamp v"
  obtains t where "iso_instant t" and "v = toISOString t" and "date_parse v = Some t"
proof -
  from assms obtain t where sh: "CANONICAL_TIMESTAMP_PATTERN v" and p: "date_parse v = Some t" and v: "toISOString t = v"
    by (auto simp: isCanonicalTimestamp_def split: if_splits option.splits)
  have "length v = 24"
    using list_all2_lengthD [OF sh [unfolded CANONICAL_TIMESTAMP_PATTERN_def]] by simp
  then have "0 \<le> year_from_day (t div msPerDay) \<and> year_from_day (t div msPerDay) \<le> 9999"
    unfolding v [symmetric] toISOString_def time_fields_def render_def Let_def split_conv
    by (rule length_render) simp
  then show thesis using that day_from_year_iso_iff p v by blast
qed

section \<open>String order is time order\<close>

text \<open>
  C37. \<open>isCanonicalTimestamp\<close> accepts exactly the strings that \<open>toISOString\<close> renders for the
  instants of the years 0 to 9999: \<open>2026-02-30T00:00:00.000Z\<close>, a missing fraction or an offset
  are refused.
\<close>

theorem canonical_iff_rendered: "isCanonicalTimestamp v \<longleftrightarrow> (\<exists>t. iso_instant t \<and> v = toISOString t)"
  by (auto elim: canonical_instant intro: isCanonicalTimestamp_toISOString)

text \<open>
  On canonical timestamps the string comparison that every store uses is the comparison of
  the instants they denote.
\<close>

theorem canonical_order_is_time_order:
  assumes "isCanonicalTimestamp v" and "isCanonicalTimestamp w"
  shows "\<exists>t u. date_parse v = Some t \<and> date_parse w = Some u \<and> (v < w \<longleftrightarrow> t < u) \<and> (v = w \<longleftrightarrow> t = u)"
proof -
  obtain t where t: "iso_instant t" "v = toISOString t" "date_parse v = Some t" by (rule canonical_instant [OF assms(1)])
  obtain u where u: "iso_instant u" "w = toISOString u" "date_parse w = Some u" by (rule canonical_instant [OF assms(2)])
  have "v < w \<longleftrightarrow> t < u" by (simp add: t(2) u(2) toISOString_less_iff t(1) u(1))
  moreover have "v = w \<longleftrightarrow> t = u" using t(2,3) u(2,3) by (metis option.inject)
  ultimately show ?thesis using t(3) u(3) by blast
qed

subsection \<open>Evaluating with integers\<close>

text \<open>
  Code equations for the evaluation of samples: digits are taken from and added up to integers, not
  unary naturals.
\<close>

fun pad_int :: "nat \<Rightarrow> int \<Rightarrow> string" where
  "pad_int 0 x = []"
| "pad_int (Suc n) x = pad_int n (x div 10) @ [char_of (48 + x mod 10)]"

lemma pad_nat: "pad n (nat x) = pad_int n (max 0 x)"
proof (induction n arbitrary: x)
  case (Suc n)
  have "digit (nat x mod 10) = char_of (48 + max 0 x mod 10)"
  proof -
    have "(char_of (48 + nat x mod 10) :: char) = char_of (int (48 + nat x mod 10))" by (simp only: char_of_nat)
    also have "int (48 + nat x mod 10) = 48 + max 0 x mod 10" by (simp add: zmod_int max_def)
    finally show ?thesis by (simp add: digit_def)
  qed
  moreover have "nat x div 10 = nat (max 0 x div 10)" by (cases "0 \<le> x") (simp_all add: nat_div_distrib max_def)
  ultimately show ?case using Suc.IH [of "max 0 x div 10"] by (simp add: max_def pos_imp_zdiv_nonneg_iff)
qed simp

lemma pad_year_code [code]:
  "pad_year y = (if 0 \<le> y \<and> y \<le> 9999 then pad_int 4 y
     else (if y < 0 then CHR ''-'' else CHR ''+'') # pad_int 6 \<bar>y\<bar>)"
  by (simp add: pad_year_def pad_nat max_def)

lemma render_code [code]:
  "render = (\<lambda>(y, mo, d, h, mi, s, ms).
     pad_year y @ ''-'' @ pad_int 2 (max 0 mo) @ ''-'' @ pad_int 2 (max 0 d) @ ''T'' @ pad_int 2 (max 0 h) @ '':'' @
     pad_int 2 (max 0 mi) @ '':'' @ pad_int 2 (max 0 s) @ ''.'' @ pad_int 3 (max 0 ms) @ ''Z'')"
  by (simp add: render_def pad_nat)

definition int_of :: "string \<Rightarrow> int" where
  "int_of s = foldl (\<lambda>a c. 10 * a + max 0 (of_char c - 48)) 0 s"

lemma int_num_of: "int (num_of s) = int_of s"
proof -
  have "int (foldl (\<lambda>a c. 10 * a + (of_char c - 48)) a s) = foldl (\<lambda>a c. 10 * a + max 0 (of_char c - 48)) (int a) s" for a
  proof (induction s arbitrary: a)
    case (Cons c s)
    have "int (of_char c) = of_char c" by (rule of_nat_of_char)
    then have "int (of_char c - 48) = max 0 (of_char c - 48)" by (simp add: int_ops(6) max_def)
    then show ?case using Cons.IH [of "10 * a + (of_char c - 48)"] by simp
  qed simp
  then show ?thesis by (simp add: num_of_def int_of_def)
qed

lemmas date_parse_code [code] = date_parse_def [unfolded int_num_of]

lemma sample_stamps:
  "toISOString 0 = ''1970-01-01T00:00:00.000Z''" "toISOString IN_MEMORY_CLOCK_EPOCH = ''2026-01-01T00:00:00.000Z''"
  by code_simp+

theorem canonical_order_is_time_order_witness:
  "\<exists>t u. date_parse ''1970-01-01T00:00:00.000Z'' = Some t \<and> date_parse ''2026-01-01T00:00:00.000Z'' = Some u \<and> t < u"
proof -
  have "isCanonicalTimestamp ''1970-01-01T00:00:00.000Z''" "isCanonicalTimestamp ''2026-01-01T00:00:00.000Z''"
    using isCanonicalTimestamp_toISOString [of 0] isCanonicalTimestamp_toISOString [of IN_MEMORY_CLOCK_EPOCH]
    by (simp_all only: sample_stamps) (simp_all add: iso_instant_def IN_MEMORY_CLOCK_EPOCH_def)
  moreover have "''1970-01-01T00:00:00.000Z'' < ''2026-01-01T00:00:00.000Z''" by code_simp
  ultimately show ?thesis using canonical_order_is_time_order by blast
qed

end
