(* ===== verification/Retention.thy ===== *)
theory Retention
  imports Time
begin

text \<open>
  Bounded retention (\<open>packages/core/src/retention.ts\<close>): the validated input of every
  \<open>collectExpired\<close>, the bounded sweep over a \<open>Map\<close> that several stores share, and the
  contract of such a collector: one call does at most \<open>limit\<close> units of work, says whether work
  is left, and repeated calls drain the backlog.
\<close>

record collect_expired_input =
  ci_now :: string
  ci_limit :: jsnum

definition assertCollectExpiredInput :: "'x collect_expired_input_scheme \<Rightarrow> ('c, unit) result" where
  "assertCollectExpiredInput input =
     (case assertCanonicalTimestamp (ci_now input) of
        Inl e \<Rightarrow> Inl e
      | Inr _ \<Rightarrow>
          if \<not> isSafeInteger (ci_limit input) \<or> num_int (ci_limit input) \<le> 0
          then Inl (ByokCoreError Retention_input_invalid) else Inr ())"

lemma assertCollectExpiredInput_Inr:
  "assertCollectExpiredInput input = Inr () \<longleftrightarrow>
     isCanonicalTimestamp (ci_now input) \<and> isSafeInteger (ci_limit input) \<and> 0 < num_int (ci_limit input)"
  by (auto simp: assertCollectExpiredInput_def assertCanonicalTimestamp_def)

section \<open>The bounded sweep\<close>

text \<open>
  \<open>for (const [key, row] of map) { if (!eligible) continue; if (removed === limit) { more = true;
  break; } map.delete(key); removed++; }\<close>. The result holds the map that is left, the number of
  rows removed and \<open>more\<close>.
\<close>

fun sweep :: "(string \<times> 'v \<Rightarrow> bool) \<Rightarrow> int \<Rightarrow> int \<Rightarrow> 'v jmap \<Rightarrow> 'v jmap \<times> int \<times> bool" where
  "sweep eligible limit removed [] = ([], removed, False)"
| "sweep eligible limit removed (e # m) =
     (if \<not> eligible e
      then (case sweep eligible limit removed m of (m', r, again) \<Rightarrow> (e # m', r, again))
      else if removed = limit then (e # m, removed, True)
      else sweep eligible limit (removed + 1) m)"

definition eligible_count :: "(string \<times> 'v \<Rightarrow> bool) \<Rightarrow> 'v jmap \<Rightarrow> nat" where
  "eligible_count eligible m = length (filter eligible m)"

lemma sweep_spec:
  assumes "sweep el limit removed m = (m', r, again)" and "removed \<le> limit"
  shows "removed \<le> r \<and> r \<le> limit \<and>
    int (eligible_count el m) = (r - removed) + int (eligible_count el m') \<and>
    (again \<longleftrightarrow> 0 < eligible_count el m') \<and> (again \<longrightarrow> r = limit) \<and>
    filter (\<lambda>e. \<not> el e) m' = filter (\<lambda>e. \<not> el e) m \<and> set m' \<subseteq> set m \<and>
    (jmap_ok m \<longrightarrow> jmap_ok m')"
  using assms
proof (induction el limit removed m arbitrary: m' r again rule: sweep.induct)
  case (1 el limit removed)
  then show ?case by (simp add: eligible_count_def)
next
  case (2 el limit removed e m)
  show ?case
  proof (cases "el e")
    case False
    then obtain m1 where m1: "sweep el limit removed m = (m1, r, again)" and m': "m' = e # m1"
      using "2.prems"(1) by (auto split: prod.splits)
    from "2.IH"(1) [OF _ m1 "2.prems"(2)] False show ?thesis
      by (auto simp: m' eligible_count_def jmap_ok_def)
  next
    case el: True
    show ?thesis
    proof (cases "removed = limit")
      case True
      with el "2.prems" show ?thesis by (auto simp: eligible_count_def)
    next
      case False
      with el "2.prems" have "sweep el limit (removed + 1) m = (m', r, again)" and "removed + 1 \<le> limit"
        by auto
      from "2.IH"(2) [OF _ False this] el show ?thesis
        by (auto simp: eligible_count_def jmap_ok_def)
    qed
  qed
qed

lemma sweep_jget_kept:
  assumes "sweep el limit removed m = (m', r, again)" and "jmap_ok m" and "jget m k = Some v" and "\<not> el (k, v)"
    and "removed \<le> limit"
  shows "jget m' k = Some v"
proof -
  note S = sweep_spec [OF assms(1,5)]
  have "(k, v) \<in> set (filter (\<lambda>e. \<not> el e) m)"
    using assms(2-4) by (simp add: jget_Some_iff)
  then have "(k, v) \<in> set (filter (\<lambda>e. \<not> el e) m')" using S by simp
  then have "(k, v) \<in> set m'" by simp
  with S assms(2) show ?thesis by (simp add: jget_Some_iff)
qed

lemma sweep_tenant_rows_other:
  assumes "\<And>e. e \<in> set m \<Longrightarrow> el e \<Longrightarrow> \<not> in_tenant u (fst e)"
  shows "tenant_rows u (fst (sweep el limit removed m)) = tenant_rows u m"
  using assms
proof (induction el limit removed m rule: sweep.induct)
  case (1 el limit removed)
  then show ?case by simp
next
  case (2 el limit removed e m)
  have "el e \<Longrightarrow> \<not> in_tenant u (fst e)" using "2.prems" by simp
  with 2 show ?case
    by (cases e) (auto simp: tenant_rows_def split: prod.splits)
qed

lemma sweep_filter:
  assumes "\<And>e. el e \<Longrightarrow> P e"
  shows "sweep el limit removed (filter P m) =
    (case sweep el limit removed m of (m', r, again) \<Rightarrow> (filter P m', r, again))"
  using assms by (induction el limit removed m rule: sweep.induct) (auto split: prod.splits)

section \<open>The contract of a collector\<close>

text \<open>
  \<open>step i s\<close> is one \<open>collectExpired\<close> call with the input \<open>i\<close>: the work it did, whether it
  reports more, and the store after it. \<open>drain\<close> calls it until it reports no more.
\<close>

fun drain :: "('s \<Rightarrow> int \<times> bool \<times> 's) \<Rightarrow> nat \<Rightarrow> 's \<Rightarrow> 's option" where
  "drain step 0 s = None"
| "drain step (Suc fuel) s =
     (case step s of (_, again, s') \<Rightarrow> if again then drain step fuel s' else Some s')"

locale bounded_collector =
  fixes step :: "'i \<Rightarrow> 's \<Rightarrow> int \<times> bool \<times> 's"
    and valid :: "'i \<Rightarrow> bool"
    and backlog :: "'i \<Rightarrow> 's \<Rightarrow> nat"
    and limit :: "'i \<Rightarrow> int"
  assumes limit_pos: "valid i \<Longrightarrow> 0 < limit i"
    and work_bound: "valid i \<Longrightarrow> step i s = (w, again, s') \<Longrightarrow> 0 \<le> w \<and> w \<le> limit i"
    and work_done: "valid i \<Longrightarrow> step i s = (w, again, s') \<Longrightarrow> int (backlog i s) = w + int (backlog i s')"
    and more_iff: "valid i \<Longrightarrow> step i s = (w, again, s') \<Longrightarrow> again \<longleftrightarrow> 0 < backlog i s'"
    and more_full: "valid i \<Longrightarrow> step i s = (w, again, s') \<Longrightarrow> again \<Longrightarrow> w = limit i"
begin

lemma drain_complete:
  assumes "valid i"
  shows "backlog i s < fuel \<Longrightarrow> \<exists>s'. drain (step i) fuel s = Some s' \<and> backlog i s' = 0"
proof (induction fuel arbitrary: s)
  case 0
  then show ?case by simp
next
  case (Suc fuel)
  obtain w again s' where st: "step i s = (w, again, s')" by (cases "step i s")
  show ?case
  proof (cases again)
    case True
    then have "backlog i s' < fuel"
      using Suc.prems work_done [OF assms st] more_full [OF assms st] limit_pos [OF assms] by simp
    from Suc.IH [OF this] show ?thesis using True by (simp add: st)
  next
    case False
    then show ?thesis using more_iff [OF assms st] by (simp add: st)
  qed
qed

text \<open>A property that every step keeps holds of the store the drain leaves.\<close>

lemma drain_keeps:
  assumes "\<And>s w again s'. step i s = (w, again, s') \<Longrightarrow> P s \<Longrightarrow> P s'"
  shows "drain (step i) fuel s = Some s' \<Longrightarrow> P s \<Longrightarrow> P s'"
proof (induction fuel arbitrary: s)
  case 0
  then show ?case by simp
next
  case (Suc fuel)
  obtain w again s1 where st: "step i s = (w, again, s1)" by (cases "step i s")
  from assms [OF st Suc.prems(2)] Suc show ?case by (auto simp: st split: if_splits)
qed

end

section \<open>A collector that is one sweep\<close>

text \<open>The body \<open>collectExpired\<close> has in the stores that remove the eligible rows of one \<open>Map\<close>.\<close>

definition sweep_collect ::
  "(string \<times> 'v \<Rightarrow> bool) \<Rightarrow> 'x collect_expired_input_scheme \<Rightarrow> 'v jmap \<Rightarrow> ('c, collect_expired_result) result \<times> 'v jmap" where
  "sweep_collect eligible input m =
     (case assertCollectExpiredInput input of
        Inl e \<Rightarrow> (Inl e, m)
      | Inr _ \<Rightarrow>
          (case sweep eligible (num_int (ci_limit input)) 0 m of
             (m', removed, again) \<Rightarrow>
               (Inr \<lparr>cc_removed = removed, cc_expired = 0, cc_releasedBytes = 0, cr_more = again\<rparr>, m')))"

definition valid_collect :: "'x collect_expired_input_scheme \<Rightarrow> bool" where
  "valid_collect input = (isCanonicalTimestamp (ci_now input) \<and> isSafeInteger (ci_limit input) \<and> 0 < num_int (ci_limit input))"

lemma assertCollectExpiredInput_valid: "valid_collect input \<Longrightarrow> assertCollectExpiredInput input = Inr ()"
  by (simp add: assertCollectExpiredInput_Inr valid_collect_def)

text \<open>The work and the store of an answered call; a refused call did nothing.\<close>

definition collect_step :: "('c, collect_expired_result) result \<times> 's \<Rightarrow> int \<times> bool \<times> 's" where
  "collect_step r = (case r of (Inl _, s) \<Rightarrow> (0, False, s) | (Inr c, s) \<Rightarrow> (cc_removed c + cc_expired c, cr_more c, s))"

lemma sweep_collect_step:
  "valid_collect input \<Longrightarrow> collect_step (sweep_collect el input m) =
     (case sweep el (num_int (ci_limit input)) 0 m of (m', r, again) \<Rightarrow> (r, again, m'))"
  by (simp add: sweep_collect_def assertCollectExpiredInput_valid collect_step_def split: prod.splits)

lemma sweep_collector:
  fixes el :: "'i \<Rightarrow> string \<times> 'v \<Rightarrow> bool" and input :: "'i \<Rightarrow> 'x collect_expired_input_scheme"
  shows "bounded_collector (\<lambda>i m. collect_step (sweep_collect (el i) (input i) m))
    (\<lambda>i. valid_collect (input i)) (\<lambda>i. eligible_count (el i)) (\<lambda>i. num_int (ci_limit (input i)))"
proof (unfold_locales, goal_cases)
  case (1 i)
  then show ?case by (simp add: valid_collect_def)
next
  case (2 i m w again m')
  then have "0 \<le> num_int (ci_limit (input i))" by (simp add: valid_collect_def)
  with 2 show ?case by (auto simp: sweep_collect_step split: prod.splits dest: sweep_spec)
next
  case (3 i m w again m')
  then have "0 \<le> num_int (ci_limit (input i))" by (simp add: valid_collect_def)
  with 3 show ?case by (auto simp: sweep_collect_step split: prod.splits dest: sweep_spec)
next
  case (4 i m w again m')
  then have "0 \<le> num_int (ci_limit (input i))" by (simp add: valid_collect_def)
  with 4 show ?case by (auto simp: sweep_collect_step split: prod.splits dest: sweep_spec)
next
  case (5 i m w again m')
  then have "0 \<le> num_int (ci_limit (input i))" by (simp add: valid_collect_def)
  with 5 show ?case by (auto simp: sweep_collect_step split: prod.splits dest: sweep_spec)
qed

text \<open>What a sweep leaves behind.\<close>

lemma snd_sweep_collect:
  "snd (sweep_collect el input m) = (if valid_collect input then fst (sweep el (num_int (ci_limit input)) 0 m) else m)"
  by (simp add: sweep_collect_def assertCollectExpiredInput_def assertCanonicalTimestamp_def valid_collect_def not_less
      split: prod.splits)

lemma valid_collect_limit: "valid_collect input \<Longrightarrow> 0 \<le> num_int (ci_limit input)"
  by (simp add: valid_collect_def)

lemma sweep_collect_kept:
  assumes "jmap_ok m" and "jget m k = Some v" and "\<not> el (k, v)"
  shows "jget (snd (sweep_collect el input m)) k = Some v"
proof -
  obtain m' r again where sw: "sweep el (num_int (ci_limit input)) 0 m = (m', r, again)"
    by (cases "sweep el (num_int (ci_limit input)) 0 m")
  show ?thesis
    using sweep_jget_kept [OF sw assms] assms(2) by (simp add: snd_sweep_collect sw valid_collect_limit)
qed

lemma sweep_collect_subset: "set (snd (sweep_collect el input m)) \<subseteq> set m"
  and sweep_collect_ok: "jmap_ok m \<Longrightarrow> jmap_ok (snd (sweep_collect el input m))"
proof -
  obtain m' r again where sw: "sweep el (num_int (ci_limit input)) 0 m = (m', r, again)"
    by (cases "sweep el (num_int (ci_limit input)) 0 m")
  show "set (snd (sweep_collect el input m)) \<subseteq> set m"
    and "jmap_ok m \<Longrightarrow> jmap_ok (snd (sweep_collect el input m))"
    using sweep_spec [OF sw] by (auto simp: snd_sweep_collect sw valid_collect_limit)
qed

lemma sweep_collect_old:
  assumes "jmap_ok m" and "jget (snd (sweep_collect el input m)) k = Some v"
  shows "jget m k = Some v"
  using assms(2) sweep_collect_subset [of el input m] jget_SomeD [of "snd (sweep_collect el input m)" k v]
  by (auto simp: jget_Some_iff [OF assms(1)])

lemma sweep_cong:
  "(\<And>e. e \<in> set m \<Longrightarrow> el e = el' e) \<Longrightarrow> sweep el limit removed m = sweep el' limit removed m"
  by (induction el limit removed m rule: sweep.induct) (auto split: prod.splits)

lemma sweep_rows:
  assumes "\<And>e. e \<in> set m \<Longrightarrow> el e \<Longrightarrow> in_tenant t (fst e)"
  shows "sweep el limit 0 (tenant_rows t m) =
    (case sweep el limit 0 m of (m', r, again) \<Rightarrow> (tenant_rows t m', r, again))"
proof -
  let ?P = "\<lambda>(k, _). in_tenant t k"
  let ?el = "\<lambda>e. el e \<and> ?P e"
  have "sweep el limit 0 (filter ?P m) = sweep ?el limit 0 (filter ?P m)"
    by (intro sweep_cong) auto
  also have "\<dots> = (case sweep ?el limit 0 m of (m', r, again) \<Rightarrow> (filter ?P m', r, again))"
    by (intro sweep_filter) simp
  also have "sweep ?el limit 0 m = sweep el limit 0 m"
    using assms by (intro sweep_cong) auto
  finally show ?thesis by (simp add: tenant_rows_def)
qed

lemma sweep_collect_rows:
  assumes "\<And>e. e \<in> set m \<Longrightarrow> el e \<Longrightarrow> in_tenant t (fst e)"
  shows "sweep_collect el input (tenant_rows t m) = map_prod id (tenant_rows t) (sweep_collect el input m)"
  using sweep_rows [OF assms] by (simp add: sweep_collect_def split: sum.splits prod.splits)

lemma sweep_collect_rows_other:
  assumes "\<And>e. e \<in> set m \<Longrightarrow> el e \<Longrightarrow> \<not> in_tenant u (fst e)"
  shows "tenant_rows u (snd (sweep_collect el input m)) = tenant_rows u m"
  using sweep_tenant_rows_other [OF assms] by (simp add: snd_sweep_collect)

end
