(* ===== verification/Truth.thy ===== *)
theory Truth
  imports Retention
begin

text \<open>
  Truth records (\<open>packages/core/src/truth.ts\<close>, \<open>in-memory/truth.ts\<close>): the first terminal
  record of a task is immutable, profile and memory snapshots move by a revision CAS, and the
  manifest lists metadata only.
\<close>

datatype truth_record_kind = Task_terminal | Profile | Memory

fun kind_str :: "truth_record_kind \<Rightarrow> string" where
  "kind_str Task_terminal = ''task.terminal''"
| "kind_str Profile = ''profile''"
| "kind_str Memory = ''memory''"

datatype truth_body_ref = InlineBody string | ObjectBody string

record truth_record =
  tr_tenantId :: tenant
  tr_kind :: truth_record_kind
  tr_recordKey :: string
  tr_rev :: int
  tr_contentHash :: string
  tr_byteSize :: int
  tr_body :: truth_body_ref
  tr_label :: "string option"
  tr_requestId :: "string option"
  tr_writtenAt :: string

record truth_manifest_entry =
  te_kind :: truth_record_kind
  te_recordKey :: string
  te_rev :: int
  te_contentHash :: string
  te_byteSize :: int
  te_label :: "string option"
  te_updatedAt :: string

record terminal_write_input =
  tw_taskId :: string
  tw_contentHash :: string
  tw_byteSize :: int
  tw_body :: truth_body_ref
  tw_label :: "string option"
  tw_requestId :: "string option"

text \<open>\<open>kind\<close> is \<open>'profile' | 'memory'\<close> in the source: a snapshot kind of its own here.\<close>

datatype snapshot_kind = ProfileSnapshot | MemorySnapshot

fun snapshot_record_kind :: "snapshot_kind \<Rightarrow> truth_record_kind" where
  "snapshot_record_kind ProfileSnapshot = Profile"
| "snapshot_record_kind MemorySnapshot = Memory"

record snapshot_write_input =
  sw_kind :: snapshot_kind
  sw_recordKey :: string
  sw_expectedRev :: int
  sw_contentHash :: string
  sw_byteSize :: int
  sw_body :: truth_body_ref
  sw_label :: "string option"
  sw_requestId :: "string option"

record truth_manifest_query =
  tq_kind :: "truth_record_kind option"
  tq_keyPrefix :: "string option"
  tq_limit :: "int option"

definition DEFAULT_MANIFEST_LIMIT :: int where
  "DEFAULT_MANIFEST_LIMIT = 100"

type_synonym truth_state = "truth_record jmap"
type_synonym 'a truth_outcome = "(truth_record option, 'a, truth_state) outcome"

definition truth_key :: "tenant \<Rightarrow> truth_record_kind \<Rightarrow> string \<Rightarrow> string" where
  "truth_key t k rk = tenantKey t [kind_str k, rk]"

definition writeTerminal :: "tenant \<Rightarrow> terminal_write_input \<Rightarrow> int \<Rightarrow> truth_state \<Rightarrow> truth_record truth_outcome" where
  "writeTerminal t input now s =
     (let key = truth_key t Task_terminal (tw_taskId input)
      in case jget s key of
           Some existing \<Rightarrow>
             if tr_contentHash existing = tw_contentHash input then (Inr existing, s)
             else (Inl (CoreConflictError Terminal_conflict (Some existing) (toISOString now)), s)
         | None \<Rightarrow>
             let r = \<lparr>tr_tenantId = t, tr_kind = Task_terminal, tr_recordKey = tw_taskId input,
                      tr_rev = 1, tr_contentHash = tw_contentHash input, tr_byteSize = tw_byteSize input,
                      tr_body = tw_body input, tr_label = tw_label input,
                      tr_requestId = tw_requestId input, tr_writtenAt = toISOString now\<rparr>
             in (Inr r, jset key r s))"

definition writeSnapshot :: "tenant \<Rightarrow> snapshot_write_input \<Rightarrow> int \<Rightarrow> truth_state \<Rightarrow> truth_record truth_outcome" where
  "writeSnapshot t input now s =
     (let key = truth_key t (snapshot_record_kind (sw_kind input)) (sw_recordKey input);
          existing = jget s key;
          currentRev = (case existing of None \<Rightarrow> 0 | Some r \<Rightarrow> tr_rev r)
      in if sw_expectedRev input \<noteq> currentRev
         then (Inl (CoreConflictError Truth_revision_conflict existing (toISOString now)), s)
         else
           let r = \<lparr>tr_tenantId = t, tr_kind = snapshot_record_kind (sw_kind input), tr_recordKey = sw_recordKey input,
                    tr_rev = currentRev + 1, tr_contentHash = sw_contentHash input,
                    tr_byteSize = sw_byteSize input, tr_body = sw_body input, tr_label = sw_label input,
                    tr_requestId = sw_requestId input, tr_writtenAt = toISOString now\<rparr>
           in (Inr r, jset key r s))"

definition getRecord :: "tenant \<Rightarrow> truth_record_kind \<Rightarrow> string \<Rightarrow> truth_state \<Rightarrow> truth_record option" where
  "getRecord t k rk s = jget s (truth_key t k rk)"

text \<open>
  \<open>localeCompare\<close> depends on the host's collation, so it is the parameter \<open>lc\<close>; the \<open>||\<close> of the
  source falls through to the second comparison when the first is 0.
\<close>

definition manifest_entry :: "truth_record \<Rightarrow> truth_manifest_entry" where
  "manifest_entry r =
     \<lparr>te_kind = tr_kind r, te_recordKey = tr_recordKey r, te_rev = tr_rev r,
      te_contentHash = tr_contentHash r, te_byteSize = tr_byteSize r, te_label = tr_label r,
      te_updatedAt = tr_writtenAt r\<rparr>"

definition manifest_match :: "tenant \<Rightarrow> truth_manifest_query \<Rightarrow> string \<times> truth_record \<Rightarrow> bool" where
  "manifest_match t q = (\<lambda>(key, r).
     in_tenant t key \<and> (case tq_kind q of None \<Rightarrow> True | Some k \<Rightarrow> tr_kind r = k) \<and>
     (case tq_keyPrefix q of None \<Rightarrow> True | Some p \<Rightarrow> prefix p (tr_recordKey r)))"

definition listManifest ::
  "(string \<Rightarrow> string \<Rightarrow> int) \<Rightarrow> tenant \<Rightarrow> truth_manifest_query \<Rightarrow> truth_state \<Rightarrow> truth_manifest_entry list" where
  "listManifest lc t q s =
     (let entries = map (\<lambda>(_, r). manifest_entry r) (filter (manifest_match t q) s);
          cmp = (\<lambda>l r. let c = lc (kind_str (te_kind l)) (kind_str (te_kind r))
                       in if c \<noteq> 0 then c else lc (te_recordKey l) (te_recordKey r))
      in slice0 (case tq_limit q of None \<Rightarrow> DEFAULT_MANIFEST_LIMIT | Some n \<Rightarrow> n) (sort_by cmp entries))"

section \<open>One call of the port\<close>

datatype truth_op =
    WriteTerminal terminal_write_input int
  | WriteSnapshot snapshot_write_input int
  | GetRecord truth_record_kind string
  | ListManifest truth_manifest_query

datatype truth_answer =
    TruthWritten "(truth_record option, truth_record) result"
  | TruthFound "truth_record option"
  | TruthListed "truth_manifest_entry list"

fun truth_exec :: "(string \<Rightarrow> string \<Rightarrow> int) \<Rightarrow> tenant \<Rightarrow> truth_op \<Rightarrow> truth_state \<Rightarrow> truth_answer \<times> truth_state" where
  "truth_exec lc t (WriteTerminal i now) s = (case writeTerminal t i now s of (r, s') \<Rightarrow> (TruthWritten r, s'))"
| "truth_exec lc t (WriteSnapshot i now) s = (case writeSnapshot t i now s of (r, s') \<Rightarrow> (TruthWritten r, s'))"
| "truth_exec lc t (GetRecord k rk) s = (TruthFound (getRecord t k rk s), s)"
| "truth_exec lc t (ListManifest q) s = (TruthListed (listManifest lc t q s), s)"

lemmas truth_defs = writeTerminal_def writeSnapshot_def getRecord_def Let_def

section \<open>Keys\<close>

lemma kind_str_no_sep: "TENANT_KEY_SEPARATOR \<notin> set (kind_str k)"
  by (cases k) (simp_all add: TENANT_KEY_SEPARATOR_def)

lemma kind_str_inject [simp]: "kind_str k = kind_str k' \<longleftrightarrow> k = k'"
  by (cases k; cases k') simp_all

lemma truth_key_inject:
  "isTenantId t \<Longrightarrow> isTenantId u \<Longrightarrow> truth_key t k rk = truth_key u k' rk' \<longleftrightarrow> t = u \<and> k = k' \<and> rk = rk'"
  using tenantKey_inject [of t u "[kind_str k]" "[kind_str k']" rk rk']
  by (simp add: truth_key_def kind_str_no_sep)

lemma in_tenant_truth_key [simp]:
  "isTenantId t \<Longrightarrow> isTenantId u \<Longrightarrow> in_tenant t (truth_key u k rk) \<longleftrightarrow> t = u"
  by (simp add: truth_key_def in_tenant_key)

lemma in_tenant_truth_key_own [simp]: "in_tenant t (truth_key t k rk)"
  by (simp add: truth_key_def in_tenant_own)

lemma snapshot_kind_not_terminal [simp]: "snapshot_record_kind k \<noteq> Task_terminal"
  by (cases k) simp_all

section \<open>Well-formed stores\<close>

definition truth_inv :: "truth_state \<Rightarrow> bool" where
  "truth_inv s = (jmap_ok s \<and>
     (\<forall>k r. jget s k = Some r \<longrightarrow>
        isTenantId (tr_tenantId r) \<and> k = truth_key (tr_tenantId r) (tr_kind r) (tr_recordKey r) \<and> 1 \<le> tr_rev r \<and>
        (tr_kind r = Task_terminal \<longrightarrow> tr_rev r = 1)))"

lemma truth_inv_Nil [simp]: "truth_inv []"
  by (simp add: truth_inv_def)

lemma truth_inv_jset:
  "truth_inv s \<Longrightarrow> isTenantId (tr_tenantId r) \<Longrightarrow> k = truth_key (tr_tenantId r) (tr_kind r) (tr_recordKey r) \<Longrightarrow> 1 \<le> tr_rev r \<Longrightarrow>
   (tr_kind r = Task_terminal \<Longrightarrow> tr_rev r = 1) \<Longrightarrow> truth_inv (jset k r s)"
  by (simp add: truth_inv_def)

lemma truth_inv_rev: "truth_inv s \<Longrightarrow> jget s k = Some r \<Longrightarrow> 0 \<le> tr_rev r"
  by (force simp: truth_inv_def)

lemma truth_exec_inv: "isTenantId t \<Longrightarrow> truth_inv s \<Longrightarrow> truth_inv (snd (truth_exec lc t op s))"
  by (cases op)
    (auto simp: truth_defs intro!: truth_inv_jset intro: truth_inv_rev split: option.splits)

text \<open>A terminal record, once stored, is what every later call of any tenant leaves in place.\<close>

lemma truth_exec_terminal_kept:
  assumes "isTenantId t" and "isTenantId u"
    and "jget s (truth_key u Task_terminal task) = Some r"
  shows "jget (snd (truth_exec lc t op s)) (truth_key u Task_terminal task) = Some r"
  using assms
  by (cases op) (auto simp: truth_defs truth_key_inject split: option.splits)

section \<open>Isolation\<close>

lemma listManifest_tenant_rows: "listManifest lc t q (tenant_rows t s) = listManifest lc t q s"
proof -
  have "filter (manifest_match t q) (tenant_rows t s) = filter (manifest_match t q) s"
    by (auto simp: tenant_rows_def manifest_match_def intro: filter_cong)
  then show ?thesis by (simp add: listManifest_def)
qed

lemma truth_exec_rows: "restricts t (truth_exec lc t op (tenant_rows t s)) (truth_exec lc t op s)"
  by (cases op) (auto simp: restricts_def truth_defs listManifest_tenant_rows split: option.splits)

interpretation truth_store: row_store "truth_exec lc" for lc
proof unfold_locales
  fix t u op and s :: truth_state
  assume "isTenantId t" "isTenantId u" "t \<noteq> u"
  then show "tenant_rows u (snd (truth_exec lc t op s)) = tenant_rows u s"
    by (cases op) (auto simp: truth_defs split: option.splits)
qed (rule truth_exec_rows)

section \<open>Histories\<close>

text \<open>Where a record may go: the revision grows, and a revision never changes its content.\<close>

definition record_le :: "truth_record \<Rightarrow> truth_record \<Rightarrow> bool" where
  "record_le r r' = (tr_rev r \<le> tr_rev r' \<and> (tr_rev r = tr_rev r' \<or> tr_kind r = Task_terminal \<longrightarrow> r' = r))"

definition truth_le :: "truth_state \<Rightarrow> truth_state \<Rightarrow> bool" where
  "truth_le s s' = (\<forall>k r. jget s k = Some r \<longrightarrow> (\<exists>r'. jget s' k = Some r' \<and> record_le r r'))"

lemma record_le_refl: "record_le r r"
  by (simp add: record_le_def)

lemma record_le_trans: "record_le a b \<Longrightarrow> record_le b c \<Longrightarrow> record_le a c"
  by (auto simp: record_le_def)

lemma truth_le_jset:
  "(\<And>r. jget s k = Some r \<Longrightarrow> record_le r r') \<Longrightarrow> truth_le s (jset k r' s)"
  by (simp add: truth_le_def record_le_refl)

lemma truth_snapshot_kind:
  assumes "truth_inv s" and "isTenantId t" and "jget s (truth_key t (snapshot_record_kind k) rk) = Some r"
  shows "tr_kind r \<noteq> Task_terminal"
proof -
  have "isTenantId (tr_tenantId r)" "truth_key t (snapshot_record_kind k) rk = truth_key (tr_tenantId r) (tr_kind r) (tr_recordKey r)"
    using assms(1,3) by (simp_all add: truth_inv_def)
  then show ?thesis using assms(2) by (auto simp: truth_key_inject)
qed

lemma truth_exec_mono:
  assumes "isTenantId t" and "truth_inv s"
  shows "truth_le s (snd (truth_exec lc t op s))"
proof -
  have refl: "truth_le s s" by (auto simp: truth_le_def record_le_def)
  show ?thesis
    using refl truth_snapshot_kind [OF assms(2,1)]
    by (cases op) (auto simp: truth_defs record_le_def intro!: truth_le_jset split: option.splits)
qed

interpretation truth_history: monotone_store "truth_exec lc" tenant_call truth_inv truth_le for lc
proof (unfold_locales, goal_cases)
  case (1 t op s)
  then show ?case by (simp add: truth_exec_inv)
next
  case (2 s)
  then show ?case by (auto simp: truth_le_def record_le_def)
next
  case (3 a b c)
  then show ?case unfolding truth_le_def by (meson record_le_trans)
next
  case (4 t op s)
  then show ?case by (simp add: truth_exec_mono)
qed

definition sample_terminal :: "string \<Rightarrow> terminal_write_input" where
  "sample_terminal h = \<lparr>tw_taskId = ''t1'', tw_contentHash = h, tw_byteSize = 3, tw_body = InlineBody ''x'',
     tw_label = None, tw_requestId = None\<rparr>"

definition sample_snapshot :: "int \<Rightarrow> string \<Rightarrow> snapshot_write_input" where
  "sample_snapshot n h = \<lparr>sw_kind = ProfileSnapshot, sw_recordKey = ''p'', sw_expectedRev = n, sw_contentHash = h,
     sw_byteSize = 1, sw_body = InlineBody h, sw_label = None, sw_requestId = None\<rparr>"

text \<open>
  C6. Records only move forward: after any history of calls by any tenants a stored record is
  still there, its revision has not decreased, a revision that was once read still has the same
  content, and the first terminal record of a task is never replaced.
\<close>

theorem truth_records_move_forward:
  assumes "truth_inv s" and "\<forall>(u, op) \<in> set ops. isTenantId u" and "getRecord t k rk s = Some r"
  shows "\<exists>r'. getRecord t k rk (snd (run_ops (truth_exec lc) ops s)) = Some r' \<and> tr_rev r \<le> tr_rev r' \<and>
    (tr_rev r' = tr_rev r \<longrightarrow> r' = r) \<and> (tr_kind r = Task_terminal \<longrightarrow> r' = r)"
  using truth_history.run_mono [OF assms(2,1), of lc] assms(3)
  unfolding truth_le_def getRecord_def record_le_def by metis

definition sample_truth :: truth_state where
  "sample_truth = snd (writeTerminal ''acme'' (sample_terminal ''h'') 0 [])"

lemma sample_truth_inv: "truth_inv sample_truth"
  using truth_exec_inv [of "''acme''" "[]" "\<lambda>_ _. 0" "WriteTerminal (sample_terminal ''h'') 0"]
  by (simp add: sample_truth_def split_beta)

theorem truth_records_move_forward_witness:
  "\<exists>r. getRecord ''acme'' Task_terminal ''t1''
     (snd (run_ops (truth_exec (\<lambda>_ _. 0)) [(''acme'', WriteTerminal (sample_terminal ''other'') 9)] sample_truth)) = Some r \<and>
   tr_contentHash r = ''h''"
proof -
  obtain r where r: "getRecord ''acme'' Task_terminal ''t1'' sample_truth = Some r" "tr_kind r = Task_terminal" "tr_contentHash r = ''h''"
    by (simp add: sample_truth_def writeTerminal_def getRecord_def sample_terminal_def Let_def)
  show ?thesis
    using truth_records_move_forward [OF sample_truth_inv _ r(1), of "[(''acme'', WriteTerminal (sample_terminal ''other'') 9)]" "\<lambda>_ _. 0"] r
    by (simp only: list.set insert_iff sample_tenants split_conv) auto
qed

definition rival :: "snapshot_write_input \<Rightarrow> snapshot_write_input \<Rightarrow> bool" where
  "rival i j = (sw_kind i = sw_kind j \<and> sw_recordKey i = sw_recordKey j \<and> sw_expectedRev i = sw_expectedRev j)"

lemma truth_stale_writers:
  assumes "getRecord t (snapshot_record_kind k) rk s = Some r"
    and "\<forall>j \<in> set is. sw_kind j = k \<and> sw_recordKey j = rk \<and> sw_expectedRev j \<noteq> tr_rev r"
  shows "run_ops (truth_exec lc) (map (\<lambda>j. (t, WriteSnapshot j now)) is) s =
    (map (\<lambda>_. (t, TruthWritten (Inl (CoreConflictError Truth_revision_conflict (Some r) (toISOString now))))) is, s)"
  using assms(2)
proof (induction "is")
  case Nil
  then show ?case by simp
next
  case (Cons j js)
  have "writeSnapshot t j now s = (Inl (CoreConflictError Truth_revision_conflict (Some r) (toISOString now)), s)"
    using Cons.prems assms(1) by (simp add: writeSnapshot_def getRecord_def Let_def)
  moreover have "\<forall>j \<in> set js. sw_kind j = k \<and> sw_recordKey j = rk \<and> sw_expectedRev j \<noteq> tr_rev r"
    using Cons.prems by (meson list.set_intros(2))
  note Cons.IH [OF this]
  ultimately show ?case by (simp add: run_ops_step del: run_ops.simps)
qed

text \<open>
  Revision CAS: when several writers that read the same revision write the same snapshot, the
  first succeeds and moves the revision by one, and every other one is refused with a conflict
  that carries the winner's record.
\<close>

theorem truth_snapshot_race:
  assumes "\<forall>j \<in> set is. rival i j"
    and "sw_expectedRev i = (case getRecord t (snapshot_record_kind (sw_kind i)) (sw_recordKey i) s of None \<Rightarrow> 0 | Some r \<Rightarrow> tr_rev r)"
  shows "\<exists>r. tr_rev r = sw_expectedRev i + 1 \<and> tr_contentHash r = sw_contentHash i \<and>
    run_ops (truth_exec lc) (map (\<lambda>j. (t, WriteSnapshot j now)) (i # is)) s =
      ((t, TruthWritten (Inr r)) #
       map (\<lambda>_. (t, TruthWritten (Inl (CoreConflictError Truth_revision_conflict (Some r) (toISOString now))))) is,
       jset (truth_key t (snapshot_record_kind (sw_kind i)) (sw_recordKey i)) r s)"
proof -
  obtain r where w: "writeSnapshot t i now s = (Inr r, jset (truth_key t (snapshot_record_kind (sw_kind i)) (sw_recordKey i)) r s)"
    and r: "tr_rev r = sw_expectedRev i + 1" "tr_contentHash r = sw_contentHash i"
    using assms(2) by (simp add: writeSnapshot_def getRecord_def Let_def)
  let ?s = "jset (truth_key t (snapshot_record_kind (sw_kind i)) (sw_recordKey i)) r s"
  have "run_ops (truth_exec lc) (map (\<lambda>j. (t, WriteSnapshot j now)) is) ?s =
    (map (\<lambda>_. (t, TruthWritten (Inl (CoreConflictError Truth_revision_conflict (Some r) (toISOString now))))) is, ?s)"
    using assms(1) r by (intro truth_stale_writers [where k = "sw_kind i" and rk = "sw_recordKey i"]) (auto simp: getRecord_def rival_def)
  with w r show ?thesis by simp
qed

theorem truth_snapshot_race_witness:
  "\<exists>r. tr_contentHash r = ''a'' \<and>
    fst (run_ops (truth_exec (\<lambda>_ _. 0)) (map (\<lambda>j. (''acme'', WriteSnapshot j 5)) [sample_snapshot 0 ''a'', sample_snapshot 0 ''b'']) []) =
      [(''acme'', TruthWritten (Inr r)),
       (''acme'', TruthWritten (Inl (CoreConflictError Truth_revision_conflict (Some r) (toISOString 5))))]"
  using truth_snapshot_race [of "[sample_snapshot 0 ''b'']" "sample_snapshot 0 ''a''" "''acme''" "[]" "\<lambda>_ _. 0" 5]
  by (auto simp: rival_def sample_snapshot_def getRecord_def)

end
