(* ===== verification/Feed.thy ===== *)
theory Feed
  imports Prelude
begin

text \<open>
  Cursor feeds. The mailbox's \<open>readAfter\<close> and the board's \<open>list\<close> answer the rows after a
  cursor in pages: the first \<open>limit\<close> of them, the cursor to continue from and whether rows are
  left. The contract of such a feed, and that a client that follows the cursor sees every row
  once, are stated here; the mailbox, the board and the task list provide it.
\<close>

text \<open>The client: ask for the page after the cursor while \<open>hasMore\<close> holds.\<close>

fun poll :: "('k \<Rightarrow> 'a list \<times> 'k \<times> bool) \<Rightarrow> nat \<Rightarrow> 'k \<Rightarrow> 'a list option" where
  "poll fetch 0 a = None"
| "poll fetch (Suc fuel) a =
     (case fetch a of (rows, cursor, hasMore) \<Rightarrow>
        if hasMore then map_option (\<lambda>rest. rows @ rest) (poll fetch fuel cursor) else Some rows)"

lemma sorted_split:
  fixes f :: "'a \<Rightarrow> 'k :: linorder"
  assumes "sorted_wrt (<) (map f (xs @ ys))" and "xs \<noteq> []"
  shows "filter (\<lambda>i. f (last xs) < f i) (xs @ ys) = ys"
proof -
  obtain zs z where xs: "xs = zs @ [z]" using assms(2) by (cases xs rule: rev_exhaust) auto
  have "\<forall>x \<in> set zs. \<not> f z < f x" "\<forall>y \<in> set ys. f z < f y"
    using assms(1) by (auto simp: xs sorted_wrt_append)
  then show ?thesis by (simp add: xs filter_empty_conv)
qed

lemma sorted_wrt_less_key: "sorted_wrt (<) (map f xs) \<longleftrightarrow> sorted (map f xs) \<and> distinct (map f xs)"
  for f :: "'a \<Rightarrow> 'k :: linorder"
  by (simp add: strict_sorted_iff)

locale cursor_feed =
  fixes ok :: "'q \<Rightarrow> 's \<Rightarrow> bool"
    and after :: "'q \<Rightarrow> 'k :: linorder \<Rightarrow> 's \<Rightarrow> 'a list"
    and key :: "'a \<Rightarrow> 'k"
    and page :: "'q \<Rightarrow> int \<Rightarrow> 'k \<Rightarrow> 's \<Rightarrow> 'a list \<times> 'k \<times> bool"
    and limit_ok :: "int \<Rightarrow> bool"
  assumes strict: "ok q s \<Longrightarrow> sorted_wrt (<) (map key (after q a s))"
    and beyond: "x \<in> set (after q a s) \<Longrightarrow> a < key x"
    and later: "a \<le> b \<Longrightarrow> after q b s = filter (\<lambda>x. b < key x) (after q a s)"
    and limit_pos: "limit_ok limit \<Longrightarrow> 0 < limit"
    and page_rows: "limit_ok limit \<Longrightarrow> page q limit a s = (rows, cursor, hasMore) \<Longrightarrow>
      rows = take (nat limit) (after q a s) \<and> (hasMore \<longleftrightarrow> nat limit < length (after q a s)) \<and>
      (hasMore \<longrightarrow> cursor = key (last rows))"
begin

text \<open>The rows after a cursor are the page and then the rows after the page's cursor.\<close>

lemma page_split:
  assumes "ok q s" and "limit_ok limit" and "page q limit a s = (rows, cursor, True)"
  shows "after q a s = rows @ after q cursor s" and "rows \<noteq> []"
proof -
  let ?ys = "drop (nat limit) (after q a s)"
  have rows: "rows = take (nat limit) (after q a s)" and cursor: "cursor = key (last rows)"
    and long: "nat limit < length (after q a s)"
    using page_rows [OF assms(2,3)] by auto
  show ne: "rows \<noteq> []" using long limit_pos [OF assms(2)] by (auto simp: rows)
  have all: "after q a s = rows @ ?ys" by (simp add: rows)
  have "last rows \<in> set (after q a s)" using ne unfolding rows by (metis in_set_takeD last_in_set)
  then have "a < cursor" using beyond cursor by simp
  then have "after q cursor s = filter (\<lambda>x. cursor < key x) (rows @ ?ys)"
    using later [of a cursor q s] all by simp
  also have "\<dots> = ?ys"
    unfolding cursor using strict [OF assms(1), of a] all ne by (intro sorted_split) simp_all
  finally show "after q a s = rows @ after q cursor s" using all by simp
qed

lemma poll_complete:
  assumes "ok q s" and "limit_ok limit" and "length (after q a s) < fuel"
  shows "poll (\<lambda>c. page q limit c s) fuel a = Some (after q a s)"
  using assms(3)
proof (induction fuel arbitrary: a)
  case 0
  then show ?case by simp
next
  case (Suc fuel)
  obtain rows cursor hasMore where p: "page q limit a s = (rows, cursor, hasMore)"
    by (cases "page q limit a s")
  show ?case
  proof (cases hasMore)
    case True
    with p have "page q limit a s = (rows, cursor, True)" by simp
    note S = page_split [OF assms(1,2) this]
    then have "length (after q cursor s) < fuel"
      using Suc.prems arg_cong [OF S(1), of length] by (cases rows) simp_all
    from Suc.IH [OF this] show ?thesis using True S(1) by (simp add: p)
  next
    case False
    then have "rows = after q a s" using page_rows [OF assms(2) p] by simp
    with False show ?thesis by (simp add: p)
  qed
qed

end

end
