(* ===== verification/Board.thy ===== *)
theory Board
  imports Retention Feed
begin

text \<open>
  Board coordination (\<open>packages/core/src/board.ts\<close>, \<open>in-memory/board.ts\<close>): work items with a
  status and an optional holder, where every mutation is a compare-and-set and every mutation
  takes the next number of a per-tenant sequence, so that \<open>list({ afterSeq })\<close> is an
  incremental feed.
\<close>

datatype board_status = Todo | In_progress | In_review | Done | Closed

fun BOARD_TRANSITIONS :: "board_status \<Rightarrow> board_status list" where
  "BOARD_TRANSITIONS Todo = [In_progress, Closed]"
| "BOARD_TRANSITIONS In_progress = [Todo, In_review, Closed]"
| "BOARD_TRANSITIONS In_review = [In_progress, Done, Closed]"
| "BOARD_TRANSITIONS Done = []"
| "BOARD_TRANSITIONS Closed = []"

definition isLegalBoardTransition :: "board_status \<Rightarrow> board_status \<Rightarrow> bool" where
  "isLegalBoardTransition from to = (to \<in> set (BOARD_TRANSITIONS from))"

record board_assignee =
  ba_holderId :: string
  ba_heldSince :: string

record board_item =
  bi_tenantId :: tenant
  bi_itemId :: string
  bi_channel :: string
  bi_title :: string
  bi_status :: board_status
  bi_assignee :: "board_assignee option"
  bi_boardSeq :: int
  bi_createdAt :: string
  bi_updatedAt :: string

record board_item_input =
  bn_itemId :: string
  bn_channel :: string
  bn_title :: string
  bn_status :: "board_status option"

record board_list_query =
  bq_afterSeq :: "int option"
  bq_channel :: "string option"
  bq_status :: "board_status option"
  bq_limit :: "int option"

record board_page =
  bp_items :: "board_item list"
  bp_nextSeq :: int
  bp_hasMore :: bool

record board_claim_input =
  bc_itemId :: string
  bc_holderId :: string
  bc_expectedStatus :: "board_status option"

record board_unclaim_input =
  bu_itemId :: string
  bu_holderId :: string

record board_status_update_input =
  bs_itemId :: string
  bs_expectedStatus :: board_status
  bs_status :: board_status
  bs_holderId :: "string option"

record board_state =
  items :: "board_item jmap"
  seqByTenant :: "int jmap"

type_synonym 'a board_outcome = "(board_item, 'a, board_state) outcome"

definition DEFAULT_LIST_LIMIT :: int where
  "DEFAULT_LIST_LIMIT = 50"

definition empty_board :: board_state where
  "empty_board = \<lparr>items = [], seqByTenant = []\<rparr>"

text \<open>\<open>#nextSeq\<close>: the number handed out and the sequence after it.\<close>

definition board_seq :: "tenant \<Rightarrow> board_state \<Rightarrow> int" where
  "board_seq t s = (case jget (seqByTenant s) t of None \<Rightarrow> 0 | Some n \<Rightarrow> n)"

definition nextSeq :: "tenant \<Rightarrow> board_state \<Rightarrow> int \<times> board_state" where
  "nextSeq t s = (let n = board_seq t s + 1 in (n, s\<lparr>seqByTenant := jset t n (seqByTenant s)\<rparr>))"

text \<open>Stores an item under the next number of its tenant.\<close>

definition put_item :: "tenant \<Rightarrow> string \<Rightarrow> board_item \<Rightarrow> board_state \<Rightarrow> board_item board_outcome" where
  "put_item t itemId item s =
     (case nextSeq t s of (n, s') \<Rightarrow>
        let item' = item\<lparr>bi_boardSeq := n\<rparr>
        in (Inr item', s'\<lparr>items := jset (tenantKey t [itemId]) item' (items s')\<rparr>))"

definition board_get :: "tenant \<Rightarrow> string \<Rightarrow> board_state \<Rightarrow> board_item option" where
  "board_get t itemId s = jget (items s) (tenantKey t [itemId])"

definition board_create :: "tenant \<Rightarrow> board_item_input \<Rightarrow> int \<Rightarrow> board_state \<Rightarrow> board_item board_outcome" where
  "board_create t input now s =
     (if board_get t (bn_itemId input) s \<noteq> None then (Inl (ByokCoreError Board_item_exists), s)
      else put_item t (bn_itemId input)
        \<lparr>bi_tenantId = t, bi_itemId = bn_itemId input, bi_channel = bn_channel input,
         bi_title = bn_title input,
         bi_status = (case bn_status input of None \<Rightarrow> Todo | Some st \<Rightarrow> st),
         bi_assignee = None, bi_boardSeq = 0, bi_createdAt = toISOString now,
         bi_updatedAt = toISOString now\<rparr> s)"

definition board_match :: "tenant \<Rightarrow> board_list_query \<Rightarrow> int \<Rightarrow> string \<times> board_item \<Rightarrow> bool" where
  "board_match t q afterSeq = (\<lambda>(key, item).
     in_tenant t key \<and> bi_boardSeq item > afterSeq \<and>
     (case bq_channel q of None \<Rightarrow> True | Some c \<Rightarrow> bi_channel item = c) \<and>
     (case bq_status q of None \<Rightarrow> True | Some st \<Rightarrow> bi_status item = st))"

definition board_matches :: "tenant \<Rightarrow> board_list_query \<Rightarrow> int \<Rightarrow> board_state \<Rightarrow> board_item list" where
  "board_matches t q afterSeq s =
     sort_by (\<lambda>l r. bi_boardSeq l - bi_boardSeq r) (map snd (filter (board_match t q afterSeq) (items s)))"

definition board_list :: "tenant \<Rightarrow> board_list_query \<Rightarrow> board_state \<Rightarrow> board_page" where
  "board_list t q s =
     (let afterSeq = (case bq_afterSeq q of None \<Rightarrow> 0 | Some n \<Rightarrow> n);
          limit = (case bq_limit q of None \<Rightarrow> DEFAULT_LIST_LIMIT | Some n \<Rightarrow> n);
          matches = board_matches t q afterSeq s;
          page = slice0 limit matches
      in \<lparr>bp_items = page,
          bp_nextSeq = (case at_last page of None \<Rightarrow> afterSeq | Some i \<Rightarrow> bi_boardSeq i),
          bp_hasMore = (length matches > length page)\<rparr>)"

definition board_remove :: "tenant \<Rightarrow> string \<Rightarrow> board_state \<Rightarrow> board_state" where
  "board_remove t itemId s = s\<lparr>items := jdel (tenantKey t [itemId]) (items s)\<rparr>"

definition board_conflict :: "core_error_code \<Rightarrow> board_item \<Rightarrow> int \<Rightarrow> board_state \<Rightarrow> 'a board_outcome" where
  "board_conflict code item now s = (Inl (CoreConflictError code item (toISOString now)), s)"

text \<open>\<open>#require\<close>.\<close>

definition board_require :: "tenant \<Rightarrow> string \<Rightarrow> board_state \<Rightarrow> (board_item, board_item) result" where
  "board_require t itemId s =
     (case board_get t itemId s of
        None \<Rightarrow> Inl (ByokCoreError Board_item_not_found)
      | Some item \<Rightarrow> Inr item)"

definition board_claim :: "tenant \<Rightarrow> board_claim_input \<Rightarrow> int \<Rightarrow> board_state \<Rightarrow> board_item board_outcome" where
  "board_claim t input now s =
     (case board_require t (bc_itemId input) s of
        Inl e \<Rightarrow> (Inl e, s)
      | Inr item \<Rightarrow>
          let expectedStatus = (case bc_expectedStatus input of None \<Rightarrow> Todo | Some st \<Rightarrow> st)
          in case bi_assignee item of
               Some a \<Rightarrow>
                 if ba_holderId a = bc_holderId input
                 then if bc_expectedStatus input \<noteq> None \<and> bc_expectedStatus input \<noteq> Some (bi_status item)
                      then board_conflict Board_status_conflict item now s
                      else (Inr item, s)
                 else board_conflict Board_claim_conflict item now s
             | None \<Rightarrow>
                 if bi_status item \<noteq> expectedStatus
                 then board_conflict Board_status_conflict item now s
                 else if bi_status item \<noteq> Todo \<and> bi_status item \<noteq> In_progress
                 then board_conflict Board_transition_invalid item now s
                 else put_item t (bc_itemId input)
                   (item\<lparr>bi_status := (if bi_status item = Todo then In_progress else bi_status item),
                         bi_assignee := Some \<lparr>ba_holderId = bc_holderId input, ba_heldSince = toISOString now\<rparr>,
                         bi_updatedAt := toISOString now\<rparr>) s)"

definition board_unclaim :: "tenant \<Rightarrow> board_unclaim_input \<Rightarrow> int \<Rightarrow> board_state \<Rightarrow> board_item board_outcome" where
  "board_unclaim t input now s =
     (case board_require t (bu_itemId input) s of
        Inl e \<Rightarrow> (Inl e, s)
      | Inr item \<Rightarrow>
          (case bi_assignee item of
             None \<Rightarrow> (Inl (ByokCoreError Board_not_held), s)
           | Some a \<Rightarrow>
               if ba_holderId a \<noteq> bu_holderId input
               then board_conflict Board_claim_conflict item now s
               else put_item t (bu_itemId input)
                 \<lparr>bi_tenantId = bi_tenantId item, bi_itemId = bi_itemId item,
                  bi_channel = bi_channel item, bi_title = bi_title item,
                  bi_status = (if bi_status item = In_progress then Todo else bi_status item),
                  bi_assignee = None, bi_boardSeq = 0, bi_createdAt = bi_createdAt item,
                  bi_updatedAt = toISOString now\<rparr> s))"

definition board_updateStatus ::
  "tenant \<Rightarrow> board_status_update_input \<Rightarrow> int \<Rightarrow> board_state \<Rightarrow> board_item board_outcome" where
  "board_updateStatus t input now s =
     (case board_require t (bs_itemId input) s of
        Inl e \<Rightarrow> (Inl e, s)
      | Inr item \<Rightarrow>
          if bi_status item \<noteq> bs_expectedStatus input
          then board_conflict Board_status_conflict item now s
          else if bs_holderId input \<noteq> None \<and> map_option ba_holderId (bi_assignee item) \<noteq> bs_holderId input
          then board_conflict Board_claim_conflict item now s
          else if \<not> isLegalBoardTransition (bs_expectedStatus input) (bs_status input)
          then board_conflict Board_transition_invalid item now s
          else put_item t (bs_itemId input)
            (item\<lparr>bi_status := bs_status input, bi_updatedAt := toISOString now\<rparr>) s)"

section \<open>One call of the port\<close>

datatype board_op =
    Create board_item_input int
  | Get string
  | ListItems board_list_query
  | Remove string
  | Claim board_claim_input int
  | Unclaim board_unclaim_input int
  | UpdateStatus board_status_update_input int

datatype board_answer =
    BoardItem "(board_item, board_item) result"
  | BoardFound "board_item option"
  | BoardPage board_page
  | BoardRemoved

fun board_exec :: "tenant \<Rightarrow> board_op \<Rightarrow> board_state \<Rightarrow> board_answer \<times> board_state" where
  "board_exec t (Create i now) s = (case board_create t i now s of (r, s') \<Rightarrow> (BoardItem r, s'))"
| "board_exec t (Get i) s = (BoardFound (board_get t i s), s)"
| "board_exec t (ListItems q) s = (BoardPage (board_list t q s), s)"
| "board_exec t (Remove i) s = (BoardRemoved, board_remove t i s)"
| "board_exec t (Claim i now) s = (case board_claim t i now s of (r, s') \<Rightarrow> (BoardItem r, s'))"
| "board_exec t (Unclaim i now) s = (case board_unclaim t i now s of (r, s') \<Rightarrow> (BoardItem r, s'))"
| "board_exec t (UpdateStatus i now) s = (case board_updateStatus t i now s of (r, s') \<Rightarrow> (BoardItem r, s'))"

lemmas board_ops =
  board_create_def board_claim_def board_unclaim_def board_updateStatus_def
  board_conflict_def board_require_def Let_def

section \<open>Isolation\<close>

definition board_view :: "tenant \<Rightarrow> board_state \<Rightarrow> board_item jmap \<times> int" where
  "board_view t s = (tenant_rows t (items s), board_seq t s)"

lemma put_item_snd:
  "snd (put_item t i item s) =
     s\<lparr>items := jset (tenantKey t [i]) (item\<lparr>bi_boardSeq := board_seq t s + 1\<rparr>) (items s),
       seqByTenant := jset t (board_seq t s + 1) (seqByTenant s)\<rparr>"
  by (simp add: put_item_def nextSeq_def Let_def)

lemma put_item_fst: "fst (put_item t i item s) = Inr (item\<lparr>bi_boardSeq := board_seq t s + 1\<rparr>)"
  by (simp add: put_item_def nextSeq_def Let_def)

lemma put_item_eq:
  "put_item t i item s = (Inr (item\<lparr>bi_boardSeq := board_seq t s + 1\<rparr>),
     s\<lparr>items := jset (tenantKey t [i]) (item\<lparr>bi_boardSeq := board_seq t s + 1\<rparr>) (items s),
       seqByTenant := jset t (board_seq t s + 1) (seqByTenant s)\<rparr>)"
  by (simp add: put_item_def nextSeq_def Let_def)

lemma board_view_put_other:
  "isTenantId t \<Longrightarrow> isTenantId u \<Longrightarrow> t \<noteq> u \<Longrightarrow> board_view u (snd (put_item t i item s)) = board_view u s"
  by (simp add: put_item_snd board_view_def board_seq_def)

lemma board_view_put_own:
  "board_view t (snd (put_item t i item s)) =
     (jset (tenantKey t [i]) (item\<lparr>bi_boardSeq := board_seq t s + 1\<rparr>) (fst (board_view t s)), board_seq t s + 1)"
  using in_tenant_own [of "[i]" t]
  by (simp add: put_item_snd board_view_def board_seq_def)

lemma board_get_view: "board_get t i s = jget (fst (board_view t s)) (tenantKey t [i])"
  using in_tenant_own [of "[i]" t] by (simp add: board_get_def board_view_def)

lemma board_matches_view:
  "board_matches t q n s =
     sort_by (\<lambda>l r. bi_boardSeq l - bi_boardSeq r) (map snd (filter (board_match t q n) (fst (board_view t s))))"
proof -
  have "filter (board_match t q n) (tenant_rows t m) = filter (board_match t q n) m" for m
    by (auto simp: tenant_rows_def board_match_def intro: filter_cong)
  then show ?thesis by (simp add: board_matches_def board_view_def)
qed

lemma board_list_view: "board_view t s = board_view t s' \<Longrightarrow> board_list t q s = board_list t q s'"
  by (simp add: board_list_def board_matches_view)

lemma put_item_local:
  assumes "board_view t s = board_view t s'"
  shows "fst (put_item t i item s) = fst (put_item t i item s')"
    and "board_view t (snd (put_item t i item s)) = board_view t (snd (put_item t i item s'))"
proof -
  have "board_seq t s = board_seq t s'" using assms by (simp add: board_view_def)
  then show "fst (put_item t i item s) = fst (put_item t i item s')"
    and "board_view t (snd (put_item t i item s)) = board_view t (snd (put_item t i item s'))"
    using assms by (simp_all add: put_item_fst board_view_put_own)
qed

lemma board_remove_view:
  "board_view u (board_remove t i s) =
     (if in_tenant u (tenantKey t [i]) then (jdel (tenantKey t [i]) (fst (board_view u s)), board_seq u s)
      else board_view u s)"
  by (simp add: board_remove_def board_view_def board_seq_def)

lemma board_exec_local:
  assumes "isTenantId t" and eq: "board_view t s = board_view t s'"
  shows "fst (board_exec t op s) = fst (board_exec t op s') \<and>
    board_view t (snd (board_exec t op s)) = board_view t (snd (board_exec t op s'))"
proof -
  have g: "board_get t i s = board_get t i s'" for i by (simp add: board_get_view eq)
  have q: "board_seq t s = board_seq t s'" using eq by (simp add: board_view_def)
  note P = put_item_local [OF eq]
  show ?thesis
    using eq P assms(1)
    by (cases op)
      (auto simp: board_ops g q board_remove_view board_list_view [OF eq] split_beta
        split: option.splits)
qed

lemma board_exec_frame:
  assumes "isTenantId t" "isTenantId u" "t \<noteq> u"
  shows "board_view u (snd (board_exec t op s)) = board_view u s"
  using assms
  by (cases op) (auto simp: board_ops board_view_put_other board_remove_view split_beta split: option.splits)

interpretation board_store: tenant_store board_exec board_view
  by unfold_locales (blast intro: board_exec_frame, rule board_exec_local)

section \<open>Well-formed boards\<close>

definition board_inv :: "board_state \<Rightarrow> bool" where
  "board_inv s = (jmap_ok (items s) \<and> (\<forall>t. 0 \<le> board_seq t s) \<and>
     (\<forall>k i. jget (items s) k = Some i \<longrightarrow>
        isTenantId (bi_tenantId i) \<and> k = tenantKey (bi_tenantId i) [bi_itemId i] \<and>
        1 \<le> bi_boardSeq i \<and> bi_boardSeq i \<le> board_seq (bi_tenantId i) s) \<and>
     (\<forall>k k' i i'. jget (items s) k = Some i \<longrightarrow> jget (items s) k' = Some i' \<longrightarrow>
        bi_tenantId i = bi_tenantId i' \<longrightarrow> bi_boardSeq i = bi_boardSeq i' \<longrightarrow> k = k'))"

lemma board_inv_empty [simp]: "board_inv empty_board"
  by (simp add: board_inv_def empty_board_def board_seq_def)

lemma board_invD:
  assumes "board_inv s" and "jget (items s) k = Some i"
  shows "isTenantId (bi_tenantId i)" "k = tenantKey (bi_tenantId i) [bi_itemId i]"
    "1 \<le> bi_boardSeq i" "bi_boardSeq i \<le> board_seq (bi_tenantId i) s"
  using assms unfolding board_inv_def by blast+

lemma board_get_own:
  "board_inv s \<Longrightarrow> isTenantId t \<Longrightarrow> board_get t i s = Some item \<Longrightarrow> bi_tenantId item = t \<and> bi_itemId item = i"
  using board_invD(1,2) [of s "tenantKey t [i]" item]
  by (simp add: board_get_def append_sep_eq isTenantId_no_sep)

lemma board_seq_put: "board_seq u (snd (put_item t i item s)) = (if u = t then board_seq t s + 1 else board_seq u s)"
  by (simp add: put_item_snd board_seq_def)

lemma board_inv_put:
  assumes "board_inv s" and "isTenantId t" and "bi_tenantId item = t" and "bi_itemId item = i"
  shows "board_inv (snd (put_item t i item s))"
proof -
  let ?new = "item\<lparr>bi_boardSeq := board_seq t s + 1\<rparr>"
  have I: "items (snd (put_item t i item s)) = jset (tenantKey t [i]) ?new (items s)"
    by (simp add: put_item_snd)
  have le: "bi_boardSeq x \<le> board_seq t s" if "jget (items s) k = Some x" "bi_tenantId x = t" for k x
    using board_invD(4) [OF assms(1) that(1)] that(2) by simp
  have n: "0 \<le> board_seq u s" for u using assms(1) by (simp add: board_inv_def)
  show ?thesis
    unfolding board_inv_def I
  proof (intro conjI allI impI)
    show "jmap_ok (jset (tenantKey t [i]) ?new (items s))"
      using assms(1) by (simp add: board_inv_def)
  next
    fix u show "0 \<le> board_seq u (snd (put_item t i item s))"
      using n [of u] n [of t] by (simp add: board_seq_put)
  next
    fix k x assume x: "jget (jset (tenantKey t [i]) ?new (items s)) k = Some x"
    show "isTenantId (bi_tenantId x)" "k = tenantKey (bi_tenantId x) [bi_itemId x]" "1 \<le> bi_boardSeq x"
      using x assms n [of t] board_invD [OF assms(1)] by (auto split: if_splits)
    show "bi_boardSeq x \<le> board_seq (bi_tenantId x) (snd (put_item t i item s))"
      using x assms board_invD(4) [OF assms(1)] by (fastforce simp: board_seq_put split: if_splits)
  next
    fix k k' x x'
    assume x: "jget (jset (tenantKey t [i]) ?new (items s)) k = Some x"
      "jget (jset (tenantKey t [i]) ?new (items s)) k' = Some x'"
      and eq: "bi_tenantId x = bi_tenantId x'" "bi_boardSeq x = bi_boardSeq x'"
    have old: "k = k'" if "jget (items s) k = Some x" "jget (items s) k' = Some x'"
      using assms(1) that eq unfolding board_inv_def by blast
    show "k = k'"
      using x eq assms(3) old le by (fastforce split: if_splits)
  qed
qed

lemma board_inv_remove: "board_inv s \<Longrightarrow> board_inv (board_remove t i s)"
  by (auto simp: board_inv_def board_remove_def board_seq_def)

lemma board_inv_replace:
  assumes "board_inv s" and "isTenantId t" and "board_get t i s = Some item"
    and "bi_tenantId item' = bi_tenantId item" and "bi_itemId item' = bi_itemId item"
  shows "board_inv (snd (put_item t i item' s))"
  using board_get_own [OF assms(1-3)] assms by (intro board_inv_put) simp_all

lemma board_exec_inv:
  assumes "board_inv s" and "isTenantId t"
  shows "board_inv (snd (board_exec t op s))"
proof -
  note R = board_inv_replace [OF assms]
  show ?thesis
    using assms
    by (cases op)
      (auto simp: board_ops split_beta intro: board_inv_put board_inv_remove R split: option.splits)
qed

interpretation board_history: invariant_store board_exec tenant_call board_inv
  by unfold_locales (simp add: board_exec_inv)

section \<open>The incremental feed\<close>

lemma board_matches_sort: "board_matches t q n s = sort_key bi_boardSeq (map snd (filter (board_match t q n) (items s)))"
  by (simp add: board_matches_def sort_by_key)

lemma board_matches_filter:
  assumes "n \<le> n'"
  shows "board_matches t q n' s = filter (\<lambda>i. n' < bi_boardSeq i) (board_matches t q n s)"
proof -
  have "filter (board_match t q n') (items s) =
      filter (\<lambda>e. n' < bi_boardSeq (snd e)) (filter (board_match t q n) (items s))"
    using assms by (auto simp: board_match_def intro: filter_cong)
  then show ?thesis
    by (simp add: board_matches_sort filter_sort filter_map comp_def)
qed

lemma board_matches_distinct:
  assumes "board_inv s" and "isTenantId t"
  shows "distinct (map bi_boardSeq (board_matches t q n s))"
proof -
  let ?rows = "filter (board_match t q n) (items s)"
  have ok: "distinct (map fst ?rows)"
    using assms(1) by (simp add: board_inv_def jmap_ok_def distinct_map_filter)
  have inj: "fst e = fst e'"
    if "e \<in> set ?rows" "e' \<in> set ?rows" "bi_boardSeq (snd e) = bi_boardSeq (snd e')" for e e'
  proof -
    have g: "jget (items s) (fst e) = Some (snd e)" "jget (items s) (fst e') = Some (snd e')"
      using that(1,2) assms(1) by (auto simp: board_inv_def jget_Some_iff)
    have "bi_tenantId (snd e) = t" "bi_tenantId (snd e') = t"
      using that(1,2) board_invD(1,2) [OF assms(1)] g assms(2)
      by (auto simp: board_match_def) (metis in_tenant_one tenantKey_one)+
    then show ?thesis using assms(1) g that(3) unfolding board_inv_def by metis
  qed
  have "distinct (map (bi_boardSeq \<circ> snd) ?rows)"
    unfolding distinct_map
  proof (intro conjI inj_onI)
    show "distinct ?rows" using ok by (simp add: distinct_map)
    fix e e' assume "e \<in> set ?rows" "e' \<in> set ?rows" "(bi_boardSeq \<circ> snd) e = (bi_boardSeq \<circ> snd) e'"
    then show "e = e'" using inj ok by (metis comp_apply distinct_map inj_onD)
  qed
  then have "distinct (map bi_boardSeq (map snd ?rows))" by simp
  then show ?thesis by (simp only: board_matches_sort distinct_map set_sort distinct_sort)
qed

text \<open>One page as the client sees it: rows, cursor, \<open>hasMore\<close>.\<close>

definition board_fetch :: "tenant \<times> board_list_query \<Rightarrow> int \<Rightarrow> int \<Rightarrow> board_state \<Rightarrow> board_item list \<times> int \<times> bool" where
  "board_fetch = (\<lambda>(t, q) limit a s.
     let page = board_list t (q\<lparr>bq_afterSeq := Some a, bq_limit := Some limit\<rparr>) s
     in (bp_items page, bp_nextSeq page, bp_hasMore page))"

interpretation board_feed: cursor_feed "\<lambda>(t, q) s. board_inv s \<and> isTenantId t"
  "\<lambda>(t, q) a s. board_matches t q a s" bi_boardSeq board_fetch "\<lambda>n. 0 < n"
proof (unfold_locales, goal_cases)
  case (1 q s a)
  then show ?case
    using board_matches_distinct by (cases q) (simp add: sorted_wrt_less_key, simp add: board_matches_sort)
next
  case (2 x q a s)
  then show ?case by (cases q) (auto simp: board_matches_def board_match_def)
next
  case (3 a b q s)
  then show ?case by (cases q) (simp add: board_matches_filter)
next
  case (4 limit)
  then show ?case .
next
  case (5 limit q a s rows cursor hasMore)
  have "board_matches t (q\<lparr>bq_afterSeq := x, bq_limit := y\<rparr>) a s = board_matches t q a s" for t q x y
    by (simp add: board_matches_def board_match_def)
  with 5 show ?case
    by (cases q) (auto simp: board_fetch_def board_list_def slice0_def at_last_def Let_def min_def not_le
        split: if_splits)
qed

text \<open>
  Polling the board feed page by page, with any positive page size, returns exactly the
  tenant's matching items after the cursor, in the order of their board sequence, each once; as
  many pages as there are items (plus one) are enough.
\<close>

theorem board_feed_complete:
  assumes "board_inv s" and "isTenantId t" and "0 < limit" and "length (board_matches t q a s) < fuel"
  shows "poll (\<lambda>c. board_fetch (t, q) limit c s) fuel a = Some (board_matches t q a s) \<and>
    sorted_wrt (<) (map bi_boardSeq (board_matches t q a s)) \<and>
    set (board_matches t q a s) = snd ` {e \<in> set (items s). board_match t q a e}"
  using board_feed.poll_complete [of "(t, q)" s limit a fuel] board_feed.strict [of "(t, q)" s a] assms
  by (simp add: board_matches_def)

definition sample_board :: board_state where
  "sample_board = snd (board_exec ''acme''
     (Create \<lparr>bn_itemId = ''i'', bn_channel = ''c'', bn_title = ''x'', bn_status = None\<rparr> 0) empty_board)"

lemma sample_board_inv: "board_inv sample_board"
  unfolding sample_board_def by (rule board_exec_inv) simp_all

theorem board_feed_complete_witness:
  "poll (\<lambda>c. board_fetch (''acme'', \<lparr>bq_afterSeq = None, bq_channel = None, bq_status = None, bq_limit = None\<rparr>) 1 c sample_board) 3 0 =
     Some (board_matches ''acme'' \<lparr>bq_afterSeq = None, bq_channel = None, bq_status = None, bq_limit = None\<rparr> 0 sample_board)"
proof -
  have "length (board_matches ''acme'' q 0 sample_board) < 3" for q
    by (simp add: sample_board_def board_create_def put_item_eq empty_board_def board_get_def
        board_seq_def board_matches_def jset_def)
  then show ?thesis
    using board_feed_complete [OF sample_board_inv] by simp
qed

section \<open>Legal moves\<close>

lemma put_item_get:
  "isTenantId t \<Longrightarrow> isTenantId u \<Longrightarrow> board_get u j (snd (put_item t i item s)) =
     (if t = u \<and> i = j then Some (item\<lparr>bi_boardSeq := board_seq t s + 1\<rparr>) else board_get u j s)"
  by (simp add: put_item_snd board_get_def)

lemma board_remove_get:
  "isTenantId t \<Longrightarrow> isTenantId u \<Longrightarrow> board_get u j (board_remove t i s) =
     (if t = u \<and> i = j then None else board_get u j s)"
  by (simp add: board_remove_def board_get_def)

lemma legal_claim [simp]: "isLegalBoardTransition Todo In_progress" "isLegalBoardTransition In_progress Todo"
  by (simp_all add: isLegalBoardTransition_def)

text \<open>
  Whatever operation any tenant runs, an item that is there before and after keeps its status
  or moves along \<open>BOARD_TRANSITIONS\<close>; so an item that is \<open>done\<close> or \<open>closed\<close> never changes
  status again.
\<close>

theorem board_moves_legal:
  assumes "isTenantId t" and "isTenantId u"
    and "board_get u j s = Some i" and "board_get u j (snd (board_exec t op s)) = Some i'"
  shows "bi_status i' = bi_status i \<or> isLegalBoardTransition (bi_status i) (bi_status i')"
  using assms
  by (cases op)
    (auto simp: board_ops split_beta put_item_get board_remove_get split: option.splits if_splits)

lemma sample_board_get:
  "board_get ''acme'' ''i'' sample_board = Some
     \<lparr>bi_tenantId = ''acme'', bi_itemId = ''i'', bi_channel = ''c'', bi_title = ''x'', bi_status = Todo,
      bi_assignee = None, bi_boardSeq = 1, bi_createdAt = toISOString 0, bi_updatedAt = toISOString 0\<rparr>"
  by (simp add: sample_board_def board_create_def put_item_eq empty_board_def board_get_def board_seq_def)

theorem board_moves_legal_witness:
  "\<exists>i i'. board_get ''acme'' ''i'' sample_board = Some i \<and>
     board_get ''acme'' ''i'' (snd (board_exec ''acme'' (UpdateStatus \<lparr>bs_itemId = ''i'',
       bs_expectedStatus = Todo, bs_status = Closed, bs_holderId = None\<rparr> 1) sample_board)) = Some i' \<and>
     isLegalBoardTransition (bi_status i) (bi_status i')"
  (is "\<exists>i i'. _ \<and> ?after = Some i' \<and> _")
proof -
  obtain i where i: "board_get ''acme'' ''i'' sample_board = Some i" "bi_status i = Todo"
    by (simp add: sample_board_get)
  obtain i' where i': "?after = Some i'" "bi_status i' = Closed"
    by (simp add: board_ops sample_board_get put_item_get split_beta isLegalBoardTransition_def)
  show ?thesis
    using board_moves_legal [OF _ _ i(1) i'(1)] i i' by auto
qed

section \<open>Exactly one claimant wins\<close>






end
