(* ===== verification/Mailbox.thy ===== *)
theory Mailbox
  imports Retention Feed
begin

text \<open>
  The hosted mailbox (\<open>packages/core/src/mailbox.ts\<close>, \<open>in-memory/mailbox.ts\<close>): per-device
  streams with a monotonic sequence, at-least-once delivery, an acknowledgement cursor bounded by
  the delivery watermark, dead letters, and a tenant byte limit that the retained \<open>pending\<close> rows
  count against. The operations of one device run one after the other on its \<open>mutationTail\<close>;
  \<open>append\<close> suspends twice on that chain (for the entitlement and for the materializer), so it is
  split here into \<open>append_begin\<close> and \<open>append_commit\<close>.
\<close>

datatype mailbox_message_state = Pending | Acked | Expired

record mailbox_message =
  mm_tenantId :: tenant
  mm_deviceId :: string
  mm_seq :: int
  mm_messageId :: string
  mm_body :: string
  mm_bodyHash :: string
  mm_byteSize :: int
  mm_state :: mailbox_message_state
  mm_appendedAt :: string

record mailbox_body =
  mb_body :: string
  mb_bodyHash :: string
  mb_byteSize :: int

datatype mailbox_admission = Limited | Cancellation

text \<open>\<open>materialize\<close> is caller code: it may throw, here with a tag that names the error.\<close>

record mailbox_append_input =
  ma_deviceId :: string
  ma_messageId :: string
  ma_materialize :: "int \<Rightarrow> string + mailbox_body"
  ma_admission :: mailbox_admission

record mailbox_read_query =
  mq_deviceId :: string
  mq_afterSeq :: int
  mq_limit :: "int option"

record mailbox_page =
  mp_messages :: "mailbox_message list"
  mp_nextSeq :: int
  mp_hasMore :: bool
  mp_recoverableFrom :: int

record mailbox_cursor_state =
  mc_tenantId :: tenant
  mc_deviceId :: string
  mc_deliveredSeq :: int
  mc_ackedSeq :: int
  mc_updatedAt :: string

record mailbox_collect_input = collect_expired_input +
  mi_ackedBefore :: string
  mi_expireUnackedBefore :: string
  mi_reapDeadLettersBefore :: string

record device_mailbox =
  dm_nextSeq :: int
  dm_deliveredSeq :: int
  dm_ackedSeq :: int
  dm_cursorUpdatedAt :: string
  dm_closed :: "(string \<times> mailbox_stream_close_cause) option"
  dm_messages :: "mailbox_message list"
  dm_byMessageId :: "mailbox_message jmap"

type_synonym mailbox_state = "device_mailbox jmap"
type_synonym mailbox_error = "mailbox_cursor_state core_error"
type_synonym 'a mailbox_outcome = "(mailbox_error + 'a) \<times> mailbox_state"

definition DEFAULT_READ_LIMIT :: int where
  "DEFAULT_READ_LIMIT = 50"

section \<open>Devices\<close>

definition new_device :: "int \<Rightarrow> device_mailbox" where
  "new_device now =
     \<lparr>dm_nextSeq = 1, dm_deliveredSeq = 0, dm_ackedSeq = 0, dm_cursorUpdatedAt = toISOString now,
      dm_closed = None, dm_messages = [], dm_byMessageId = []\<rparr>"

text \<open>\<open>#device\<close>: the stored device, or a new one that it stores.\<close>

definition mailbox_device ::
  "tenant \<Rightarrow> string \<Rightarrow> int \<Rightarrow> mailbox_state \<Rightarrow> mailbox_error + (device_mailbox \<times> mailbox_state)" where
  "mailbox_device t deviceId now s =
     (if length deviceId = 0 then Inl (ByokCoreError Mailbox_message_not_found)
      else
        let key = tenantKey t [deviceId]
        in case jget s key of
             Some existing \<Rightarrow> Inr (existing, s)
           | None \<Rightarrow> Inr (new_device now, jset key (new_device now) s))"

definition cursorState :: "tenant \<Rightarrow> string \<Rightarrow> device_mailbox \<Rightarrow> mailbox_cursor_state" where
  "cursorState t deviceId d =
     \<lparr>mc_tenantId = t, mc_deviceId = deviceId, mc_deliveredSeq = dm_deliveredSeq d,
      mc_ackedSeq = dm_ackedSeq d, mc_updatedAt = dm_cursorUpdatedAt d\<rparr>"

text \<open>\<open>#recoverableFrom\<close>: one past the highest \<open>expired\<close> sequence.\<close>

fun highest_expired :: "int \<Rightarrow> mailbox_message list \<Rightarrow> int" where
  "highest_expired lost [] = lost"
| "highest_expired lost (m # ms) =
     highest_expired (if mm_state m = Expired \<and> mm_seq m > lost then mm_seq m else lost) ms"

definition recoverableFrom :: "device_mailbox \<Rightarrow> int" where
  "recoverableFrom d = highest_expired 0 (dm_messages d) + 1"

text \<open>
  \<open>for (const [index, message] of device.messages.entries())\<close> with a write of the new state to
  the array and to \<open>byMessageId\<close> for the rows that \<open>P\<close> selects; the last component counts them.
\<close>

fun rewrite_rows ::
  "(mailbox_message \<Rightarrow> bool) \<Rightarrow> mailbox_message_state \<Rightarrow> mailbox_message list \<Rightarrow> mailbox_message jmap \<Rightarrow>
   mailbox_message list \<times> mailbox_message jmap \<times> int" where
  "rewrite_rows P st [] byId = ([], byId, 0)"
| "rewrite_rows P st (m # ms) byId =
     (if P m
      then let m' = m\<lparr>mm_state := st\<rparr>
           in case rewrite_rows P st ms (jset (mm_messageId m') m' byId) of
                (ms', byId', n) \<Rightarrow> (m' # ms', byId', n + 1)
      else case rewrite_rows P st ms byId of (ms', byId', n) \<Rightarrow> (m # ms', byId', n))"

definition rewrite_device ::
  "(mailbox_message \<Rightarrow> bool) \<Rightarrow> mailbox_message_state \<Rightarrow> device_mailbox \<Rightarrow> device_mailbox \<times> int" where
  "rewrite_device P st d =
     (case rewrite_rows P st (dm_messages d) (dm_byMessageId d) of
        (ms, byId, n) \<Rightarrow> (d\<lparr>dm_messages := ms, dm_byMessageId := byId\<rparr>, n))"

definition expirePendingMessages :: "device_mailbox \<Rightarrow> (mailbox_message \<Rightarrow> bool) \<Rightarrow> device_mailbox \<times> int" where
  "expirePendingMessages d selected = rewrite_device (\<lambda>m. mm_state m = Pending \<and> selected m) Expired d"

section \<open>Usage and append\<close>

text \<open>\<open>#usedBytes\<close>: every \<open>pending\<close> row of the tenant, on any device.\<close>

definition pending_bytes :: "device_mailbox \<Rightarrow> int" where
  "pending_bytes d = sum_list (map mm_byteSize (filter (\<lambda>m. mm_state m = Pending) (dm_messages d)))"

definition usedBytes :: "tenant \<Rightarrow> mailbox_state \<Rightarrow> int" where
  "usedBytes t s = sum_list (map (\<lambda>(_, d). pending_bytes d) (filter (\<lambda>(key, _). in_tenant t key) s))"

definition mailbox_readUsage :: "tenant \<Rightarrow> mailbox_state \<Rightarrow> int" where
  "mailbox_readUsage t s = usedBytes t s"

text \<open>
  \<open>#mailboxLimit\<close>: the limit of the tenant's entitlement, which the quota store answers
  (\<open>entitlement\<close> is the \<open>mailboxLimitBytes\<close> of what it returned).
\<close>

definition mailboxLimit :: "int option \<Rightarrow> mailbox_error + int" where
  "mailboxLimit entitlement =
     (case entitlement of
        None \<Rightarrow> Inl (ByokCoreError Storage_entitlement_missing)
      | Some l \<Rightarrow> Inr l)"

datatype append_progress =
    AppendRefused mailbox_error
  | AppendExisting mailbox_message
  | AppendReserved "int option" int

definition append_begin :: "mailbox_append_input \<Rightarrow> int option \<Rightarrow> device_mailbox \<Rightarrow> append_progress" where
  "append_begin input entitlement d =
     (case dm_closed d of
        Some (_, cause) \<Rightarrow> AppendRefused (MailboxStreamClosedError (ma_deviceId input) cause)
      | None \<Rightarrow>
          (case jget (dm_byMessageId d) (ma_messageId input) of
             Some existing \<Rightarrow> AppendExisting existing
           | None \<Rightarrow>
               if ma_admission input = Cancellation then AppendReserved None (dm_nextSeq d)
               else (case mailboxLimit entitlement of
                       Inl e \<Rightarrow> AppendRefused e
                     | Inr l \<Rightarrow> AppendReserved (Some l) (dm_nextSeq d))))"

definition appended_message :: "tenant \<Rightarrow> mailbox_append_input \<Rightarrow> int \<Rightarrow> mailbox_body \<Rightarrow> int \<Rightarrow> mailbox_message" where
  "appended_message t input seq body now =
     \<lparr>mm_tenantId = t, mm_deviceId = ma_deviceId input, mm_seq = seq, mm_messageId = ma_messageId input,
      mm_body = mb_body body, mm_bodyHash = mb_bodyHash body, mm_byteSize = mb_byteSize body,
      mm_state = Pending, mm_appendedAt = toISOString now\<rparr>"

definition push_message :: "mailbox_message \<Rightarrow> device_mailbox \<Rightarrow> device_mailbox" where
  "push_message m d =
     d\<lparr>dm_nextSeq := dm_nextSeq d + 1, dm_messages := dm_messages d @ [m],
       dm_byMessageId := jset (mm_messageId m) m (dm_byMessageId d)\<rparr>"

text \<open>
  From the materializer's answer on there is no suspension: the sum, the check and the insert are
  one step. \<open>d\<close> is the device object the append captured, stored under its key.
\<close>

definition append_commit ::
  "tenant \<Rightarrow> mailbox_append_input \<Rightarrow> int option \<Rightarrow> int \<Rightarrow> mailbox_body \<Rightarrow> int \<Rightarrow> device_mailbox \<Rightarrow>
   mailbox_state \<Rightarrow> mailbox_message mailbox_outcome" where
  "append_commit t input limit seq body now d s =
     (case limit of
        Some l \<Rightarrow>
          if usedBytes t s + mb_byteSize body > l
          then (Inl (ByokCoreError Storage_quota_exceeded), s)
          else let m = appended_message t input seq body now
               in (Inr m, jset (tenantKey t [ma_deviceId input]) (push_message m d) s)
      | None \<Rightarrow>
          let m = appended_message t input seq body now
          in (Inr m, jset (tenantKey t [ma_deviceId input]) (push_message m d) s))"

definition mailbox_append ::
  "tenant \<Rightarrow> mailbox_append_input \<Rightarrow> int option \<Rightarrow> int \<Rightarrow> mailbox_state \<Rightarrow> mailbox_message mailbox_outcome" where
  "mailbox_append t input entitlement now s =
     (case mailbox_device t (ma_deviceId input) now s of
        Inl e \<Rightarrow> (Inl e, s)
      | Inr (d, s') \<Rightarrow>
          (case append_begin input entitlement d of
             AppendRefused e \<Rightarrow> (Inl e, s')
           | AppendExisting m \<Rightarrow> (Inr m, s')
           | AppendReserved limit seq \<Rightarrow>
               (case ma_materialize input seq of
                  Inl x \<Rightarrow> (Inl (Foreign x), s')
                | Inr body \<Rightarrow> append_commit t input limit seq body now d s')))"

section \<open>Reading, delivering, acknowledging\<close>

definition pending_after :: "int \<Rightarrow> device_mailbox \<Rightarrow> mailbox_message list" where
  "pending_after afterSeq d =
     sort_by (\<lambda>l r. mm_seq l - mm_seq r)
       (filter (\<lambda>m. mm_state m = Pending \<and> mm_seq m > afterSeq) (dm_messages d))"

definition readAfter :: "tenant \<Rightarrow> mailbox_read_query \<Rightarrow> mailbox_state \<Rightarrow> mailbox_page" where
  "readAfter t q s =
     (let limit = (case mq_limit q of None \<Rightarrow> DEFAULT_READ_LIMIT | Some n \<Rightarrow> n)
      in case jget s (tenantKey t [mq_deviceId q]) of
           None \<Rightarrow> \<lparr>mp_messages = [], mp_nextSeq = mq_afterSeq q, mp_hasMore = False, mp_recoverableFrom = 1\<rparr>
         | Some d \<Rightarrow>
             let pending = pending_after (mq_afterSeq q) d; page = slice0 limit pending
             in \<lparr>mp_messages = page,
                 mp_nextSeq = (case at_last page of None \<Rightarrow> mq_afterSeq q | Some m \<Rightarrow> mm_seq m),
                 mp_hasMore = (length pending > length page), mp_recoverableFrom = recoverableFrom d\<rparr>)"

definition advance_device :: "int \<Rightarrow> int \<Rightarrow> device_mailbox \<Rightarrow> device_mailbox" where
  "advance_device ackedSeq now d =
     fst (rewrite_device (\<lambda>m. mm_state m = Pending \<and> mm_seq m \<le> ackedSeq) Acked
       (d\<lparr>dm_ackedSeq := ackedSeq, dm_cursorUpdatedAt := toISOString now\<rparr>))"

definition advanceCursor ::
  "tenant \<Rightarrow> string \<Rightarrow> int \<Rightarrow> int \<Rightarrow> mailbox_state \<Rightarrow> mailbox_cursor_state mailbox_outcome" where
  "advanceCursor t deviceId ackedSeq now s =
     (case mailbox_device t deviceId now s of
        Inl e \<Rightarrow> (Inl e, s)
      | Inr (d, s') \<Rightarrow>
          if ackedSeq < dm_ackedSeq d
          then (Inl (CoreConflictError Mailbox_cursor_regression (cursorState t deviceId d) (toISOString now)), s')
          else if ackedSeq > dm_deliveredSeq d
          then (Inl (CoreConflictError Mailbox_cursor_ahead_of_delivery (cursorState t deviceId d) (toISOString now)), s')
          else let d' = advance_device ackedSeq now d
               in (Inr (cursorState t deviceId d'), jset (tenantKey t [deviceId]) d' s'))"

definition recordDelivery ::
  "tenant \<Rightarrow> string \<Rightarrow> int \<Rightarrow> int \<Rightarrow> mailbox_state \<Rightarrow> mailbox_cursor_state mailbox_outcome" where
  "recordDelivery t deviceId deliveredSeq now s =
     (case mailbox_device t deviceId now s of
        Inl e \<Rightarrow> (Inl e, s)
      | Inr (d, s') \<Rightarrow>
          let d' = (if deliveredSeq > dm_deliveredSeq d then d\<lparr>dm_deliveredSeq := deliveredSeq\<rparr> else d)
          in (Inr (cursorState t deviceId d'), jset (tenantKey t [deviceId]) d' s'))"

definition readCursor :: "tenant \<Rightarrow> string \<Rightarrow> int \<Rightarrow> mailbox_state \<Rightarrow> mailbox_cursor_state" where
  "readCursor t deviceId now s =
     (case jget s (tenantKey t [deviceId]) of
        None \<Rightarrow> \<lparr>mc_tenantId = t, mc_deviceId = deviceId, mc_deliveredSeq = 0, mc_ackedSeq = 0,
                 mc_updatedAt = toISOString now\<rparr>
      | Some d \<Rightarrow> cursorState t deviceId d)"

section \<open>Dead letters and stream closure\<close>

definition expirePending :: "tenant \<Rightarrow> string \<Rightarrow> int list \<Rightarrow> mailbox_state \<Rightarrow> int \<times> mailbox_state" where
  "expirePending t deviceId seqs s =
     (case jget s (tenantKey t [deviceId]) of
        None \<Rightarrow> (0, s)
      | Some d \<Rightarrow>
          (case expirePendingMessages d (\<lambda>m. mm_seq m \<in> set seqs) of
             (d', n) \<Rightarrow> (n, jset (tenantKey t [deviceId]) d' s)))"

definition close_device :: "mailbox_stream_close_cause \<Rightarrow> int \<Rightarrow> device_mailbox \<Rightarrow> device_mailbox \<times> int" where
  "close_device cause now d =
     expirePendingMessages
       (d\<lparr>dm_closed := Some (case dm_closed d of None \<Rightarrow> toISOString now | Some (since, _) \<Rightarrow> since, cause)\<rparr>)
       (\<lambda>_. True)"

definition closeStream ::
  "tenant \<Rightarrow> string \<Rightarrow> mailbox_stream_close_cause \<Rightarrow> int \<Rightarrow> mailbox_state \<Rightarrow> int mailbox_outcome" where
  "closeStream t deviceId cause now s =
     (case mailbox_device t deviceId now s of
        Inl e \<Rightarrow> (Inl e, s)
      | Inr (d, s') \<Rightarrow>
          (case close_device cause now d of
             (d', n) \<Rightarrow> (Inr n, jset (tenantKey t [deviceId]) d' s')))"

definition reopenStream :: "tenant \<Rightarrow> string \<Rightarrow> mailbox_state \<Rightarrow> mailbox_state" where
  "reopenStream t deviceId s =
     (case jget s (tenantKey t [deviceId]) of
        None \<Rightarrow> s
      | Some d \<Rightarrow> jset (tenantKey t [deviceId]) (d\<lparr>dm_closed := None\<rparr>) s)"

section \<open>Archive access\<close>

definition messagesOf :: "tenant \<Rightarrow> string \<Rightarrow> mailbox_state \<Rightarrow> mailbox_message list" where
  "messagesOf t deviceId s =
     (case jget s (tenantKey t [deviceId]) of None \<Rightarrow> [] | Some d \<Rightarrow> dm_messages d)"

fun replace_first :: "int \<Rightarrow> mailbox_body \<Rightarrow> mailbox_message list \<Rightarrow> mailbox_message list \<times> mailbox_message option" where
  "replace_first seq body [] = ([], None)"
| "replace_first seq body (m # ms) =
     (if mm_seq m = seq
      then let m' = m\<lparr>mm_body := mb_body body, mm_bodyHash := mb_bodyHash body, mm_byteSize := mb_byteSize body\<rparr>
           in (m' # ms, Some m')
      else case replace_first seq body ms of (ms', r) \<Rightarrow> (m # ms', r))"

definition replaceBody :: "tenant \<Rightarrow> string \<Rightarrow> int \<Rightarrow> mailbox_body \<Rightarrow> mailbox_state \<Rightarrow> mailbox_state" where
  "replaceBody t deviceId seq body s =
     (case jget s (tenantKey t [deviceId]) of
        None \<Rightarrow> s
      | Some d \<Rightarrow>
          (case replace_first seq body (dm_messages d) of
             (ms, None) \<Rightarrow> s
           | (ms, Some m) \<Rightarrow>
               jset (tenantKey t [deviceId])
                 (d\<lparr>dm_messages := ms, dm_byMessageId := jset (mm_messageId m) m (dm_byMessageId d)\<rparr>) s))"

section \<open>Retention\<close>

datatype collect_phase = AckedPhase | ReapPhase | PendingPhase

definition reapable :: "mailbox_collect_input \<Rightarrow> mailbox_message list \<Rightarrow> mailbox_message \<Rightarrow> bool" where
  "reapable input msgs m =
     (mm_state m = Expired \<and> mm_appendedAt m < mi_reapDeadLettersBefore input \<and>
      list_ex (\<lambda>other. mm_state other = Expired \<and> mm_seq other > mm_seq m) msgs)"

fun collect_eligible :: "collect_phase \<Rightarrow> mailbox_collect_input \<Rightarrow> mailbox_message list \<Rightarrow> mailbox_message \<Rightarrow> bool" where
  "collect_eligible ReapPhase input msgs m = reapable input msgs m"
| "collect_eligible AckedPhase input msgs m = (mm_state m = Acked \<and> mm_appendedAt m < mi_ackedBefore input)"
| "collect_eligible PendingPhase input msgs m = (mm_state m = Pending \<and> mm_appendedAt m < mi_expireUnackedBefore input)"

text \<open>
  The index loop over one device's array: \<open>kept\<close> is the part before the index, so the array at
  that moment is \<open>kept @ rest\<close>. The result holds the array, \<open>byMessageId\<close>, the two counters and
  whether the limit stopped the loop.
\<close>

fun collect_rows ::
  "collect_phase \<Rightarrow> mailbox_collect_input \<Rightarrow> mailbox_message list \<Rightarrow> mailbox_message list \<Rightarrow> mailbox_message jmap \<Rightarrow>
   int \<Rightarrow> int \<Rightarrow> mailbox_message list \<times> mailbox_message jmap \<times> int \<times> int \<times> bool" where
  "collect_rows ph input kept [] byId removed expired = (kept, byId, removed, expired, False)"
| "collect_rows ph input kept (m # rest) byId removed expired =
     (if \<not> collect_eligible ph input (kept @ m # rest) m
      then collect_rows ph input (kept @ [m]) rest byId removed expired
      else if removed + expired = num_int (ci_limit input) then (kept @ m # rest, byId, removed, expired, True)
      else if ph = PendingPhase
      then let m' = m\<lparr>mm_state := Expired\<rparr>
           in collect_rows ph input (kept @ [m']) rest (jset (mm_messageId m') m' byId) removed (expired + 1)
      else collect_rows ph input kept rest (jdel (mm_messageId m) byId) (removed + 1) expired)"

fun collect_devices ::
  "collect_phase \<Rightarrow> tenant \<Rightarrow> mailbox_collect_input \<Rightarrow> mailbox_state \<Rightarrow> int \<Rightarrow> int \<Rightarrow>
   mailbox_state \<times> int \<times> int \<times> bool" where
  "collect_devices ph t input [] removed expired = ([], removed, expired, False)"
| "collect_devices ph t input ((key, d) # s) removed expired =
     (if \<not> in_tenant t key
      then (case collect_devices ph t input s removed expired of
              (s', r, x, b) \<Rightarrow> ((key, d) # s', r, x, b))
      else (case collect_rows ph input [] (dm_messages d) (dm_byMessageId d) removed expired of
              (ms, byId, r, x, b) \<Rightarrow>
                let d' = d\<lparr>dm_messages := ms, dm_byMessageId := byId\<rparr>
                in if b then ((key, d') # s, r, x, True)
                   else (case collect_devices ph t input s r x of
                           (s', r', x', b') \<Rightarrow> ((key, d') # s', r', x', b'))))"

definition collect_phases :: "tenant \<Rightarrow> mailbox_collect_input \<Rightarrow> mailbox_state \<Rightarrow> mailbox_state \<times> int \<times> int \<times> bool" where
  "collect_phases t input s =
     (case collect_devices AckedPhase t input s 0 0 of
        (s1, r1, x1, b1) \<Rightarrow>
          if b1 then (s1, r1, x1, True)
          else case collect_devices ReapPhase t input s1 r1 x1 of
            (s2, r2, x2, b2) \<Rightarrow>
              if b2 then (s2, r2, x2, True) else collect_devices PendingPhase t input s2 r2 x2)"

definition mailbox_collectExpired ::
  "tenant \<Rightarrow> mailbox_collect_input \<Rightarrow> mailbox_state \<Rightarrow> collect_expired_result mailbox_outcome" where
  "mailbox_collectExpired t input s =
     (case assertCollectExpiredInput input of
        Inl e \<Rightarrow> (Inl e, s)
      | Inr _ \<Rightarrow>
     (case assertCanonicalTimestamp (mi_ackedBefore input) of
        Inl e \<Rightarrow> (Inl e, s)
      | Inr _ \<Rightarrow>
     (case assertCanonicalTimestamp (mi_expireUnackedBefore input) of
        Inl e \<Rightarrow> (Inl e, s)
      | Inr _ \<Rightarrow>
     (case assertCanonicalTimestamp (mi_reapDeadLettersBefore input) of
        Inl e \<Rightarrow> (Inl e, s)
      | Inr _ \<Rightarrow>
          (case collect_phases t input s of
             (s', removed, expired, stopped) \<Rightarrow>
               let again = (if \<not> stopped
                            then list_ex (\<lambda>(key, d). in_tenant t key \<and> list_ex (reapable input (dm_messages d)) (dm_messages d)) s'
                            else True)
               in (Inr \<lparr>cc_removed = removed, cc_expired = expired, cc_releasedBytes = 0, cr_more = again\<rparr>, s'))))))"

section \<open>Rows and their index\<close>

text \<open>What never changes of a row: whose it is, its sequence number and its message id.\<close>

definition ident :: "mailbox_message \<Rightarrow> tenant \<times> string \<times> int \<times> string" where
  "ident m = (mm_tenantId m, mm_deviceId m, mm_seq m, mm_messageId m)"

definition by_id :: "mailbox_message list \<Rightarrow> (string \<times> mailbox_message) list" where
  "by_id ms = map (\<lambda>m. (mm_messageId m, m)) ms"

definition rows_ok :: "tenant \<Rightarrow> string \<Rightarrow> int \<Rightarrow> mailbox_message list \<Rightarrow> mailbox_message jmap \<Rightarrow> bool" where
  "rows_ok t dev n ms byId =
     (sorted_wrt (<) (map mm_seq ms) \<and> distinct (map mm_messageId ms) \<and>
      (\<forall>m \<in> set ms. mm_tenantId m = t \<and> mm_deviceId m = dev \<and> 1 \<le> mm_seq m \<and> mm_seq m < n) \<and>
      (\<forall>k. jget byId k = map_of (by_id ms) k))"

lemma ident_state [simp]: "ident (m\<lparr>mm_state := st\<rparr>) = ident m"
  by (simp add: ident_def)

lemma map_of_by_id_mid:
  "distinct (map mm_messageId (pre @ m # post)) \<Longrightarrow> map_of (by_id (pre @ m # post)) k =
     (if k = mm_messageId m then Some m else map_of (by_id (pre @ post)) k)"
  by (induction pre) (auto simp: by_id_def)

lemma map_of_by_id_out:
  "mm_messageId m \<notin> set (map mm_messageId ms) \<Longrightarrow> map_of (by_id ms) (mm_messageId m) = None"
  by (induction ms) (auto simp: by_id_def)

lemma rows_ok_replace:
  assumes "rows_ok t dev n (pre @ m # post) byId" and "ident m' = ident m"
  shows "rows_ok t dev n (pre @ m' # post) (jset (mm_messageId m') m' byId)"
  using assms by (auto simp: rows_ok_def ident_def map_of_by_id_mid)

lemma rows_ok_remove:
  assumes "rows_ok t dev n (pre @ m # post) byId"
  shows "rows_ok t dev n (pre @ post) (jdel (mm_messageId m) byId)"
  using assms map_of_by_id_out [of m "pre @ post"] by (auto simp: rows_ok_def sorted_wrt_append map_of_by_id_mid)

lemma rows_ok_push:
  assumes "rows_ok t dev n ms byId" and "jget byId (mm_messageId m) = None"
    and "mm_tenantId m = t" "mm_deviceId m = dev" "mm_seq m = n" "1 \<le> n"
  shows "rows_ok t dev (n + 1) (ms @ [m]) (jset (mm_messageId m) m byId)"
proof -
  have "mm_messageId m \<notin> mm_messageId ` set ms"
    using assms(1,2) by (auto simp: rows_ok_def by_id_def map_of_eq_None_iff image_image)
  then show ?thesis
    using assms by (fastforce simp: rows_ok_def sorted_wrt_append by_id_def map_add_def split: option.splits)
qed

lemma rows_ok_lookup:
  assumes "rows_ok t dev n ms byId"
  shows "jget byId k = Some m \<longleftrightarrow> m \<in> set ms \<and> mm_messageId m = k"
proof -
  have "distinct (map fst (by_id ms))" using assms by (simp add: rows_ok_def by_id_def comp_def)
  then show ?thesis using assms by (auto simp: rows_ok_def by_id_def)
qed

lemma rewrite_rows_fst: "fst (rewrite_rows P st ms byId) = map (\<lambda>m. if P m then m\<lparr>mm_state := st\<rparr> else m) ms"
  by (induction P st ms byId rule: rewrite_rows.induct) (auto simp: Let_def split_beta)

lemma rewrite_rows_count: "snd (snd (rewrite_rows P st ms byId)) = int (length (filter P ms))"
  by (induction P st ms byId rule: rewrite_rows.induct) (auto simp: Let_def split_beta)

lemma rewrite_rows_ok:
  "rows_ok t dev n (pre @ ms) byId \<Longrightarrow>
     rows_ok t dev n (pre @ fst (rewrite_rows P st ms byId)) (fst (snd (rewrite_rows P st ms byId)))"
proof (induction P st ms byId arbitrary: pre rule: rewrite_rows.induct)
  case (1 P st byId)
  then show ?case by simp
next
  case (2 P st m ms byId)
  show ?case
  proof (cases "P m")
    case True
    then show ?thesis
      using "2.IH"(1) [OF True refl, of "pre @ [m\<lparr>mm_state := st\<rparr>]"]
        rows_ok_replace [OF "2.prems", of "m\<lparr>mm_state := st\<rparr>"]
      by (simp add: Let_def split_beta)
  next
    case False
    then show ?thesis
      using "2.IH"(2) [OF False, of "pre @ [m]"] "2.prems" by (simp add: split_beta)
  qed
qed

section \<open>How the rows of a device evolve\<close>

text \<open>
  From one array of rows to a later one, with \<open>ack\<close> the cursor of the later: an expired row is
  still covered by an expired row at or above it, and a pending row is still pending, or covered
  by an expired row, or acknowledged.
\<close>

definition rows_evolve :: "int \<Rightarrow> mailbox_message list \<Rightarrow> mailbox_message list \<Rightarrow> bool" where
  "rows_evolve ack ms ms' =
     ((\<forall>m \<in> set ms. mm_state m = Expired \<longrightarrow> (\<exists>m' \<in> set ms'. mm_state m' = Expired \<and> mm_seq m \<le> mm_seq m')) \<and>
      (\<forall>m \<in> set ms. mm_state m = Pending \<longrightarrow>
         (\<exists>m' \<in> set ms'. mm_state m' = Pending \<and> ident m' = ident m) \<or>
         (\<exists>m' \<in> set ms'. mm_state m' = Expired \<and> mm_seq m \<le> mm_seq m') \<or> mm_seq m \<le> ack))"

lemma rows_evolve_refl [simp]: "rows_evolve ack ms ms"
  by (auto simp: rows_evolve_def)

lemma rows_evolve_trans:
  assumes "rows_evolve a xs ys" and "rows_evolve b ys zs" and "a \<le> b"
  shows "rows_evolve b xs zs"
proof -
  have seq: "mm_seq m' = mm_seq m" if "ident m' = ident m" for m m' using that by (simp add: ident_def)
  have E: "\<exists>m' \<in> set zs. mm_state m' = Expired \<and> mm_seq m \<le> mm_seq m'"
    if "\<exists>m' \<in> set ys. mm_state m' = Expired \<and> mm_seq m \<le> mm_seq m'" for m
    using that assms(2) unfolding rows_evolve_def by (meson order_trans)
  show ?thesis
    unfolding rows_evolve_def
  proof (intro conjI ballI impI)
    fix m assume "m \<in> set xs" "mm_state m = Expired"
    then show "\<exists>m' \<in> set zs. mm_state m' = Expired \<and> mm_seq m \<le> mm_seq m'"
      using assms(1) E unfolding rows_evolve_def by blast
  next
    fix m assume "m \<in> set xs" "mm_state m = Pending"
    then consider (p) m' where "m' \<in> set ys" "mm_state m' = Pending" "ident m' = ident m"
      | (e) "\<exists>m' \<in> set ys. mm_state m' = Expired \<and> mm_seq m \<le> mm_seq m'" | (a) "mm_seq m \<le> a"
      using assms(1) unfolding rows_evolve_def by blast
    then show "(\<exists>m' \<in> set zs. mm_state m' = Pending \<and> ident m' = ident m) \<or>
        (\<exists>m' \<in> set zs. mm_state m' = Expired \<and> mm_seq m \<le> mm_seq m') \<or> mm_seq m \<le> b"
    proof cases
      case p
      then show ?thesis using assms(2) seq [of m' m] unfolding rows_evolve_def by (metis (no_types, lifting))
    next
      case e
      then show ?thesis using E by blast
    next
      case a
      then show ?thesis using assms(3) by simp
    qed
  qed
qed

lemma rows_evolve_push: "rows_evolve ack ms (ms @ [m])"
  by (auto simp: rows_evolve_def)

lemma rows_evolve_map:
  assumes "\<And>m. m \<in> set ms \<Longrightarrow> mm_state m = Expired \<Longrightarrow> mm_state (f m) = Expired \<and> mm_seq m \<le> mm_seq (f m)"
    and "\<And>m. m \<in> set ms \<Longrightarrow> mm_state m = Pending \<Longrightarrow> mm_state (f m) = Pending \<and> ident (f m) = ident m \<or>
      mm_state (f m) = Expired \<and> mm_seq m \<le> mm_seq (f m) \<or> mm_seq m \<le> ack"
  shows "rows_evolve ack ms (map f ms)"
  using assms unfolding rows_evolve_def by auto

lemma rows_evolve_expire:
  "rows_evolve ack ms (map (\<lambda>m. if mm_state m = Pending \<and> P m then m\<lparr>mm_state := Expired\<rparr> else m) ms)"
  by (rule rows_evolve_map) auto

lemma rows_evolve_ack:
  "rows_evolve ack ms (map (\<lambda>m. if mm_state m = Pending \<and> mm_seq m \<le> ack then m\<lparr>mm_state := Acked\<rparr> else m) ms)"
  by (rule rows_evolve_map) auto

lemma highest_expired_ge:
  "x \<le> highest_expired lost ms \<longleftrightarrow> x \<le> lost \<or> (\<exists>m \<in> set ms. mm_state m = Expired \<and> x \<le> mm_seq m)"
  by (induction lost ms rule: highest_expired.induct) auto

lemma recoverableFrom_iff:
  "x < recoverableFrom d \<longleftrightarrow> x \<le> 0 \<or> (\<exists>m \<in> set (dm_messages d). mm_state m = Expired \<and> x \<le> mm_seq m)"
  using highest_expired_ge [of x 0] by (auto simp: recoverableFrom_def)

lemma rows_evolve_recoverable:
  assumes "rows_evolve ack (dm_messages d) (dm_messages d')"
  shows "recoverableFrom d \<le> recoverableFrom d'"
proof (rule ccontr)
  assume "\<not> recoverableFrom d \<le> recoverableFrom d'"
  then have "recoverableFrom d' < recoverableFrom d" by simp
  then have "recoverableFrom d' < recoverableFrom d'"
    unfolding recoverableFrom_iff [of _ d] recoverableFrom_iff [of _ d']
    using assms unfolding rows_evolve_def by (meson order_trans)
  then show False by simp
qed

section \<open>Well-formed devices\<close>

definition device_ok :: "tenant \<Rightarrow> string \<Rightarrow> device_mailbox \<Rightarrow> bool" where
  "device_ok t dev d =
     (rows_ok t dev (dm_nextSeq d) (dm_messages d) (dm_byMessageId d) \<and> 1 \<le> dm_nextSeq d \<and>
      0 \<le> dm_ackedSeq d \<and> dm_ackedSeq d \<le> dm_deliveredSeq d \<and>
      (dm_closed d \<noteq> None \<longrightarrow> (\<forall>m \<in> set (dm_messages d). mm_state m \<noteq> Pending)))"

definition evolves :: "device_mailbox \<Rightarrow> device_mailbox \<Rightarrow> bool" where
  "evolves d d' =
     (dm_nextSeq d \<le> dm_nextSeq d' \<and> dm_deliveredSeq d \<le> dm_deliveredSeq d' \<and> dm_ackedSeq d \<le> dm_ackedSeq d' \<and>
      rows_evolve (dm_ackedSeq d') (dm_messages d) (dm_messages d'))"

lemma evolves_refl [simp]: "evolves d d"
  by (simp add: evolves_def)

lemma evolves_trans [trans]: "evolves a b \<Longrightarrow> evolves b c \<Longrightarrow> evolves a c"
  by (auto simp: evolves_def intro: rows_evolve_trans)

lemma rewrite_device_eq:
  "rewrite_device P st d =
     (d\<lparr>dm_messages := map (\<lambda>m. if P m then m\<lparr>mm_state := st\<rparr> else m) (dm_messages d),
        dm_byMessageId := fst (snd (rewrite_rows P st (dm_messages d) (dm_byMessageId d)))\<rparr>,
      int (length (filter P (dm_messages d))))"
  using rewrite_rows_fst [of P st "dm_messages d" "dm_byMessageId d"]
    rewrite_rows_count [of P st "dm_messages d" "dm_byMessageId d"]
  by (simp add: rewrite_device_def split_beta)

lemma rows_ok_rewrite:
  "rows_ok t dev n ms byId \<Longrightarrow>
     rows_ok t dev n (map (\<lambda>m. if P m then m\<lparr>mm_state := st\<rparr> else m) ms) (fst (snd (rewrite_rows P st ms byId)))"
  using rewrite_rows_ok [of t dev n "[]" ms byId P st] by (simp add: rewrite_rows_fst)

lemma device_ok_new: "device_ok t dev (new_device now)"
  by (simp add: device_ok_def new_device_def rows_ok_def by_id_def)

lemma device_ok_push:
  assumes "device_ok t dev d" and "dm_closed d = None" and "jget (dm_byMessageId d) (ma_messageId input) = None"
    and "ma_deviceId input = dev"
  shows "device_ok t dev (push_message (appended_message t input (dm_nextSeq d) body now) d)"
  using assms rows_ok_push [of t dev "dm_nextSeq d" "dm_messages d" "dm_byMessageId d"
      "appended_message t input (dm_nextSeq d) body now"]
  by (simp add: device_ok_def push_message_def appended_message_def)

lemma evolves_push: "evolves d (push_message m d)"
  by (simp add: evolves_def push_message_def rows_evolve_push)

lemma device_ok_advance:
  assumes "device_ok t dev d" and "dm_ackedSeq d \<le> ackedSeq" and "ackedSeq \<le> dm_deliveredSeq d"
  shows "device_ok t dev (advance_device ackedSeq now d)"
  using assms by (auto simp: device_ok_def advance_device_def rewrite_device_eq rows_ok_rewrite)

lemma evolves_advance: "dm_ackedSeq d \<le> ackedSeq \<Longrightarrow> evolves d (advance_device ackedSeq now d)"
  by (simp add: evolves_def advance_device_def rewrite_device_eq rows_evolve_ack)

lemma device_ok_expire: "device_ok t dev d \<Longrightarrow> device_ok t dev (fst (expirePendingMessages d sel))"
  by (auto simp: device_ok_def expirePendingMessages_def rewrite_device_eq rows_ok_rewrite)

lemma evolves_expire: "evolves d (fst (expirePendingMessages d sel))"
  by (simp add: evolves_def expirePendingMessages_def rewrite_device_eq rows_evolve_expire)

lemma device_ok_close: "device_ok t dev d \<Longrightarrow> device_ok t dev (fst (close_device cause now d))"
  by (auto simp: device_ok_def close_device_def expirePendingMessages_def rewrite_device_eq rows_ok_rewrite)

lemma evolves_close: "evolves d (fst (close_device cause now d))"
  using rows_evolve_expire [of "dm_ackedSeq d" "dm_messages d" "\<lambda>_. True"]
  by (simp add: evolves_def close_device_def expirePendingMessages_def rewrite_device_eq)

lemma replace_first_Some:
  "replace_first seq body ms = (ms', Some m') \<Longrightarrow>
     \<exists>pre m post. ms = pre @ m # post \<and> ms' = pre @ m' # post \<and>
       m' = m\<lparr>mm_body := mb_body body, mm_bodyHash := mb_bodyHash body, mm_byteSize := mb_byteSize body\<rparr>"
proof (induction ms arbitrary: ms')
  case Nil
  then show ?case by simp
next
  case (Cons a ms)
  show ?case
  proof (cases "mm_seq a = seq")
    case True
    with Cons.prems show ?thesis
      by (intro exI [of _ "[]"] exI [of _ a] exI [of _ ms]) (auto simp: Let_def)
  next
    case False
    with Cons.prems obtain ms1 where r: "replace_first seq body ms = (ms1, Some m')" and ms': "ms' = a # ms1"
      by (auto split: prod.splits)
    from Cons.IH [OF r] obtain pre m post where "ms = pre @ m # post" "ms1 = pre @ m' # post"
      "m' = m\<lparr>mm_body := mb_body body, mm_bodyHash := mb_bodyHash body, mm_byteSize := mb_byteSize body\<rparr>"
      by blast
    then show ?thesis by (intro exI [of _ "a # pre"] exI [of _ m] exI [of _ post]) (simp add: ms')
  qed
qed

lemma replace_body_device:
  assumes "replace_first seq body (dm_messages d) = (ms, Some m)"
  shows "device_ok t dev d \<Longrightarrow>
      device_ok t dev (d\<lparr>dm_messages := ms, dm_byMessageId := jset (mm_messageId m) m (dm_byMessageId d)\<rparr>)"
    and "evolves d (d\<lparr>dm_messages := ms, dm_byMessageId := jset (mm_messageId m) m (dm_byMessageId d)\<rparr>)"
proof -
  obtain pre m0 post where R: "dm_messages d = pre @ m0 # post" "ms = pre @ m # post"
    "m = m0\<lparr>mm_body := mb_body body, mm_bodyHash := mb_bodyHash body, mm_byteSize := mb_byteSize body\<rparr>"
    using replace_first_Some [OF assms] by blast
  have i: "ident m = ident m0" "mm_state m = mm_state m0" "mm_seq m = mm_seq m0" by (simp_all add: R ident_def)
  show "device_ok t dev d \<Longrightarrow>
      device_ok t dev (d\<lparr>dm_messages := ms, dm_byMessageId := jset (mm_messageId m) m (dm_byMessageId d)\<rparr>)"
    using rows_ok_replace [of t dev "dm_nextSeq d" pre m0 post "dm_byMessageId d" m] i
    by (auto simp: device_ok_def R(1,2))
  show "evolves d (d\<lparr>dm_messages := ms, dm_byMessageId := jset (mm_messageId m) m (dm_byMessageId d)\<rparr>)"
    using i by (auto simp: evolves_def rows_evolve_def R(1,2))
qed

section \<open>The sweep of one device\<close>

lemma collect_rows_spec:
  assumes "collect_rows ph input kept rest byId removed expired = (ms, byId', r, x, b)"
    and "rows_ok t dev n (kept @ rest) byId"
  shows "rows_ok t dev n ms byId' \<and> rows_evolve ack (kept @ rest) ms \<and>
    ((\<forall>m \<in> set (kept @ rest). mm_state m \<noteq> Pending) \<longrightarrow> (\<forall>m \<in> set ms. mm_state m \<noteq> Pending))"
  using assms
proof (induction ph input kept rest byId removed expired arbitrary: ms byId' r x b rule: collect_rows.induct)
  case (1 ph input kept byId removed expired)
  then show ?case by simp
next
  case (2 ph input kept m rest byId removed expired)
  consider (skip) "\<not> collect_eligible ph input (kept @ m # rest) m"
    | (stop) "collect_eligible ph input (kept @ m # rest) m" "removed + expired = num_int (ci_limit input)"
    | (expire) "collect_eligible ph input (kept @ m # rest) m" "removed + expired \<noteq> num_int (ci_limit input)" "ph = PendingPhase"
    | (remove) "collect_eligible ph input (kept @ m # rest) m" "removed + expired \<noteq> num_int (ci_limit input)" "ph \<noteq> PendingPhase"
    by blast
  then show ?case
  proof cases
    case skip
    have "collect_rows ph input (kept @ [m]) rest byId removed expired = (ms, byId', r, x, b)"
      and ok: "rows_ok t dev n ((kept @ [m]) @ rest) byId"
      using skip "2.prems" by simp_all
    from "2.IH"(1) [OF skip this] show ?thesis unfolding append_assoc append_Cons append_Nil .
  next
    case stop
    with "2.prems" show ?thesis by auto
  next
    case expire
    let ?m = "m\<lparr>mm_state := Expired\<rparr>"
    have st: "mm_state m = Pending" using expire by simp
    have ok: "rows_ok t dev n ((kept @ [?m]) @ rest) (jset (mm_messageId ?m) ?m byId)"
      using rows_ok_replace [OF "2.prems"(2), of ?m] by simp
    have "rows_ok t dev n ms byId' \<and> rows_evolve ack ((kept @ [?m]) @ rest) ms \<and>
        ((\<forall>m \<in> set ((kept @ [?m]) @ rest). mm_state m \<noteq> Pending) \<longrightarrow> (\<forall>m \<in> set ms. mm_state m \<noteq> Pending))"
      using "2.prems"(1) expire by (intro "2.IH"(2) [OF _ _ _ refl _ ok]) (simp_all add: Let_def)
    moreover have "rows_evolve ack (kept @ m # rest) ((kept @ [?m]) @ rest)"
      by (auto simp: rows_evolve_def st)
    ultimately show ?thesis using rows_evolve_trans [of ack _ _ ack] st by auto
  next
    case remove
    have ok: "rows_ok t dev n (kept @ rest) (jdel (mm_messageId m) byId)"
      by (rule rows_ok_remove [OF "2.prems"(2)])
    have "rows_ok t dev n ms byId' \<and> rows_evolve ack (kept @ rest) ms \<and>
        ((\<forall>m \<in> set (kept @ rest). mm_state m \<noteq> Pending) \<longrightarrow> (\<forall>m \<in> set ms. mm_state m \<noteq> Pending))"
      using "2.prems"(1) remove by (intro "2.IH"(3) [OF _ _ _ _ ok]) simp_all
    moreover have "rows_evolve ack (kept @ m # rest) (kept @ rest)"
    proof (cases ph)
      case AckedPhase
      with remove show ?thesis by (auto simp: rows_evolve_def)
    next
      case ReapPhase
      with remove have "mm_state m = Expired"
        and "\<exists>other \<in> set (kept @ m # rest). mm_state other = Expired \<and> mm_seq m < mm_seq other"
        by (auto simp: reapable_def list_ex_iff)
      then show ?thesis by (auto simp: rows_evolve_def)
    next
      case PendingPhase
      with remove show ?thesis by simp
    qed
    ultimately show ?thesis using rows_evolve_trans [of ack _ _ ack] by auto
  qed
qed

section \<open>One call of the port\<close>

datatype mailbox_op =
    MAppend mailbox_append_input "int option" int
  | MReadUsage
  | MReadAfter mailbox_read_query
  | MAdvanceCursor string int int
  | MRecordDelivery string int int
  | MReadCursor string int
  | MCollectExpired mailbox_collect_input
  | MExpirePending string "int list"
  | MCloseStream string mailbox_stream_close_cause int
  | MReopenStream string
  | MMessagesOf string
  | MReplaceBody string int mailbox_body

datatype mailbox_answer =
    MMessage "mailbox_error + mailbox_message"
  | MUsage int
  | MPage mailbox_page
  | MCursor "mailbox_error + mailbox_cursor_state"
  | MCollected "mailbox_error + collect_expired_result"
  | MExpired "mailbox_error + int"
  | MUnit
  | MMessages "mailbox_message list"

fun mailbox_exec :: "tenant \<Rightarrow> mailbox_op \<Rightarrow> mailbox_state \<Rightarrow> mailbox_answer \<times> mailbox_state" where
  "mailbox_exec t (MAppend i e now) s = map_prod MMessage id (mailbox_append t i e now s)"
| "mailbox_exec t MReadUsage s = (MUsage (mailbox_readUsage t s), s)"
| "mailbox_exec t (MReadAfter q) s = (MPage (readAfter t q s), s)"
| "mailbox_exec t (MAdvanceCursor dev a now) s = map_prod MCursor id (advanceCursor t dev a now s)"
| "mailbox_exec t (MRecordDelivery dev a now) s = map_prod MCursor id (recordDelivery t dev a now s)"
| "mailbox_exec t (MReadCursor dev now) s = (MCursor (Inr (readCursor t dev now s)), s)"
| "mailbox_exec t (MCollectExpired i) s = map_prod MCollected id (mailbox_collectExpired t i s)"
| "mailbox_exec t (MExpirePending dev seqs) s = map_prod (MExpired \<circ> Inr) id (expirePending t dev seqs s)"
| "mailbox_exec t (MCloseStream dev c now) s = map_prod MExpired id (closeStream t dev c now s)"
| "mailbox_exec t (MReopenStream dev) s = (MUnit, reopenStream t dev s)"
| "mailbox_exec t (MMessagesOf dev) s = (MMessages (messagesOf t dev s), s)"
| "mailbox_exec t (MReplaceBody dev n body) s = (MUnit, replaceBody t dev n body s)"

section \<open>The invariant of the store\<close>

definition mailbox_inv :: "mailbox_state \<Rightarrow> bool" where
  "mailbox_inv s =
     (jmap_ok s \<and> (\<forall>k d. jget s k = Some d \<longrightarrow>
        (\<exists>t dev. isTenantId t \<and> dev \<noteq> [] \<and> k = tenantKey t [dev] \<and> device_ok t dev d)))"

definition mailbox_le :: "mailbox_state \<Rightarrow> mailbox_state \<Rightarrow> bool" where
  "mailbox_le s s' = (\<forall>k d. jget s k = Some d \<longrightarrow> (\<exists>d'. jget s' k = Some d' \<and> evolves d d'))"

text \<open>What a call may do to one device.\<close>

definition keeps :: "device_mailbox \<Rightarrow> device_mailbox \<Rightarrow> bool" where
  "keeps d d' = (\<forall>t dev. device_ok t dev d \<longrightarrow> device_ok t dev d' \<and> evolves d d')"

definition keeps_all :: "mailbox_state \<Rightarrow> mailbox_state \<Rightarrow> bool" where
  "keeps_all s s' = (map fst s' = map fst s \<and> (\<forall>k d. jget s k = Some d \<longrightarrow> (\<exists>d'. jget s' k = Some d' \<and> keeps d d')))"

lemma keeps_refl [simp]: "keeps d d"
  by (simp add: keeps_def)

lemma keeps_trans: "keeps a b \<Longrightarrow> keeps b c \<Longrightarrow> keeps a c"
  by (meson keeps_def evolves_trans)

lemma keeps_all_refl [simp]: "keeps_all s s"
  by (simp add: keeps_all_def)

lemma keeps_all_trans: "keeps_all a b \<Longrightarrow> keeps_all b c \<Longrightarrow> keeps_all a c"
  unfolding keeps_all_def by (metis keeps_trans)

lemma mailbox_inv_empty [simp]: "mailbox_inv []"
  by (simp add: mailbox_inv_def)

lemma mailbox_inv_device:
  assumes "mailbox_inv s" and "isTenantId t" and "jget s (tenantKey t [dev]) = Some d"
  shows "device_ok t dev d" "dev \<noteq> []"
proof -
  obtain u dev' where "isTenantId u" "dev' \<noteq> []" "tenantKey t [dev] = tenantKey u [dev']" "device_ok u dev' d"
    using assms unfolding mailbox_inv_def by blast
  then show "device_ok t dev d" "dev \<noteq> []" using assms(2) by simp_all
qed

lemma mailbox_inv_put:
  assumes "mailbox_inv s" and "isTenantId t" and "dev \<noteq> []" and "device_ok t dev d"
  shows "mailbox_inv (jset (tenantKey t [dev]) d s)"
  using assms unfolding mailbox_inv_def by (auto split: if_splits)

lemma mailbox_le_refl [simp]: "mailbox_le s s"
  by (simp add: mailbox_le_def)

lemma mailbox_le_trans: "mailbox_le a b \<Longrightarrow> mailbox_le b c \<Longrightarrow> mailbox_le a c"
  unfolding mailbox_le_def by (meson evolves_trans)

lemma mailbox_le_put:
  "jget s k = Some d0 \<Longrightarrow> evolves d0 d \<Longrightarrow> mailbox_le s (jset k d s)"
  by (simp add: mailbox_le_def)

lemma keeps_all_inv:
  assumes "keeps_all s s'" and "mailbox_inv s"
  shows "mailbox_inv s' \<and> mailbox_le s s'"
proof -
  have ok: "jmap_ok s'" using assms by (simp add: keeps_all_def mailbox_inv_def jmap_ok_def)
  have old: "\<exists>d. jget s k = Some d \<and> keeps d d'" if "jget s' k = Some d'" for k d'
  proof -
    have "k \<in> fst ` set s"
      using that assms(1) jget_SomeD [OF that] unfolding keeps_all_def by (metis fst_conv image_eqI list.set_map)
    then obtain d where "jget s k = Some d" by (metis jget_None_iff not_None_eq)
    then show ?thesis using assms(1) that unfolding keeps_all_def by fastforce
  qed
  show ?thesis
    using assms ok old unfolding mailbox_inv_def mailbox_le_def keeps_all_def keeps_def by (metis (no_types, lifting))
qed

lemma mailbox_device_ok:
  assumes "mailbox_device t dev now s = Inr (d, s')" and "mailbox_inv s" and "isTenantId t"
  shows "mailbox_inv s'" "mailbox_le s s'" "jget s' (tenantKey t [dev]) = Some d" "device_ok t dev d" "dev \<noteq> []"
proof -
  have D: "dev \<noteq> []" using assms(1) by (auto simp: mailbox_device_def split: if_splits)
  show "dev \<noteq> []" by (rule D)
  show "mailbox_inv s'" "mailbox_le s s'" "jget s' (tenantKey t [dev]) = Some d" "device_ok t dev d"
    using assms D mailbox_inv_device [OF assms(2,3)] mailbox_inv_put [OF assms(2,3) D device_ok_new]
    by (auto simp: mailbox_device_def Let_def device_ok_new mailbox_le_def split: option.splits)
qed

lemma mailbox_put_keeps:
  assumes "mailbox_inv s" and "isTenantId t" and "jget s (tenantKey t [dev]) = Some d" and "keeps d d'"
  shows "mailbox_inv (jset (tenantKey t [dev]) d' s) \<and> mailbox_le s (jset (tenantKey t [dev]) d' s)"
proof -
  have ok: "device_ok t dev d" "dev \<noteq> []" by (rule mailbox_inv_device [OF assms(1-3)])+
  then have "device_ok t dev d'" "evolves d d'" using assms(4) by (auto simp: keeps_def)
  then show ?thesis
    using mailbox_inv_put [OF assms(1,2) ok(2)] assms(3) by (simp add: mailbox_le_put)
qed

lemma keeps_ops:
  "keeps d (fst (expirePendingMessages d sel))"
  "keeps d (fst (close_device cause now d))"
  "keeps d (d\<lparr>dm_closed := None\<rparr>)"
  "dm_deliveredSeq d \<le> n \<Longrightarrow> keeps d (d\<lparr>dm_deliveredSeq := n\<rparr>)"
  "dm_ackedSeq d \<le> a \<Longrightarrow> a \<le> dm_deliveredSeq d \<Longrightarrow> keeps d (advance_device a now d)"
  "replace_first seq body (dm_messages d) = (ms, Some m) \<Longrightarrow>
     keeps d (d\<lparr>dm_messages := ms, dm_byMessageId := jset (mm_messageId m) m (dm_byMessageId d)\<rparr>)"
  by (auto simp: keeps_def device_ok_expire evolves_expire device_ok_close evolves_close device_ok_advance
      evolves_advance replace_body_device) (auto simp: device_ok_def evolves_def)

lemma collect_rows_keeps:
  assumes "collect_rows ph input [] (dm_messages d) (dm_byMessageId d) removed expired = (ms, byId, r, x, b)"
  shows "keeps d (d\<lparr>dm_messages := ms, dm_byMessageId := byId\<rparr>)"
proof -
  have "device_ok t dev (d\<lparr>dm_messages := ms, dm_byMessageId := byId\<rparr>) \<and> evolves d (d\<lparr>dm_messages := ms, dm_byMessageId := byId\<rparr>)"
    if "device_ok t dev d" for t dev
  proof -
    have "rows_ok t dev (dm_nextSeq d) ([] @ dm_messages d) (dm_byMessageId d)"
      using that by (simp add: device_ok_def)
    from collect_rows_spec [OF assms this, of "dm_ackedSeq d"] that show ?thesis
      by (simp add: device_ok_def evolves_def)
  qed
  then show ?thesis by (simp add: keeps_def)
qed

lemma keeps_all_Cons: "keeps d d' \<Longrightarrow> keeps_all s s' \<Longrightarrow> keeps_all ((k, d) # s) ((k, d') # s')"
  by (auto simp: keeps_all_def jget_Cons)

lemma collect_devices_keeps:
  "collect_devices ph t input s removed expired = (s', r, x, b) \<Longrightarrow> keeps_all s s'"
proof (induction ph t input s removed expired arbitrary: s' r x b rule: collect_devices.induct)
  case (1 ph t input removed expired)
  then show ?case by simp
next
  case (2 ph t input key d s removed expired)
  show ?case
  proof (cases "in_tenant t key")
    case False
    then obtain s1 where s1: "collect_devices ph t input s removed expired = (s1, r, x, b)" "s' = (key, d) # s1"
      using "2.prems" by (auto split: prod.splits)
    from "2.IH"(1) [OF _ s1(1)] False show ?thesis by (simp add: s1(2) keeps_all_Cons)
  next
    case True
    obtain ms byId r1 x1 b1 where c: "collect_rows ph input [] (dm_messages d) (dm_byMessageId d) removed expired = (ms, byId, r1, x1, b1)"
      by (cases "collect_rows ph input [] (dm_messages d) (dm_byMessageId d) removed expired")
    note K = collect_rows_keeps [OF c]
    show ?thesis
    proof (cases b1)
      case True
      with \<open>in_tenant t key\<close> "2.prems" c K show ?thesis by (auto simp: Let_def intro: keeps_all_Cons)
    next
      case False
      obtain s1 r2 x2 b2 where s1: "collect_devices ph t input s r1 x1 = (s1, r2, x2, b2)"
        by (cases "collect_devices ph t input s r1 x1")
      have "keeps_all s s1"
        using \<open>in_tenant t key\<close> False c s1 by (intro "2.IH"(2) [OF _ c [symmetric] refl refl refl refl _ s1]) simp_all
      with \<open>in_tenant t key\<close> False "2.prems" c K s1 show ?thesis by (auto simp: Let_def intro: keeps_all_Cons)
    qed
  qed
qed

lemma collect_phases_keeps: "collect_phases t input s = (s', r, x, b) \<Longrightarrow> keeps_all s s'"
  by (auto simp: collect_phases_def split: prod.splits if_splits
      dest!: collect_devices_keeps intro: keeps_all_trans)

lemma append_commit_inv:
  assumes "mailbox_inv s" and "isTenantId t" and "jget s (tenantKey t [ma_deviceId input]) = Some d"
    and "dm_closed d = None" and "jget (dm_byMessageId d) (ma_messageId input) = None"
  shows "mailbox_inv (snd (append_commit t input limit (dm_nextSeq d) body now d s)) \<and>
    mailbox_le s (snd (append_commit t input limit (dm_nextSeq d) body now d s))"
proof -
  let ?m = "appended_message t input (dm_nextSeq d) body now"
  have "device_ok t (ma_deviceId input) (push_message ?m d)"
    using mailbox_inv_device [OF assms(1-3)] assms(4,5) by (intro device_ok_push) simp_all
  then have "mailbox_inv (jset (tenantKey t [ma_deviceId input]) (push_message ?m d) s) \<and>
      mailbox_le s (jset (tenantKey t [ma_deviceId input]) (push_message ?m d) s)"
    using mailbox_inv_put [OF assms(1,2)] mailbox_inv_device(2) [OF assms(1-3)] assms(3)
    by (simp add: mailbox_le_put evolves_push)
  then show ?thesis using assms(1) by (auto simp: append_commit_def Let_def split: option.splits)
qed

lemma append_begin_Reserved:
  "append_begin input e d = AppendReserved limit seq \<longleftrightarrow>
     dm_closed d = None \<and> jget (dm_byMessageId d) (ma_messageId input) = None \<and> seq = dm_nextSeq d \<and>
     (if ma_admission input = Cancellation then limit = None else limit = e \<and> e \<noteq> None)"
  by (auto simp: append_begin_def mailboxLimit_def split: option.splits if_splits)

lemma mailbox_append_inv:
  assumes "mailbox_inv s" and "isTenantId t"
  shows "mailbox_inv (snd (mailbox_append t input e now s)) \<and> mailbox_le s (snd (mailbox_append t input e now s))"
proof (cases "mailbox_device t (ma_deviceId input) now s")
  case (Inl err)
  then show ?thesis using assms by (simp add: mailbox_append_def)
next
  case (Inr p)
  obtain d s' where p: "p = (d, s')" by (cases p)
  note D = mailbox_device_ok [OF Inr [unfolded p] assms]
  have C: "mailbox_inv (snd (append_commit t input limit seq body now d s')) \<and>
      mailbox_le s (snd (append_commit t input limit seq body now d s'))"
    if "append_begin input e d = AppendReserved limit seq" for limit seq body
    using append_commit_inv [OF D(1) assms(2) D(3)] that D(2) mailbox_le_trans
    by (auto simp: append_begin_Reserved)
  show ?thesis
    using D(1,2) C by (auto simp: mailbox_append_def Inr p split: append_progress.splits sum.splits)
qed

lemma mailbox_on_device:
  assumes "mailbox_inv s" and "isTenantId t" and "mailbox_device t dev now s = Inr (d, s')" and "keeps d d'"
  shows "mailbox_inv (jset (tenantKey t [dev]) d' s') \<and> mailbox_le s (jset (tenantKey t [dev]) d' s')"
proof -
  note D = mailbox_device_ok [OF assms(3,1,2)]
  show ?thesis using mailbox_put_keeps [OF D(1) assms(2) D(3) assms(4)] D(2) mailbox_le_trans by blast
qed

lemma mailbox_exec_inv:
  assumes "mailbox_inv s" and "isTenantId t"
  shows "mailbox_inv (snd (mailbox_exec t op s)) \<and> mailbox_le s (snd (mailbox_exec t op s))"
proof -
  note D = mailbox_on_device [OF assms] and N = mailbox_device_ok(1,2) [OF _ assms]
    and P = mailbox_put_keeps [OF assms]
  show ?thesis
  proof (cases op)
    case (MAppend i e now)
    then show ?thesis using mailbox_append_inv [OF assms] by simp
  next
    case (MAdvanceCursor dev a now)
    then show ?thesis
      using assms D [of dev now] N [of dev now] keeps_ops(5)
      by (auto simp: advanceCursor_def Let_def not_less simp del: tenantKey_one split: sum.splits prod.splits)
  next
    case (MRecordDelivery dev a now)
    then show ?thesis
      using assms D [of dev now] N [of dev now] keeps_ops(4)
      by (auto simp: recordDelivery_def Let_def not_less simp del: tenantKey_one split: sum.splits prod.splits)
  next
    case (MCollectExpired i)
    then show ?thesis
      using assms keeps_all_inv collect_phases_keeps
      by (auto simp: mailbox_collectExpired_def Let_def split: sum.splits prod.splits) blast+
  next
    case (MExpirePending dev seqs)
    then show ?thesis
      using assms P [of dev] keeps_ops(1)
      by (auto simp: expirePending_def split_beta simp del: tenantKey_one split: option.splits)
  next
    case (MCloseStream dev c now)
    then show ?thesis
      using assms D [of dev now] N [of dev now] keeps_ops(2)
      by (auto simp: closeStream_def split_beta simp del: tenantKey_one split: sum.splits)
  next
    case (MReopenStream dev)
    then show ?thesis
      using assms P [of dev] keeps_ops(3) by (auto simp: reopenStream_def simp del: tenantKey_one split: option.splits)
  next
    case (MReplaceBody dev n body)
    then show ?thesis
      using assms P [of dev] keeps_ops(6)
      by (auto simp: replaceBody_def simp del: tenantKey_one split: option.splits prod.splits)
  qed (use assms in simp_all)
qed

interpretation mailbox_history: monotone_store mailbox_exec tenant_call mailbox_inv mailbox_le
  by unfold_locales (simp_all add: mailbox_exec_inv, rule mailbox_le_trans)

section \<open>Isolation\<close>

text \<open>A call sees nothing of the store but the rows of its own tenant.\<close>

lemma usedBytes_rows [simp]: "usedBytes t (tenant_rows t s) = usedBytes t s"
  by (simp add: usedBytes_def tenant_rows_def)

lemma mailbox_device_rows:
  "mailbox_device t dev now (tenant_rows t s) = map_sum id (map_prod id (tenant_rows t)) (mailbox_device t dev now s)"
  by (simp add: mailbox_device_def Let_def split: option.splits)

lemma mailbox_append_rows: "restricts t (mailbox_append t i e now (tenant_rows t s)) (mailbox_append t i e now s)"
  by (simp add: restricts_def mailbox_append_def mailbox_device_rows append_commit_def Let_def
      split: sum.splits prod.splits append_progress.splits option.splits)

lemma collect_devices_rows:
  "collect_devices ph t input (tenant_rows t s) removed expired =
     (case collect_devices ph t input s removed expired of (s', r, x, b) \<Rightarrow> (tenant_rows t s', r, x, b))"
  by (induction ph t input s removed expired rule: collect_devices.induct)
    (simp_all add: tenant_rows_def Let_def split: prod.splits)

lemma collect_phases_rows:
  "collect_phases t input (tenant_rows t s) = (case collect_phases t input s of (s', r) \<Rightarrow> (tenant_rows t s', r))"
  by (simp add: collect_phases_def collect_devices_rows split_beta)

lemma mailbox_collect_rows:
  "restricts t (mailbox_collectExpired t i (tenant_rows t s)) (mailbox_collectExpired t i s)"
  by (simp add: restricts_def mailbox_collectExpired_def collect_phases_rows Let_def
      split: sum.splits prod.splits)

lemma mailbox_exec_rows: "restricts t (mailbox_exec t op (tenant_rows t s)) (mailbox_exec t op s)"
proof (cases op)
  case (MAppend i e now)
  then show ?thesis using mailbox_append_rows by (simp add: restricts_def)
next
  case (MCollectExpired i)
  then show ?thesis using mailbox_collect_rows by (simp add: restricts_def)
next
  case (MAdvanceCursor dev a now)
  then show ?thesis
    by (simp add: restricts_def advanceCursor_def mailbox_device_rows Let_def split: sum.splits prod.splits)
next
  case (MRecordDelivery dev a now)
  then show ?thesis
    by (simp add: restricts_def recordDelivery_def mailbox_device_rows Let_def split: sum.splits prod.splits)
next
  case (MCloseStream dev c now)
  then show ?thesis
    by (simp add: restricts_def closeStream_def mailbox_device_rows split: sum.splits prod.splits)
qed (simp_all add: restricts_def mailbox_readUsage_def readAfter_def readCursor_def expirePending_def
    reopenStream_def messagesOf_def replaceBody_def Let_def split: option.splits prod.splits)

lemma collect_devices_other:
  assumes "isTenantId t" and "isTenantId u" and "t \<noteq> u"
  shows "tenant_rows u (fst (collect_devices ph t input s removed expired)) = tenant_rows u s"
  using assms
proof (induction ph t input s removed expired rule: collect_devices.induct)
  case (1 ph t input removed expired)
  then show ?case by simp
next
  case (2 ph t input key d s removed expired)
  then have "in_tenant t key \<Longrightarrow> \<not> in_tenant u key" using in_tenant_unique by blast
  with 2 show ?case by (auto simp: tenant_rows_def Let_def split: prod.splits)
qed

lemma collect_phases_other:
  assumes "isTenantId t" and "isTenantId u" and "t \<noteq> u"
  shows "tenant_rows u (fst (collect_phases t input s)) = tenant_rows u s"
  using collect_devices_other [OF assms] by (simp add: collect_phases_def split_beta)

lemma mailbox_exec_other:
  assumes "isTenantId t" and "isTenantId u" and "t \<noteq> u"
  shows "tenant_rows u (snd (mailbox_exec t op s)) = tenant_rows u s"
proof (cases op)
  case (MCollectExpired i)
  then show ?thesis
    using collect_phases_other [OF assms]
    by (simp add: mailbox_collectExpired_def Let_def split_beta split: sum.splits)
qed (use assms in \<open>simp_all add: mailbox_append_def mailbox_device_def append_commit_def advanceCursor_def recordDelivery_def
    expirePending_def closeStream_def reopenStream_def replaceBody_def Let_def split_beta
    split: option.splits prod.splits sum.splits append_progress.splits\<close>)

interpretation mailbox_store: row_store mailbox_exec
  by unfold_locales (rule mailbox_exec_rows, rule mailbox_exec_other)

section \<open>At-least-once delivery\<close>

lemma pending_after_sort:
  "pending_after a d = sort_key mm_seq (filter (\<lambda>m. mm_state m = Pending \<and> a < mm_seq m) (dm_messages d))"
  by (simp add: pending_after_def sort_by_key)

lemma pending_after_sorted:
  assumes "device_ok t dev d"
  shows "sorted_wrt (<) (map mm_seq (pending_after a d))"
    and "pending_after a d = filter (\<lambda>m. mm_state m = Pending \<and> a < mm_seq m) (dm_messages d)"
proof -
  let ?f = "filter (\<lambda>m. mm_state m = Pending \<and> a < mm_seq m) (dm_messages d)"
  have "sorted_wrt (<) (map mm_seq ?f)"
    using assms by (simp add: device_ok_def rows_ok_def sorted_wrt_map sorted_wrt_filter)
  then have "sorted (map mm_seq ?f)" by (simp add: strict_sorted_imp_sorted)
  then show e: "pending_after a d = ?f" by (simp add: pending_after_sort sort_key_id_if_sorted)
  show "sorted_wrt (<) (map mm_seq (pending_after a d))" using \<open>sorted_wrt (<) (map mm_seq ?f)\<close> by (simp add: e)
qed

text \<open>Reading one row from the position just before it.\<close>

definition row_query :: "string \<Rightarrow> int \<Rightarrow> mailbox_read_query" where
  "row_query dev seq = \<lparr>mq_deviceId = dev, mq_afterSeq = seq - 1, mq_limit = Some 1\<rparr>"

lemma read_one_row:
  assumes "device_ok t dev d" and "jget s (tenantKey t [dev]) = Some d"
    and "m \<in> set (dm_messages d)" and "mm_state m = Pending"
  shows "mp_messages (readAfter t (row_query dev (mm_seq m)) s) = [m]"
proof -
  let ?P = "pending_after (mm_seq m - 1) d"
  have m: "m \<in> set ?P" using assms(3,4) by (simp add: pending_after_sort)
  then obtain x xs where P: "?P = x # xs" by (cases ?P) auto
  have "x \<in> set ?P" by (simp add: P)
  then have "mm_seq m \<le> mm_seq x" by (auto simp: pending_after_sort)
  moreover have "\<forall>y \<in> set xs. mm_seq x < mm_seq y"
    using pending_after_sorted(1) [OF assms(1), of "mm_seq m - 1"] by (simp add: P)
  ultimately have "m = x" using m P by auto
  then show ?thesis
    using P assms(2) by (simp add: readAfter_def row_query_def slice0_def Let_def del: tenantKey_one)
qed

lemma evolves_row:
  assumes "evolves d d'" and "m \<in> set (dm_messages d)" and "mm_state m = Pending"
  shows "(\<exists>m' \<in> set (dm_messages d'). mm_state m' = Pending \<and> ident m' = ident m) \<or>
    mm_seq m \<le> dm_ackedSeq d' \<or> mm_seq m < recoverableFrom d'"
  using assms unfolding evolves_def rows_evolve_def recoverableFrom_iff by blast

lemma readAfter_recoverable:
  "jget s (tenantKey t [mq_deviceId q]) = Some d \<Longrightarrow> mp_recoverableFrom (readAfter t q s) = recoverableFrom d"
  by (simp add: readAfter_def Let_def)

text \<open>
  C1. At-least-once delivery, and loss is never silent: once a row is pending, then after any
  history of calls by any tenants (appends, acknowledgements, expiry, retention sweeps, closing
  and reopening) the device can still read it, or the device's acknowledged position has reached
  it, or \<open>recoverableFrom\<close> of every later page lies beyond it, which tells the device that it
  lost rows.
\<close>

theorem mailbox_no_silent_loss:
  assumes "mailbox_inv s" and "isTenantId t" and "\<forall>(u, op) \<in> set ops. isTenantId u"
    and "jget s (tenantKey t [dev]) = Some d" and "m \<in> set (dm_messages d)" and "mm_state m = Pending"
  shows "let s' = snd (run_ops mailbox_exec ops s) in
    (\<exists>m'. mp_messages (readAfter t (row_query dev (mm_seq m)) s') = [m'] \<and> ident m' = ident m) \<or>
    mm_seq m \<le> mc_ackedSeq (readCursor t dev now s') \<or>
    (\<forall>q. mq_deviceId q = dev \<longrightarrow> mm_seq m < mp_recoverableFrom (readAfter t q s'))"
proof -
  let ?s = "snd (run_ops mailbox_exec ops s)"
  have inv: "mailbox_inv ?s" and le: "mailbox_le s ?s"
    by (rule mailbox_history.run_inv [OF assms(3,1)] mailbox_history.run_mono [OF assms(3,1)])+
  obtain d' where d': "jget ?s (tenantKey t [dev]) = Some d'" "evolves d d'"
    using le assms(4) unfolding mailbox_le_def by blast
  have ok: "device_ok t dev d'" by (rule mailbox_inv_device(1) [OF inv assms(2) d'(1)])
  have read: "\<exists>m'. mp_messages (readAfter t (row_query dev (mm_seq m)) ?s) = [m'] \<and> ident m' = ident m"
    if "m' \<in> set (dm_messages d')" "mm_state m' = Pending" "ident m' = ident m" for m'
    using read_one_row [OF ok d'(1) that(1,2)] that(3) by (simp add: ident_def)
  have "mc_ackedSeq (readCursor t dev now ?s) = dm_ackedSeq d'"
    using d'(1) by (simp add: readCursor_def cursorState_def)
  then show ?thesis
    using evolves_row [OF d'(2) assms(5,6)] read readAfter_recoverable [of ?s t _ d'] d'(1)
    unfolding Let_def by fastforce
qed

section \<open>Admission\<close>

lemma usedBytes_jsum: "usedBytes t s = jsum (\<lambda>(k, d). if in_tenant t k then pending_bytes d else 0) s"
  unfolding usedBytes_def jsum_def by (induction s) auto

lemma usedBytes_jset:
  assumes "jmap_ok s" and "isTenantId t" and "jget s (tenantKey t [dev]) = Some d"
  shows "usedBytes t (jset (tenantKey t [dev]) d' s) = usedBytes t s + pending_bytes d' - pending_bytes d"
  using assms by (simp add: usedBytes_jsum jsum_jset)

lemma pending_bytes_push: "pending_bytes (push_message (appended_message t i seq body now) d) = pending_bytes d + mb_byteSize body"
  by (simp add: pending_bytes_def push_message_def appended_message_def)

lemma usedBytes_new_device:
  "jmap_ok s \<Longrightarrow> mailbox_device t dev now s = Inr (d, s') \<Longrightarrow> usedBytes t s' = usedBytes t s"
  by (auto simp: mailbox_device_def Let_def usedBytes_jsum jsum_jset pending_bytes_def new_device_def
      split: if_splits option.splits)

definition sample_append :: "string \<Rightarrow> int \<Rightarrow> mailbox_append_input" where
  "sample_append i n = \<lparr>ma_deviceId = ''d'', ma_messageId = i,
     ma_materialize = (\<lambda>_. Inr \<lparr>mb_body = ''b'', mb_bodyHash = ''h'', mb_byteSize = n\<rparr>), ma_admission = Limited\<rparr>"

text \<open>
  A limited append of a new message on an open stream with an entitlement of \<open>l\<close> bytes: when
  the retained pending bytes of the whole tenant plus the new body exceed \<open>l\<close> it is refused and
  neither the usage nor the next sequence number of the device moves; otherwise the row gets the
  next sequence number, the usage grows by exactly the body and stays within \<open>l\<close>.
\<close>

theorem mailbox_append_admission:
  assumes "mailbox_inv s" and "isTenantId t" and "ma_admission i = Limited"
    and "mailbox_device t (ma_deviceId i) now s = Inr (d, s0)" and "dm_closed d = None"
    and "jget (dm_byMessageId d) (ma_messageId i) = None" and "ma_materialize i (dm_nextSeq d) = Inr body"
  shows "case mailbox_append t i (Some l) now s of
      (Inl err, s') \<Rightarrow> err = ByokCoreError Storage_quota_exceeded \<and> l < usedBytes t s + mb_byteSize body \<and>
        usedBytes t s' = usedBytes t s \<and> jget s' (tenantKey t [ma_deviceId i]) = Some d
    | (Inr m, s') \<Rightarrow> mm_seq m = dm_nextSeq d \<and> usedBytes t s' = usedBytes t s + mb_byteSize body \<and>
        usedBytes t s' \<le> l \<and> map_option dm_nextSeq (jget s' (tenantKey t [ma_deviceId i])) = Some (dm_nextSeq d + 1)"
proof -
  note D = mailbox_device_ok [OF assms(4,1,2)]
  have u: "usedBytes t s0 = usedBytes t s"
    using usedBytes_new_device assms(1,4) by (simp add: mailbox_inv_def)
  have b: "append_begin i (Some l) d = AppendReserved (Some l) (dm_nextSeq d)"
    using assms(3,5,6) by (simp add: append_begin_Reserved)
  have j: "usedBytes t (jset (tenantKey t [ma_deviceId i]) d' s0) = usedBytes t s0 + pending_bytes d' - pending_bytes d" for d'
    using D(1,3) assms(2) by (intro usedBytes_jset) (simp_all add: mailbox_inv_def)
  show ?thesis
    using u j D(3) by (simp add: mailbox_append_def assms(4,7) b append_commit_def Let_def pending_bytes_push del: tenantKey_one)
      (simp add: appended_message_def push_message_def)
qed

theorem mailbox_append_admission_witness:
  "case mailbox_append ''acme'' (sample_append ''m'' 5) (Some 9) 0 [] of
      (Inl err, s') \<Rightarrow> False | (Inr m, s') \<Rightarrow> mm_seq m = 1 \<and> usedBytes ''acme'' s' = 5"
proof -
  have d: "mailbox_device ''acme'' (ma_deviceId (sample_append ''m'' 5)) 0 [] =
      Inr (new_device 0, jset (tenantKey ''acme'' [''d'']) (new_device 0) [])"
    by (simp add: mailbox_device_def sample_append_def Let_def)
  show ?thesis
    using mailbox_append_admission [OF _ _ _ d, of "\<lparr>mb_body = ''b'', mb_bodyHash = ''h'', mb_byteSize = 5\<rparr>" 9]
    by (auto simp: sample_append_def new_device_def usedBytes_def split: prod.splits sum.splits)
qed

text \<open>
  Appending is idempotent by message id: after an append answered a row, every later append
  with the same device and message id, whatever its body, entitlement and time, answers that
  same row and changes nothing.
\<close>

theorem mailbox_append_idempotent:
  assumes "mailbox_inv s" and "isTenantId t" and "mailbox_append t i e now s = (Inr m, s')"
    and "ma_deviceId i' = ma_deviceId i" and "ma_messageId i' = ma_messageId i"
  shows "mailbox_append t i' e' now' s' = (Inr m, s')"
proof (cases "mailbox_device t (ma_deviceId i) now s")
  case (Inl err)
  then show ?thesis using assms(3) by (simp add: mailbox_append_def)
next
  case (Inr p)
  obtain d s0 where p: "p = (d, s0)" by (cases p)
  note D = mailbox_device_ok [OF Inr [unfolded p] assms(1,2)]
  have "\<exists>d'. jget s' (tenantKey t [ma_deviceId i]) = Some d' \<and> dm_closed d' = None \<and>
      jget (dm_byMessageId d') (ma_messageId i) = Some m"
    using assms(3) D(3)
    by (auto simp: mailbox_append_def Inr p append_begin_def append_commit_def mailboxLimit_def Let_def
        push_message_def appended_message_def split: append_progress.splits option.splits sum.splits if_splits)
  then show ?thesis
    using D(5) assms(4,5) by (auto simp: mailbox_append_def mailbox_device_def Let_def append_begin_def)
qed

definition sample_mailbox :: mailbox_state where
  "sample_mailbox = snd (mailbox_append ''acme'' (sample_append ''m'' 5) (Some 9) 0 [])"

definition sample_message :: mailbox_message where
  "sample_message = appended_message ''acme'' (sample_append ''m'' 5) 1 \<lparr>mb_body = ''b'', mb_bodyHash = ''h'', mb_byteSize = 5\<rparr> 0"

lemma sample_mailbox_append:
  "mailbox_append ''acme'' (sample_append ''m'' 5) (Some 9) 0 [] =
     (Inr sample_message, [(tenantKey ''acme'' [''d''], push_message sample_message (new_device 0))])"
  by (simp add: mailbox_append_def mailbox_device_def append_begin_def append_commit_def mailboxLimit_def sample_append_def
      sample_message_def new_device_def usedBytes_def pending_bytes_def in_tenant_own Let_def jset_def)

lemma sample_mailbox_eq: "sample_mailbox = [(tenantKey ''acme'' [''d''], push_message sample_message (new_device 0))]"
  by (simp add: sample_mailbox_def sample_mailbox_append)

lemma sample_mailbox_get [simp]:
  "jget sample_mailbox (tenantKey ''acme'' [''d'']) = Some (push_message sample_message (new_device 0))"
  by (simp add: sample_mailbox_eq jget_def)

lemma sample_mailbox_inv: "mailbox_inv sample_mailbox"
  unfolding sample_mailbox_def using mailbox_append_inv [of "[]" "''acme''"] by simp

lemma sample_message_simps [simp]:
  "mm_state sample_message = Pending" "mm_seq sample_message = 1" "mm_messageId sample_message = ''m''"
  "dm_messages (push_message sample_message (new_device 0)) = [sample_message]"
  by (simp_all add: sample_message_def appended_message_def sample_append_def push_message_def new_device_def)

theorem mailbox_append_idempotent_witness:
  "mailbox_append ''acme'' (sample_append ''m'' 700) None 99 sample_mailbox = (Inr sample_message, sample_mailbox)"
  unfolding sample_mailbox_eq
  by (rule mailbox_append_idempotent [OF mailbox_inv_empty _ sample_mailbox_append]) (simp_all add: sample_append_def)

theorem mailbox_no_silent_loss_witness:
  "let s' = snd (run_ops mailbox_exec [(''acme'', MCloseStream ''d'' Device_revoked 7)] sample_mailbox) in
    (\<exists>m'. mp_messages (readAfter ''acme'' (row_query ''d'' 1) s') = [m'] \<and> ident m' = ident sample_message) \<or>
    1 \<le> mc_ackedSeq (readCursor ''acme'' ''d'' 8 s') \<or>
    (\<forall>q. mq_deviceId q = ''d'' \<longrightarrow> 1 < mp_recoverableFrom (readAfter ''acme'' q s'))"
  using mailbox_no_silent_loss [OF sample_mailbox_inv _ _ sample_mailbox_get, of "[(''acme'', MCloseStream ''d'' Device_revoked 7)]" sample_message 8]
  by simp

section \<open>Closed streams\<close>

definition stream_closed :: "tenant \<Rightarrow> string \<Rightarrow> mailbox_state \<Rightarrow> bool" where
  "stream_closed t dev s = (case jget s (tenantKey t [dev]) of None \<Rightarrow> False | Some d \<Rightarrow> dm_closed d \<noteq> None)"

lemma closed_field:
  "dm_closed (fst (expirePendingMessages d sel)) = dm_closed d"
  "dm_closed (advance_device a now d) = dm_closed d"
  "dm_closed (push_message m d) = dm_closed d"
  "\<exists>a b. dm_closed (fst (close_device c now d)) = Some (a, b)"
  by (simp_all add: expirePendingMessages_def advance_device_def push_message_def close_device_def rewrite_device_eq)

lemma collect_devices_closed:
  "stream_closed u dev (fst (collect_devices ph t input s removed expired)) = stream_closed u dev s"
  by (induction ph t input s removed expired rule: collect_devices.induct)
    (auto simp: stream_closed_def jget_Cons Let_def split: prod.splits)

lemma collect_phases_closed: "stream_closed u dev (fst (collect_phases t input s)) = stream_closed u dev s"
  using collect_devices_closed by (simp add: collect_phases_def split_beta)

lemma closed_put:
  "stream_closed t dev s \<Longrightarrow> jget s k = Some d \<Longrightarrow> (dm_closed d \<noteq> None \<Longrightarrow> dm_closed d' \<noteq> None) \<Longrightarrow>
     stream_closed t dev (jset k d' s)"
  by (auto simp: stream_closed_def split: option.splits)

lemma closed_device:
  "mailbox_device u dev' now s = Inr (d, s') \<Longrightarrow> stream_closed t dev s \<Longrightarrow>
     stream_closed t dev s' \<and> jget s' (tenantKey u [dev']) = Some d"
  by (auto simp: mailbox_device_def stream_closed_def Let_def split: option.splits if_splits)

lemma closed_append:
  assumes "stream_closed t dev s"
  shows "stream_closed t dev (snd (mailbox_append u i e now s))"
proof (cases "mailbox_device u (ma_deviceId i) now s")
  case (Inl err)
  then show ?thesis using assms by (simp add: mailbox_append_def)
next
  case (Inr p)
  obtain d s' where p: "p = (d, s')" by (cases p)
  note D = closed_device [OF Inr [unfolded p] assms]
  have "stream_closed t dev (snd (append_commit u i limit seq body now d s'))" for limit seq body
    using D closed_put [of t dev s' _ d "push_message (appended_message u i seq body now) d"]
    by (auto simp: append_commit_def closed_field Let_def simp del: tenantKey_one split: option.splits)
  then show ?thesis
    using D by (auto simp: mailbox_append_def Inr p split: append_progress.splits sum.splits)
qed

lemma closed_call:
  assumes "stream_closed t dev s"
  shows "stream_closed t dev (snd (advanceCursor u dev' a now s))"
    and "stream_closed t dev (snd (recordDelivery u dev' a now s))"
    and "stream_closed t dev (snd (closeStream u dev' c now s))"
    and "stream_closed t dev (snd (expirePending u dev' seqs s))"
    and "stream_closed t dev (replaceBody u dev' n body s)"
  using closed_device [OF _ assms, of u dev' now] assms
  by (auto simp: advanceCursor_def recordDelivery_def closeStream_def expirePending_def replaceBody_def
      Let_def split_beta closed_field simp del: tenantKey_one split: sum.splits option.splits
      intro!: closed_put)

lemma mailbox_exec_closed:
  assumes "isTenantId t" and "isTenantId u" and "stream_closed t dev s" and "(u, op) \<noteq> (t, MReopenStream dev)"
  shows "stream_closed t dev (snd (mailbox_exec u op s))"
proof (cases op)
  case (MCollectExpired i)
  then show ?thesis
    using assms(3) by (simp add: mailbox_collectExpired_def Let_def split_beta collect_phases_closed split: sum.splits)
next
  case (MReopenStream dev')
  then show ?thesis using assms by (auto simp: stream_closed_def reopenStream_def split: option.splits)
qed (use assms(3) in \<open>simp_all add: closed_append closed_call\<close>)

lemma run_closed:
  assumes "isTenantId t" and "\<forall>(u, op) \<in> set ops. isTenantId u" and "stream_closed t dev s"
    and "(t, MReopenStream dev) \<notin> set ops"
  shows "stream_closed t dev (snd (run_ops mailbox_exec ops s))"
  using assms(2-4)
proof (induction ops arbitrary: s)
  case Nil
  then show ?case by simp
next
  case (Cons a ops)
  obtain u op where a: "a = (u, op)" by (cases a)
  have "stream_closed t dev (snd (mailbox_exec u op s))"
    using Cons.prems assms(1) by (intro mailbox_exec_closed) (auto simp: a)
  then have "stream_closed t dev (snd (run_ops mailbox_exec ops (snd (mailbox_exec u op s))))"
    using Cons.prems by (intro Cons.IH) simp_all
  then show ?case by (simp add: a run_ops_step del: run_ops.simps)
qed

lemma closeStream_closed: "dev \<noteq> [] \<Longrightarrow> stream_closed t dev (snd (closeStream t dev cause now s))"
  using closed_field(4) [of cause now]
  by (auto simp: closeStream_def mailbox_device_def stream_closed_def Let_def split_beta split: option.splits)

text \<open>
  A closed stream stays closed until it is reopened: after \<open>closeStream\<close> and any further calls
  by any tenants that do not reopen that stream, the device has no pending row left to read and
  every append to it fails with \<open>MailboxStreamClosedError\<close> and changes nothing.
\<close>

theorem mailbox_closed_until_reopened:
  assumes "mailbox_inv s" and "isTenantId t" and "dev \<noteq> []" and "\<forall>(u, op) \<in> set ops. isTenantId u"
    and "(t, MReopenStream dev) \<notin> set ops" and "ma_deviceId i = dev"
  shows "let s' = snd (run_ops mailbox_exec ((t, MCloseStream dev cause now) # ops) s) in
    (\<forall>q. mq_deviceId q = dev \<longrightarrow> mp_messages (readAfter t q s') = []) \<and>
    (\<exists>cause'. mailbox_append t i e now' s' = (Inl (MailboxStreamClosedError dev cause'), s'))"
proof -
  let ?ops = "(t, MCloseStream dev cause now) # ops"
  let ?s = "snd (run_ops mailbox_exec ?ops s)"
  have v: "\<forall>(u, op) \<in> set ?ops. isTenantId u" using assms(2,4) by simp
  have inv: "mailbox_inv ?s" by (rule mailbox_history.run_inv [OF v assms(1)])
  have "stream_closed t dev ?s"
    using run_closed [OF assms(2,4) closeStream_closed [OF assms(3)] assms(5)]
    by (simp add: run_ops_step del: run_ops.simps)
  then obtain d at0 c where d: "jget ?s (tenantKey t [dev]) = Some d" "dm_closed d = Some (at0, c)"
    by (auto simp: stream_closed_def split: option.splits)
  have "device_ok t dev d" by (rule mailbox_inv_device(1) [OF inv assms(2) d(1)])
  then have "pending_after a d = []" for a
    using d(2) by (simp add: device_ok_def pending_after_sort filter_empty_conv)
  then have "\<forall>q. mq_deviceId q = dev \<longrightarrow> mp_messages (readAfter t q ?s) = []"
    using d(1) by (simp add: readAfter_def Let_def slice0_def del: run_ops.simps)
  moreover have "mailbox_append t i e now' ?s = (Inl (MailboxStreamClosedError dev c), ?s)"
    using d assms(3,6) by (simp add: mailbox_append_def mailbox_device_def append_begin_def Let_def del: run_ops.simps)
  ultimately show ?thesis unfolding Let_def by blast
qed

theorem mailbox_closed_until_reopened_witness:
  "let s' = snd (run_ops mailbox_exec ((''acme'', MCloseStream ''d'' Device_superseded 1) # [(''globex'', MReopenStream ''d'')]) sample_mailbox) in
    (\<forall>q. mq_deviceId q = ''d'' \<longrightarrow> mp_messages (readAfter ''acme'' q s') = []) \<and>
    (\<exists>cause'. mailbox_append ''acme'' (sample_append ''n'' 5) (Some 9) 2 s' = (Inl (MailboxStreamClosedError ''d'' cause'), s'))"
  by (rule mailbox_closed_until_reopened [OF sample_mailbox_inv]) (simp_all add: sample_append_def)

section \<open>The message feed\<close>

definition mailbox_fetch :: "tenant \<times> string \<Rightarrow> int \<Rightarrow> int \<Rightarrow> mailbox_state \<Rightarrow> mailbox_message list \<times> int \<times> bool" where
  "mailbox_fetch = (\<lambda>(t, dev) limit a s.
     let page = readAfter t \<lparr>mq_deviceId = dev, mq_afterSeq = a, mq_limit = Some limit\<rparr> s
     in (mp_messages page, mp_nextSeq page, mp_hasMore page))"

definition device_pending :: "tenant \<times> string \<Rightarrow> int \<Rightarrow> mailbox_state \<Rightarrow> mailbox_message list" where
  "device_pending = (\<lambda>(t, dev) a s.
     filter (\<lambda>m. mm_state m = Pending \<and> a < mm_seq m) (sort_key mm_seq (messagesOf t dev s)))"

lemma device_pending_eq:
  "device_pending (t, dev) a s = (case jget s (tenantKey t [dev]) of None \<Rightarrow> [] | Some d \<Rightarrow> pending_after a d)"
  by (simp add: device_pending_def messagesOf_def pending_after_sort filter_sort split: option.splits)

interpretation mailbox_feed: cursor_feed "\<lambda>(t, dev) s. mailbox_inv s \<and> isTenantId t" device_pending mm_seq mailbox_fetch "\<lambda>n. 0 < n"
proof (unfold_locales, goal_cases)
  case (1 q s a)
  obtain t dev where q: "q = (t, dev)" by (cases q)
  show ?case
    using 1 pending_after_sorted(1) mailbox_inv_device(1) [of s t dev]
    by (auto simp: q device_pending_eq simp del: tenantKey_one split: option.splits)
next
  case (2 x q a s)
  then show ?case by (cases q) (simp add: device_pending_def)
next
  case (3 a b q s)
  have "filter (\<lambda>m. mm_state m = Pending \<and> b < mm_seq m) ms =
      filter (\<lambda>m. b < mm_seq m) (filter (\<lambda>m. mm_state m = Pending \<and> a < mm_seq m) ms)" for ms
    using 3 by (auto intro: filter_cong)
  then show ?case by (cases q) (simp add: device_pending_def)
next
  case (4 limit)
  then show ?case .
next
  case (5 limit q a s rows cursor hasMore)
  then show ?case
    by (cases q) (auto simp: mailbox_fetch_def device_pending_eq readAfter_def slice0_def at_last_def Let_def min_def not_le
        split: option.splits if_splits)
qed

text \<open>
  A device that polls its mailbox page by page, with any positive page size, receives every
  pending row after its cursor exactly once and in sequence order; as many pages as there are
  rows (plus one) are enough.
\<close>

theorem mailbox_feed_complete:
  assumes "mailbox_inv s" and "isTenantId t" and "0 < limit" and "length (device_pending (t, dev) a s) < fuel"
  shows "poll (\<lambda>c. mailbox_fetch (t, dev) limit c s) fuel a = Some (device_pending (t, dev) a s) \<and>
    sorted_wrt (<) (map mm_seq (device_pending (t, dev) a s)) \<and>
    set (device_pending (t, dev) a s) = {m \<in> set (messagesOf t dev s). mm_state m = Pending \<and> a < mm_seq m}"
  using mailbox_feed.poll_complete [of "(t, dev)" s limit a fuel] mailbox_feed.strict [of "(t, dev)" s a] assms
  by (simp add: device_pending_def)

theorem mailbox_feed_complete_witness:
  "poll (\<lambda>c. mailbox_fetch (''acme'', ''d'') 1 c sample_mailbox) 2 0 = Some [sample_message]"
proof -
  have "device_pending (''acme'', ''d'') 0 sample_mailbox = [sample_message]"
    using sample_mailbox_get by (simp add: device_pending_def messagesOf_def)
  then show ?thesis using mailbox_feed_complete [OF sample_mailbox_inv, of "''acme''" 1 "''d''" 0 2] by simp
qed

section \<open>Appends in flight\<close>

text \<open>
  An append suspends on the entitlement and on its materializer while it holds its device's
  \<open>mutationTail\<close>; meanwhile calls on other devices run. \<open>in_flight\<close> holds, per device key, the
  append that holds the tail with the limit and the sequence number it read. A sweep takes the
  tail of one device at a time (\<open>Sweep\<close>), and the archive's \<open>replaceBody\<close> never takes it.
\<close>

type_synonym in_flight = "(tenant \<times> mailbox_append_input \<times> int option \<times> int) jmap"
type_synonym mailbox_config = "mailbox_state \<times> in_flight"

text \<open>The device whose tail a call takes; the sweep is a step of its own.\<close>

fun op_device :: "mailbox_op \<Rightarrow> string option" where
  "op_device (MAppend i e now) = Some (ma_deviceId i)"
| "op_device (MAdvanceCursor dev a now) = Some dev"
| "op_device (MRecordDelivery dev a now) = Some dev"
| "op_device (MExpirePending dev seqs) = Some dev"
| "op_device (MCloseStream dev c now) = Some dev"
| "op_device (MReopenStream dev) = Some dev"
| "op_device _ = None"

inductive mailbox_step :: "mailbox_config \<Rightarrow> mailbox_config \<Rightarrow> bool" where
  Begin: "isTenantId t \<Longrightarrow> mailbox_device t (ma_deviceId i) now s = Inr (d, s') \<Longrightarrow>
    jget fl (tenantKey t [ma_deviceId i]) = None \<Longrightarrow> append_begin i e d = AppendReserved limit seq \<Longrightarrow>
    mailbox_step (s, fl) (s', jset (tenantKey t [ma_deviceId i]) (t, i, limit, seq) fl)"
| Commit: "jget fl k = Some (t, i, limit, seq) \<Longrightarrow> jget s k = Some d \<Longrightarrow> ma_materialize i seq = Inr body \<Longrightarrow>
    mailbox_step (s, fl) (snd (append_commit t i limit seq body now d s), jdel k fl)"
| Reject: "jget fl k = Some (t, i, limit, seq) \<Longrightarrow> ma_materialize i seq = Inl x \<Longrightarrow>
    mailbox_step (s, fl) (s, jdel k fl)"
| Call: "isTenantId t \<Longrightarrow> op_device op = Some dev \<Longrightarrow> jget fl (tenantKey t [dev]) = None \<Longrightarrow>
    mailbox_step (s, fl) (snd (mailbox_exec t op s), fl)"
| Enter: "isTenantId t \<Longrightarrow> mailbox_device t dev now s = Inr (d, s') \<Longrightarrow> mailbox_step (s, fl) (s', fl)"
| Sweep: "jget s k = Some d \<Longrightarrow> jget fl k = None \<Longrightarrow>
    collect_rows ph input [] (dm_messages d) (dm_byMessageId d) removed expired = (ms, byId, r, x, b) \<Longrightarrow>
    mailbox_step (s, fl) (jset k (d\<lparr>dm_messages := ms, dm_byMessageId := byId\<rparr>) s, fl)"
| Archive: "isTenantId t \<Longrightarrow> mailbox_step (s, fl) (replaceBody t dev n body s, fl)"

inductive mailbox_reach :: "mailbox_config \<Rightarrow> bool" where
  Start: "mailbox_reach ([], [])"
| Step: "mailbox_reach c \<Longrightarrow> mailbox_step c c' \<Longrightarrow> mailbox_reach c'"

text \<open>What an append in flight may rely on: nothing it read has moved.\<close>

definition reserved_ok :: "mailbox_state \<Rightarrow> string \<Rightarrow> tenant \<times> mailbox_append_input \<times> int option \<times> int \<Rightarrow> bool" where
  "reserved_ok s k = (\<lambda>(t, i, limit, seq).
     isTenantId t \<and> ma_deviceId i \<noteq> [] \<and> k = tenantKey t [ma_deviceId i] \<and>
     (if ma_admission i = Cancellation then limit = None else limit \<noteq> None) \<and>
     (\<exists>d. jget s k = Some d \<and> dm_closed d = None \<and> jget (dm_byMessageId d) (ma_messageId i) = None \<and>
        seq = dm_nextSeq d))"

definition config_inv :: "mailbox_config \<Rightarrow> bool" where
  "config_inv = (\<lambda>(s, fl). mailbox_inv s \<and> (\<forall>k f. jget fl k = Some f \<longrightarrow> reserved_ok s k f))"

lemma config_invD: "config_inv (s, fl) \<Longrightarrow> jget fl k = Some f \<Longrightarrow> reserved_ok s k f"
  unfolding config_inv_def by (simp split: prod.splits) (cases f, blast)

text \<open>Two stores agree on the devices other than \<open>k\<close>.\<close>

definition only_device :: "string \<Rightarrow> mailbox_state \<Rightarrow> mailbox_state \<Rightarrow> bool" where
  "only_device k s s' = (\<forall>k' d. k' \<noteq> k \<longrightarrow> jget s k' = Some d \<longrightarrow> jget s' k' = Some d)"

lemma reserved_only: "reserved_ok s k f \<Longrightarrow> only_device k0 s s' \<Longrightarrow> k \<noteq> k0 \<Longrightarrow> reserved_ok s' k f"
  by (fastforce simp: reserved_ok_def only_device_def)

lemma only_device_jset [simp]: "only_device k s (jset k d s)"
  by (simp add: only_device_def)

lemma only_device_refl [simp]: "only_device k s s"
  by (simp add: only_device_def)

lemma only_device_device: "mailbox_device t dev now s = Inr (d, s') \<Longrightarrow> only_device (tenantKey t [dev]) s s'"
  by (auto simp: mailbox_device_def only_device_def Let_def split: if_splits option.splits)

lemma only_device_put: "only_device k s s' \<Longrightarrow> only_device k s (jset k d s')"
  by (auto simp: only_device_def)

lemma only_device_commit:
  "only_device (tenantKey t [ma_deviceId i]) s s' \<Longrightarrow>
     only_device (tenantKey t [ma_deviceId i]) s (snd (append_commit t i limit seq body now d s'))"
  by (auto simp: append_commit_def Let_def intro: only_device_put simp del: tenantKey_one split: option.splits)

lemma only_device_exec:
  assumes "op_device op = Some dev"
  shows "only_device (tenantKey t [dev]) s (snd (mailbox_exec t op s))"
proof (cases op)
  case (MAppend i e now)
  then show ?thesis
    using assms only_device_device [of t dev now s]
    by (auto simp: mailbox_append_def simp del: tenantKey_one intro!: only_device_commit
        split: sum.splits append_progress.splits)
qed (use assms only_device_device [of t dev _ s] in
    \<open>auto simp: advanceCursor_def recordDelivery_def expirePending_def closeStream_def reopenStream_def Let_def split_beta
      simp del: tenantKey_one intro!: only_device_put split: sum.splits option.splits\<close>)

lemma reserved_device:
  assumes "mailbox_device t dev now s = Inr (d, s')" and "reserved_ok s k f"
  shows "reserved_ok s' k f"
  using assms by (auto simp: mailbox_device_def reserved_ok_def Let_def split: if_splits option.splits)

lemma reserved_archive:
  assumes "mailbox_inv s" and "reserved_ok s k f" and "isTenantId u"
  shows "reserved_ok (replaceBody u dev n body s) k f"
proof -
  obtain t i limit seq where f: "f = (t, i, limit, seq)" by (cases f)
  obtain d where d: "jget s k = Some d" and o: "jget (dm_byMessageId d) (ma_messageId i) = None" and k: "k = tenantKey t [ma_deviceId i]"
    and t: "isTenantId t"
    using assms(2) by (auto simp: reserved_ok_def f)
  have "mm_messageId m \<noteq> ma_messageId i" if r: "replace_first n body (dm_messages d) = (ms, Some m)" for ms m
  proof -
    obtain pre m0 post where R: "dm_messages d = pre @ m0 # post"
      "m = m0\<lparr>mm_body := mb_body body, mm_bodyHash := mb_bodyHash body, mm_byteSize := mb_byteSize body\<rparr>"
      using replace_first_Some [OF r] by blast
    have "rows_ok t (ma_deviceId i) (dm_nextSeq d) (dm_messages d) (dm_byMessageId d)"
      using mailbox_inv_device(1) [OF assms(1) t] d k by (simp add: device_ok_def)
    then have "jget (dm_byMessageId d) (mm_messageId m0) = Some m0" by (simp add: rows_ok_lookup R(1))
    then show ?thesis using o by (auto simp: R(2))
  qed
  then show ?thesis
    using assms(2) d o by (auto simp: reserved_ok_def f replaceBody_def k simp del: tenantKey_one split: option.splits prod.splits)
qed

lemma config_inv_step:
  assumes "mailbox_step c c'" and "config_inv c"
  shows "config_inv c'"
  using assms
proof (induction rule: mailbox_step.induct)
  case (Begin t i now s d s' fl e limit seq)
  have inv: "mailbox_inv s" using Begin by (simp add: config_inv_def)
  note D = mailbox_device_ok [OF Begin(2) inv Begin(1)]
  have "reserved_ok s' (tenantKey t [ma_deviceId i]) (t, i, limit, seq)"
    using Begin(1,4) D(3,5) by (auto simp: append_begin_Reserved reserved_ok_def split: if_splits)
  then show ?case
    using Begin(5) D(1) reserved_device [OF Begin(2)] by (auto simp: config_inv_def simp del: tenantKey_one)
next
  case (Commit fl k t i limit seq s d body now)
  then have r: "reserved_ok s k (t, i, limit, seq)" and inv: "mailbox_inv s" by (auto simp: config_inv_def)
  then have R: "isTenantId t" "k = tenantKey t [ma_deviceId i]" "dm_closed d = None"
    "jget (dm_byMessageId d) (ma_messageId i) = None" "seq = dm_nextSeq d"
    using Commit(2) by (auto simp: reserved_ok_def)
  have "mailbox_inv (snd (append_commit t i limit seq body now d s))"
    using append_commit_inv [OF inv R(1) Commit(2) [unfolded R(2)] R(3,4)] R(5) by blast
  moreover have "only_device k s (snd (append_commit t i limit seq body now d s))"
    unfolding R(2) by (rule only_device_commit) simp
  then have "reserved_ok (snd (append_commit t i limit seq body now d s)) k' f" if "jget fl k' = Some f" "k' \<noteq> k" for k' f
    using Commit(4) that reserved_only unfolding config_inv_def by blast
  ultimately show ?case unfolding config_inv_def by simp
next
  case (Reject fl k t i limit seq x s)
  then show ?case by (auto simp: config_inv_def split: if_splits)
next
  case (Call t op dev fl s)
  have inv: "mailbox_inv (snd (mailbox_exec t op s))"
    using Call mailbox_exec_inv by (simp add: config_inv_def)
  have "reserved_ok (snd (mailbox_exec t op s)) k f" if "jget fl k = Some f" for k f
  proof (rule reserved_only [OF _ only_device_exec [OF Call(2)]])
    show "reserved_ok s k f" using Call(4) that by (rule config_invD)
    show "k \<noteq> tenantKey t [dev]" using Call(3) that by auto
  qed
  with inv show ?case by (simp add: config_inv_def)
next
  case (Enter t dev now s d s' fl)
  then show ?case
    using mailbox_device_ok(1) [OF Enter(2) _ Enter(1)] reserved_device [OF Enter(2)] by (simp add: config_inv_def)
next
  case (Sweep s k d fl ph input removed expired ms byId r x b)
  have inv: "mailbox_inv s" using Sweep by (simp add: config_inv_def)
  obtain t dev where k: "isTenantId t" "k = tenantKey t [dev]" using inv Sweep(1) unfolding mailbox_inv_def by blast
  have "mailbox_inv (jset k (d\<lparr>dm_messages := ms, dm_byMessageId := byId\<rparr>) s)"
    using mailbox_put_keeps [OF inv k(1) Sweep(1) [unfolded k(2)] collect_rows_keeps [OF Sweep(3)]] k(2) by blast
  moreover have "reserved_ok (jset k (d\<lparr>dm_messages := ms, dm_byMessageId := byId\<rparr>) s) k' f" if "jget fl k' = Some f" for k' f
    using Sweep(2) that by (intro reserved_only [OF config_invD [OF Sweep(4) that] only_device_jset]) auto
  ultimately show ?case by (simp add: config_inv_def)
next
  case (Archive t s fl dev n body)
  then show ?case
    using mailbox_exec_inv [of s t "MReplaceBody dev n body"] reserved_archive by (simp add: config_inv_def)
qed

lemma config_inv_reach: "mailbox_reach c \<Longrightarrow> config_inv c"
proof (induction rule: mailbox_reach.induct)
  case Start
  show ?case by (simp add: config_inv_def)
next
  case (Step c c')
  show ?case by (rule config_inv_step [OF Step(2,3)])
qed

text \<open>
  C5. Interleaved appends are linearizable: in every configuration that concurrent calls can
  reach, an append that is about to commit does exactly what an uninterrupted append would do at
  that moment with the entitlement it read, so it takes the device's current next sequence
  number and its check against the limit counts every row that other devices added meanwhile.
\<close>

theorem mailbox_append_linearizable:
  assumes "mailbox_reach (s, fl)" and "jget fl k = Some (t, i, limit, seq)" and "ma_materialize i seq = Inr body"
  shows "\<exists>d. jget s k = Some d \<and> seq = dm_nextSeq d \<and>
    append_commit t i limit seq body now d s = mailbox_append t i limit now s"
proof -
  have "reserved_ok s k (t, i, limit, seq)"
    by (rule config_invD [OF config_inv_reach [OF assms(1)] assms(2)])
  then obtain d where R: "isTenantId t" "ma_deviceId i \<noteq> []" "k = tenantKey t [ma_deviceId i]" "jget s k = Some d"
      "dm_closed d = None" "jget (dm_byMessageId d) (ma_messageId i) = None" "seq = dm_nextSeq d"
      "if ma_admission i = Cancellation then limit = None else limit \<noteq> None"
    by (auto simp: reserved_ok_def split: if_splits)
  have "append_begin i limit d = AppendReserved limit seq"
    using R by (simp add: append_begin_Reserved split: if_splits)
  moreover have "mailbox_device t (ma_deviceId i) now s = Inr (d, s)"
    using R by (simp add: mailbox_device_def Let_def)
  ultimately show ?thesis
    using R assms(3) by (simp add: mailbox_append_def)
qed

text \<open>
  In every configuration that concurrent calls can reach the store is well formed: on each
  device the sequence numbers of the retained rows are strictly increasing and below the next
  one, message ids are unique and the index by id is exact, the acknowledged position is at most
  the delivered one, and a closed stream has no pending row.
\<close>

theorem mailbox_reachable_wellformed:
  assumes "mailbox_reach (s, fl)" and "isTenantId t" and "jget s (tenantKey t [dev]) = Some d"
  shows "sorted_wrt (<) (map mm_seq (dm_messages d)) \<and> (\<forall>m \<in> set (dm_messages d). mm_seq m < dm_nextSeq d) \<and>
    distinct (map mm_messageId (dm_messages d)) \<and>
    (\<forall>i m. jget (dm_byMessageId d) i = Some m \<longleftrightarrow> m \<in> set (dm_messages d) \<and> mm_messageId m = i) \<and>
    dm_ackedSeq d \<le> dm_deliveredSeq d \<and>
    (dm_closed d \<noteq> None \<longrightarrow> (\<forall>m \<in> set (dm_messages d). mm_state m \<noteq> Pending))"
proof -
  have "mailbox_inv s" using config_inv_reach [OF assms(1)] by (simp add: config_inv_def)
  then have ok: "device_ok t dev d" by (rule mailbox_inv_device(1) [OF _ assms(2,3)])
  then show ?thesis
    using rows_ok_lookup [of t dev "dm_nextSeq d" "dm_messages d" "dm_byMessageId d"]
    by (auto simp: device_ok_def rows_ok_def)
qed

text \<open>A history for the examples: one append held in flight on device \<open>d\<close>.\<close>

lemma sample_reach:
  "mailbox_reach (jset (tenantKey ''acme'' [''d'']) (new_device 0) [],
     jset (tenantKey ''acme'' [''d'']) (''acme'', sample_append ''m'' 5, Some 9, 1) [])"
proof (rule mailbox_reach.Step [OF mailbox_reach.Start])
  show "mailbox_step ([], []) (jset (tenantKey ''acme'' [''d'']) (new_device 0) [],
     jset (tenantKey ''acme'' [''d'']) (''acme'', sample_append ''m'' 5, Some 9, 1) [])"
    using mailbox_step.Begin [of "''acme''" "sample_append ''m'' 5" 0 "[]" "new_device 0" _ "[]" "Some 9" "Some 9" 1]
    by (simp add: sample_append_def mailbox_device_def append_begin_Reserved new_device_def Let_def)
qed

theorem mailbox_append_linearizable_witness:
  "\<exists>d. append_commit ''acme'' (sample_append ''m'' 5) (Some 9) 1 \<lparr>mb_body = ''b'', mb_bodyHash = ''h'', mb_byteSize = 5\<rparr> 3 d
      (jset (tenantKey ''acme'' [''d'']) (new_device 0) []) =
    mailbox_append ''acme'' (sample_append ''m'' 5) (Some 9) 3 (jset (tenantKey ''acme'' [''d'']) (new_device 0) [])"
  using mailbox_append_linearizable [OF sample_reach, of "tenantKey ''acme'' [''d'']" "''acme''" "sample_append ''m'' 5" "Some 9" 1
      "\<lparr>mb_body = ''b'', mb_bodyHash = ''h'', mb_byteSize = 5\<rparr>" 3]
  by (auto simp: sample_append_def)

theorem mailbox_reachable_wellformed_witness:
  "distinct (map mm_messageId (dm_messages (new_device 0))) \<and>
   dm_ackedSeq (new_device 0) \<le> dm_deliveredSeq (new_device 0)"
  using mailbox_reachable_wellformed [OF sample_reach, of "''acme''" "''d''" "new_device 0"] by simp

end
