(* ===== verification/Presence.thy ===== *)
theory Presence
  imports Retention
begin

text \<open>
  Presence hints (\<open>packages/core/src/presence.ts\<close>, \<open>in-memory/presence.ts\<close>): one hint per
  device, bounded by a lifetime, filtered out of every read once it has expired and lazily
  dropped there, throttled by a minimum interval between publications.
\<close>

datatype presence_level = Online | Thinking | Working | Presence_error | Offline

definition PRESENCE_LEVELS :: "presence_level list" where
  "PRESENCE_LEVELS = [Online, Thinking, Working, Presence_error, Offline]"

text \<open>An omitted field is \<open>None\<close>: unknown.\<close>

record runtime_isolation =
  ri_userContext :: "bool option"
  ri_userMcpServers :: "bool option"
  ri_sessionPersistence :: "bool option"

record runtime_capabilities =
  rc_steer :: "bool option"
  rc_resume :: "bool option"
  rc_approvalInteractive :: "bool option"
  rc_mcpToolsets :: "bool option"
  rc_messageDraft :: "bool option"
  rc_toolAuthorizationAuto :: "bool option"
  rc_durableLane :: "bool option"
  rc_preparedLane :: "bool option"
  rc_isolation :: "runtime_isolation option"

record runtime_fact =
  rf_id :: string
  rf_version :: "string option"
  rf_authPresent :: "bool option"
  rf_capabilities :: "runtime_capabilities option"

record presence_hint =
  ph_tenantId :: tenant
  ph_deviceId :: string
  ph_level :: presence_level
  ph_detail :: "string option"
  ph_configuredToolsets :: "string list option"
  ph_clientVersion :: "string option"
  ph_protocolVersions :: "jsnum list option"
  ph_runtimes :: "runtime_fact list option"
  ph_observedAt :: string
  ph_expiresAt :: string

record presence_input =
  pi_deviceId :: string
  pi_level :: presence_level
  pi_detail :: "string option"
  pi_configuredToolsets :: "string list option"
  pi_clientVersion :: "string option"
  pi_protocolVersions :: "jsnum list option"
  pi_runtimes :: "runtime_fact list option"
  pi_ttlMs :: jsnum
  pi_minimumIntervalMs :: jsnum

type_synonym presence_state = "presence_hint jmap"

section \<open>Operations\<close>

text \<open>
  The stored copy names every known field of a runtime fact; a field of the record type that the
  copy forgot would show as a difference here.
\<close>

definition freezePresenceRuntimeFact :: "runtime_fact \<Rightarrow> runtime_fact" where
  "freezePresenceRuntimeFact runtime =
     \<lparr>rf_id = rf_id runtime, rf_version = rf_version runtime, rf_authPresent = rf_authPresent runtime,
      rf_capabilities = (case rf_capabilities runtime of
          None \<Rightarrow> None
        | Some c \<Rightarrow> Some
            \<lparr>rc_steer = rc_steer c, rc_resume = rc_resume c, rc_approvalInteractive = rc_approvalInteractive c,
             rc_mcpToolsets = rc_mcpToolsets c, rc_messageDraft = rc_messageDraft c,
             rc_toolAuthorizationAuto = rc_toolAuthorizationAuto c, rc_durableLane = rc_durableLane c,
             rc_preparedLane = rc_preparedLane c,
             rc_isolation = (case rc_isolation c of
                 None \<Rightarrow> None
               | Some i \<Rightarrow> Some \<lparr>ri_userContext = ri_userContext i, ri_userMcpServers = ri_userMcpServers i,
                                 ri_sessionPersistence = ri_sessionPersistence i\<rparr>)\<rparr>)\<rparr>"

fun num_rat :: "jsnum \<Rightarrow> rat" where
  "num_rat (Fin q) = q"
| "num_rat _ = 0"

definition assertTtl :: "jsnum \<Rightarrow> ('c, unit) result" where
  "assertTtl ttlMs = (if \<not> isFinite ttlMs \<or> num_rat ttlMs \<le> 0 then Inl (ByokCoreError Hint_ttl_invalid) else Inr ())"

definition assertMinimumInterval :: "jsnum \<Rightarrow> ('c, unit) result" where
  "assertMinimumInterval ms = (if \<not> isFinite ms \<or> num_rat ms < 0 then Inl (ByokCoreError Hint_ttl_invalid) else Inr ())"

text \<open>
  The throttle: an unexpired hint of this device was observed less than the interval ago. A clock
  that stepped back counts as no time elapsed; an \<open>observedAt\<close> that does not parse gives \<open>NaN\<close>,
  which is not less than anything.
\<close>

definition rate_limited :: "(string \<Rightarrow> int option) \<Rightarrow> presence_hint \<Rightarrow> jsnum \<Rightarrow> int \<Rightarrow> bool" where
  "rate_limited other existing minimum now =
     (toISOString now < ph_expiresAt existing \<and>
      (case js_date_parse other (ph_observedAt existing) of
         None \<Rightarrow> False
       | Some observed \<Rightarrow> of_int (max 0 (now - observed)) < num_rat minimum))"

definition presence_publish ::
  "(string \<Rightarrow> int option) \<Rightarrow> tenant \<Rightarrow> presence_input \<Rightarrow> int \<Rightarrow> presence_state \<Rightarrow>
     (unit, presence_hint) result \<times> presence_state" where
  "presence_publish other t input now s =
     (case assertTtl (pi_ttlMs input) of
        Inl e \<Rightarrow> (Inl e, s)
      | Inr _ \<Rightarrow>
     (case assertMinimumInterval (pi_minimumIntervalMs input) of
        Inl e \<Rightarrow> (Inl e, s)
      | Inr _ \<Rightarrow>
          let key = tenantKey t [pi_deviceId input] in
          if (case jget s key of None \<Rightarrow> False | Some existing \<Rightarrow> rate_limited other existing (pi_minimumIntervalMs input) now)
          then (Inl (ByokCoreError Hint_rate_limited), s)
          else (case date_after now (pi_ttlMs input) of
             Inl e \<Rightarrow> (Inl e, s)
           | Inr expiresAt \<Rightarrow>
               let hint = \<lparr>ph_tenantId = t, ph_deviceId = pi_deviceId input, ph_level = pi_level input,
                           ph_detail = pi_detail input, ph_configuredToolsets = pi_configuredToolsets input,
                           ph_clientVersion = pi_clientVersion input,
                           ph_protocolVersions = pi_protocolVersions input,
                           ph_runtimes = map_option (map freezePresenceRuntimeFact) (pi_runtimes input),
                           ph_observedAt = toISOString now, ph_expiresAt = expiresAt\<rparr>
               in (Inr hint, jset key hint s))))"

definition isExpired :: "int \<Rightarrow> string \<Rightarrow> bool" where
  "isExpired now expiresAt = (toISOString now \<ge> expiresAt)"

definition presence_read :: "tenant \<Rightarrow> string \<Rightarrow> int \<Rightarrow> presence_state \<Rightarrow> presence_hint option \<times> presence_state" where
  "presence_read t dev now s =
     (let key = tenantKey t [dev]
      in case jget s key of
           None \<Rightarrow> (None, s)
         | Some hint \<Rightarrow> if isExpired now (ph_expiresAt hint) then (None, jdel key s) else (Some hint, s))"

text \<open>The loop of \<open>list\<close> over a copy of the entries: the live hints and the map that is left.\<close>

fun list_loop :: "tenant \<Rightarrow> int \<Rightarrow> (string \<times> presence_hint) list \<Rightarrow> presence_hint list \<Rightarrow> presence_state \<Rightarrow>
    presence_hint list \<times> presence_state" where
  "list_loop t now [] live s = (live, s)"
| "list_loop t now ((key, hint) # es) live s =
     (if \<not> in_tenant t key then list_loop t now es live s
      else if isExpired now (ph_expiresAt hint) then list_loop t now es live (jdel key s)
      else list_loop t now es (live @ [hint]) s)"

definition presence_list ::
  "(string \<Rightarrow> string \<Rightarrow> int) \<Rightarrow> tenant \<Rightarrow> int \<Rightarrow> presence_state \<Rightarrow> presence_hint list \<times> presence_state" where
  "presence_list lc t now s =
     (case list_loop t now s [] s of
        (live, s') \<Rightarrow> (sort_by (\<lambda>l r. lc (ph_deviceId l) (ph_deviceId r)) live, s'))"

definition hint_expired :: "tenant \<Rightarrow> 'x collect_expired_input_scheme \<Rightarrow> string \<times> presence_hint \<Rightarrow> bool" where
  "hint_expired t input = (\<lambda>(_, hint). \<not> (ph_tenantId hint \<noteq> t \<or> ph_expiresAt hint > ci_now input))"

definition presence_collectExpired ::
  "tenant \<Rightarrow> collect_expired_input \<Rightarrow> presence_state \<Rightarrow> (unit, collect_expired_result) result \<times> presence_state" where
  "presence_collectExpired t input s = sweep_collect (hint_expired t input) input s"

section \<open>One call of the port\<close>

datatype presence_op =
    PPublish presence_input int
  | PRead string int
  | PList int
  | PCollect collect_expired_input

datatype presence_answer =
    PPublished "(unit, presence_hint) result"
  | PFound "presence_hint option"
  | PListed "presence_hint list"
  | PCollected "(unit, collect_expired_result) result"

fun presence_exec ::
  "(string \<Rightarrow> int option) \<Rightarrow> (string \<Rightarrow> string \<Rightarrow> int) \<Rightarrow> tenant \<Rightarrow> presence_op \<Rightarrow> presence_state \<Rightarrow>
     presence_answer \<times> presence_state" where
  "presence_exec other lc t (PPublish i now) s = map_prod PPublished id (presence_publish other t i now s)"
| "presence_exec other lc t (PRead dev now) s = map_prod PFound id (presence_read t dev now s)"
| "presence_exec other lc t (PList now) s = map_prod PListed id (presence_list lc t now s)"
| "presence_exec other lc t (PCollect i) s = map_prod PCollected id (presence_collectExpired t i s)"

section \<open>The listing\<close>

lemma list_loop_spec:
  assumes "jmap_ok s" and "s = pre @ es" and "list_loop t now es live (filter P pre @ es) = (live', s')"
    and "P = (\<lambda>(k, h). \<not> (in_tenant t k \<and> isExpired now (ph_expiresAt h)))"
  shows "live' = live @ map snd (filter (\<lambda>(k, h). in_tenant t k \<and> \<not> isExpired now (ph_expiresAt h)) es) \<and> s' = filter P s"
  using assms
proof (induction es arbitrary: live pre)
  case Nil
  then show ?case by simp
next
  case (Cons e es)
  obtain k h where e: "e = (k, h)" by (cases e)
  have fresh: "k \<notin> fst ` set pre" "k \<notin> fst ` set es" using Cons.prems(1,2) by (auto simp: e jmap_ok_def)
  have del: "jdel k (filter P pre @ (k, h) # es) = filter P pre @ es"
  proof -
    have "jget (filter P pre) k = None" "jget es k = None" using fresh by (auto simp: jget_None_iff)
    then show ?thesis by (simp add: jdel_append jdel_absent)
  qed
  have s: "s = (pre @ [(k, h)]) @ es" using Cons.prems(2) by (simp add: e)
  note IH = Cons.IH [OF Cons.prems(1) s _ Cons.prems(4)]
  show ?case
    using IH [of live] IH [of "live @ [h]"] Cons.prems(3) del
    by (auto simp: e Cons.prems(4) split: if_splits)
qed

lemma presence_list_spec:
  assumes "jmap_ok s"
  shows "presence_list lc t now s =
    (sort_by (\<lambda>l r. lc (ph_deviceId l) (ph_deviceId r))
       (map snd (filter (\<lambda>(k, h). in_tenant t k \<and> \<not> isExpired now (ph_expiresAt h)) s)),
     filter (\<lambda>(k, h). \<not> (in_tenant t k \<and> isExpired now (ph_expiresAt h))) s)"
proof -
  obtain live s' where L: "list_loop t now s [] s = (live, s')" by (cases "list_loop t now s [] s")
  from list_loop_spec [OF assms, of "[]" s t now "[]" _ live s'] L show ?thesis
    by (simp add: presence_list_def)
qed

section \<open>Well-formed stores\<close>

definition presence_inv :: "presence_state \<Rightarrow> bool" where
  "presence_inv s = (jmap_ok s \<and>
     (\<forall>(k, h) \<in> set s. isTenantId (ph_tenantId h) \<and> k = tenantKey (ph_tenantId h) [ph_deviceId h]))"

lemma presence_inv_ok [dest]: "presence_inv s \<Longrightarrow> jmap_ok s"
  by (simp add: presence_inv_def)

lemma presence_inv_subset:
  "presence_inv s \<Longrightarrow> set s' \<subseteq> set s \<Longrightarrow> jmap_ok s' \<Longrightarrow> presence_inv s'"
  unfolding presence_inv_def by blast

lemma presence_inv_tenant:
  assumes "presence_inv s" and "(k, h) \<in> set s" and "isTenantId t"
  shows "in_tenant t k \<longleftrightarrow> ph_tenantId h = t"
  using assms by (fastforce simp: presence_inv_def)

lemma presence_inv_jset:
  assumes "presence_inv s" and "isTenantId (ph_tenantId h)" and "k = tenantKey (ph_tenantId h) [ph_deviceId h]"
  shows "presence_inv (jset k h s)"
  using assms by (auto simp: presence_inv_def set_jset)

lemma presence_exec_inv:
  assumes "isTenantId t" and "presence_inv s"
  shows "presence_inv (snd (presence_exec other lc t op s))"
proof (cases op)
  case (PPublish i now)
  then show ?thesis
    using assms by (auto simp: presence_publish_def Let_def intro!: presence_inv_jset split: sum.splits)
next
  case (PRead dev now)
  then show ?thesis
    using assms
    by (auto simp: presence_read_def Let_def set_jdel intro!: presence_inv_subset [OF assms(2)] split: option.splits)
next
  case (PList now)
  then show ?thesis
    using assms by (auto simp: presence_list_spec [OF presence_inv_ok] intro!: presence_inv_subset [OF assms(2)])
next
  case (PCollect i)
  then show ?thesis
    using presence_inv_subset [OF assms(2) sweep_collect_subset sweep_collect_ok [OF presence_inv_ok [OF assms(2)]]]
    by (simp add: presence_collectExpired_def)
qed

section \<open>Isolation\<close>

lemma hint_expired_tenant:
  "presence_inv s \<Longrightarrow> isTenantId t \<Longrightarrow> e \<in> set s \<Longrightarrow> hint_expired t input e \<Longrightarrow> in_tenant t (fst e)"
  by (cases e) (simp add: hint_expired_def presence_inv_tenant)

lemma presence_exec_rows:
  assumes "isTenantId t" and "presence_inv s"
  shows "restricts t (presence_exec other lc t op (tenant_rows t s)) (presence_exec other lc t op s)"
proof (cases op)
  case (PPublish i now)
  then show ?thesis
    by (simp add: restricts_def presence_publish_def Let_def split: sum.splits)
next
  case (PRead dev now)
  then show ?thesis
    by (simp add: restricts_def presence_read_def Let_def split: option.splits)
next
  case (PList now)
  have "jmap_ok s" using assms(2) by blast
  then show ?thesis
    by (simp add: PList restricts_def presence_list_spec) (simp add: tenant_rows_def split_def conj_ac)
next
  case (PCollect i)
  show ?thesis
    using sweep_collect_rows [OF hint_expired_tenant [OF assms(2,1)]]
    by (simp add: PCollect restricts_def presence_collectExpired_def prod_eq_iff)
qed

lemma presence_exec_other:
  assumes "isTenantId t" and "isTenantId u" and "t \<noteq> u" and "presence_inv s"
  shows "tenant_rows u (snd (presence_exec other lc t op s)) = tenant_rows u s"
proof (cases op)
  case (PPublish i now)
  then show ?thesis
    using assms(1-3) by (simp add: presence_publish_def Let_def split: sum.splits)
next
  case (PRead dev now)
  then show ?thesis
    using assms(1-3) by (simp add: presence_read_def Let_def split: option.splits)
next
  case (PList now)
  have "jmap_ok s" using assms(4) by blast
  moreover have "\<not> (in_tenant t k \<and> in_tenant u k)" for k using assms(1-3) in_tenant_unique by blast
  ultimately show ?thesis
    by (auto simp: PList presence_list_spec tenant_rows_def intro!: filter_cong)
next
  case (PCollect i)
  have "e \<in> set s \<Longrightarrow> hint_expired t i e \<Longrightarrow> \<not> in_tenant u (fst e)" for e
    using hint_expired_tenant [OF assms(4,1)] in_tenant_unique [OF assms(1,2)] assms(3) by blast
  then show ?thesis
    using sweep_collect_rows_other by (simp add: PCollect presence_collectExpired_def) blast
qed

interpretation presence_store: isolated_store "presence_exec other lc" presence_inv tenant_rows for other lc
proof (unfold_locales, goal_cases)
  case (1 t op s)
  then show ?case by (simp add: presence_exec_inv)
next
  case (2 s t u op)
  then show ?case by (intro presence_exec_other)
next
  case (3 s s' t op)
  then show ?case
    using presence_exec_rows [of t s other lc op] presence_exec_rows [of t s' other lc op]
    by (simp add: restricts_def)
qed

interpretation presence_collector:
  bounded_collector "\<lambda>(t, i) s. collect_step (presence_collectExpired t i s)" "\<lambda>(t, i). valid_collect i"
    "\<lambda>(t, i). eligible_count (hint_expired t i)" "\<lambda>(t, i). num_int (ci_limit i)"
  unfolding presence_collectExpired_def
  using sweep_collector [of "\<lambda>(t, i). hint_expired t i" snd] by (simp add: split_def)

section \<open>How long a hint is visible\<close>

text \<open>
  The calls that may come between a publication and a read at \<open>until\<close>: anything of another
  tenant or device, and the reads and collections that happened no later than \<open>until\<close>.
\<close>

fun no_later :: "int \<Rightarrow> presence_op \<Rightarrow> bool" where
  "no_later until (PPublish i now) = True"
| "no_later until (PRead dev now) = (iso_instant now \<and> now \<le> until)"
| "no_later until (PList now) = (iso_instant now \<and> now \<le> until)"
| "no_later until (PCollect i) = (ci_now i \<le> toISOString until)"

fun publishes :: "string \<Rightarrow> presence_op \<Rightarrow> bool" where
  "publishes dev (PPublish i now) = (pi_deviceId i = dev)"
| "publishes dev _ = False"

definition quiet_call :: "tenant \<Rightarrow> string \<Rightarrow> int \<Rightarrow> tenant \<times> presence_op \<Rightarrow> bool" where
  "quiet_call t dev until = (\<lambda>(u, op). isTenantId u \<and> (u = t \<longrightarrow> \<not> publishes dev op \<and> no_later until op))"

text \<open>The hint is in place, or it was dropped after its expiry.\<close>

definition hint_kept :: "tenant \<Rightarrow> string \<Rightarrow> presence_hint \<Rightarrow> int \<Rightarrow> presence_state \<Rightarrow> bool" where
  "hint_kept t dev h until s =
     (jget s (tenantKey t [dev]) = Some h \<or>
      jget s (tenantKey t [dev]) = None \<and> isExpired until (ph_expiresAt h))"

lemma isExpired_mono:
  "iso_instant now \<Longrightarrow> iso_instant until \<Longrightarrow> now \<le> until \<Longrightarrow> isExpired now e \<Longrightarrow> isExpired until e"
  using toISOString_le_iff [of now until] by (auto simp: isExpired_def intro: order_trans)

lemma hint_kept_own:
  assumes "isTenantId t" and "iso_instant until" and "presence_inv s"
    and "\<not> publishes dev op" and "no_later until op" and "hint_kept t dev h until s"
  shows "hint_kept t dev h until (snd (presence_exec other lc t op s))"
proof (cases op)
  case (PPublish i now)
  then show ?thesis
    using assms(1,4,6) by (auto simp: hint_kept_def presence_publish_def Let_def split: sum.splits)
next
  case (PRead d now)
  then show ?thesis
    using assms(1,5,6) isExpired_mono [of now until, OF _ assms(2)]
    by (auto simp: hint_kept_def presence_read_def Let_def split: option.splits)
next
  case (PList now)
  have "jmap_ok s" using assms(3) by blast
  then show ?thesis
    using assms(5,6) isExpired_mono [of now until, OF _ assms(2)]
    by (auto simp: PList hint_kept_def presence_list_spec jget_filter split: if_splits)
next
  case (PCollect i)
  let ?s' = "snd (presence_collectExpired t i s)"
  let ?k = "tenantKey t [dev]"
  have ok: "jmap_ok s" using assms(3) by blast
  have sub: "jget ?s' ?k = Some v \<Longrightarrow> jget s ?k = Some v" for v
    unfolding presence_collectExpired_def by (rule sweep_collect_old [OF ok])
  have "jget s ?k = Some h \<Longrightarrow> jget ?s' ?k = None \<Longrightarrow> hint_expired t i (?k, h)"
    by (rule ccontr) (simp add: presence_collectExpired_def sweep_collect_kept [OF ok])
  moreover have "hint_expired t i (?k, h) \<Longrightarrow> isExpired until (ph_expiresAt h)"
    using assms(5) by (auto simp: PCollect hint_expired_def isExpired_def not_less intro: order_trans)
  ultimately show ?thesis
    using assms(6) sub by (cases "jget ?s' ?k") (auto simp: PCollect hint_kept_def)
qed

lemma hint_kept_other:
  assumes "isTenantId t" and "isTenantId u" and "u \<noteq> t" and "presence_inv s" and "hint_kept t dev h until s"
  shows "hint_kept t dev h until (snd (presence_exec other lc u op s))"
proof -
  let ?k = "tenantKey t [dev]"
  have "jget (snd (presence_exec other lc u op s)) ?k = jget s ?k"
    using presence_exec_other [OF assms(2,1,3,4), of other lc op] jget_tenant_rows [of t ?k]
    by (metis in_tenant_own list.discI)
  then show ?thesis using assms(5) by (simp add: hint_kept_def)
qed

text \<open>A fixed tenant, device, hint and instant: what the history of quiet calls keeps.\<close>

definition visible_inv :: "tenant \<Rightarrow> string \<Rightarrow> presence_hint \<Rightarrow> int \<Rightarrow> presence_state \<Rightarrow> bool" where
  "visible_inv t dev h until s =
     (isTenantId t \<longrightarrow> iso_instant until \<longrightarrow> presence_inv s \<and> hint_kept t dev h until s)"

interpretation presence_quiet: invariant_store "presence_exec other lc" "quiet_call t dev until" "visible_inv t dev h until"
  for other lc t dev until h
proof (unfold_locales, goal_cases)
  case (1 u op s)
  then show ?case
    using hint_kept_own [of t until s dev op h other lc] hint_kept_other [of t u s dev h until other lc op]
      presence_exec_inv [of u s other lc op]
    by (auto simp: visible_inv_def quiet_call_def)
qed

lemma publish_expiry:
  assumes "presence_publish other t i now s = (Inr h, s1)" and "pi_ttlMs i = Fin (of_int n)"
  shows "ph_expiresAt h = toISOString (now + n)" and "jget s1 (tenantKey t [pi_deviceId i]) = Some h"
    and "ph_level h = pi_level i"
  using assms
  by (auto simp: presence_publish_def Let_def iso_date_def split: sum.splits if_splits)

text \<open>
  A published hint is visible for exactly its lifetime: whatever the other tenants and
  devices do, and whatever reads, listings and collections happen on the way, a read at
  \<open>until\<close> gives the hint as long as \<open>until\<close> is before the publication plus the lifetime, and
  nothing from then on. The lazy deletes never lose a live hint and no reader sees a stale one.
\<close>

theorem presence_visible_for_ttl:
  assumes "isTenantId t" and "presence_inv s"
    and "presence_publish other t i now s = (Inr h, s1)" and "pi_ttlMs i = Fin (of_int n)"
    and "iso_instant (now + n)" and "iso_instant until"
    and "\<forall>c \<in> set calls. quiet_call t (pi_deviceId i) until c"
  shows "fst (presence_read t (pi_deviceId i) until (snd (run_ops (presence_exec other lc) calls s1))) =
    (if until < now + n then Some h else None)"
proof -
  note P = publish_expiry [OF assms(3,4)]
  have "presence_inv s1" using presence_exec_inv [OF assms(1,2), of other lc "PPublish i now"] assms(3) by simp
  then have "visible_inv t (pi_deviceId i) h until s1" by (simp add: visible_inv_def hint_kept_def P [simplified])
  then have "hint_kept t (pi_deviceId i) h until (snd (run_ops (presence_exec other lc) calls s1))"
    using presence_quiet.run_inv [OF assms(7)] assms(1,6) by (simp add: visible_inv_def)
  moreover have "isExpired until (ph_expiresAt h) \<longleftrightarrow> \<not> until < now + n"
    using toISOString_le_iff [OF assms(5,6)] by (simp add: P isExpired_def not_less)
  ultimately show ?thesis
    by (auto simp: hint_kept_def presence_read_def Let_def)
qed

definition sample_presence :: presence_input where
  "sample_presence = \<lparr>pi_deviceId = ''d1'', pi_level = Working, pi_detail = None, pi_configuredToolsets = Some [],
     pi_clientVersion = None, pi_protocolVersions = None, pi_runtimes = None, pi_ttlMs = Fin 60000, pi_minimumIntervalMs = Fin 1000\<rparr>"

lemma iso_samples: "iso_instant 0" "iso_instant 30000" "iso_instant 60000"
  by (simp_all add: iso_instant_def)

theorem presence_visible_for_ttl_witness:
  "fst (presence_read ''acme'' ''d1'' 60000 (snd (run_ops (presence_exec (\<lambda>_. None) (\<lambda>_ _. 0))
       [(''acme'', PList 30000), (''globex'', PPublish sample_presence 30000)]
       (snd (presence_publish (\<lambda>_. None) ''acme'' sample_presence 0 []))))) = None \<and>
   fst (presence_read ''acme'' ''d1'' 30000 (snd (run_ops (presence_exec (\<lambda>_. None) (\<lambda>_ _. 0))
       [(''acme'', PList 30000), (''globex'', PPublish sample_presence 30000)]
       (snd (presence_publish (\<lambda>_. None) ''acme'' sample_presence 0 []))))) \<noteq> None"
proof -
  let ?calls = "[(''acme'', PList 30000), (''globex'', PPublish sample_presence 30000)]"
  obtain h s1 where p: "presence_publish (\<lambda>_. None) ''acme'' sample_presence 0 [] = (Inr h, s1)"
    by (simp add: presence_publish_def sample_presence_def assertTtl_def assertMinimumInterval_def iso_date_def MAX_DATE_def Let_def)
  have ttl: "pi_ttlMs sample_presence = Fin (of_int 60000)" and dev: "pi_deviceId sample_presence = ''d1''"
    by (simp_all add: sample_presence_def)
  have quiet: "\<forall>c \<in> set ?calls. quiet_call ''acme'' ''d1'' until c" if "30000 \<le> until" for until
    using that by (simp add: quiet_call_def iso_samples)
  note T = presence_visible_for_ttl [OF sample_tenants(1) _ p ttl, unfolded dev, of _ ?calls "\<lambda>_ _. 0"]
  have "presence_inv []" by (simp add: presence_inv_def)
  from T [OF this _ _ quiet, of 60000] T [OF this _ _ quiet, of 30000] show ?thesis
    by (simp add: p iso_samples del: run_ops.simps)
qed

text \<open>
  The throttle: a valid publication is refused exactly when an unexpired hint of the same
  device was observed less than the requested interval ago (a clock that stepped back counts as no
  time elapsed), and then the store is unchanged; an accepted one replaces the hint.
\<close>

theorem presence_throttle:
  assumes "jget s (tenantKey t [pi_deviceId i]) = Some old" and "ph_observedAt old = toISOString seen"
    and "ph_expiresAt old = toISOString expiry" and "iso_instant seen" and "iso_instant expiry" and "iso_instant now"
    and "pi_minimumIntervalMs i = Fin q" and "0 \<le> q" and "pi_ttlMs i = Fin p" and "0 < p"
  shows "presence_publish other t i now s = (Inl (ByokCoreError Hint_rate_limited), s) \<longleftrightarrow>
    now < expiry \<and> of_int (max 0 (now - seen)) < q"
  using assms
  by (auto simp: presence_publish_def rate_limited_def assertTtl_def assertMinimumInterval_def Let_def
      toISOString_less_iff iso_date_def split: sum.splits if_splits)

definition seen_hint :: presence_hint where
  "seen_hint = \<lparr>ph_tenantId = ''acme'', ph_deviceId = ''d1'', ph_level = Online, ph_detail = None, ph_configuredToolsets = None,
     ph_clientVersion = None, ph_protocolVersions = None, ph_runtimes = None, ph_observedAt = toISOString 0, ph_expiresAt = toISOString 60000\<rparr>"

theorem presence_throttle_witness:
  "presence_publish (\<lambda>_. None) ''acme'' sample_presence 999 [(tenantKey ''acme'' [''d1''], seen_hint)] =
     (Inl (ByokCoreError Hint_rate_limited), [(tenantKey ''acme'' [''d1''], seen_hint)]) \<and>
   presence_publish (\<lambda>_. None) ''acme'' sample_presence 1000 [(tenantKey ''acme'' [''d1''], seen_hint)] \<noteq>
     (Inl (ByokCoreError Hint_rate_limited), [(tenantKey ''acme'' [''d1''], seen_hint)])"
  using presence_throttle [of "[(tenantKey ''acme'' [''d1''], seen_hint)]" "''acme''" sample_presence seen_hint 0 60000 999 1000 60000 "\<lambda>_. None"]
    presence_throttle [of "[(tenantKey ''acme'' [''d1''], seen_hint)]" "''acme''" sample_presence seen_hint 0 60000 1000 1000 60000 "\<lambda>_. None"]
  by (simp add: sample_presence_def seen_hint_def jget_Cons iso_samples iso_instant_def)

text \<open>
  Bounded collection drains: calling \<open>collectExpired\<close> with one valid input until it reports no
  more ends within as many calls as there are expired hints plus one, and leaves no hint of the
  tenant that is due.
\<close>

theorem presence_collection_drains:
  assumes "valid_collect i" and "length s < fuel"
  shows "\<exists>s'. drain (\<lambda>s. collect_step (presence_collectExpired t i s)) fuel s = Some s' \<and>
    (\<forall>e \<in> set s'. \<not> hint_expired t i e)"
proof -
  have "eligible_count (hint_expired t i) s < fuel"
    using le_less_trans [OF length_filter_le assms(2)] by (simp add: eligible_count_def)
  then show ?thesis
    using presence_collector.drain_complete [of "(t, i)" s fuel] assms(1)
    by (auto simp: eligible_count_def filter_empty_conv)
qed

theorem presence_collection_drains_witness:
  "\<exists>s'. drain (\<lambda>s. collect_step (presence_collectExpired ''acme'' \<lparr>ci_now = toISOString 60000, ci_limit = Fin 1\<rparr> s)) 2
      [(tenantKey ''acme'' [''d1''], seen_hint)] = Some s' \<and>
    (\<forall>e \<in> set s'. \<not> hint_expired ''acme'' \<lparr>ci_now = toISOString 60000, ci_limit = Fin 1\<rparr> e)"
  by (rule presence_collection_drains)
    (simp_all add: valid_collect_def isCanonicalTimestamp_toISOString iso_samples MAX_SAFE_INTEGER_def)

end
