(* ===== verification/Storage_Ledger.thy ===== *)
theory Storage_Ledger
  imports Retention
begin

text \<open>
  The storage ledger (\<open>packages/core/src/in-memory/storage-ledger.ts\<close>, types of \<open>quota.ts\<close>):
  the authority that the quota store and the object store share. It holds the usage row of every
  tenant, the reservations, and what each committed content hash was charged as.
\<close>

datatype storage_write_kind = ObjectKind | InlineKind

datatype storage_reservation_state = Reserved | Committed | Aborted | ReservationExpired

record tenant_storage_usage =
  tu_committedObjectBytes :: int
  tu_committedInlineBytes :: int
  tu_reservedBytes :: int
  tu_objectCount :: int
  tu_updatedAt :: string

record storage_reservation =
  sr_tenantId :: tenant
  sr_reservationId :: string
  sr_state :: storage_reservation_state
  sr_kind :: storage_write_kind
  sr_expectedBytes :: int
  sr_contentHash :: string
  sr_contentType :: string
  sr_createdAt :: string
  sr_expiresAt :: string
  sr_settledAt :: "string option"

record reservation_record =
  rr_reservation :: storage_reservation
  rr_deduplicated :: bool

type_synonym charge = "storage_write_kind \<times> int"

record storage_ledger =
  lg_usage :: "tenant_storage_usage jmap"
  lg_reservations :: "reservation_record jmap"
  lg_committed :: "charge jmap jmap"

definition empty_ledger :: storage_ledger where
  "empty_ledger = \<lparr>lg_usage = [], lg_reservations = [], lg_committed = []\<rparr>"

definition readReservation_row :: "string \<Rightarrow> storage_ledger \<Rightarrow> reservation_record option" where
  "readReservation_row key l = jget (lg_reservations l) key"

definition writeReservation :: "string \<Rightarrow> reservation_record \<Rightarrow> storage_ledger \<Rightarrow> storage_ledger" where
  "writeReservation key r l = l\<lparr>lg_reservations := jset key r (lg_reservations l)\<rparr>"

definition deleteReservation :: "string \<Rightarrow> storage_ledger \<Rightarrow> storage_ledger" where
  "deleteReservation key l = l\<lparr>lg_reservations := jdel key (lg_reservations l)\<rparr>"

definition zero_usage :: "string \<Rightarrow> tenant_storage_usage" where
  "zero_usage updatedAt =
     \<lparr>tu_committedObjectBytes = 0, tu_committedInlineBytes = 0, tu_reservedBytes = 0, tu_objectCount = 0,
      tu_updatedAt = updatedAt\<rparr>"

text \<open>\<open>readUsage\<close> stores the zero row of a tenant it has not seen.\<close>

definition ledger_readUsage :: "tenant \<Rightarrow> int \<Rightarrow> storage_ledger \<Rightarrow> tenant_storage_usage \<times> storage_ledger" where
  "ledger_readUsage t now l =
     (case jget (lg_usage l) t of
        Some usage \<Rightarrow> (usage, l)
      | None \<Rightarrow> let usage = zero_usage (toISOString now) in (usage, l\<lparr>lg_usage := jset t usage (lg_usage l)\<rparr>))"

definition writeUsage :: "tenant \<Rightarrow> tenant_storage_usage \<Rightarrow> storage_ledger \<Rightarrow> storage_ledger" where
  "writeUsage t usage l = l\<lparr>lg_usage := jset t usage (lg_usage l)\<rparr>"

definition charges :: "tenant \<Rightarrow> storage_ledger \<Rightarrow> charge jmap" where
  "charges t l = (case jget (lg_committed l) t of None \<Rightarrow> [] | Some m \<Rightarrow> m)"

definition isCounted :: "tenant \<Rightarrow> string \<Rightarrow> storage_ledger \<Rightarrow> bool" where
  "isCounted t hash l = (jget (charges t l) hash \<noteq> None)"

definition recordCommitted :: "tenant \<Rightarrow> storage_reservation \<Rightarrow> storage_ledger \<Rightarrow> storage_ledger" where
  "recordCommitted t r l =
     l\<lparr>lg_committed := jset t (jset (sr_contentHash r) (sr_kind r, sr_expectedBytes r) (charges t l)) (lg_committed l)\<rparr>"

definition hasReservedObject :: "tenant \<Rightarrow> string \<Rightarrow> storage_ledger \<Rightarrow> bool" where
  "hasReservedObject t hash l =
     list_ex (\<lambda>rec. sr_tenantId (rr_reservation rec) = t \<and> sr_kind (rr_reservation rec) = ObjectKind \<and>
        sr_contentHash (rr_reservation rec) = hash \<and> sr_state (rr_reservation rec) = Reserved)
       (jvals (lg_reservations l))"

definition reservedObjectHashes :: "tenant \<Rightarrow> storage_ledger \<Rightarrow> string list" where
  "reservedObjectHashes t l =
     map (\<lambda>rec. sr_contentHash (rr_reservation rec))
       (filter (\<lambda>rec. sr_tenantId (rr_reservation rec) = t \<and> sr_kind (rr_reservation rec) = ObjectKind \<and>
          sr_state (rr_reservation rec) = Reserved) (jvals (lg_reservations l)))"

text \<open>
  \<open>prepareCollectedObjectRelease\<close>: the bytes to release and the ledger after its \<open>commit\<close>
  callback, which the caller runs before anything else touches the ledger.
\<close>

definition prepareCollectedObjectRelease ::
  "tenant \<Rightarrow> string \<Rightarrow> int \<Rightarrow> string \<Rightarrow> storage_ledger \<Rightarrow> ('c, int \<times> storage_ledger) result" where
  "prepareCollectedObjectRelease t hash byteSize now l =
     (case jget (charges t l) hash of
        None \<Rightarrow> Inr (0, l)
      | Some (kind, bytes) \<Rightarrow>
          if kind = InlineKind then Inr (0, l)
          else
            (case jget (lg_usage l) t of
               None \<Rightarrow> Inl (ByokCoreError Storage_integrity_mismatch)
             | Some usage \<Rightarrow>
                 if bytes \<noteq> byteSize \<or> tu_committedObjectBytes usage < bytes \<or> tu_objectCount usage < 1
                 then Inl (ByokCoreError Storage_integrity_mismatch)
                 else Inr (bytes,
                   writeUsage t (usage\<lparr>tu_committedObjectBytes := tu_committedObjectBytes usage - bytes,
                       tu_objectCount := tu_objectCount usage - 1, tu_updatedAt := now\<rparr>)
                     (l\<lparr>lg_committed := jset t (jdel hash (charges t l)) (lg_committed l)\<rparr>))))"

definition releaseCollectedObject ::
  "tenant \<Rightarrow> string \<Rightarrow> int \<Rightarrow> string \<Rightarrow> storage_ledger \<Rightarrow> ('c, int, storage_ledger) outcome" where
  "releaseCollectedObject t hash byteSize now l =
     (case prepareCollectedObjectRelease t hash byteSize now l of
        Inl e \<Rightarrow> (Inl e, l)
      | Inr (released, l') \<Rightarrow> (Inr released, l'))"

text \<open>\<open>#usedBytes\<close> of the quota store: committed and reserved together.\<close>

definition used_bytes :: "tenant_storage_usage \<Rightarrow> int" where
  "used_bytes u = tu_committedObjectBytes u + tu_committedInlineBytes u + tu_reservedBytes u"

section \<open>Exact accounting\<close>

text \<open>What the usage row of a tenant has to say, as sums over the reservations and the charges.\<close>

definition reserved_row :: "tenant \<Rightarrow> string \<times> reservation_record \<Rightarrow> int" where
  "reserved_row t = (\<lambda>(key, rec).
     if in_tenant t key \<and> sr_state (rr_reservation rec) = Reserved then sr_expectedBytes (rr_reservation rec) else 0)"

definition charge_bytes :: "storage_write_kind \<Rightarrow> string \<times> charge \<Rightarrow> int" where
  "charge_bytes k = (\<lambda>(hash, kind, bytes). if kind = k then bytes else 0)"

definition charge_count :: "string \<times> charge \<Rightarrow> int" where
  "charge_count = (\<lambda>(hash, kind, bytes). if kind = ObjectKind then 1 else 0)"

definition usage_of :: "tenant \<Rightarrow> storage_ledger \<Rightarrow> tenant_storage_usage" where
  "usage_of t l = (case jget (lg_usage l) t of None \<Rightarrow> zero_usage [] | Some u \<Rightarrow> u)"

definition balanced :: "tenant \<Rightarrow> storage_ledger \<Rightarrow> bool" where
  "balanced t l =
     (tu_reservedBytes (usage_of t l) = jsum (reserved_row t) (lg_reservations l) \<and>
      tu_committedObjectBytes (usage_of t l) = jsum (charge_bytes ObjectKind) (charges t l) \<and>
      tu_committedInlineBytes (usage_of t l) = jsum (charge_bytes InlineKind) (charges t l) \<and>
      tu_objectCount (usage_of t l) = jsum charge_count (charges t l))"

definition ledger_rows_ok :: "storage_ledger \<Rightarrow> bool" where
  "ledger_rows_ok l =
     (jmap_ok (lg_reservations l) \<and>
      (\<forall>k rec. jget (lg_reservations l) k = Some rec \<longrightarrow>
         isTenantId (sr_tenantId (rr_reservation rec)) \<and>
         k = tenantKey (sr_tenantId (rr_reservation rec)) [sr_reservationId (rr_reservation rec)] \<and>
         0 \<le> sr_expectedBytes (rr_reservation rec)) \<and>
      (\<forall>t. jmap_ok (charges t l) \<and> (\<forall>h k b. jget (charges t l) h = Some (k, b) \<longrightarrow> 0 \<le> b)))"

definition ledger_inv :: "storage_ledger \<Rightarrow> bool" where
  "ledger_inv l = (ledger_rows_ok l \<and> (\<forall>t. isTenantId t \<longrightarrow> balanced t l))"

lemma ledger_inv_empty [simp]: "ledger_inv empty_ledger"
  by (simp add: ledger_inv_def ledger_rows_ok_def balanced_def empty_ledger_def charges_def usage_of_def zero_usage_def)

lemma ledger_inv_row:
  assumes "ledger_inv l" and "isTenantId t" and "jget (lg_reservations l) (tenantKey t [rid]) = Some rec"
  shows "sr_tenantId (rr_reservation rec) = t" "sr_reservationId (rr_reservation rec) = rid"
    "0 \<le> sr_expectedBytes (rr_reservation rec)"
proof -
  have R: "isTenantId (sr_tenantId (rr_reservation rec))"
    "tenantKey t [rid] = tenantKey (sr_tenantId (rr_reservation rec)) [sr_reservationId (rr_reservation rec)]"
    "0 \<le> sr_expectedBytes (rr_reservation rec)"
    using assms(1,3) unfolding ledger_inv_def ledger_rows_ok_def by blast+
  then show "sr_tenantId (rr_reservation rec) = t" "sr_reservationId (rr_reservation rec) = rid"
    "0 \<le> sr_expectedBytes (rr_reservation rec)"
    using assms(2) by simp_all
qed

lemma reserved_row_nonneg:
  "ledger_inv l \<Longrightarrow> e \<in> set (lg_reservations l) \<Longrightarrow> 0 \<le> reserved_row t e"
  by (cases e) (auto simp: ledger_inv_def ledger_rows_ok_def reserved_row_def jget_Some_iff)

text \<open>The hold of a reserved row is part of the reserved bytes, so settling it cannot underflow.\<close>

lemma reserved_bytes_cover:
  assumes "ledger_inv l" and "isTenantId t" and "in_tenant t key" and "jget (lg_reservations l) key = Some rec"
    and "sr_state (rr_reservation rec) = Reserved"
  shows "sr_expectedBytes (rr_reservation rec) \<le> tu_reservedBytes (usage_of t l)"
proof -
  have "reserved_row t (key, rec) \<le> jsum (reserved_row t) (lg_reservations l)"
    using reserved_row_nonneg [OF assms(1)] jget_SomeD [OF assms(4)] by (intro jsum_ge_elem) auto
  then show ?thesis using assms by (simp add: reserved_row_def ledger_inv_def balanced_def)
qed

lemma usage_of_read [simp]: "usage_of u (snd (ledger_readUsage t now l)) = (if u = t then fst (ledger_readUsage t now l) else usage_of u l)"
  by (simp add: ledger_readUsage_def usage_of_def Let_def split: option.splits)

lemma ledger_read_same [simp]:
  "lg_reservations (snd (ledger_readUsage t now l)) = lg_reservations l"
  "lg_committed (snd (ledger_readUsage t now l)) = lg_committed l"
  by (simp_all add: ledger_readUsage_def Let_def split: option.splits)

lemma ledger_read_fields [simp]:
  "tu_reservedBytes (fst (ledger_readUsage t now l)) = tu_reservedBytes (usage_of t l)"
  "tu_committedObjectBytes (fst (ledger_readUsage t now l)) = tu_committedObjectBytes (usage_of t l)"
  "tu_committedInlineBytes (fst (ledger_readUsage t now l)) = tu_committedInlineBytes (usage_of t l)"
  "tu_objectCount (fst (ledger_readUsage t now l)) = tu_objectCount (usage_of t l)"
  by (simp_all add: ledger_readUsage_def usage_of_def zero_usage_def Let_def split: option.splits)

lemma charges_read [simp]: "charges u (snd (ledger_readUsage t now l)) = charges u l"
  by (simp add: charges_def)

lemma ledger_inv_read: "ledger_inv l \<Longrightarrow> ledger_inv (snd (ledger_readUsage t now l))"
  by (simp add: ledger_inv_def ledger_rows_ok_def balanced_def)

section \<open>How the ledger moves\<close>

lemma balanced_cong:
  assumes "tu_reservedBytes (usage_of t l') = tu_reservedBytes (usage_of t l)"
    and "tu_committedObjectBytes (usage_of t l') = tu_committedObjectBytes (usage_of t l)"
    and "tu_committedInlineBytes (usage_of t l') = tu_committedInlineBytes (usage_of t l)"
    and "tu_objectCount (usage_of t l') = tu_objectCount (usage_of t l)"
    and "jsum (reserved_row t) (lg_reservations l') = jsum (reserved_row t) (lg_reservations l)"
    and "charges t l' = charges t l"
  shows "balanced t l' = balanced t l"
  using assms by (simp add: balanced_def)

lemma usage_of_write [simp]: "usage_of u (writeUsage t x l) = (if u = t then x else usage_of u l)"
  by (simp add: usage_of_def writeUsage_def)

lemma ledger_write_same [simp]:
  "lg_reservations (writeUsage t x l) = lg_reservations l" "lg_committed (writeUsage t x l) = lg_committed l"
  "charges u (writeUsage t x l) = charges u l"
  by (simp_all add: writeUsage_def charges_def)

lemma usage_of_committed [simp]: "usage_of u (l\<lparr>lg_committed := x\<rparr>) = usage_of u l"
  by (simp add: usage_of_def)

lemma usage_of_reservations [simp]: "usage_of u (l\<lparr>lg_reservations := x\<rparr>) = usage_of u l"
  by (simp add: usage_of_def)

lemma charges_reservations [simp]: "charges u (l\<lparr>lg_reservations := x\<rparr>) = charges u l"
  by (simp add: charges_def)

lemma charges_put: "charges u (l\<lparr>lg_committed := jset t m (lg_committed l)\<rparr>) = (if u = t then m else charges u l)"
  by (simp add: charges_def)

text \<open>Moving one reservation of a tenant to a new state, with its hold taken out of the usage row.\<close>

lemma reserved_row_jset:
  assumes "ledger_rows_ok l" and "isTenantId t"
  shows "jsum (reserved_row u) (jset (tenantKey t [rid]) rec (lg_reservations l)) =
    jsum (reserved_row u) (lg_reservations l) + reserved_row u (tenantKey t [rid], rec) -
    (case jget (lg_reservations l) (tenantKey t [rid]) of None \<Rightarrow> 0 | Some rec0 \<Rightarrow> reserved_row u (tenantKey t [rid], rec0))"
  using assms by (simp add: jsum_jset ledger_rows_ok_def del: tenantKey_one)

lemma reserved_row_other: "isTenantId t \<Longrightarrow> isTenantId u \<Longrightarrow> u \<noteq> t \<Longrightarrow> reserved_row u (tenantKey t [rid], rec) = 0"
  by (simp add: reserved_row_def)

lemma prepare_Inr:
  assumes "prepareCollectedObjectRelease t h n now l = Inr (released, l')"
  shows "l' = l \<and> released = 0 \<or>
    (\<exists>usage. jget (charges t l) h = Some (ObjectKind, released) \<and> jget (lg_usage l) t = Some usage \<and>
       l' = writeUsage t (usage\<lparr>tu_committedObjectBytes := tu_committedObjectBytes usage - released,
                       tu_objectCount := tu_objectCount usage - 1, tu_updatedAt := now\<rparr>)
                     (l\<lparr>lg_committed := jset t (jdel h (charges t l)) (lg_committed l)\<rparr>))"
  using assms
  by (auto simp: prepareCollectedObjectRelease_def split: option.splits prod.splits if_splits)
    (metis storage_write_kind.exhaust)+

lemma prepare_inv:
  assumes "prepareCollectedObjectRelease t h n now l = Inr (released, l')" and "ledger_inv l" and "isTenantId t"
  shows "ledger_inv l'" and "used_bytes (usage_of u l') = used_bytes (usage_of u l) - (if u = t then released else 0)"
    and "0 \<le> released" and "lg_reservations l' = lg_reservations l"
proof -
  have "ledger_inv l' \<and> used_bytes (usage_of u l') = used_bytes (usage_of u l) - (if u = t then released else 0) \<and>
      0 \<le> released \<and> lg_reservations l' = lg_reservations l"
    using prepare_Inr [OF assms(1)]
  proof (elim disjE exE conjE)
    assume "l' = l" "released = 0"
    then show ?thesis using assms(2) by simp
  next
    fix usage
    assume c: "jget (charges t l) h = Some (ObjectKind, released)" and g: "jget (lg_usage l) t = Some usage"
      and l': "l' = writeUsage t (usage\<lparr>tu_committedObjectBytes := tu_committedObjectBytes usage - released,
                       tu_objectCount := tu_objectCount usage - 1, tu_updatedAt := now\<rparr>)
                     (l\<lparr>lg_committed := jset t (jdel h (charges t l)) (lg_committed l)\<rparr>)"
    have us: "usage_of t l = usage" by (simp add: usage_of_def g)
    have ok: "jmap_ok (charges t l)" "\<And>h k b. jget (charges t l) h = Some (k, b) \<Longrightarrow> 0 \<le> b"
      using assms(2) by (auto simp: ledger_inv_def ledger_rows_ok_def)
    have "balanced v l'" if "isTenantId v" for v
    proof (cases "v = t")
      case True
      have "balanced t l" using assms(2,3) by (simp add: ledger_inv_def)
      then show ?thesis
        using us c ok(1) by (simp add: True l' balanced_def charges_put jsum_jdel charge_bytes_def charge_count_def)
    next
      case False
      then have "balanced v l' = balanced v l" by (intro balanced_cong) (simp_all add: l' charges_put)
      then show ?thesis using assms(2) that by (simp add: ledger_inv_def)
    qed
    moreover have "ledger_rows_ok l'"
      using assms(2) ok by (auto simp: l' ledger_inv_def ledger_rows_ok_def charges_put split: if_splits)
    moreover have "0 \<le> released" using ok(2) c by blast
    ultimately show ?thesis using us by (auto simp: ledger_inv_def l' used_bytes_def)
  qed
  then show "ledger_inv l'" "used_bytes (usage_of u l') = used_bytes (usage_of u l) - (if u = t then released else 0)"
    "0 \<le> released" "lg_reservations l' = lg_reservations l" by blast+
qed

end
