(* ===== verification/Objects.thy ===== *)
theory Objects
  imports Storage_Ledger
begin

text \<open>
  Content addresses and the object manifest (\<open>packages/core/src/blob.ts\<close>,
  \<open>in-memory/blob.ts\<close>): the validated hash, the tenant-scoped object key, the manifest state
  machine, reference counting, and the garbage collection that shares the storage ledger with
  the quota store. The object bytes are not here: deleting them is a call of the byte authority,
  the parameter \<open>deleteObject\<close> below, which may throw.
\<close>

section \<open>Content hashes and object keys\<close>

definition hex_lower :: "char \<Rightarrow> bool" where
  "hex_lower c = (isdigit c \<or> (CHR ''a'' \<le> c \<and> c \<le> CHR ''f''))"

definition CONTENT_HASH_PATTERN :: "string \<Rightarrow> bool" where
  "CONTENT_HASH_PATTERN v = (take 7 v = ''sha256:'' \<and> length v = 71 \<and> list_all hex_lower (drop 7 v))"

definition contentHash :: "string \<Rightarrow> ('c, string) result" where
  "contentHash v = (if \<not> CONTENT_HASH_PATTERN v then Inl (ByokCoreError Content_hash_invalid) else Inr v)"

definition isContentHash :: "string \<Rightarrow> bool" where
  "isContentHash v = CONTENT_HASH_PATTERN v"

definition prefix_start :: "char \<Rightarrow> bool" where
  "prefix_start c = (isdigit c \<or> (CHR ''a'' \<le> c \<and> c \<le> CHR ''z''))"

definition prefix_char :: "char \<Rightarrow> bool" where
  "prefix_char c = (prefix_start c \<or> c \<in> {CHR ''.'', CHR ''_'', CHR ''-''})"

text \<open>One segment \<open>[a-z0-9][a-z0-9._-]*\<close>, and segments joined by slashes.\<close>

fun prefix_segment :: "string \<Rightarrow> bool" where
  "prefix_segment [] = False"
| "prefix_segment (c # cs) = (prefix_start c \<and> list_all prefix_char cs)"

fun segments :: "string \<Rightarrow> string list" where
  "segments [] = [[]]"
| "segments (c # cs) =
     (if c = CHR ''/'' then [] # segments cs
      else case segments cs of [] \<Rightarrow> [[c]] | s # ss \<Rightarrow> (c # s) # ss)"

definition OBJECT_KEY_PREFIX_PATTERN :: "string \<Rightarrow> bool" where
  "OBJECT_KEY_PREFIX_PATTERN v = list_all prefix_segment (segments v)"

definition objectKeyPrefix :: "string \<Rightarrow> ('c, string) result" where
  "objectKeyPrefix v =
     (if \<not> OBJECT_KEY_PREFIX_PATTERN v then Inl (ByokCoreError Object_key_prefix_invalid) else Inr v)"

definition tenantObjectKey :: "tenant \<Rightarrow> string \<Rightarrow> string option \<Rightarrow> string" where
  "tenantObjectKey t hash pfx =
     (let hex = drop 7 hash; key = ''tenants/'' @ t @ ''/objects/sha256/'' @ hex
      in case pfx of None \<Rightarrow> key | Some p \<Rightarrow> p @ ''/'' @ key)"

section \<open>The manifest\<close>

datatype object_state = ObjPending | ObjCommitted | DeletePending | Deleted

fun OBJECT_STATE_TRANSITIONS :: "object_state \<Rightarrow> object_state list" where
  "OBJECT_STATE_TRANSITIONS ObjPending = [ObjCommitted, DeletePending]"
| "OBJECT_STATE_TRANSITIONS ObjCommitted = [DeletePending]"
| "OBJECT_STATE_TRANSITIONS DeletePending = [Deleted, ObjCommitted]"
| "OBJECT_STATE_TRANSITIONS Deleted = []"

definition isLegalObjectTransition :: "object_state \<Rightarrow> object_state \<Rightarrow> bool" where
  "isLegalObjectTransition from to = (to \<in> set (OBJECT_STATE_TRANSITIONS from))"

record object_manifest_entry =
  oe_tenantId :: tenant
  oe_hash :: string
  oe_byteSize :: int
  oe_contentType :: string
  oe_state :: object_state
  oe_refCount :: int
  oe_createdAt :: string
  oe_updatedAt :: string
  oe_deletePendingAt :: "string option"

record object_reference =
  or_tenantId :: tenant
  or_hash :: string
  or_refKind :: string
  or_refId :: string
  or_createdAt :: string

record object_manifest_input =
  oi_hash :: string
  oi_byteSize :: int
  oi_contentType :: string

record object_commit_input =
  oc_hash :: string
  oc_observedByteSize :: int
  oc_observedContentType :: string

record object_reference_input =
  ori_hash :: string
  ori_refKind :: string
  ori_refId :: string

record object_list_query =
  oq_state :: "object_state option"
  oq_deletePendingBefore :: "string option"
  oq_limit :: "int option"

record object_collect_input = collect_expired_input +
  og_orphanBefore :: string

record object_store =
  ob_manifest :: "object_manifest_entry jmap"
  ob_references :: "object_reference jmap"
  ob_deleteCursor :: "string jmap"

type_synonym ('c, 'a) object_outcome = "('c, 'a, object_store) outcome"

definition OBJECT_LIST_LIMIT :: int where
  "OBJECT_LIST_LIMIT = 100"

definition empty_objects :: object_store where
  "empty_objects = \<lparr>ob_manifest = [], ob_references = [], ob_deleteCursor = []\<rparr>"

definition object_get :: "tenant \<Rightarrow> string \<Rightarrow> object_store \<Rightarrow> object_manifest_entry option" where
  "object_get t hash s = jget (ob_manifest s) (tenantKey t [hash])"

definition put_entry :: "tenant \<Rightarrow> object_manifest_entry \<Rightarrow> object_store \<Rightarrow> object_store" where
  "put_entry t e s = s\<lparr>ob_manifest := jset (tenantKey t [oe_hash e]) e (ob_manifest s)\<rparr>"

definition putManifest :: "tenant \<Rightarrow> object_manifest_input \<Rightarrow> int \<Rightarrow> object_store \<Rightarrow> object_manifest_entry \<times> object_store" where
  "putManifest t input now s =
     (let fresh = \<lparr>oe_tenantId = t, oe_hash = oi_hash input, oe_byteSize = oi_byteSize input,
            oe_contentType = oi_contentType input, oe_state = ObjPending, oe_refCount = 0,
            oe_createdAt = toISOString now, oe_updatedAt = toISOString now, oe_deletePendingAt = None\<rparr>
      in case object_get t (oi_hash input) s of
           Some existing \<Rightarrow> if oe_state existing \<noteq> Deleted then (existing, s) else (fresh, put_entry t fresh s)
         | None \<Rightarrow> (fresh, put_entry t fresh s))"

text \<open>\<open>#require\<close>, \<open>#transition\<close> and \<open>#recount\<close>.\<close>

definition object_require :: "tenant \<Rightarrow> string \<Rightarrow> object_store \<Rightarrow> ('c, object_manifest_entry) result" where
  "object_require t hash s =
     (case object_get t hash s of None \<Rightarrow> Inl (ByokCoreError Object_not_found) | Some e \<Rightarrow> Inr e)"

definition transition :: "tenant \<Rightarrow> object_manifest_entry \<Rightarrow> object_state \<Rightarrow> int \<Rightarrow> object_store \<Rightarrow> ('c, object_manifest_entry) object_outcome" where
  "transition t e target now s =
     (if \<not> isLegalObjectTransition (oe_state e) target then (Inl (ByokCoreError Object_state_invalid), s)
      else let e' = e\<lparr>oe_state := target, oe_updatedAt := toISOString now,
                      oe_deletePendingAt := (if target = DeletePending then Some (toISOString now) else oe_deletePendingAt e)\<rparr>
           in (Inr e', put_entry t e' s))"

definition ref_count :: "tenant \<Rightarrow> string \<Rightarrow> object_store \<Rightarrow> int" where
  "ref_count t hash s = int (length (filter (\<lambda>(key, _). prefix (tenantKey t [hash, '''']) key) (ob_references s)))"

definition recount :: "tenant \<Rightarrow> object_manifest_entry \<Rightarrow> int \<Rightarrow> object_store \<Rightarrow> object_manifest_entry \<times> object_store" where
  "recount t e now s =
     (let e' = e\<lparr>oe_refCount := ref_count t (oe_hash e) s, oe_updatedAt := toISOString now\<rparr>
      in (e', put_entry t e' s))"

definition object_commit :: "tenant \<Rightarrow> object_commit_input \<Rightarrow> int \<Rightarrow> object_store \<Rightarrow> ('c, object_manifest_entry) object_outcome" where
  "object_commit t input now s =
     (case object_require t (oc_hash input) s of
        Inl e \<Rightarrow> (Inl e, s)
      | Inr e \<Rightarrow>
          if oe_byteSize e \<noteq> oc_observedByteSize input \<or> oe_contentType e \<noteq> oc_observedContentType input
          then (Inl (ByokCoreError Storage_integrity_mismatch), s)
          else if oe_state e = ObjCommitted then (Inr e, s)
          else transition t e ObjCommitted now s)"

definition object_match :: "tenant \<Rightarrow> object_list_query \<Rightarrow> string \<times> object_manifest_entry \<Rightarrow> bool" where
  "object_match t q = (\<lambda>(key, e).
     in_tenant t key \<and> (case oq_state q of None \<Rightarrow> True | Some st \<Rightarrow> oe_state e = st) \<and>
     (case oq_deletePendingBefore q of
        None \<Rightarrow> True
      | Some cutoff \<Rightarrow> (case oe_deletePendingAt e of None \<Rightarrow> False | Some d \<Rightarrow> d < cutoff)))"

definition object_list ::
  "(string \<Rightarrow> string \<Rightarrow> int) \<Rightarrow> tenant \<Rightarrow> object_list_query \<Rightarrow> object_store \<Rightarrow> ('c, object_manifest_entry list) result" where
  "object_list lc t q s =
     (case (case oq_deletePendingBefore q of None \<Rightarrow> Inr [] | Some cutoff \<Rightarrow> assertCanonicalTimestamp cutoff) of
        Inl e \<Rightarrow> Inl e
      | Inr _ \<Rightarrow>
          Inr (slice0 (case oq_limit q of None \<Rightarrow> OBJECT_LIST_LIMIT | Some n \<Rightarrow> n)
            (sort_by (\<lambda>l r. lc (oe_hash l) (oe_hash r)) (map snd (filter (object_match t q) (ob_manifest s))))))"

definition addReference :: "tenant \<Rightarrow> object_reference_input \<Rightarrow> int \<Rightarrow> object_store \<Rightarrow> ('c, object_manifest_entry) object_outcome" where
  "addReference t input now s =
     (case object_require t (ori_hash input) s of
        Inl e \<Rightarrow> (Inl e, s)
      | Inr e \<Rightarrow>
          if oe_state e \<noteq> ObjCommitted then (Inl (ByokCoreError Object_state_invalid), s)
          else
            let refKey = tenantKey t [ori_hash input, ori_refKind input, ori_refId input];
                s' = (if jget (ob_references s) refKey = None
                      then s\<lparr>ob_references := jset refKey
                             \<lparr>or_tenantId = t, or_hash = ori_hash input, or_refKind = ori_refKind input,
                              or_refId = ori_refId input, or_createdAt = toISOString now\<rparr> (ob_references s)\<rparr>
                      else s)
            in map_prod Inr id (recount t e now s'))"

definition removeReference :: "tenant \<Rightarrow> object_reference_input \<Rightarrow> int \<Rightarrow> object_store \<Rightarrow> ('c, object_manifest_entry) object_outcome" where
  "removeReference t input now s =
     (case object_require t (ori_hash input) s of
        Inl e \<Rightarrow> (Inl e, s)
      | Inr e \<Rightarrow>
          map_prod Inr id (recount t e now
            (s\<lparr>ob_references := jdel (tenantKey t [ori_hash input, ori_refKind input, ori_refId input]) (ob_references s)\<rparr>)))"

definition markDeletePending :: "tenant \<Rightarrow> string \<Rightarrow> int \<Rightarrow> object_store \<Rightarrow> ('c, object_manifest_entry) object_outcome" where
  "markDeletePending t hash now s =
     (case object_require t hash s of
        Inl e \<Rightarrow> (Inl e, s)
      | Inr e \<Rightarrow>
          if oe_refCount e \<noteq> 0 then (Inl (ByokCoreError Object_state_invalid), s)
          else transition t e DeletePending now s)"

definition markDeleted :: "tenant \<Rightarrow> string \<Rightarrow> int \<Rightarrow> object_store \<Rightarrow> ('c, object_manifest_entry) object_outcome" where
  "markDeleted t hash now s =
     (case object_require t hash s of
        Inl e \<Rightarrow> (Inl e, s)
      | Inr e \<Rightarrow> transition t e Deleted now s)"

text \<open>
  \<open>releaseReferences\<close> of the archive access: the references of \<open>(refKind, refId)\<close> go, and every
  object that lost one is recounted, in the order in which its hash was met.
\<close>

definition held_by :: "tenant \<Rightarrow> string \<Rightarrow> string \<Rightarrow> object_reference \<Rightarrow> bool" where
  "held_by t refKind refId r = (or_tenantId r = t \<and> or_refKind r = refKind \<and> or_refId r = refId)"

fun recount_hashes :: "tenant \<Rightarrow> int \<Rightarrow> string list \<Rightarrow> object_store \<Rightarrow> object_store" where
  "recount_hashes t now [] s = s"
| "recount_hashes t now (h # hs) s =
     recount_hashes t now hs (case object_get t h s of None \<Rightarrow> s | Some e \<Rightarrow> snd (recount t e now s))"

text \<open>Insertion-ordered distinct values, as a \<open>Set\<close> keeps them.\<close>

definition set_order :: "'a list \<Rightarrow> 'a list" where
  "set_order xs = rev (remdups (rev xs))"

definition releaseReferences :: "tenant \<Rightarrow> string \<Rightarrow> string \<Rightarrow> int \<Rightarrow> object_store \<Rightarrow> int \<times> object_store" where
  "releaseReferences t refKind refId now s =
     (let gone = filter (\<lambda>(_, r). held_by t refKind refId r) (ob_references s)
      in (int (length gone),
          recount_hashes t now (set_order (map (\<lambda>(_, r). or_hash r) gone))
            (s\<lparr>ob_references := filter (\<lambda>(_, r). \<not> held_by t refKind refId r) (ob_references s)\<rparr>)))"

section \<open>Garbage collection\<close>

definition collectable :: "tenant \<Rightarrow> object_collect_input \<Rightarrow> storage_ledger \<Rightarrow> object_manifest_entry \<Rightarrow> bool" where
  "collectable t input l e =
     (oe_tenantId e = t \<and> oe_refCount e = 0 \<and> \<not> hasReservedObject t (oe_hash e) l \<and>
      (oe_state e = DeletePending \<or>
       ((oe_state e = ObjPending \<or> oe_state e = ObjCommitted) \<and> oe_updatedAt e < og_orphanBefore input)))"

text \<open>
  The candidates: tombstones after the cursor, then fresh orphans, then the tombstones up to the
  cursor, at most \<open>limit\<close> in all.
\<close>

definition gc_candidates ::
  "(string \<Rightarrow> string \<Rightarrow> int) \<Rightarrow> tenant \<Rightarrow> object_collect_input \<Rightarrow> storage_ledger \<Rightarrow> object_store \<Rightarrow>
   object_manifest_entry list \<times> object_manifest_entry list \<times> object_manifest_entry list \<times> bool" where
  "gc_candidates lc t input l s =
     (let limit = num_int (ci_limit input);
          cursor = (case jget (ob_deleteCursor s) t of None \<Rightarrow> [] | Some c \<Rightarrow> c);
          entries = filter (collectable t input l) (jvals (ob_manifest s));
          pending = sort_by (\<lambda>a b. lc (oe_hash a) (oe_hash b)) (filter (\<lambda>e. oe_state e = DeletePending) entries);
          first = slice0 limit (filter (\<lambda>e. oe_hash e > cursor) pending);
          fresh = slice0 (limit - int (length first))
            (sort_by (\<lambda>a b. let c = lc (oe_updatedAt a) (oe_updatedAt b)
                            in if c \<noteq> 0 then c else lc (oe_hash a) (oe_hash b))
              (filter (\<lambda>e. oe_state e \<noteq> DeletePending) entries));
          wrapped = slice0 (limit - int (length first) - int (length fresh)) (filter (\<lambda>e. oe_hash e \<le> cursor) pending)
      in (first, fresh, wrapped, length entries > length (first @ fresh @ wrapped)))"

record gc_counters =
  gc_removed :: int
  gc_releasedBytes :: int
  gc_failures :: int

type_synonym storage_core = "storage_ledger \<times> object_store"

text \<open>
  One candidate: the tombstone is written first, then the release is prepared, the bytes are
  deleted, the ledger is charged back and the entry becomes \<open>deleted\<close>. A failure leaves the
  tombstone. A candidate whose entry is gone would be a \<open>TypeError\<close> in the source.
\<close>

definition gc_one ::
  "(tenant \<Rightarrow> string \<Rightarrow> string option) \<Rightarrow> tenant \<Rightarrow> object_collect_input \<Rightarrow> object_manifest_entry \<Rightarrow>
   gc_counters \<times> storage_core \<Rightarrow> string + gc_counters \<times> storage_core" where
  "gc_one deleteObject t input candidate = (\<lambda>(c, l, s).
     (case object_get t (oe_hash candidate) s of
        None \<Rightarrow> Inl ''TypeError''
      | Some e \<Rightarrow>
          if \<not> collectable t input l e then Inr (c, l, s)
          else
            let tomb = (if oe_state e = DeletePending then e
                        else e\<lparr>oe_state := DeletePending, oe_deletePendingAt := Some (ci_now input), oe_updatedAt := ci_now input\<rparr>);
                s' = put_entry t tomb s;
                failed = Inr (c\<lparr>gc_failures := gc_failures c + 1\<rparr>, l, s')
            in case (prepareCollectedObjectRelease t (oe_hash e) (oe_byteSize e) (ci_now input) l :: (unit, int \<times> storage_ledger) result) of
                 Inl err \<Rightarrow> failed
               | Inr (released, l') \<Rightarrow>
                   (case deleteObject t (oe_hash e) of
                      Some err \<Rightarrow> failed
                    | None \<Rightarrow>
                        Inr (c\<lparr>gc_removed := gc_removed c + 1, gc_releasedBytes := gc_releasedBytes c + released\<rparr>, l',
                          put_entry t (tomb\<lparr>oe_state := Deleted, oe_updatedAt := ci_now input\<rparr>) s'))))"

text \<open>The loop; the flag tells that \<open>visited\<close> reached the limit with a candidate left.\<close>

fun gc_loop ::
  "(tenant \<Rightarrow> string \<Rightarrow> string option) \<Rightarrow> tenant \<Rightarrow> object_collect_input \<Rightarrow> int \<Rightarrow> object_manifest_entry list \<Rightarrow>
   gc_counters \<times> storage_core \<Rightarrow> (string + bool) \<times> gc_counters \<times> storage_core" where
  "gc_loop deleteObject t input visited [] x = (Inr False, x)"
| "gc_loop deleteObject t input visited (e # es) x =
     (if visited = num_int (ci_limit input) then (Inr True, x)
      else case gc_one deleteObject t input e x of
             Inl crash \<Rightarrow> (Inl crash, x)
           | Inr x' \<Rightarrow> gc_loop deleteObject t input (visited + 1) es x')"

definition object_collectExpired ::
  "(string \<Rightarrow> string \<Rightarrow> int) \<Rightarrow> (tenant \<Rightarrow> string \<Rightarrow> string option) \<Rightarrow> tenant \<Rightarrow> object_collect_input \<Rightarrow> storage_core \<Rightarrow>
   ('c, collect_expired_result, storage_core) outcome" where
  "object_collectExpired lc deleteObject t input = (\<lambda>(l, s).
     (case assertCollectExpiredInput input of
        Inl e \<Rightarrow> (Inl e, l, s)
      | Inr _ \<Rightarrow>
     (case assertCanonicalTimestamp (og_orphanBefore input) of
        Inl e \<Rightarrow> (Inl e, l, s)
      | Inr _ \<Rightarrow>
     (case gc_candidates lc t input l s of
        (first, fresh, wrapped, left) \<Rightarrow>
     (case gc_loop deleteObject t input 0 (first @ fresh @ wrapped)
             (\<lparr>gc_removed = 0, gc_releasedBytes = 0, gc_failures = 0\<rparr>, l, s) of
        (Inl crash, c, l', s') \<Rightarrow> (Inl (Foreign crash), l', s')
      | (Inr stopped, c, l', s') \<Rightarrow>
          let cursor = (case at_last wrapped of Some e \<Rightarrow> oe_hash e
                        | None \<Rightarrow> (case at_last first of Some e \<Rightarrow> oe_hash e | None \<Rightarrow> []));
              s'' = s'\<lparr>ob_deleteCursor := jset t cursor (ob_deleteCursor s')\<rparr>;
              counts = \<lparr>cc_removed = gc_removed c, cc_expired = 0, cc_releasedBytes = gc_releasedBytes c\<rparr>
          in if gc_failures c > 0
             then (Inl (CollectExpiredFailure counts (gc_failures c) (Some True)), l', s'')
             else (Inr \<lparr>cc_removed = gc_removed c, cc_expired = 0, cc_releasedBytes = gc_releasedBytes c,
                        cr_more = (left \<or> stopped)\<rparr>, l', s''))))))"

section \<open>Object keys keep tenants apart\<close>

lemma contentHash_split:
  assumes "isContentHash h"
  shows "h = ''sha256:'' @ drop 7 h" "length (drop 7 h) = 64"
proof -
  have "take 7 h = ''sha256:''" "length h = 71" using assms by (simp_all add: isContentHash_def CONTENT_HASH_PATTERN_def)
  then show "h = ''sha256:'' @ drop 7 h" "length (drop 7 h) = 64" by (metis append_take_drop_id, simp)
qed

text \<open>
  Under one deployment prefix no two objects share a key: the key of a tenant and a valid
  content hash determines both, even when a tenant id contains slashes.
\<close>

theorem tenantObjectKey_injective:
  assumes "isContentHash h" and "isContentHash h'"
  shows "tenantObjectKey t h p = tenantObjectKey t' h' p \<longleftrightarrow> t = t' \<and> h = h'"
proof (rule iffI)
  assume eq: "tenantObjectKey t h p = tenantObjectKey t' h' p"
  have "t @ ''/objects/sha256/'' @ drop 7 h = t' @ ''/objects/sha256/'' @ drop 7 h'"
    using eq by (simp add: tenantObjectKey_def Let_def split: option.splits)
  moreover have "length (''/objects/sha256/'' @ drop 7 h) = length (''/objects/sha256/'' @ drop 7 h')"
    using contentHash_split(2) assms(1,2) by simp
  ultimately have "t = t' \<and> drop 7 h = drop 7 h'"
    using append_eq_append_conv [of t t' "''/objects/sha256/'' @ drop 7 h" "''/objects/sha256/'' @ drop 7 h'"] by simp
  then show "t = t' \<and> h = h'" using contentHash_split(1) assms(1,2) by metis
qed simp

definition sample_hash :: string where
  "sample_hash = ''sha256:'' @ replicate 64 (CHR ''a'')"

lemma sample_hash [simp]: "isContentHash sample_hash"
  by (simp add: isContentHash_def CONTENT_HASH_PATTERN_def sample_hash_def list_all_iff hex_lower_def less_eq_char_def)

theorem tenantObjectKey_injective_witness:
  "tenantObjectKey ''acme'' sample_hash (Some ''p'') \<noteq> tenantObjectKey ''acme/tenants/acme'' sample_hash (Some ''p'')"
  using tenantObjectKey_injective [OF sample_hash sample_hash, of "''acme''" "Some ''p''" "''acme/tenants/acme''"] by simp

section \<open>Reference counts\<close>

lemma hash_no_sep: "isContentHash h \<Longrightarrow> TENANT_KEY_SEPARATOR \<notin> set h"
proof -
  assume h: "isContentHash h"
  have "\<not> hex_lower TENANT_KEY_SEPARATOR" by (simp add: hex_lower_def isdigit_def TENANT_KEY_SEPARATOR_def less_eq_char_def)
  then have "TENANT_KEY_SEPARATOR \<notin> set (drop 7 h)"
    using h by (auto simp: isContentHash_def CONTENT_HASH_PATTERN_def list_all_iff)
  moreover have "TENANT_KEY_SEPARATOR \<notin> set ''sha256:''" by (simp add: TENANT_KEY_SEPARATOR_def)
  ultimately show ?thesis using contentHash_split(1) [OF h] by (metis Un_iff set_append)
qed

lemma ref_prefix:
  assumes "isTenantId t" "isTenantId u" "isContentHash h" "isContentHash h'"
  shows "prefix (tenantKey t [h, '''']) (tenantKey u [h', k, i]) \<longleftrightarrow> t = u \<and> h = h'"
proof -
  let ?c = TENANT_KEY_SEPARATOR
  have a: "tenantKey t [h, ''''] = t @ ?c # (h @ [?c])" "tenantKey u [h', k, i] = u @ ?c # (h' @ ?c # (k @ ?c # i))"
    by (simp_all add: tenantKey_def)
  have "prefix (t @ ?c # x) (u @ ?c # y) \<longleftrightarrow> t = u \<and> prefix x y" for x y
    using append_sep_eq [OF isTenantId_no_sep [OF assms(2)] isTenantId_no_sep [OF assms(1)]]
    by (auto simp: prefix_def)
  then show ?thesis unfolding a by (simp add: prefix_sep hash_no_sep assms)
qed

definition ref_row :: "tenant \<Rightarrow> string \<Rightarrow> string \<times> object_reference \<Rightarrow> int" where
  "ref_row t h = (\<lambda>(key, _). if prefix (tenantKey t [h, '''']) key then 1 else 0)"

lemma ref_count_jsum: "ref_count t h s = jsum (ref_row t h) (ob_references s)"
proof -
  have "int (length (filter (\<lambda>(key, _). prefix (tenantKey t [h, '''']) key) m)) = jsum (ref_row t h) m" for m :: "object_reference jmap"
    by (induction m) (auto simp: ref_row_def)
  then show ?thesis by (simp add: ref_count_def)
qed

text \<open>
  Well-formed manifests. \<open>X\<close> are the objects whose stored \<open>refCount\<close> waits for a recount; outside
  it the stored count is exact, and an object that is not committed has no reference.
\<close>

definition entry_key :: "object_manifest_entry \<Rightarrow> tenant \<times> string" where
  "entry_key e = (oe_tenantId e, oe_hash e)"

definition objects_ok :: "(tenant \<times> string) set \<Rightarrow> object_store \<Rightarrow> bool" where
  "objects_ok X s =
     (jmap_ok (ob_manifest s) \<and> jmap_ok (ob_references s) \<and>
      (\<forall>k e. jget (ob_manifest s) k = Some e \<longrightarrow>
         isTenantId (oe_tenantId e) \<and> isContentHash (oe_hash e) \<and> k = tenantKey (oe_tenantId e) [oe_hash e] \<and>
         (oe_state e \<noteq> ObjCommitted \<longrightarrow> ref_count (oe_tenantId e) (oe_hash e) s = 0) \<and>
         (entry_key e \<notin> X \<longrightarrow> oe_refCount e = ref_count (oe_tenantId e) (oe_hash e) s)) \<and>
      (\<forall>k r. jget (ob_references s) k = Some r \<longrightarrow>
         isTenantId (or_tenantId r) \<and> isContentHash (or_hash r) \<and>
         k = tenantKey (or_tenantId r) [or_hash r, or_refKind r, or_refId r] \<and>
         object_get (or_tenantId r) (or_hash r) s \<noteq> None))"

abbreviation objects_inv :: "object_store \<Rightarrow> bool" where
  "objects_inv \<equiv> objects_ok {}"

lemma objects_inv_empty [simp]: "objects_inv empty_objects"
  by (simp add: objects_ok_def empty_objects_def)

lemma ob_references_put [simp]: "ob_references (put_entry u e s) = ob_references s"
  by (simp add: put_entry_def)

lemma ref_count_put [simp]: "ref_count t h (put_entry u e s) = ref_count t h s"
  by (simp add: ref_count_def put_entry_def)

lemma object_get_put:
  "isTenantId t \<Longrightarrow> isTenantId u \<Longrightarrow> object_get t h (put_entry u e s) = (if t = u \<and> h = oe_hash e then Some e else object_get t h s)"
  by (auto simp: object_get_def put_entry_def)

lemma objects_ok_entry:
  assumes "objects_ok X s" and "isTenantId t" and "object_get t h s = Some e"
  shows "oe_tenantId e = t" "oe_hash e = h" "isContentHash h" "oe_state e \<noteq> ObjCommitted \<Longrightarrow> ref_count t h s = 0"
    "(t, h) \<notin> X \<Longrightarrow> oe_refCount e = ref_count t h s"
proof -
  have E: "isTenantId (oe_tenantId e)" "isContentHash (oe_hash e)" "tenantKey t [h] = tenantKey (oe_tenantId e) [oe_hash e]"
    "oe_state e \<noteq> ObjCommitted \<longrightarrow> ref_count (oe_tenantId e) (oe_hash e) s = 0"
    "entry_key e \<notin> X \<longrightarrow> oe_refCount e = ref_count (oe_tenantId e) (oe_hash e) s"
    using assms(1,3) unfolding objects_ok_def object_get_def by blast+
  have k: "oe_tenantId e = t" "oe_hash e = h" using E(1,3) assms(2) by simp_all
  show "oe_tenantId e = t" "oe_hash e = h" by (rule k)+
  show "isContentHash h" "oe_state e \<noteq> ObjCommitted \<Longrightarrow> ref_count t h s = 0"
    "(t, h) \<notin> X \<Longrightarrow> oe_refCount e = ref_count t h s"
    using E k by (simp_all add: entry_key_def)
qed

lemma objects_ok_row:
  assumes "objects_ok X s" and "jget (ob_manifest s) k = Some x"
  shows "isTenantId (oe_tenantId x)" "isContentHash (oe_hash x)" "k = tenantKey (oe_tenantId x) [oe_hash x]"
      "oe_state x \<noteq> ObjCommitted \<Longrightarrow> ref_count (oe_tenantId x) (oe_hash x) s = 0"
      "entry_key x \<notin> X \<Longrightarrow> oe_refCount x = ref_count (oe_tenantId x) (oe_hash x) s"
  using assms unfolding objects_ok_def by blast+

lemma objects_ok_ref:
  assumes "objects_ok X s" and "jget (ob_references s) k = Some r"
  shows "isTenantId (or_tenantId r)" "isContentHash (or_hash r)"
      "k = tenantKey (or_tenantId r) [or_hash r, or_refKind r, or_refId r]" "object_get (or_tenantId r) (or_hash r) s \<noteq> None"
  using assms unfolding objects_ok_def by blast+

lemma objects_ok_put:
  assumes "objects_ok X s" and "isTenantId t" and "oe_tenantId e = t" and "isContentHash (oe_hash e)"
    and "oe_state e \<noteq> ObjCommitted \<Longrightarrow> ref_count t (oe_hash e) s = 0"
    and "oe_refCount e = ref_count t (oe_hash e) s"
  shows "objects_ok (X - {(t, oe_hash e)}) (put_entry t e s)"
proof -
  let ?s = "put_entry t e s"
  have m: "ob_manifest ?s = jset (tenantKey t [oe_hash e]) e (ob_manifest s)" "ob_references ?s = ob_references s"
    by (simp_all add: put_entry_def)
  note old = objects_ok_row [OF assms(1)]
  show ?thesis
    unfolding objects_ok_def m ref_count_put
  proof (intro conjI allI impI)
    show "jmap_ok (jset (tenantKey t [oe_hash e]) e (ob_manifest s))" "jmap_ok (ob_references s)"
      using assms(1) by (simp_all add: objects_ok_def)
  next
    fix k x assume x: "jget (jset (tenantKey t [oe_hash e]) e (ob_manifest s)) k = Some x"
    show "isTenantId (oe_tenantId x)" "isContentHash (oe_hash x)" "k = tenantKey (oe_tenantId x) [oe_hash x]"
      using x assms(2-4) old(1-3) by (auto split: if_splits)
    show "oe_state x \<noteq> ObjCommitted \<Longrightarrow> ref_count (oe_tenantId x) (oe_hash x) s = 0"
      using x assms(3,5) old(4) by (auto split: if_splits)
    show "oe_refCount x = ref_count (oe_tenantId x) (oe_hash x) s" if "entry_key x \<notin> X - {(t, oe_hash e)}"
      using x assms(3,6) old(3,5) [of k x] that by (auto simp: entry_key_def split: if_splits)
  next
    fix k r assume "jget (ob_references s) k = Some r"
    note R = objects_ok_ref [OF assms(1) this]
    show "isTenantId (or_tenantId r)" "isContentHash (or_hash r)"
      "k = tenantKey (or_tenantId r) [or_hash r, or_refKind r, or_refId r]" by (rule R)+
    show "object_get (or_tenantId r) (or_hash r) ?s \<noteq> None"
      using R by (auto simp: object_get_put assms(2))
  qed
qed

lemma ref_count_none:
  assumes "objects_ok X s" and "isTenantId t" and "isContentHash h" and "object_get t h s = None"
  shows "ref_count t h s = 0"
proof -
  have "\<not> prefix (tenantKey t [h, '''']) k" if "(k, r) \<in> set (ob_references s)" for k r
  proof -
    have "jget (ob_references s) k = Some r" using that assms(1) by (simp add: objects_ok_def jget_Some_iff)
    note R = objects_ok_ref [OF assms(1) this]
    show ?thesis using R(4) assms by (auto simp: R(3) ref_prefix [OF assms(2) R(1) assms(3) R(2)])
  qed
  then show ?thesis by (auto simp: ref_count_def filter_empty_conv)
qed

lemma recount_ok:
  assumes "objects_ok X s" and "isTenantId t" and "object_get t h s = Some e"
  shows "objects_ok (X - {(t, h)}) (snd (recount t e now s))"
proof -
  note E = objects_ok_entry [OF assms]
  show ?thesis
    using objects_ok_put [OF assms(1,2), of "e\<lparr>oe_refCount := ref_count t h s, oe_updatedAt := toISOString now\<rparr>"] E
    by (simp add: recount_def Let_def)
qed

section \<open>Every operation keeps the counts exact\<close>

lemma objects_ok_requireD:
  "object_require t h s = Inr e \<longleftrightarrow> object_get t h s = Some e"
  by (simp add: object_require_def split: option.splits)

lemma transition_ok:
  assumes "objects_inv s" and "isTenantId t" and "object_get t h s = Some e"
    and "target \<noteq> ObjCommitted \<Longrightarrow> ref_count t h s = 0"
  shows "objects_inv (snd (transition t e target now s))"
proof -
  note E = objects_ok_entry [OF assms(1-3)]
  show ?thesis
    using objects_ok_put [OF assms(1,2), of "e\<lparr>oe_state := target, oe_updatedAt := toISOString now,
        oe_deletePendingAt := (if target = DeletePending then Some (toISOString now) else oe_deletePendingAt e)\<rparr>"] E assms
    by (simp add: transition_def Let_def)
qed

lemma putManifest_ok:
  assumes "objects_inv s" and "isTenantId t" and "isContentHash (oi_hash input)"
  shows "objects_inv (snd (putManifest t input now s))"
proof -
  let ?e = "\<lparr>oe_tenantId = t, oe_hash = oi_hash input, oe_byteSize = oi_byteSize input,
            oe_contentType = oi_contentType input, oe_state = ObjPending, oe_refCount = 0,
            oe_createdAt = toISOString now, oe_updatedAt = toISOString now, oe_deletePendingAt = None\<rparr>"
  have "objects_inv (put_entry t ?e s)" if "ref_count t (oi_hash input) s = 0"
    using objects_ok_put [OF assms(1,2), of ?e] assms(3) that by simp
  then show ?thesis
    using assms ref_count_none [OF assms] objects_ok_entry(4) [OF assms(1,2)]
    by (auto simp: putManifest_def Let_def split: option.splits)
qed

lemma object_commit_ok:
  assumes "objects_inv s" and "isTenantId t"
  shows "objects_inv (snd (object_commit t input now s))"
  using assms transition_ok [OF assms]
  by (auto simp: object_commit_def objects_ok_requireD split: sum.splits)

lemma markDeletePending_ok:
  assumes "objects_inv s" and "isTenantId t"
  shows "objects_inv (snd (markDeletePending t h now s))"
  using assms transition_ok [OF assms] objects_ok_entry(5) [OF assms]
  by (auto simp: markDeletePending_def objects_ok_requireD split: sum.splits)

lemma markDeleted_ok:
  assumes "objects_inv s" and "isTenantId t"
  shows "objects_inv (snd (markDeleted t h now s))"
proof (cases "object_get t h s")
  case None
  then show ?thesis using assms by (simp add: markDeleted_def object_require_def)
next
  case (Some e)
  have "ref_count t h s = 0" if "isLegalObjectTransition (oe_state e) Deleted"
    using that objects_ok_entry(4) [OF assms Some] by (cases "oe_state e") (auto simp: isLegalObjectTransition_def)
  then show ?thesis
    using assms Some transition_ok [OF assms Some, of Deleted now]
    by (cases "isLegalObjectTransition (oe_state e) Deleted")
      (auto simp: markDeleted_def object_require_def, simp add: transition_def)
qed

text \<open>A change of the references alone, seen from the manifest.\<close>

lemma objects_ok_refs:
  assumes "objects_inv s" and "jmap_ok refs"
    and refs: "\<And>k r. jget refs k = Some r \<Longrightarrow> isTenantId (or_tenantId r) \<and> isContentHash (or_hash r) \<and>
      k = tenantKey (or_tenantId r) [or_hash r, or_refKind r, or_refId r] \<and> object_get (or_tenantId r) (or_hash r) s \<noteq> None"
    and same: "\<And>t h. isTenantId t \<Longrightarrow> isContentHash h \<Longrightarrow> (t, h) \<notin> X \<Longrightarrow>
      ref_count t h (s\<lparr>ob_references := refs\<rparr>) = ref_count t h s"
    and zero: "\<And>t h e. (t, h) \<in> X \<Longrightarrow> object_get t h s = Some e \<Longrightarrow> oe_state e \<noteq> ObjCommitted \<Longrightarrow>
      ref_count t h (s\<lparr>ob_references := refs\<rparr>) = 0"
  shows "objects_ok X (s\<lparr>ob_references := refs\<rparr>)"
proof -
  note old = objects_ok_row [OF assms(1)]
  have g: "object_get t h (s\<lparr>ob_references := refs\<rparr>) = object_get t h s" for t h by (simp add: object_get_def)
  have "oe_state e \<noteq> ObjCommitted \<longrightarrow> ref_count (oe_tenantId e) (oe_hash e) (s\<lparr>ob_references := refs\<rparr>) = 0"
    "entry_key e \<notin> X \<longrightarrow> oe_refCount e = ref_count (oe_tenantId e) (oe_hash e) (s\<lparr>ob_references := refs\<rparr>)"
    if "jget (ob_manifest s) k = Some e" for k e
  proof -
    note O = old [OF that]
    have "object_get (oe_tenantId e) (oe_hash e) s = Some e" using O(3) that by (simp add: object_get_def)
    then show "oe_state e \<noteq> ObjCommitted \<longrightarrow> ref_count (oe_tenantId e) (oe_hash e) (s\<lparr>ob_references := refs\<rparr>) = 0"
      using O(4) same [OF O(1,2)] zero [of "oe_tenantId e" "oe_hash e" e]
      by (cases "(oe_tenantId e, oe_hash e) \<in> X") auto
    show "entry_key e \<notin> X \<longrightarrow> oe_refCount e = ref_count (oe_tenantId e) (oe_hash e) (s\<lparr>ob_references := refs\<rparr>)"
      using O(5) same [OF O(1,2)] by (simp add: entry_key_def)
  qed
  then show ?thesis
    using assms(1,2) old(1-3) refs unfolding objects_ok_def g by simp
qed

lemma ref_count_jset:
  assumes "objects_inv s" and "isTenantId t" "isContentHash h" "isTenantId u" "isContentHash h'"
    and "jget (ob_references s) (tenantKey u [h', k, i]) = None"
  shows "ref_count t h (s\<lparr>ob_references := jset (tenantKey u [h', k, i]) r (ob_references s)\<rparr>) =
    ref_count t h s + (if t = u \<and> h = h' then 1 else 0)"
  using assms by (simp add: ref_count_jsum jsum_jset objects_ok_def ref_row_def ref_prefix)

lemma ref_count_jdel:
  assumes "objects_inv s" and "isTenantId t" "isContentHash h" "isTenantId u" "isContentHash h'" and "t \<noteq> u \<or> h \<noteq> h'"
  shows "ref_count t h (s\<lparr>ob_references := jdel (tenantKey u [h', k, i]) (ob_references s)\<rparr>) = ref_count t h s"
  using assms by (auto simp: ref_count_jsum jsum_jdel objects_ok_def ref_row_def ref_prefix split: option.splits)

lemma ref_count_less:
  assumes "jmap_ok (ob_references s)" and "set refs \<subseteq> set (ob_references s)" and "ref_count t h s = 0"
  shows "ref_count t h (s\<lparr>ob_references := refs\<rparr>) = 0"
  using assms by (auto simp: ref_count_def filter_empty_conv)

lemma addReference_ok:
  assumes "objects_inv s" and "isTenantId t"
  shows "objects_inv (snd (addReference t input now s))"
proof (cases "object_get t (ori_hash input) s")
  case None
  then show ?thesis using assms by (simp add: addReference_def object_require_def)
next
  case (Some e)
  note E = objects_ok_entry [OF assms Some]
  let ?k = "tenantKey t [ori_hash input, ori_refKind input, ori_refId input]"
  let ?r = "\<lparr>or_tenantId = t, or_hash = ori_hash input, or_refKind = ori_refKind input,
             or_refId = ori_refId input, or_createdAt = toISOString now\<rparr>"
  let ?s = "s\<lparr>ob_references := jset ?k ?r (ob_references s)\<rparr>"
  have g: "object_get t (ori_hash input) ?s = Some e" using Some by (simp add: object_get_def)
  have "objects_ok {(t, ori_hash input)} ?s" if "jget (ob_references s) ?k = None" "oe_state e = ObjCommitted"
  proof (rule objects_ok_refs [OF assms(1)])
    show "jmap_ok (jset ?k ?r (ob_references s))" using assms(1) by (simp add: objects_ok_def)
  next
    fix k r assume "jget (jset ?k ?r (ob_references s)) k = Some r"
    then show "isTenantId (or_tenantId r) \<and> isContentHash (or_hash r) \<and>
      k = tenantKey (or_tenantId r) [or_hash r, or_refKind r, or_refId r] \<and> object_get (or_tenantId r) (or_hash r) s \<noteq> None"
      using objects_ok_ref [OF assms(1)] E(3) Some assms(2) by (auto split: if_splits)
  next
    fix u h assume "isTenantId u" "isContentHash h" "(u, h) \<notin> {(t, ori_hash input)}"
    then show "ref_count u h ?s = ref_count u h s"
      using ref_count_jset [OF assms(1) _ _ assms(2) E(3) that(1)] by simp
  next
    fix u h e' assume "(u, h) \<in> {(t, ori_hash input)}" "object_get u h s = Some e'" "oe_state e' \<noteq> ObjCommitted"
    then show "ref_count u h ?s = 0" using Some that(2) by simp
  qed
  then have "objects_inv (snd (recount t e now ?s))" if "jget (ob_references s) ?k = None" "oe_state e = ObjCommitted"
    using recount_ok [OF _ assms(2) g, of "{(t, ori_hash input)}"] that by simp
  moreover have "objects_inv (snd (recount t e now s))"
    using recount_ok [OF assms Some] by simp
  ultimately show ?thesis
    using assms(1) Some by (auto simp: addReference_def object_require_def Let_def)
qed

lemma removeReference_ok:
  assumes "objects_inv s" and "isTenantId t"
  shows "objects_inv (snd (removeReference t input now s))"
proof (cases "object_get t (ori_hash input) s")
  case None
  then show ?thesis using assms by (simp add: removeReference_def object_require_def)
next
  case (Some e)
  note E = objects_ok_entry [OF assms Some]
  let ?k = "tenantKey t [ori_hash input, ori_refKind input, ori_refId input]"
  let ?s = "s\<lparr>ob_references := jdel ?k (ob_references s)\<rparr>"
  have g: "object_get t (ori_hash input) ?s = Some e" using Some by (simp add: object_get_def)
  have "objects_ok {(t, ori_hash input)} ?s"
  proof (rule objects_ok_refs [OF assms(1)])
    show "jmap_ok (jdel ?k (ob_references s))" using assms(1) by (simp add: objects_ok_def)
  next
    fix k r assume "jget (jdel ?k (ob_references s)) k = Some r"
    then show "isTenantId (or_tenantId r) \<and> isContentHash (or_hash r) \<and>
      k = tenantKey (or_tenantId r) [or_hash r, or_refKind r, or_refId r] \<and> object_get (or_tenantId r) (or_hash r) s \<noteq> None"
      using objects_ok_ref [OF assms(1)] by (auto split: if_splits)
  next
    fix u h assume "isTenantId u" "isContentHash h" "(u, h) \<notin> {(t, ori_hash input)}"
    then show "ref_count u h ?s = ref_count u h s"
      using ref_count_jdel [OF assms(1) _ _ assms(2) E(3)] by simp
  next
    fix u h e' assume "(u, h) \<in> {(t, ori_hash input)}" "object_get u h s = Some e'" "oe_state e' \<noteq> ObjCommitted"
    then show "ref_count u h ?s = 0"
      using Some E(4) assms(1) by (intro ref_count_less) (auto simp: objects_ok_def set_jdel)
  qed
  then have "objects_inv (snd (recount t e now ?s))"
    using recount_ok [OF _ assms(2) g, of "{(t, ori_hash input)}"] by simp
  then show ?thesis using Some by (simp add: removeReference_def object_require_def)
qed

lemma objects_ok_mono: "objects_ok X s \<Longrightarrow> X \<subseteq> Y \<Longrightarrow> objects_ok Y s"
  unfolding objects_ok_def by blast

lemma recount_hashes_ok:
  "objects_ok {(u, h). u = t \<and> h \<in> set hs} s \<Longrightarrow> isTenantId t \<Longrightarrow> (\<And>h. h \<in> set hs \<Longrightarrow> object_get t h s \<noteq> None) \<Longrightarrow>
     objects_inv (recount_hashes t now hs s)"
proof (induction hs arbitrary: s)
  case Nil
  have "{(u, h). u = t \<and> h \<in> set []} = ({} :: (tenant \<times> string) set)" by simp
  then show ?case using Nil.prems(1) by simp
next
  case (Cons h hs)
  obtain e where e: "object_get t h s = Some e" using Cons.prems(3) [of h] by auto
  let ?s = "snd (recount t e now s)"
  have "oe_hash e = h" by (rule objects_ok_entry(2) [OF Cons.prems(1,2) e])
  have "objects_ok ({(u, x). u = t \<and> x \<in> set (h # hs)} - {(t, h)}) ?s"
    by (rule recount_ok [OF Cons.prems(1,2) e])
  moreover have "{(u, x). u = t \<and> x \<in> set (h # hs)} - {(t, h)} \<subseteq> {(u, x). u = t \<and> x \<in> set hs}" by auto
  ultimately have "objects_ok {(u, x). u = t \<and> x \<in> set hs} ?s" by (rule objects_ok_mono)
  moreover have "object_get t x ?s \<noteq> None" if "x \<in> set hs" for x
    using Cons.prems(2,3) that by (auto simp: recount_def Let_def object_get_put)
  ultimately have "objects_inv (recount_hashes t now hs ?s)"
    using Cons.prems(2) by (intro Cons.IH)
  then show ?case by (simp add: e)
qed

lemma set_set_order [simp]: "set (set_order xs) = set xs"
  by (simp add: set_order_def)

lemma filter_subset_jget: "jmap_ok m \<Longrightarrow> jget (filter P m) k = Some r \<Longrightarrow> jget m k = Some r \<and> P (k, r)"
  by (auto simp: jget_Some_iff)

lemma releaseReferences_ok:
  assumes "objects_inv s" and "isTenantId t"
  shows "objects_inv (snd (releaseReferences t refKind refId now s))"
proof -
  let ?gone = "filter (\<lambda>(_, r). held_by t refKind refId r) (ob_references s)"
  let ?refs = "filter (\<lambda>(_, r). \<not> held_by t refKind refId r) (ob_references s)"
  let ?hs = "set_order (map (\<lambda>(_, r). or_hash r) ?gone)"
  let ?s = "s\<lparr>ob_references := ?refs\<rparr>"
  have ok: "jmap_ok (ob_references s)" using assms(1) by (simp add: objects_ok_def)
  have "objects_ok {(u, h). u = t \<and> h \<in> set ?hs} ?s"
  proof (rule objects_ok_refs [OF assms(1)])
    show "jmap_ok ?refs" using ok by simp
  next
    fix k r assume "jget ?refs k = Some r"
    then have "jget (ob_references s) k = Some r" using filter_subset_jget [OF ok] by blast
    then show "isTenantId (or_tenantId r) \<and> isContentHash (or_hash r) \<and>
      k = tenantKey (or_tenantId r) [or_hash r, or_refKind r, or_refId r] \<and> object_get (or_tenantId r) (or_hash r) s \<noteq> None"
      using objects_ok_ref [OF assms(1)] by blast
  next
    fix u h assume uh: "isTenantId u" "isContentHash h" "(u, h) \<notin> {(u, h). u = t \<and> h \<in> set ?hs}"
    have "\<not> held_by t refKind refId r" if "(k, r) \<in> set (ob_references s)" "prefix (tenantKey u [h, '''']) k" for k r
    proof
      assume held: "held_by t refKind refId r"
      have "jget (ob_references s) k = Some r" using that(1) ok by (simp add: jget_Some_iff)
      note R = objects_ok_ref [OF assms(1) this]
      have "u = or_tenantId r \<and> h = or_hash r" using that(2) unfolding R(3) ref_prefix [OF uh(1) R(1) uh(2) R(2)] .
      then have "u = t" "h \<in> set ?hs" using held that(1) by (force simp: held_by_def)+
      then show False using uh(3) by simp
    qed
    then have "filter (\<lambda>(key, _). prefix (tenantKey u [h, '''']) key) ?refs = filter (\<lambda>(key, _). prefix (tenantKey u [h, '''']) key) (ob_references s)"
      by (auto intro: filter_cong)
    then show "ref_count u h ?s = ref_count u h s" by (simp add: ref_count_def)
  next
    fix u h e assume "(u, h) \<in> {(u, h). u = t \<and> h \<in> set ?hs}" and e: "object_get u h s = Some e" "oe_state e \<noteq> ObjCommitted"
    then have "ref_count u h s = 0" using objects_ok_entry(4) [OF assms(1) _ e(1)] assms(2) by auto
    then show "ref_count u h ?s = 0" using ok by (intro ref_count_less) auto
  qed
  moreover have "object_get t h ?s \<noteq> None" if "h \<in> set ?hs" for h
  proof -
    obtain k r where r: "(k, r) \<in> set (ob_references s)" "held_by t refKind refId r" "h = or_hash r" using \<open>h \<in> set ?hs\<close> by auto
    then have "jget (ob_references s) k = Some r" using ok by (simp add: jget_Some_iff)
    from objects_ok_ref(4) [OF assms(1) this] r(2,3) show ?thesis by (simp add: object_get_def held_by_def)
  qed
  ultimately have "objects_inv (recount_hashes t now ?hs ?s)" using assms(2) by (intro recount_hashes_ok)
  then show ?thesis by (simp add: releaseReferences_def Let_def)
qed

section \<open>Collection keeps the counts and the ledger exact\<close>

text \<open>
  What collecting for tenant \<open>t\<close> may do: the invariants hold after it, it releases exactly the
  bytes it counts, and it leaves alone every object of another tenant and every object that has a
  reference or a reserved upload.
\<close>

definition gc_safe :: "tenant \<Rightarrow> int \<Rightarrow> storage_core \<Rightarrow> storage_core \<Rightarrow> bool" where
  "gc_safe t released = (\<lambda>(l, s) (l', s').
     ledger_inv l' \<and> objects_inv s' \<and> lg_reservations l' = lg_reservations l \<and> ob_references s' = ob_references s \<and>
     (\<forall>h. object_get t h s \<noteq> None \<longrightarrow> object_get t h s' \<noteq> None) \<and>
     (\<forall>u h. isTenantId u \<longrightarrow> u \<noteq> t \<or> ref_count u h s \<noteq> 0 \<or> hasReservedObject u h l \<longrightarrow> object_get u h s' = object_get u h s) \<and>
     (\<forall>u. used_bytes (usage_of u l') = used_bytes (usage_of u l) - (if u = t then released else 0)) \<and> 0 \<le> released)"

lemma hasReservedObject_cong: "lg_reservations l' = lg_reservations l \<Longrightarrow> hasReservedObject t h l' = hasReservedObject t h l"
  by (simp add: hasReservedObject_def)

lemma ref_count_cong: "ob_references s' = ob_references s \<Longrightarrow> ref_count t h s' = ref_count t h s"
  by (simp add: ref_count_def)

lemma gc_safe_refl: "ledger_inv l \<Longrightarrow> objects_inv s \<Longrightarrow> gc_safe t 0 (l, s) (l, s)"
  by (simp add: gc_safe_def)

lemma gc_safeD:
  assumes "gc_safe t r (l, s) (l', s')"
  shows "ledger_inv l'" "objects_inv s'" "lg_reservations l' = lg_reservations l" "ob_references s' = ob_references s"
    "object_get t h s \<noteq> None \<Longrightarrow> object_get t h s' \<noteq> None"
    "isTenantId u \<Longrightarrow> u \<noteq> t \<or> ref_count u h s \<noteq> 0 \<or> hasReservedObject u h l \<Longrightarrow> object_get u h s' = object_get u h s"
    "used_bytes (usage_of u l') = used_bytes (usage_of u l) - (if u = t then r else 0)" "0 \<le> r"
  using assms unfolding gc_safe_def split_conv by blast+

lemma gc_safe_trans:
  assumes "gc_safe t r (l, s) (l', s')" and "gc_safe t r' (l', s') (l'', s'')"
  shows "gc_safe t (r + r') (l, s) (l'', s'')"
proof -
  note A = gc_safeD [OF assms(1)] and B = gc_safeD [OF assms(2)]
  have c: "hasReservedObject u h l' = hasReservedObject u h l" "ref_count u h s' = ref_count u h s" for u h
    by (rule hasReservedObject_cong [OF A(3)], rule ref_count_cong [OF A(4)])
  show ?thesis
    unfolding gc_safe_def split_conv
  proof (intro conjI allI impI)
    show "ledger_inv l''" "objects_inv s''" "lg_reservations l'' = lg_reservations l" "ob_references s'' = ob_references s"
      by (rule B(1) B(2) trans [OF B(3) A(3)] trans [OF B(4) A(4)])+
    show "object_get t h s'' \<noteq> None" if "object_get t h s \<noteq> None" for h
      by (rule B(5) [OF A(5) [OF that]])
    show "object_get u h s'' = object_get u h s"
      if "isTenantId u" "u \<noteq> t \<or> ref_count u h s \<noteq> 0 \<or> hasReservedObject u h l" for u h
      by (rule trans [OF B(6) [OF that(1)] A(6) [OF that]]) (simp only: c that(2))
    show "used_bytes (usage_of u l'') = used_bytes (usage_of u l) - (if u = t then r + r' else 0)" for u
      using A(7) [of u] B(7) [of u] by simp
    show "0 \<le> r + r'" using A(8) B(8) by simp
  qed
qed

lemma gc_put:
  assumes "objects_inv s" and "isTenantId t" and "object_get t h s = Some e" and "ref_count t h s = 0"
    and "oe_tenantId e' = t" "oe_hash e' = h" "oe_refCount e' = 0"
  shows "objects_inv (put_entry t e' s)"
    and "isTenantId u \<Longrightarrow> object_get u k (put_entry t e' s) = (if u = t \<and> k = h then Some e' else object_get u k s)"
  using objects_ok_put [OF assms(1,2), of e'] objects_ok_entry(3) [OF assms(1-3)] assms object_get_put [OF _ assms(2)]
  by auto

lemma gc_one_safe:
  assumes "ledger_inv l" and "objects_inv s" and "isTenantId t" and "object_get t (oe_hash cand) s \<noteq> None"
  shows "\<exists>c' l' s'. gc_one deleteObject t input cand (c, l, s) = Inr (c', l', s') \<and>
    gc_safe t (gc_releasedBytes c' - gc_releasedBytes c) (l, s) (l', s')"
proof -
  obtain e where e: "object_get t (oe_hash cand) s = Some e" using assms(4) by blast
  note E = objects_ok_entry [OF assms(2,3) e]
  show ?thesis
  proof (cases "collectable t input l e")
    case False
    then show ?thesis using e gc_safe_refl [OF assms(1,2)] by (simp add: gc_one_def)
  next
    case True
    define tomb where "tomb = (if oe_state e = DeletePending then e
        else e\<lparr>oe_state := DeletePending, oe_deletePendingAt := Some (ci_now input), oe_updatedAt := ci_now input\<rparr>)"
    define fin where "fin = tomb\<lparr>oe_state := Deleted, oe_updatedAt := ci_now input\<rparr>"
    have z: "ref_count t (oe_hash cand) s = 0" "oe_refCount e = 0" "\<not> hasReservedObject t (oe_hash cand) l"
      using True E by (auto simp: collectable_def)
    have T: "oe_tenantId tomb = t" "oe_hash tomb = oe_hash cand" "oe_refCount tomb = 0"
      "oe_tenantId fin = t" "oe_hash fin = oe_hash cand" "oe_refCount fin = 0"
      using E z by (simp_all add: tomb_def fin_def)
    note P = gc_put [OF assms(2,3) e z(1) T(1-3)]
    have g: "object_get t (oe_hash cand) (put_entry t tomb s) = Some tomb" using P(2) [OF assms(3)] by simp
    note Q = gc_put [OF P(1) assms(3) g _ T(4-6)]
    have failed: "gc_safe t 0 (l, s) (l, put_entry t tomb s)"
      using assms(1,3) P z by (auto simp: gc_safe_def)
    show ?thesis
    proof (cases "prepareCollectedObjectRelease t (oe_hash e) (oe_byteSize e) (ci_now input) l :: (unit, int \<times> storage_ledger) result")
      case (Inl err)
      then show ?thesis using e True failed by (auto simp: gc_one_def Let_def tomb_def)
    next
      case (Inr p)
      obtain released l' where p: "p = (released, l')" by (cases p)
      note L = prepare_inv [OF Inr [unfolded p] assms(1,3)]
      show ?thesis
      proof (cases "deleteObject t (oe_hash e)")
        case (Some err)
        then show ?thesis using e True failed Inr by (auto simp: gc_one_def Let_def tomb_def p)
      next
        case None
        have "gc_safe t released (l, s) (l', put_entry t fin (put_entry t tomb s))"
          using L P Q z assms(3) by (auto simp: gc_safe_def)
        then show ?thesis using e True Inr None by (auto simp: gc_one_def Let_def tomb_def fin_def p)
      qed
    qed
  qed
qed

lemma gc_loop_safe:
  assumes "ledger_inv l" and "objects_inv s" and "isTenantId t" and "\<forall>cand \<in> set es. object_get t (oe_hash cand) s \<noteq> None"
  shows "\<exists>b c' l' s'. gc_loop deleteObject t input visited es (c, l, s) = (Inr b, c', l', s') \<and>
    gc_safe t (gc_releasedBytes c' - gc_releasedBytes c) (l, s) (l', s')"
  using assms
proof (induction es arbitrary: visited c l s)
  case Nil
  then show ?case using gc_safe_refl by auto
next
  case (Cons e es)
  show ?case
  proof (cases "visited = num_int (ci_limit input)")
    case True
    then show ?thesis using Cons.prems gc_safe_refl by auto
  next
    case False
    obtain c1 l1 s1 where one: "gc_one deleteObject t input e (c, l, s) = Inr (c1, l1, s1)"
      and safe: "gc_safe t (gc_releasedBytes c1 - gc_releasedBytes c) (l, s) (l1, s1)"
      using gc_one_safe [OF Cons.prems(1-3), of e deleteObject input c] Cons.prems(4) by auto
    have "\<forall>cand \<in> set es. object_get t (oe_hash cand) s1 \<noteq> None"
      using Cons.prems(4) safe by (simp add: gc_safe_def)
    then obtain b c2 l2 s2 where rest: "gc_loop deleteObject t input (visited + 1) es (c1, l1, s1) = (Inr b, c2, l2, s2)"
      and safe2: "gc_safe t (gc_releasedBytes c2 - gc_releasedBytes c1) (l1, s1) (l2, s2)"
      using Cons.IH [of l1 s1 "visited + 1" c1] safe Cons.prems(3) by (auto simp: gc_safe_def)
    have "gc_safe t (gc_releasedBytes c2 - gc_releasedBytes c) (l, s) (l2, s2)"
      using gc_safe_trans [OF safe safe2] by simp
    then show ?thesis using False one rest by simp
  qed
qed

lemma gc_candidates_exist:
  assumes "objects_inv s" and "gc_candidates lc t input l s = (first, fresh, wrapped, left)"
  shows "\<forall>cand \<in> set (first @ fresh @ wrapped). object_get t (oe_hash cand) s \<noteq> None"
proof -
  have sub: "set (first @ fresh @ wrapped) \<subseteq> set (filter (collectable t input l) (jvals (ob_manifest s)))"
    using assms(2) unfolding gc_candidates_def Let_def prod.inject set_append
    by (intro Un_least subsetI) (elim conjE; hypsubst; drule set_slice0; simp)+
  have "object_get t (oe_hash e) s \<noteq> None" if e: "e \<in> set (jvals (ob_manifest s))" "oe_tenantId e = t" for e
  proof -
    have "e \<in> snd ` set (ob_manifest s)" using e(1) by (simp add: jvals_def)
    then obtain k where "(k, e) \<in> set (ob_manifest s)" by force
    then have g: "jget (ob_manifest s) k = Some e" using assms(1) by (simp add: objects_ok_def jget_Some_iff)
    then show ?thesis using objects_ok_row(3) [OF assms(1) g] e(2) by (simp add: object_get_def)
  qed
  moreover have "cand \<in> set (jvals (ob_manifest s)) \<and> oe_tenantId cand = t" if "cand \<in> set (first @ fresh @ wrapped)" for cand
    using subsetD [OF sub that] by (simp add: collectable_def)
  ultimately show ?thesis by blast
qed

lemma gc_safe_cursor: "gc_safe t r x (l, s\<lparr>ob_deleteCursor := m\<rparr>) = gc_safe t r x (l, s)"
  by (cases x) (simp add: gc_safe_def objects_ok_def object_get_def ref_count_def)

lemma object_collect_safe:
  assumes "ledger_inv l" and "objects_inv s" and "isTenantId t"
    and "object_collectExpired lc deleteObject t input (l, s) = (res, l', s')"
  shows "\<exists>released. gc_safe t released (l, s) (l', s') \<and> (\<forall>r. res = Inr r \<longrightarrow> cc_releasedBytes r = released)"
proof -
  obtain first fresh wrapped left where C: "gc_candidates lc t input l s = (first, fresh, wrapped, left)"
    by (cases "gc_candidates lc t input l s")
  let ?c0 = "\<lparr>gc_removed = 0, gc_releasedBytes = 0, gc_failures = 0\<rparr>"
  obtain b c1 l1 s1 where L: "gc_loop deleteObject t input 0 (first @ fresh @ wrapped) (?c0, l, s) = (Inr b, c1, l1, s1)"
    and safe: "gc_safe t (gc_releasedBytes c1) (l, s) (l1, s1)"
    using gc_loop_safe [OF assms(1-3) gc_candidates_exist [OF assms(2) C], of deleteObject input 0 ?c0] by auto
  have idle: "gc_safe t 0 (l, s) (l, s)" by (rule gc_safe_refl [OF assms(1,2)])
  note D = assms(4) [unfolded object_collectExpired_def split_conv]
  show ?thesis
  proof (cases "assertCollectExpiredInput input :: ('a, unit) result")
    case (Inl err)
    then show ?thesis using D idle by auto
  next
    case (Inr x)
    note ok = Inr
    show ?thesis
    proof (cases "assertCanonicalTimestamp (og_orphanBefore input) :: ('a, string) result")
      case (Inl err)
      then show ?thesis using D idle ok by auto
    next
      case (Inr v)
      then show ?thesis using D safe ok by (auto simp: C L Let_def gc_safe_cursor split: if_splits)
    qed
  qed
qed

end
