(* ===== verification/Quota.thy ===== *)
theory Quota
  imports Objects
begin

text \<open>
  Storage quota (\<open>packages/core/src/quota.ts\<close>, \<open>in-memory/quota.ts\<close>): versioned entitlements,
  reservations that hold bytes before an upload, their settlement, the write posture and the
  bounded expiry of abandoned holds, over the shared ledger and the object manifest. The second
  part proves that the usage row is exact and that the hard limit holds along every history.
\<close>

record tenant_storage_entitlement =
  te_tenantId :: tenant
  te_version :: int
  te_hardLimitBytes :: int
  te_maxObjectBytes :: int
  te_maxInlineBytes :: int
  te_mailboxLimitBytes :: int
  te_retentionPolicyId :: string
  te_downgradeGraceUntil :: "string option"

record entitlement_input =
  ei_version :: int
  ei_hardLimitBytes :: int
  ei_maxObjectBytes :: int
  ei_maxInlineBytes :: int
  ei_mailboxLimitBytes :: int
  ei_retentionPolicyId :: string
  ei_downgradeGraceUntil :: "string option"

record reservation_input =
  ri_reservationId :: string
  ri_kind :: storage_write_kind
  ri_expectedBytes :: int
  ri_contentHash :: string
  ri_contentType :: string
  ri_ttlMs :: jsnum

record finalize_input =
  fi_reservationId :: string
  fi_observedByteSize :: int
  fi_observedContentType :: string

record finalize_result =
  fr_reservation :: storage_reservation
  fr_usage :: tenant_storage_usage
  fr_deduplicated :: bool

datatype write_posture = Normal | Warning | Blocked | Suspended

record storage_status =
  ss_entitlement :: tenant_storage_entitlement
  ss_usage :: tenant_storage_usage
  ss_posture :: write_posture
  ss_availableBytes :: int
  ss_graceActive :: bool

record quota_collect_input = collect_expired_input +
  qc_settledBefore :: string

record storage_state =
  st_entitlements :: "tenant_storage_entitlement jmap"
  st_ledger :: storage_ledger
  st_objects :: object_store

type_synonym quota_error = "tenant_storage_entitlement core_error"
type_synonym 'a quota_outcome = "(quota_error + 'a) \<times> storage_state"

definition empty_storage :: storage_state where
  "empty_storage = \<lparr>st_entitlements = [], st_ledger = empty_ledger, st_objects = empty_objects\<rparr>"

definition WARNING_NUMERATOR :: int where "WARNING_NUMERATOR = 80"
definition WARNING_DENOMINATOR :: int where "WARNING_DENOMINATOR = 100"

text \<open>The five wire-stable storage errors and their HTTP status.\<close>

fun STORAGE_ERROR_HTTP_STATUS :: "core_error_code \<Rightarrow> int option" where
  "STORAGE_ERROR_HTTP_STATUS Storage_object_too_large = Some 413"
| "STORAGE_ERROR_HTTP_STATUS Storage_quota_exceeded = Some 507"
| "STORAGE_ERROR_HTTP_STATUS Storage_reservation_expired = Some 409"
| "STORAGE_ERROR_HTTP_STATUS Storage_integrity_mismatch = Some 422"
| "STORAGE_ERROR_HTTP_STATUS Storage_write_suspended = Some 423"
| "STORAGE_ERROR_HTTP_STATUS _ = None"

section \<open>Entitlements and status\<close>

definition readEntitlement :: "tenant \<Rightarrow> storage_state \<Rightarrow> tenant_storage_entitlement option" where
  "readEntitlement t s = jget (st_entitlements s) t"

definition writeEntitlement :: "tenant \<Rightarrow> entitlement_input \<Rightarrow> int \<Rightarrow> storage_state \<Rightarrow> tenant_storage_entitlement quota_outcome" where
  "writeEntitlement t input now s =
     (case (case ei_downgradeGraceUntil input of None \<Rightarrow> Inr [] | Some v \<Rightarrow> assertCanonicalTimestamp v) of
        Inl e \<Rightarrow> (Inl e, s)
      | Inr _ \<Rightarrow>
          let entitlement = \<lparr>te_tenantId = t, te_version = ei_version input, te_hardLimitBytes = ei_hardLimitBytes input,
                te_maxObjectBytes = ei_maxObjectBytes input, te_maxInlineBytes = ei_maxInlineBytes input,
                te_mailboxLimitBytes = ei_mailboxLimitBytes input, te_retentionPolicyId = ei_retentionPolicyId input,
                te_downgradeGraceUntil = ei_downgradeGraceUntil input\<rparr>;
              stored = (Inr entitlement, s\<lparr>st_entitlements := jset t entitlement (st_entitlements s)\<rparr>)
          in case readEntitlement t s of
               None \<Rightarrow> stored
             | Some existing \<Rightarrow>
                 if ei_version input \<le> te_version existing
                 then (Inl (CoreConflictError Storage_entitlement_version_conflict existing (toISOString now)), s)
                 else stored)"

definition quota_readUsage :: "tenant \<Rightarrow> int \<Rightarrow> storage_state \<Rightarrow> tenant_storage_usage \<times> storage_state" where
  "quota_readUsage t now s =
     (case ledger_readUsage t now (st_ledger s) of (u, l) \<Rightarrow> (u, s\<lparr>st_ledger := l\<rparr>))"

definition setUsage :: "tenant \<Rightarrow> tenant_storage_usage \<Rightarrow> int \<Rightarrow> storage_state \<Rightarrow> storage_state" where
  "setUsage t u now s = s\<lparr>st_ledger := writeUsage t (u\<lparr>tu_updatedAt := toISOString now\<rparr>) (st_ledger s)\<rparr>"

definition posture :: "tenant_storage_entitlement \<Rightarrow> tenant_storage_usage \<Rightarrow> bool \<Rightarrow> write_posture" where
  "posture ent u graceActive =
     (if used_bytes u \<ge> te_hardLimitBytes ent
      then if te_downgradeGraceUntil ent \<noteq> None \<and> \<not> graceActive then Suspended else Blocked
      else if te_hardLimitBytes ent > 0 \<and>
              used_bytes u * WARNING_DENOMINATOR \<ge> te_hardLimitBytes ent * WARNING_NUMERATOR
      then Warning else Normal)"

definition grace_active :: "tenant_storage_entitlement \<Rightarrow> int \<Rightarrow> bool" where
  "grace_active ent now = (case te_downgradeGraceUntil ent of None \<Rightarrow> False | Some v \<Rightarrow> toISOString now < v)"

definition requireEntitlement :: "tenant \<Rightarrow> storage_state \<Rightarrow> quota_error + tenant_storage_entitlement" where
  "requireEntitlement t s =
     (case readEntitlement t s of
        None \<Rightarrow> Inl (ByokCoreError Storage_entitlement_missing)
      | Some ent \<Rightarrow> Inr ent)"

definition readStatus :: "tenant \<Rightarrow> int \<Rightarrow> storage_state \<Rightarrow> storage_status quota_outcome" where
  "readStatus t now s =
     (case requireEntitlement t s of
        Inl e \<Rightarrow> (Inl e, s)
      | Inr ent \<Rightarrow>
          (case quota_readUsage t now s of (u, s') \<Rightarrow>
             (Inr \<lparr>ss_entitlement = ent, ss_usage = u, ss_posture = posture ent u (grace_active ent now),
                   ss_availableBytes = (if used_bytes u \<ge> te_hardLimitBytes ent then 0 else te_hardLimitBytes ent - used_bytes u),
                   ss_graceActive = grace_active ent now\<rparr>, s')))"

section \<open>Reservations\<close>

definition readReservation :: "tenant \<Rightarrow> string \<Rightarrow> storage_state \<Rightarrow> storage_reservation option" where
  "readReservation t rid s = map_option rr_reservation (readReservation_row (tenantKey t [rid]) (st_ledger s))"

definition requireReservation :: "tenant \<Rightarrow> string \<Rightarrow> storage_state \<Rightarrow> quota_error + reservation_record" where
  "requireReservation t rid s =
     (case readReservation_row (tenantKey t [rid]) (st_ledger s) of
        None \<Rightarrow> Inl (ByokCoreError Storage_reservation_not_found)
      | Some rec \<Rightarrow> Inr rec)"

text \<open>\<open>#settle\<close>: the row is moved out of \<open>reserved\<close> and its hold is released.\<close>

definition settle ::
  "tenant \<Rightarrow> string \<Rightarrow> reservation_record \<Rightarrow> storage_reservation_state \<Rightarrow> bool \<Rightarrow> string \<Rightarrow> int \<Rightarrow> storage_state \<Rightarrow>
   storage_reservation quota_outcome" where
  "settle t key rec state deduplicated settledAt now s =
     (let settled = (rr_reservation rec)\<lparr>sr_state := state, sr_settledAt := Some settledAt\<rparr>
      in case quota_readUsage t now s of (usage, s') \<Rightarrow>
           if tu_reservedBytes usage < sr_expectedBytes (rr_reservation rec)
           then (Inl (ByokCoreError Storage_integrity_mismatch), s')
           else (Inr settled,
             setUsage t (usage\<lparr>tu_reservedBytes := tu_reservedBytes usage - sr_expectedBytes (rr_reservation rec)\<rparr>) now
               (s'\<lparr>st_ledger := writeReservation key \<lparr>rr_reservation = settled, rr_deduplicated = deduplicated\<rparr> (st_ledger s')\<rparr>)))"

text \<open>
  \<open>#expireReservations\<close>: the rows of the iterated \<open>Map\<close> in order; settling one rewrites its own
  row only, so the rows still to visit are the ones of the start. The loop stops after \<open>limit\<close>
  settlements, or at a settlement that throws.
\<close>

fun expire_rows ::
  "tenant \<Rightarrow> string \<Rightarrow> int \<Rightarrow> int \<Rightarrow> int \<Rightarrow> int \<Rightarrow> reservation_record jmap \<Rightarrow> storage_state \<Rightarrow>
   quota_error option \<times> int \<times> int \<times> storage_state" where
  "expire_rows t cutoff now limit expired bytes [] s = (None, expired, bytes, s)"
| "expire_rows t cutoff now limit expired bytes ((key, rec) # rows) s =
     (if \<not> in_tenant t key \<or> sr_state (rr_reservation rec) \<noteq> Reserved \<or> cutoff < sr_expiresAt (rr_reservation rec)
      then expire_rows t cutoff now limit expired bytes rows s
      else case settle t key rec ReservationExpired False cutoff now s of
             (Inl e, s') \<Rightarrow> (Some e, expired, bytes, s')
           | (Inr r, s') \<Rightarrow>
               if expired + 1 = limit then (None, expired + 1, bytes + sr_expectedBytes r, s')
               else expire_rows t cutoff now limit (expired + 1) (bytes + sr_expectedBytes r) rows s')"

definition expireReservations ::
  "tenant \<Rightarrow> string \<Rightarrow> int \<Rightarrow> int \<Rightarrow> storage_state \<Rightarrow> quota_error option \<times> int \<times> int \<times> storage_state" where
  "expireReservations t cutoff now limit s = expire_rows t cutoff now limit 0 0 (lg_reservations (st_ledger s)) s"

text \<open>From the lookup of the reservation on there is no suspension in \<open>reserve\<close>.\<close>

definition reserve_admit ::
  "tenant \<Rightarrow> tenant_storage_entitlement \<Rightarrow> reservation_input \<Rightarrow> int \<Rightarrow> storage_state \<Rightarrow> storage_reservation quota_outcome" where
  "reserve_admit t ent input now s =
     (case readReservation_row (tenantKey t [ri_reservationId input]) (st_ledger s) of
        Some existing \<Rightarrow>
          (let r = rr_reservation existing
           in if sr_state r = Reserved
              then if sr_kind r \<noteq> ri_kind input \<or> sr_expectedBytes r \<noteq> ri_expectedBytes input \<or>
                      sr_contentHash r \<noteq> ri_contentHash input \<or> sr_contentType r \<noteq> ri_contentType input
                   then (Inl (ByokCoreError Storage_integrity_mismatch), s)
                   else (Inr r, s)
              else (Inl (ByokCoreError Storage_reservation_expired), s))
      | None \<Rightarrow>
          (case quota_readUsage t now s of (usage, s') \<Rightarrow>
             if posture ent usage (grace_active ent now) = Suspended
             then (Inl (ByokCoreError Storage_write_suspended), s')
             else if ri_expectedBytes input > (if ri_kind input = ObjectKind then te_maxObjectBytes ent else te_maxInlineBytes ent)
             then (Inl (ByokCoreError Storage_object_too_large), s')
             else if used_bytes usage + ri_expectedBytes input > te_hardLimitBytes ent
             then (Inl (ByokCoreError Storage_quota_exceeded), s')
             else (case date_after now (ri_ttlMs input) of
                     Inl e \<Rightarrow> (Inl e, s')
                   | Inr expiresAt \<Rightarrow>
                       let r = \<lparr>sr_tenantId = t, sr_reservationId = ri_reservationId input, sr_state = Reserved,
                                sr_kind = ri_kind input, sr_expectedBytes = ri_expectedBytes input,
                                sr_contentHash = ri_contentHash input, sr_contentType = ri_contentType input,
                                sr_createdAt = toISOString now, sr_expiresAt = expiresAt, sr_settledAt = None\<rparr>
                       in (Inr r,
                           setUsage t (usage\<lparr>tu_reservedBytes := tu_reservedBytes usage + ri_expectedBytes input\<rparr>) now
                             (s'\<lparr>st_ledger := writeReservation (tenantKey t [ri_reservationId input])
                                    \<lparr>rr_reservation = r, rr_deduplicated = False\<rparr> (st_ledger s')\<rparr>)))))"

definition reserve :: "tenant \<Rightarrow> reservation_input \<Rightarrow> int \<Rightarrow> storage_state \<Rightarrow> storage_reservation quota_outcome" where
  "reserve t input now s =
     (case requireEntitlement t s of
        Inl e \<Rightarrow> (Inl e, s)
      | Inr ent \<Rightarrow>
          (case expireReservations t (toISOString now) now MAX_SAFE_INTEGER s of
             (Some e, _, _, s') \<Rightarrow> (Inl e, s')
           | (None, _, _, s') \<Rightarrow> reserve_admit t ent input now s'))"

definition abortReservation :: "tenant \<Rightarrow> string \<Rightarrow> int \<Rightarrow> storage_state \<Rightarrow> storage_reservation quota_outcome" where
  "abortReservation t rid now s =
     (case requireReservation t rid s of
        Inl e \<Rightarrow> (Inl e, s)
      | Inr rec \<Rightarrow>
          if sr_state (rr_reservation rec) \<noteq> Reserved then (Inr (rr_reservation rec), s)
          else settle t (tenantKey t [rid]) rec Aborted False (toISOString now) now s)"

section \<open>Finalize\<close>

text \<open>
  \<open>finalizeReservation\<close> suspends once, on \<open>await objects.commit\<close> of an object reservation. The
  part up to there ends in an answer or captures the record; the rest runs after the commit's
  outcome is known.
\<close>

datatype finalize_progress =
    FinalizeDone "quota_error + finalize_result"
  | FinalizeCapture reservation_record

definition finalize_begin :: "tenant \<Rightarrow> finalize_input \<Rightarrow> int \<Rightarrow> storage_state \<Rightarrow> finalize_progress \<times> storage_state" where
  "finalize_begin t input now s =
     (case requireReservation t (fi_reservationId input) s of
        Inl e \<Rightarrow> (FinalizeDone (Inl e), s)
      | Inr rec \<Rightarrow>
          let r = rr_reservation rec; key = tenantKey t [fi_reservationId input]
          in if sr_state r = Committed
             then (case quota_readUsage t now s of (u, s') \<Rightarrow>
                     (FinalizeDone (Inr \<lparr>fr_reservation = r, fr_usage = u, fr_deduplicated = rr_deduplicated rec\<rparr>), s'))
             else if sr_state r \<noteq> Reserved then (FinalizeDone (Inl (ByokCoreError Storage_reservation_expired)), s)
             else if toISOString now \<ge> sr_expiresAt r
             then (case settle t key rec ReservationExpired False (toISOString now) now s of
                     (Inl e, s') \<Rightarrow> (FinalizeDone (Inl e), s')
                   | (Inr _, s') \<Rightarrow> (FinalizeDone (Inl (ByokCoreError Storage_reservation_expired)), s'))
             else if fi_observedByteSize input \<noteq> sr_expectedBytes r \<or> fi_observedContentType input \<noteq> sr_contentType r
             then (case settle t key rec Aborted False (toISOString now) now s of
                     (Inl e, s') \<Rightarrow> (FinalizeDone (Inl e), s')
                   | (Inr _, s') \<Rightarrow> (FinalizeDone (Inl (ByokCoreError Storage_integrity_mismatch)), s'))
             else (FinalizeCapture rec, s))"

text \<open>\<open>objects.commit\<close> runs synchronously when it is called; its outcome reaches the caller later.\<close>

definition finalize_objects ::
  "tenant \<Rightarrow> finalize_input \<Rightarrow> reservation_record \<Rightarrow> int \<Rightarrow> storage_state \<Rightarrow> quota_error option \<times> storage_state" where
  "finalize_objects t input rec now s =
     (if sr_kind (rr_reservation rec) = ObjectKind
      then (case object_commit t \<lparr>oc_hash = sr_contentHash (rr_reservation rec), oc_observedByteSize = fi_observedByteSize input,
                   oc_observedContentType = fi_observedContentType input\<rparr> now (st_objects s) of
              (Inl e, ob) \<Rightarrow> (Some e, s\<lparr>st_objects := ob\<rparr>)
            | (Inr _, ob) \<Rightarrow> (None, s\<lparr>st_objects := ob\<rparr>))
      else (None, s))"

text \<open>The error of the object store as the quota store rethrows it.\<close>

definition rethrow :: "quota_error \<Rightarrow> quota_error" where
  "rethrow e =
     (if error_code e = Some Object_not_found \<or> error_code e = Some Object_state_invalid
      then ByokCoreError Storage_integrity_mismatch else e)"

definition charge_usage :: "storage_reservation \<Rightarrow> tenant_storage_usage \<Rightarrow> tenant_storage_usage" where
  "charge_usage r u =
     u\<lparr>tu_committedObjectBytes := (if sr_kind r = ObjectKind then tu_committedObjectBytes u + sr_expectedBytes r else tu_committedObjectBytes u),
       tu_committedInlineBytes := (if sr_kind r = InlineKind then tu_committedInlineBytes u + sr_expectedBytes r else tu_committedInlineBytes u),
       tu_objectCount := (if sr_kind r = ObjectKind then tu_objectCount u + 1 else tu_objectCount u)\<rparr>"

definition finalize_resume ::
  "tenant \<Rightarrow> finalize_input \<Rightarrow> reservation_record \<Rightarrow> quota_error option \<Rightarrow> int \<Rightarrow> storage_state \<Rightarrow> finalize_result quota_outcome" where
  "finalize_resume t input rec failure now s =
     (let r = rr_reservation rec; key = tenantKey t [fi_reservationId input]
      in case failure of
           Some e \<Rightarrow>
             (case settle t key rec Aborted False (toISOString now) now s of
                (Inl e', s') \<Rightarrow> (Inl e', s')
              | (Inr _, s') \<Rightarrow> (Inl (rethrow e), s'))
         | None \<Rightarrow>
             let deduplicated = isCounted t (sr_contentHash r) (st_ledger s)
             in case settle t key rec Committed deduplicated (toISOString now) now s of
                  (Inl e, s') \<Rightarrow> (Inl e, s')
                | (Inr settled, s') \<Rightarrow>
                    let s'' = (if deduplicated then s'
                               else let s1 = s'\<lparr>st_ledger := recordCommitted t r (st_ledger s')\<rparr>
                                    in case quota_readUsage t now s1 of (current, s2) \<Rightarrow> setUsage t (charge_usage r current) now s2)
                    in case quota_readUsage t now s'' of (u, s3) \<Rightarrow>
                         (Inr \<lparr>fr_reservation = settled, fr_usage = u, fr_deduplicated = deduplicated\<rparr>, s3))"

definition finalizeReservation :: "tenant \<Rightarrow> finalize_input \<Rightarrow> int \<Rightarrow> storage_state \<Rightarrow> finalize_result quota_outcome" where
  "finalizeReservation t input now s =
     (case finalize_begin t input now s of
        (FinalizeDone r, s') \<Rightarrow> (r, s')
      | (FinalizeCapture rec, s') \<Rightarrow>
          (case finalize_objects t input rec now s' of
             (failure, s'') \<Rightarrow> finalize_resume t input rec failure now s''))"

section \<open>Retention\<close>

definition removable :: "quota_collect_input \<Rightarrow> storage_reservation \<Rightarrow> bool" where
  "removable input r =
     ((sr_state r = ReservationExpired \<or> sr_state r = Aborted) \<and>
      (case sr_settledAt r of None \<Rightarrow> False | Some x \<Rightarrow> x < qc_settledBefore input))"

text \<open>The second loop: rows that have to wait set \<open>more\<close> and the loop goes on.\<close>

fun remove_rows ::
  "tenant \<Rightarrow> quota_collect_input \<Rightarrow> int \<Rightarrow> int \<Rightarrow> bool \<Rightarrow> reservation_record jmap \<Rightarrow> storage_ledger \<Rightarrow> int \<times> bool \<times> storage_ledger" where
  "remove_rows t input expired removed again [] l = (removed, again, l)"
| "remove_rows t input expired removed again ((key, rec) # rows) l =
     (let r = rr_reservation rec;
          shouldExpire = (sr_state r = Reserved \<and> sr_expiresAt r \<le> ci_now input)
      in if \<not> in_tenant t key \<or> (\<not> shouldExpire \<and> \<not> removable input r)
         then remove_rows t input expired removed again rows l
         else if shouldExpire \<or> removed + expired = num_int (ci_limit input)
         then remove_rows t input expired removed True rows l
         else remove_rows t input expired (removed + 1) again rows (deleteReservation key l))"

definition quota_collectExpired :: "tenant \<Rightarrow> quota_collect_input \<Rightarrow> int \<Rightarrow> storage_state \<Rightarrow> collect_expired_result quota_outcome" where
  "quota_collectExpired t input now s =
     (case assertCollectExpiredInput input of
        Inl e \<Rightarrow> (Inl e, s)
      | Inr _ \<Rightarrow>
     (case assertCanonicalTimestamp (qc_settledBefore input) of
        Inl e \<Rightarrow> (Inl e, s)
      | Inr _ \<Rightarrow>
     (case expireReservations t (ci_now input) now (num_int (ci_limit input)) s of
        (Some e, expired, bytes, s') \<Rightarrow>
          (Inl (CollectExpiredFailure \<lparr>cc_removed = 0, cc_expired = expired, cc_releasedBytes = bytes\<rparr> 1 (Some True)), s')
      | (None, expired, bytes, s') \<Rightarrow>
          (case remove_rows t input expired 0 False (lg_reservations (st_ledger s')) (st_ledger s') of
             (removed, again, l) \<Rightarrow>
               (Inr \<lparr>cc_removed = removed, cc_expired = expired, cc_releasedBytes = bytes, cr_more = again\<rparr>,
                s'\<lparr>st_ledger := l\<rparr>)))))"

section \<open>Settlement\<close>

definition storage_inv :: "storage_state \<Rightarrow> bool" where
  "storage_inv s = (ledger_inv (st_ledger s) \<and> objects_inv (st_objects s))"

definition used :: "tenant \<Rightarrow> storage_state \<Rightarrow> int" where
  "used t s = used_bytes (usage_of t (st_ledger s))"

lemma storage_inv_empty [simp]: "storage_inv empty_storage"
  by (simp add: storage_inv_def empty_storage_def)

lemma quota_read_eq:
  "quota_readUsage t now s = (fst (ledger_readUsage t now (st_ledger s)), s\<lparr>st_ledger := snd (ledger_readUsage t now (st_ledger s))\<rparr>)"
  by (simp add: quota_readUsage_def split_beta)

lemma used_read [simp]: "used u (snd (quota_readUsage t now s)) = used u s"
  by (simp add: used_def quota_read_eq used_bytes_def)

lemma storage_inv_read: "storage_inv s \<Longrightarrow> storage_inv (snd (quota_readUsage t now s))"
  by (simp add: storage_inv_def quota_read_eq ledger_inv_read)

lemma read_same [simp]:
  "st_entitlements (snd (quota_readUsage t now s)) = st_entitlements s" "st_objects (snd (quota_readUsage t now s)) = st_objects s"
  "lg_reservations (st_ledger (snd (quota_readUsage t now s))) = lg_reservations (st_ledger s)"
  by (simp_all add: quota_read_eq)

lemma writeReservation_same [simp]:
  "usage_of v (writeReservation k rec l) = usage_of v l" "charges v (writeReservation k rec l) = charges v l"
  "lg_reservations (writeReservation k rec l) = jset k rec (lg_reservations l)"
  by (simp_all add: writeReservation_def)

text \<open>A reservation row of tenant \<open>t\<close> is replaced and the tenant's reserved bytes move by \<open>delta\<close>.\<close>

lemma ledger_move:
  assumes "ledger_inv l" and "isTenantId t" and "0 \<le> sr_expectedBytes (rr_reservation rec)"
    and "sr_tenantId (rr_reservation rec) = t" and "sr_reservationId (rr_reservation rec) = rid"
    and u: "tu_reservedBytes u = tu_reservedBytes (usage_of t l) + delta"
      "tu_committedObjectBytes u = tu_committedObjectBytes (usage_of t l)"
      "tu_committedInlineBytes u = tu_committedInlineBytes (usage_of t l)" "tu_objectCount u = tu_objectCount (usage_of t l)"
    and delta: "delta = reserved_row t (tenantKey t [rid], rec) -
      (case jget (lg_reservations l) (tenantKey t [rid]) of None \<Rightarrow> 0 | Some rec0 \<Rightarrow> reserved_row t (tenantKey t [rid], rec0))"
  shows "ledger_inv (writeUsage t u (writeReservation (tenantKey t [rid]) rec l))"
    and "used_bytes (usage_of v (writeUsage t u (writeReservation (tenantKey t [rid]) rec l))) =
      used_bytes (usage_of v l) + (if v = t then delta else 0)"
proof -
  let ?l = "writeUsage t u (writeReservation (tenantKey t [rid]) rec l)"
  have rows: "ledger_rows_ok l" using assms(1) by (simp add: ledger_inv_def)
  note J = reserved_row_jset [OF rows assms(2), of _ rid rec]
  have us: "usage_of v ?l = (if v = t then u else usage_of v l)" for v by (simp add: writeReservation_def)
  have "balanced v ?l" if v: "isTenantId v" for v
  proof (cases "v = t")
    case True
    have "balanced t l" using assms(1,2) by (simp add: ledger_inv_def)
    then show ?thesis
      using u delta J [of t] unfolding True balanced_def us by (simp add: writeReservation_def del: tenantKey_one)
  next
    case False
    have "jsum (reserved_row v) (lg_reservations ?l) = jsum (reserved_row v) (lg_reservations l)"
      using J [of v] reserved_row_other [OF assms(2) v False] by (simp add: writeReservation_def del: tenantKey_one split: option.splits)
    then have "balanced v ?l = balanced v l"
      by (intro balanced_cong) (use False in \<open>simp_all add: writeReservation_def\<close>)
    then show ?thesis using assms(1) v by (simp add: ledger_inv_def)
  qed
  moreover have "ledger_rows_ok ?l"
    using rows assms(2-5) unfolding ledger_rows_ok_def by (auto simp: writeReservation_def)
  ultimately show "ledger_inv ?l" by (simp add: ledger_inv_def)
  show "used_bytes (usage_of v ?l) = used_bytes (usage_of v l) + (if v = t then delta else 0)"
    using u by (simp add: us used_bytes_def)
qed

text \<open>
  Settling a reserved row never underflows: it succeeds, frees exactly the row's hold and keeps
  the accounting exact.
\<close>

lemma settle_ok:
  assumes "storage_inv s" and "isTenantId t" and "jget (lg_reservations (st_ledger s)) (tenantKey t [rid]) = Some rec"
    and "sr_state (rr_reservation rec) = Reserved" and "state \<noteq> Reserved"
  shows "\<exists>s'. settle t (tenantKey t [rid]) rec state dedup settledAt now s =
      (Inr ((rr_reservation rec)\<lparr>sr_state := state, sr_settledAt := Some settledAt\<rparr>), s') \<and>
    storage_inv s' \<and> st_entitlements s' = st_entitlements s \<and> st_objects s' = st_objects s \<and>
    (\<forall>v. charges v (st_ledger s') = charges v (st_ledger s)) \<and>
    lg_reservations (st_ledger s') = jset (tenantKey t [rid])
      \<lparr>rr_reservation = (rr_reservation rec)\<lparr>sr_state := state, sr_settledAt := Some settledAt\<rparr>, rr_deduplicated = dedup\<rparr>
      (lg_reservations (st_ledger s)) \<and>
    (\<forall>v. used v s' = used v s - (if v = t then sr_expectedBytes (rr_reservation rec) else 0))"
proof -
  let ?l = "snd (ledger_readUsage t now (st_ledger s))" and ?u = "fst (ledger_readUsage t now (st_ledger s))"
  let ?r = "\<lparr>rr_reservation = (rr_reservation rec)\<lparr>sr_state := state, sr_settledAt := Some settledAt\<rparr>, rr_deduplicated = dedup\<rparr>"
  let ?u' = "?u\<lparr>tu_reservedBytes := tu_reservedBytes ?u - sr_expectedBytes (rr_reservation rec), tu_updatedAt := toISOString now\<rparr>"
  have L: "ledger_inv (st_ledger s)" using assms(1) by (simp add: storage_inv_def)
  note R = ledger_inv_row [OF L assms(2,3)]
  have cover: "sr_expectedBytes (rr_reservation rec) \<le> tu_reservedBytes (usage_of t (st_ledger s))"
    using reserved_bytes_cover [OF L assms(2) _ assms(3,4)] in_tenant_own [of "[rid]" t] by simp
  have row: "reserved_row t (tenantKey t [rid], ?r) = 0" "reserved_row t (tenantKey t [rid], rec) = sr_expectedBytes (rr_reservation rec)"
    using assms(4,5) in_tenant_own [of "[rid]" t] by (simp_all add: reserved_row_def)
  note M = ledger_move [OF ledger_inv_read [OF L, of t now] assms(2), of ?r rid ?u' "- sr_expectedBytes (rr_reservation rec)"]
  let ?L = "writeUsage t ?u' (writeReservation (tenantKey t [rid]) ?r ?l)"
  have A: "ledger_inv ?L"
    by (rule M(1)) (use R row assms(3) in \<open>simp_all del: tenantKey_one\<close>)
  have B: "used_bytes (usage_of v ?L) = used_bytes (usage_of v ?l) + (if v = t then - sr_expectedBytes (rr_reservation rec) else 0)" for v
    by (rule M(2)) (use R row assms(3) in \<open>simp_all del: tenantKey_one\<close>)
  have "used_bytes (usage_of v ?l) = used_bytes (usage_of v (st_ledger s))" for v by (simp add: used_bytes_def)
  with A B show ?thesis
    using assms(1) cover
    by (simp add: settle_def quota_read_eq setUsage_def storage_inv_def used_def Let_def del: tenantKey_one)
qed

lemma ledger_key:
  assumes "ledger_inv l" and "isTenantId t" and "in_tenant t key" and "jget (lg_reservations l) key = Some rec"
  shows "\<exists>rid. key = tenantKey t [rid]"
proof -
  have R: "isTenantId (sr_tenantId (rr_reservation rec))" "key = tenantKey (sr_tenantId (rr_reservation rec)) [sr_reservationId (rr_reservation rec)]"
    using assms(1,4) unfolding ledger_inv_def ledger_rows_ok_def by blast+
  then have "t = sr_tenantId (rr_reservation rec)" using assms(2,3) in_tenant_key [of t "sr_tenantId (rr_reservation rec)"] by simp
  with R(2) show ?thesis by blast
qed

text \<open>
  What a call of tenant \<open>t\<close> that only settles reservations does: the accounting stays exact and
  \<open>bytes\<close> of the tenant's holds are free again.
\<close>

definition settles :: "tenant \<Rightarrow> int \<Rightarrow> storage_state \<Rightarrow> storage_state \<Rightarrow> bool" where
  "settles t bytes s s' =
     (storage_inv s' \<and> st_entitlements s' = st_entitlements s \<and> st_objects s' = st_objects s \<and>
      (\<forall>v. charges v (st_ledger s') = charges v (st_ledger s)) \<and> 0 \<le> bytes \<and>
      (\<forall>v. used v s' = used v s - (if v = t then bytes else 0)))"

lemma settles_refl: "storage_inv s \<Longrightarrow> settles t 0 s s"
  by (simp add: settles_def)

lemma settles_trans: "settles t a s s' \<Longrightarrow> settles t b s' s'' \<Longrightarrow> settles t (a + b) s s''"
  by (auto simp: settles_def)

lemma settles_read: "storage_inv s \<Longrightarrow> settles t 0 s (snd (quota_readUsage t now s))"
  by (simp add: settles_def storage_inv_read) (simp add: quota_read_eq)

lemma settle_settles:
  assumes "storage_inv s" and "isTenantId t" and "jget (lg_reservations (st_ledger s)) (tenantKey t [rid]) = Some rec"
    and "sr_state (rr_reservation rec) = Reserved" and "state \<noteq> Reserved"
  obtains s' where "settle t (tenantKey t [rid]) rec state dedup settledAt now s =
      (Inr ((rr_reservation rec)\<lparr>sr_state := state, sr_settledAt := Some settledAt\<rparr>), s')"
    and "settles t (sr_expectedBytes (rr_reservation rec)) s s'"
    and "lg_reservations (st_ledger s') = jset (tenantKey t [rid])
      \<lparr>rr_reservation = (rr_reservation rec)\<lparr>sr_state := state, sr_settledAt := Some settledAt\<rparr>, rr_deduplicated = dedup\<rparr>
      (lg_reservations (st_ledger s))"
proof -
  have "0 \<le> sr_expectedBytes (rr_reservation rec)"
    using assms(1) ledger_inv_row(3) [OF _ assms(2,3)] by (simp add: storage_inv_def)
  with settle_ok [OF assms, of dedup settledAt now] that show thesis
    by (auto simp: settles_def simp del: tenantKey_one)
qed

lemma expire_rows_settles:
  assumes "storage_inv s" and "isTenantId t" and "distinct (map fst rows)"
    and "\<forall>(key, rec) \<in> set rows. jget (lg_reservations (st_ledger s)) key = Some rec"
  shows "\<exists>n b s'. expire_rows t cutoff now limit expired bytes rows s = (None, n, b, s') \<and> settles t (b - bytes) s s'"
  using assms
proof (induction rows arbitrary: expired bytes s)
  case Nil
  then show ?case by (simp add: settles_refl)
next
  case (Cons a rows)
  obtain key rec where a: "a = (key, rec)" by (cases a)
  show ?case
  proof (cases "\<not> in_tenant t key \<or> sr_state (rr_reservation rec) \<noteq> Reserved \<or> cutoff < sr_expiresAt (rr_reservation rec)")
    case True
    then show ?thesis using Cons.IH [OF Cons.prems(1,2)] Cons.prems(3,4) by (simp add: a)
  next
    case False
    have g: "jget (lg_reservations (st_ledger s)) key = Some rec" using Cons.prems(4) by (simp add: a)
    have L: "ledger_inv (st_ledger s)" using Cons.prems(1) by (simp add: storage_inv_def)
    obtain rid where rid: "key = tenantKey t [rid]" using ledger_key [OF L Cons.prems(2) _ g] False by blast
    obtain s1 where s1: "settle t (tenantKey t [rid]) rec ReservationExpired False cutoff now s =
        (Inr ((rr_reservation rec)\<lparr>sr_state := ReservationExpired, sr_settledAt := Some cutoff\<rparr>), s1)"
      and S: "settles t (sr_expectedBytes (rr_reservation rec)) s s1"
      and R: "lg_reservations (st_ledger s1) = jset (tenantKey t [rid])
        \<lparr>rr_reservation = (rr_reservation rec)\<lparr>sr_state := ReservationExpired, sr_settledAt := Some cutoff\<rparr>, rr_deduplicated = False\<rparr>
        (lg_reservations (st_ledger s))"
      using settle_settles [OF Cons.prems(1,2) g [unfolded rid], of ReservationExpired False cutoff now] False by auto
    have inv1: "storage_inv s1" using S by (simp add: settles_def)
    have "distinct (map fst rows)" "\<forall>(k, r) \<in> set rows. jget (lg_reservations (st_ledger s1)) k = Some r"
      using Cons.prems(3,4) rid unfolding R by (force simp: a simp del: tenantKey_one)+
    then obtain n b s2 where rest: "expire_rows t cutoff now limit (expired + 1) (bytes + sr_expectedBytes (rr_reservation rec)) rows s1 = (None, n, b, s2)"
      and S2: "settles t (b - (bytes + sr_expectedBytes (rr_reservation rec))) s1 s2"
      using Cons.IH [OF inv1 Cons.prems(2), of "expired + 1" "bytes + sr_expectedBytes (rr_reservation rec)"] by blast
    have "settles t (b - bytes) s s2" using settles_trans [OF S S2] by simp
    with False s1 S rest show ?thesis by (simp add: a rid del: tenantKey_one)
  qed
qed

lemma expireReservations_settles:
  assumes "storage_inv s" and "isTenantId t"
  obtains n b s' where "expireReservations t cutoff now limit s = (None, n, b, s')" and "settles t b s s'"
proof -
  have "jmap_ok (lg_reservations (st_ledger s))" using assms(1) by (simp add: storage_inv_def ledger_inv_def ledger_rows_ok_def)
  then have "distinct (map fst (lg_reservations (st_ledger s)))"
    "\<forall>(key, rec) \<in> set (lg_reservations (st_ledger s)). jget (lg_reservations (st_ledger s)) key = Some rec"
    by (auto simp: jget_Some_iff) (simp add: jmap_ok_def)
  from expire_rows_settles [OF assms this, of cutoff now limit 0 0] that show thesis
    by (auto simp: expireReservations_def)
qed

lemma remove_rows_settles:
  assumes "ledger_inv l" and "distinct (map fst rows)" and "\<forall>(key, rec) \<in> set rows. jget (lg_reservations l) key = Some rec"
    and "remove_rows t input expired removed again rows l = (n, b, l')"
  shows "ledger_inv l' \<and> (\<forall>v. usage_of v l' = usage_of v l \<and> charges v l' = charges v l)"
  using assms
proof (induction rows arbitrary: removed again l)
  case Nil
  then show ?case by simp
next
  case (Cons a rows)
  obtain key rec where a: "a = (key, rec)" by (cases a)
  let ?keep = "\<not> in_tenant t key \<or> \<not> (sr_state (rr_reservation rec) = Reserved \<and> sr_expiresAt (rr_reservation rec) \<le> ci_now input) \<and> \<not> removable input (rr_reservation rec)"
  let ?wait = "(sr_state (rr_reservation rec) = Reserved \<and> sr_expiresAt (rr_reservation rec) \<le> ci_now input) \<or> removed + expired = num_int (ci_limit input)"
  show ?case
  proof (cases "?keep \<or> ?wait")
    case True
    then obtain again' where "remove_rows t input expired removed again' rows l = (n, b, l')"
      using Cons.prems(4) by (auto simp: a Let_def split: if_splits)
    then show ?thesis using Cons.IH [OF Cons.prems(1)] Cons.prems(2,3) by (simp add: a)
  next
    case False
    let ?l = "deleteReservation key l"
    have g: "jget (lg_reservations l) key = Some rec" using Cons.prems(3) by (simp add: a)
    have st: "sr_state (rr_reservation rec) \<noteq> Reserved" using False by (auto simp: removable_def)
    have ok: "jmap_ok (lg_reservations l)" using Cons.prems(1) by (simp add: ledger_inv_def ledger_rows_ok_def)
    have same: "usage_of v ?l = usage_of v l" "charges v ?l = charges v l"
      "jsum (reserved_row v) (lg_reservations ?l) = jsum (reserved_row v) (lg_reservations l)" for v
      using g st ok by (simp_all add: deleteReservation_def jsum_jdel reserved_row_def)
    have "ledger_inv ?l"
      using Cons.prems(1) same unfolding ledger_inv_def balanced_def ledger_rows_ok_def
      by (auto simp: deleteReservation_def split: if_splits)
    moreover have "\<forall>(k, r) \<in> set rows. jget (lg_reservations ?l) k = Some r"
      using Cons.prems(2,3) by (force simp: a deleteReservation_def)
    moreover have "remove_rows t input expired (removed + 1) again rows ?l = (n, b, l')"
      using Cons.prems(4) False by (auto simp: a Let_def split: if_splits)
    ultimately show ?thesis using Cons.IH [of ?l "removed + 1" again] Cons.prems(2) same by (simp add: a)
  qed
qed

section \<open>Admission and commitment\<close>

text \<open>
  A call of tenant \<open>t\<close> changes the used bytes of \<open>t\<close> by \<open>delta\<close> and of nobody else, and keeps the
  accounting exact.
\<close>

definition books :: "tenant \<Rightarrow> int \<Rightarrow> storage_state \<Rightarrow> storage_state \<Rightarrow> bool" where
  "books t delta s s' =
     (storage_inv s' \<and> st_entitlements s' = st_entitlements s \<and> (\<forall>v. used v s' = used v s + (if v = t then delta else 0)))"

lemma settles_books: "settles t b s s' \<Longrightarrow> books t (- b) s s'"
  by (simp add: settles_def books_def)

lemma books_refl: "storage_inv s \<Longrightarrow> books t 0 s s"
  by (simp add: books_def)

lemma books_trans: "books t a s s' \<Longrightarrow> books t b s' s'' \<Longrightarrow> books t (a + b) s s''"
  by (auto simp: books_def)

lemma books_read: "storage_inv s \<Longrightarrow> books t 0 s (snd (quota_readUsage t now s))"
  by (simp add: books_def storage_inv_read)

lemma reserve_new_books:
  assumes "storage_inv s" and "isTenantId t" and "jget (lg_reservations (st_ledger s)) (tenantKey t [rid]) = None"
    and "sr_tenantId r = t" and "sr_reservationId r = rid" and "sr_state r = Reserved" and "0 \<le> sr_expectedBytes r"
    and "quota_readUsage t now s = (u, s0)"
  shows "books t (sr_expectedBytes r) s
    (setUsage t (u\<lparr>tu_reservedBytes := tu_reservedBytes u + sr_expectedBytes r\<rparr>) now
      (s0\<lparr>st_ledger := writeReservation (tenantKey t [rid]) \<lparr>rr_reservation = r, rr_deduplicated = False\<rparr> (st_ledger s0)\<rparr>))"
proof -
  let ?l = "snd (ledger_readUsage t now (st_ledger s))" and ?rec = "\<lparr>rr_reservation = r, rr_deduplicated = False\<rparr>"
  let ?u = "u\<lparr>tu_reservedBytes := tu_reservedBytes u + sr_expectedBytes r, tu_updatedAt := toISOString now\<rparr>"
  have L: "ledger_inv (st_ledger s)" using assms(1) by (simp add: storage_inv_def)
  have u: "u = fst (ledger_readUsage t now (st_ledger s))" "s0 = s\<lparr>st_ledger := ?l\<rparr>" using assms(8) by (simp_all add: quota_read_eq)
  have row: "reserved_row t (tenantKey t [rid], ?rec) = sr_expectedBytes r"
    using assms(6) in_tenant_own [of "[rid]" t] by (simp add: reserved_row_def)
  note M = ledger_move [OF ledger_inv_read [OF L, of t now] assms(2), of ?rec rid ?u "sr_expectedBytes r"]
  have A: "ledger_inv (writeUsage t ?u (writeReservation (tenantKey t [rid]) ?rec ?l))"
    by (rule M(1)) (use assms(3-7) row in \<open>simp_all add: u del: tenantKey_one\<close>)
  have B: "used_bytes (usage_of v (writeUsage t ?u (writeReservation (tenantKey t [rid]) ?rec ?l))) =
      used_bytes (usage_of v ?l) + (if v = t then sr_expectedBytes r else 0)" for v
    by (rule M(2)) (use assms(3-7) row in \<open>simp_all add: u del: tenantKey_one\<close>)
  have "used_bytes (usage_of v ?l) = used_bytes (usage_of v (st_ledger s))" for v by (simp add: used_bytes_def)
  with A B show ?thesis
    using assms(1) by (simp add: books_def storage_inv_def used_def setUsage_def u(2) del: tenantKey_one)
qed

lemma reserve_admit_books:
  assumes "storage_inv s" and "isTenantId t" and "0 \<le> ri_expectedBytes input"
  shows "\<exists>delta. books t delta s (snd (reserve_admit t ent input now s)) \<and>
    (delta \<le> 0 \<or> used t s + delta \<le> te_hardLimitBytes ent)"
proof (cases "readReservation_row (tenantKey t [ri_reservationId input]) (st_ledger s)")
  case (Some rec)
  then show ?thesis using books_refl [OF assms(1)] by (auto simp: reserve_admit_def Let_def intro!: exI [of _ 0])
next
  case None
  obtain u s0 where us: "quota_readUsage t now s = (u, s0)" by (cases "quota_readUsage t now s")
  have ub: "used_bytes u = used t s"
    using us by (auto simp: quota_read_eq used_def used_bytes_def)
  note R = books_read [OF assms(1), of t now, unfolded us snd_conv]
  define mk where "mk = (\<lambda>expiresAt. \<lparr>sr_tenantId = t, sr_reservationId = ri_reservationId input, sr_state = Reserved,
      sr_kind = ri_kind input, sr_expectedBytes = ri_expectedBytes input, sr_contentHash = ri_contentHash input,
      sr_contentType = ri_contentType input, sr_createdAt = toISOString now, sr_expiresAt = expiresAt, sr_settledAt = None\<rparr>)"
  define new where "new = (\<lambda>x. setUsage t (u\<lparr>tu_reservedBytes := tu_reservedBytes u + ri_expectedBytes input\<rparr>) now
        (s0\<lparr>st_ledger := writeReservation (tenantKey t [ri_reservationId input]) \<lparr>rr_reservation = mk x, rr_deduplicated = False\<rparr> (st_ledger s0)\<rparr>))"
  have N: "books t (ri_expectedBytes input) s (new x)" for x
    using reserve_new_books [OF assms(1,2) _ _ _ _ _ us, of "ri_reservationId input" "mk x"] None assms(3)
    by (simp add: readReservation_row_def mk_def new_def)
  have "snd (reserve_admit t ent input now s) = s0 \<or>
      used t s + ri_expectedBytes input \<le> te_hardLimitBytes ent \<and> (\<exists>x. snd (reserve_admit t ent input now s) = new x)"
    using None by (auto simp: reserve_admit_def us ub Let_def mk_def new_def simp del: tenantKey_one split: sum.splits)
  then show ?thesis
  proof (elim disjE conjE exE)
    assume "snd (reserve_admit t ent input now s) = s0"
    then show ?thesis using R by (intro exI [of _ 0]) simp
  next
    fix x assume "used t s + ri_expectedBytes input \<le> te_hardLimitBytes ent" "snd (reserve_admit t ent input now s) = new x"
    then show ?thesis using N [of x] by (intro exI [of _ "ri_expectedBytes input"]) simp
  qed
qed

lemma recordCommitted_books:
  assumes "storage_inv s" and "isTenantId t" and "0 \<le> sr_expectedBytes r" and "\<not> isCounted t (sr_contentHash r) (st_ledger s)"
    and "quota_readUsage t now (s\<lparr>st_ledger := recordCommitted t r (st_ledger s)\<rparr>) = (u, s0)"
  shows "books t (sr_expectedBytes r) s (setUsage t (charge_usage r u) now s0)"
proof -
  let ?l = "st_ledger s" and ?l' = "st_ledger (setUsage t (charge_usage r u) now s0)"
  let ?c = "jset (sr_contentHash r) (sr_kind r, sr_expectedBytes r) (charges t ?l)"
  have L: "ledger_inv ?l" using assms(1) by (simp add: storage_inv_def)
  have u: "tu_reservedBytes u = tu_reservedBytes (usage_of t ?l)" "tu_committedObjectBytes u = tu_committedObjectBytes (usage_of t ?l)"
      "tu_committedInlineBytes u = tu_committedInlineBytes (usage_of t ?l)" "tu_objectCount u = tu_objectCount (usage_of t ?l)"
    and s0: "st_entitlements s0 = st_entitlements s" "st_objects s0 = st_objects s" "lg_reservations (st_ledger s0) = lg_reservations ?l"
      "lg_committed (st_ledger s0) = jset t ?c (lg_committed ?l)" "\<And>v. v \<noteq> t \<Longrightarrow> usage_of v (st_ledger s0) = usage_of v ?l"
    using assms(5) by (auto simp: quota_read_eq recordCommitted_def)
  have ch: "charges v ?l' = (if v = t then ?c else charges v ?l)" for v
    using s0(4) by (simp add: setUsage_def charges_def writeUsage_def)
  have us: "usage_of v ?l' = (if v = t then (charge_usage r u)\<lparr>tu_updatedAt := toISOString now\<rparr> else usage_of v ?l)" for v
    using s0(5) by (simp add: setUsage_def)
  have rs: "lg_reservations ?l' = lg_reservations ?l" using s0(3) by (simp add: setUsage_def)
  have new: "jget (charges t ?l) (sr_contentHash r) = None" using assms(4) by (simp add: isCounted_def del: not_None_eq)
  have ok: "jmap_ok (charges t ?l)" using L by (simp add: ledger_inv_def ledger_rows_ok_def)
  have "balanced v ?l'" if v: "isTenantId v" for v
  proof -
    have "balanced v ?l" using L v by (simp add: ledger_inv_def)
    then show ?thesis
      using u new ok unfolding balanced_def us rs ch
      by (cases "v = t"; cases "sr_kind r") (simp_all add: jsum_jset charge_usage_def charge_bytes_def charge_count_def)
  qed
  moreover have "ledger_rows_ok ?l'"
    using L ok assms(3) unfolding ledger_inv_def ledger_rows_ok_def rs ch by (auto split: if_splits)
  ultimately have "ledger_inv ?l'" by (simp add: ledger_inv_def)
  moreover have "used_bytes (usage_of v ?l') = used_bytes (usage_of v ?l) + (if v = t then sr_expectedBytes r else 0)" for v
    using u unfolding us by (cases "sr_kind r") (simp_all add: used_bytes_def charge_usage_def)
  ultimately show ?thesis
    using assms(1) s0(1,2) by (simp add: books_def storage_inv_def used_def) (simp add: setUsage_def)
qed

lemma finalize_resume_books:
  assumes "storage_inv s" and "isTenantId t" and "jget (lg_reservations (st_ledger s)) (tenantKey t [fi_reservationId input]) = Some rec"
    and "sr_state (rr_reservation rec) = Reserved"
  shows "\<exists>delta \<le> 0. books t delta s (snd (finalize_resume t input rec failure now s))"
proof -
  let ?e = "sr_expectedBytes (rr_reservation rec)"
  let ?d = "isCounted t (sr_contentHash (rr_reservation rec)) (st_ledger s)"
  have e: "0 \<le> ?e" using ledger_inv_row(3) [OF _ assms(2,3)] assms(1) by (simp add: storage_inv_def)
  show ?thesis
  proof (cases failure)
    case (Some err)
    obtain s1 where "settle t (tenantKey t [fi_reservationId input]) rec Aborted False (toISOString now) now s =
        (Inr ((rr_reservation rec)\<lparr>sr_state := Aborted, sr_settledAt := Some (toISOString now)\<rparr>), s1)" "settles t ?e s s1"
      by (rule settle_settles [OF assms, of Aborted False "toISOString now" now]) auto
    moreover have "books t (- ?e) s s1" by (rule settles_books) fact
    ultimately show ?thesis
      using Some e by (intro exI [of _ "- ?e"]) (simp add: finalize_resume_def Let_def del: tenantKey_one)
  next
    case None
    obtain s1 where s1: "settle t (tenantKey t [fi_reservationId input]) rec Committed ?d (toISOString now) now s =
        (Inr ((rr_reservation rec)\<lparr>sr_state := Committed, sr_settledAt := Some (toISOString now)\<rparr>), s1)" and S: "settles t ?e s s1"
      by (rule settle_settles [OF assms, of Committed ?d "toISOString now" now]) auto
    have inv1: "storage_inv s1" and ch: "charges t (st_ledger s1) = charges t (st_ledger s)" using S by (simp_all add: settles_def)
    let ?s2 = "if ?d then s1 else let s' = s1\<lparr>st_ledger := recordCommitted t (rr_reservation rec) (st_ledger s1)\<rparr>
      in case quota_readUsage t now s' of (current, s'') \<Rightarrow> setUsage t (charge_usage (rr_reservation rec) current) now s''"
    have B: "books t (if ?d then 0 else ?e) s1 ?s2"
    proof (cases ?d)
      case True
      then show ?thesis using books_refl [OF inv1] by simp
    next
      case False
      obtain u s' where us: "quota_readUsage t now (s1\<lparr>st_ledger := recordCommitted t (rr_reservation rec) (st_ledger s1)\<rparr>) = (u, s')"
        by (cases "quota_readUsage t now (s1\<lparr>st_ledger := recordCommitted t (rr_reservation rec) (st_ledger s1)\<rparr>)")
      have "\<not> isCounted t (sr_contentHash (rr_reservation rec)) (st_ledger s1)" using False ch by (simp add: isCounted_def)
      from recordCommitted_books [OF inv1 assms(2) e this us] False us show ?thesis by (simp add: Let_def)
    qed
    then have inv2: "storage_inv ?s2" by (simp add: books_def)
    have "books t (- ?e + (if ?d then 0 else ?e) + 0) s (snd (quota_readUsage t now ?s2))"
      by (rule books_trans [OF books_trans [OF settles_books [OF S] B] books_read [OF inv2]])
    moreover have "snd (finalize_resume t input rec failure now s) = snd (quota_readUsage t now ?s2)"
      unfolding None finalize_resume_def Let_def option.case s1 by (simp add: split_beta)
    ultimately show ?thesis using e by (intro exI [of _ "- ?e + (if ?d then 0 else ?e) + 0"]) simp
  qed
qed

section \<open>One call of the two ports\<close>

datatype storage_op =
    SWriteEntitlement entitlement_input int
  | SReadEntitlement
  | SReadUsage int
  | SReadStatus int
  | SReadReservation string
  | SReserve reservation_input int
  | SFinalize finalize_input int
  | SAbort string int
  | SQuotaCollect quota_collect_input int
  | SPutManifest object_manifest_input int
  | SCommit object_commit_input int
  | SGetObject string
  | SListObjects object_list_query
  | SAddReference object_reference_input int
  | SRemoveReference object_reference_input int
  | SMarkDeletePending string int
  | SMarkDeleted string int
  | SObjectCollect object_collect_input
  | SReleaseReferences string string int

datatype storage_answer =
    AEntitlement "quota_error + tenant_storage_entitlement"
  | AEntitled "tenant_storage_entitlement option"
  | AUsage tenant_storage_usage
  | AStatus "quota_error + storage_status"
  | AReservation "quota_error + storage_reservation"
  | AFound "storage_reservation option"
  | AFinalized "quota_error + finalize_result"
  | ACollected "quota_error + collect_expired_result"
  | AEntry "quota_error + object_manifest_entry"
  | AEntryFound "object_manifest_entry option"
  | AEntries "quota_error + object_manifest_entry list"
  | AReleased int

definition on_objects :: "('a \<times> object_store) \<Rightarrow> storage_state \<Rightarrow> 'a \<times> storage_state" where
  "on_objects o0 s = (fst o0, s\<lparr>st_objects := snd o0\<rparr>)"

definition on_core :: "('a \<times> storage_core) \<Rightarrow> storage_state \<Rightarrow> 'a \<times> storage_state" where
  "on_core o0 s = (fst o0, s\<lparr>st_ledger := fst (snd o0), st_objects := snd (snd o0)\<rparr>)"

fun storage_exec ::
  "(string \<Rightarrow> string \<Rightarrow> int) \<Rightarrow> (tenant \<Rightarrow> string \<Rightarrow> string option) \<Rightarrow> tenant \<Rightarrow> storage_op \<Rightarrow> storage_state \<Rightarrow> storage_answer \<times> storage_state" where
  "storage_exec lc del t (SWriteEntitlement i now) s = map_prod AEntitlement id (writeEntitlement t i now s)"
| "storage_exec lc del t SReadEntitlement s = (AEntitled (readEntitlement t s), s)"
| "storage_exec lc del t (SReadUsage now) s = map_prod AUsage id (quota_readUsage t now s)"
| "storage_exec lc del t (SReadStatus now) s = map_prod AStatus id (readStatus t now s)"
| "storage_exec lc del t (SReadReservation rid) s = (AFound (readReservation t rid s), s)"
| "storage_exec lc del t (SReserve i now) s = map_prod AReservation id (reserve t i now s)"
| "storage_exec lc del t (SFinalize i now) s = map_prod AFinalized id (finalizeReservation t i now s)"
| "storage_exec lc del t (SAbort rid now) s = map_prod AReservation id (abortReservation t rid now s)"
| "storage_exec lc del t (SQuotaCollect i now) s = map_prod ACollected id (quota_collectExpired t i now s)"
| "storage_exec lc del t (SPutManifest i now) s = map_prod (AEntry \<circ> Inr) id (on_objects (putManifest t i now (st_objects s)) s)"
| "storage_exec lc del t (SCommit i now) s = map_prod AEntry id (on_objects (object_commit t i now (st_objects s)) s)"
| "storage_exec lc del t (SGetObject h) s = (AEntryFound (object_get t h (st_objects s)), s)"
| "storage_exec lc del t (SListObjects q) s = (AEntries (object_list lc t q (st_objects s)), s)"
| "storage_exec lc del t (SAddReference i now) s = map_prod AEntry id (on_objects (addReference t i now (st_objects s)) s)"
| "storage_exec lc del t (SRemoveReference i now) s = map_prod AEntry id (on_objects (removeReference t i now (st_objects s)) s)"
| "storage_exec lc del t (SMarkDeletePending h now) s = map_prod AEntry id (on_objects (markDeletePending t h now (st_objects s)) s)"
| "storage_exec lc del t (SMarkDeleted h now) s = map_prod AEntry id (on_objects (markDeleted t h now (st_objects s)) s)"
| "storage_exec lc del t (SObjectCollect i) s = map_prod ACollected id (on_core (object_collectExpired lc del t i (st_ledger s, st_objects s)) s)"
| "storage_exec lc del t (SReleaseReferences k i now) s = map_prod AReleased id (on_objects (releaseReferences t k i now (st_objects s)) s)"

text \<open>
  The calls the types of the source admit: a valid tenant, a \<open>ContentHash\<close> minted by
  \<open>contentHash\<close>, and a byte count that is not negative.
\<close>

fun storage_call :: "tenant \<times> storage_op \<Rightarrow> bool" where
  "storage_call (t, SReserve i now) = (isTenantId t \<and> 0 \<le> ri_expectedBytes i)"
| "storage_call (t, SPutManifest i now) = (isTenantId t \<and> isContentHash (oi_hash i))"
| "storage_call (t, _) = isTenantId t"

lemma storage_call_tenant: "storage_call (t, op) \<Longrightarrow> isTenantId t"
  by (cases op) simp_all

lemma on_objects_books:
  "storage_inv s \<Longrightarrow> objects_inv (snd o0) \<Longrightarrow> books t 0 s (snd (on_objects o0 s))"
  by (simp add: books_def on_objects_def storage_inv_def used_def)

lemma requireReservation_Inr:
  "requireReservation t rid s = Inr rec \<longleftrightarrow> jget (lg_reservations (st_ledger s)) (tenantKey t [rid]) = Some rec"
  by (simp add: requireReservation_def readReservation_row_def split: option.splits)

lemma settle_books:
  assumes "storage_inv s" and "isTenantId t" and "requireReservation t rid s = Inr rec" and "sr_state (rr_reservation rec) = Reserved"
    and "state \<noteq> Reserved"
  shows "\<exists>r s'. settle t (tenantKey t [rid]) rec state dedup settledAt now s = (Inr r, s') \<and> (\<exists>delta \<le> 0. books t delta s s')"
proof -
  have g: "jget (lg_reservations (st_ledger s)) (tenantKey t [rid]) = Some rec" using assms(3) by (simp only: requireReservation_Inr)
  have "0 \<le> sr_expectedBytes (rr_reservation rec)"
    using assms(1) ledger_inv_row(3) [OF _ assms(2) g] by (simp add: storage_inv_def)
  then show ?thesis
    by (rule_tac settle_settles [OF assms(1,2) g assms(4,5), of dedup settledAt now])
      (metis settles_books neg_le_0_iff_le)
qed

lemma finalize_objects_books:
  assumes "storage_inv s" and "isTenantId t" and "finalize_objects t i rec now s = (failure, s1)"
  shows "books t 0 s s1" "lg_reservations (st_ledger s1) = lg_reservations (st_ledger s)"
proof -
  have "objects_inv (snd (object_commit t c now (st_objects s) :: (quota_error + object_manifest_entry) \<times> object_store))" for c
    using assms by (intro object_commit_ok) (simp_all add: storage_inv_def)
  then have "objects_inv ob" if "object_commit t c now (st_objects s) = (res, ob)" for c ob and res :: "quota_error + object_manifest_entry"
    using that by (metis snd_conv)
  then have B: "books t 0 s (s\<lparr>st_objects := ob\<rparr>)" if "object_commit t c now (st_objects s) = (res, ob)" for c ob and res :: "quota_error + object_manifest_entry"
    using on_objects_books [OF assms(1), of "(res, ob)" t] that by (simp add: on_objects_def)
  show "books t 0 s s1" "lg_reservations (st_ledger s1) = lg_reservations (st_ledger s)"
    using assms(3) B books_refl [OF assms(1), of t]
    by (auto simp: finalize_objects_def split: if_splits prod.splits sum.splits)
qed

lemma finalize_books:
  assumes "storage_inv s" and "isTenantId t"
  shows "\<exists>delta \<le> 0. books t delta s (snd (finalizeReservation t i now s))"
proof (cases "requireReservation t (fi_reservationId i) s")
  case (Inl e)
  then show ?thesis using books_refl [OF assms(1)] by (auto simp: finalizeReservation_def finalize_begin_def)
next
  case (Inr rec)
  let ?r = "rr_reservation rec"
  note idle = books_refl [OF assms(1), of t] and rd = books_read [OF assms(1), of t now]
  show ?thesis
  proof (cases "sr_state ?r = Reserved")
    case False
    then show ?thesis
      using Inr idle rd by (auto simp: finalizeReservation_def finalize_begin_def Let_def split_beta)
  next
    case True
    note S = settle_books [OF assms Inr True]
    show ?thesis
    proof (cases "toISOString now \<ge> sr_expiresAt ?r \<or> fi_observedByteSize i \<noteq> sr_expectedBytes ?r \<or> fi_observedContentType i \<noteq> sr_contentType ?r")
      case bad: True
      then show ?thesis
        using S [of ReservationExpired False "toISOString now" now] S [of Aborted False "toISOString now" now] Inr True
        by (auto simp: finalizeReservation_def finalize_begin_def Let_def simp del: tenantKey_one)
    next
      case False
      then have b: "finalize_begin t i now s = (FinalizeCapture rec, s)"
        using Inr True by (auto simp: finalize_begin_def Let_def)
      obtain failure s1 where f: "finalize_objects t i rec now s = (failure, s1)" by (cases "finalize_objects t i rec now s")
      note s1 = finalize_objects_books [OF assms f]
      have inv1: "storage_inv s1" using s1(1) by (simp add: books_def)
      have "jget (lg_reservations (st_ledger s1)) (tenantKey t [fi_reservationId i]) = Some rec"
        using Inr s1(2) by (simp add: requireReservation_Inr)
      then obtain d where "d \<le> 0" "books t d s1 (snd (finalize_resume t i rec failure now s1))"
        using finalize_resume_books [OF inv1 assms(2) _ True] by blast
      then show ?thesis using books_trans [OF s1(1)] by (auto simp: finalizeReservation_def b f)
    qed
  qed
qed

lemma reserve_books:
  assumes "storage_inv s" and "isTenantId t" and "0 \<le> ri_expectedBytes i"
  shows "\<exists>delta. books t delta s (snd (reserve t i now s)) \<and>
    (delta \<le> 0 \<or> (\<exists>ent. readEntitlement t s = Some ent \<and> used t s + delta \<le> te_hardLimitBytes ent))"
proof (cases "readEntitlement t s")
  case None
  then show ?thesis using books_refl [OF assms(1)] by (auto simp: reserve_def requireEntitlement_def intro!: exI [of _ 0])
next
  case (Some ent)
  obtain n b s1 where x: "expireReservations t (toISOString now) now MAX_SAFE_INTEGER s = (None, n, b, s1)" and S: "settles t b s s1"
    by (rule expireReservations_settles [OF assms(1,2)])
  have inv1: "storage_inv s1" and b: "0 \<le> b" "used t s1 = used t s - b" using S by (simp_all add: settles_def)
  obtain d where d: "books t d s1 (snd (reserve_admit t ent i now s1))" "d \<le> 0 \<or> used t s1 + d \<le> te_hardLimitBytes ent"
    using reserve_admit_books [OF inv1 assms(2,3)] by blast
  have "books t (- b + d) s (snd (reserve t i now s))"
    using books_trans [OF settles_books [OF S] d(1)] by (simp add: reserve_def requireEntitlement_def Some x)
  moreover have "- b + d \<le> 0 \<or> used t s + (- b + d) \<le> te_hardLimitBytes ent" using d(2) b by auto
  ultimately show ?thesis using Some by blast
qed

lemma quota_collect_books:
  assumes "storage_inv s" and "isTenantId t"
  shows "\<exists>delta \<le> 0. books t delta s (snd (quota_collectExpired t i now s))"
proof -
  obtain n b s1 where x: "expireReservations t (ci_now i) now (num_int (ci_limit i)) s = (None, n, b, s1)" and S: "settles t b s s1"
    by (rule expireReservations_settles [OF assms])
  let ?rows = "lg_reservations (st_ledger s1)"
  obtain removed again l where r: "remove_rows t i n 0 False ?rows (st_ledger s1) = (removed, again, l)"
    by (cases "remove_rows t i n 0 False ?rows (st_ledger s1)")
  have inv1: "storage_inv s1" using S by (simp add: settles_def)
  have ok: "jmap_ok ?rows" using inv1 by (simp add: storage_inv_def ledger_inv_def ledger_rows_ok_def)
  have L: "ledger_inv l \<and> (\<forall>v. usage_of v l = usage_of v (st_ledger s1) \<and> charges v l = charges v (st_ledger s1))"
    using inv1 ok by (intro remove_rows_settles [OF _ _ _ r]) (auto simp: storage_inv_def jget_Some_iff, simp add: jmap_ok_def)
  have "books t 0 s1 (s1\<lparr>st_ledger := l\<rparr>)"
    using L inv1 by (simp add: books_def storage_inv_def used_def)
  then have "books t (- b) s (s1\<lparr>st_ledger := l\<rparr>)" using books_trans [OF settles_books [OF S]] by fastforce
  moreover have "0 \<le> b" using S by (simp add: settles_def)
  ultimately have "\<exists>delta \<le> 0. books t delta s (s1\<lparr>st_ledger := l\<rparr>)" by (intro exI [of _ "- b"]) simp
  then show ?thesis
    using x r books_refl [OF assms(1), of t] by (auto simp: quota_collectExpired_def split: sum.splits)
qed

lemma object_collect_books:
  assumes "storage_inv s" and "isTenantId t"
  shows "\<exists>delta \<le> 0. books t delta s
    (snd (on_core (object_collectExpired lc del t i (st_ledger s, st_objects s) :: (quota_error + _) \<times> _) s))"
proof -
  obtain res l' ob where o: "object_collectExpired lc del t i (st_ledger s, st_objects s) = (res :: quota_error + collect_expired_result, l', ob)"
    by (cases "object_collectExpired lc del t i (st_ledger s, st_objects s) :: (quota_error + collect_expired_result) \<times> _") auto
  obtain released where G: "gc_safe t released (st_ledger s, st_objects s) (l', ob)"
    using object_collect_safe [OF _ _ assms(2) o] assms(1) by (auto simp: storage_inv_def)
  note D = gc_safeD [OF G]
  have "books t (- released) s (s\<lparr>st_ledger := l', st_objects := ob\<rparr>)"
    using D(1,2,7) by (simp add: books_def storage_inv_def used_def)
  moreover have "0 \<le> released" by (rule D(8))
  ultimately show ?thesis unfolding o on_core_def by (intro exI [of _ "- released"]) simp
qed

text \<open>No call raises the usage of a tenant, except a reservation, and that one keeps to the limit.\<close>

lemma storage_exec_books:
  assumes "storage_inv s" and "storage_call (t, op)" and "\<And>i now. op \<noteq> SWriteEntitlement i now"
  shows "\<exists>delta. books t delta s (snd (storage_exec lc del t op s)) \<and>
    (delta \<le> 0 \<or> (\<exists>ent. readEntitlement t s = Some ent \<and> used t s + delta \<le> te_hardLimitBytes ent))"
proof -
  have t: "isTenantId t" by (rule storage_call_tenant [OF assms(2)])
  have ob: "objects_inv (st_objects s)" using assms(1) by (simp add: storage_inv_def)
  have zero: "?thesis" if "books t 0 s (snd (storage_exec lc del t op s))" using that by blast
  have down: "?thesis" if "\<exists>delta \<le> 0. books t delta s (snd (storage_exec lc del t op s))" using that by blast
  note O = on_objects_books [OF assms(1), of _ t] and idle = books_refl [OF assms(1), of t] and rd = books_read [OF assms(1), of t]
  show ?thesis
  proof (cases op)
    case (SReserve i now)
    then show ?thesis using reserve_books [OF assms(1) t, of i now] assms(2) by simp
  next
    case (SFinalize i now)
    then show ?thesis using finalize_books [OF assms(1) t, of i now] by (intro down) simp
  next
    case (SAbort rid now)
    have "\<exists>delta \<le> 0. books t delta s (snd (abortReservation t rid now s))"
    proof (cases "requireReservation t rid s")
      case (Inl e)
      then show ?thesis using idle by (auto simp: abortReservation_def)
    next
      case (Inr rec)
      then show ?thesis
        using idle settle_books [OF assms(1) t Inr, of Aborted False "toISOString now" now]
        by (cases "sr_state (rr_reservation rec) = Reserved") (auto simp: abortReservation_def simp del: tenantKey_one)
    qed
    then show ?thesis using SAbort by (intro down) simp
  next
    case (SQuotaCollect i now)
    then show ?thesis using quota_collect_books [OF assms(1) t, of i now] by (intro down) simp
  next
    case (SObjectCollect i)
    then show ?thesis using object_collect_books [OF assms(1) t] by (intro down) simp
  next
    case (SReadStatus now)
    then show ?thesis using idle rd by (intro zero) (auto simp: readStatus_def split_beta split: sum.splits)
  next
    case (SPutManifest i now)
    then show ?thesis using O [OF putManifest_ok [OF ob t]] assms(2) by (intro zero) simp
  next
    case (SCommit i now)
    then show ?thesis using O [OF object_commit_ok [OF ob t]] by (intro zero) simp
  next
    case (SAddReference i now)
    then show ?thesis using O [OF addReference_ok [OF ob t]] by (intro zero) simp
  next
    case (SRemoveReference i now)
    then show ?thesis using O [OF removeReference_ok [OF ob t]] by (intro zero) simp
  next
    case (SMarkDeletePending h now)
    then show ?thesis using O [OF markDeletePending_ok [OF ob t]] by (intro zero) simp
  next
    case (SMarkDeleted h now)
    then show ?thesis using O [OF markDeleted_ok [OF ob t]] by (intro zero) simp
  next
    case (SReleaseReferences k i now)
    then show ?thesis using O [OF releaseReferences_ok [OF ob t]] by (intro zero) simp
  qed (use idle rd assms(3) in \<open>auto intro!: zero\<close>)
qed

lemma writeEntitlement_same:
  "st_ledger (snd (writeEntitlement t i now s)) = st_ledger s" "st_objects (snd (writeEntitlement t i now s)) = st_objects s"
  "u \<noteq> t \<Longrightarrow> readEntitlement u (snd (writeEntitlement t i now s)) = readEntitlement u s"
  by (auto simp: writeEntitlement_def readEntitlement_def Let_def split: sum.splits option.splits)

lemma storage_exec_inv:
  assumes "storage_inv s" and "storage_call (t, op)"
  shows "storage_inv (snd (storage_exec lc del t op s))"
proof (cases "\<exists>i now. op = SWriteEntitlement i now")
  case True
  then show ?thesis using assms(1) writeEntitlement_same by (auto simp: storage_inv_def)
next
  case False
  then obtain d where "books t d s (snd (storage_exec lc del t op s))" using storage_exec_books [OF assms] by blast
  then show ?thesis by (simp add: books_def)
qed

interpretation storage_history: invariant_store "storage_exec lc del" storage_call storage_inv for lc del
  by unfold_locales (rule storage_exec_inv)

section \<open>Exact usage and the hard limit along histories\<close>

definition sample_entitlement :: entitlement_input where
  "sample_entitlement = \<lparr>ei_version = 1, ei_hardLimitBytes = 100, ei_maxObjectBytes = 60, ei_maxInlineBytes = 20,
     ei_mailboxLimitBytes = 9, ei_retentionPolicyId = ''p'', ei_downgradeGraceUntil = None\<rparr>"

definition sample_reservation :: "string \<Rightarrow> storage_write_kind \<Rightarrow> int \<Rightarrow> string \<Rightarrow> reservation_input" where
  "sample_reservation rid k n h = \<lparr>ri_reservationId = rid, ri_kind = k, ri_expectedBytes = n, ri_contentHash = h,
     ri_contentType = ''x'', ri_ttlMs = Fin 1000\<rparr>"



definition limit_inv :: "tenant \<Rightarrow> tenant_storage_entitlement \<Rightarrow> storage_state \<Rightarrow> bool" where
  "limit_inv t ent s = (storage_inv s \<and> readEntitlement t s = Some ent \<and> used t s \<le> te_hardLimitBytes ent)"

definition limit_call :: "tenant \<Rightarrow> tenant \<times> storage_op \<Rightarrow> bool" where
  "limit_call t c = (storage_call c \<and> (\<forall>i now. c \<noteq> (t, SWriteEntitlement i now)))"

lemma limit_exec:
  assumes "limit_call t (u, op)" and "limit_inv t ent s"
  shows "limit_inv t ent (snd (storage_exec lc del u op s))"
proof (cases "\<exists>i now. op = SWriteEntitlement i now")
  case True
  then obtain i now where op: "op = SWriteEntitlement i now" by blast
  then have "t \<noteq> u" using assms(1) by (auto simp: limit_call_def)
  then show ?thesis
    using assms(2) writeEntitlement_same(1,2) [of u i now s] writeEntitlement_same(3) [of t u i now s] by (simp add: op limit_inv_def storage_inv_def used_def)
next
  case False
  have c: "storage_call (u, op)" and inv: "storage_inv s" using assms by (simp_all add: limit_call_def limit_inv_def)
  obtain d where d: "books u d s (snd (storage_exec lc del u op s))"
    "d \<le> 0 \<or> (\<exists>e. readEntitlement u s = Some e \<and> used u s + d \<le> te_hardLimitBytes e)"
    using storage_exec_books [OF inv c] False by blast
  then show ?thesis using assms(2) by (auto simp: books_def limit_inv_def readEntitlement_def)
qed

interpretation limit_history: invariant_store "storage_exec lc del" "limit_call t" "limit_inv t ent" for lc del t ent
  by unfold_locales (rule limit_exec)

text \<open>
  C3. The hard limit holds: while a tenant's entitlement stays the same, no history of calls by
  any tenants (reservations, finalizations, aborts, expiry, collections) takes its committed and
  reserved bytes above \<open>hardLimitBytes\<close> once they are within it.
\<close>

theorem quota_hard_limit:
  assumes "storage_inv s" and "readEntitlement t s = Some ent"
    and "used_bytes (fst (quota_readUsage t now s)) \<le> te_hardLimitBytes ent"
    and "\<forall>c \<in> set ops. storage_call c \<and> (\<forall>i n. c \<noteq> (t, SWriteEntitlement i n))"
  shows "used_bytes (fst (quota_readUsage t now (snd (run_ops (storage_exec lc del) ops s)))) \<le> te_hardLimitBytes ent"
proof -
  have u: "used_bytes (fst (quota_readUsage t now x)) = used t x" for x
    by (simp add: quota_read_eq used_def used_bytes_def)
  have "limit_inv t ent (snd (run_ops (storage_exec lc del) ops s))"
    using assms by (intro limit_history.run_inv) (auto simp: limit_call_def limit_inv_def u)
  then show ?thesis by (simp add: u limit_inv_def)
qed

definition sample_storage :: storage_state where
  "sample_storage = snd (writeEntitlement ''acme'' sample_entitlement 0 empty_storage)"

lemma sample_storage_simps:
  "storage_inv sample_storage" "map_option te_hardLimitBytes (readEntitlement ''acme'' sample_storage) = Some 100"
  "used ''acme'' sample_storage = 0"
  using storage_inv_empty writeEntitlement_same(1,2) [of "''acme''" sample_entitlement 0 empty_storage]
  by (simp_all add: sample_storage_def storage_inv_def used_def empty_storage_def empty_ledger_def usage_of_def zero_usage_def used_bytes_def)
    (simp add: writeEntitlement_def sample_entitlement_def readEntitlement_def Let_def)

theorem quota_hard_limit_witness:
  "used_bytes (fst (quota_readUsage ''acme'' 5 (snd (run_ops (storage_exec (\<lambda>_ _. 0) (\<lambda>_ _. None))
     (replicate 50 (''acme'', SReserve (sample_reservation ''a'' ObjectKind 60 sample_hash) 1)) sample_storage)))) \<le> 100"
proof -
  obtain ent where e: "readEntitlement ''acme'' sample_storage = Some ent" "te_hardLimitBytes ent = 100"
    using sample_storage_simps(2) by auto
  have u: "used_bytes (fst (quota_readUsage ''acme'' 5 sample_storage)) \<le> te_hardLimitBytes ent"
    using sample_storage_simps(3) e(2) by (simp add: quota_read_eq used_def used_bytes_def)
  show ?thesis
    using quota_hard_limit [OF sample_storage_simps(1) e(1) u, of "replicate 50 (''acme'', SReserve (sample_reservation ''a'' ObjectKind 60 sample_hash) 1)"] e(2)
    by (simp add: sample_reservation_def del: run_ops.simps)
qed

section \<open>Collection never takes a live object\<close>


definition sample_manifest :: object_manifest_input where
  "sample_manifest = \<lparr>oi_hash = sample_hash, oi_byteSize = 30, oi_contentType = ''x''\<rparr>"


section \<open>Two finalizations of one reservation in flight\<close>

text \<open>
  Two calls of \<open>finalizeReservation\<close> on one object reservation whose first parts both run before
  either continues after its \<open>await\<close>: both captured the same reserved record.
\<close>

definition finalize_twice ::
  "tenant \<Rightarrow> finalize_input \<Rightarrow> reservation_record \<Rightarrow> int \<Rightarrow> storage_state \<Rightarrow>
   (quota_error + finalize_result) \<times> (quota_error + finalize_result) \<times> storage_state" where
  "finalize_twice t i rec now s =
     (case finalize_objects t i rec now s of (f1, s1) \<Rightarrow>
      case finalize_objects t i rec now s1 of (f2, s2) \<Rightarrow>
      case finalize_resume t i rec f1 now s2 of (r1, s3) \<Rightarrow>
      case finalize_resume t i rec f2 now s3 of (r2, s4) \<Rightarrow> (r1, r2, s4))"

lemma settle_any:
  assumes "sr_expectedBytes (rr_reservation rec) \<le> tu_reservedBytes (usage_of t (st_ledger s))"
  obtains s' where "settle t key rec state d x now s = (Inr ((rr_reservation rec)\<lparr>sr_state := state, sr_settledAt := Some x\<rparr>), s')"
    and "tu_reservedBytes (usage_of t (st_ledger s')) = tu_reservedBytes (usage_of t (st_ledger s)) - sr_expectedBytes (rr_reservation rec)"
    and "lg_reservations (st_ledger s') = jset key
      \<lparr>rr_reservation = (rr_reservation rec)\<lparr>sr_state := state, sr_settledAt := Some x\<rparr>, rr_deduplicated = d\<rparr> (lg_reservations (st_ledger s))"
  using assms by (simp add: settle_def quota_read_eq setUsage_def Let_def)

lemma resume_any:
  assumes "sr_expectedBytes (rr_reservation rec) \<le> tu_reservedBytes (usage_of t (st_ledger s))"
  shows "\<exists>res s' d. finalize_resume t i rec None now s = (Inr res, s') \<and>
    tu_reservedBytes (usage_of t (st_ledger s')) = tu_reservedBytes (usage_of t (st_ledger s)) - sr_expectedBytes (rr_reservation rec) \<and>
    lg_reservations (st_ledger s') = jset (tenantKey t [fi_reservationId i])
      \<lparr>rr_reservation = (rr_reservation rec)\<lparr>sr_state := Committed, sr_settledAt := Some (toISOString now)\<rparr>, rr_deduplicated = d\<rparr>
      (lg_reservations (st_ledger s))"
proof -
  let ?d = "isCounted t (sr_contentHash (rr_reservation rec)) (st_ledger s)"
  obtain s1 where s1: "settle t (tenantKey t [fi_reservationId i]) rec Committed ?d (toISOString now) now s =
      (Inr ((rr_reservation rec)\<lparr>sr_state := Committed, sr_settledAt := Some (toISOString now)\<rparr>), s1)"
    and F: "tu_reservedBytes (usage_of t (st_ledger s1)) = tu_reservedBytes (usage_of t (st_ledger s)) - sr_expectedBytes (rr_reservation rec)"
      "lg_reservations (st_ledger s1) = jset (tenantKey t [fi_reservationId i])
      \<lparr>rr_reservation = (rr_reservation rec)\<lparr>sr_state := Committed, sr_settledAt := Some (toISOString now)\<rparr>, rr_deduplicated = ?d\<rparr>
      (lg_reservations (st_ledger s))"
    by (rule settle_any [OF assms])
  have "\<exists>res s'. finalize_resume t i rec None now s = (Inr res, s') \<and>
      tu_reservedBytes (usage_of t (st_ledger s')) = tu_reservedBytes (usage_of t (st_ledger s1)) \<and>
      lg_reservations (st_ledger s') = lg_reservations (st_ledger s1)"
    unfolding finalize_resume_def Let_def option.case s1
    by (simp add: quota_read_eq setUsage_def charge_usage_def recordCommitted_def)
  then show ?thesis using F by auto
qed

text \<open>
  The reference store releases the hold of one reservation twice when two finalizations of it
  overlap: both calls succeed, the reserved bytes fall by twice the reservation although only one
  row stopped being reserved, so the bytes held by other reservations are no longer covered by
  the usage row (and the accounting invariant is broken).
\<close>

theorem finalize_overlap_releases_twice:
  assumes "storage_inv s" and "isTenantId t" and "finalize_begin t i now s = (FinalizeCapture rec, s)"
    and "sr_kind (rr_reservation rec) = ObjectKind" and "0 < sr_expectedBytes (rr_reservation rec)"
    and "object_get t (sr_contentHash (rr_reservation rec)) (st_objects s) = Some e" and "oe_state e = ObjCommitted"
    and "oe_byteSize e = fi_observedByteSize i" and "oe_contentType e = fi_observedContentType i"
    and "2 * sr_expectedBytes (rr_reservation rec) \<le> tu_reservedBytes (usage_of t (st_ledger s))"
  shows "\<exists>r1 r2 s'. finalize_twice t i rec now s = (Inr r1, Inr r2, s') \<and>
    tu_reservedBytes (usage_of t (st_ledger s')) =
      jsum (reserved_row t) (lg_reservations (st_ledger s')) - sr_expectedBytes (rr_reservation rec) \<and> \<not> storage_inv s'"
proof -
  let ?k = "tenantKey t [fi_reservationId i]" and ?e = "sr_expectedBytes (rr_reservation rec)"
  have R: "requireReservation t (fi_reservationId i) s = Inr rec" "sr_state (rr_reservation rec) = Reserved"
    using assms(3) by (auto simp: finalize_begin_def Let_def split: sum.splits if_splits prod.splits)
  then have g: "jget (lg_reservations (st_ledger s)) ?k = Some rec" by (simp add: requireReservation_Inr)
  have L: "ledger_inv (st_ledger s)" using assms(1) by (simp add: storage_inv_def)
  then have rows: "ledger_rows_ok (st_ledger s)" and bal: "balanced t (st_ledger s)" using assms(2) by (simp_all add: ledger_inv_def)
  have fo: "finalize_objects t i rec now s = (None, s)"
    using assms(4,6-9) by (simp add: finalize_objects_def object_commit_def object_require_def)
  have le: "?e \<le> tu_reservedBytes (usage_of t (st_ledger s))" using assms(5,10) by simp
  obtain r1 s1 d1 where 1: "finalize_resume t i rec None now s = (Inr r1, s1)"
    "tu_reservedBytes (usage_of t (st_ledger s1)) = tu_reservedBytes (usage_of t (st_ledger s)) - ?e"
    "lg_reservations (st_ledger s1) = jset ?k \<lparr>rr_reservation = (rr_reservation rec)\<lparr>sr_state := Committed, sr_settledAt := Some (toISOString now)\<rparr>, rr_deduplicated = d1\<rparr> (lg_reservations (st_ledger s))"
    using resume_any [OF le, of i now] by blast
  have "?e \<le> tu_reservedBytes (usage_of t (st_ledger s1))" using 1(2) assms(10) by simp
  then obtain r2 s2 d2 where 2: "finalize_resume t i rec None now s1 = (Inr r2, s2)"
    "tu_reservedBytes (usage_of t (st_ledger s2)) = tu_reservedBytes (usage_of t (st_ledger s1)) - ?e"
    "lg_reservations (st_ledger s2) = jset ?k \<lparr>rr_reservation = (rr_reservation rec)\<lparr>sr_state := Committed, sr_settledAt := Some (toISOString now)\<rparr>, rr_deduplicated = d2\<rparr> (lg_reservations (st_ledger s1))"
    using resume_any [of rec t s1 i now] by blast
  have ok: "jmap_ok (lg_reservations (st_ledger s))" using rows by (simp add: ledger_rows_ok_def)
  have "jsum (reserved_row t) (lg_reservations (st_ledger s2)) = jsum (reserved_row t) (lg_reservations (st_ledger s)) - ?e"
    using ok g R(2) in_tenant_own [of "[fi_reservationId i]" t]
    unfolding 2(3) 1(3) by (simp add: jsum_jset reserved_row_def del: tenantKey_one)
  then have off: "tu_reservedBytes (usage_of t (st_ledger s2)) = jsum (reserved_row t) (lg_reservations (st_ledger s2)) - ?e"
    using bal 1(2) 2(2) by (simp add: balanced_def)
  then have "\<not> storage_inv s2" using assms(2,5) by (auto simp: storage_inv_def ledger_inv_def balanced_def)
  then show ?thesis using off by (simp add: finalize_twice_def fo 1(1) 2(1))
qed

text \<open>The example: an object of 30 bytes is committed and two reservations of 30 bytes are held.\<close>

definition overlap_ops :: "(tenant \<times> storage_op) list" where
  "overlap_ops = [(''acme'', SWriteEntitlement sample_entitlement 0), (''acme'', SPutManifest sample_manifest 0),
     (''acme'', SCommit \<lparr>oc_hash = sample_hash, oc_observedByteSize = 30, oc_observedContentType = ''x''\<rparr> 0),
     (''acme'', SReserve (sample_reservation ''a'' ObjectKind 30 sample_hash) 0),
     (''acme'', SReserve (sample_reservation ''b'' ObjectKind 30 sample_hash) 0)]"

definition overlap_state :: storage_state where
  "overlap_state = snd (run_ops (storage_exec (\<lambda>_ _. 0) (\<lambda>_ _. None)) overlap_ops empty_storage)"

definition overlap_record :: reservation_record where
  "overlap_record = \<lparr>rr_reservation = \<lparr>sr_tenantId = ''acme'', sr_reservationId = ''a'', sr_state = Reserved, sr_kind = ObjectKind,
     sr_expectedBytes = 30, sr_contentHash = sample_hash, sr_contentType = ''x'', sr_createdAt = toISOString 0,
     sr_expiresAt = toISOString 1000, sr_settledAt = None\<rparr>, rr_deduplicated = False\<rparr>"

lemma overlap_inv: "storage_inv overlap_state"
  unfolding overlap_state_def
  by (rule storage_history.run_inv [OF _ storage_inv_empty])
    (simp add: overlap_ops_def sample_manifest_def sample_reservation_def)

lemma overlap_stamp: "toISOString 0 < toISOString 1000" "\<not> toISOString 1000 \<le> toISOString 0" "date_after 0 (Fin 1000) = Inr (toISOString 1000)"
  by (simp_all add: toISOString_less_iff toISOString_le_iff iso_instant_def iso_date_def MAX_DATE_def)

lemma overlap_eq:
  "overlap_state = \<lparr>st_entitlements = [(''acme'', \<lparr>te_tenantId = ''acme'', te_version = 1, te_hardLimitBytes = 100, te_maxObjectBytes = 60,
       te_maxInlineBytes = 20, te_mailboxLimitBytes = 9, te_retentionPolicyId = ''p'', te_downgradeGraceUntil = None\<rparr>)],
     st_ledger = \<lparr>lg_usage = [(''acme'', \<lparr>tu_committedObjectBytes = 0, tu_committedInlineBytes = 0, tu_reservedBytes = 60, tu_objectCount = 0,
         tu_updatedAt = toISOString 0\<rparr>)],
       lg_reservations = [(tenantKey ''acme'' [''a''], overlap_record),
         (tenantKey ''acme'' [''b''], overlap_record\<lparr>rr_reservation := (rr_reservation overlap_record)\<lparr>sr_reservationId := ''b''\<rparr>\<rparr>)],
       lg_committed = []\<rparr>,
     st_objects = \<lparr>ob_manifest = [(tenantKey ''acme'' [sample_hash], \<lparr>oe_tenantId = ''acme'', oe_hash = sample_hash, oe_byteSize = 30,
         oe_contentType = ''x'', oe_state = ObjCommitted, oe_refCount = 0, oe_createdAt = toISOString 0, oe_updatedAt = toISOString 0,
         oe_deletePendingAt = None\<rparr>)], ob_references = [], ob_deleteCursor = []\<rparr>\<rparr>"
  by (simp add: overlap_state_def overlap_ops_def sample_entitlement_def sample_manifest_def sample_reservation_def overlap_record_def
      empty_storage_def empty_ledger_def empty_objects_def writeEntitlement_def readEntitlement_def on_objects_def putManifest_def
      object_get_def put_entry_def object_commit_def object_require_def transition_def isLegalObjectTransition_def
      reserve_def requireEntitlement_def expireReservations_def reserve_admit_def readReservation_row_def quota_readUsage_def
      ledger_readUsage_def zero_usage_def posture_def used_bytes_def setUsage_def writeUsage_def writeReservation_def
      overlap_stamp WARNING_NUMERATOR_def WARNING_DENOMINATOR_def Let_def jget_def jset_def del: date_after.simps)

theorem finalize_overlap_releases_twice_witness:
  "\<exists>r1 r2 s'. finalize_twice ''acme'' \<lparr>fi_reservationId = ''a'', fi_observedByteSize = 30, fi_observedContentType = ''x''\<rparr> overlap_record 0
      overlap_state = (Inr r1, Inr r2, s') \<and> \<not> storage_inv s'"
proof -
  let ?i = "\<lparr>fi_reservationId = ''a'', fi_observedByteSize = 30, fi_observedContentType = ''x''\<rparr>"
  have b: "finalize_begin ''acme'' ?i 0 overlap_state = (FinalizeCapture overlap_record, overlap_state)"
    by (simp add: finalize_begin_def requireReservation_def readReservation_row_def overlap_eq overlap_record_def overlap_stamp jget_def Let_def)
  have o: "object_get ''acme'' (sr_contentHash (rr_reservation overlap_record)) (st_objects overlap_state) =
      Some \<lparr>oe_tenantId = ''acme'', oe_hash = sample_hash, oe_byteSize = 30,
         oe_contentType = ''x'', oe_state = ObjCommitted, oe_refCount = 0, oe_createdAt = toISOString 0, oe_updatedAt = toISOString 0,
         oe_deletePendingAt = None\<rparr>"
    by (simp add: overlap_eq overlap_record_def object_get_def jget_def)
  have u: "tu_reservedBytes (usage_of ''acme'' (st_ledger overlap_state)) = 60"
    by (simp add: overlap_eq usage_of_def jget_def)
  show ?thesis
    using finalize_overlap_releases_twice [OF overlap_inv _ b _ _ o] u by (auto simp: overlap_record_def)
qed

end
