(* ===== verification/Replay.thy ===== *)
theory Replay
  imports Retention
begin

text \<open>
  The single-use authority for signed device and task assertions
  (\<open>packages/core/src/in-memory/device-assertion-replay.ts\<close>). Its key is the JSON text of seven
  strings, so the theory first models \<open>JSON.stringify\<close> and \<open>JSON.parse\<close> on arrays of strings
  and shows that the text determines the strings.
\<close>

section \<open>JSON text of an array of strings\<close>

abbreviation QUOTE :: char where "QUOTE \<equiv> CHR 0x22"
abbreviation BACKSLASH :: char where "BACKSLASH \<equiv> CHR 0x5C"

definition hex_digit :: "nat \<Rightarrow> char" where
  "hex_digit n = (if n < 10 then char_of (48 + n) else char_of (87 + n))"

definition hex_value :: "char \<Rightarrow> nat option" where
  "hex_value c =
     (let n = of_char c :: nat
      in if 48 \<le> n \<and> n \<le> 57 then Some (n - 48)
         else if 97 \<le> n \<and> n \<le> 102 then Some (n - 87)
         else if 65 \<le> n \<and> n \<le> 70 then Some (n - 55) else None)"

text \<open>Quotes, backslashes and control characters are escaped, everything else stands for itself.\<close>

definition json_escape :: "char \<Rightarrow> string" where
  "json_escape c =
     (if c = QUOTE then [BACKSLASH, QUOTE]
      else if c = BACKSLASH then [BACKSLASH, BACKSLASH]
      else if c = CHR 0x08 then [BACKSLASH, CHR ''b'']
      else if c = CHR 0x09 then [BACKSLASH, CHR ''t'']
      else if c = CHR 0x0A then [BACKSLASH, CHR ''n'']
      else if c = CHR 0x0C then [BACKSLASH, CHR ''f'']
      else if c = CHR 0x0D then [BACKSLASH, CHR ''r'']
      else if of_char c < (32 :: nat)
      then [BACKSLASH, CHR ''u'', CHR ''0'', CHR ''0'', hex_digit (of_char c div 16), hex_digit (of_char c mod 16)]
      else [c])"

definition json_string :: "string \<Rightarrow> string" where
  "json_string s = QUOTE # concat (map json_escape s) @ [QUOTE]"

definition json_stringify :: "string list \<Rightarrow> string" where
  "json_stringify xs = CHR ''['' # join (CHR '','') (map json_string xs) @ '']''"

definition json_unescape :: "char \<Rightarrow> char option" where
  "json_unescape e =
     (if e = QUOTE \<or> e = BACKSLASH \<or> e = CHR ''/'' then Some e
      else if e = CHR ''b'' then Some (CHR 0x08)
      else if e = CHR ''t'' then Some (CHR 0x09)
      else if e = CHR ''n'' then Some (CHR 0x0A)
      else if e = CHR ''f'' then Some (CHR 0x0C)
      else if e = CHR ''r'' then Some (CHR 0x0D) else None)"

text \<open>The characters up to the closing quote, and what follows it.\<close>

fun json_chars :: "string \<Rightarrow> (string \<times> string) option" where
  "json_chars [] = None"
| "json_chars (c # s) =
     (if c = QUOTE then Some ([], s)
      else if c = BACKSLASH then
        (case s of
           [] \<Rightarrow> None
         | e # s1 \<Rightarrow>
             if e = CHR ''u'' then
               (case s1 of
                  z # z' # h # l # s2 \<Rightarrow>
                    if z = CHR ''0'' \<and> z' = CHR ''0'' then
                      (case (hex_value h, hex_value l) of
                         (Some hi, Some lo) \<Rightarrow> map_option (apfst (Cons (char_of (16 * hi + lo)))) (json_chars s2)
                       | _ \<Rightarrow> None)
                    else None
                | _ \<Rightarrow> None)
             else (case json_unescape e of
                     None \<Rightarrow> None
                   | Some d \<Rightarrow> map_option (apfst (Cons d)) (json_chars s1)))
      else if of_char c < (32 :: nat) then None
      else map_option (apfst (Cons c)) (json_chars s))"

text \<open>\<open>JSON.parse(text)[0]\<close> for a text that is an array whose first element is a string.\<close>

fun json_first :: "string \<Rightarrow> string option" where
  "json_first (c # q # s) =
     (if c = CHR ''['' \<and> q = QUOTE then map_option fst (json_chars s) else None)"
| "json_first _ = None"

lemma hex_value_digit: "n < 16 \<Longrightarrow> hex_value (hex_digit n) = Some n"
  by (auto simp: hex_value_def hex_digit_def Let_def)

lemma json_chars_escape: "json_chars (json_escape c @ rest) = map_option (apfst (Cons c)) (json_chars rest)"
proof (cases "of_char c < (32 :: nat)")
  case True
  have D: "of_char c div 16 < (16 :: nat)" "of_char c mod 16 < (16 :: nat)" using True by auto
  have J: "char_of (16 * (of_char c div 16) + of_char c mod 16 :: nat) = c" by simp
  show ?thesis
    using hex_value_digit [OF D(1)] hex_value_digit [OF D(2)] J True
    by (auto simp: json_escape_def json_unescape_def)
next
  case False
  then show ?thesis
    by (auto simp: json_escape_def json_unescape_def)
qed

lemmas json_chars_step = json_chars.simps(2)

declare json_chars_step [simp del]

lemma json_chars_quote: "json_chars (QUOTE # rest) = Some ([], rest)"
  by (simp add: json_chars_step)

lemma json_chars_string: "json_chars (concat (map json_escape s) @ QUOTE # rest) = Some (s, rest)"
  by (induction s) (simp_all add: json_chars_escape json_chars_quote)

lemma json_first_stringify: "json_first (json_stringify (x # xs)) = Some x"
proof (cases xs)
  case Nil
  then show ?thesis using json_chars_string [of x] by (simp add: json_stringify_def json_string_def)
next
  case (Cons y ys)
  then show ?thesis using json_chars_string [of x] by (simp add: json_stringify_def json_string_def)
qed

lemma json_string_inject_append:
  assumes "json_string s @ rest = json_string s' @ rest'"
  shows "s = s' \<and> rest = rest'"
proof -
  have P: "json_chars (tl (json_string x @ r)) = Some (x, r)" for x r
    by (simp add: json_string_def json_chars_string)
  have "Some (s, rest) = Some (s', rest')"
    unfolding P [symmetric] by (rule arg_cong [where f = "\<lambda>z. json_chars (tl z)"]) (rule assms)
  then show ?thesis by simp
qed

lemma join_json_inject:
  "join (CHR '','') (map json_string xs) = join (CHR '','') (map json_string ys) \<Longrightarrow> xs = ys"
proof (induction xs arbitrary: ys)
  case Nil
  then show ?case by (cases ys; cases "tl ys") (auto simp: json_string_def)
next
  case (Cons x xs)
  let ?J = "\<lambda>zs. join (CHR '','') (map json_string zs)"
  have J: "?J (z # zs) = json_string z @ (if zs = [] then [] else CHR '','' # ?J zs)" for z zs
    by (cases zs) simp_all
  obtain y ys' where ys: "ys = y # ys'"
    using Cons.prems unfolding J by (cases ys) (simp_all add: json_string_def)
  have "x = y \<and> (if xs = [] then [] else CHR '','' # ?J xs) = (if ys' = [] then [] else CHR '','' # ?J ys')"
    using Cons.prems unfolding ys J by (rule json_string_inject_append)
  then have "x = y" and "(xs = [] \<and> ys' = []) \<or> ?J xs = ?J ys'" by (auto split: if_splits)
  with Cons.IH [of ys'] show ?case by (auto simp: ys)
qed

lemma json_stringify_inject [simp]: "json_stringify xs = json_stringify ys \<longleftrightarrow> xs = ys"
  by (auto simp: json_stringify_def dest: join_json_inject)

section \<open>The authority\<close>

record replay_input =
  dr_schema :: string
  dr_tenantId :: tenant
  dr_issuer :: string
  dr_productId :: string
  dr_deviceId :: string
  dr_audience :: string
  dr_jti :: string
  dr_expiresAt :: string

type_synonym replay_state = "int jmap"

definition credential :: "replay_input \<Rightarrow> string list" where
  "credential i = [dr_tenantId i, dr_issuer i, dr_productId i, dr_deviceId i, dr_audience i, dr_schema i, dr_jti i]"

definition replayKey :: "replay_input \<Rightarrow> string" where
  "replayKey input = json_stringify (credential input)"

definition replay_consume :: "(string \<Rightarrow> int option) \<Rightarrow> replay_input \<Rightarrow> replay_state \<Rightarrow> (unit, bool) result \<times> replay_state" where
  "replay_consume other input s =
     (case js_date_parse other (dr_expiresAt input) of
        None \<Rightarrow> (Inl (Foreign ''device assertion replay expiry is invalid''), s)
      | Some expiresAt \<Rightarrow>
          let key = replayKey input
          in if jget s key \<noteq> None then (Inr False, s) else (Inr True, jset key expiresAt s))"

text \<open>A cutoff that does not parse would be \<open>NaN\<close>, and no comparison with it skips a row.\<close>

definition replay_due :: "(string \<Rightarrow> int option) \<Rightarrow> tenant \<Rightarrow> collect_expired_input \<Rightarrow> string \<times> int \<Rightarrow> bool" where
  "replay_due other t input = (\<lambda>(key, expiresAt).
     \<not> (json_first key \<noteq> Some t \<or>
        (case js_date_parse other (ci_now input) of None \<Rightarrow> False | Some cutoff \<Rightarrow> expiresAt > cutoff)))"

definition replay_collectExpired ::
  "(string \<Rightarrow> int option) \<Rightarrow> tenant \<Rightarrow> collect_expired_input \<Rightarrow> replay_state \<Rightarrow>
     (unit, collect_expired_result) result \<times> replay_state" where
  "replay_collectExpired other t input s = sweep_collect (replay_due other t input) input s"

interpretation replay_collector:
  bounded_collector "\<lambda>(t, i) s. collect_step (replay_collectExpired other t i s)" "\<lambda>(t, i). valid_collect i"
    "\<lambda>(t, i). eligible_count (replay_due other t i)" "\<lambda>(t, i). num_int (ci_limit i)"
  for other
  unfolding replay_collectExpired_def
  using sweep_collector [of "\<lambda>(t, i). replay_due other t i" snd] by (simp add: split_def)

datatype replay_op = RConsume replay_input | RCollect collect_expired_input

datatype replay_answer =
    RConsumed "(unit, bool) result"
  | RCollected "(unit, collect_expired_result) result"

text \<open>\<open>consume\<close> takes its tenant from the input; only \<open>collectExpired\<close> is tenant-first.\<close>

fun replay_exec :: "(string \<Rightarrow> int option) \<Rightarrow> tenant \<Rightarrow> replay_op \<Rightarrow> replay_state \<Rightarrow> replay_answer \<times> replay_state" where
  "replay_exec other t (RConsume i) s = map_prod RConsumed id (replay_consume other i s)"
| "replay_exec other t (RCollect i) s = map_prod RCollected id (replay_collectExpired other t i s)"

section \<open>Single use\<close>

text \<open>
  The calls that leave a credential of tenant \<open>t\<close> with expiry \<open>e\<close> alone: everything but a
  collection of that tenant whose cutoff reaches the expiry.
\<close>

fun before_expiry :: "tenant \<Rightarrow> int \<Rightarrow> tenant \<times> replay_op \<Rightarrow> bool" where
  "before_expiry t e (u, RConsume i) = True"
| "before_expiry t e (u, RCollect i) = (u = t \<longrightarrow> (\<forall>cutoff. date_parse (ci_now i) = Some cutoff \<longrightarrow> cutoff < e))"

definition consumed :: "replay_input \<Rightarrow> int \<Rightarrow> replay_state \<Rightarrow> bool" where
  "consumed i e s = (jmap_ok s \<and> jget s (replayKey i) = Some e)"

lemma replay_due_not:
  assumes "before_expiry (dr_tenantId i) e (t, RCollect c)" and "valid_collect c"
  shows "\<not> replay_due other t c (replayKey i, e)"
proof -
  obtain cutoff where "date_parse (ci_now c) = Some cutoff" "CANONICAL_TIMESTAMP_PATTERN (ci_now c)"
    using assms(2) by (auto simp: valid_collect_def isCanonicalTimestamp_def split: if_splits option.splits)
  then show ?thesis
    using assms(1) by (auto simp: replay_due_def replayKey_def credential_def json_first_stringify js_date_parse_def)
qed

lemma replay_collect_keeps:
  assumes "before_expiry (dr_tenantId i) e (t, RCollect c)" and "consumed i e s"
  shows "consumed i e (snd (replay_collectExpired other t c s))"
proof (cases "valid_collect c")
  case True
  then show ?thesis
    using assms(2) replay_due_not [OF assms(1) True]
    by (simp add: consumed_def replay_collectExpired_def sweep_collect_ok sweep_collect_kept)
next
  case False
  then show ?thesis using assms(2) by (simp add: replay_collectExpired_def snd_sweep_collect)
qed

interpretation replay_history:
  invariant_store "replay_exec other" "before_expiry (dr_tenantId i) e" "consumed i e" for other i e
proof (unfold_locales, goal_cases)
  case (1 t op s)
  show ?case
  proof (cases op)
    case (RConsume j)
    then show ?thesis using 1(2) by (auto simp: consumed_def replay_consume_def Let_def split: option.splits)
  next
    case (RCollect c)
    then show ?thesis using 1 replay_collect_keeps by simp
  qed
qed

text \<open>
  Single use: once a credential has been consumed, every later presentation of the same seven
  segments is refused, through any history of consumptions by anyone and of collections whose
  cutoff has not reached its expiry.
\<close>

theorem replay_single_use:
  assumes "jmap_ok s" and "replay_consume other i s = (Inr True, s1)"
    and "js_date_parse other (dr_expiresAt i) = Some e"
    and "\<forall>c \<in> set calls. before_expiry (dr_tenantId i) e c"
    and "credential j = credential i" and "js_date_parse other (dr_expiresAt j) \<noteq> None"
  shows "replay_consume other j (snd (run_ops (replay_exec other) calls s1)) =
    (Inr False, snd (run_ops (replay_exec other) calls s1))"
proof -
  have "consumed i e s1"
    using assms(1-3) by (auto simp: replay_consume_def consumed_def Let_def split: if_splits)
  from replay_history.run_inv [OF assms(4) this] show ?thesis
    using assms(5,6) by (auto simp: replay_consume_def consumed_def replayKey_def Let_def)
qed

definition sample_credential :: replay_input where
  "sample_credential = \<lparr>dr_schema = ''device'', dr_tenantId = ''acme'', dr_issuer = ''i'', dr_productId = ''p'',
     dr_deviceId = ''d'', dr_audience = ''a'', dr_jti = ''n-1'', dr_expiresAt = toISOString 60000\<rparr>"

theorem replay_single_use_witness:
  "fst (replay_consume (\<lambda>_. None) sample_credential (snd (run_ops (replay_exec (\<lambda>_. None))
     [(''globex'', RCollect \<lparr>ci_now = toISOString 60000, ci_limit = Fin 5\<rparr>)]
     (snd (replay_consume (\<lambda>_. None) sample_credential []))))) = Inr False"
proof -
  have e: "js_date_parse (\<lambda>_. None) (dr_expiresAt sample_credential) = Some 60000"
    by (simp add: sample_credential_def iso_instant_def)
  obtain s1 where c: "replay_consume (\<lambda>_. None) sample_credential [] = (Inr True, s1)"
    using e by (simp add: replay_consume_def Let_def)
  have "dr_tenantId sample_credential = ''acme''" by (simp add: sample_credential_def)
  then show ?thesis
    using replay_single_use [OF jmap_ok_Nil c e, of "[(''globex'', RCollect \<lparr>ci_now = toISOString 60000, ci_limit = Fin 5\<rparr>)]" sample_credential]
    by (simp add: c e del: run_ops.simps)
qed

section \<open>Refinement of a set of used credentials\<close>

text \<open>The specification: a set of used credentials, each accepted when it is new.\<close>

fun used_answers :: "string list set \<Rightarrow> replay_input list \<Rightarrow> bool list" where
  "used_answers used [] = []"
| "used_answers used (i # is) = (credential i \<notin> used) # used_answers (insert (credential i) used) is"

definition used_credentials :: "replay_state \<Rightarrow> string list set" where
  "used_credentials s = {c. jget s (json_stringify c) \<noteq> None}"

lemma consume_refines:
  assumes "js_date_parse other (dr_expiresAt i) \<noteq> None"
  shows "fst (replay_consume other i s) = Inr (credential i \<notin> used_credentials s)"
    "used_credentials (snd (replay_consume other i s)) = insert (credential i) (used_credentials s)"
  using assms by (auto simp: replay_consume_def replayKey_def used_credentials_def Let_def jget_jset split: if_splits)

text \<open>
  The lanes never collide: consuming any sequence of assertions with readable expiries, by any
  tenants, from any store answers exactly as a set of used credentials would. An assertion is
  accepted when none with the same seven segments was, the schema included, so a device and a task
  assertion with one \<open>jti\<close> are each accepted once; no choice of the other segments, with quotes,
  commas or brackets in them, makes two credentials share a key.
\<close>

theorem replay_refines_set:
  assumes "\<forall>i \<in> set is. js_date_parse other (dr_expiresAt i) \<noteq> None"
  shows "fst (run_ops (replay_exec other) (map (\<lambda>i. (dr_tenantId i, RConsume i)) is) s) =
    zip (map dr_tenantId is) (map (\<lambda>b. RConsumed (Inr b)) (used_answers (used_credentials s) is))"
  using assms
proof (induction "is" arbitrary: s)
  case Nil
  then show ?case by simp
next
  case (Cons i "is")
  have "js_date_parse other (dr_expiresAt i) \<noteq> None" using Cons.prems by simp
  note step = consume_refines [OF this, of s]
  show ?case using Cons.IH [of "snd (replay_consume other i s)"] Cons.prems
    by (simp add: step run_ops_step del: run_ops.simps(2))
qed

theorem replay_refines_set_witness:
  "let i = sample_credential; j = i\<lparr>dr_schema := ''task''\<rparr>
   in fst (run_ops (replay_exec (\<lambda>_. None)) (map (\<lambda>i. (dr_tenantId i, RConsume i)) [i, j, i]) []) =
     [(''acme'', RConsumed (Inr True)), (''acme'', RConsumed (Inr True)), (''acme'', RConsumed (Inr False))]"
proof -
  have e: "js_date_parse (\<lambda>_. None) (toISOString 60000) \<noteq> None" by (simp add: iso_instant_def)
  show ?thesis
    using e replay_refines_set [of "[sample_credential, sample_credential\<lparr>dr_schema := ''task''\<rparr>, sample_credential]" "\<lambda>_. None" "[]"]
    by (simp add: Let_def sample_credential_def credential_def used_credentials_def del: run_ops.simps)
qed

end
