(* ===== verification/Skill_Pack.thy ===== *)
theory Skill_Pack
  imports Objects "HOL-Library.Multiset"
begin

text \<open>
  Skill packs (\<open>packages/core/src/skill-pack.ts\<close>, \<open>in-memory/skill-pack.ts\<close>): the manifest
  with its limits, the safe-path rule, the text a pack's content address is taken over, the closed
  two-key frontmatter grammar, and the store that refuses a pack whose manifest and bytes disagree.
  The schema validator itself (zod) is a parameter of \<open>parseSkillPackManifest\<close>;
  \<open>manifest_schema\<close> states what the declared schema demands of a manifest of the right shape.
\<close>

section \<open>Limits and patterns\<close>

definition SKILL_PACK_MANIFEST_SCHEMA_ID :: string where
  "SKILL_PACK_MANIFEST_SCHEMA_ID = ''byok-skill-pack-v1''"

definition SKILL_PACK_NAME_MAX_LENGTH :: nat where "SKILL_PACK_NAME_MAX_LENGTH = 64"
definition SKILL_PACK_DESCRIPTION_MAX_LENGTH :: nat where "SKILL_PACK_DESCRIPTION_MAX_LENGTH = 1024"
definition SKILL_PACK_FILE_PATH_MAX_LENGTH :: nat where "SKILL_PACK_FILE_PATH_MAX_LENGTH = 200"
definition SKILL_PACK_ENTRY_PATH :: string where "SKILL_PACK_ENTRY_PATH = ''SKILL.md''"
definition SKILL_PACK_FILE_MAX_BYTES :: int where "SKILL_PACK_FILE_MAX_BYTES = 262144"
definition SKILL_PACK_MAX_BYTES :: int where "SKILL_PACK_MAX_BYTES = 1048576"
definition SKILL_PACK_MAX_FILES :: nat where "SKILL_PACK_MAX_FILES = 64"

text \<open>\<open>[a-z0-9][a-z0-9._-]*\<close>, the shape of one object-key segment.\<close>

definition SKILL_PACK_NAME_PATTERN :: "string \<Rightarrow> bool" where
  "SKILL_PACK_NAME_PATTERN v = prefix_segment v"

text \<open>\<open>String.prototype.split\<close> with a one-character separator.\<close>

fun split_on :: "char \<Rightarrow> string \<Rightarrow> string list" where
  "split_on sep [] = [[]]"
| "split_on sep (c # cs) =
     (if c = sep then [] # split_on sep cs
      else case split_on sep cs of [] \<Rightarrow> [[c]] | s # ss \<Rightarrow> (c # s) # ss)"

text \<open>\<open>(0|[1-9]\d*)\<close>, three of them separated by dots.\<close>

fun version_number :: "string \<Rightarrow> bool" where
  "version_number [] = False"
| "version_number (c # cs) = (list_all isdigit (c # cs) \<and> (c \<noteq> CHR ''0'' \<or> cs = []))"

definition SKILL_PACK_VERSION_PATTERN :: "string \<Rightarrow> bool" where
  "SKILL_PACK_VERSION_PATTERN v = (length (split_on (CHR ''.'') v) = 3 \<and> list_all version_number (split_on (CHR ''.'') v))"

definition path_start :: "char \<Rightarrow> bool" where
  "path_start c = (isdigit c \<or> (CHR ''a'' \<le> c \<and> c \<le> CHR ''z'') \<or> (CHR ''A'' \<le> c \<and> c \<le> CHR ''Z''))"

definition path_char :: "char \<Rightarrow> bool" where
  "path_char c = (path_start c \<or> c \<in> {CHR ''.'', CHR ''_'', CHR ''-''})"

fun path_segment :: "string \<Rightarrow> bool" where
  "path_segment [] = False"
| "path_segment (c # cs) = (path_start c \<and> list_all path_char cs)"

definition SKILL_PACK_FILE_PATH_PATTERN :: "string \<Rightarrow> bool" where
  "SKILL_PACK_FILE_PATH_PATTERN v = list_all path_segment (segments v)"

definition isSkillPackPathSafe :: "string \<Rightarrow> bool" where
  "isSkillPackPathSafe path =
     (length path > 0 \<and> length path \<le> SKILL_PACK_FILE_PATH_MAX_LENGTH \<and> SKILL_PACK_FILE_PATH_PATTERN path)"

definition SKILL_PACK_FORBIDDEN_FIELDS :: "string list" where
  "SKILL_PACK_FORBIDDEN_FIELDS =
     [''exec'', ''command'', ''entrypoint'', ''run'', ''script'', ''shell'', ''env'', ''environment'',
      ''credential'', ''credentials'', ''secret'', ''secrets'', ''token'', ''apiKey'', ''api_key'',
      ''allowedTools'', ''allowed-tools'', ''hooks'', ''preinstall'', ''postinstall'']"

section \<open>Manifests\<close>

record skill_pack_file =
  sf_path :: string
  sf_contentHash :: string
  sf_byteSize :: int

record skill_pack_manifest =
  sm_schema :: string
  sm_name :: string
  sm_version :: string
  sm_description :: string
  sm_files :: "skill_pack_file list"
  sm_contentHash :: string

definition file_schema :: "skill_pack_file \<Rightarrow> bool" where
  "file_schema f =
     (1 \<le> length (sf_path f) \<and> length (sf_path f) \<le> SKILL_PACK_FILE_PATH_MAX_LENGTH \<and>
      SKILL_PACK_FILE_PATH_PATTERN (sf_path f) \<and> CONTENT_HASH_PATTERN (sf_contentHash f) \<and>
      0 \<le> sf_byteSize f \<and> sf_byteSize f \<le> SKILL_PACK_FILE_MAX_BYTES)"

definition manifest_schema :: "skill_pack_manifest \<Rightarrow> bool" where
  "manifest_schema m =
     (sm_schema m = SKILL_PACK_MANIFEST_SCHEMA_ID \<and>
      1 \<le> length (sm_name m) \<and> length (sm_name m) \<le> SKILL_PACK_NAME_MAX_LENGTH \<and> SKILL_PACK_NAME_PATTERN (sm_name m) \<and>
      SKILL_PACK_VERSION_PATTERN (sm_version m) \<and>
      1 \<le> length (sm_description m) \<and> length (sm_description m) \<le> SKILL_PACK_DESCRIPTION_MAX_LENGTH \<and>
      1 \<le> length (sm_files m) \<and> length (sm_files m) \<le> SKILL_PACK_MAX_FILES \<and> list_all file_schema (sm_files m) \<and>
      CONTENT_HASH_PATTERN (sm_contentHash m))"

text \<open>
  An input of unknown shape: an object with its own keys, or anything else. \<open>safeParse\<close> is the
  schema validator, which answers the parsed manifest or fails.
\<close>

datatype 'v unknown = Object "(string \<times> 'v) list" | NotObject 'v

definition parseSkillPackManifest ::
  "('v unknown \<Rightarrow> skill_pack_manifest option) \<Rightarrow> 'v unknown \<Rightarrow> ('c, skill_pack_manifest) result" where
  "parseSkillPackManifest safeParse input =
     (if (case input of
            Object own \<Rightarrow> filter (\<lambda>field. field \<in> fst ` set own) SKILL_PACK_FORBIDDEN_FIELDS \<noteq> []
          | NotObject _ \<Rightarrow> False)
      then Inl (ByokCoreError Skill_pack_manifest_invalid)
      else case safeParse input of
             None \<Rightarrow> Inl (ByokCoreError Skill_pack_manifest_invalid)
           | Some m \<Rightarrow> Inr m)"

text \<open>The decimal text of a non-negative integer.\<close>

fun dec :: "nat \<Rightarrow> string" where
  "dec n = (if n < 10 then [digit n] else dec (n div 10) @ [digit (n mod 10)])"

declare dec.simps [simp del]

definition hash_row :: "skill_pack_file \<Rightarrow> string" where
  "hash_row f = sf_path f @ [CHR 0x0A] @ sf_contentHash f @ [CHR 0x0A] @ dec (nat (sf_byteSize f)) @ [CHR 0x0A]"

definition skillPackContentHashInput :: "skill_pack_manifest \<Rightarrow> string" where
  "skillPackContentHashInput m =
     (let rows = map hash_row (sort_by (\<lambda>l r. str_cmp (sf_path l) (sf_path r)) (sm_files m))
      in SKILL_PACK_MANIFEST_SCHEMA_ID @ [CHR 0x0A] @
         sm_name m @ [CHR 0x0A] @
         sm_version m @ [CHR 0x0A] @
         dec (length (sm_description m)) @ [CHR 0x0A] @
         sm_description m @ [CHR 0x0A] @
         dec (length (sm_files m)) @ [CHR 0x0A] @
         concat rows)"

section \<open>Checks\<close>

datatype skill_pack_rejection =
    Path_unsafe | Duplicate_path | Entry_missing | File_count_over_cap | File_over_cap
  | Pack_over_cap | Size_mismatch | Hash_mismatch | Name_mismatch

datatype skill_pack_check = Accept int | Reject skill_pack_rejection

fun check_files :: "skill_pack_file list \<Rightarrow> string set \<Rightarrow> int \<Rightarrow> skill_pack_rejection + (string set \<times> int)" where
  "check_files [] seen bytes = Inr (seen, bytes)"
| "check_files (f # fs) seen bytes =
     (if \<not> isSkillPackPathSafe (sf_path f) then Inl Path_unsafe
      else if sf_path f \<in> seen then Inl Duplicate_path
      else if sf_byteSize f > SKILL_PACK_FILE_MAX_BYTES then Inl File_over_cap
      else check_files fs (insert (sf_path f) seen) (bytes + sf_byteSize f))"

definition checkSkillPackManifest :: "skill_pack_manifest \<Rightarrow> skill_pack_check" where
  "checkSkillPackManifest m =
     (if length (sm_files m) > SKILL_PACK_MAX_FILES then Reject File_count_over_cap
      else case check_files (sm_files m) {} 0 of
        Inl r \<Rightarrow> Reject r
      | Inr (seen, bytes) \<Rightarrow>
          if SKILL_PACK_ENTRY_PATH \<notin> seen then Reject Entry_missing
          else if bytes > SKILL_PACK_MAX_BYTES then Reject Pack_over_cap
          else Accept bytes)"

record observed_file =
  of_byteSize :: int
  of_contentHash :: string

definition checkSkillPackFileContent :: "skill_pack_file \<Rightarrow> observed_file \<Rightarrow> skill_pack_check" where
  "checkSkillPackFileContent declared observed =
     (if \<not> isSkillPackPathSafe (sf_path declared) then Reject Path_unsafe
      else if of_byteSize observed > SKILL_PACK_FILE_MAX_BYTES then Reject File_over_cap
      else if of_byteSize observed \<noteq> sf_byteSize declared then Reject Size_mismatch
      else if of_contentHash observed \<noteq> sf_contentHash declared then Reject Hash_mismatch
      else Accept (of_byteSize observed))"

section \<open>Frontmatter\<close>

record skill_frontmatter =
  fm_name :: string
  fm_description :: string

definition SKILL_FRONTMATTER_FIELDS :: "string list" where
  "SKILL_FRONTMATTER_FIELDS = [''name'', ''description'']"

definition FRONTMATTER_DELIMITER :: string where
  "FRONTMATTER_DELIMITER = ''---''"

definition js_trimEnd :: "string \<Rightarrow> string" where
  "js_trimEnd s = rev (dropWhile js_space (rev s))"

definition key_start :: "char \<Rightarrow> bool" where
  "key_start c = ((CHR ''a'' \<le> c \<and> c \<le> CHR ''z'') \<or> (CHR ''A'' \<le> c \<and> c \<le> CHR ''Z''))"

definition key_char :: "char \<Rightarrow> bool" where
  "key_char c = (key_start c \<or> isdigit c \<or> c = CHR ''_'' \<or> c = CHR ''-'')"

text \<open>
  \<open>([A-Za-z][A-Za-z0-9_-]*):[ \t]*(.*)$\<close> on one line: the key ends at the first colon, the
  blanks after it are skipped, and the rest may hold no line terminator.
\<close>

definition FRONTMATTER_LINE_PATTERN :: "string \<Rightarrow> (string \<times> string) option" where
  "FRONTMATTER_LINE_PATTERN line =
     (let key = takeWhile key_char line; rest = dropWhile key_char line
      in case (key, rest) of
           (c # _, colon # v) \<Rightarrow>
             let value = dropWhile (\<lambda>x. x = CHR 0x20 \<or> x = CHR 0x09) v
             in if key_start c \<and> colon = CHR '':'' \<and> CHR 0x0A \<notin> set value \<and> CHR 0x0D \<notin> set value
                then Some (key, value) else None
         | _ \<Rightarrow> None)"

definition unquote :: "string \<Rightarrow> string option" where
  "unquote value =
     (let trimmed = js_trim value
      in if length trimmed \<ge> 2 \<and>
            (hd trimmed = CHR 0x22 \<and> last trimmed = CHR 0x22 \<or> hd trimmed = CHR 0x27 \<and> last trimmed = CHR 0x27)
         then let inner = butlast (tl trimmed)
              in if hd trimmed \<in> set inner then None else Some inner
         else Some trimmed)"

fun frontmatter_fields :: "string list \<Rightarrow> string jmap \<Rightarrow> ('c, string jmap) result" where
  "frontmatter_fields [] found = Inr found"
| "frontmatter_fields (line # lines) found =
     (if length (js_trim line) = 0 then frontmatter_fields lines found
      else case FRONTMATTER_LINE_PATTERN line of
        None \<Rightarrow> Inl (ByokCoreError Skill_pack_frontmatter_invalid)
      | Some (key, v) \<Rightarrow>
          if key \<notin> set SKILL_FRONTMATTER_FIELDS then Inl (ByokCoreError Skill_pack_frontmatter_invalid)
          else if jget found key \<noteq> None then Inl (ByokCoreError Skill_pack_frontmatter_invalid)
          else case unquote v of
            None \<Rightarrow> Inl (ByokCoreError Skill_pack_frontmatter_invalid)
          | Some value \<Rightarrow>
              if length value = 0 then Inl (ByokCoreError Skill_pack_frontmatter_invalid)
              else frontmatter_fields lines (jset key value found))"

definition delimiter :: "string \<Rightarrow> bool" where
  "delimiter line = (js_trimEnd line = FRONTMATTER_DELIMITER)"

definition parseSkillFrontmatter :: "string \<Rightarrow> ('c, skill_frontmatter) result" where
  "parseSkillFrontmatter text =
     (let lines = split_on (CHR 0x0A) text
      in if \<not> delimiter (hd lines) then Inl (ByokCoreError Skill_pack_frontmatter_invalid)
         else if \<not> list_ex delimiter (tl lines) then Inl (ByokCoreError Skill_pack_frontmatter_invalid)
         else case frontmatter_fields (takeWhile (\<lambda>l. \<not> delimiter l) (tl lines)) [] of
           Inl e \<Rightarrow> Inl e
         | Inr found \<Rightarrow>
             (case (jget found ''name'', jget found ''description'') of
                (Some name, Some description) \<Rightarrow>
                  if length name > SKILL_PACK_NAME_MAX_LENGTH \<or> \<not> SKILL_PACK_NAME_PATTERN name
                  then Inl (ByokCoreError Skill_pack_frontmatter_invalid)
                  else if length description > SKILL_PACK_DESCRIPTION_MAX_LENGTH
                  then Inl (ByokCoreError Skill_pack_frontmatter_invalid)
                  else Inr \<lparr>fm_name = name, fm_description = description\<rparr>
              | _ \<Rightarrow> Inl (ByokCoreError Skill_pack_frontmatter_invalid)))"

definition checkSkillPackEntry :: "skill_pack_manifest \<Rightarrow> string \<Rightarrow> ('c, skill_pack_check) result" where
  "checkSkillPackEntry m entryText =
     (case parseSkillFrontmatter entryText of
        Inl e \<Rightarrow> Inl e
      | Inr fm \<Rightarrow> if fm_name fm \<noteq> sm_name m then Inr (Reject Name_mismatch) else Inr (Accept (utf8_length entryText)))"

section \<open>The store\<close>

definition SKILL_LIST_LIMIT :: int where
  "SKILL_LIST_LIMIT = 50"

record supplied_file =
  su_path :: string
  su_content :: string

record skill_publish_input =
  sp_manifest :: skill_pack_manifest
  sp_files :: "supplied_file list"

record stored_pack =
  st_manifest :: skill_pack_manifest
  st_contents :: "string jmap"

record skill_file_content =
  sc_path :: string
  sc_contentHash :: string
  sc_byteSize :: int
  sc_content :: string

type_synonym skill_state = "stored_pack jmap"

abbreviation manifest_invalid :: "'c core_error" where
  "manifest_invalid \<equiv> ByokCoreError Skill_pack_manifest_invalid"

fun supply_contents :: "supplied_file list \<Rightarrow> string jmap \<Rightarrow> ('c, string jmap) result" where
  "supply_contents [] contents = Inr contents"
| "supply_contents (f # fs) contents =
     (if jget contents (su_path f) \<noteq> None then Inl manifest_invalid
      else supply_contents fs (jset (su_path f) (su_content f) contents))"

fun check_declared :: "skill_pack_file list \<Rightarrow> string jmap \<Rightarrow> ('c, unit) result" where
  "check_declared [] contents = Inr ()"
| "check_declared (d # ds) contents =
     (case jget contents (sf_path d) of
        None \<Rightarrow> Inl manifest_invalid
      | Some content \<Rightarrow>
          if utf8_length content \<noteq> sf_byteSize d then Inl manifest_invalid else check_declared ds contents)"

text \<open>
  \<open>contents.get(SKILL_PACK_ENTRY_PATH)!\<close> is asserted to exist: the manifest check found the entry
  path among the declared files and every declared file was supplied. The empty text stands for an
  absent entry.
\<close>

definition skill_publish :: "tenant \<Rightarrow> skill_publish_input \<Rightarrow> skill_state \<Rightarrow> (unit, skill_pack_manifest) result \<times> skill_state" where
  "skill_publish t input s =
     (let manifest = sp_manifest input in
      case checkSkillPackManifest manifest of
        Reject _ \<Rightarrow> (Inl manifest_invalid, s)
      | Accept _ \<Rightarrow>
     (case supply_contents (sp_files input) [] of
        Inl e \<Rightarrow> (Inl e, s)
      | Inr contents \<Rightarrow>
     (case check_declared (sm_files manifest) contents of
        Inl e \<Rightarrow> (Inl e, s)
      | Inr _ \<Rightarrow>
          if length contents \<noteq> length (sm_files manifest) then (Inl manifest_invalid, s)
          else (case checkSkillPackEntry manifest (case jget contents SKILL_PACK_ENTRY_PATH of None \<Rightarrow> [] | Some c \<Rightarrow> c) of
             Inl e \<Rightarrow> (Inl e, s)
           | Inr (Reject _) \<Rightarrow> (Inl manifest_invalid, s)
           | Inr (Accept _) \<Rightarrow>
               (Inr manifest, jset (tenantKey t [sm_name manifest]) \<lparr>st_manifest = manifest, st_contents = contents\<rparr> s)))))"

definition skill_get :: "tenant \<Rightarrow> string \<Rightarrow> skill_state \<Rightarrow> skill_pack_manifest option" where
  "skill_get t name s = map_option st_manifest (jget s (tenantKey t [name]))"

definition skill_list :: "tenant \<Rightarrow> int option \<Rightarrow> skill_state \<Rightarrow> skill_pack_manifest list" where
  "skill_list t limit s =
     slice0 (case limit of None \<Rightarrow> SKILL_LIST_LIMIT | Some n \<Rightarrow> n)
       (sort_by (\<lambda>l r. str_cmp (sm_name l) (sm_name r))
          (map (\<lambda>(_, pack). st_manifest pack) (filter (\<lambda>(key, _). in_tenant t key) s)))"

definition skill_readFile :: "tenant \<Rightarrow> string \<Rightarrow> string \<Rightarrow> skill_state \<Rightarrow> skill_file_content option" where
  "skill_readFile t name path s =
     (case jget s (tenantKey t [name]) of
        None \<Rightarrow> None
      | Some pack \<Rightarrow>
          (case (find (\<lambda>f. sf_path f = path) (sm_files (st_manifest pack)), jget (st_contents pack) path) of
             (Some declared, Some content) \<Rightarrow>
               Some \<lparr>sc_path = sf_path declared, sc_contentHash = sf_contentHash declared,
                     sc_byteSize = sf_byteSize declared, sc_content = content\<rparr>
           | _ \<Rightarrow> None))"

datatype skill_op =
    SkPublish skill_publish_input
  | SkGet string
  | SkList "int option"
  | SkReadFile string string

datatype skill_answer =
    SkPublished "(unit, skill_pack_manifest) result"
  | SkFound "skill_pack_manifest option"
  | SkListed "skill_pack_manifest list"
  | SkFile "skill_file_content option"

fun skill_exec :: "tenant \<Rightarrow> skill_op \<Rightarrow> skill_state \<Rightarrow> skill_answer \<times> skill_state" where
  "skill_exec t (SkPublish i) s = map_prod SkPublished id (skill_publish t i s)"
| "skill_exec t (SkGet name) s = (SkFound (skill_get t name s), s)"
| "skill_exec t (SkList limit) s = (SkListed (skill_list t limit s), s)"
| "skill_exec t (SkReadFile name path) s = (SkFile (skill_readFile t name path s), s)"

section \<open>Safe paths\<close>

text \<open>
  The reference meaning of a path: resolve its segments one by one against a directory, where the
  empty segment and \<open>.\<close> stay and \<open>..\<close> climbs.
\<close>

definition resolve_step :: "string list \<Rightarrow> string \<Rightarrow> string list" where
  "resolve_step dir seg = (if seg = '''' \<or> seg = ''.'' then dir else if seg = ''..'' then butlast dir else dir @ [seg])"

definition resolve :: "string list \<Rightarrow> string \<Rightarrow> string list" where
  "resolve dir path = foldl resolve_step (if prefix ''/'' path then [] else dir) (segments path)"

lemma path_segment_plain: "path_segment s \<Longrightarrow> s \<noteq> '''' \<and> s \<noteq> ''.'' \<and> s \<noteq> ''..''"
  by (cases s) (auto simp: path_start_def isdigit_def less_eq_char_def)

lemma resolve_plain:
  "list_all path_segment ss \<Longrightarrow> foldl resolve_step dir ss = dir @ ss"
  by (induction ss arbitrary: dir) (simp_all add: resolve_step_def path_segment_plain)

lemma segments_nonempty [simp]: "segments s \<noteq> []"
  by (cases s) (auto split: list.splits)

lemma safe_not_absolute: "SKILL_PACK_FILE_PATH_PATTERN p \<Longrightarrow> \<not> prefix ''/'' p"
  by (cases p) (auto simp: SKILL_PACK_FILE_PATH_PATTERN_def)

text \<open>
  A path the rule accepts stays inside the directory it is resolved against, for every
  directory: resolution only descends, one step per segment, so nothing above or beside the
  installation directory can be named.
\<close>

theorem skill_path_stays_inside:
  assumes "isSkillPackPathSafe path"
  shows "resolve dir path = dir @ segments path \<and> segments path \<noteq> []"
  using assms safe_not_absolute [of path] resolve_plain [of "segments path" dir]
  by (auto simp: isSkillPackPathSafe_def resolve_def SKILL_PACK_FILE_PATH_PATTERN_def)

theorem skill_path_stays_inside_witness:
  "resolve [''packs'', ''x''] ''refs/a.md'' = [''packs'', ''x'', ''refs'', ''a.md''] \<and> \<not> isSkillPackPathSafe ''../x''"
proof -
  have "isSkillPackPathSafe ''refs/a.md''" "\<not> isSkillPackPathSafe ''../x''" by code_simp+
  then show ?thesis using skill_path_stays_inside [of "''refs/a.md''" "[''packs'', ''x'']"] by simp
qed

section \<open>The manifest check\<close>

lemma check_files_Inr:
  "check_files fs seen bytes = Inr (seen', bytes') \<longleftrightarrow>
     (\<forall>f \<in> set fs. isSkillPackPathSafe (sf_path f) \<and> sf_byteSize f \<le> SKILL_PACK_FILE_MAX_BYTES) \<and>
     distinct (map sf_path fs) \<and> seen \<inter> sf_path ` set fs = {} \<and>
     seen' = seen \<union> sf_path ` set fs \<and> bytes' = bytes + sum_list (map sf_byteSize fs)"
  by (induction fs arbitrary: seen bytes) (auto simp: not_less)

lemma check_manifest_Accept:
  "checkSkillPackManifest m = Accept bytes \<longleftrightarrow>
     length (sm_files m) \<le> SKILL_PACK_MAX_FILES \<and>
     (\<forall>f \<in> set (sm_files m). isSkillPackPathSafe (sf_path f) \<and> sf_byteSize f \<le> SKILL_PACK_FILE_MAX_BYTES) \<and>
     distinct (map sf_path (sm_files m)) \<and> SKILL_PACK_ENTRY_PATH \<in> sf_path ` set (sm_files m) \<and>
     bytes = sum_list (map sf_byteSize (sm_files m)) \<and> bytes \<le> SKILL_PACK_MAX_BYTES"
  by (auto simp: checkSkillPackManifest_def check_files_Inr not_less split: sum.splits prod.splits if_splits)
    (metis check_files_Inr Int_empty_left Un_empty_left add_0 sum.distinct(1) sum.exhaust)+

section \<open>Publishing\<close>

lemma supply_contents_spec:
  assumes "supply_contents fs contents = (Inr contents' :: ('c, string jmap) result)" and "jmap_ok contents"
  shows "jmap_ok contents' \<and> length contents' = length contents + length fs \<and>
    fst ` set contents' = fst ` set contents \<union> su_path ` set fs \<and>
    (\<forall>f \<in> set fs. jget contents' (su_path f) = Some (su_content f)) \<and>
    (\<forall>k v. jget contents k = Some v \<longrightarrow> jget contents' k = Some v)"
  using assms
proof (induction fs arbitrary: contents)
  case Nil
  then show ?case by simp
next
  case (Cons f fs)
  have new: "jget contents (su_path f) = None"
    and rest: "supply_contents fs (jset (su_path f) (su_content f) contents) = (Inr contents' :: ('c, string jmap) result)"
    using Cons.prems(1) by (auto split: if_splits)
  have L: "length (jset (su_path f) (su_content f) contents) = Suc (length contents)"
    "fst ` set (jset (su_path f) (su_content f) contents) = insert (su_path f) (fst ` set contents)"
    by (simp_all add: jset_new [OF new])
  have G: "jget (jset (su_path f) (su_content f) contents) k = Some v" if "jget contents k = Some v" for k v
    using that new by auto
  note I = Cons.IH [OF rest jmap_ok_jset [OF Cons.prems(2)], unfolded L]
  have "jget contents' (su_path f) = Some (su_content f)" using I by simp
  with I G show ?case by simp
qed

lemma check_declared_Inr:
  "check_declared ds contents = Inr () \<longleftrightarrow>
     (\<forall>d \<in> set ds. \<exists>c. jget contents (sf_path d) = Some c \<and> utf8_length c = sf_byteSize d)"
  by (induction ds) (auto split: option.splits)

lemma find_path:
  "distinct (map sf_path fs) \<Longrightarrow> f \<in> set fs \<Longrightarrow> find (\<lambda>g. sf_path g = sf_path f) fs = Some f"
  by (induction fs) (auto simp: image_iff)

lemma find_path_None: "find (\<lambda>g. sf_path g = p) fs = None \<longleftrightarrow> p \<notin> sf_path ` set fs"
  by (auto simp: find_None_iff)

text \<open>The pieces of a publication that was accepted.\<close>

lemma skill_publish_Inr:
  assumes "skill_publish t input s = (Inr m, s')"
  obtains contents bytes size where "m = sp_manifest input" "checkSkillPackManifest m = Accept bytes"
    "supply_contents (sp_files input) [] = (Inr contents :: (unit, string jmap) result)"
    "check_declared (sm_files m) contents = (Inr () :: (unit, unit) result)" "length contents = length (sm_files m)"
    "checkSkillPackEntry m (case jget contents SKILL_PACK_ENTRY_PATH of None \<Rightarrow> [] | Some c \<Rightarrow> c) =
       (Inr (Accept size) :: (unit, skill_pack_check) result)"
    "s' = jset (tenantKey t [sm_name m]) \<lparr>st_manifest = m, st_contents = contents\<rparr> s"
  using assms
  by (auto simp: skill_publish_def Let_def split: skill_pack_check.splits sum.splits if_splits)

text \<open>
  What was published is what is served: after an accepted publication the manifest is the one
  supplied, the declared and the supplied paths are the same, and reading a path gives the
  declared row together with the supplied text, whose UTF-8 length is the declared size; any other
  path reads as absent. The entry file exists and names the pack.
\<close>

theorem skill_publish_serves:
  assumes "skill_publish t input s = (Inr m, s')"
  shows "skill_get t (sm_name m) s' = Some m \<and>
    sf_path ` set (sm_files m) = su_path ` set (sp_files input) \<and>
    (\<forall>f \<in> set (sp_files input). \<exists>d \<in> set (sm_files m). sf_path d = su_path f \<and> sf_byteSize d = utf8_length (su_content f) \<and>
       skill_readFile t (sm_name m) (su_path f) s' =
         Some \<lparr>sc_path = su_path f, sc_contentHash = sf_contentHash d, sc_byteSize = sf_byteSize d, sc_content = su_content f\<rparr>) \<and>
    (\<forall>p. p \<notin> su_path ` set (sp_files input) \<longrightarrow> skill_readFile t (sm_name m) p s' = None) \<and>
    (\<exists>f \<in> set (sp_files input). su_path f = SKILL_PACK_ENTRY_PATH \<and>
       (\<exists>fm. parseSkillFrontmatter (su_content f) = (Inr fm :: (unit, skill_frontmatter) result) \<and> fm_name fm = sm_name m))"
proof -
  obtain contents bytes size where m: "m = sp_manifest input" and chk: "checkSkillPackManifest m = Accept bytes"
    and sup: "supply_contents (sp_files input) [] = (Inr contents :: (unit, string jmap) result)"
    and dec: "check_declared (sm_files m) contents = (Inr () :: (unit, unit) result)"
    and len: "length contents = length (sm_files m)"
    and ent: "checkSkillPackEntry m (case jget contents SKILL_PACK_ENTRY_PATH of None \<Rightarrow> [] | Some c \<Rightarrow> c) =
       (Inr (Accept size) :: (unit, skill_pack_check) result)"
    and s': "s' = jset (tenantKey t [sm_name m]) \<lparr>st_manifest = m, st_contents = contents\<rparr> s"
    by (rule skill_publish_Inr [OF assms])
  note C = check_manifest_Accept [THEN iffD1, OF chk]
  note S = supply_contents_spec [OF sup jmap_ok_Nil, simplified]
  have D: "\<exists>c. jget contents (sf_path d) = Some c \<and> utf8_length c = sf_byteSize d" if "d \<in> set (sm_files m)" for d
    using dec that by (simp add: check_declared_Inr)
  have sub: "sf_path ` set (sm_files m) \<subseteq> fst ` set contents"
    using D by (force simp: jget_def dest: map_of_SomeD)
  have "card (sf_path ` set (sm_files m)) = card (fst ` set contents)"
    using C len S by (metis distinct_card jmap_ok_def length_map list.set_map)
  then have paths: "sf_path ` set (sm_files m) = su_path ` set (sp_files input)"
    using sub S by (metis card_subset_eq finite_imageI List.finite_set)
  have rd: "\<exists>d \<in> set (sm_files m). sf_path d = su_path f \<and> sf_byteSize d = utf8_length (su_content f) \<and>
      skill_readFile t (sm_name m) (su_path f) s' =
        Some \<lparr>sc_path = su_path f, sc_contentHash = sf_contentHash d, sc_byteSize = sf_byteSize d, sc_content = su_content f\<rparr>"
    if f: "f \<in> set (sp_files input)" for f
  proof -
    obtain d where d: "d \<in> set (sm_files m)" "sf_path d = su_path f" using paths f by (metis image_iff)
    moreover have "jget contents (su_path f) = Some (su_content f)" using S f by blast
    ultimately show ?thesis
      using D [OF d(1)] find_path [of "sm_files m" d] C by (intro bexI [of _ d]) (auto simp: s' skill_readFile_def)
  qed
  have absent: "skill_readFile t (sm_name m) p s' = None" if "p \<notin> su_path ` set (sp_files input)" for p
    using that paths find_path_None [of p "sm_files m"] by (simp add: s' skill_readFile_def)
  obtain f where f: "f \<in> set (sp_files input)" "su_path f = SKILL_PACK_ENTRY_PATH" using C paths by (metis image_iff)
  then have "jget contents SKILL_PACK_ENTRY_PATH = Some (su_content f)" using S by metis
  then have "\<exists>fm. parseSkillFrontmatter (su_content f) = (Inr fm :: (unit, skill_frontmatter) result) \<and> fm_name fm = sm_name m"
    using ent by (auto simp: checkSkillPackEntry_def split: sum.splits if_splits)
  moreover have "skill_get t (sm_name m) s' = Some m" by (simp add: s' skill_get_def)
  ultimately show ?thesis using rd absent paths f by blast
qed

lemma skill_list_rows: "skill_list t limit (tenant_rows t s) = skill_list t limit s"
  by (simp add: skill_list_def tenant_rows_def)

interpretation skill_store: row_store skill_exec
proof (unfold_locales, goal_cases)
  case (1 t op s)
  then show ?case
    by (cases op)
      (simp_all add: restricts_def skill_publish_def skill_get_def skill_list_rows skill_readFile_def Let_def
        split: skill_pack_check.splits sum.splits)
next
  case (2 t u op s)
  then show ?case
    by (cases op) (simp_all add: skill_publish_def Let_def split: skill_pack_check.splits sum.splits)
qed

definition sample_entry :: string where
  "sample_entry = ''---'' @ [CHR 0x0A] @ ''name: demo'' @ [CHR 0x0A] @ ''description: Demo'' @ [CHR 0x0A] @ ''---'' @ [CHR 0x0A]"

definition sample_pack :: "skill_pack_file list \<Rightarrow> skill_pack_manifest" where
  "sample_pack fs = \<lparr>sm_schema = SKILL_PACK_MANIFEST_SCHEMA_ID, sm_name = ''demo'', sm_version = ''1.0.0'',
     sm_description = ''Demo'', sm_files = fs, sm_contentHash = sample_hash\<rparr>"

definition sample_publish :: skill_publish_input where
  "sample_publish = \<lparr>sp_manifest = sample_pack [\<lparr>sf_path = ''SKILL.md'', sf_contentHash = sample_hash, sf_byteSize = 37\<rparr>],
     sp_files = [\<lparr>su_path = ''SKILL.md'', su_content = sample_entry\<rparr>]\<rparr>"

lemma sample_publish_ok: "fst (skill_publish ''acme'' sample_publish []) = Inr (sp_manifest sample_publish)"
  by code_simp

theorem skill_publish_serves_witness:
  "\<exists>d. skill_readFile ''acme'' ''demo'' ''SKILL.md'' (snd (skill_publish ''acme'' sample_publish [])) =
     Some \<lparr>sc_path = ''SKILL.md'', sc_contentHash = d, sc_byteSize = 37, sc_content = sample_entry\<rparr>"
proof -
  have "skill_publish ''acme'' sample_publish [] = (Inr (sp_manifest sample_publish), snd (skill_publish ''acme'' sample_publish []))"
    using sample_publish_ok by (metis prod.collapse)
  from skill_publish_serves [OF this] show ?thesis
    by (auto simp: sample_publish_def sample_pack_def)
qed

section \<open>The content address\<close>

abbreviation NL :: char where "NL \<equiv> CHR 0x0A"

lemma segments_split_on: "segments s = split_on (CHR ''/'') s"
  by (induction s) simp_all

lemma split_on_chars: "c \<in> set s \<Longrightarrow> c = sep \<or> (\<exists>p \<in> set (split_on sep s). c \<in> set p)"
proof (induction s)
  case (Cons a s)
  then show ?case by (cases "split_on sep s") (auto split: if_splits)
qed simp

lemma name_no_newline: "SKILL_PACK_NAME_PATTERN v \<Longrightarrow> NL \<notin> set v"
  by (cases v) (auto simp: SKILL_PACK_NAME_PATTERN_def list_all_iff prefix_char_def prefix_start_def isdigit_def less_eq_char_def)

lemma version_no_newline:
  assumes "SKILL_PACK_VERSION_PATTERN v"
  shows "NL \<notin> set v"
proof
  assume "NL \<in> set v"
  then obtain p where "p \<in> set (split_on (CHR ''.'') v)" "NL \<in> set p" using split_on_chars [of NL v "CHR ''.''"] by auto
  moreover from this assms have "version_number p" by (auto simp: SKILL_PACK_VERSION_PATTERN_def list_all_iff)
  ultimately show False by (cases p rule: list.exhaust) (auto simp: list_all_iff isdigit_def less_eq_char_def)
qed

lemma path_no_newline:
  assumes "SKILL_PACK_FILE_PATH_PATTERN v"
  shows "NL \<notin> set v"
proof
  assume "NL \<in> set v"
  then obtain p where "p \<in> set (segments v)" "NL \<in> set p"
    using split_on_chars [of NL v "CHR ''/''"] by (auto simp: segments_split_on)
  moreover from this assms have "path_segment p" by (auto simp: SKILL_PACK_FILE_PATH_PATTERN_def list_all_iff)
  ultimately show False
    by (cases p rule: list.exhaust) (auto simp: list_all_iff path_char_def path_start_def isdigit_def less_eq_char_def)
qed

lemma hash_no_newline:
  assumes "CONTENT_HASH_PATTERN v"
  shows "NL \<notin> set v"
proof -
  have v: "v = ''sha256:'' @ drop 7 v" using assms by (metis CONTENT_HASH_PATTERN_def append_take_drop_id)
  have "NL \<notin> set (drop 7 v)"
    using assms by (auto simp: CONTENT_HASH_PATTERN_def list_all_iff hex_lower_def isdigit_def less_eq_char_def)
  then show ?thesis by (subst v) simp
qed

lemma dec_digits: "c \<in> set (dec n) \<Longrightarrow> isdigit c"
proof (induction n rule: dec.induct)
  case (1 n)
  then show ?case by (subst (asm) dec.simps) (auto split: if_splits intro: isdigit_digit)
qed

lemma dec_no_newline [simp]: "NL \<notin> set (dec n)"
  using dec_digits [of NL n] by (auto simp: isdigit_def less_eq_char_def)

lemma num_of_dec: "num_of (dec n) = n"
proof (induction n rule: dec.induct)
  case (1 n)
  have "num_of [digit m] = m" if "m < 10" for m
    using that num_of_snoc [of "[]" "digit m"] by (simp add: of_char_digit num_of_def)
  with 1 show ?case by (subst dec.simps) (simp add: num_of_snoc of_char_digit)
qed

lemma dec_inject [simp]: "dec m = dec n \<longleftrightarrow> m = n"
  using num_of_dec by metis

lemma line_inject: "NL \<notin> set a \<Longrightarrow> NL \<notin> set b \<Longrightarrow> a @ NL # x = b @ NL # y \<longleftrightarrow> a = b \<and> x = y"
  by (rule append_sep_eq)

lemma hash_row_inject:
  assumes "file_schema f" and "file_schema g" and "hash_row f @ x = hash_row g @ y"
  shows "f = g \<and> x = y"
  using assms
  by (cases f; cases g)
    (auto simp: hash_row_def file_schema_def line_inject path_no_newline hash_no_newline)

lemma hash_rows_inject:
  assumes "list_all file_schema fs" and "list_all file_schema gs" and "length fs = length gs"
    and "concat (map hash_row fs) = concat (map hash_row gs)"
  shows "fs = gs"
  using assms(3,1,2,4)
proof (induction rule: list_induct2)
  case Nil
  then show ?case by simp
next
  case (Cons f fs g gs)
  then show ?case using hash_row_inject [of f g "concat (map hash_row fs)" "concat (map hash_row gs)"] by simp
qed

lemma manifest_schemaD:
  assumes "manifest_schema m"
  shows "NL \<notin> set (sm_name m)" "NL \<notin> set (sm_version m)" "list_all file_schema (sm_files m)"
  using assms by (simp_all add: manifest_schema_def name_no_newline version_no_newline)

text \<open>
  The content address covers everything a device observes: for manifests that pass the schema
  and the manifest check, the hashed text is the same exactly when name, version, description and
  the set of file rows are the same, in whatever order a publisher enumerated the files.
\<close>

theorem skill_hash_input_exact:
  assumes "manifest_schema m" and "manifest_schema m'"
    and "checkSkillPackManifest m = Accept n" and "checkSkillPackManifest m' = Accept n'"
  shows "skillPackContentHashInput m = skillPackContentHashInput m' \<longleftrightarrow>
    sm_name m = sm_name m' \<and> sm_version m = sm_version m' \<and> sm_description m = sm_description m' \<and>
    mset (sm_files m) = mset (sm_files m')"
proof -
  let ?s = "\<lambda>m. sort_key sf_path (sm_files m)"
  note D = manifest_schemaD [OF assms(1)] and D' = manifest_schemaD [OF assms(2)]
  have inj: "inj_on sf_path (set (sm_files m))" using assms(3) by (simp add: check_manifest_Accept distinct_map)
  have "length (sm_files m) = length (sm_files m') \<and> concat (map hash_row (?s m)) = concat (map hash_row (?s m')) \<longleftrightarrow>
    mset (sm_files m) = mset (sm_files m')"
  proof safe
    assume "length (sm_files m) = length (sm_files m')" "concat (map hash_row (?s m)) = concat (map hash_row (?s m'))"
    then have "?s m = ?s m'" using D(3) D'(3) by (intro hash_rows_inject) (simp_all add: list_all_iff)
    then have "mset (?s m) = mset (?s m')" by (rule arg_cong)
    then show "mset (sm_files m) = mset (sm_files m')" by simp
  next
    assume eq: "mset (sm_files m) = mset (sm_files m')"
    then show "length (sm_files m) = length (sm_files m')" by (rule mset_eq_length)
    have "?s m = ?s m'" using eq inj by (intro sort_key_inj_key_eq) simp_all
    then show "concat (map hash_row (?s m)) = concat (map hash_row (?s m'))" by simp
  qed
  then show ?thesis
    unfolding skillPackContentHashInput_def Let_def sort_by_str_cmp
    by (auto simp: line_inject D D')
qed

lemma sample_pack_valid:
  "manifest_schema (sample_pack [\<lparr>sf_path = ''SKILL.md'', sf_contentHash = sample_hash, sf_byteSize = 37\<rparr>])"
  "checkSkillPackManifest (sample_pack [\<lparr>sf_path = ''SKILL.md'', sf_contentHash = sample_hash, sf_byteSize = 37\<rparr>]) = Accept 37"
  "manifest_schema (sample_pack [\<lparr>sf_path = ''SKILL.md'', sf_contentHash = sample_hash, sf_byteSize = 38\<rparr>])"
  "checkSkillPackManifest (sample_pack [\<lparr>sf_path = ''SKILL.md'', sf_contentHash = sample_hash, sf_byteSize = 38\<rparr>]) = Accept 38"
  by code_simp+

theorem skill_hash_input_exact_witness:
  "skillPackContentHashInput (sample_pack [\<lparr>sf_path = ''SKILL.md'', sf_contentHash = sample_hash, sf_byteSize = 37\<rparr>]) \<noteq>
   skillPackContentHashInput (sample_pack [\<lparr>sf_path = ''SKILL.md'', sf_contentHash = sample_hash, sf_byteSize = 38\<rparr>])"
  using skill_hash_input_exact [OF sample_pack_valid(1,3,2,4)] by (simp add: sample_pack_def)

section \<open>The frontmatter grammar\<close>

lemma split_on_line: "c \<notin> set a \<Longrightarrow> split_on c (a @ c # b) = a # split_on c b"
  by (induction a) auto

lemma split_on_nonempty [simp]: "split_on c s \<noteq> []"
  by (cases s) (auto split: list.splits)

lemma trimEnd_prefix: "prefix (js_trimEnd s) s"
  unfolding js_trimEnd_def by (metis suffix_dropWhile suffix_to_prefix rev_rev_ident)

lemma not_delimiter: "c \<noteq> CHR ''-'' \<Longrightarrow> \<not> delimiter (c # s)"
  using trimEnd_prefix [of "c # s"] by (auto simp: delimiter_def FRONTMATTER_DELIMITER_def)

lemma trim_nonempty: "\<not> js_space c \<Longrightarrow> js_trim (c # s) \<noteq> []"
  by (simp add: js_trim_def dropWhile_append split: if_splits)

lemma unquote_plain:
  "js_trim v = v \<Longrightarrow> v \<noteq> [] \<Longrightarrow> hd v \<noteq> CHR 0x22 \<Longrightarrow> hd v \<noteq> CHR 0x27 \<Longrightarrow> unquote v = Some v"
  by (simp add: unquote_def Let_def)

lemma trimmed_hd: "js_trim v = v \<Longrightarrow> v \<noteq> [] \<Longrightarrow> \<not> js_space (hd v)"
proof (cases v)
  case (Cons c s)
  assume "js_trim v = v"
  then have "length (dropWhile js_space v) \<ge> length v"
    using length_dropWhile_le [of js_space "rev (dropWhile js_space v)"] by (simp add: js_trim_def) (metis length_rev)
  moreover have "js_space c \<Longrightarrow> length (dropWhile js_space v) < length v"
    using length_dropWhile_le [of js_space s] by (simp add: Cons)
  ultimately show ?thesis by (auto simp: Cons)
qed simp

lemma trim_no_space: "(\<forall>c \<in> set v. \<not> js_space c) \<Longrightarrow> js_trim v = v"
proof -
  assume *: "\<forall>c \<in> set v. \<not> js_space c"
  have "dropWhile js_space v = v" using * by (cases v) auto
  moreover have "dropWhile js_space (rev v) = rev v" using * by (cases "rev v") (auto simp: dropWhile_eq_self_iff)
  ultimately show ?thesis by (simp add: js_trim_def)
qed

text \<open>A well-formed field line \<open>key: value\<close>.\<close>

definition plain_value :: "string \<Rightarrow> bool" where
  "plain_value v = (v \<noteq> [] \<and> js_trim v = v \<and> CHR 0x0A \<notin> set v \<and> CHR 0x0D \<notin> set v \<and>
     hd v \<noteq> CHR 0x22 \<and> hd v \<noteq> CHR 0x27)"

lemma plain_value_drop: "plain_value v \<Longrightarrow> dropWhile (\<lambda>x. x = CHR 0x20 \<or> x = CHR 0x09) (CHR 0x20 # v) = v"
  using trimmed_hd [of v] by (cases v) (auto simp: plain_value_def js_space_def)

lemma key_chars: "list_all key_char ''name''" "list_all key_char ''description''" "\<not> key_char (CHR '':'')"
  "key_start (CHR ''n'')" "key_start (CHR ''d'')"
  by (simp_all add: key_char_def key_start_def isdigit_def less_eq_char_def)

lemma line_match:
  assumes "plain_value v" and "list_all key_char (c # k)" and "key_start c"
  shows "FRONTMATTER_LINE_PATTERN ((c # k) @ CHR '':'' # CHR 0x20 # v) = Some (c # k, v)"
proof -
  have T: "takeWhile key_char ((c # k) @ CHR '':'' # CHR 0x20 # v) = c # k"
    and R: "dropWhile key_char ((c # k) @ CHR '':'' # CHR 0x20 # v) = CHR '':'' # CHR 0x20 # v"
    using assms(2) key_chars(3) by (simp_all add: list_all_iff takeWhile_append2 dropWhile_append2)
  show ?thesis
    unfolding FRONTMATTER_LINE_PATTERN_def Let_def T R
    using assms(1,3) plain_value_drop [OF assms(1)] by (simp add: plain_value_def)
qed

lemma name_plain:
  assumes "SKILL_PACK_NAME_PATTERN n"
  shows "plain_value n"
proof (cases n)
  case (Cons c cs)
  have "\<forall>x \<in> set n. prefix_char x" using assms by (auto simp: Cons SKILL_PACK_NAME_PATTERN_def list_all_iff prefix_char_def)
  moreover have "prefix_char x \<Longrightarrow> \<not> js_space x \<and> x \<noteq> CHR 0x0A \<and> x \<noteq> CHR 0x0D \<and> x \<noteq> CHR 0x22 \<and> x \<noteq> CHR 0x27" for x
    by (auto simp: prefix_char_def prefix_start_def isdigit_def js_space_def less_eq_char_def)
  ultimately show ?thesis using trim_no_space [of n] Cons by (auto simp: plain_value_def)
qed (use assms in \<open>simp add: SKILL_PACK_NAME_PATTERN_def\<close>)

text \<open>The text of a skill file with the two fields, in the order the format documents.\<close>

definition skill_file_text :: "string \<Rightarrow> string \<Rightarrow> string \<Rightarrow> string" where
  "skill_file_text n d body =
     ''---'' @ [CHR 0x0A] @ ''name: '' @ n @ [CHR 0x0A] @ ''description: '' @ d @ [CHR 0x0A] @ ''---'' @ [CHR 0x0A] @ body"

text \<open>
  Round trip of the frontmatter: a file that declares a valid name and a plain description (in
  range, trimmed, on one line, not opening with a quote) parses back to exactly these two fields,
  whatever text follows.
\<close>

theorem frontmatter_round_trip:
  assumes "SKILL_PACK_NAME_PATTERN n" and "length n \<le> SKILL_PACK_NAME_MAX_LENGTH"
    and "plain_value d" and "length d \<le> SKILL_PACK_DESCRIPTION_MAX_LENGTH"
  shows "parseSkillFrontmatter (skill_file_text n d body) = Inr \<lparr>fm_name = n, fm_description = d\<rparr>"
proof -
  let ?n = "''name: '' @ n" and ?d = "''description: '' @ d"
  have N: "plain_value n" using assms(1) by (rule name_plain)
  have L: "split_on (CHR 0x0A) (skill_file_text n d body) = ''---'' # ?n # ?d # ''---'' # split_on (CHR 0x0A) body"
    using N assms(3) split_on_line [of "CHR 0x0A" "''---''"] split_on_line [of "CHR 0x0A" ?n] split_on_line [of "CHR 0x0A" ?d]
    by (simp add: skill_file_text_def plain_value_def)
  have "delimiter ''---''" by (simp add: delimiter_def js_trimEnd_def js_space_def FRONTMATTER_DELIMITER_def)
  moreover have "\<not> delimiter ?n" "\<not> delimiter ?d" by (simp_all add: not_delimiter)
  moreover have "js_trim ?n \<noteq> []" "js_trim ?d \<noteq> []" by (simp_all add: trim_nonempty js_space_def)
  moreover have "FRONTMATTER_LINE_PATTERN ?n = Some (''name'', n)"
    using line_match [OF N key_chars(1,4)] by simp
  moreover have "FRONTMATTER_LINE_PATTERN ?d = Some (''description'', d)"
    using line_match [OF assms(3) key_chars(2,5)] by simp
  moreover have "unquote n = Some n" "unquote d = Some d" "n \<noteq> []" "d \<noteq> []"
    using N assms(3) by (simp_all add: plain_value_def unquote_plain)
  ultimately show ?thesis
    using assms(1,2,4) unfolding parseSkillFrontmatter_def Let_def L
    by (simp add: SKILL_FRONTMATTER_FIELDS_def)
qed

theorem frontmatter_round_trip_witness:
  "parseSkillFrontmatter (skill_file_text ''demo'' ''A demo.'' ''# Hi'') = (Inr \<lparr>fm_name = ''demo'', fm_description = ''A demo.''\<rparr> :: (unit, skill_frontmatter) result)"
proof -
  have "SKILL_PACK_NAME_PATTERN ''demo''" "length ''demo'' \<le> SKILL_PACK_NAME_MAX_LENGTH" "plain_value ''A demo.''"
    "length ''A demo.'' \<le> SKILL_PACK_DESCRIPTION_MAX_LENGTH" by code_simp+
  then show ?thesis by (rule frontmatter_round_trip)
qed

lemma frontmatter_fields_Inr:
  "frontmatter_fields lines acc = Inr acc' \<Longrightarrow> line \<in> set lines \<Longrightarrow>
     js_trim line = [] \<or> (\<exists>key v. FRONTMATTER_LINE_PATTERN line = Some (key, v) \<and> key \<in> set SKILL_FRONTMATTER_FIELDS)"
  by (induction lines acc rule: frontmatter_fields.induct) (auto split: if_splits option.splits prod.splits)

lemma frontmatter_fields_values:
  assumes "frontmatter_fields lines acc = Inr acc'" and "\<And>k. jget acc k \<noteq> Some []"
  shows "jget acc' k \<noteq> Some []"
  using assms
proof (induction lines arbitrary: acc)
  case Nil
  then show ?case by simp
next
  case (Cons line lines)
  have J: "jget (jset key v acc) k' \<noteq> Some []" if "v \<noteq> []" for key v k' using Cons.prems(2) that by simp
  show ?case
    using Cons.IH [of acc] Cons.IH [OF _ J] Cons.prems
    by (simp split: if_splits option.splits prod.splits)
qed

text \<open>
  The grammar is closed: when a file parses, its first line and a later one are delimiters,
  every line between them is blank or declares \<open>name\<close> or \<open>description\<close> (so a line that declares
  tools, hooks or an environment is never skipped over), and the result satisfies the declared
  limits.
\<close>

theorem frontmatter_closed:
  assumes "parseSkillFrontmatter text = (Inr fm :: ('c, skill_frontmatter) result)"
  shows "delimiter (hd (split_on (CHR 0x0A) text)) \<and> list_ex delimiter (tl (split_on (CHR 0x0A) text)) \<and>
    (\<forall>line \<in> set (takeWhile (\<lambda>l. \<not> delimiter l) (tl (split_on (CHR 0x0A) text))).
       js_trim line = [] \<or>
       (\<exists>key v. FRONTMATTER_LINE_PATTERN line = Some (key, v) \<and> (key = ''name'' \<or> key = ''description''))) \<and>
    SKILL_PACK_NAME_PATTERN (fm_name fm) \<and> length (fm_name fm) \<le> SKILL_PACK_NAME_MAX_LENGTH \<and>
    fm_description fm \<noteq> [] \<and> length (fm_description fm) \<le> SKILL_PACK_DESCRIPTION_MAX_LENGTH"
proof -
  let ?ls = "takeWhile (\<lambda>l. \<not> delimiter l) (tl (split_on (CHR 0x0A) text))"
  obtain acc where F: "frontmatter_fields ?ls [] = (Inr acc :: ('c, string jmap) result)"
    and D: "delimiter (hd (split_on (CHR 0x0A) text))" "list_ex delimiter (tl (split_on (CHR 0x0A) text))"
    and V: "jget acc ''name'' = Some (fm_name fm)" "jget acc ''description'' = Some (fm_description fm)"
      "SKILL_PACK_NAME_PATTERN (fm_name fm)" "length (fm_name fm) \<le> SKILL_PACK_NAME_MAX_LENGTH"
      "length (fm_description fm) \<le> SKILL_PACK_DESCRIPTION_MAX_LENGTH"
    using assms
    by (auto simp: parseSkillFrontmatter_def Let_def not_less split: if_splits sum.splits option.splits)
  have "fm_description fm \<noteq> []" using frontmatter_fields_values [OF F, of "''description''"] V(2) by auto
  moreover have "js_trim line = [] \<or>
       (\<exists>key v. FRONTMATTER_LINE_PATTERN line = Some (key, v) \<and> (key = ''name'' \<or> key = ''description''))"
    if "line \<in> set ?ls" for line
    using frontmatter_fields_Inr [OF F that] by (auto simp: SKILL_FRONTMATTER_FIELDS_def)
  ultimately show ?thesis using D V by blast
qed

theorem frontmatter_closed_witness:
  "SKILL_PACK_NAME_PATTERN ''demo'' \<and>
   list_all (\<lambda>line. js_trim line = [] \<or>
      (\<exists>key v. FRONTMATTER_LINE_PATTERN line = Some (key, v) \<and> (key = ''name'' \<or> key = ''description'')))
     (takeWhile (\<lambda>l. \<not> delimiter l) (tl (split_on (CHR 0x0A) sample_entry)))"
proof -
  have "parseSkillFrontmatter sample_entry = (Inr \<lparr>fm_name = ''demo'', fm_description = ''Demo''\<rparr> :: (unit, skill_frontmatter) result)"
    by code_simp
  from frontmatter_closed [OF this] show ?thesis by (simp add: list_all_iff)
qed

end
