(* ===== verification/Task_Attempts.thy ===== *)
theory Task_Attempts
  imports Presence Feed "HOL-Library.Option_ord"
begin

text \<open>
  Task attempts of the hosted surface (\<open>packages/cloud/src/stores/in-memory/task-attempts.ts\<close>,
  \<open>task-change-map.ts\<close>, the attempt half of \<open>task-retirement.ts\<close>, types of \<open>stores/ports.ts\<close>):
  the ownership authority that the inbound gate reads. The operations of one task run one after
  the other on its mutation chain and none of those here suspends inside it, so each is one step.
  The callbacks a write triggers (closing the task's logs, waking its readers) are recorded in
  order in \<open>as_events\<close>.
\<close>

section \<open>Data\<close>

datatype task_attempt_status =
  Offered | Claimed | Running | Cancel_requested | Complete | Failed | Cancelled

definition TASK_ATTEMPT_STATUSES :: "task_attempt_status list" where
  "TASK_ATTEMPT_STATUSES = [Offered, Claimed, Running, Cancel_requested, Complete, Failed, Cancelled]"

definition TASK_ATTEMPT_ACTIVE_STATUSES :: "task_attempt_status list" where
  "TASK_ATTEMPT_ACTIVE_STATUSES = [Offered, Claimed, Running]"

definition TASK_ATTEMPT_UNFINISHED_STATUSES :: "task_attempt_status list" where
  "TASK_ATTEMPT_UNFINISHED_STATUSES = [Offered, Claimed, Running, Cancel_requested]"

datatype task_abandon_cause = Operator | Abandon_device_revoked | Abandon_device_superseded

fun abandon_cause_str :: "task_abandon_cause \<Rightarrow> string" where
  "abandon_cause_str Operator = ''operator''"
| "abandon_cause_str Abandon_device_revoked = ''device_revoked''"
| "abandon_cause_str Abandon_device_superseded = ''device_superseded''"

definition TASK_ABANDON_CAUSES :: "string list" where
  "TASK_ABANDON_CAUSES = [''operator'', ''device_revoked'', ''device_superseded'']"

definition isTaskAbandonCause :: "string \<Rightarrow> bool" where
  "isTaskAbandonCause v = (v \<in> set TASK_ABANDON_CAUSES)"

record agent_ref =
  ar_agentId :: string
  ar_profileRevision :: string

record task_cancellation =
  tc_requestedAt :: string
  tc_reason :: "string option"

record task_attempt =
  ta_tenantId :: tenant
  ta_taskId :: string
  ta_deviceId :: string
  ta_agentRef :: "agent_ref option"
  ta_ownerDeviceId :: "string option"
  ta_status :: task_attempt_status
  ta_claimedRuntime :: "string option"
  ta_claimedHarnessId :: "string option"
  ta_claimedRuntimeCapabilities :: "runtime_capabilities option"
  ta_terminalCause :: "string option"
  ta_cancellation :: "task_cancellation option"
  ta_offeredAt :: "string option"
  ta_claimedAt :: "string option"
  ta_firstOutputAt :: "string option"
  ta_terminalAt :: "string option"
  ta_archivedAt :: "string option"
  ta_updatedAt :: string

record message_admission =
  am_deviceId :: string
  am_messageId :: string
  am_payloadBody :: string
  am_terminalBody :: "string option"

text \<open>The two callbacks of a write to the attempt map, in the order they run.\<close>

datatype task_event =
    OutputClosed tenant string string
  | TaskChanged tenant string

record attempt_state =
  as_attempts :: "task_attempt jmap"
  as_messageAdmissions :: "message_admission jmap"
  as_archiveSettled :: "string jmap"
  as_events :: "task_event list"

definition empty_attempts :: attempt_state where
  "empty_attempts = \<lparr>as_attempts = [], as_messageAdmissions = [], as_archiveSettled = [], as_events = []\<rparr>"

section \<open>The attempt map\<close>

definition outputClosedAt :: "task_attempt \<Rightarrow> string option" where
  "outputClosedAt a = (case ta_terminalAt a of Some at' \<Rightarrow> Some at' | None \<Rightarrow> map_option tc_requestedAt (ta_cancellation a))"

text \<open>\<open>AttemptMap.set\<close>: a write that first closes the output reports it before the change.\<close>

definition attempt_set :: "string \<Rightarrow> task_attempt \<Rightarrow> attempt_state \<Rightarrow> attempt_state" where
  "attempt_set key a s =
     (let before = jget (as_attempts s) key;
          closed = (case outputClosedAt a of
              None \<Rightarrow> []
            | Some at' \<Rightarrow> if before = None \<or> outputClosedAt (the before) = None
                          then [OutputClosed (ta_tenantId a) (ta_taskId a) at'] else [])
      in s\<lparr>as_attempts := jset key a (as_attempts s),
           as_events := as_events s @ closed @ [TaskChanged (ta_tenantId a) (ta_taskId a)]\<rparr>)"

section \<open>Operations\<close>

definition sameAgentRef :: "agent_ref option \<Rightarrow> agent_ref option \<Rightarrow> bool" where
  "sameAgentRef l r = (map_option ar_agentId l = map_option ar_agentId r \<and>
     map_option ar_profileRevision l = map_option ar_profileRevision r)"

definition terminal_status :: "task_attempt_status \<Rightarrow> bool" where
  "terminal_status st = (st \<in> {Complete, Failed, Cancelled})"

definition fresh_attempt :: "tenant \<Rightarrow> string \<Rightarrow> string \<Rightarrow> agent_ref option \<Rightarrow> string \<Rightarrow> task_attempt" where
  "fresh_attempt t task dev ref now =
     \<lparr>ta_tenantId = t, ta_taskId = task, ta_deviceId = dev, ta_agentRef = ref, ta_ownerDeviceId = None,
      ta_status = Offered, ta_claimedRuntime = None, ta_claimedHarnessId = None, ta_claimedRuntimeCapabilities = None,
      ta_terminalCause = None, ta_cancellation = None, ta_offeredAt = Some now, ta_claimedAt = None,
      ta_firstOutputAt = None, ta_terminalAt = None, ta_archivedAt = None, ta_updatedAt = now\<rparr>"

definition attempt_open ::
  "tenant \<Rightarrow> string \<Rightarrow> string \<Rightarrow> agent_ref option \<Rightarrow> int \<Rightarrow> attempt_state \<Rightarrow> task_attempt \<times> attempt_state" where
  "attempt_open t task dev ref now s =
     (let key = tenantKey t [task] in
      case jget (as_attempts s) key of
        Some existing \<Rightarrow> (existing, s)
      | None \<Rightarrow> let a = fresh_attempt t task dev ref (toISOString now) in (a, attempt_set key a s))"

definition reserveAgentOffer ::
  "tenant \<Rightarrow> string \<Rightarrow> string \<Rightarrow> agent_ref \<Rightarrow> int \<Rightarrow> attempt_state \<Rightarrow> (task_attempt \<times> bool) \<times> attempt_state" where
  "reserveAgentOffer t task dev ref now s =
     (let key = tenantKey t [task] in
      case jget (as_attempts s) key of
        Some existing \<Rightarrow> ((existing, False), s)
      | None \<Rightarrow> let a = fresh_attempt t task dev (Some ref) (toISOString now) in ((a, True), attempt_set key a s))"

record message_input =
  mi_taskId :: string
  mi_deviceId :: string
  mi_messageId :: string
  mi_payloadBody :: string

definition same_admission :: "message_input \<Rightarrow> message_admission \<Rightarrow> bool" where
  "same_admission i a = (am_deviceId a = mi_deviceId i \<and> am_messageId a = mi_messageId i \<and> am_payloadBody a = mi_payloadBody i)"

datatype reservation_answer = MsgReserved | MsgPending | MsgRejected

definition reserveAgentMessage ::
  "tenant \<Rightarrow> message_input \<Rightarrow> int \<Rightarrow> attempt_state \<Rightarrow> reservation_answer \<times> attempt_state" where
  "reserveAgentMessage t i now s =
     (let key = tenantKey t [mi_taskId i] in
      case jget (as_messageAdmissions s) key of
        Some existing \<Rightarrow> (if same_admission i existing then MsgPending else MsgRejected, s)
      | None \<Rightarrow>
     (case jget (as_attempts s) key of
        None \<Rightarrow> (MsgRejected, s)
      | Some a \<Rightarrow>
          if ta_deviceId a \<noteq> mi_deviceId i \<or> ta_cancellation a \<noteq> None \<or> ta_status a \<notin> {Offered, Claimed, Running}
          then (MsgRejected, s)
          else
            let s1 = s\<lparr>as_messageAdmissions := jset key
                  \<lparr>am_deviceId = mi_deviceId i, am_messageId = mi_messageId i, am_payloadBody = mi_payloadBody i, am_terminalBody = None\<rparr>
                  (as_messageAdmissions s)\<rparr>;
                s2 = (if ta_ownerDeviceId a \<noteq> None \<and> ta_firstOutputAt a = None
                      then attempt_set key (a\<lparr>ta_firstOutputAt := Some (toISOString now)\<rparr>) s1 else s1)
            in (MsgReserved, s2)))"

definition recordFirstOutput ::
  "tenant \<Rightarrow> string \<Rightarrow> string \<Rightarrow> int \<Rightarrow> attempt_state \<Rightarrow> task_attempt option \<times> attempt_state" where
  "recordFirstOutput t task dev now s =
     (let key = tenantKey t [task] in
      case jget (as_attempts s) key of
        None \<Rightarrow> (None, s)
      | Some a \<Rightarrow>
          if ta_deviceId a \<noteq> dev \<or> ta_ownerDeviceId a = None \<or> ta_firstOutputAt a \<noteq> None \<or> terminal_status (ta_status a)
          then (Some a, s)
          else let stamped = a\<lparr>ta_firstOutputAt := Some (toISOString now)\<rparr> in (Some stamped, attempt_set key stamped s))"

definition readTaskAgentMessage :: "tenant \<Rightarrow> string \<Rightarrow> string \<Rightarrow> attempt_state \<Rightarrow> message_admission option" where
  "readTaskAgentMessage t task dev s =
     (case jget (as_messageAdmissions s) (tenantKey t [task]) of
        None \<Rightarrow> None
      | Some a \<Rightarrow> if am_deviceId a = dev then Some a else None)"

definition readAgentMessage :: "tenant \<Rightarrow> message_input \<Rightarrow> attempt_state \<Rightarrow> message_admission option" where
  "readAgentMessage t i s =
     (case jget (as_messageAdmissions s) (tenantKey t [mi_taskId i]) of
        None \<Rightarrow> None
      | Some a \<Rightarrow> if same_admission i a then Some a else None)"

definition terminalize ::
  "string \<Rightarrow> message_input \<Rightarrow> string \<Rightarrow> attempt_state \<Rightarrow> message_admission option \<times> attempt_state" where
  "terminalize key i terminalBody s =
     (case jget (as_messageAdmissions s) key of
        None \<Rightarrow> (None, s)
      | Some a \<Rightarrow>
          if \<not> same_admission i a then (None, s)
          else if am_terminalBody a \<noteq> None then (Some a, s)
          else let terminal = a\<lparr>am_terminalBody := Some terminalBody\<rparr>
               in (Some terminal, s\<lparr>as_messageAdmissions := jset key terminal (as_messageAdmissions s)\<rparr>))"

definition finalizeAgentMessage ::
  "tenant \<Rightarrow> message_input \<Rightarrow> string \<Rightarrow> attempt_state \<Rightarrow> message_admission option \<times> attempt_state" where
  "finalizeAgentMessage t i terminalBody s = terminalize (tenantKey t [mi_taskId i]) i terminalBody s"

definition attempt_get :: "tenant \<Rightarrow> string \<Rightarrow> attempt_state \<Rightarrow> task_attempt option" where
  "attempt_get t task s = jget (as_attempts s) (tenantKey t [task])"

definition attempt_getMany :: "tenant \<Rightarrow> string list \<Rightarrow> attempt_state \<Rightarrow> task_attempt list" where
  "attempt_getMany t tasks s =
     concat (map (\<lambda>task. case jget (as_attempts s) (tenantKey t [task]) of None \<Rightarrow> [] | Some a \<Rightarrow> [a]) tasks)"

record attempt_list_query =
  al_limit :: jsnum
  al_cursor :: "string option"
  al_active :: bool

record attempt_page =
  ap_attempts :: "task_attempt list"
  ap_nextCursor :: "string option"

text \<open>The one error of the port; the active filter is \<open>true\<close> or absent by its type.\<close>

datatype attempt_error = Coordination_input_invalid

definition assertTaskAttemptListLimit :: "jsnum \<Rightarrow> attempt_error + unit" where
  "assertTaskAttemptListLimit limit =
     (if \<not> isSafeInteger limit \<or> num_int limit \<le> 0 then Inl Coordination_input_invalid else Inr ())"

definition attempt_active :: "task_attempt \<Rightarrow> bool" where
  "attempt_active a = (ta_cancellation a = None \<and> list_ex (\<lambda>st. st = ta_status a) TASK_ATTEMPT_ACTIVE_STATUSES)"

definition attempt_matches :: "tenant \<Rightarrow> bool \<Rightarrow> string option \<Rightarrow> attempt_state \<Rightarrow> task_attempt list" where
  "attempt_matches t active cursor s =
     sort_by (\<lambda>l r. str_cmp (ta_taskId l) (ta_taskId r))
       (filter (\<lambda>a. case cursor of None \<Rightarrow> True | Some c \<Rightarrow> ta_taskId a > c)
         (filter (\<lambda>a. \<not> active \<or> attempt_active a)
           (filter (\<lambda>a. ta_tenantId a = t) (jvals (as_attempts s)))))"

definition attempt_list :: "tenant \<Rightarrow> attempt_list_query \<Rightarrow> attempt_state \<Rightarrow> attempt_error + attempt_page" where
  "attempt_list t q s =
     (case assertTaskAttemptListLimit (al_limit q) of
        Inl e \<Rightarrow> Inl e
      | Inr _ \<Rightarrow>
          let matches = attempt_matches t (al_active q) (al_cursor q) s;
              attempts = slice0 (num_int (al_limit q)) matches;
              hasMore = (length matches > length attempts)
          in Inr \<lparr>ap_attempts = attempts,
                  ap_nextCursor = (if hasMore then map_option ta_taskId (at_last attempts) else None)\<rparr>)"

record attempt_counts =
  ac_byStatus :: "task_attempt_status \<Rightarrow> int"
  ac_cancellationRequested :: int

fun count_loop :: "tenant \<Rightarrow> task_attempt list \<Rightarrow> attempt_counts \<Rightarrow> attempt_counts" where
  "count_loop t [] c = c"
| "count_loop t (a # as) c =
     (if ta_tenantId a \<noteq> t then count_loop t as c
      else if ta_cancellation a \<noteq> None
      then count_loop t as (c\<lparr>ac_cancellationRequested := ac_cancellationRequested c + 1\<rparr>)
      else count_loop t as (c\<lparr>ac_byStatus := (ac_byStatus c)(ta_status a := ac_byStatus c (ta_status a) + 1)\<rparr>))"

definition countByStatus :: "tenant \<Rightarrow> attempt_state \<Rightarrow> attempt_counts" where
  "countByStatus t s = count_loop t (jvals (as_attempts s)) \<lparr>ac_byStatus = (\<lambda>_. 0), ac_cancellationRequested = 0\<rparr>"

record claim_input =
  cl_taskId :: string
  cl_deviceId :: string
  cl_runtime :: "string option"
  cl_harnessId :: "string option"
  cl_capabilities :: "runtime_capabilities option"

definition or_else :: "'a option \<Rightarrow> 'a option \<Rightarrow> 'a option" where
  "or_else given old = (case given of None \<Rightarrow> old | Some v \<Rightarrow> Some v)"

definition attempt_claim :: "tenant \<Rightarrow> claim_input \<Rightarrow> int \<Rightarrow> attempt_state \<Rightarrow> task_attempt option \<times> attempt_state" where
  "attempt_claim t i now s =
     (let key = tenantKey t [cl_taskId i] in
      case jget (as_attempts s) key of
        None \<Rightarrow> (None, s)
      | Some existing \<Rightarrow>
          if ta_deviceId existing \<noteq> cl_deviceId i \<or> ta_ownerDeviceId existing \<noteq> None \<or>
             ta_cancellation existing \<noteq> None \<or> ta_status existing \<noteq> Offered
          then (Some existing, s)
          else
            let claimed = existing\<lparr>ta_ownerDeviceId := Some (cl_deviceId i),
                  ta_claimedRuntime := or_else (cl_runtime i) (ta_claimedRuntime existing),
                  ta_claimedHarnessId := or_else (cl_harnessId i) (ta_claimedHarnessId existing),
                  ta_claimedRuntimeCapabilities := or_else (cl_capabilities i) (ta_claimedRuntimeCapabilities existing),
                  ta_status := Claimed, ta_claimedAt := Some (toISOString now), ta_updatedAt := toISOString now\<rparr>
            in (Some claimed, attempt_set key claimed s))"

record status_input =
  si_taskId :: string
  si_status :: task_attempt_status
  si_agentRef :: "agent_ref option"
  si_terminalCause :: "string option"

definition status_refused :: "task_attempt \<Rightarrow> status_input \<Rightarrow> bool" where
  "status_refused existing i =
     ((ta_agentRef existing = None) \<noteq> (si_agentRef i = None) \<or>
      ta_agentRef existing \<noteq> None \<and> \<not> sameAgentRef (ta_agentRef existing) (si_agentRef i) \<or>
      (if ta_cancellation existing \<noteq> None
       then si_status i \<noteq> Cancelled \<or> ta_status existing = Cancelled
       else terminal_status (ta_status existing)))"

definition recordStatus :: "tenant \<Rightarrow> status_input \<Rightarrow> int \<Rightarrow> attempt_state \<Rightarrow> task_attempt option \<times> attempt_state" where
  "recordStatus t i now s =
     (let key = tenantKey t [si_taskId i] in
      case jget (as_attempts s) key of
        None \<Rightarrow> (None, s)
      | Some existing \<Rightarrow>
          if status_refused existing i then (Some existing, s)
          else
            let updatedAt = toISOString now;
                updated = existing\<lparr>ta_status := si_status i,
                  ta_terminalCause := or_else (si_terminalCause i) (ta_terminalCause existing),
                  ta_terminalAt := (if ta_terminalAt existing = None \<and> terminal_status (si_status i)
                                    then Some updatedAt else ta_terminalAt existing),
                  ta_updatedAt := updatedAt\<rparr>
            in (Some updated, attempt_set key updated s))"

section \<open>Retirement\<close>

definition unfinished :: "task_attempt \<Rightarrow> bool" where
  "unfinished a = (ta_status a \<in> set TASK_ATTEMPT_UNFINISHED_STATUSES)"

definition abandoned :: "task_attempt \<Rightarrow> task_abandon_cause \<Rightarrow> string \<Rightarrow> task_attempt" where
  "abandoned a cause now =
     a\<lparr>ta_status := Cancelled, ta_terminalCause := Some (abandon_cause_str cause),
       ta_terminalAt := Some (case ta_terminalAt a of None \<Rightarrow> now | Some x \<Rightarrow> x), ta_updatedAt := now\<rparr>"

text \<open>The loop over the live map: a write to the row just visited keeps its place.\<close>

fun settle_loop ::
  "tenant \<Rightarrow> string \<Rightarrow> task_abandon_cause \<Rightarrow> string \<Rightarrow> (string \<times> task_attempt) list \<Rightarrow> attempt_state \<Rightarrow> attempt_state" where
  "settle_loop t dev cause now [] s = s"
| "settle_loop t dev cause now ((key, a) # rows) s =
     (if ta_tenantId a \<noteq> t \<or> (ta_deviceId a \<noteq> dev \<and> ta_ownerDeviceId a \<noteq> Some dev) then settle_loop t dev cause now rows s
      else if unfinished a then settle_loop t dev cause now rows (attempt_set key (abandoned a cause now) s)
      else settle_loop t dev cause now rows s)"

definition settleDeviceAttempts ::
  "tenant \<Rightarrow> string \<Rightarrow> task_abandon_cause \<Rightarrow> int \<Rightarrow> attempt_state \<Rightarrow> attempt_state" where
  "settleDeviceAttempts t dev cause now s = settle_loop t dev cause (toISOString now) (as_attempts s) s"

section \<open>The attempt half of a host cancellation and of an abandonment\<close>

definition cancellation_written :: "task_attempt \<Rightarrow> string option \<Rightarrow> string \<Rightarrow> task_attempt" where
  "cancellation_written existing reason requestedAt =
     existing\<lparr>ta_status := (if ta_ownerDeviceId existing = None then Cancelled else Cancel_requested),
       ta_cancellation := Some \<lparr>tc_requestedAt = requestedAt, tc_reason = reason\<rparr>,
       ta_terminalAt := (if ta_ownerDeviceId existing = None then Some requestedAt else ta_terminalAt existing),
       ta_updatedAt := requestedAt\<rparr>"

definition cancel_attempt :: "tenant \<Rightarrow> string \<Rightarrow> string option \<Rightarrow> int \<Rightarrow> attempt_state \<Rightarrow> task_attempt option \<times> attempt_state" where
  "cancel_attempt t task reason now s =
     (case jget (as_attempts s) (tenantKey t [task]) of
        None \<Rightarrow> (None, s)
      | Some existing \<Rightarrow>
          if ta_cancellation existing \<noteq> None \<or> terminal_status (ta_status existing) then (Some existing, s)
          else let a = cancellation_written existing reason (toISOString now)
               in (Some a, attempt_set (tenantKey t [task]) a s))"

definition abandon_attempt :: "tenant \<Rightarrow> string \<Rightarrow> task_abandon_cause \<Rightarrow> int \<Rightarrow> attempt_state \<Rightarrow> task_attempt option \<times> attempt_state" where
  "abandon_attempt t task cause now s =
     (case jget (as_attempts s) (tenantKey t [task]) of
        None \<Rightarrow> (None, s)
      | Some a \<Rightarrow>
          if \<not> unfinished a then (Some a, s)
          else let settled = abandoned a cause (toISOString now)
               in (Some settled, attempt_set (tenantKey t [task]) settled s))"

section \<open>One call of the port\<close>

datatype attempt_op =
    AOpen string string "agent_ref option" int
  | AReserveOffer string string agent_ref int
  | AReserveMessage message_input int
  | AFirstOutput string string int
  | AReadTaskMessage string string
  | AReadMessage message_input
  | AFinalize message_input string
  | AGet string
  | AGetMany "string list"
  | AList attempt_list_query
  | ACount
  | AClaim claim_input int
  | ARecordStatus status_input int
  | ASettle string task_abandon_cause int
  | ACancel string "string option" int
  | AAbandon string task_abandon_cause int

datatype attempt_answer =
    AttemptIs task_attempt
  | AttemptMaybe "task_attempt option"
  | OfferReserved "task_attempt \<times> bool"
  | MessageAnswer reservation_answer
  | AdmissionMaybe "message_admission option"
  | AttemptsAre "task_attempt list"
  | AttemptPage "attempt_error + attempt_page"
  | CountsAre attempt_counts
  | AttemptDone

fun attempt_exec :: "tenant \<Rightarrow> attempt_op \<Rightarrow> attempt_state \<Rightarrow> attempt_answer \<times> attempt_state" where
  "attempt_exec t (AOpen task dev ref now) s = map_prod AttemptIs id (attempt_open t task dev ref now s)"
| "attempt_exec t (AReserveOffer task dev ref now) s = map_prod OfferReserved id (reserveAgentOffer t task dev ref now s)"
| "attempt_exec t (AReserveMessage i now) s = map_prod MessageAnswer id (reserveAgentMessage t i now s)"
| "attempt_exec t (AFirstOutput task dev now) s = map_prod AttemptMaybe id (recordFirstOutput t task dev now s)"
| "attempt_exec t (AReadTaskMessage task dev) s = (AdmissionMaybe (readTaskAgentMessage t task dev s), s)"
| "attempt_exec t (AReadMessage i) s = (AdmissionMaybe (readAgentMessage t i s), s)"
| "attempt_exec t (AFinalize i body) s = map_prod AdmissionMaybe id (finalizeAgentMessage t i body s)"
| "attempt_exec t (AGet task) s = (AttemptMaybe (attempt_get t task s), s)"
| "attempt_exec t (AGetMany tasks) s = (AttemptsAre (attempt_getMany t tasks s), s)"
| "attempt_exec t (AList q) s = (AttemptPage (attempt_list t q s), s)"
| "attempt_exec t ACount s = (CountsAre (countByStatus t s), s)"
| "attempt_exec t (AClaim i now) s = map_prod AttemptMaybe id (attempt_claim t i now s)"
| "attempt_exec t (ARecordStatus i now) s = map_prod AttemptMaybe id (recordStatus t i now s)"
| "attempt_exec t (ASettle dev cause now) s = (AttemptDone, settleDeviceAttempts t dev cause now s)"
| "attempt_exec t (ACancel task reason now) s = map_prod AttemptMaybe id (cancel_attempt t task reason now s)"
| "attempt_exec t (AAbandon task cause now) s = map_prod AttemptMaybe id (abandon_attempt t task cause now s)"

section \<open>Well-formed attempts and where they may go\<close>

definition attempt_ok :: "task_attempt \<Rightarrow> bool" where
  "attempt_ok a =
     ((ta_ownerDeviceId a = None \<or> ta_ownerDeviceId a = Some (ta_deviceId a)) \<and>
      (ta_claimedAt a = None \<longleftrightarrow> ta_ownerDeviceId a = None) \<and>
      (ta_ownerDeviceId a = None \<longrightarrow> ta_firstOutputAt a = None) \<and>
      (ta_cancellation a \<noteq> None \<longrightarrow> ta_status a \<in> {Cancel_requested, Cancelled}) \<and>
      (terminal_status (ta_status a) \<longleftrightarrow> ta_terminalAt a \<noteq> None) \<and>
      ta_offeredAt a \<noteq> None)"

text \<open>A field that is written at most once.\<close>

definition once :: "'a option \<Rightarrow> 'a option \<Rightarrow> bool" where
  "once x y = (x = None \<or> y = x)"

lemma once_refl [simp]: "once x x"
  by (simp add: once_def)

lemma once_None [simp]: "once None y"
  by (simp add: once_def)

lemma once_trans: "once x y \<Longrightarrow> once y z \<Longrightarrow> once x z"
  by (auto simp: once_def)

definition attempt_le :: "task_attempt \<Rightarrow> task_attempt \<Rightarrow> bool" where
  "attempt_le a b =
     (ta_tenantId b = ta_tenantId a \<and> ta_taskId b = ta_taskId a \<and> ta_deviceId b = ta_deviceId a \<and>
      ta_agentRef b = ta_agentRef a \<and> ta_offeredAt b = ta_offeredAt a \<and>
      once (ta_ownerDeviceId a) (ta_ownerDeviceId b) \<and> once (ta_claimedAt a) (ta_claimedAt b) \<and>
      once (ta_firstOutputAt a) (ta_firstOutputAt b) \<and> once (ta_terminalAt a) (ta_terminalAt b) \<and>
      once (ta_cancellation a) (ta_cancellation b) \<and>
      (ta_ownerDeviceId a \<noteq> None \<longrightarrow> ta_claimedRuntime b = ta_claimedRuntime a \<and>
         ta_claimedHarnessId b = ta_claimedHarnessId a \<and> ta_claimedRuntimeCapabilities b = ta_claimedRuntimeCapabilities a) \<and>
      (terminal_status (ta_status a) \<longrightarrow> ta_status b = ta_status a \<and> ta_terminalCause b = ta_terminalCause a))"

lemma attempt_le_refl [simp]: "attempt_le a a"
  by (simp add: attempt_le_def)

lemma once_Some: "once x y \<Longrightarrow> x \<noteq> None \<Longrightarrow> y \<noteq> None"
  by (auto simp: once_def)


lemma attempt_le_trans:
  assumes "attempt_le a b" and "attempt_le b c"
  shows "attempt_le a c"
proof -
  have O: "once (f a) (f c)" if "once (f a) (f b)" "once (f b) (f c)" for f :: "task_attempt \<Rightarrow> 'z option"
    using that by (rule once_trans)
  have "once (ta_ownerDeviceId a) (ta_ownerDeviceId b)" using assms(1) by (simp add: attempt_le_def)
  from once_Some [OF this] have S: "ta_ownerDeviceId a \<noteq> None \<Longrightarrow> ta_ownerDeviceId b \<noteq> None" .
  have "once (ta_ownerDeviceId a) (ta_ownerDeviceId c)" "once (ta_claimedAt a) (ta_claimedAt c)"
    "once (ta_firstOutputAt a) (ta_firstOutputAt c)" "once (ta_terminalAt a) (ta_terminalAt c)"
    using assms by (intro O; simp add: attempt_le_def)+
  moreover have "once (ta_cancellation a) (ta_cancellation c)"
    using assms once_trans [of "ta_cancellation a" "ta_cancellation b"] by (simp add: attempt_le_def)
  ultimately show ?thesis using assms S by (simp add: attempt_le_def)
qed

lemma attempt_le_closed: "attempt_le a b \<Longrightarrow> outputClosedAt a \<noteq> None \<Longrightarrow> outputClosedAt b \<noteq> None"
  by (auto simp: attempt_le_def once_def outputClosedAt_def split: option.splits)

text \<open>The writes the operations make to an existing row.\<close>

definition good_write :: "task_attempt \<Rightarrow> task_attempt \<Rightarrow> bool" where
  "good_write b a = (attempt_ok b \<longrightarrow> attempt_ok a \<and> attempt_le b a)"

lemma good_claim:
  "ta_deviceId b = dev \<Longrightarrow> ta_ownerDeviceId b = None \<Longrightarrow> ta_cancellation b = None \<Longrightarrow> ta_status b = Offered \<Longrightarrow>
   good_write b (b\<lparr>ta_ownerDeviceId := Some dev, ta_claimedRuntime := r, ta_claimedHarnessId := h,
     ta_claimedRuntimeCapabilities := c, ta_status := Claimed, ta_claimedAt := Some now, ta_updatedAt := now\<rparr>)"
  by (auto simp: good_write_def attempt_ok_def attempt_le_def once_def terminal_status_def)

lemma good_first_output:
  "ta_ownerDeviceId b \<noteq> None \<Longrightarrow> ta_firstOutputAt b = None \<Longrightarrow> good_write b (b\<lparr>ta_firstOutputAt := Some now\<rparr>)"
  by (auto simp: good_write_def attempt_ok_def attempt_le_def once_def)

lemma good_status:
  assumes "\<not> status_refused b i"
  shows "good_write b (b\<lparr>ta_status := si_status i, ta_terminalCause := or_else (si_terminalCause i) (ta_terminalCause b),
     ta_terminalAt := (if ta_terminalAt b = None \<and> terminal_status (si_status i) then Some now else ta_terminalAt b),
     ta_updatedAt := now\<rparr>)"
proof (cases "ta_cancellation b = None")
  case True
  then have "\<not> terminal_status (ta_status b)" using assms by (simp add: status_refused_def)
  with True show ?thesis by (simp add: good_write_def attempt_ok_def attempt_le_def once_def)
next
  case False
  then have "si_status i = Cancelled" "ta_status b \<noteq> Cancelled" using assms by (simp_all add: status_refused_def)
  with False show ?thesis
    by (simp add: good_write_def attempt_ok_def attempt_le_def once_def terminal_status_def)
qed

lemma unfinished_iff: "unfinished a \<longleftrightarrow> \<not> terminal_status (ta_status a)"
  by (cases "ta_status a") (simp_all add: unfinished_def TASK_ATTEMPT_UNFINISHED_STATUSES_def terminal_status_def)

lemma good_abandoned: "unfinished b \<Longrightarrow> good_write b (abandoned b cause now)"
  by (auto simp: good_write_def attempt_ok_def attempt_le_def once_def abandoned_def terminal_status_def unfinished_iff
      split: option.splits)

lemma good_cancellation:
  "ta_cancellation b = None \<Longrightarrow> \<not> terminal_status (ta_status b) \<Longrightarrow> good_write b (cancellation_written b reason now)"
  by (auto simp: good_write_def attempt_ok_def attempt_le_def once_def cancellation_written_def terminal_status_def)

lemma fresh_attempt_ids [simp]:
  "ta_tenantId (fresh_attempt t task dev ref now) = t" "ta_taskId (fresh_attempt t task dev ref now) = task"
  by (simp_all add: fresh_attempt_def)

lemma attempt_ok_fresh [simp]: "attempt_ok (fresh_attempt t task dev ref now)"
  by (simp add: attempt_ok_def fresh_attempt_def terminal_status_def)

section \<open>The invariant\<close>

fun is_close :: "tenant \<Rightarrow> string \<Rightarrow> task_event \<Rightarrow> bool" where
  "is_close t task (OutputClosed u k _) = (u = t \<and> k = task)"
| "is_close t task (TaskChanged _ _) = False"

definition closes :: "tenant \<Rightarrow> string \<Rightarrow> attempt_state \<Rightarrow> task_event list" where
  "closes t task s = filter (is_close t task) (as_events s)"

text \<open>
  Every row is stored under its own key, is well formed, and its logs were closed exactly when its
  output was, once, at the recorded instant.
\<close>

definition close_of :: "task_attempt option \<Rightarrow> nat" where
  "close_of a = (case a of None \<Rightarrow> 0 | Some a \<Rightarrow> if outputClosedAt a = None then 0 else 1)"

definition attempts_inv :: "attempt_state \<Rightarrow> bool" where
  "attempts_inv s =
     (jmap_ok (as_attempts s) \<and> jmap_ok (as_messageAdmissions s) \<and>
      (\<forall>k a. jget (as_attempts s) k = Some a \<longrightarrow>
         isTenantId (ta_tenantId a) \<and> k = tenantKey (ta_tenantId a) [ta_taskId a] \<and> attempt_ok a) \<and>
      (\<forall>t task. isTenantId t \<longrightarrow> length (closes t task s) = close_of (jget (as_attempts s) (tenantKey t [task]))))"

lemma attempts_inv_empty [simp]: "attempts_inv empty_attempts"
  by (simp add: attempts_inv_def empty_attempts_def closes_def close_of_def)

lemma attempts_invD:
  assumes "attempts_inv s" and "jget (as_attempts s) k = Some a"
  shows "isTenantId (ta_tenantId a)" "k = tenantKey (ta_tenantId a) [ta_taskId a]" "attempt_ok a"
  using assms by (auto simp: attempts_inv_def)

lemma attempts_inv_own:
  assumes "attempts_inv s" and "isTenantId t" and "jget (as_attempts s) (tenantKey t [task]) = Some a"
  shows "ta_tenantId a = t" "ta_taskId a = task"
  using attempts_invD [OF assms(1,3)] assms(2) by simp_all

lemma attempt_set_attempts [simp]: "as_attempts (attempt_set k a s) = jset k a (as_attempts s)"
  and attempt_set_admissions [simp]: "as_messageAdmissions (attempt_set k a s) = as_messageAdmissions s"
  by (simp_all add: attempt_set_def Let_def)

lemma closes_attempt_set:
  "closes t task (attempt_set k a s) = closes t task s @
     (case outputClosedAt a of
        None \<Rightarrow> []
      | Some x \<Rightarrow> if close_of (jget (as_attempts s) k) = 0 \<and> ta_tenantId a = t \<and> ta_taskId a = task
                  then [OutputClosed t task x] else [])"
  by (auto simp: closes_def attempt_set_def close_of_def Let_def split: option.splits)

lemma attempt_set_inv:
  assumes "attempts_inv s" and "isTenantId (ta_tenantId a)" and "k = tenantKey (ta_tenantId a) [ta_taskId a]" and "attempt_ok a"
    and "\<And>b. jget (as_attempts s) k = Some b \<Longrightarrow> outputClosedAt b \<noteq> None \<Longrightarrow> outputClosedAt a \<noteq> None"
  shows "attempts_inv (attempt_set k a s)"
proof -
  have "length (closes t task (attempt_set k a s)) = close_of (jget (jset k a (as_attempts s)) (tenantKey t [task]))"
    if t: "isTenantId t" for t task
  proof -
    have "length (closes t task s) = close_of (jget (as_attempts s) (tenantKey t [task]))"
      using assms(1) t by (simp add: attempts_inv_def)
    moreover have "k = tenantKey t [task] \<longleftrightarrow> ta_tenantId a = t \<and> ta_taskId a = task"
      using t assms(2,3) by simp
    ultimately show ?thesis
      using assms(5) by (auto simp: closes_attempt_set close_of_def simp del: tenantKey_one split: option.splits if_splits)
  qed
  then show ?thesis using assms(1-4) by (auto simp: attempts_inv_def simp del: tenantKey_one)
qed

section \<open>Histories\<close>

definition admission_le :: "message_admission \<Rightarrow> message_admission \<Rightarrow> bool" where
  "admission_le a b = (am_deviceId b = am_deviceId a \<and> am_messageId b = am_messageId a \<and>
     am_payloadBody b = am_payloadBody a \<and> once (am_terminalBody a) (am_terminalBody b))"

definition attempts_le :: "attempt_state \<Rightarrow> attempt_state \<Rightarrow> bool" where
  "attempts_le s s' =
     ((\<forall>k a. jget (as_attempts s) k = Some a \<longrightarrow> (\<exists>b. jget (as_attempts s') k = Some b \<and> attempt_le a b)) \<and>
      (\<forall>k a. jget (as_messageAdmissions s) k = Some a \<longrightarrow> (\<exists>b. jget (as_messageAdmissions s') k = Some b \<and> admission_le a b)))"

lemma admission_le_refl [simp]: "admission_le a a"
  by (simp add: admission_le_def)

lemma admission_le_trans: "admission_le a b \<Longrightarrow> admission_le b c \<Longrightarrow> admission_le a c"
  unfolding admission_le_def using once_trans by fastforce

lemma attempts_le_refl [simp]: "attempts_le s s"
  by (simp add: attempts_le_def)

lemma attempts_le_trans: "attempts_le a b \<Longrightarrow> attempts_le b c \<Longrightarrow> attempts_le a c"
  unfolding attempts_le_def using attempt_le_trans admission_le_trans by meson

definition attempt_keeps :: "attempt_state \<Rightarrow> attempt_state \<Rightarrow> bool" where
  "attempt_keeps s s' = (attempts_inv s \<longrightarrow> attempts_inv s' \<and> attempts_le s s')"

lemma attempt_keeps_refl [simp]: "attempt_keeps s s"
  by (simp add: attempt_keeps_def)

lemma attempt_keeps_trans: "attempt_keeps a b \<Longrightarrow> attempt_keeps b c \<Longrightarrow> attempt_keeps a c"
  using attempts_le_trans by (auto simp: attempt_keeps_def)

lemma attempt_keeps_write:
  assumes "jget (as_attempts s) k = Some b" and "good_write b a"
  shows "attempt_keeps s (attempt_set k a s)"
proof -
  have "attempts_inv (attempt_set k a s) \<and> attempts_le s (attempt_set k a s)" if inv: "attempts_inv s"
  proof -
    note B = attempts_invD [OF inv assms(1)]
    have A: "attempt_ok a" "attempt_le b a" using assms(2) B(3) by (simp_all add: good_write_def)
    then have "ta_tenantId a = ta_tenantId b" "ta_taskId a = ta_taskId b" by (simp_all add: attempt_le_def)
    with A B have "attempts_inv (attempt_set k a s)"
      using attempt_le_closed [OF A(2)] assms(1) by (intro attempt_set_inv [OF inv]) simp_all
    then show ?thesis using assms(1) A(2) by (auto simp: attempts_le_def)
  qed
  then show ?thesis by (simp add: attempt_keeps_def)
qed

lemma attempt_keeps_new:
  assumes "isTenantId t" and "jget (as_attempts s) (tenantKey t [task]) = None"
  shows "attempt_keeps s (attempt_set (tenantKey t [task]) (fresh_attempt t task dev ref now) s)"
proof -
  have "attempts_inv s \<Longrightarrow> attempts_inv (attempt_set (tenantKey t [task]) (fresh_attempt t task dev ref now) s)"
    using assms by (intro attempt_set_inv) simp_all
  then show ?thesis
    using assms(2) by (auto simp: attempt_keeps_def attempts_le_def simp del: tenantKey_one)
qed

lemma attempt_keeps_admission:
  assumes "\<And>b. jget (as_messageAdmissions s) k = Some b \<Longrightarrow> admission_le b a"
  shows "attempt_keeps s (s\<lparr>as_messageAdmissions := jset k a (as_messageAdmissions s)\<rparr>)"
  using assms by (auto simp: attempt_keeps_def attempts_inv_def attempts_le_def closes_def)

lemma settle_loop_keeps:
  assumes "\<forall>(k, a) \<in> set rows. jget (as_attempts s) k = Some a" and "distinct (map fst rows)"
  shows "attempt_keeps s (settle_loop t dev cause now rows s)"
  using assms
proof (induction rows arbitrary: s)
  case Nil
  then show ?case by simp
next
  case (Cons e rows)
  obtain k a where e: "e = (k, a)" by (cases e)
  let ?s = "attempt_set k (abandoned a cause now) s"
  have fresh: "k \<notin> fst ` set rows" using Cons.prems(2) by (simp add: e)
  have rows: "\<forall>(k, a) \<in> set rows. jget (as_attempts s) k = Some a" "\<forall>(k, a) \<in> set rows. jget (as_attempts ?s) k = Some a"
    using Cons.prems(1) fresh by force+
  have "unfinished a \<Longrightarrow> attempt_keeps s ?s"
    using Cons.prems(1) by (intro attempt_keeps_write [OF _ good_abandoned]) (simp_all add: e)
  with Cons.IH [OF rows(1)] Cons.IH [OF rows(2)] Cons.prems(2) show ?case
    by (auto simp: e intro: attempt_keeps_trans)
qed

lemma settle_keeps: "jmap_ok (as_attempts s) \<Longrightarrow> attempt_keeps s (settleDeviceAttempts t dev cause now s)"
  unfolding settleDeviceAttempts_def
  by (rule settle_loop_keeps) (auto simp: jget_Some_iff jmap_ok_def)

lemma reserveAgentMessage_keeps: "attempt_keeps s (snd (reserveAgentMessage t i now s))"
proof (cases "jget (as_messageAdmissions s) (tenantKey t [mi_taskId i])")
  case (Some existing)
  then show ?thesis by (simp add: reserveAgentMessage_def)
next
  case None
  let ?k = "tenantKey t [mi_taskId i]"
  let ?m = "\<lparr>am_deviceId = mi_deviceId i, am_messageId = mi_messageId i, am_payloadBody = mi_payloadBody i, am_terminalBody = None\<rparr>"
  let ?s1 = "s\<lparr>as_messageAdmissions := jset ?k ?m (as_messageAdmissions s)\<rparr>"
  have k1: "attempt_keeps s ?s1" using None by (intro attempt_keeps_admission) simp
  have "attempt_keeps ?s1 (attempt_set ?k (a\<lparr>ta_firstOutputAt := Some (toISOString now)\<rparr>) ?s1)"
    if "jget (as_attempts s) ?k = Some a" "ta_ownerDeviceId a \<noteq> None" "ta_firstOutputAt a = None" for a
    using that by (intro attempt_keeps_write [OF _ good_first_output]) simp_all
  from attempt_keeps_trans [OF k1 this] k1 None show ?thesis
    by (simp add: reserveAgentMessage_def Let_def split: option.splits)
qed

lemma attempt_exec_keeps:
  assumes "isTenantId t" and "attempts_inv s"
  shows "attempt_keeps s (snd (attempt_exec t op s))"
proof (cases op)
  case (AReserveMessage i now)
  then show ?thesis using reserveAgentMessage_keeps by simp
next
  case (ASettle dev cause now)
  then show ?thesis using assms(2) settle_keeps by (simp add: attempts_inv_def)
next
  case (AFinalize i body)
  then show ?thesis
    by (auto simp: finalizeAgentMessage_def terminalize_def Let_def admission_le_def
        intro!: attempt_keeps_admission split: option.splits)
next
  case (AOpen task dev ref now)
  then show ?thesis
    using attempt_keeps_new [OF assms(1), of s task] by (simp add: attempt_open_def Let_def del: tenantKey_one split: option.splits)
next
  case (AReserveOffer task dev ref now)
  then show ?thesis
    using attempt_keeps_new [OF assms(1), of s task] by (simp add: reserveAgentOffer_def Let_def del: tenantKey_one split: option.splits)
next
  case (AFirstOutput task dev now)
  then show ?thesis
    using attempt_keeps_write [OF _ good_first_output] by (simp add: recordFirstOutput_def Let_def del: tenantKey_one split: option.splits)
next
  case (AClaim i now)
  then show ?thesis
    using attempt_keeps_write [OF _ good_claim] by (simp add: attempt_claim_def Let_def del: tenantKey_one split: option.splits)
next
  case (ARecordStatus i now)
  then show ?thesis
    using attempt_keeps_write [OF _ good_status] by (simp add: recordStatus_def Let_def del: tenantKey_one split: option.splits)
next
  case (ACancel task reason now)
  then show ?thesis
    using attempt_keeps_write [OF _ good_cancellation] by (simp add: cancel_attempt_def Let_def del: tenantKey_one split: option.splits)
next
  case (AAbandon task cause now)
  then show ?thesis
    using attempt_keeps_write [OF _ good_abandoned] by (simp add: abandon_attempt_def Let_def del: tenantKey_one split: option.splits)
qed simp_all

interpretation attempt_history: monotone_store attempt_exec tenant_call attempts_inv attempts_le
proof (unfold_locales, goal_cases)
  case (1 t op s)
  then show ?case using attempt_exec_keeps by (simp add: attempt_keeps_def)
next
  case (2 s)
  show ?case by simp
next
  case (3 a b c)
  then show ?case by (rule attempts_le_trans)
next
  case (4 t op s)
  then show ?case using attempt_exec_keeps by (simp add: attempt_keeps_def)
qed


definition sample_task :: attempt_state where
  "sample_task = snd (attempt_claim ''acme''
     \<lparr>cl_taskId = ''t'', cl_deviceId = ''d'', cl_runtime = Some ''codex'', cl_harnessId = None, cl_capabilities = None\<rparr> 1
     (snd (attempt_open ''acme'' ''t'' ''d'' None 0 empty_attempts)))"

definition sample_status :: "task_attempt_status \<Rightarrow> status_input" where
  "sample_status st = \<lparr>si_taskId = ''t'', si_status = st, si_agentRef = None, si_terminalCause = None\<rparr>"

lemma sample_task_inv: "attempts_inv sample_task"
proof -
  have "attempts_inv (snd (attempt_exec ''acme'' (AOpen ''t'' ''d'' None 0) empty_attempts))"
    using attempt_exec_keeps [of "''acme''" empty_attempts "AOpen ''t'' ''d'' None 0"] by (simp add: attempt_keeps_def)
  from attempt_exec_keeps [OF _ this, of "''acme''" "AClaim \<lparr>cl_taskId = ''t'', cl_deviceId = ''d'', cl_runtime = Some ''codex'', cl_harnessId = None, cl_capabilities = None\<rparr> 1"] this
  show ?thesis by (simp add: attempt_keeps_def sample_task_def)
qed

lemma sample_task_get:
  "\<exists>a. attempt_get ''acme'' ''t'' sample_task = Some a \<and> ta_ownerDeviceId a = Some ''d'' \<and> ta_status a = Claimed \<and>
     ta_cancellation a = None \<and> ta_deviceId a = ''d'' \<and> ta_claimedRuntime a = Some ''codex'' \<and> ta_agentRef a = None"
  by (simp add: sample_task_def attempt_claim_def attempt_open_def attempt_get_def fresh_attempt_def empty_attempts_def
      or_else_def Let_def)


text \<open>
  C39. Cancellation outranks the device: once the host's cancellation of an attempt is recorded, the
  attempt can only stay \<open>cancel_requested\<close> or become \<open>cancelled\<close>, whatever the device reports
  and whatever else is called, and the output it closed is closed exactly once.
\<close>

theorem task_cancellation_outranks:
  assumes "attempts_inv s" and "isTenantId t" and "\<forall>(u, op) \<in> set ops. isTenantId u"
    and "cancel_attempt t task reason now s = (Some a, s1)" and "ta_cancellation a \<noteq> None"
  shows "\<exists>b. attempt_get t task (snd (run_ops attempt_exec ops s1)) = Some b \<and> ta_cancellation b = ta_cancellation a \<and>
    ta_status b \<in> {Cancel_requested, Cancelled} \<and>
    length (closes t task (snd (run_ops attempt_exec ops s1))) = 1"
proof -
  let ?s = "snd (run_ops attempt_exec ops s1)"
  have inv1: "attempts_inv s1"
    using attempt_exec_keeps [OF assms(2,1), of "ACancel task reason now"] assms(1,4) by (simp add: attempt_keeps_def)
  have get1: "attempt_get t task s1 = Some a"
    using assms(4) by (auto simp: cancel_attempt_def attempt_get_def Let_def split: option.splits if_splits)
  obtain b where b: "attempt_get t task ?s = Some b" and le: "attempt_le a b"
    using attempt_history.run_mono [OF assms(3) inv1] get1 unfolding attempts_le_def attempt_get_def by meson
  have inv: "attempts_inv ?s" using assms(3) inv1 by (rule attempt_history.run_inv)
  have c: "ta_cancellation b = ta_cancellation a" using le assms(5) by (auto simp: attempt_le_def once_def)
  have "attempt_ok b" using attempts_invD(3) [OF inv] b by (simp add: attempt_get_def)
  moreover have "outputClosedAt b \<noteq> None" using c assms(5) by (auto simp: outputClosedAt_def split: option.splits)
  then have "length (closes t task ?s) = 1"
    using inv assms(2) b by (simp add: attempts_inv_def attempt_get_def close_of_def)
  ultimately show ?thesis using b c assms(5) by (auto simp: attempt_ok_def)
qed

theorem task_cancellation_outranks_witness:
  "\<exists>b. attempt_get ''acme'' ''t'' (snd (run_ops attempt_exec [(''acme'', ARecordStatus (sample_status Complete) 9)]
      (snd (cancel_attempt ''acme'' ''t'' (Some ''stop'') 7 sample_task)))) = Some b \<and> ta_status b \<in> {Cancel_requested, Cancelled}"
proof -
  obtain a s1 where c: "cancel_attempt ''acme'' ''t'' (Some ''stop'') 7 sample_task = (Some a, s1)" and "ta_cancellation a \<noteq> None"
    using sample_task_get by (auto simp: cancel_attempt_def cancellation_written_def attempt_get_def terminal_status_def Let_def)
  from task_cancellation_outranks [OF sample_task_inv sample_tenants(1) _ this, of "[(''acme'', ARecordStatus (sample_status Complete) 9)]"]
  show ?thesis by (simp add: c del: run_ops.simps) blast
qed

text \<open>
  A task's logs are closed exactly once: in every history from the empty store the close
  callback has run for a task as often as its output is closed, that is once when a first terminal
  or an accepted cancellation is recorded and never otherwise.
\<close>

theorem task_output_closed_once:
  assumes "isTenantId t" and "\<forall>(u, op) \<in> set ops. isTenantId u"
  shows "length (closes t task (snd (run_ops attempt_exec ops empty_attempts))) =
    (case attempt_get t task (snd (run_ops attempt_exec ops empty_attempts)) of
       None \<Rightarrow> 0 | Some a \<Rightarrow> if ta_terminalAt a = None \<and> ta_cancellation a = None then 0 else 1)"
proof -
  have "attempts_inv (snd (run_ops attempt_exec ops empty_attempts))"
    using assms(2) attempts_inv_empty by (rule attempt_history.run_inv)
  then have "length (closes t task (snd (run_ops attempt_exec ops empty_attempts))) =
      close_of (attempt_get t task (snd (run_ops attempt_exec ops empty_attempts)))"
    using assms(1) by (simp add: attempts_inv_def attempt_get_def)
  then show ?thesis by (auto simp: close_of_def outputClosedAt_def split: option.splits)
qed

theorem task_output_closed_once_witness:
  "length (closes ''acme'' ''t'' (snd (run_ops attempt_exec
      [(''acme'', AOpen ''t'' ''d'' None 0), (''acme'', ACancel ''t'' None 1), (''acme'', AAbandon ''t'' Operator 2)] empty_attempts))) = 1"
proof -
  have "case attempt_get ''acme'' ''t'' (snd (run_ops attempt_exec
      [(''acme'', AOpen ''t'' ''d'' None 0), (''acme'', ACancel ''t'' None 1), (''acme'', AAbandon ''t'' Operator 2)] empty_attempts)) of
      None \<Rightarrow> False | Some a \<Rightarrow> ta_cancellation a \<noteq> None"
    by (simp add: attempt_open_def attempt_get_def fresh_attempt_def empty_attempts_def cancel_attempt_def cancellation_written_def
        abandon_attempt_def unfinished_iff terminal_status_def Let_def)
  then obtain a where a: "attempt_get ''acme'' ''t'' (snd (run_ops attempt_exec
      [(''acme'', AOpen ''t'' ''d'' None 0), (''acme'', ACancel ''t'' None 1), (''acme'', AAbandon ''t'' Operator 2)] empty_attempts)) = Some a"
    and c: "ta_cancellation a \<noteq> None"
    by (auto simp del: run_ops.simps split: option.splits)
  show ?thesis
    using task_output_closed_once [OF sample_tenants(1),
        of "[(''acme'', AOpen ''t'' ''d'' None 0), (''acme'', ACancel ''t'' None 1), (''acme'', AAbandon ''t'' Operator 2)]" "''t''"] c
    unfolding a by (simp del: run_ops.simps)
qed

section \<open>Claims\<close>

definition claimable :: "task_attempt \<Rightarrow> string \<Rightarrow> bool" where
  "claimable a dev = (ta_deviceId a = dev \<and> ta_ownerDeviceId a = None \<and> ta_cancellation a = None \<and> ta_status a = Offered)"

lemma owned_claims_refused:
  assumes "attempt_get t task s = Some a" and "ta_ownerDeviceId a \<noteq> None" and "\<forall>i \<in> set is. cl_taskId i = task"
  shows "run_ops attempt_exec (map (\<lambda>i. (t, AClaim i now)) is) s = (map (\<lambda>_. (t, AttemptMaybe (Some a))) is, s)"
  using assms(3)
proof (induction "is")
  case Nil
  then show ?case by simp
next
  case (Cons i js)
  have "attempt_claim t i now s = (Some a, s)"
    using assms(1,2) Cons.prems by (simp add: attempt_claim_def attempt_get_def)
  then show ?case using Cons by simp
qed

text \<open>
  First claim wins: of any number of claims of an offered, unowned and uncancelled task the
  first one by the addressed device takes the ownership with its own snapshot, and every other
  claim, by whichever device, is answered with the winner's attempt and changes nothing.
\<close>

theorem task_claim_race:
  assumes "attempt_get t task s = Some a" and "claimable a (cl_deviceId i)" and "cl_taskId i = task"
    and "\<forall>j \<in> set is. cl_taskId j = task"
  shows "\<exists>w. ta_ownerDeviceId w = Some (cl_deviceId i) \<and> ta_status w = Claimed \<and>
    ta_claimedRuntime w = or_else (cl_runtime i) (ta_claimedRuntime a) \<and> ta_claimedAt w = Some (toISOString now) \<and>
    run_ops attempt_exec (map (\<lambda>j. (t, AClaim j now)) (i # is)) s =
      (map (\<lambda>_. (t, AttemptMaybe (Some w))) (i # is), attempt_set (tenantKey t [task]) w s)"
proof -
  obtain w where w: "attempt_claim t i now s = (Some w, attempt_set (tenantKey t [task]) w s)"
    and f: "ta_ownerDeviceId w = Some (cl_deviceId i)" "ta_status w = Claimed"
      "ta_claimedRuntime w = or_else (cl_runtime i) (ta_claimedRuntime a)" "ta_claimedAt w = Some (toISOString now)"
    using assms(1-3) by (simp add: attempt_claim_def attempt_get_def claimable_def Let_def)
  have "attempt_get t task (attempt_set (tenantKey t [task]) w s) = Some w" by (simp add: attempt_get_def)
  from owned_claims_refused [OF this _ assms(4)] f(1) w f show ?thesis by (intro exI [of _ w]) simp
qed

theorem task_claim_race_witness:
  "let c = (\<lambda>d. \<lparr>cl_taskId = ''t'', cl_deviceId = d, cl_runtime = None, cl_harnessId = None, cl_capabilities = None\<rparr>);
       s = snd (attempt_open ''acme'' ''t'' ''d'' None 0 empty_attempts)
   in \<exists>w. ta_ownerDeviceId w = Some ''d'' \<and>
     fst (run_ops attempt_exec [(''acme'', AClaim (c ''d'') 3), (''acme'', AClaim (c ''e'') 3)] s) =
       [(''acme'', AttemptMaybe (Some w)), (''acme'', AttemptMaybe (Some w))]"
proof -
  let ?c = "\<lambda>d. \<lparr>cl_taskId = ''t'', cl_deviceId = d, cl_runtime = None, cl_harnessId = None, cl_capabilities = None\<rparr>"
  let ?s = "snd (attempt_open ''acme'' ''t'' ''d'' None 0 empty_attempts)"
  obtain a where "attempt_get ''acme'' ''t'' ?s = Some a" "claimable a (cl_deviceId (?c ''d''))"
    by (simp add: attempt_open_def attempt_get_def empty_attempts_def fresh_attempt_def claimable_def Let_def)
  from task_claim_race [OF this, of "[?c ''e'']" 3] show ?thesis
    by (auto simp: Let_def simp del: run_ops.simps)
qed

section \<open>Device retirement\<close>

definition retired_by :: "tenant \<Rightarrow> string \<Rightarrow> task_attempt \<Rightarrow> bool" where
  "retired_by t dev a = (ta_tenantId a = t \<and> (ta_deviceId a = dev \<or> ta_ownerDeviceId a = Some dev) \<and> unfinished a)"

lemma settle_loop_get:
  assumes "\<forall>(k, a) \<in> set rows. jget (as_attempts s) k = Some a" and "distinct (map fst rows)"
  shows "jget (as_attempts (settle_loop t dev cause now rows s)) k =
    (case jget (as_attempts s) k of
       None \<Rightarrow> None
     | Some a \<Rightarrow> Some (if k \<in> fst ` set rows \<and> retired_by t dev a then abandoned a cause now else a))"
  using assms
proof (induction rows arbitrary: s)
  case Nil
  then show ?case by (simp split: option.splits)
next
  case (Cons e rows)
  obtain k' a where e: "e = (k', a)" by (cases e)
  let ?s = "attempt_set k' (abandoned a cause now) s"
  have fresh: "k' \<notin> fst ` set rows" using Cons.prems(2) by (simp add: e)
  have rows: "\<forall>(k, a) \<in> set rows. jget (as_attempts s) k = Some a" "\<forall>(k, a) \<in> set rows. jget (as_attempts ?s) k = Some a"
    using Cons.prems(1) fresh by force+
  have a: "jget (as_attempts s) k' = Some a" using Cons.prems(1) by (simp add: e)
  have d: "distinct (map fst rows)" using Cons.prems(2) by simp
  have step: "settle_loop t dev cause now (e # rows) s = settle_loop t dev cause now rows (if retired_by t dev a then ?s else s)"
    by (auto simp: e retired_by_def)
  show ?case
  proof (cases "k = k'")
    case True
    then show ?thesis unfolding step using Cons.IH [OF rows(1) d] Cons.IH [OF rows(2) d] fresh a by (simp add: e)
  next
    case False
    then show ?thesis
      unfolding step using Cons.IH [OF rows(1) d] Cons.IH [OF rows(2) d] by (cases "jget (as_attempts s) k") (simp_all add: e)
  qed
qed

lemma settle_get:
  assumes "jmap_ok (as_attempts s)"
  shows "jget (as_attempts (settleDeviceAttempts t dev cause now s)) k =
    (case jget (as_attempts s) k of
       None \<Rightarrow> None
     | Some a \<Rightarrow> Some (if retired_by t dev a then abandoned a cause (toISOString now) else a))"
proof -
  have "k \<in> fst ` set (as_attempts s)" if "jget (as_attempts s) k = Some a" for a using that by (force dest: jget_SomeD)
  moreover have "\<forall>(k, a) \<in> set (as_attempts s). jget (as_attempts s) k = Some a" using assms by (auto simp: jget_Some_iff)
  moreover have "distinct (map fst (as_attempts s))" using assms by (simp add: jmap_ok_def)
  ultimately show ?thesis
    unfolding settleDeviceAttempts_def by (cases "jget (as_attempts s) k") (simp_all add: settle_loop_get)
qed

text \<open>
  Retirement settles a device: afterwards no unfinished attempt of the device is left in the
  tenant, each attempt that was unfinished is \<open>cancelled\<close> with the retirement cause, keeping an
  earlier terminal instant, and every other attempt, of this tenant or another, is unchanged.
\<close>

theorem device_attempts_settled:
  assumes "attempts_inv s"
  shows "attempt_get u task (settleDeviceAttempts t dev cause now s) =
    (case attempt_get u task s of
       None \<Rightarrow> None
     | Some a \<Rightarrow>
         Some (if ta_tenantId a = t \<and> (ta_deviceId a = dev \<or> ta_ownerDeviceId a = Some dev) \<and> \<not> terminal_status (ta_status a)
               then a\<lparr>ta_status := Cancelled, ta_terminalCause := Some (abandon_cause_str cause),
                      ta_terminalAt := Some (toISOString now), ta_updatedAt := toISOString now\<rparr>
               else a))"
proof -
  have ok: "jmap_ok (as_attempts s)" using assms by (simp add: attempts_inv_def)
  note settle_get [OF ok]
  moreover have "ta_terminalAt a = None" if "jget (as_attempts s) k = Some a" "\<not> terminal_status (ta_status a)" for k a
    using attempts_invD(3) [OF assms that(1)] that(2) by (simp add: attempt_ok_def)
  ultimately show ?thesis
    unfolding attempt_get_def by (auto simp: retired_by_def unfinished_iff abandoned_def simp del: tenantKey_one split: option.splits)
qed

theorem device_attempts_settled_witness:
  "\<exists>a. attempt_get ''acme'' ''t'' (settleDeviceAttempts ''acme'' ''d'' Abandon_device_revoked 9 sample_task) = Some a \<and>
     ta_status a = Cancelled \<and> ta_terminalCause a = Some ''device_revoked''"
proof -
  obtain a where "attempt_get ''acme'' ''t'' sample_task = Some a" "ta_status a = Claimed" "ta_deviceId a = ''d''"
    using sample_task_get by blast
  moreover from this have "ta_tenantId a = ''acme''"
    using attempts_inv_own(1) [OF sample_task_inv, of "''acme''" "''t''"] by (simp add: attempt_get_def)
  ultimately show ?thesis
    using device_attempts_settled [OF sample_task_inv, of "''acme''" "''t''" "''acme''" "''d''" Abandon_device_revoked 9]
    by (simp add: terminal_status_def)
qed

section \<open>The one message of a task\<close>

text \<open>
  A task admits one message: once a message is reserved, through any later history the same
  (device, message id, body) is answered \<open>pending\<close>, anything else is refused, and the
  terminal disposition is the first one recorded.
\<close>

theorem task_single_message:
  assumes "attempts_inv s" and "isTenantId t" and "\<forall>(u, op) \<in> set ops. isTenantId u"
    and "reserveAgentMessage t i now s = (MsgReserved, s1)" and "mi_taskId j = mi_taskId i"
  shows "reserveAgentMessage t j later (snd (run_ops attempt_exec ops s1)) =
      (if mi_deviceId j = mi_deviceId i \<and> mi_messageId j = mi_messageId i \<and> mi_payloadBody j = mi_payloadBody i
       then MsgPending else MsgRejected, snd (run_ops attempt_exec ops s1)) \<and>
    (\<exists>m. readAgentMessage t i (snd (run_ops attempt_exec ops s1)) = Some m \<and>
       (\<forall>body. am_terminalBody m = Some body \<longrightarrow>
          (\<forall>b2. finalizeAgentMessage t i b2 (snd (run_ops attempt_exec ops s1)) = (Some m, snd (run_ops attempt_exec ops s1)))))"
proof -
  let ?s = "snd (run_ops attempt_exec ops s1)" and ?k = "tenantKey t [mi_taskId i]"
  have inv1: "attempts_inv s1"
    using attempt_exec_keeps [OF assms(2,1), of "AReserveMessage i now"] assms(1,4) by (simp add: attempt_keeps_def)
  obtain m0 where m0: "jget (as_messageAdmissions s1) ?k = Some m0" "am_deviceId m0 = mi_deviceId i"
      "am_messageId m0 = mi_messageId i" "am_payloadBody m0 = mi_payloadBody i"
    using assms(4) by (auto simp: reserveAgentMessage_def Let_def split: option.splits if_splits)
  then obtain m where m: "jget (as_messageAdmissions ?s) ?k = Some m" "admission_le m0 m"
    using attempt_history.run_mono [OF assms(3) inv1] unfolding attempts_le_def by meson
  then have same: "same_admission j m \<longleftrightarrow>
      mi_deviceId j = mi_deviceId i \<and> mi_messageId j = mi_messageId i \<and> mi_payloadBody j = mi_payloadBody i"
    and own: "same_admission i m"
    using m0(2-4) by (auto simp: same_admission_def admission_le_def)
  show ?thesis
    using m(1) same own assms(5)
    by (simp add: reserveAgentMessage_def readAgentMessage_def finalizeAgentMessage_def terminalize_def Let_def)
qed

definition sample_message_input :: "string \<Rightarrow> message_input" where
  "sample_message_input m = \<lparr>mi_taskId = ''t'', mi_deviceId = ''d'', mi_messageId = m, mi_payloadBody = ''hello''\<rparr>"

lemma sample_message_input_fields [simp]:
  "mi_taskId (sample_message_input m) = ''t''" "mi_messageId (sample_message_input m) = m"
  by (simp_all add: sample_message_input_def)

theorem task_single_message_witness:
  "fst (reserveAgentMessage ''acme'' (sample_message_input ''m2'') 9
     (snd (run_ops attempt_exec [(''acme'', ARecordStatus (sample_status Complete) 5)]
       (snd (reserveAgentMessage ''acme'' (sample_message_input ''m1'') 4 sample_task))))) = MsgRejected"
proof -
  obtain s1 where r: "reserveAgentMessage ''acme'' (sample_message_input ''m1'') 4 sample_task = (MsgReserved, s1)"
    by (simp add: sample_message_input_def sample_task_def attempt_claim_def attempt_open_def reserveAgentMessage_def
        fresh_attempt_def empty_attempts_def or_else_def Let_def)
  from task_single_message [OF sample_task_inv sample_tenants(1) _ this, of "[(''acme'', ARecordStatus (sample_status Complete) 5)]"
      "sample_message_input ''m2''" 9]
  show ?thesis by (simp add: r del: run_ops.simps)
qed

section \<open>Counting and listing\<close>

lemma count_loop_status:
  "ac_byStatus (count_loop t as c) st =
     ac_byStatus c st + int (length (filter (\<lambda>a. ta_tenantId a = t \<and> ta_cancellation a = None \<and> ta_status a = st) as))"
  by (induction as arbitrary: c) auto

lemma count_loop_cancelled:
  "ac_cancellationRequested (count_loop t as c) =
     ac_cancellationRequested c + int (length (filter (\<lambda>a. ta_tenantId a = t \<and> ta_cancellation a \<noteq> None) as))"
  by (induction as arbitrary: c) auto

lemma status_partition:
  "sum_list (map (\<lambda>st. length (filter (\<lambda>a. P a \<and> ta_status a = st) as)) TASK_ATTEMPT_STATUSES) = length (filter P as)"
proof (induction as)
  case Nil
  then show ?case by (simp add: TASK_ATTEMPT_STATUSES_def)
next
  case (Cons a as)
  then show ?case by (cases "ta_status a") (simp_all add: TASK_ATTEMPT_STATUSES_def)
qed

text \<open>
  The counts are exact: each bucket is the number of the tenant's attempts with that status and
  no host cancellation, the cancellation bucket the number that carry one, and together they are
  all of the tenant's attempts, each counted once.
\<close>

theorem task_counts_exact:
  "ac_byStatus (countByStatus t s) st =
     int (length (filter (\<lambda>a. ta_tenantId a = t \<and> ta_cancellation a = None \<and> ta_status a = st) (jvals (as_attempts s)))) \<and>
   ac_cancellationRequested (countByStatus t s) + sum_list (map (ac_byStatus (countByStatus t s)) TASK_ATTEMPT_STATUSES) =
     int (length (filter (\<lambda>a. ta_tenantId a = t) (jvals (as_attempts s))))"
proof -
  let ?as = "jvals (as_attempts s)"
  let ?n = "\<lambda>st. length (filter (\<lambda>a. (ta_tenantId a = t \<and> ta_cancellation a = None) \<and> ta_status a = st) ?as)"
  have B: "ac_byStatus (countByStatus t s) st = int (?n st)" for st
    by (simp add: countByStatus_def count_loop_status conj_assoc)
  have "sum_list (map (ac_byStatus (countByStatus t s)) TASK_ATTEMPT_STATUSES) = int (sum_list (map ?n TASK_ATTEMPT_STATUSES))"
    by (simp add: B TASK_ATTEMPT_STATUSES_def)
  also have "\<dots> = int (length (filter (\<lambda>a. ta_tenantId a = t \<and> ta_cancellation a = None) ?as))"
    by (simp only: status_partition)
  finally have S: "sum_list (map (ac_byStatus (countByStatus t s)) TASK_ATTEMPT_STATUSES) =
    int (length (filter (\<lambda>a. ta_tenantId a = t \<and> ta_cancellation a = None) ?as))" .
  have "length (filter (\<lambda>a. ta_tenantId a = t) as) = length (filter (\<lambda>a. ta_tenantId a = t \<and> ta_cancellation a \<noteq> None) as) +
      length (filter (\<lambda>a. ta_tenantId a = t \<and> ta_cancellation a = None) as)" for as
    by (induction as) auto
  from arg_cong [OF this [of ?as], of int] have "int (length (filter (\<lambda>a. ta_tenantId a = t) ?as)) =
      ac_cancellationRequested (countByStatus t s) + int (length (filter (\<lambda>a. ta_tenantId a = t \<and> ta_cancellation a = None) ?as))"
    by (simp add: countByStatus_def count_loop_cancelled)
  then show ?thesis using S B [of st] by (simp add: conj_assoc)
qed

lemma attempt_matches_sort:
  "attempt_matches t active c s = sort_key ta_taskId
     (filter (\<lambda>a. ta_tenantId a = t \<and> (active \<longrightarrow> attempt_active a) \<and> c < Some (ta_taskId a)) (jvals (as_attempts s)))"
proof -
  have "(case c of None \<Rightarrow> True | Some c' \<Rightarrow> c' < x) \<longleftrightarrow> c < Some x" for x
    by (cases c) simp_all
  then show ?thesis
    unfolding attempt_matches_def sort_by_str_cmp by (intro arg_cong [where f = "sort_key ta_taskId"]) (auto intro: filter_cong)
qed

lemma tenant_attempts_distinct:
  assumes "attempts_inv s"
  shows "distinct (map ta_taskId (filter (\<lambda>a. ta_tenantId a = t \<and> P a) (jvals (as_attempts s))))"
proof -
  let ?rows = "filter (\<lambda>(k, a). ta_tenantId a = t \<and> P a) (as_attempts s)"
  have ok: "jmap_ok (as_attempts s)" using assms by (simp add: attempts_inv_def)
  have K: "fst e = tenantKey t [ta_taskId (snd e)]" if "e \<in> set ?rows" for e
    using that attempts_invD(2) [OF assms, unfolded jget_Some_iff [OF ok], of "fst e" "snd e"] by (simp add: split_def)
  have "distinct (map fst ?rows)" using jmap_ok_filter [OF ok] by (simp add: jmap_ok_def)
  then have "distinct (map (\<lambda>e. tenantKey t [ta_taskId (snd e)]) ?rows)"
    using K by (metis (no_types, lifting) map_cong)
  then have "distinct (map (\<lambda>x. tenantKey t [x]) (map (ta_taskId \<circ> snd) ?rows))" by (simp only: map_map comp_def)
  then have "distinct (map (ta_taskId \<circ> snd) ?rows)" by (simp only: distinct_map [of "\<lambda>x. tenantKey t [x]"])
  moreover have "map snd ?rows = filter (\<lambda>a. ta_tenantId a = t \<and> P a) (jvals (as_attempts s))"
    by (simp add: jvals_def filter_map comp_def split_def)
  ultimately show ?thesis by (metis map_map)
qed

text \<open>One page as a client sees it, the cursor standing for the rows up to a task id.\<close>

definition task_page :: "tenant \<times> bool \<Rightarrow> int \<Rightarrow> string option \<Rightarrow> attempt_state \<Rightarrow> task_attempt list \<times> string option \<times> bool" where
  "task_page q limit c s =
     (case attempt_list (fst q) \<lparr>al_limit = Fin (of_int limit), al_cursor = c, al_active = snd q\<rparr> s of
        Inl _ \<Rightarrow> ([], c, False)
      | Inr page \<Rightarrow> (ap_attempts page, ap_nextCursor page, ap_nextCursor page \<noteq> None))"

definition page_limit :: "int \<Rightarrow> bool" where
  "page_limit n = (0 < n \<and> n \<le> MAX_SAFE_INTEGER)"

interpretation task_feed: cursor_feed "\<lambda>(t, active) s. attempts_inv s" "\<lambda>(t, active) c s. attempt_matches t active c s"
  "\<lambda>a. Some (ta_taskId a)" task_page page_limit
proof (unfold_locales, goal_cases)
  case (1 q s c)
  obtain t active where q: "q = (t, active)" by (cases q)
  have "distinct (map ta_taskId (filter (\<lambda>a. ta_tenantId a = t \<and> (active \<longrightarrow> attempt_active a) \<and> c < Some (ta_taskId a)) (jvals (as_attempts s))))"
    using tenant_attempts_distinct [of s t] 1 by (simp add: q)
  then have "sorted_wrt (<) (map ta_taskId (attempt_matches t active c s))"
    by (simp add: sorted_wrt_less_key attempt_matches_sort distinct_map)
  then show ?case by (simp add: q sorted_wrt_map)
next
  case (2 a q c s)
  then show ?case by (cases q) (simp add: attempt_matches_sort)
next
  case (3 a b q s)
  then show ?case by (cases q) (auto simp: attempt_matches_sort filter_sort intro!: arg_cong [where f = "sort_key ta_taskId"] filter_cong)
next
  case (4 limit)
  then show ?case by (simp add: page_limit_def)
next
  case (5 limit q a s rows cursor hasMore)
  then show ?case
    by (cases q)
      (auto simp: task_page_def attempt_list_def assertTaskAttemptListLimit_def page_limit_def slice0_def at_last_def Let_def
        min_def not_le split: if_splits)
qed

text \<open>
  A walk over the task list is complete: following \<open>nextCursor\<close> from the start with any
  valid limit ends within as many pages as the tenant has attempts plus one, and has then returned
  each of the tenant's attempts that match exactly once, in ascending order of task id.
\<close>

theorem task_list_complete:
  assumes "attempts_inv s" and "0 < limit" and "limit \<le> MAX_SAFE_INTEGER"
    and "length (as_attempts s) < fuel"
  shows "\<exists>walk. poll (\<lambda>c. task_page (t, active) limit c s) fuel None = Some walk \<and>
    sorted_wrt (<) (map ta_taskId walk) \<and>
    set walk = {a. (\<exists>k. jget (as_attempts s) k = Some a) \<and> ta_tenantId a = t \<and> (active \<longrightarrow> attempt_active a)}"
proof -
  let ?w = "attempt_matches t active None s"
  have set: "set ?w = {a. (\<exists>k. jget (as_attempts s) k = Some a) \<and> ta_tenantId a = t \<and> (active \<longrightarrow> attempt_active a)}"
    using assms(1) by (force simp: attempt_matches_sort jvals_def attempts_inv_def jget_Some_iff)
  have "length ?w \<le> length (as_attempts s)"
    by (simp add: attempt_matches_sort jvals_def)
  then have "poll (\<lambda>c. task_page (t, active) limit c s) fuel None = Some ?w"
    using task_feed.poll_complete [of "(t, active)" s limit None fuel] assms by (simp add: page_limit_def)
  moreover have "sorted_wrt (<) (map ta_taskId ?w)"
    using task_feed.strict [of "(t, active)" s None] assms(1) by (simp add: sorted_wrt_map)
  ultimately show ?thesis using set by blast
qed

theorem task_list_complete_witness:
  "\<exists>walk. poll (\<lambda>c. task_page (''acme'', False) 1 c sample_task) 2 None = Some walk \<and> map ta_taskId walk = [''t'']"
proof -
  have "length (as_attempts sample_task) = 1"
    by (simp add: sample_task_def attempt_claim_def attempt_open_def fresh_attempt_def empty_attempts_def jget_Cons jset_def Let_def)
  then have n: "length (as_attempts sample_task) < 2" by simp
  obtain walk where w: "poll (\<lambda>c. task_page (''acme'', False) 1 c sample_task) 2 None = Some walk"
    and srt: "sorted_wrt (<) (map ta_taskId walk)"
    and set: "set walk = {a. (\<exists>k. jget (as_attempts sample_task) k = Some a) \<and> ta_tenantId a = ''acme'' \<and> (False \<longrightarrow> attempt_active a)}"
    using task_list_complete [OF sample_task_inv _ _ n, of 1 "''acme''" False] by (auto simp: MAX_SAFE_INTEGER_def)
  have "ta_taskId a = ''t''" if "a \<in> set walk" for a
    using that unfolding set
    by (auto simp: sample_task_def attempt_claim_def attempt_open_def fresh_attempt_def empty_attempts_def or_else_def Let_def
        split: if_splits)
  moreover obtain a where "attempt_get ''acme'' ''t'' sample_task = Some a" using sample_task_get by blast
  then have g: "jget (as_attempts sample_task) (tenantKey ''acme'' [''t'']) = Some a" by (simp only: attempt_get_def)
  have "a \<in> set walk" unfolding set using g attempts_inv_own(1) [OF sample_task_inv sample_tenants(1) g] by blast
  ultimately have ids: "set (map ta_taskId walk) = {''t''}" by auto
  then have "map ta_taskId walk = [''t'']"
  proof (cases "map ta_taskId walk")
    case (Cons x xs)
    then show ?thesis using ids srt by (cases xs) auto
  qed simp
  with w show ?thesis by (intro exI [of _ walk] conjI)
qed

section \<open>Isolation\<close>

text \<open>Everything of the store that belongs to one tenant.\<close>

fun event_of :: "tenant \<Rightarrow> task_event \<Rightarrow> bool" where
  "event_of t (OutputClosed u _ _) = (u = t)"
| "event_of t (TaskChanged u _) = (u = t)"

definition cut :: "tenant \<Rightarrow> attempt_state \<Rightarrow> attempt_state" where
  "cut t s = \<lparr>as_attempts = tenant_rows t (as_attempts s), as_messageAdmissions = tenant_rows t (as_messageAdmissions s),
     as_archiveSettled = [], as_events = filter (event_of t) (as_events s)\<rparr>"

lemma cut_get [simp]:
  "in_tenant t k \<Longrightarrow> jget (as_attempts (cut t s)) k = jget (as_attempts s) k"
  "in_tenant t k \<Longrightarrow> jget (as_messageAdmissions (cut t s)) k = jget (as_messageAdmissions s) k"
  by (simp_all add: cut_def)

lemma attempt_set_cut:
  "in_tenant t k \<Longrightarrow> ta_tenantId a = t \<Longrightarrow> attempt_set k a (cut t s) = cut t (attempt_set k a s)"
  by (simp add: attempt_set_def Let_def cut_def split: option.splits)

lemma admission_cut:
  "in_tenant t k \<Longrightarrow> (cut t s)\<lparr>as_messageAdmissions := jset k m (as_messageAdmissions (cut t s))\<rparr> =
     cut t (s\<lparr>as_messageAdmissions := jset k m (as_messageAdmissions s)\<rparr>)"
  by (simp add: cut_def)

lemma cut_other:
  "\<not> in_tenant u k \<Longrightarrow> ta_tenantId a \<noteq> u \<Longrightarrow> cut u (attempt_set k a s) = cut u s"
  "\<not> in_tenant u k \<Longrightarrow> cut u (s\<lparr>as_messageAdmissions := jset k m (as_messageAdmissions s)\<rparr>) = cut u s"
  by (simp_all add: cut_def attempt_set_def Let_def split: option.splits)

lemma attempts_tenant:
  assumes "attempts_inv s" and "isTenantId t" and "(k, a) \<in> set (as_attempts s)"
  shows "in_tenant t k \<longleftrightarrow> ta_tenantId a = t"
proof -
  have "jget (as_attempts s) k = Some a" using assms(1,3) by (simp add: attempts_inv_def jget_Some_iff)
  from attempts_invD [OF assms(1) this] show ?thesis using assms(2) by auto
qed

lemma tenant_attempts_cut:
  assumes "attempts_inv s" and "isTenantId t"
  shows "filter (\<lambda>a. ta_tenantId a = t) (jvals (as_attempts (cut t s))) = filter (\<lambda>a. ta_tenantId a = t) (jvals (as_attempts s))"
proof -
  have "filter (\<lambda>(k, a). ta_tenantId a = t) (as_attempts s) =
      filter (\<lambda>(k, a). ta_tenantId a = t) (filter (\<lambda>(k, _). in_tenant t k) (as_attempts s))"
    using attempts_tenant [OF assms] by (auto intro!: filter_cong simp: filter_filter)
  then show ?thesis by (simp add: jvals_def cut_def tenant_rows_def filter_map comp_def split_def)
qed

lemma count_loop_filter: "count_loop t as c = count_loop t (filter (\<lambda>a. ta_tenantId a = t) as) c"
  by (induction as arbitrary: c) auto

lemma settle_loop_cut:
  assumes "\<forall>(k, a) \<in> set rows. in_tenant t k \<longleftrightarrow> ta_tenantId a = t"
  shows "settle_loop t dev cause now (tenant_rows t rows) (cut t s) = cut t (settle_loop t dev cause now rows s)"
  using assms
proof (induction rows arbitrary: s)
  case Nil
  then show ?case by simp
next
  case (Cons e rows)
  obtain k a where e: "e = (k, a)" by (cases e)
  have ids: "ta_tenantId (abandoned a cause now) = ta_tenantId a" by (simp add: abandoned_def)
  have "in_tenant t k \<longleftrightarrow> ta_tenantId a = t" using Cons.prems by (simp add: e)
  then show ?case using Cons attempt_set_cut [of t k "abandoned a cause now" s] ids
    by (simp add: e tenant_rows_def)
qed

lemma settle_loop_other:
  assumes "\<forall>(k, a) \<in> set rows. ta_tenantId a = t \<longrightarrow> \<not> in_tenant u k" and "t \<noteq> u"
  shows "cut u (settle_loop t dev cause now rows s) = cut u s"
  using assms
proof (induction rows arbitrary: s)
  case Nil
  then show ?case by simp
next
  case (Cons e rows)
  obtain k a where e: "e = (k, a)" by (cases e)
  have ids: "ta_tenantId (abandoned a cause now) = ta_tenantId a" by (simp add: abandoned_def)
  show ?case using Cons cut_other(1) [of u k "abandoned a cause now" s] ids by (auto simp: e)
qed

lemma attempt_list_cut:
  assumes "attempts_inv s" and "isTenantId t"
  shows "attempt_list t q (cut t s) = attempt_list t q s"
proof -
  have "attempt_matches t a c (cut t s) = attempt_matches t a c s" for a c
    by (simp only: attempt_matches_def tenant_attempts_cut [OF assms])
  then show ?thesis by (simp only: attempt_list_def)
qed

lemma countByStatus_cut:
  assumes "attempts_inv s" and "isTenantId t"
  shows "countByStatus t (cut t s) = countByStatus t s"
  unfolding countByStatus_def by (subst (1 2) count_loop_filter) (simp add: tenant_attempts_cut [OF assms])

text \<open>A call writes attempts of its own tenant only.\<close>

lemma written_tenant [simp]:
  "ta_tenantId (cancellation_written a r now) = ta_tenantId a" "ta_tenantId (abandoned a c now) = ta_tenantId a"
  by (simp_all add: cancellation_written_def abandoned_def)

lemma reserveAgentMessage_cut:
  assumes "attempts_inv s" and "isTenantId t"
  shows "reserveAgentMessage t i now (cut t s) = map_prod id (cut t) (reserveAgentMessage t i now s)"
proof -
  let ?k = "tenantKey t [mi_taskId i]"
  have in_t: "in_tenant t ?k" by (simp add: in_tenant_own)
  note own = attempts_inv_own(1) [OF assms, of "mi_taskId i"]
  show ?thesis
    using own
    by (simp add: reserveAgentMessage_def Let_def in_t cut_get [OF in_t] admission_cut [OF in_t] attempt_set_cut [OF in_t]
        del: tenantKey_one split: option.splits)
qed

lemma attempt_exec_cut:
  assumes "attempts_inv s" and "isTenantId t"
  shows "attempt_exec t op (cut t s) = map_prod id (cut t) (attempt_exec t op s)"
proof -
  have in_t: "in_tenant t (tenantKey t [task])" for task by (simp add: in_tenant_own)
  note own = attempts_inv_own(1) [OF assms]
  note G = cut_get [OF in_t] attempt_set_cut [OF in_t] admission_cut [OF in_t]
  show ?thesis
  proof (cases op)
    case (ASettle dev cause now)
    have "settle_loop t dev cause n (tenant_rows t (as_attempts s)) (cut t s) = cut t (settle_loop t dev cause n (as_attempts s) s)" for n
      using attempts_tenant [OF assms] by (intro settle_loop_cut) auto
    moreover have "as_attempts (cut t s) = tenant_rows t (as_attempts s)" by (simp add: cut_def)
    ultimately show ?thesis by (simp add: ASettle settleDeviceAttempts_def)
  next
    case (AReserveMessage i now)
    then show ?thesis using reserveAgentMessage_cut [OF assms] by (cases "reserveAgentMessage t i now s") simp
  next
    case (AList q)
    then show ?thesis by (simp add: attempt_list_cut [OF assms])
  next
    case ACount
    then show ?thesis by (simp add: countByStatus_cut [OF assms])
  next
    case (AGetMany tasks)
    then show ?thesis by (simp add: attempt_getMany_def G del: tenantKey_one)
  qed (use own in \<open>simp_all add: attempt_open_def reserveAgentOffer_def recordFirstOutput_def readTaskAgentMessage_def readAgentMessage_def
      finalizeAgentMessage_def terminalize_def attempt_get_def attempt_claim_def recordStatus_def cancel_attempt_def
      abandon_attempt_def Let_def G del: tenantKey_one split: option.splits\<close>)
qed

lemma attempt_exec_other:
  assumes "attempts_inv s" and "isTenantId t" and "isTenantId u" and "t \<noteq> u"
  shows "cut u (snd (attempt_exec t op s)) = cut u s"
proof -
  have out: "\<not> in_tenant u (tenantKey t [task])" for task using assms(2-4) by simp
  note own = attempts_inv_own(1) [OF assms(1,2)]
  note G = cut_other(1) [OF out] cut_other(2) [OF out]
  show ?thesis
  proof (cases op)
    case (ASettle dev cause now)
    have "\<forall>(k, a) \<in> set (as_attempts s). ta_tenantId a = t \<longrightarrow> \<not> in_tenant u k"
      using attempts_tenant [OF assms(1,3)] assms(4) by auto
    from settle_loop_other [OF this assms(4)] show ?thesis by (simp add: ASettle settleDeviceAttempts_def)
  qed (use own assms(4) in \<open>simp_all add: attempt_open_def reserveAgentOffer_def reserveAgentMessage_def recordFirstOutput_def
      finalizeAgentMessage_def terminalize_def attempt_claim_def recordStatus_def cancel_attempt_def
      abandon_attempt_def Let_def G del: tenantKey_one split: option.splits\<close>)
qed

interpretation attempt_store: isolated_store attempt_exec attempts_inv cut
proof (unfold_locales, goal_cases)
  case (1 s t u op)
  then show ?case by (intro attempt_exec_other)
next
  case (2 s s' t op)
  then show ?case
    using attempt_exec_cut [OF 2(1,3), of op] attempt_exec_cut [OF 2(2,3), of op] by (simp add: prod_eq_iff)
qed

text \<open>
  Task isolation: the attempts, message reservations, callbacks and answers a tenant sees are
  those of its own calls, for every interleaving with the calls of other tenants and for every
  store the calls can build; a device that guesses a task id of another tenant leaves no trace
  there.
\<close>

theorem task_isolation:
  assumes "isTenantId u" and "\<forall>(t, op) \<in> set ops. isTenantId t" and "attempts_inv s"
  shows "own_ops u (fst (run_ops attempt_exec ops s)) = fst (run_ops attempt_exec (own_ops u ops) s) \<and>
    cut u (snd (run_ops attempt_exec ops s)) = cut u (snd (run_ops attempt_exec (own_ops u ops) s))"
  using assms by (rule attempt_store.isolation)

theorem task_isolation_witness:
  "cut ''acme'' (snd (run_ops attempt_exec
      [(''globex'', AClaim \<lparr>cl_taskId = ''t'', cl_deviceId = ''d'', cl_runtime = None, cl_harnessId = None, cl_capabilities = None\<rparr> 3)] sample_task)) =
     cut ''acme'' sample_task"
  using task_isolation [OF sample_tenants(1) _ sample_task_inv,
      of "[(''globex'', AClaim \<lparr>cl_taskId = ''t'', cl_deviceId = ''d'', cl_runtime = None, cl_harnessId = None, cl_capabilities = None\<rparr> 3)]"]
  by (simp add: own_ops_def)

end
