(* ===== verification/Device_Directory.thy ===== *)
theory Device_Directory
  imports Mailbox Task_Attempts
begin

text \<open>
  The device directory (\<open>packages/cloud/src/stores/in-memory/device-directory.ts\<close>, types of
  \<open>stores/ports.ts\<close> and the tenant readiness model of \<open>packages/core/src/presence.ts\<close>). A
  registration or a revocation changes the directory, the mailbox streams and the task attempts
  together, so its operations work on \<open>hosted_state\<close>, the state the in-memory composition shares
  between its stores. Registrations and revocations run one at a time, and a retirement runs with
  no task mutation in flight (\<open>InMemoryTaskAttemptState.exclusive\<close>), so each is one step.
\<close>

section \<open>Data\<close>

datatype policy_state = Policy_allow | Policy_warn | Policy_block

record version_policy =
  vp_state :: policy_state
  vp_qualifiedVersion :: "string option"

record harness_info =
  hn_id :: string
  hn_version :: "string option"
  hn_capabilities :: runtime_capabilities
  hn_versionPolicy :: "version_policy option"

record device_record =
  dv_tenantId :: tenant
  dv_productId :: string
  dv_deviceId :: string
  dv_deviceName :: string
  dv_devicePublicKey :: string
  dv_proofKeyId :: string
  dv_proofKeyEpoch :: int
  dv_revoked :: bool
  dv_machineId :: "string option"
  dv_capabilities :: "string list option"
  dv_harnesses :: "harness_info list option"

record device_registration =
  dg_productId :: string
  dg_deviceId :: string
  dg_deviceName :: string
  dg_devicePublicKey :: string
  dg_proofKeyId :: string
  dg_proofKeyEpoch :: int
  dg_machineId :: "string option"

record device_directory =
  dd_byTenant :: "device_record jmap"
  dd_byDeviceId :: "string jmap"

text \<open>
  The stores of one in-memory composition that act together; \<open>hs_messageIds\<close> belongs to the
  cancellation store.
\<close>

record hosted_state =
  hs_tasks :: attempt_state
  hs_mailbox :: mailbox_state
  hs_devices :: device_directory
  hs_messageIds :: "string jmap"

definition empty_hosted :: hosted_state where
  "empty_hosted = \<lparr>hs_tasks = empty_attempts, hs_mailbox = [],
     hs_devices = \<lparr>dd_byTenant = [], dd_byDeviceId = []\<rparr>, hs_messageIds = []\<rparr>"

section \<open>Registration and revocation\<close>

definition remember :: "string \<Rightarrow> device_record \<Rightarrow> device_directory \<Rightarrow> device_directory" where
  "remember key r d =
     d\<lparr>dd_byTenant := jset key r (dd_byTenant d), dd_byDeviceId := jset (dv_deviceId r) key (dd_byDeviceId d)\<rparr>"

definition forget :: "string \<Rightarrow> string \<Rightarrow> device_directory \<Rightarrow> device_directory" where
  "forget key deviceId d =
     d\<lparr>dd_byTenant := jdel key (dd_byTenant d),
       dd_byDeviceId := (if jget (dd_byDeviceId d) deviceId = Some key then jdel deviceId (dd_byDeviceId d) else dd_byDeviceId d)\<rparr>"

definition registered_row :: "tenant \<Rightarrow> device_registration \<Rightarrow> device_record" where
  "registered_row t input =
     \<lparr>dv_tenantId = t, dv_productId = dg_productId input, dv_deviceId = dg_deviceId input,
      dv_deviceName = dg_deviceName input, dv_devicePublicKey = dg_devicePublicKey input,
      dv_proofKeyId = dg_proofKeyId input, dv_proofKeyEpoch = dg_proofKeyEpoch input, dv_revoked = False,
      dv_machineId = dg_machineId input, dv_capabilities = None, dv_harnesses = None\<rparr>"

definition superseded_rows :: "tenant \<Rightarrow> device_registration \<Rightarrow> device_directory \<Rightarrow> (string \<times> device_record) list" where
  "superseded_rows t input d =
     (if dg_machineId input = None then []
      else filter (\<lambda>(key, existing).
             \<not> (dv_deviceId existing = dg_deviceId input \<or> dv_tenantId existing \<noteq> t \<or>
                dv_productId existing \<noteq> dg_productId input \<or> dv_machineId existing \<noteq> dg_machineId input))
           (dd_byTenant d))"

fun forget_rows :: "(string \<times> device_record) list \<Rightarrow> device_directory \<Rightarrow> device_directory" where
  "forget_rows [] d = d"
| "forget_rows ((key, existing) # rows) d = forget_rows rows (forget key (dv_deviceId existing) d)"

fun remember_rows :: "(string \<times> device_record) list \<Rightarrow> device_directory \<Rightarrow> device_directory" where
  "remember_rows [] d = d"
| "remember_rows ((key, existing) # rows) d = remember_rows rows (remember key existing d)"

text \<open>Closing the streams of the superseded devices one after the other; the first error ends it.\<close>

fun close_streams :: "tenant \<Rightarrow> (string \<times> device_record) list \<Rightarrow> int \<Rightarrow> mailbox_state \<Rightarrow> mailbox_error option \<times> mailbox_state" where
  "close_streams t [] now mb = (None, mb)"
| "close_streams t ((key, existing) # rows) now mb =
     (case closeStream t (dv_deviceId existing) Device_superseded now mb of
        (Inl e, mb') \<Rightarrow> (Some e, mb')
      | (Inr _, mb') \<Rightarrow> close_streams t rows now mb')"

fun settle_devices :: "tenant \<Rightarrow> (string \<times> device_record) list \<Rightarrow> int \<Rightarrow> attempt_state \<Rightarrow> attempt_state" where
  "settle_devices t [] now a = a"
| "settle_devices t ((key, existing) # rows) now a =
     settle_devices t rows now (settleDeviceAttempts t (dv_deviceId existing) Abandon_device_superseded now a)"

text \<open>
  A failed close puts the registrations back (what the directory held before, in both maps) and
  leaves the attempts as they were.
\<close>

definition device_register ::
  "tenant \<Rightarrow> device_registration \<Rightarrow> int \<Rightarrow> hosted_state \<Rightarrow> (mailbox_error + device_record) \<times> hosted_state" where
  "device_register t input now s =
     (let r = registered_row t input;
          superseded = superseded_rows t input (hs_devices s);
          key = tenantKey t [dg_deviceId input]
      in if superseded = []
         then (Inr r, s\<lparr>hs_mailbox := reopenStream t (dg_deviceId input) (hs_mailbox s),
                        hs_devices := remember key r (hs_devices s)\<rparr>)
         else
           let replaced = jget (dd_byTenant (hs_devices s)) key;
               d = remember key r (forget_rows superseded (hs_devices s))
           in case close_streams t superseded now (hs_mailbox s) of
                (Some e, mb) \<Rightarrow>
                  let d' = (case replaced of None \<Rightarrow> forget key (dg_deviceId input) d | Some old \<Rightarrow> remember key old d)
                  in (Inl e, s\<lparr>hs_mailbox := mb, hs_devices := remember_rows superseded d'\<rparr>)
              | (None, mb) \<Rightarrow>
                  (Inr r, s\<lparr>hs_mailbox := reopenStream t (dg_deviceId input) mb, hs_devices := d,
                            hs_tasks := settle_devices t superseded now (hs_tasks s)\<rparr>))"

definition device_get :: "tenant \<Rightarrow> string \<Rightarrow> device_directory \<Rightarrow> device_record option" where
  "device_get t deviceId d = jget (dd_byTenant d) (tenantKey t [deviceId])"

definition device_revoke :: "tenant \<Rightarrow> string \<Rightarrow> int \<Rightarrow> hosted_state \<Rightarrow> (mailbox_error + unit) \<times> hosted_state" where
  "device_revoke t deviceId now s =
     (let key = tenantKey t [deviceId]
      in case jget (dd_byTenant (hs_devices s)) key of
           None \<Rightarrow> (Inr (), s)
         | Some r \<Rightarrow>
             let d = forget key deviceId (hs_devices s)
             in case closeStream t deviceId Device_revoked now (hs_mailbox s) of
                  (Inl e, mb) \<Rightarrow> (Inl e, s\<lparr>hs_mailbox := mb, hs_devices := remember key r d\<rparr>)
                | (Inr _, mb) \<Rightarrow>
                    (Inr (), s\<lparr>hs_mailbox := mb, hs_devices := d,
                               hs_tasks := settleDeviceAttempts t deviceId Abandon_device_revoked now (hs_tasks s)\<rparr>))"

definition recordCapabilities ::
  "tenant \<Rightarrow> string \<Rightarrow> harness_info list option \<Rightarrow> string list \<Rightarrow> device_directory \<Rightarrow> device_record option \<times> device_directory" where
  "recordCapabilities t deviceId harnesses capabilities d =
     (let key = tenantKey t [deviceId]
      in case jget (dd_byTenant d) key of
           None \<Rightarrow> (None, d)
         | Some r \<Rightarrow>
             if dv_revoked r then (None, d)
             else let updated = r\<lparr>dv_capabilities := Some capabilities,
                        dv_harnesses := Some (case harnesses of None \<Rightarrow> [] | Some hs \<Rightarrow> hs)\<rparr>
                  in (Some updated, d\<lparr>dd_byTenant := jset key updated (dd_byTenant d)\<rparr>))"

definition device_list :: "tenant \<Rightarrow> device_directory \<Rightarrow> device_record list" where
  "device_list t d = map snd (filter (\<lambda>(key, _). in_tenant t key) (dd_byTenant d))"

definition resolveByDeviceId :: "string \<Rightarrow> device_directory \<Rightarrow> device_record option" where
  "resolveByDeviceId deviceId d =
     (case jget (dd_byDeviceId d) deviceId of None \<Rightarrow> None | Some key \<Rightarrow> jget (dd_byTenant d) key)"

section \<open>Tenant readiness\<close>

record readiness_presence =
  rp_level :: presence_level
  rp_detail :: "string option"
  rp_configuredToolsets :: "string list option"
  rp_clientVersion :: "string option"
  rp_protocolVersions :: "jsnum list option"
  rp_runtimes :: "runtime_fact list option"
  rp_observedAt :: string
  rp_expiresAt :: string

record readiness_device =
  rd_deviceId :: string
  rd_productId :: string
  rd_deviceName :: string
  rd_revoked :: bool
  rd_presence :: "readiness_presence option"

record tenant_readiness =
  rdy_tenantId :: tenant
  rdy_activePairedDeviceCount :: int
  rdy_revokedDeviceCount :: int
  rdy_observedPresenceCount :: int
  rdy_observedPresenceByLevel :: "presence_level \<Rightarrow> int"
  rdy_devices :: "readiness_device list"

definition readiness_presence_of :: "presence_hint \<Rightarrow> readiness_presence" where
  "readiness_presence_of h =
     \<lparr>rp_level = ph_level h, rp_detail = ph_detail h, rp_configuredToolsets = ph_configuredToolsets h,
      rp_clientVersion = ph_clientVersion h, rp_protocolVersions = ph_protocolVersions h,
      rp_runtimes = ph_runtimes h, rp_observedAt = ph_observedAt h, rp_expiresAt = ph_expiresAt h\<rparr>"

fun presence_by_device :: "presence_hint list \<Rightarrow> presence_hint jmap \<Rightarrow> presence_hint jmap" where
  "presence_by_device [] m = m"
| "presence_by_device (h # hs) m = presence_by_device hs (jset (ph_deviceId h) h m)"

fun count_levels :: "string list \<Rightarrow> presence_hint list \<Rightarrow> (presence_level \<Rightarrow> int) \<Rightarrow> (presence_level \<Rightarrow> int)" where
  "count_levels active [] c = c"
| "count_levels active (h # hs) c =
     (if ph_deviceId h \<notin> set active then count_levels active hs c
      else count_levels active hs (c(ph_level h := c (ph_level h) + 1)))"

definition readiness_device_of :: "presence_hint jmap \<Rightarrow> device_record \<Rightarrow> readiness_device" where
  "readiness_device_of byDevice r =
     \<lparr>rd_deviceId = dv_deviceId r, rd_productId = dv_productId r, rd_deviceName = dv_deviceName r, rd_revoked = dv_revoked r,
      rd_presence = (if dv_revoked r then None else map_option readiness_presence_of (jget byDevice (dv_deviceId r)))\<rparr>"

definition readiness ::
  "(string \<Rightarrow> string \<Rightarrow> int) \<Rightarrow> tenant \<Rightarrow> int \<Rightarrow> device_directory \<Rightarrow> presence_state \<Rightarrow> tenant_readiness \<times> presence_state" where
  "readiness lc t now d ps =
     (let devices = device_list t d
      in case presence_list lc t now ps of (live, ps') \<Rightarrow>
           let active = map dv_deviceId (filter (\<lambda>r. \<not> dv_revoked r) devices);
               byLevel = count_levels active live (\<lambda>_. 0)
           in (\<lparr>rdy_tenantId = t, rdy_activePairedDeviceCount = int (length (filter (\<lambda>r. \<not> dv_revoked r) devices)),
                rdy_revokedDeviceCount = int (length (filter dv_revoked devices)),
                rdy_observedPresenceCount = sum_list (map byLevel PRESENCE_LEVELS),
                rdy_observedPresenceByLevel = byLevel,
                rdy_devices = map (readiness_device_of (presence_by_device live []))
                  (sort_by (\<lambda>l r. lc (dv_deviceId l) (dv_deviceId r)) devices)\<rparr>, ps'))"

section \<open>The directory invariant\<close>

text \<open>
  Rows stand under the key of their own tenant and device, none is marked revoked, and the
  pre-tenant index points at a row of the device it is asked for.
\<close>

definition dir_rows :: "device_directory \<Rightarrow> bool" where
  "dir_rows d = (jmap_ok (dd_byTenant d) \<and>
     (\<forall>k r. jget (dd_byTenant d) k = Some r \<longrightarrow>
        isTenantId (dv_tenantId r) \<and> k = tenantKey (dv_tenantId r) [dv_deviceId r] \<and> \<not> dv_revoked r))"

definition dir_index :: "device_directory \<Rightarrow> bool" where
  "dir_index d = (\<forall>dev k. jget (dd_byDeviceId d) dev = Some k \<longrightarrow>
     (\<exists>r. jget (dd_byTenant d) k = Some r \<and> dv_deviceId r = dev))"

text \<open>One physical machine holds at most one row per tenant and product.\<close>

definition one_machine :: "device_directory \<Rightarrow> bool" where
  "one_machine d = (\<forall>k k' r r'. jget (dd_byTenant d) k = Some r \<longrightarrow> jget (dd_byTenant d) k' = Some r' \<longrightarrow>
     dv_machineId r \<noteq> None \<longrightarrow> dv_machineId r' = dv_machineId r \<longrightarrow> dv_tenantId r' = dv_tenantId r \<longrightarrow>
     dv_productId r' = dv_productId r \<longrightarrow> k = k')"

definition dir_inv :: "device_directory \<Rightarrow> bool" where
  "dir_inv d = (dir_rows d \<and> dir_index d \<and> one_machine d)"

lemma dir_rows_get: "dir_rows d \<Longrightarrow> jget (dd_byTenant d) k = Some r \<Longrightarrow> isTenantId (dv_tenantId r) \<and> k = tenantKey (dv_tenantId r) [dv_deviceId r] \<and> \<not> dv_revoked r"
  by (simp add: dir_rows_def)

lemma remember_get [simp]: "jget (dd_byTenant (remember key r d)) k = (if key = k then Some r else jget (dd_byTenant d) k)"
  by (simp add: remember_def)

lemma forget_get [simp]: "jget (dd_byTenant (forget key dev d)) k = (if key = k then None else jget (dd_byTenant d) k)"
  by (simp add: forget_def)

lemma remember_rows_ok:
  assumes "dir_rows d" and "isTenantId (dv_tenantId r)" and "key = tenantKey (dv_tenantId r) [dv_deviceId r]" and "\<not> dv_revoked r"
  shows "dir_rows (remember key r d)"
  using assms by (auto simp: dir_rows_def remember_def)

lemma forget_rows_ok: "dir_rows d \<Longrightarrow> dir_rows (forget key dev d)"
  by (auto simp: dir_rows_def forget_def)

text \<open>A row keeps its device under its key, so a replaced row leaves the index right.\<close>

lemma remember_index_ok:
  assumes "dir_rows d" and "dir_index d" and "isTenantId (dv_tenantId r)" and "key = tenantKey (dv_tenantId r) [dv_deviceId r]"
  shows "dir_index (remember key r d)"
  unfolding dir_index_def
proof (intro allI impI)
  fix dev k
  assume k: "jget (dd_byDeviceId (remember key r d)) dev = Some k"
  show "\<exists>r'. jget (dd_byTenant (remember key r d)) k = Some r' \<and> dv_deviceId r' = dev"
  proof (cases "dev = dv_deviceId r")
    case True
    then show ?thesis using k by (simp add: remember_def)
  next
    case False
    then obtain r' where r': "jget (dd_byTenant d) k = Some r'" "dv_deviceId r' = dev"
      using k assms(2) by (fastforce simp: remember_def dir_index_def)
    then have "key \<noteq> k" using dir_rows_get [OF assms(1) r'(1)] False assms(3,4) by auto
    then show ?thesis using r' by simp
  qed
qed

lemma forget_index_ok:
  assumes "dir_index d" and "\<And>r. jget (dd_byTenant d) key = Some r \<Longrightarrow> dv_deviceId r = dev"
  shows "dir_index (forget key dev d)"
  using assms by (fastforce simp: dir_index_def forget_def split: if_splits)

lemmas dir_ok = remember_rows_ok forget_rows_ok remember_index_ok forget_index_ok

lemma forget_rows_get:
  "jget (dd_byTenant (forget_rows rows d)) k = (if k \<in> fst ` set rows then None else jget (dd_byTenant d) k)"
  by (induction rows d rule: forget_rows.induct) auto

lemma forget_rows_keeps:
  assumes "dir_rows d" and "dir_index d"
    and "\<forall>(k, e) \<in> set rows. \<forall>r. jget (dd_byTenant d) k = Some r \<longrightarrow> dv_deviceId r = dv_deviceId e"
  shows "dir_rows (forget_rows rows d) \<and> dir_index (forget_rows rows d)"
  using assms
proof (induction rows d rule: forget_rows.induct)
  case (2 key existing rows d)
  have "dir_index (forget key (dv_deviceId existing) d)" using 2(3,4) by (intro forget_index_ok) auto
  moreover have "\<forall>(k, e) \<in> set rows. \<forall>r. jget (dd_byTenant (forget key (dv_deviceId existing) d)) k = Some r \<longrightarrow>
      dv_deviceId r = dv_deviceId e"
    using 2(4) by (fastforce split: if_splits)
  ultimately show ?case using 2(1) forget_rows_ok [OF 2(2)] by simp
qed simp

definition own_row :: "string \<times> device_record \<Rightarrow> bool" where
  "own_row = (\<lambda>(k, e). isTenantId (dv_tenantId e) \<and> k = tenantKey (dv_tenantId e) [dv_deviceId e] \<and> \<not> dv_revoked e)"

lemma remember_rows_keeps:
  assumes "dir_rows d" and "dir_index d" and "\<forall>x \<in> set rows. own_row x"
  shows "dir_rows (remember_rows rows d) \<and> dir_index (remember_rows rows d)"
  using assms
proof (induction rows d rule: remember_rows.induct)
  case (2 key existing rows d)
  then have e: "isTenantId (dv_tenantId existing)" "key = tenantKey (dv_tenantId existing) [dv_deviceId existing]" "\<not> dv_revoked existing"
    by (auto simp: own_row_def)
  show ?case
    using 2(1) [OF remember_rows_ok [OF 2(2) e] remember_index_ok [OF 2(2,3) e(1,2)]] 2(4) by simp
qed simp

lemma remember_rows_get:
  "distinct (map fst rows) \<Longrightarrow> jget (dd_byTenant (remember_rows rows d)) k =
     (case map_of rows k of Some e \<Rightarrow> Some e | None \<Rightarrow> jget (dd_byTenant d) k)"
proof (induction rows d rule: remember_rows.induct)
  case (2 key existing rows d)
  then have "map_of rows key = None" by (simp add: map_of_eq_None_iff)
  then show ?case using 2 by (auto split: option.splits)
qed simp

lemma superseded_iff:
  assumes "dir_rows d"
  shows "(k, e) \<in> set (superseded_rows t input d) \<longleftrightarrow>
    jget (dd_byTenant d) k = Some e \<and> dg_machineId input \<noteq> None \<and> dv_deviceId e \<noteq> dg_deviceId input \<and>
    dv_tenantId e = t \<and> dv_productId e = dg_productId input \<and> dv_machineId e = dg_machineId input"
  using assms by (auto simp: superseded_rows_def dir_rows_def jget_Some_iff)

lemma superseded_distinct: "dir_rows d \<Longrightarrow> distinct (map fst (superseded_rows t input d))"
  by (auto simp: superseded_rows_def dir_rows_def jmap_ok_def distinct_map_filter)

lemma superseded_own: "dir_rows d \<Longrightarrow> x \<in> set (superseded_rows t input d) \<Longrightarrow> own_row x"
  by (cases x) (auto simp: superseded_iff own_row_def dest: dir_rows_get)

text \<open>The directory after a registration that went through.\<close>

definition replaced_directory :: "tenant \<Rightarrow> device_registration \<Rightarrow> device_directory \<Rightarrow> device_directory" where
  "replaced_directory t input d =
     remember (tenantKey t [dg_deviceId input]) (registered_row t input) (forget_rows (superseded_rows t input d) d)"

lemma replaced_get:
  assumes "dir_rows d"
  shows "jget (dd_byTenant (replaced_directory t input d)) k =
    (if k = tenantKey t [dg_deviceId input] then Some (registered_row t input)
     else case jget (dd_byTenant d) k of
            None \<Rightarrow> None
          | Some e \<Rightarrow> if (k, e) \<in> set (superseded_rows t input d) then None else Some e)"
proof -
  have "k \<in> fst ` set (superseded_rows t input d) \<longleftrightarrow>
    (case jget (dd_byTenant d) k of None \<Rightarrow> False | Some e \<Rightarrow> (k, e) \<in> set (superseded_rows t input d))"
    by (cases "jget (dd_byTenant d) k") (auto simp: superseded_iff [OF assms] image_iff Bex_def)
  then show ?thesis by (cases "jget (dd_byTenant d) k") (simp_all add: replaced_directory_def forget_rows_get)
qed

lemma registered_row_simps [simp]:
  "dv_tenantId (registered_row t i) = t" "dv_deviceId (registered_row t i) = dg_deviceId i"
  "dv_productId (registered_row t i) = dg_productId i" "dv_machineId (registered_row t i) = dg_machineId i"
  "\<not> dv_revoked (registered_row t i)"
  by (simp_all add: registered_row_def)

lemma replaced_inv:
  assumes "isTenantId t" and "dir_inv d"
  shows "dir_inv (replaced_directory t input d)"
proof -
  have D: "dir_rows d" "dir_index d" "one_machine d" using assms(2) by (simp_all add: dir_inv_def)
  have F: "dir_rows (forget_rows (superseded_rows t input d) d) \<and> dir_index (forget_rows (superseded_rows t input d) d)"
    using D by (intro forget_rows_keeps) (auto simp: superseded_iff)
  have "dir_rows (replaced_directory t input d)" "dir_index (replaced_directory t input d)"
    using F assms(1) unfolding replaced_directory_def by (auto intro!: dir_ok)
  moreover have "one_machine (replaced_directory t input d)"
    unfolding one_machine_def
  proof (intro allI impI)
    fix k k' r r'
    assume a: "jget (dd_byTenant (replaced_directory t input d)) k = Some r" "jget (dd_byTenant (replaced_directory t input d)) k' = Some r'"
      "dv_machineId r \<noteq> None" "dv_machineId r' = dv_machineId r" "dv_tenantId r' = dv_tenantId r" "dv_productId r' = dv_productId r"
    let ?key = "tenantKey t [dg_deviceId input]"
    have old: "jget (dd_byTenant d) x = Some y \<and> \<not> (x, y) \<in> set (superseded_rows t input d)"
      if "jget (dd_byTenant (replaced_directory t input d)) x = Some y" "x \<noteq> ?key" for x y
      using that by (simp add: replaced_get [OF D(1)] split: option.splits if_splits)
    have other: False
      if "jget (dd_byTenant (replaced_directory t input d)) x = Some y" "x \<noteq> ?key" "dv_machineId y = dg_machineId input"
        "dg_machineId input \<noteq> None" "dv_tenantId y = t" "dv_productId y = dg_productId input" for x y
    proof -
      note o = old [OF that(1,2)]
      have "dv_deviceId y \<noteq> dg_deviceId input" using dir_rows_get [OF D(1) o [THEN conjunct1]] that(2,5) by auto
      then show False using o that(3-) by (simp add: superseded_iff [OF D(1)])
    qed
    have new: "y = registered_row t input"
      if "jget (dd_byTenant (replaced_directory t input d)) ?key = Some y" for y
      using that by (simp add: replaced_get [OF D(1)])
    consider "k = ?key" "k' \<noteq> ?key" | "k \<noteq> ?key" "k' = ?key" | "k = k'" | "k \<noteq> ?key" "k' \<noteq> ?key" by blast
    then show "k = k'"
    proof cases
      case 1
      then have "r = registered_row t input" using a(1) new by simp
      then show ?thesis using other [OF a(2) 1(2)] a(3-) by simp
    next
      case 2
      then have "r' = registered_row t input" using a(2) new by simp
      then show ?thesis using other [OF a(1) 2(1)] a(3-) by simp
    next
      case 4
      then show ?thesis using a(3-) old [OF a(1)] old [OF a(2)] D(3) unfolding one_machine_def by blast
    qed simp
  qed
  ultimately show ?thesis by (simp add: dir_inv_def)
qed

text \<open>What the other parts of the directory see of a change is the rows.\<close>

lemma one_machine_cong: "(\<And>k. jget (dd_byTenant d') k = jget (dd_byTenant d) k) \<Longrightarrow> one_machine d' = one_machine d"
  by (simp add: one_machine_def)

definition rolled_back :: "tenant \<Rightarrow> device_registration \<Rightarrow> device_directory \<Rightarrow> device_directory" where
  "rolled_back t input d =
     (let key = tenantKey t [dg_deviceId input]; d1 = replaced_directory t input d
      in remember_rows (superseded_rows t input d)
           (case jget (dd_byTenant d) key of None \<Rightarrow> forget key (dg_deviceId input) d1 | Some old \<Rightarrow> remember key old d1))"

lemma rolled_back_get:
  assumes "dir_rows d"
  shows "jget (dd_byTenant (rolled_back t input d)) k = jget (dd_byTenant d) k"
proof (cases "map_of (superseded_rows t input d) k")
  case None
  then have "(k, e) \<notin> set (superseded_rows t input d)" for e by (force simp: map_of_eq_None_iff)
  then show ?thesis
    using None superseded_distinct [OF assms]
    by (auto simp: rolled_back_def Let_def remember_rows_get replaced_get [OF assms] split: option.splits)
next
  case (Some e)
  then have "(k, e) \<in> set (superseded_rows t input d)" by (rule map_of_SomeD)
  then have g: "jget (dd_byTenant d) k = Some e" by (simp add: superseded_iff [OF assms])
  show ?thesis
    unfolding rolled_back_def Let_def remember_rows_get [OF superseded_distinct [OF assms]] Some g by simp
qed

lemma rolled_back_inv:
  assumes "isTenantId t" and "dir_inv d"
  shows "dir_inv (rolled_back t input d)"
proof -
  let ?key = "tenantKey t [dg_deviceId input]" and ?d1 = "replaced_directory t input d"
  let ?m = "case jget (dd_byTenant d) ?key of None \<Rightarrow> forget ?key (dg_deviceId input) ?d1 | Some old \<Rightarrow> remember ?key old ?d1"
  have D: "dir_rows d" "one_machine d" using assms(2) by (simp_all add: dir_inv_def)
  have R: "dir_rows ?d1" "dir_index ?d1" using replaced_inv [OF assms] by (simp_all add: dir_inv_def)
  have "dir_rows ?m \<and> dir_index ?m"
  proof (cases "jget (dd_byTenant d) ?key")
    case None
    have "dir_index (forget ?key (dg_deviceId input) ?d1)"
      using R(2) by (rule forget_index_ok) (simp add: replaced_get [OF D(1)] split: if_splits)
    then show ?thesis using None R by (simp add: forget_rows_ok)
  next
    case (Some old)
    note o = dir_rows_get [OF D(1) Some]
    then show ?thesis using Some R by (simp del: tenantKey_one add: remember_rows_ok remember_index_ok)
  qed
  then have "dir_rows (rolled_back t input d) \<and> dir_index (rolled_back t input d)"
    unfolding rolled_back_def Let_def by (intro remember_rows_keeps) (simp_all add: superseded_own [OF D(1)])
  moreover have "one_machine (rolled_back t input d)"
    using D(2) one_machine_cong [OF rolled_back_get [OF D(1)]] by simp
  ultimately show ?thesis by (simp add: dir_inv_def)
qed

section \<open>The three stores of a retirement\<close>

abbreviation mail_calls :: "tenant \<Rightarrow> mailbox_state \<Rightarrow> mailbox_state \<Rightarrow> bool" where
  "mail_calls \<equiv> store_calls mailbox_exec (\<lambda>_. True)"

text \<open>Nothing but a host cancellation writes a cancellation tombstone.\<close>

fun no_cancel :: "attempt_op \<Rightarrow> bool" where
  "no_cancel (ACancel _ _ _) = False"
| "no_cancel _ = True"

abbreviation task_calls :: "tenant \<Rightarrow> attempt_state \<Rightarrow> attempt_state \<Rightarrow> bool" where
  "task_calls \<equiv> store_calls attempt_exec no_cancel"

lemma mail_call: "mail_calls t mb (snd (mailbox_exec t op mb))"
  by (rule store_calls_one) simp

lemma task_call: "no_cancel op \<Longrightarrow> task_calls t a (snd (attempt_exec t op a))"
  by (rule store_calls_one)

lemma mail_reopen: "mail_calls t mb (reopenStream t dev mb)"
  using mail_call [of t mb "MReopenStream dev"] by simp

lemma mail_close: "mail_calls t mb (snd (closeStream t dev cause now mb))"
  using mail_call [of t mb "MCloseStream dev cause now"] by simp

lemma task_settle: "task_calls t a (settleDeviceAttempts t dev cause now a)"
  using task_call [of "ASettle dev cause now" t a] by simp

lemma mail_close_streams: "mail_calls t mb (snd (close_streams t rows now mb))"
proof (induction t rows now mb rule: close_streams.induct)
  case (2 t key existing rows now mb)
  obtain r mb' where c: "closeStream t (dv_deviceId existing) Device_superseded now mb = (r, mb')"
    by (cases "closeStream t (dv_deviceId existing) Device_superseded now mb")
  have step: "mail_calls t mb mb'"
    using mail_close [of t mb "dv_deviceId existing" Device_superseded now] by (simp add: c)
  show ?case
  proof (cases r)
    case (Inl e)
    then show ?thesis using step by (simp add: c)
  next
    case (Inr n)
    then show ?thesis using store_calls_trans [OF step 2(1) [OF c [symmetric, unfolded Inr]]] by (simp add: c)
  qed
qed simp

lemma task_settle_devices: "task_calls t a (settle_devices t rows now a)"
  by (induction t rows now a rule: settle_devices.induct) (auto intro: store_calls_trans [OF task_settle])

lemma device_register_devices:
  "hs_devices (snd (device_register t input now s)) =
     (case fst (device_register t input now s) of
        Inl _ \<Rightarrow> rolled_back t input (hs_devices s)
      | Inr _ \<Rightarrow> replaced_directory t input (hs_devices s))"
proof (cases "superseded_rows t input (hs_devices s) = []")
  case True
  then show ?thesis by (simp add: device_register_def replaced_directory_def Let_def)
next
  case False
  obtain e mb where c: "close_streams t (superseded_rows t input (hs_devices s)) now (hs_mailbox s) = (e, mb)"
    by (cases "close_streams t (superseded_rows t input (hs_devices s)) now (hs_mailbox s)")
  show ?thesis
    using False
    by (cases e) (simp_all add: device_register_def replaced_directory_def rolled_back_def Let_def c del: tenantKey_one)
qed

lemma device_register_dir:
  assumes "isTenantId t" and "dir_inv (hs_devices s)"
  shows "dir_inv (hs_devices (snd (device_register t input now s)))"
  using replaced_inv [OF assms] rolled_back_inv [OF assms]
  by (simp add: device_register_devices split: sum.splits)

lemma device_register_calls:
  "mail_calls t (hs_mailbox s) (hs_mailbox (snd (device_register t input now s)))"
  "task_calls t (hs_tasks s) (hs_tasks (snd (device_register t input now s)))"
  "hs_messageIds (snd (device_register t input now s)) = hs_messageIds s"
proof -
  let ?rows = "superseded_rows t input (hs_devices s)"
  obtain e mb where c: "close_streams t ?rows now (hs_mailbox s) = (e, mb)"
    by (cases "close_streams t ?rows now (hs_mailbox s)")
  have "mail_calls t (hs_mailbox s) mb" using mail_close_streams [of t "hs_mailbox s" ?rows now] by (simp add: c)
  then show "mail_calls t (hs_mailbox s) (hs_mailbox (snd (device_register t input now s)))"
    by (auto simp: device_register_def Let_def c mail_reopen split: option.splits intro: store_calls_trans mail_reopen)
  show "task_calls t (hs_tasks s) (hs_tasks (snd (device_register t input now s)))"
    by (auto simp: device_register_def Let_def c task_settle_devices split: option.splits)
  show "hs_messageIds (snd (device_register t input now s)) = hs_messageIds s"
    by (auto simp: device_register_def Let_def c split: option.splits)
qed

lemma one_machine_forget: "one_machine d \<Longrightarrow> one_machine (forget key dev d)"
  by (simp add: one_machine_def)

lemma forget_inv:
  assumes "dir_inv d" and "jget (dd_byTenant d) key = Some r" and "dv_deviceId r = dev"
  shows "dir_inv (forget key dev d)"
  using assms by (auto simp: dir_inv_def forget_rows_ok one_machine_forget intro: forget_index_ok)

lemma remember_back_inv:
  assumes "dir_inv d" and "jget (dd_byTenant d) key = Some r" and "dv_deviceId r = dev"
  shows "dir_inv (remember key r (forget key dev d))"
proof -
  note F = forget_inv [OF assms]
  have "dir_rows d" using assms(1) by (simp add: dir_inv_def)
  note o = dir_rows_get [OF this assms(2)]
  have "one_machine (remember key r (forget key dev d)) = one_machine d"
    using assms(2) by (intro one_machine_cong) auto
  then show ?thesis
    using F o assms(1) by (simp add: dir_inv_def remember_rows_ok remember_index_ok del: tenantKey_one)
qed

lemma device_revoke_dir:
  assumes "isTenantId t" and "dir_inv (hs_devices s)"
  shows "dir_inv (hs_devices (snd (device_revoke t dev now s)))"
proof (cases "jget (dd_byTenant (hs_devices s)) (tenantKey t [dev])")
  case None
  then show ?thesis using assms(2) by (simp add: device_revoke_def)
next
  case (Some r)
  have "dir_rows (hs_devices s)" using assms(2) by (simp add: dir_inv_def)
  then have "dv_deviceId r = dev" using dir_rows_get [OF _ Some] assms(1) by auto
  note I = forget_inv [OF assms(2) Some this] remember_back_inv [OF assms(2) Some this]
  obtain c mb where c: "closeStream t dev Device_revoked now (hs_mailbox s) = (c, mb)"
    by (cases "closeStream t dev Device_revoked now (hs_mailbox s)")
  show ?thesis using I Some by (cases c) (simp_all add: device_revoke_def Let_def c)
qed

lemma device_revoke_calls:
  "mail_calls t (hs_mailbox s) (hs_mailbox (snd (device_revoke t dev now s)))"
  "task_calls t (hs_tasks s) (hs_tasks (snd (device_revoke t dev now s)))"
  "hs_messageIds (snd (device_revoke t dev now s)) = hs_messageIds s"
proof -
  obtain c mb where c: "closeStream t dev Device_revoked now (hs_mailbox s) = (c, mb)"
    by (cases "closeStream t dev Device_revoked now (hs_mailbox s)")
  have "mail_calls t (hs_mailbox s) mb"
    using mail_close [of t "hs_mailbox s" dev Device_revoked now] by (simp add: c)
  then show "mail_calls t (hs_mailbox s) (hs_mailbox (snd (device_revoke t dev now s)))"
    by (auto simp: device_revoke_def Let_def c split: option.splits sum.splits)
  show "task_calls t (hs_tasks s) (hs_tasks (snd (device_revoke t dev now s)))"
    by (auto simp: device_revoke_def Let_def c task_settle split: option.splits sum.splits)
  show "hs_messageIds (snd (device_revoke t dev now s)) = hs_messageIds s"
    by (auto simp: device_revoke_def Let_def c split: option.splits sum.splits)
qed

lemma recordCapabilities_dir:
  assumes "dir_inv d"
  shows "dir_inv (snd (recordCapabilities t dev hs caps d))"
  using assms
  by (fastforce simp: dir_inv_def dir_rows_def dir_index_def one_machine_def recordCapabilities_def Let_def split: option.splits)

section \<open>Retirement\<close>

lemma closeStream_ok:
  "dev \<noteq> [] \<Longrightarrow> \<exists>n. fst (closeStream t dev cause now mb) = Inr n"
  "fst (closeStream t dev cause now mb) = Inr n \<Longrightarrow> dev \<noteq> []"
  by (auto simp: closeStream_def mailbox_device_def Let_def split_beta split: option.splits if_splits)

lemma closeStream_other:
  "k \<noteq> tenantKey t [dev] \<Longrightarrow> jget (snd (closeStream t dev cause now mb)) k = jget mb k"
  by (auto simp: closeStream_def mailbox_device_def Let_def split_beta split: option.splits)

lemma closeStream_expires:
  assumes "dev \<noteq> []" and "m \<in> set (messagesOf t dev (snd (closeStream t dev cause now mb)))"
  shows "mm_state m \<noteq> Pending"
  using assms
  by (auto simp: closeStream_def mailbox_device_def messagesOf_def close_device_def expirePendingMessages_def rewrite_device_eq
      Let_def split_beta split: option.splits if_splits)

lemma reopenStream_other: "k \<noteq> tenantKey t [dev] \<Longrightarrow> jget (reopenStream t dev mb) k = jget mb k"
  by (simp add: reopenStream_def split: option.splits)

lemma settle_no_unfinished:
  assumes "attempts_inv a" and "attempt_get t task (settleDeviceAttempts t dev cause now a) = Some b"
    and "ta_deviceId b = dev \<or> ta_ownerDeviceId b = Some dev" and "isTenantId t"
  shows "terminal_status (ta_status b)"
proof -
  have ok: "jmap_ok (as_attempts a)" using assms(1) by (simp add: attempts_inv_def)
  obtain c where c: "jget (as_attempts a) (tenantKey t [task]) = Some c"
    "b = (if retired_by t dev c then abandoned c cause (toISOString now) else c)"
    using assms(2) by (auto simp: attempt_get_def settle_get [OF ok] split: option.splits)
  have "ta_tenantId c = t" using attempts_inv_own(1) [OF assms(1,4) c(1)] by simp
  then show ?thesis
    using c(2) assms(3) by (auto simp: retired_by_def unfinished_iff abandoned_def terminal_status_def split: if_splits)
qed

text \<open>A stream that is closed with nothing left to deliver, and a device with no unfinished attempt.\<close>

definition drained :: "tenant \<Rightarrow> string \<Rightarrow> mailbox_state \<Rightarrow> bool" where
  "drained t dev mb = (stream_closed t dev mb \<and> (\<forall>m \<in> set (messagesOf t dev mb). mm_state m \<noteq> Pending))"

definition settled :: "tenant \<Rightarrow> string \<Rightarrow> attempt_state \<Rightarrow> bool" where
  "settled t dev a = (\<forall>task b. attempt_get t task a = Some b \<longrightarrow> ta_deviceId b = dev \<or> ta_ownerDeviceId b = Some dev \<longrightarrow>
     terminal_status (ta_status b))"

lemma drained_close: "dev \<noteq> [] \<Longrightarrow> drained t dev (snd (closeStream t dev cause now mb))"
  using closeStream_closed closeStream_expires unfolding drained_def by blast

lemma settled_settle:
  assumes "attempts_inv a" and "isTenantId t"
  shows "settled t dev (settleDeviceAttempts t dev cause now a)"
  unfolding settled_def using settle_no_unfinished [OF assms(1) _ _ assms(2)] by blast

text \<open>A device as a retirement leaves it: no row, no index entry of its own, its stream closed and drained.\<close>

definition retired :: "tenant \<Rightarrow> string \<Rightarrow> hosted_state \<Rightarrow> bool" where
  "retired t dev s =
     (device_get t dev (hs_devices s) = None \<and>
      (\<forall>r. resolveByDeviceId dev (hs_devices s) = Some r \<longrightarrow> dv_tenantId r \<noteq> t) \<and>
      drained t dev (hs_mailbox s) \<and> settled t dev (hs_tasks s))"

lemma resolve_own:
  assumes "dir_inv d" and "resolveByDeviceId dev d = Some r"
  shows "dv_deviceId r = dev \<and> device_get (dv_tenantId r) dev d = Some r"
proof -
  obtain k where k: "jget (dd_byDeviceId d) dev = Some k" "jget (dd_byTenant d) k = Some r"
    using assms(2) by (auto simp: resolveByDeviceId_def split: option.splits)
  moreover have "dir_index d" using assms(1) by (simp add: dir_inv_def)
  ultimately have "dv_deviceId r = dev" unfolding dir_index_def by fastforce
  moreover have "k = tenantKey (dv_tenantId r) [dv_deviceId r]"
    using assms(1) dir_rows_get [OF _ k(2)] by (simp add: dir_inv_def)
  ultimately show ?thesis using k(2) by (simp add: device_get_def)
qed

text \<open>
  Revocation retires the device: its registration is gone from the tenant's directory and from
  the pre-tenant lookup, its stream is closed with no row left to deliver, and no attempt it was
  offered or owns is unfinished; every other registration and every other stream, of this tenant
  or another, is exactly what it was.
\<close>

theorem device_revoke_retires:
  assumes "dir_inv (hs_devices s)" and "attempts_inv (hs_tasks s)" and "isTenantId t" and "dev \<noteq> []"
    and "device_get t dev (hs_devices s) \<noteq> None"
  shows "\<exists>s'. device_revoke t dev now s = (Inr (), s') \<and> retired t dev s' \<and> dir_inv (hs_devices s') \<and>
    (\<forall>k. k \<noteq> tenantKey t [dev] \<longrightarrow>
       jget (dd_byTenant (hs_devices s')) k = jget (dd_byTenant (hs_devices s)) k \<and> jget (hs_mailbox s') k = jget (hs_mailbox s) k)"
proof -
  let ?k = "tenantKey t [dev]" and ?d = "forget (tenantKey t [dev]) dev (hs_devices s)"
  obtain r where r: "jget (dd_byTenant (hs_devices s)) ?k = Some r" using assms(5) by (auto simp: device_get_def)
  obtain n mb where n: "closeStream t dev Device_revoked now (hs_mailbox s) = (Inr n, mb)"
    using closeStream_ok(1) [OF assms(4), of t Device_revoked now "hs_mailbox s"]
    by (cases "closeStream t dev Device_revoked now (hs_mailbox s)") auto
  let ?s' = "s\<lparr>hs_mailbox := mb, hs_devices := ?d, hs_tasks := settleDeviceAttempts t dev Abandon_device_revoked now (hs_tasks s)\<rparr>"
  have mb: "mb = snd (closeStream t dev Device_revoked now (hs_mailbox s))" by (simp add: n)
  have rev: "device_revoke t dev now s = (Inr (), ?s')" using r by (simp add: device_revoke_def n Let_def)
  have inv: "dir_inv ?d" using device_revoke_dir [OF assms(3,1), of dev now] by (simp add: rev)
  have none: "device_get t dev ?d = None" by (simp add: device_get_def)
  have "dv_tenantId r' \<noteq> t" if "resolveByDeviceId dev ?d = Some r'" for r'
    using resolve_own [OF inv that] none by auto
  then have "retired t dev ?s'"
    using none drained_close [OF assms(4)] settled_settle [OF assms(2,3)] by (simp add: retired_def mb)
  moreover have "jget (dd_byTenant ?d) k = jget (dd_byTenant (hs_devices s)) k" "jget mb k = jget (hs_mailbox s) k"
    if "k \<noteq> ?k" for k
    using that by (simp_all add: mb closeStream_other)
  ultimately show ?thesis using rev inv by (intro exI [of _ ?s']) simp
qed

definition sample_registration :: "string \<Rightarrow> device_registration" where
  "sample_registration dev =
     \<lparr>dg_productId = ''p'', dg_deviceId = dev, dg_deviceName = ''Mac'', dg_devicePublicKey = ''k'', dg_proofKeyId = ''q'',
      dg_proofKeyEpoch = 1, dg_machineId = Some ''m''\<rparr>"

lemma sample_registration_device [simp]: "dg_deviceId (sample_registration dev) = dev"
  by (simp add: sample_registration_def)

definition sample_hosted :: hosted_state where
  "sample_hosted = snd (device_register ''acme'' (sample_registration ''d'') 0 empty_hosted)"

lemma dir_inv_empty [simp]: "dir_inv \<lparr>dd_byTenant = [], dd_byDeviceId = []\<rparr>"
  by (simp add: dir_inv_def dir_rows_def dir_index_def one_machine_def)

lemma sample_hosted_ok:
  "dir_inv (hs_devices sample_hosted)" "hs_tasks sample_hosted = empty_attempts" "hs_mailbox sample_hosted = []"
  "device_get ''acme'' ''d'' (hs_devices sample_hosted) = Some (registered_row ''acme'' (sample_registration ''d''))"
proof -
  show "dir_inv (hs_devices sample_hosted)"
    unfolding sample_hosted_def by (rule device_register_dir) (simp_all add: empty_hosted_def)
  show "hs_tasks sample_hosted = empty_attempts" "hs_mailbox sample_hosted = []"
    "device_get ''acme'' ''d'' (hs_devices sample_hosted) = Some (registered_row ''acme'' (sample_registration ''d''))"
    by (simp_all add: sample_hosted_def device_register_def superseded_rows_def empty_hosted_def reopenStream_def
        device_get_def remember_def sample_registration_def Let_def)
qed

theorem device_revoke_retires_witness:
  "\<exists>s'. device_revoke ''acme'' ''d'' 5 sample_hosted = (Inr (), s') \<and> retired ''acme'' ''d'' s'"
  using device_revoke_retires [of sample_hosted "''acme''" "''d''" 5] sample_hosted_ok by auto

text \<open>What a closed stream and a settled device keep while other devices are retired.\<close>

lemma drained_cong: "jget mb' (tenantKey t [dev]) = jget mb (tenantKey t [dev]) \<Longrightarrow> drained t dev mb' = drained t dev mb"
  by (simp add: drained_def stream_closed_def messagesOf_def)

lemma drained_close_any:
  assumes "drained t dev mb"
  shows "drained t dev (snd (closeStream t dev' cause now mb))"
proof (cases "dev' = dev")
  case True
  show ?thesis
  proof (cases "dev = []")
    case True
    then have "snd (closeStream t dev' cause now mb) = mb" using \<open>dev' = dev\<close> by (simp add: closeStream_def mailbox_device_def)
    then show ?thesis using assms by simp
  next
    case False
    then show ?thesis using \<open>dev' = dev\<close> by (simp add: drained_close)
  qed
next
  case False
  then have "tenantKey t [dev] \<noteq> tenantKey t [dev']" by simp
  from drained_cong [OF closeStream_other [OF this]] show ?thesis using assms by blast
qed

lemma close_streams_any: "drained t dev mb \<Longrightarrow> drained t dev (snd (close_streams t rows now mb))"
proof (induction t rows now mb rule: close_streams.induct)
  case (2 t key existing rows now mb)
  obtain r mb' where c: "closeStream t (dv_deviceId existing) Device_superseded now mb = (r, mb')"
    by (cases "closeStream t (dv_deviceId existing) Device_superseded now mb")
  have d: "drained t dev mb'" using drained_close_any [OF 2(2), of "dv_deviceId existing" Device_superseded now] by (simp add: c)
  show ?case
  proof (cases r)
    case (Inl e)
    then show ?thesis using d by (simp add: c)
  next
    case (Inr n)
    then show ?thesis using 2(1) [OF c [symmetric, unfolded Inr] refl d] by (simp add: c)
  qed
qed simp

lemma close_streams_drained:
  "close_streams t rows now mb = (None, mb') \<Longrightarrow> (k, e) \<in> set rows \<Longrightarrow> drained t (dv_deviceId e) mb'"
proof (induction t rows now mb rule: close_streams.induct)
  case (2 t key existing rows now mb)
  obtain r mb1 where c: "closeStream t (dv_deviceId existing) Device_superseded now mb = (r, mb1)"
    by (cases "closeStream t (dv_deviceId existing) Device_superseded now mb")
  with 2(2) obtain n where r: "r = Inr n" by (cases r) simp_all
  have rest: "close_streams t rows now mb1 = (None, mb')" using 2(2) by (simp add: c r)
  show ?case
  proof (cases "(k, e) \<in> set rows")
    case True
    then show ?thesis using 2(1) [OF c [symmetric, unfolded r] refl rest] by simp
  next
    case False
    then have e: "e = existing" using 2(3) by simp
    have "dv_deviceId e \<noteq> []"
      using closeStream_ok(2) [of t "dv_deviceId existing" Device_superseded now mb n] by (simp add: c r e)
    from drained_close [OF this, of t Device_superseded now mb] have "drained t (dv_deviceId e) mb1" by (simp add: c e)
    from close_streams_any [OF this, of rows now] show ?thesis by (simp add: rest)
  qed
qed simp

lemma settled_settle_any:
  assumes "attempts_inv a" and "settled t dev a"
  shows "settled t dev (settleDeviceAttempts t dev' cause now a)"
proof -
  have ok: "jmap_ok (as_attempts a)" using assms(1) by (simp add: attempts_inv_def)
  show ?thesis
    using assms(2)
    by (auto simp: settled_def attempt_get_def settle_get [OF ok] abandoned_def terminal_status_def simp del: tenantKey_one
        split: option.splits if_splits)
qed

lemma settle_devices_settled:
  "attempts_inv a \<Longrightarrow> isTenantId t \<Longrightarrow> (settled t dev a \<or> (\<exists>k e. (k, e) \<in> set rows \<and> dv_deviceId e = dev)) \<Longrightarrow>
     settled t dev (settle_devices t rows now a)"
proof (induction t rows now a rule: settle_devices.induct)
  case (2 t key existing rows now a)
  let ?a = "settleDeviceAttempts t (dv_deviceId existing) Abandon_device_superseded now a"
  have inv: "attempts_inv ?a" using attempt_history.exec_inv [of t "ASettle (dv_deviceId existing) Abandon_device_superseded now" a] 2 by simp
  have "settled t dev ?a \<or> (\<exists>k e. (k, e) \<in> set rows \<and> dv_deviceId e = dev)"
  proof (cases "settled t dev a \<or> dv_deviceId existing = dev")
    case True
    then have "settled t dev ?a"
      using settled_settle_any [OF 2(2)] settled_settle [OF 2(2,3)] by auto
    then show ?thesis ..
  next
    case False
    then show ?thesis using 2(4) by auto
  qed
  then show ?case using 2(1) [OF inv 2(3)] by simp
qed simp

text \<open>
  Registration is all or nothing: when it succeeds the new row is what the tenant and the
  pre-tenant lookup read, its stream is not closed, every other device of the same machine in the
  tenant and product is retired, and all other rows are as they were; when closing one of those
  streams fails, the rows and the attempts are those from before. It can only fail on a superseded
  device.
\<close>

theorem device_register_atomic:
  assumes "dir_inv (hs_devices s)" and "attempts_inv (hs_tasks s)" and "isTenantId t"
    and "device_register t input now s = (res, s')"
  shows "case res of
      Inl e \<Rightarrow> (\<forall>k. jget (dd_byTenant (hs_devices s')) k = jget (dd_byTenant (hs_devices s)) k) \<and> hs_tasks s' = hs_tasks s \<and>
        superseded_rows t input (hs_devices s) \<noteq> []
    | Inr r \<Rightarrow> r = registered_row t input \<and> device_get t (dg_deviceId input) (hs_devices s') = Some r \<and>
        resolveByDeviceId (dg_deviceId input) (hs_devices s') = Some r \<and> \<not> stream_closed t (dg_deviceId input) (hs_mailbox s') \<and>
        (\<forall>(k, e) \<in> set (superseded_rows t input (hs_devices s)). retired t (dv_deviceId e) s') \<and>
        (\<forall>k. k \<noteq> tenantKey t [dg_deviceId input] \<longrightarrow> k \<notin> fst ` set (superseded_rows t input (hs_devices s)) \<longrightarrow>
           jget (dd_byTenant (hs_devices s')) k = jget (dd_byTenant (hs_devices s)) k)"
proof -
  let ?rows = "superseded_rows t input (hs_devices s)" and ?dev = "dg_deviceId input"
  let ?D = "replaced_directory t input (hs_devices s)"
  have rows: "dir_rows (hs_devices s)" using assms(1) by (simp add: dir_inv_def)
  obtain e mb where c: "close_streams t ?rows now (hs_mailbox s) = (e, mb)" by (cases "close_streams t ?rows now (hs_mailbox s)")
  have D: "hs_devices s' = (case res of Inl _ \<Rightarrow> rolled_back t input (hs_devices s) | Inr _ \<Rightarrow> ?D)"
    using device_register_devices [of t input now s] assms(4) by simp
  show ?thesis
  proof (cases res)
    case (Inl x)
    have "?rows \<noteq> []" "hs_tasks s' = hs_tasks s"
      using assms(4) Inl by (auto simp: device_register_def Let_def c split: if_splits option.splits)
    then show ?thesis using D by (simp add: Inl rolled_back_get [OF rows])
  next
    case (Inr r)
    have s': "r = registered_row t input" "hs_mailbox s' = reopenStream t ?dev mb" "hs_tasks s' = settle_devices t ?rows now (hs_tasks s)"
      "e = None"
      using assms(4) c by (auto simp: Inr device_register_def Let_def split: if_splits option.splits)
    have get: "device_get t ?dev ?D = Some r" "resolveByDeviceId ?dev ?D = Some r"
      by (simp_all add: device_get_def resolveByDeviceId_def replaced_directory_def remember_def s'(1))
    have closed: "\<not> stream_closed t ?dev (reopenStream t ?dev mb)" by (simp add: stream_closed_def reopenStream_def split: option.splits)
    have "retired t (dv_deviceId x) s'" if x: "(k, x) \<in> set ?rows" for k x
    proof -
      have f: "jget (dd_byTenant (hs_devices s)) k = Some x" "dv_deviceId x \<noteq> ?dev" "dv_tenantId x = t"
        using x by (simp_all add: superseded_iff [OF rows])
      then have k: "tenantKey t [dv_deviceId x] = k" using dir_rows_get [OF rows f(1)] by simp
      have none: "device_get t (dv_deviceId x) ?D = None"
        unfolding device_get_def k using f x by (simp add: replaced_get [OF rows] k [symmetric])
      have inv: "dir_inv ?D" using replaced_inv [OF assms(3,1)] .
      have "dv_tenantId y \<noteq> t" if "resolveByDeviceId (dv_deviceId x) ?D = Some y" for y
        using resolve_own [OF inv that] none by auto
      moreover have "drained t (dv_deviceId x) (reopenStream t ?dev mb)"
        using close_streams_drained [OF c [unfolded s'(4)] x] drained_cong [OF reopenStream_other, of t "dv_deviceId x" t ?dev mb] f(2) by simp
      moreover have "settled t (dv_deviceId x) (settle_devices t ?rows now (hs_tasks s))"
        using settle_devices_settled [OF assms(2,3)] x by blast
      ultimately show ?thesis using D none by (simp add: retired_def Inr s')
    qed
    then show ?thesis using D get closed
      by (auto simp: Inr s'(1,2) replaced_directory_def forget_rows_get)
  qed
qed

lemma sample_supersedes:
  "superseded_rows ''acme'' (sample_registration ''e'') (hs_devices sample_hosted) =
     [(tenantKey ''acme'' [''d''], registered_row ''acme'' (sample_registration ''d''))]"
  by (simp add: sample_hosted_def device_register_def superseded_rows_def empty_hosted_def remember_def registered_row_def
      sample_registration_def jset_new Let_def)

theorem device_register_atomic_witness:
  "\<exists>r s'. device_register ''acme'' (sample_registration ''e'') 5 sample_hosted = (Inr r, s') \<and> retired ''acme'' ''d'' s' \<and>
     resolveByDeviceId ''e'' (hs_devices s') = Some r"
proof -
  obtain res s' where r: "device_register ''acme'' (sample_registration ''e'') 5 sample_hosted = (res, s')" by fastforce
  obtain n mb where c: "closeStream ''acme'' ''d'' Device_superseded 5 [] = (Inr n, mb)"
    using closeStream_ok(1) [of "''d''" "''acme''" Device_superseded 5 "[]"] by (cases "closeStream ''acme'' ''d'' Device_superseded 5 []") auto
  have "\<exists>x. res = Inr x"
    using r by (auto simp: device_register_def sample_supersedes Let_def sample_hosted_ok(3) c)
  then obtain x where x: "res = Inr x" ..
  from device_register_atomic [OF sample_hosted_ok(1) _ _ r] show ?thesis
    by (simp add: x r sample_supersedes sample_hosted_ok(2) del: tenantKey_one)
qed

end
