(* ===== verification/Json.thy ===== *)
theory Json
  imports Replay
begin

text \<open>
  JSON values and their text: \<open>JSON.stringify\<close> without indentation, the order in which an object
  built by \<open>Object.fromEntries\<close> lists its keys, and \<open>canonicalActivityJson\<close> of
  \<open>packages/cloud/src/activity.ts\<close>, which sorts the keys of every object first, and the comparison
  projection of sealed payloads. An object is the
  list of its own entries in enumeration order. \<open>ntext\<close> is the text of a number that is not an
  integer below \<open>10 ^ 21\<close>.
\<close>

datatype json = JNull | JBool bool | JNumber jsnum | JString string | JArray "json list" | JObject "(string \<times> json) list"

section \<open>JSON.stringify\<close>

fun nat_text :: "nat \<Rightarrow> string" where
  "nat_text n = (if n < 10 then [digit n] else nat_text (n div 10) @ [digit (n mod 10)])"

declare nat_text.simps [simp del]

definition int_text :: "int \<Rightarrow> string" where
  "int_text z = (if z < 0 then CHR ''-'' # nat_text (nat (- z)) else nat_text (nat z))"

fun number_text :: "(rat \<Rightarrow> string) \<Rightarrow> jsnum \<Rightarrow> string" where
  "number_text ntext (Fin q) = (if of_int \<lfloor>q\<rfloor> = q \<and> \<bar>\<lfloor>q\<rfloor>\<bar> < 10 ^ 21 then int_text \<lfloor>q\<rfloor> else ntext q)"
| "number_text ntext _ = ''null''"

lemma json_entry_size [termination_simp]: "e \<in> set fs \<Longrightarrow> size (snd e) < Suc (size_list (size_prod (\<lambda>_. 0) size) fs)"
  using size_list_estimation' [of e fs "size (snd e)" "size_prod (\<lambda>_. 0) size"] by (cases e) simp

fun stringify :: "(rat \<Rightarrow> string) \<Rightarrow> json \<Rightarrow> string" where
  "stringify ntext JNull = ''null''"
| "stringify ntext (JBool b) = (if b then ''true'' else ''false'')"
| "stringify ntext (JNumber n) = number_text ntext n"
| "stringify ntext (JString s) = json_string s"
| "stringify ntext (JArray xs) = ''['' @ join (CHR '','') (map (stringify ntext) xs) @ '']''"
| "stringify ntext (JObject fs) =
     CHR 0x7B # join (CHR '','') (map (\<lambda>e. json_string (fst e) @ CHR '':'' # stringify ntext (snd e)) fs) @ [CHR 0x7D]"

lemma hex_digit_ascii: "n < 16 \<Longrightarrow> of_char (hex_digit n) < (128 :: nat)"
  by (simp add: hex_digit_def)

lemma utf8_json_escape: "utf8_length (json_escape c) \<le> 6"
proof (cases "of_char c < (32 :: nat)")
  case True
  have "of_char c div 16 < (16 :: nat)" "of_char c mod 16 < (16 :: nat)" using True by simp_all
  from hex_digit_ascii [OF this(1)] hex_digit_ascii [OF this(2)] show ?thesis
    by (simp add: json_escape_def utf8_length_Cons)
next
  case False
  then show ?thesis by (simp add: json_escape_def utf8_length_Cons)
qed

section \<open>Objects with sorted keys\<close>

text \<open>
  An object lists its array-index keys first, in numeric order, and its other keys in the order
  they were added.
\<close>

fun digits_value :: "nat \<Rightarrow> string \<Rightarrow> nat" where
  "digits_value a [] = a"
| "digits_value a (c # s) = digits_value (10 * a + (of_char c - 48)) s"

definition index_key :: "string \<Rightarrow> bool" where
  "index_key k = (k \<noteq> [] \<and> list_all isdigit k \<and> (hd k \<noteq> CHR ''0'' \<or> length k = 1) \<and> digits_value 0 k < 2 ^ 32 - 1)"

definition from_entries :: "(string \<times> 'a) list \<Rightarrow> (string \<times> 'a) list" where
  "from_entries es = sort_key (\<lambda>e. digits_value 0 (fst e)) (filter (\<lambda>e. index_key (fst e)) es) @ filter (\<lambda>e. \<not> index_key (fst e)) es"

text \<open>\<open>Object.entries(item).sort(([a], [b]) => a < b ? -1 : a > b ? 1 : 0)\<close>.\<close>

definition sorted_entries :: "(string \<times> 'a) list \<Rightarrow> (string \<times> 'a) list" where
  "sorted_entries es = sort_by (\<lambda>l r. str_cmp (fst l) (fst r)) es"

fun sort_keys :: "json \<Rightarrow> json" where
  "sort_keys (JArray xs) = JArray (map sort_keys xs)"
| "sort_keys (JObject fs) = JObject (from_entries (sorted_entries (map (\<lambda>e. (fst e, sort_keys (snd e))) fs)))"
| "sort_keys j = j"

definition canonicalActivityJson :: "(rat \<Rightarrow> string) \<Rightarrow> json \<Rightarrow> string" where
  "canonicalActivityJson ntext j = stringify ntext (sort_keys j)"

text \<open>Two values that differ at most in the order in which their objects list their keys.\<close>

inductive json_same :: "json \<Rightarrow> json \<Rightarrow> bool" where
  same_refl: "json_same j j"
| same_array: "list_all2 json_same xs ys \<Longrightarrow> json_same (JArray xs) (JArray ys)"
| same_object: "list_all2 (\<lambda>e f. fst e = fst f \<and> json_same (snd e) (snd f)) fs gs \<Longrightarrow>
    distinct (map fst gs) \<Longrightarrow> distinct (map fst gs') \<Longrightarrow> set gs' = set gs \<Longrightarrow> json_same (JObject fs) (JObject gs')"

lemma sorted_entries_key: "sorted_entries es = sort_key fst es"
  by (simp add: sorted_entries_def sort_by_str_cmp)

lemma sorted_entries_unique:
  assumes "distinct (map fst xs)" and "distinct (map fst ys)" and "set xs = set ys"
  shows "sorted_entries xs = sorted_entries ys"
proof -
  have inj: "inj_on fst (set xs)" using assms(1) by (simp add: distinct_map)
  have "distinct (map fst (sort_key fst zs))" if "distinct (map fst zs)" for zs :: "(string \<times> 'a) list"
    using that by (simp add: distinct_map)
  then show ?thesis
    unfolding sorted_entries_key
    by (intro map_sorted_distinct_set_unique [of fst]) (use assms inj in auto)
qed

lemma sort_keys_same: "json_same a b \<Longrightarrow> sort_keys a = sort_keys b"
proof (induction rule: json_same.induct)
  case (same_array xs ys)
  then have "map sort_keys xs = map sort_keys ys" by (induction xs ys rule: list_all2_induct) auto
  then show ?case by simp
next
  case (same_object fs gs gs')
  let ?f = "\<lambda>e. (fst e, sort_keys (snd e))"
  have "map ?f fs = map ?f gs" using same_object(1) by (induction fs gs rule: list_all2_induct) auto
  moreover have "sorted_entries (map ?f gs) = sorted_entries (map ?f gs')"
    using same_object(2-4) by (intro sorted_entries_unique) (simp_all add: comp_def)
  ultimately show ?case by simp
qed simp

section \<open>The comparison projection of a sealed payload\<close>

text \<open>
  \<open>packages/cloud/src/sealed-comparison.ts\<close>: two sealed submissions are compared by their plain
  fields and the stable outer fields of \<open>sealed\<close>.
\<close>

definition STABLE_SEALED_FIELDS :: "string list" where
  "STABLE_SEALED_FIELDS = [''v'', ''suite'', ''category'', ''scope'', ''paddedLength'', ''contentMac'']"

text \<open>
  A missing stable field becomes \<open>undefined\<close>, which the JSON text leaves out, so the projection
  keeps the fields that are there.
\<close>

definition sealedComparisonProjection :: "(string \<times> json) list \<Rightarrow> (string \<times> json) list" where
  "sealedComparisonProjection payload =
     (case jget payload ''sealed'' of
        Some (JObject sealed) \<Rightarrow>
          jset ''sealed'' (JObject (List.map_filter (\<lambda>f. map_option (Pair f) (jget sealed f)) STABLE_SEALED_FIELDS)) (jdel ''sealed'' payload)
      | _ \<Rightarrow> payload)"

end
