(* ===== verification/Task_Cancellation.thy ===== *)
theory Task_Cancellation
  imports Device_Directory Json
begin

text \<open>
  Host-side termination of a task (\<open>packages/cloud/src/stores/in-memory/task-cancellations.ts\<close> and
  \<open>abandonTask\<close> of \<open>task-retirement.ts\<close>): the cancellation tombstone with its durable delivery to
  the device, and the abandonment that settles an attempt no device will finish. Both run on the
  task's mutation chain, mailbox half first and attempt write last, and the exclusive section of a
  retirement waits for them, so nothing else writes the attempt in between and each is one step.
  Requests that overlap share one answer (\<open>#inFlight\<close>); here they run one after the other, and
  no row is appended to a stream while an abandonment pages through it.
\<close>

section \<open>Cancellation\<close>

text \<open>\<open>materialize\<close> is caller code: it may throw, here with a tag that names the error.\<close>

record cancellation_request =
  cr_taskId :: string
  cr_proposedMessageId :: string
  cr_reason :: "string option"
  cr_materialize :: "int \<Rightarrow> string \<Rightarrow> string + mailbox_body"

record cancellation_mutation =
  cm_attempt :: task_attempt
  cm_message :: "mailbox_message option"

definition COLLECTED :: string where
  "COLLECTED = ''Cancellation delivery was collected.''"

text \<open>The append that looks the delivery up again: its materializer is only called for a new row.\<close>

definition redelivery :: "string \<Rightarrow> string \<Rightarrow> mailbox_append_input" where
  "redelivery dev messageId =
     \<lparr>ma_deviceId = dev, ma_messageId = messageId, ma_materialize = (\<lambda>_. Inl COLLECTED), ma_admission = Cancellation\<rparr>"

definition cancellation_delivery :: "string \<Rightarrow> cancellation_request \<Rightarrow> mailbox_append_input" where
  "cancellation_delivery dev input =
     \<lparr>ma_deviceId = dev, ma_messageId = cr_proposedMessageId input,
      ma_materialize = (\<lambda>seq. cr_materialize input seq (cr_proposedMessageId input)), ma_admission = Cancellation\<rparr>"

definition cancel_request ::
  "tenant \<Rightarrow> cancellation_request \<Rightarrow> int \<Rightarrow> hosted_state \<Rightarrow> (mailbox_error + cancellation_mutation option) \<times> hosted_state" where
  "cancel_request t input now s =
     (let key = tenantKey t [cr_taskId input] in
      case jget (as_attempts (hs_tasks s)) key of
        None \<Rightarrow> (Inr None, s)
      | Some existing \<Rightarrow>
          if ta_cancellation existing \<noteq> None then
            (case jget (hs_messageIds s) key of
               None \<Rightarrow> (Inl (Foreign ''cancellation tombstone without its delivery id''), s)
             | Some messageId \<Rightarrow>
                 (case mailbox_append t (redelivery (ta_deviceId existing) messageId) None now (hs_mailbox s) of
                    (Inr m, mb) \<Rightarrow> (Inr (Some \<lparr>cm_attempt = existing, cm_message = Some m\<rparr>), s\<lparr>hs_mailbox := mb\<rparr>)
                  | (Inl e, mb) \<Rightarrow>
                      if e = Foreign COLLECTED
                      then (Inr (Some \<lparr>cm_attempt = existing, cm_message = None\<rparr>), s\<lparr>hs_mailbox := mb\<rparr>)
                      else (Inl e, s\<lparr>hs_mailbox := mb\<rparr>)))
          else if terminal_status (ta_status existing)
          then (Inr (Some \<lparr>cm_attempt = existing, cm_message = None\<rparr>), s)
          else
            (case mailbox_append t (cancellation_delivery (ta_deviceId existing) input) None now (hs_mailbox s) of
               (Inl e, mb) \<Rightarrow> (Inl e, s\<lparr>hs_mailbox := mb\<rparr>)
             | (Inr m, mb) \<Rightarrow>
                 let a = cancellation_written existing (cr_reason input) (toISOString now)
                 in (Inr (Some \<lparr>cm_attempt = a, cm_message = Some m\<rparr>),
                     s\<lparr>hs_mailbox := mb, hs_tasks := attempt_set key a (hs_tasks s),
                       hs_messageIds := jset key (cr_proposedMessageId input) (hs_messageIds s)\<rparr>)))"

section \<open>Abandonment\<close>

text \<open>The body's \<open>task_id\<close> as the code reads it from what \<open>JSON.parse\<close> returns.\<close>

definition envelopeTaskId :: "(string \<Rightarrow> json option) \<Rightarrow> string \<Rightarrow> json option" where
  "envelopeTaskId json_parse body =
     (case json_parse body of Some (JObject fs) \<Rightarrow> jget fs ''task_id'' | _ \<Rightarrow> None)"

definition default_query :: "string \<Rightarrow> int \<Rightarrow> mailbox_read_query" where
  "default_query dev afterSeq = \<lparr>mq_deviceId = dev, mq_afterSeq = afterSeq, mq_limit = None\<rparr>"

text \<open>
  The inner loop of \<open>abandonTask\<close>: page through the device's pending rows and collect the sequence
  numbers of those that name the task. \<open>fuel\<close> bounds the number of pages.
\<close>

fun task_seqs ::
  "(string \<Rightarrow> json option) \<Rightarrow> tenant \<Rightarrow> string \<Rightarrow> string \<Rightarrow> mailbox_state \<Rightarrow> nat \<Rightarrow> int \<Rightarrow> int list \<Rightarrow> int list option" where
  "task_seqs json_parse t dev task mb 0 afterSeq seqs = None"
| "task_seqs json_parse t dev task mb (Suc fuel) afterSeq seqs =
     (let page = readAfter t (default_query dev afterSeq) mb;
          seqs' = seqs @ map mm_seq (filter (\<lambda>m. envelopeTaskId json_parse (mm_body m) = Some (JString task)) (mp_messages page))
      in if mp_hasMore page then task_seqs json_parse t dev task mb fuel (mp_nextSeq page) seqs' else Some seqs')"

text \<open>
  The loop over the target and the owner device. A registered device keeps its rows. The loop's
  fuel is one more than the number of rows of the stream, which is enough for it to end.
\<close>

fun expire_task_rows ::
  "(string \<Rightarrow> json option) \<Rightarrow> (string \<Rightarrow> bool) \<Rightarrow> tenant \<Rightarrow> string \<Rightarrow> string list \<Rightarrow> mailbox_state \<Rightarrow> mailbox_state option" where
  "expire_task_rows json_parse isRegistered t task [] mb = Some mb"
| "expire_task_rows json_parse isRegistered t task (dev # devs) mb =
     (if isRegistered dev then expire_task_rows json_parse isRegistered t task devs mb
      else case task_seqs json_parse t dev task mb (length (messagesOf t dev mb) + 1) 0 [] of
             None \<Rightarrow> None
           | Some seqs \<Rightarrow> expire_task_rows json_parse isRegistered t task devs (snd (expirePending t dev seqs mb)))"

definition task_devices :: "task_attempt \<Rightarrow> string list" where
  "task_devices a =
     (case ta_ownerDeviceId a of
        None \<Rightarrow> [ta_deviceId a]
      | Some owner \<Rightarrow> if owner = ta_deviceId a then [ta_deviceId a] else [ta_deviceId a, owner])"

text \<open>\<open>None\<close> for the whole call would be a loop that never ends.\<close>

definition abandonTask ::
  "(string \<Rightarrow> json option) \<Rightarrow> tenant \<Rightarrow> string \<Rightarrow> task_abandon_cause \<Rightarrow> int \<Rightarrow> hosted_state \<Rightarrow>
     (task_attempt option \<times> hosted_state) option" where
  "abandonTask json_parse t task cause now s =
     (let key = tenantKey t [task] in
      case jget (as_attempts (hs_tasks s)) key of
        None \<Rightarrow> Some (None, s)
      | Some a \<Rightarrow>
          if \<not> unfinished a then Some (Some a, s)
          else case expire_task_rows json_parse (\<lambda>dev. device_get t dev (hs_devices s) \<noteq> None) t (ta_taskId a) (task_devices a) (hs_mailbox s) of
                 None \<Rightarrow> None
               | Some mb \<Rightarrow>
                   let settled = abandoned a cause (toISOString now)
                   in Some (Some settled, s\<lparr>hs_mailbox := mb, hs_tasks := attempt_set key settled (hs_tasks s)\<rparr>))"

section \<open>Abandonment expires exactly the task's rows\<close>

definition names_task :: "(string \<Rightarrow> json option) \<Rightarrow> string \<Rightarrow> mailbox_message \<Rightarrow> bool" where
  "names_task json_parse task m = (envelopeTaskId json_parse (mm_body m) = Some (JString task))"

lemma task_seqs_poll:
  "task_seqs json_parse t dev task mb fuel a seqs =
     map_option (\<lambda>rows. seqs @ map mm_seq (filter (names_task json_parse task) rows))
       (poll (\<lambda>c. mailbox_fetch (t, dev) DEFAULT_READ_LIMIT c mb) fuel a)"
proof (induction fuel arbitrary: a seqs)
  case (Suc fuel)
  have page: "readAfter t (default_query dev a) mb = readAfter t \<lparr>mq_deviceId = dev, mq_afterSeq = a, mq_limit = Some DEFAULT_READ_LIMIT\<rparr> mb"
    by (simp add: readAfter_def default_query_def Let_def cong: option.case_cong)
  show ?case
    by (simp add: Suc page mailbox_fetch_def Let_def names_task_def option.map_comp comp_def)
qed simp

lemma task_seqs_ends:
  assumes "mailbox_inv mb" and "isTenantId t"
  shows "task_seqs json_parse t dev task mb (length (messagesOf t dev mb) + 1) 0 [] =
    Some (map mm_seq (filter (names_task json_parse task) (device_pending (t, dev) 0 mb)))"
proof -
  have "length (device_pending (t, dev) 0 mb) < length (messagesOf t dev mb) + 1"
    by (simp add: device_pending_def less_Suc_eq_le) (metis length_filter_le length_sort)
  from mailbox_feed.poll_complete [OF _ _ this, of DEFAULT_READ_LIMIT] assms show ?thesis
    by (simp add: task_seqs_poll DEFAULT_READ_LIMIT_def)
qed

lemma expirePending_messages:
  "messagesOf t dev (snd (expirePending t dev seqs mb)) =
     map (\<lambda>m. if mm_state m = Pending \<and> mm_seq m \<in> set seqs then m\<lparr>mm_state := Expired\<rparr> else m) (messagesOf t dev mb)"
  by (simp add: expirePending_def messagesOf_def expirePendingMessages_def rewrite_device_eq split: option.splits)

lemma expirePending_other: "k \<noteq> tenantKey t [dev] \<Longrightarrow> jget (snd (expirePending t dev seqs mb)) k = jget mb k"
  by (simp add: expirePending_def split_beta split: option.splits)

text \<open>The effect of the loop on one stream.\<close>

definition expire_named :: "(string \<Rightarrow> json option) \<Rightarrow> string \<Rightarrow> mailbox_message \<Rightarrow> mailbox_message" where
  "expire_named json_parse task m =
     (if mm_state m = Pending \<and> names_task json_parse task m then m\<lparr>mm_state := Expired\<rparr> else m)"

lemma expire_named_idem [simp]: "expire_named json_parse task (expire_named json_parse task m) = expire_named json_parse task m"
  by (simp add: expire_named_def)

lemma expire_one_device:
  assumes "mailbox_inv mb" and "isTenantId t"
    and "seqs = map mm_seq (filter (names_task json_parse task) (device_pending (t, dev) 0 mb))"
  shows "messagesOf t dev (snd (expirePending t dev seqs mb)) = map (expire_named json_parse task) (messagesOf t dev mb)"
proof -
  have rows: "distinct (map mm_seq (messagesOf t dev mb)) \<and> (\<forall>m \<in> set (messagesOf t dev mb). 0 < mm_seq m)"
  proof (cases "jget mb (tenantKey t [dev])")
    case None
    then show ?thesis by (simp add: messagesOf_def)
  next
    case (Some d)
    have "rows_ok t dev (dm_nextSeq d) (dm_messages d) (dm_byMessageId d)"
      using mailbox_inv_device(1) [OF assms(1,2) Some] by (simp add: device_ok_def)
    then show ?thesis using Some by (auto simp: messagesOf_def rows_ok_def strict_sorted_iff)
  qed
  have "mm_state m = Pending \<and> mm_seq m \<in> set seqs \<longleftrightarrow> mm_state m = Pending \<and> names_task json_parse task m"
    if "m \<in> set (messagesOf t dev mb)" for m
    using that rows inj_on_eq_iff [of mm_seq "set (messagesOf t dev mb)" m]
    by (auto simp: assms(3) device_pending_def distinct_map)
  then show ?thesis by (simp add: expirePending_messages expire_named_def)
qed

lemma expire_task_rows_spec:
  assumes "mailbox_inv mb" and "isTenantId t"
  shows "\<exists>mb'. expire_task_rows json_parse isRegistered t task devs mb = Some mb' \<and> mail_calls t mb mb' \<and>
    (\<forall>dev. messagesOf t dev mb' =
       (if dev \<in> set devs \<and> \<not> isRegistered dev then map (expire_named json_parse task) (messagesOf t dev mb) else messagesOf t dev mb)) \<and>
    (\<forall>k. k \<notin> (\<lambda>dev. tenantKey t [dev]) ` set devs \<longrightarrow> jget mb' k = jget mb k)"
  using assms(1)
proof (induction devs arbitrary: mb)
  case Nil
  then show ?case by simp
next
  case (Cons dev devs)
  show ?case
  proof (cases "isRegistered dev")
    case True
    then show ?thesis using Cons.IH [OF Cons.prems] by (fastforce simp del: tenantKey_one)
  next
    case False
    let ?seqs = "map mm_seq (filter (names_task json_parse task) (device_pending (t, dev) 0 mb))"
    let ?mb = "snd (expirePending t dev ?seqs mb)"
    have call: "mail_calls t mb ?mb" using mail_call [of t mb "MExpirePending dev ?seqs"] by simp
    have "mailbox_inv ?mb" using mailbox_exec_inv [OF Cons.prems assms(2), of "MExpirePending dev ?seqs"] by simp
    from Cons.IH [OF this] obtain mb' where
      mb': "expire_task_rows json_parse isRegistered t task devs ?mb = Some mb'" "mail_calls t ?mb mb'"
      "\<And>d. messagesOf t d mb' =
         (if d \<in> set devs \<and> \<not> isRegistered d then map (expire_named json_parse task) (messagesOf t d ?mb) else messagesOf t d ?mb)"
      "\<And>k. k \<notin> (\<lambda>dev. tenantKey t [dev]) ` set devs \<Longrightarrow> jget mb' k = jget ?mb k"
      by blast
    have this_dev: "messagesOf t dev ?mb = map (expire_named json_parse task) (messagesOf t dev mb)"
      by (rule expire_one_device [OF Cons.prems assms(2) refl])
    have other: "messagesOf t d ?mb = messagesOf t d mb" if "d \<noteq> dev" for d
      using expirePending_other [of "tenantKey t [d]" t dev ?seqs mb] that by (simp add: messagesOf_def)
    have "messagesOf t d mb' =
       (if d \<in> set (dev # devs) \<and> \<not> isRegistered d then map (expire_named json_parse task) (messagesOf t d mb) else messagesOf t d mb)" for d
      using mb'(3) [of d] this_dev other [of d] False by (cases "d = dev") (auto simp: comp_def)
    moreover have "jget mb' k = jget mb k" if "k \<notin> (\<lambda>dev. tenantKey t [dev]) ` set (dev # devs)" for k
      using that mb'(4) [of k] expirePending_other [of k t dev ?seqs mb] by simp
    moreover have "expire_task_rows json_parse isRegistered t task (dev # devs) mb = Some mb'"
      using False mb'(1) task_seqs_ends [OF Cons.prems assms(2), of json_parse dev task] by simp
    ultimately show ?thesis using store_calls_trans [OF call mb'(2)] by blast
  qed
qed

lemma abandonTask_eq:
  assumes "mailbox_inv (hs_mailbox s)" and "isTenantId t" and "jget (as_attempts (hs_tasks s)) (tenantKey t [task]) = Some a" and "unfinished a"
  obtains mb where "abandonTask json_parse t task cause now s =
      Some (Some (abandoned a cause (toISOString now)),
        s\<lparr>hs_mailbox := mb, hs_tasks := attempt_set (tenantKey t [task]) (abandoned a cause (toISOString now)) (hs_tasks s)\<rparr>)"
    and "mail_calls t (hs_mailbox s) mb"
    and "\<And>dev. messagesOf t dev mb =
       (if dev \<in> set (task_devices a) \<and> device_get t dev (hs_devices s) = None
        then map (expire_named json_parse (ta_taskId a)) (messagesOf t dev (hs_mailbox s)) else messagesOf t dev (hs_mailbox s))"
    and "\<And>k. k \<notin> (\<lambda>dev. tenantKey t [dev]) ` set (task_devices a) \<Longrightarrow> jget mb k = jget (hs_mailbox s) k"
proof -
  from expire_task_rows_spec [OF assms(1,2), of json_parse "\<lambda>dev. device_get t dev (hs_devices s) \<noteq> None" "ta_taskId a" "task_devices a"]
  obtain mb where mb: "expire_task_rows json_parse (\<lambda>dev. device_get t dev (hs_devices s) \<noteq> None) t (ta_taskId a) (task_devices a) (hs_mailbox s) = Some mb"
    "mail_calls t (hs_mailbox s) mb"
    "\<And>dev. messagesOf t dev mb =
       (if dev \<in> set (task_devices a) \<and> device_get t dev (hs_devices s) = None
        then map (expire_named json_parse (ta_taskId a)) (messagesOf t dev (hs_mailbox s)) else messagesOf t dev (hs_mailbox s))"
    "\<And>k. k \<notin> (\<lambda>dev. tenantKey t [dev]) ` set (task_devices a) \<Longrightarrow> jget mb k = jget (hs_mailbox s) k"
    by (auto simp del: tenantKey_one)
  have "abandonTask json_parse t task cause now s =
      Some (Some (abandoned a cause (toISOString now)),
        s\<lparr>hs_mailbox := mb, hs_tasks := attempt_set (tenantKey t [task]) (abandoned a cause (toISOString now)) (hs_tasks s)\<rparr>)"
    using assms(3,4) mb(1) by (simp add: abandonTask_def Let_def del: tenantKey_one)
  from that [OF this mb(2-4)] show ?thesis .
qed

text \<open>
  Abandonment returns and settles the task: an unfinished attempt becomes \<open>cancelled\<close> with the
  cause and the instant, on the target and owner devices that are no longer registered exactly the
  pending rows whose envelope names the task become dead letters, every other row of the tenant and
  every stream of another tenant is untouched, and so are the directory and every other attempt.
\<close>

theorem abandon_expires_task_rows:
  assumes "mailbox_inv (hs_mailbox s)" and "attempts_inv (hs_tasks s)" and "isTenantId t"
    and "attempt_get t task (hs_tasks s) = Some a" and "\<not> terminal_status (ta_status a)"
  shows "\<exists>b s'. abandonTask json_parse t task cause now s = Some (Some b, s') \<and>
    b = a\<lparr>ta_status := Cancelled, ta_terminalCause := Some (abandon_cause_str cause), ta_terminalAt := Some (toISOString now),
          ta_updatedAt := toISOString now\<rparr> \<and>
    (\<forall>u task'. isTenantId u \<longrightarrow> attempt_get u task' (hs_tasks s') = (if (u, task') = (t, task) then Some b else attempt_get u task' (hs_tasks s))) \<and>
    hs_devices s' = hs_devices s \<and>
    (\<forall>dev. messagesOf t dev (hs_mailbox s') = map (\<lambda>m.
       if (dev = ta_deviceId a \<or> ta_ownerDeviceId a = Some dev) \<and> device_get t dev (hs_devices s) = None \<and> mm_state m = Pending \<and>
          envelopeTaskId json_parse (mm_body m) = Some (JString task)
       then m\<lparr>mm_state := Expired\<rparr> else m) (messagesOf t dev (hs_mailbox s))) \<and>
    (\<forall>u dev. isTenantId u \<longrightarrow> u \<noteq> t \<longrightarrow> messagesOf u dev (hs_mailbox s') = messagesOf u dev (hs_mailbox s))"
proof -
  have g: "jget (as_attempts (hs_tasks s)) (tenantKey t [task]) = Some a" using assms(4) by (simp add: attempt_get_def)
  have u: "unfinished a" using assms(5) by (simp add: unfinished_iff)
  obtain mb where mb: "abandonTask json_parse t task cause now s =
      Some (Some (abandoned a cause (toISOString now)),
        s\<lparr>hs_mailbox := mb, hs_tasks := attempt_set (tenantKey t [task]) (abandoned a cause (toISOString now)) (hs_tasks s)\<rparr>)"
    "\<And>dev. messagesOf t dev mb =
       (if dev \<in> set (task_devices a) \<and> device_get t dev (hs_devices s) = None
        then map (expire_named json_parse (ta_taskId a)) (messagesOf t dev (hs_mailbox s)) else messagesOf t dev (hs_mailbox s))"
    "\<And>k. k \<notin> (\<lambda>dev. tenantKey t [dev]) ` set (task_devices a) \<Longrightarrow> jget mb k = jget (hs_mailbox s) k"
    by (rule abandonTask_eq [OF assms(1,3) g u]) blast
  have own: "ta_taskId a = task" using attempts_inv_own(2) [OF assms(2,3) g] by simp
  have "ta_terminalAt a = None" using attempts_invD(3) [OF assms(2) g] assms(5) by (simp add: attempt_ok_def)
  then have b: "abandoned a cause (toISOString now) =
      a\<lparr>ta_status := Cancelled, ta_terminalCause := Some (abandon_cause_str cause), ta_terminalAt := Some (toISOString now),
        ta_updatedAt := toISOString now\<rparr>"
    by (simp add: abandoned_def)
  have dev: "dev \<in> set (task_devices a) \<longleftrightarrow> dev = ta_deviceId a \<or> ta_ownerDeviceId a = Some dev" for dev
    by (auto simp: task_devices_def split: option.splits)
  have rows: "messagesOf t dev mb = map (\<lambda>m.
       if (dev = ta_deviceId a \<or> ta_ownerDeviceId a = Some dev) \<and> device_get t dev (hs_devices s) = None \<and> mm_state m = Pending \<and>
          envelopeTaskId json_parse (mm_body m) = Some (JString task)
       then m\<lparr>mm_state := Expired\<rparr> else m) (messagesOf t dev (hs_mailbox s))" for dev
    by (cases "device_get t dev (hs_devices s)") (simp_all add: mb(2) dev expire_named_def names_task_def own)
  have other: "messagesOf v dev mb = messagesOf v dev (hs_mailbox s)" if "isTenantId v" "v \<noteq> t" for v dev
  proof -
    have "tenantKey v [dev] \<notin> (\<lambda>dev. tenantKey t [dev]) ` set (task_devices a)" using that assms(3) by auto
    from mb(3) [OF this] show ?thesis by (simp add: messagesOf_def)
  qed
  let ?b = "abandoned a cause (toISOString now)"
  let ?s' = "s\<lparr>hs_mailbox := mb, hs_tasks := attempt_set (tenantKey t [task]) ?b (hs_tasks s)\<rparr>"
  have "attempt_get u task' (hs_tasks ?s') = (if (u, task') = (t, task) then Some ?b else attempt_get u task' (hs_tasks s))"
    if "isTenantId u" for u task'
    using that assms(3) by (auto simp: attempt_get_def)
  then show ?thesis
    using rows other b by (intro exI [of _ ?b] exI [of _ ?s']) (simp add: mb(1))
qed

definition sample_parse :: "string \<Rightarrow> json option" where
  "sample_parse body = Some (JObject [(''task_id'', JString ''t'')])"

definition sample_world :: hosted_state where
  "sample_world = empty_hosted\<lparr>hs_tasks := sample_task, hs_mailbox := sample_mailbox\<rparr>"

theorem abandon_expires_task_rows_witness:
  "\<exists>b s'. abandonTask sample_parse ''acme'' ''t'' Operator 7 sample_world = Some (Some b, s') \<and> ta_status b = Cancelled \<and>
     messagesOf ''acme'' ''d'' (hs_mailbox s') = [sample_message\<lparr>mm_state := Expired\<rparr>]"
proof -
  obtain a where a: "attempt_get ''acme'' ''t'' sample_task = Some a" "ta_status a = Claimed" "ta_deviceId a = ''d''"
    using sample_task_get by blast
  have m: "messagesOf ''acme'' ''d'' sample_mailbox = [sample_message]" using sample_mailbox_get by (simp add: messagesOf_def)
  have "mailbox_inv (hs_mailbox sample_world)" "attempts_inv (hs_tasks sample_world)"
    "attempt_get ''acme'' ''t'' (hs_tasks sample_world) = Some a" "\<not> terminal_status (ta_status a)"
    using sample_mailbox_inv sample_task_inv a by (simp_all add: sample_world_def terminal_status_def)
  from abandon_expires_task_rows [OF this(1,2) sample_tenants(1) this(3,4), of sample_parse Operator 7]
  obtain b s' where "abandonTask sample_parse ''acme'' ''t'' Operator 7 sample_world = Some (Some b, s')" "ta_status b = Cancelled"
    "messagesOf ''acme'' ''d'' (hs_mailbox s') = map (\<lambda>m.
       if (''d'' = ta_deviceId a \<or> ta_ownerDeviceId a = Some ''d'') \<and> device_get ''acme'' ''d'' (hs_devices sample_world) = None \<and>
          mm_state m = Pending \<and> envelopeTaskId sample_parse (mm_body m) = Some (JString ''t'')
       then m\<lparr>mm_state := Expired\<rparr> else m) (messagesOf ''acme'' ''d'' (hs_mailbox sample_world))"
    by auto
  then show ?thesis
    using a(3) m
    by (intro exI [of _ b] exI [of _ s'])
      (simp add: sample_world_def empty_hosted_def device_get_def envelopeTaskId_def sample_parse_def jget_Cons)
qed

section \<open>Cancellation commits both halves or neither\<close>

lemma append_Inl_rows:
  assumes "mailbox_append t i e now mb = (Inl x, mb')"
  shows "messagesOf u dev mb' = messagesOf u dev mb"
  using assms
  by (auto simp: mailbox_append_def mailbox_device_def append_commit_def messagesOf_def new_device_def Let_def
      split: if_splits option.splits sum.splits append_progress.splits)

lemma append_Inr_row:
  assumes "mailbox_inv mb" and "isTenantId t" and "mailbox_append t i e now mb = (Inr m, mb')"
  shows "mm_messageId m = ma_messageId i \<and> mm_deviceId m = ma_deviceId i \<and> mm_tenantId m = t \<and>
    (m \<in> set (messagesOf t (ma_deviceId i) mb) \<and> mb' = mb \<or>
     (\<forall>k. k \<noteq> tenantKey t [ma_deviceId i] \<longrightarrow> jget mb' k = jget mb k) \<and>
     messagesOf t (ma_deviceId i) mb' = messagesOf t (ma_deviceId i) mb @ [m] \<and> mm_state m = Pending)"
proof -
  let ?k = "tenantKey t [ma_deviceId i]"
  obtain d mb0 where d: "mailbox_device t (ma_deviceId i) now mb = Inr (d, mb0)"
    using assms(3) by (cases "mailbox_device t (ma_deviceId i) now mb") (auto simp: mailbox_append_def)
  have mb0: "jget mb ?k = Some d \<and> mb0 = mb \<or> jget mb ?k = None \<and> d = new_device now \<and> mb0 = jset ?k d mb"
    using d by (auto simp: mailbox_device_def Let_def simp del: tenantKey_one split: if_splits option.splits)
  have ok: "rows_ok t (ma_deviceId i) (dm_nextSeq d) (dm_messages d) (dm_byMessageId d)"
    using mailbox_device_ok(4) [OF d assms(1,2)] by (simp add: device_ok_def)
  show ?thesis
  proof (cases "append_begin i e d")
    case (AppendRefused x)
    then show ?thesis using assms(3) d by (simp add: mailbox_append_def)
  next
    case (AppendExisting m')
    then have m: "m' = m" "mb' = mb0" "jget (dm_byMessageId d) (ma_messageId i) = Some m"
      using assms(3) d by (auto simp: mailbox_append_def append_begin_def mailboxLimit_def split: option.splits if_splits sum.splits)
    then have "m \<in> set (dm_messages d)" "mm_messageId m = ma_messageId i" using rows_ok_lookup [OF ok] by auto
    moreover from this have "mb0 = mb" "jget mb ?k = Some d" using mb0 by (auto simp: new_device_def)
    ultimately show ?thesis using m ok by (auto simp: messagesOf_def rows_ok_def)
  next
    case (AppendReserved limit seq)
    obtain body where "ma_materialize i seq = Inr body" "append_commit t i limit seq body now d mb0 = (Inr m, mb')"
      using assms(3) d AppendReserved by (cases "ma_materialize i seq") (simp_all add: mailbox_append_def)
    then have m: "m = appended_message t i seq body now" "mb' = jset ?k (push_message m d) mb0"
      by (auto simp: append_commit_def Let_def split: option.splits if_splits)
    have "dm_messages d = messagesOf t (ma_deviceId i) mb" using mb0 by (auto simp: messagesOf_def new_device_def)
    moreover have "mm_messageId m = ma_messageId i" "mm_deviceId m = ma_deviceId i" "mm_tenantId m = t" "mm_state m = Pending"
      by (simp_all add: m(1) appended_message_def)
    moreover have "messagesOf t (ma_deviceId i) mb' = dm_messages d @ [m]" unfolding m(2) by (simp add: messagesOf_def push_message_def)
    moreover have "jget mb' k = jget mb k" if "k \<noteq> ?k" for k using that mb0 by (auto simp: m(2) simp del: tenantKey_one)
    ultimately show ?thesis by simp
  qed
qed

text \<open>
  C40. A first cancellation commits both halves or neither. If it succeeds, the attempt carries the
  tombstone (\<open>cancelled\<close> when no device owned it, \<open>cancel_requested\<close> otherwise), the delivery
  id is recorded, the returned message is in the target device's stream under that id, and no other
  attempt or stream changed. If the append fails, because the stream is closed or the materializer
  throws, no attempt, no delivery id and no row of any stream has changed.
\<close>

theorem cancel_both_or_neither:
  assumes "mailbox_inv (hs_mailbox s)" and "isTenantId t" and "attempt_get t (cr_taskId input) (hs_tasks s) = Some a"
    and "ta_cancellation a = None" and "\<not> terminal_status (ta_status a)" and "cancel_request t input now s = (res, s')"
  shows "case res of
      Inl e \<Rightarrow> hs_tasks s' = hs_tasks s \<and> hs_messageIds s' = hs_messageIds s \<and>
        (\<forall>u dev. messagesOf u dev (hs_mailbox s') = messagesOf u dev (hs_mailbox s))
    | Inr answer \<Rightarrow> \<exists>b m. answer = Some \<lparr>cm_attempt = b, cm_message = Some m\<rparr> \<and>
        attempt_get t (cr_taskId input) (hs_tasks s') = Some b \<and>
        ta_cancellation b = Some \<lparr>tc_requestedAt = toISOString now, tc_reason = cr_reason input\<rparr> \<and>
        ta_status b = (if ta_ownerDeviceId a = None then Cancelled else Cancel_requested) \<and>
        jget (hs_messageIds s') (tenantKey t [cr_taskId input]) = Some (cr_proposedMessageId input) \<and>
        mm_messageId m = cr_proposedMessageId input \<and> m \<in> set (messagesOf t (ta_deviceId a) (hs_mailbox s')) \<and>
        (\<forall>k. k \<noteq> tenantKey t [cr_taskId input] \<longrightarrow> jget (as_attempts (hs_tasks s')) k = jget (as_attempts (hs_tasks s)) k) \<and>
        (\<forall>k. k \<noteq> tenantKey t [ta_deviceId a] \<longrightarrow> jget (hs_mailbox s') k = jget (hs_mailbox s) k)"
proof -
  let ?i = "cancellation_delivery (ta_deviceId a) input" and ?key = "tenantKey t [cr_taskId input]"
  let ?b = "cancellation_written a (cr_reason input) (toISOString now)"
  have g: "jget (as_attempts (hs_tasks s)) ?key = Some a" using assms(3) by (simp add: attempt_get_def)
  obtain r mb where c: "mailbox_append t ?i None now (hs_mailbox s) = (r, mb)" by (cases "mailbox_append t ?i None now (hs_mailbox s)")
  show ?thesis
  proof (cases r)
    case (Inl e)
    then have "res = Inl e" "s' = s\<lparr>hs_mailbox := mb\<rparr>"
      using assms(6) g assms(4,5) c by (simp_all add: cancel_request_def Let_def del: tenantKey_one)
    then show ?thesis using append_Inl_rows [OF c [unfolded Inl]] by simp
  next
    case (Inr m)
    then have s': "res = Inr (Some \<lparr>cm_attempt = ?b, cm_message = Some m\<rparr>)"
      "s' = s\<lparr>hs_mailbox := mb, hs_tasks := attempt_set ?key ?b (hs_tasks s),
         hs_messageIds := jset ?key (cr_proposedMessageId input) (hs_messageIds s)\<rparr>"
      using assms(6) g assms(4,5) c by (simp_all add: cancel_request_def Let_def del: tenantKey_one)
    have row: "mm_messageId m = cr_proposedMessageId input" "m \<in> set (messagesOf t (ta_deviceId a) mb)"
      "\<And>k. k \<noteq> tenantKey t [ta_deviceId a] \<Longrightarrow> jget mb k = jget (hs_mailbox s) k"
      using append_Inr_row [OF assms(1,2) c [unfolded Inr]] by (auto simp: cancellation_delivery_def simp del: tenantKey_one)
    have "ta_cancellation ?b = Some \<lparr>tc_requestedAt = toISOString now, tc_reason = cr_reason input\<rparr>"
      "ta_status ?b = (if ta_ownerDeviceId a = None then Cancelled else Cancel_requested)"
      by (simp_all add: cancellation_written_def)
    then show ?thesis unfolding s' using row by (simp add: attempt_get_def del: tenantKey_one)
  qed
qed

definition sample_request :: cancellation_request where
  "sample_request = \<lparr>cr_taskId = ''t'', cr_proposedMessageId = ''c-1'', cr_reason = None,
     cr_materialize = (\<lambda>seq i. Inr \<lparr>mb_body = ''cancel'', mb_bodyHash = ''h'', mb_byteSize = 6\<rparr>)\<rparr>"

lemma sample_request_simps [simp]: "cr_taskId sample_request = ''t''" "cr_proposedMessageId sample_request = ''c-1''"
  by (simp_all add: sample_request_def)

theorem cancel_both_or_neither_witness:
  "\<exists>b m s'. cancel_request ''acme'' sample_request 7 sample_world = (Inr (Some \<lparr>cm_attempt = b, cm_message = Some m\<rparr>), s') \<and>
     ta_status b = Cancel_requested \<and> mm_messageId m = ''c-1'' \<and> m \<in> set (messagesOf ''acme'' ''d'' (hs_mailbox s'))"
proof -
  obtain a where a: "attempt_get ''acme'' ''t'' sample_task = Some a" "ta_status a = Claimed" "ta_deviceId a = ''d''"
    "ta_ownerDeviceId a = Some ''d''" "ta_cancellation a = None"
    using sample_task_get by blast
  obtain res s' where r: "cancel_request ''acme'' sample_request 7 sample_world = (res, s')" by fastforce
  obtain m mb where c: "mailbox_append ''acme'' (cancellation_delivery ''d'' sample_request) None 7 sample_mailbox = (Inr m, mb)"
    using sample_mailbox_get
    by (simp add: mailbox_append_def mailbox_device_def cancellation_delivery_def sample_request_def append_begin_def append_commit_def
        push_message_def new_device_def Let_def jget_Cons split: if_splits)
  have "\<exists>x. res = Inr x"
    using r a c by (auto simp: cancel_request_def sample_world_def sample_request_def attempt_get_def terminal_status_def Let_def)
  then obtain x where x: "res = Inr x" ..
  have "mailbox_inv (hs_mailbox sample_world)" "attempt_get ''acme'' (cr_taskId sample_request) (hs_tasks sample_world) = Some a"
    "\<not> terminal_status (ta_status a)"
    using sample_mailbox_inv a by (simp_all add: sample_world_def sample_request_def terminal_status_def)
  from cancel_both_or_neither [OF this(1) sample_tenants(1) this(2) a(5) this(3) r] show ?thesis
    using a(3,4) by (auto simp: x r)
qed

end
