(* ===== verification/Hosted.thy ===== *)
theory Hosted
  imports Task_Cancellation
begin

text \<open>
  The hosted composition (\<open>createInMemoryCloudStores\<close> of
  \<open>packages/cloud/src/stores/in-memory/index.ts\<close>): the task attempt port, the mailbox, the device
  directory and the cancellation port over the one state they share. A history interleaves calls of
  all four, by any tenants.
\<close>

section \<open>One call of the composition\<close>

datatype hosted_op =
    HTask attempt_op
  | HMail mailbox_op
  | HRegister device_registration int
  | HRevoke string int
  | HCapabilities string "harness_info list option" "string list"
  | HDevice string
  | HDevices
  | HCancel cancellation_request int
  | HAbandon string task_abandon_cause int

datatype hosted_answer =
    TaskAnswer attempt_answer
  | MailAnswer mailbox_answer
  | Registered "mailbox_error + device_record"
  | Revoked "mailbox_error + unit"
  | DeviceIs "device_record option"
  | DevicesAre "device_record list"
  | CancelAnswer "mailbox_error + cancellation_mutation option"
  | AbandonAnswer "task_attempt option"
  | NoAnswer

fun hosted_exec ::
  "(string \<Rightarrow> json option) \<Rightarrow> tenant \<Rightarrow> hosted_op \<Rightarrow> hosted_state \<Rightarrow> hosted_answer \<times> hosted_state" where
  "hosted_exec json_parse t (HTask op) s =
     (case attempt_exec t op (hs_tasks s) of (r, a) \<Rightarrow> (TaskAnswer r, s\<lparr>hs_tasks := a\<rparr>))"
| "hosted_exec json_parse t (HMail op) s =
     (case mailbox_exec t op (hs_mailbox s) of (r, mb) \<Rightarrow> (MailAnswer r, s\<lparr>hs_mailbox := mb\<rparr>))"
| "hosted_exec json_parse t (HRegister input now) s = map_prod Registered id (device_register t input now s)"
| "hosted_exec json_parse t (HRevoke dev now) s = map_prod Revoked id (device_revoke t dev now s)"
| "hosted_exec json_parse t (HCapabilities dev hs caps) s =
     (case recordCapabilities t dev hs caps (hs_devices s) of (r, d) \<Rightarrow> (DeviceIs r, s\<lparr>hs_devices := d\<rparr>))"
| "hosted_exec json_parse t (HDevice dev) s = (DeviceIs (device_get t dev (hs_devices s)), s)"
| "hosted_exec json_parse t HDevices s = (DevicesAre (device_list t (hs_devices s)), s)"
| "hosted_exec json_parse t (HCancel input now) s = map_prod CancelAnswer id (cancel_request t input now s)"
| "hosted_exec json_parse t (HAbandon task cause now) s =
     (case abandonTask json_parse t task cause now s of
        None \<Rightarrow> (NoAnswer, s)
      | Some (r, s') \<Rightarrow> (AbandonAnswer r, s'))"

text \<open>
  The calls a host makes: the methods of the ports. Settling a device, writing a tombstone or
  settling a task are not methods of the attempt port, and the streams are closed and reopened by
  the directory only.
\<close>

fun port_op :: "hosted_op \<Rightarrow> bool" where
  "port_op (HTask (ASettle _ _ _)) = False"
| "port_op (HTask (ACancel _ _ _)) = False"
| "port_op (HTask (AAbandon _ _ _)) = False"
| "port_op (HMail (MCloseStream _ _ _)) = False"
| "port_op (HMail (MReopenStream _)) = False"
| "port_op _ = True"

abbreviation host_call :: "tenant \<times> hosted_op \<Rightarrow> bool" where
  "host_call \<equiv> \<lambda>(t, op). isTenantId t \<and> port_op op"

section \<open>Each call is calls of the parts\<close>

lemma cancel_request_tasks:
  "hs_tasks (snd (cancel_request t input now s)) = hs_tasks s \<or>
   hs_tasks (snd (cancel_request t input now s)) = snd (attempt_exec t (ACancel (cr_taskId input) (cr_reason input) now) (hs_tasks s))"
  by (auto simp: cancel_request_def cancel_attempt_def Let_def split: option.splits prod.splits sum.splits)

lemma cancel_request_mail: "mail_calls t (hs_mailbox s) (hs_mailbox (snd (cancel_request t input now s)))"
proof -
  have "mail_calls t mb (snd (mailbox_append t i e now mb))" for mb i e
    using mail_call [of t mb "MAppend i e now"] by simp
  then show ?thesis
    by (auto simp: cancel_request_def Let_def split: option.splits prod.splits sum.splits) (metis snd_conv)+
qed

abbreviation any_task_calls :: "tenant \<Rightarrow> attempt_state \<Rightarrow> attempt_state \<Rightarrow> bool" where
  "any_task_calls \<equiv> store_calls attempt_exec (\<lambda>_. True)"

lemma task_calls_any: "task_calls t a a' \<Longrightarrow> any_task_calls t a a'"
  unfolding store_calls_def by (fastforce simp: list_all_iff)

lemma any_task_call: "any_task_calls t a (snd (attempt_exec t op a))"
  by (rule store_calls_one) simp

lemma abandon_parts:
  assumes "mailbox_inv (hs_mailbox s)" and "isTenantId t" and "abandonTask json_parse t task cause now s = Some (r, s')"
  shows "mail_calls t (hs_mailbox s) (hs_mailbox s') \<and> task_calls t (hs_tasks s) (hs_tasks s') \<and>
    hs_devices s' = hs_devices s \<and> hs_messageIds s' = hs_messageIds s"
proof (cases "jget (as_attempts (hs_tasks s)) (tenantKey t [task])")
  case None
  then show ?thesis using assms(3) by (simp add: abandonTask_def)
next
  case (Some a)
  show ?thesis
  proof (cases "unfinished a")
    case True
    obtain mb where mb: "abandonTask json_parse t task cause now s =
        Some (Some (abandoned a cause (toISOString now)),
          s\<lparr>hs_mailbox := mb, hs_tasks := attempt_set (tenantKey t [task]) (abandoned a cause (toISOString now)) (hs_tasks s)\<rparr>)"
      "mail_calls t (hs_mailbox s) mb"
      by (rule abandonTask_eq [OF assms(1,2) Some True]) blast
    have "task_calls t (hs_tasks s) (attempt_set (tenantKey t [task]) (abandoned a cause (toISOString now)) (hs_tasks s))"
      using task_call [of "AAbandon task cause now" t "hs_tasks s"] Some True
      by (simp add: abandon_attempt_def Let_def del: tenantKey_one)
    then show ?thesis using assms(3) mb by auto
  next
    case False
    then show ?thesis using assms(3) Some by (simp add: abandonTask_def)
  qed
qed

text \<open>The mailbox and the attempts move by their own calls, all by the tenant of the call.\<close>

lemma hosted_parts:
  assumes "mailbox_inv (hs_mailbox s)" and "isTenantId t"
  shows "mail_calls t (hs_mailbox s) (hs_mailbox (snd (hosted_exec json_parse t op s)))"
    and "any_task_calls t (hs_tasks s) (hs_tasks (snd (hosted_exec json_parse t op s)))"
proof -
  have "mail_calls t (hs_mailbox s) (hs_mailbox (snd (hosted_exec json_parse t op s))) \<and>
    any_task_calls t (hs_tasks s) (hs_tasks (snd (hosted_exec json_parse t op s)))"
  proof (cases op)
    case (HTask a)
    then show ?thesis using any_task_call [of t "hs_tasks s" a] by (simp add: split_beta)
  next
    case (HMail m)
    then show ?thesis using mail_call [of t "hs_mailbox s" m] by (simp add: split_beta)
  next
    case (HRegister i now)
    then show ?thesis using device_register_calls(1,2) task_calls_any by simp
  next
    case (HRevoke dev now)
    then show ?thesis using device_revoke_calls(1,2) task_calls_any by simp
  next
    case (HCancel i now)
    have "any_task_calls t (hs_tasks s) (hs_tasks (snd (cancel_request t i now s)))"
      using cancel_request_tasks [of t i now s] any_task_call [of t "hs_tasks s"] by (metis store_calls_refl)
    then show ?thesis using HCancel cancel_request_mail by simp
  next
    case (HAbandon task cause now)
    then show ?thesis
      using abandon_parts [OF assms] task_calls_any by (auto split: option.splits)
  qed (simp_all add: split_beta)
  then show "mail_calls t (hs_mailbox s) (hs_mailbox (snd (hosted_exec json_parse t op s)))"
    and "any_task_calls t (hs_tasks s) (hs_tasks (snd (hosted_exec json_parse t op s)))" by blast+
qed

section \<open>The invariant of the composition\<close>

text \<open>Every tombstone has its delivery id and a stream it was delivered to.\<close>

definition deliveries_ok :: "attempt_state \<Rightarrow> mailbox_state \<Rightarrow> string jmap \<Rightarrow> bool" where
  "deliveries_ok a mb ids = (\<forall>k b. jget (as_attempts a) k = Some b \<longrightarrow> ta_cancellation b \<noteq> None \<longrightarrow>
     jget ids k \<noteq> None \<and> jget mb (tenantKey (ta_tenantId b) [ta_deviceId b]) \<noteq> None)"

definition hosted_inv :: "hosted_state \<Rightarrow> bool" where
  "hosted_inv s = (attempts_inv (hs_tasks s) \<and> mailbox_inv (hs_mailbox s) \<and> dir_inv (hs_devices s) \<and>
     deliveries_ok (hs_tasks s) (hs_mailbox s) (hs_messageIds s))"

definition hosted_le :: "hosted_state \<Rightarrow> hosted_state \<Rightarrow> bool" where
  "hosted_le s s' = (attempts_le (hs_tasks s) (hs_tasks s') \<and> mailbox_le (hs_mailbox s) (hs_mailbox s'))"

lemma hosted_invD:
  assumes "hosted_inv s"
  shows "attempts_inv (hs_tasks s)" "mailbox_inv (hs_mailbox s)" "dir_inv (hs_devices s)"
    "deliveries_ok (hs_tasks s) (hs_mailbox s) (hs_messageIds s)"
  using assms by (simp_all add: hosted_inv_def)

lemma hosted_inv_empty [simp]: "hosted_inv empty_hosted"
  by (simp add: hosted_inv_def empty_hosted_def deliveries_ok_def empty_attempts_def attempts_inv_empty [unfolded empty_attempts_def])

text \<open>A tombstone is only written by a cancellation; every other call keeps the ones there are.\<close>

definition no_new_tombstone :: "attempt_state \<Rightarrow> attempt_state \<Rightarrow> bool" where
  "no_new_tombstone a a' = (\<forall>k b'. jget (as_attempts a') k = Some b' \<longrightarrow> ta_cancellation b' \<noteq> None \<longrightarrow>
     (\<exists>b. jget (as_attempts a) k = Some b \<and> ta_cancellation b \<noteq> None \<and> ta_tenantId b = ta_tenantId b' \<and> ta_deviceId b = ta_deviceId b'))"

lemma no_new_refl [simp]: "no_new_tombstone a a"
  by (simp add: no_new_tombstone_def)

lemma no_new_trans: "no_new_tombstone a b \<Longrightarrow> no_new_tombstone b c \<Longrightarrow> no_new_tombstone a c"
  unfolding no_new_tombstone_def by metis

lemma no_new_set:
  assumes "jget (as_attempts a) k = Some b \<and> ta_cancellation b' = ta_cancellation b \<and> ta_tenantId b' = ta_tenantId b \<and> ta_deviceId b' = ta_deviceId b
    \<or> ta_cancellation b' = None"
  shows "no_new_tombstone a (attempt_set k b' a)"
  using assms by (auto simp: no_new_tombstone_def)

lemma attempt_exec_no_new:
  assumes "attempts_inv a" and "no_cancel op"
  shows "no_new_tombstone a (snd (attempt_exec t op a))"
proof (cases op)
  case (ASettle dev cause now)
  have "jmap_ok (as_attempts a)" using assms(1) by (simp add: attempts_inv_def)
  then show ?thesis
    using ASettle by (auto simp: no_new_tombstone_def settle_get abandoned_def split: option.splits if_splits)
next
  case (ACancel task reason now)
  then show ?thesis using assms(2) by simp
qed (auto intro!: no_new_set
    simp: attempt_open_def reserveAgentOffer_def reserveAgentMessage_def recordFirstOutput_def finalizeAgentMessage_def terminalize_def
      attempt_claim_def recordStatus_def abandon_attempt_def abandoned_def fresh_attempt_def no_new_tombstone_def Let_def
    split: option.splits)

lemma task_calls_no_new:
  assumes "task_calls t a a'" and "attempts_inv a" and "isTenantId t"
  shows "no_new_tombstone a a'"
proof -
  obtain ops where o: "list_all (\<lambda>(u, op). u = t \<and> no_cancel op) ops" "a' = snd (run_ops attempt_exec ops a)"
    using assms(1) by (auto simp: store_calls_def)
  from o(1) assms(2) show ?thesis
    unfolding o(2)
  proof (induction ops arbitrary: a)
    case (Cons x ops)
    obtain op where x: "x = (t, op)" "no_cancel op" using Cons.prems(1) by (cases x) simp
    have "attempts_inv (snd (attempt_exec t op a))" using attempt_history.exec_inv [of t op a] Cons.prems(2) assms(3) by simp
    then have "no_new_tombstone (snd (attempt_exec t op a)) (snd (run_ops attempt_exec ops (snd (attempt_exec t op a))))"
      using Cons.IH Cons.prems(1) by simp
    from no_new_trans [OF attempt_exec_no_new [OF Cons.prems(2) x(2)] this] show ?case
      by (simp add: x(1) run_ops_step del: run_ops.simps(2))
  qed simp
qed

lemma deliveries_kept:
  assumes "deliveries_ok a mb ids" and "no_new_tombstone a a'" and "mailbox_le mb mb'" and "\<And>k. jget ids k \<noteq> None \<Longrightarrow> jget ids' k \<noteq> None"
  shows "deliveries_ok a' mb' ids'"
  unfolding deliveries_ok_def
proof (intro allI impI)
  fix k b' assume b': "jget (as_attempts a') k = Some b'" "ta_cancellation b' \<noteq> None"
  then obtain b where b: "jget (as_attempts a) k = Some b" "ta_cancellation b \<noteq> None" "ta_tenantId b = ta_tenantId b'" "ta_deviceId b = ta_deviceId b'"
    using assms(2) unfolding no_new_tombstone_def by blast
  then have "jget ids k \<noteq> None" "jget mb (tenantKey (ta_tenantId b') [ta_deviceId b']) \<noteq> None"
    using assms(1) unfolding deliveries_ok_def by metis+
  then show "jget ids' k \<noteq> None \<and> jget mb' (tenantKey (ta_tenantId b') [ta_deviceId b']) \<noteq> None"
    using assms(3) assms(4) [of k] unfolding mailbox_le_def by (metis option.exhaust option.distinct(1))
qed

lemma port_no_cancel: "port_op (HTask op) \<Longrightarrow> no_cancel op"
  by (cases op) simp_all

lemma cancel_request_writes:
  assumes "cancel_request t input now s = (r, s')" and "\<not> (hs_tasks s' = hs_tasks s \<and> hs_messageIds s' = hs_messageIds s)"
  obtains a m mb where "jget (as_attempts (hs_tasks s)) (tenantKey t [cr_taskId input]) = Some a"
    and "mailbox_append t (cancellation_delivery (ta_deviceId a) input) None now (hs_mailbox s) = (Inr m, mb)"
    and "s' = s\<lparr>hs_mailbox := mb,
      hs_tasks := attempt_set (tenantKey t [cr_taskId input]) (cancellation_written a (cr_reason input) (toISOString now)) (hs_tasks s),
      hs_messageIds := jset (tenantKey t [cr_taskId input]) (cr_proposedMessageId input) (hs_messageIds s)\<rparr>"
proof -
  let ?key = "tenantKey t [cr_taskId input]"
  obtain a where a: "jget (as_attempts (hs_tasks s)) ?key = Some a"
    using assms by (cases "jget (as_attempts (hs_tasks s)) ?key") (simp_all add: cancel_request_def Let_def)
  have fresh: "ta_cancellation a = None" "\<not> terminal_status (ta_status a)"
    using assms by (auto simp: cancel_request_def Let_def a simp del: tenantKey_one split: option.split_asm prod.split_asm sum.split_asm if_split_asm)
  obtain q mb where app: "mailbox_append t (cancellation_delivery (ta_deviceId a) input) None now (hs_mailbox s) = (q, mb)"
    by (cases "mailbox_append t (cancellation_delivery (ta_deviceId a) input) None now (hs_mailbox s)")
  then obtain m where "q = Inr m" using assms fresh by (cases q) (auto simp: cancel_request_def Let_def a simp del: tenantKey_one)
  then show thesis
    using that [OF a] app assms(1) fresh by (simp add: cancel_request_def Let_def a del: tenantKey_one)
qed

lemma cancel_request_deliveries:
  assumes "hosted_inv s" and "isTenantId t"
  shows "deliveries_ok (hs_tasks (snd (cancel_request t input now s))) (hs_mailbox (snd (cancel_request t input now s)))
    (hs_messageIds (snd (cancel_request t input now s)))"
proof -
  let ?s' = "snd (cancel_request t input now s)" and ?key = "tenantKey t [cr_taskId input]"
  note I = hosted_invD [OF assms(1)]
  have le: "mailbox_le (hs_mailbox s) (hs_mailbox ?s')"
    by (rule mailbox_history.calls_mono [OF cancel_request_mail]) (simp_all add: I(2) assms(2))
  show ?thesis
  proof (cases "hs_tasks ?s' = hs_tasks s \<and> hs_messageIds ?s' = hs_messageIds s")
    case True
    then show ?thesis using deliveries_kept [OF I(4) no_new_refl le] by simp
  next
    case False
    obtain a m mb where a: "jget (as_attempts (hs_tasks s)) ?key = Some a"
      and app: "mailbox_append t (cancellation_delivery (ta_deviceId a) input) None now (hs_mailbox s) = (Inr m, mb)"
      and s': "?s' = s\<lparr>hs_mailbox := mb, hs_tasks := attempt_set ?key (cancellation_written a (cr_reason input) (toISOString now)) (hs_tasks s),
           hs_messageIds := jset ?key (cr_proposedMessageId input) (hs_messageIds s)\<rparr>"
      by (rule cancel_request_writes [OF surjective_pairing False])
    have "ta_tenantId a = t" using attempts_inv_own(1) [OF I(1) assms(2) a] by simp
    moreover have "m \<in> set (messagesOf t (ta_deviceId a) mb)"
      using append_Inr_row [OF I(2) assms(2) app] by (auto simp: cancellation_delivery_def)
    then have "jget mb (tenantKey t [ta_deviceId a]) \<noteq> None"
      by (cases "jget mb (tenantKey t [ta_deviceId a])") (simp_all add: messagesOf_def)
    moreover have "deliveries_ok (hs_tasks s) mb (hs_messageIds s)"
      using deliveries_kept [OF I(4) no_new_refl le] by (simp add: s')
    ultimately show ?thesis
      by (auto simp: s' deliveries_ok_def cancellation_written_def simp del: tenantKey_one)
  qed
qed

lemma hosted_exec_step:
  assumes "hosted_inv s" and "host_call (t, op)"
  shows "hosted_inv (snd (hosted_exec json_parse t op s)) \<and> hosted_le s (snd (hosted_exec json_parse t op s))"
proof -
  let ?s' = "snd (hosted_exec json_parse t op s)"
  note I = hosted_invD [OF assms(1)]
  have t: "isTenantId t" and p: "port_op op" using assms(2) by simp_all
  note parts = hosted_parts [OF I(2) t, of json_parse op]
  have mail: "mailbox_inv (hs_mailbox ?s')" "mailbox_le (hs_mailbox s) (hs_mailbox ?s')"
    using mailbox_history.calls_inv [OF parts(1)] mailbox_history.calls_mono [OF parts(1)] I(2) t by simp_all
  have task: "attempts_inv (hs_tasks ?s')" "attempts_le (hs_tasks s) (hs_tasks ?s')"
    using attempt_history.calls_inv [OF parts(2)] attempt_history.calls_mono [OF parts(2)] I(1) t by simp_all
  have dir: "dir_inv (hs_devices ?s')"
  proof (cases op)
    case (HAbandon task cause now)
    then show ?thesis using I(3) abandon_parts [OF I(2) t] by (auto split: option.splits)
  next
    case (HCancel i now)
    then show ?thesis
      using I(3) by (auto simp: cancel_request_def Let_def split: option.splits prod.splits sum.splits)
  qed (use I(3) device_register_dir [OF t I(3)] device_revoke_dir [OF t I(3)] recordCapabilities_dir [OF I(3)] in \<open>simp_all add: split_beta\<close>)
  have "deliveries_ok (hs_tasks ?s') (hs_mailbox ?s') (hs_messageIds ?s')"
  proof (cases "\<exists>i now. op = HCancel i now")
    case True
    then show ?thesis using cancel_request_deliveries [OF assms(1) t] by auto
  next
    case False
    have "task_calls t (hs_tasks s) (hs_tasks ?s') \<and> hs_messageIds ?s' = hs_messageIds s"
    proof (cases op)
      case (HTask a)
      then show ?thesis using task_call [OF port_no_cancel, of a t "hs_tasks s"] p by (simp add: split_beta)
    next
      case (HRegister i now)
      then show ?thesis using device_register_calls(2,3) by simp
    next
      case (HRevoke dev now)
      then show ?thesis using device_revoke_calls(2,3) by simp
    next
      case (HAbandon task cause now)
      then show ?thesis using abandon_parts [OF I(2) t] by (auto split: option.splits)
    qed (use False in \<open>simp_all add: split_beta\<close>)
    then show ?thesis
      using deliveries_kept [OF I(4) task_calls_no_new [OF _ I(1) t] mail(2), of "hs_tasks ?s'" "hs_messageIds s"] by simp
  qed
  then show ?thesis using mail task dir by (simp add: hosted_inv_def hosted_le_def)
qed

interpretation hosted_history: monotone_store "hosted_exec json_parse" host_call hosted_inv hosted_le for json_parse
proof (unfold_locales, goal_cases)
  case (1 t op s)
  then show ?case using hosted_exec_step by blast
next
  case (2 s)
  then show ?case by (simp add: hosted_le_def)
next
  case (3 a b c)
  then show ?case unfolding hosted_le_def using attempts_le_trans mailbox_le_trans by blast
next
  case (4 t op s)
  then show ?case using hosted_exec_step by blast
qed

section \<open>Histories of the composition are histories of its parts\<close>



section \<open>One machine, one device\<close>

text \<open>
  C9. The directory invariant: after any history of host calls, a device that is found, by its tenant
  or by the pre-tenant lookup, is the row of that tenant and device and is not revoked, the lookup
  and the tenant read agree, and two registrations of one tenant and product that report the same
  physical machine are one device.
\<close>

theorem directory_sound:
  assumes "\<forall>(t, op) \<in> set ops. isTenantId t \<and> port_op op" and "isTenantId t"
    and "d = hs_devices (snd (run_ops (hosted_exec json_parse) ops empty_hosted))"
    and "device_get t dev d = Some r"
  shows "dv_tenantId r = t \<and> dv_deviceId r = dev \<and> \<not> dv_revoked r \<and>
    (\<forall>r'. resolveByDeviceId dev d = Some r' \<longrightarrow> dv_deviceId r' = dev \<and> device_get (dv_tenantId r') dev d = Some r') \<and>
    (\<forall>dev' r'. device_get t dev' d = Some r' \<longrightarrow> dv_machineId r \<noteq> None \<longrightarrow> dv_machineId r' = dv_machineId r \<longrightarrow>
       dv_productId r' = dv_productId r \<longrightarrow> dev' = dev)"
proof -
  have inv: "dir_inv d"
    unfolding assms(3) using hosted_history.run_inv [OF assms(1) hosted_inv_empty] by (rule hosted_invD)
  have rows: "dir_rows d" and one: "one_machine d" using inv by (simp_all add: dir_inv_def)
  have own: "dv_tenantId x = t \<and> dv_deviceId x = y \<and> \<not> dv_revoked x" if "device_get t y d = Some x" for x y
    using dir_rows_get [OF rows that [unfolded device_get_def]] assms(2) by auto
  have "tenantKey t [dev'] = tenantKey t [dev]"
    if "device_get t dev' d = Some r'" "dv_machineId r \<noteq> None" "dv_machineId r' = dv_machineId r" "dv_productId r' = dv_productId r"
    for dev' r'
    using one own [OF that(1)] own [OF assms(4)] that assms(4) unfolding one_machine_def device_get_def by metis
  then show ?thesis using own [OF assms(4)] resolve_own [OF inv] assms(2) by simp
qed

theorem directory_sound_witness:
  "let d = hs_devices (snd (run_ops (hosted_exec sample_parse) [(''acme'', HRegister (sample_registration ''d'') 0)] empty_hosted))
   in dv_deviceId (the (device_get ''acme'' ''d'' d)) = ''d'' \<and> \<not> dv_revoked (the (device_get ''acme'' ''d'' d))"
proof -
  have e: "snd (run_ops (hosted_exec sample_parse) [(''acme'', HRegister (sample_registration ''d'') 0)] empty_hosted) = sample_hosted"
    by (simp add: run_ops_step sample_hosted_def del: run_ops.simps(2))
  show ?thesis
    using directory_sound [of "[(''acme'', HRegister (sample_registration ''d'') 0)]" "''acme''" _ sample_parse "''d''", OF _ _ refl] sample_hosted_ok(4)
    by (simp add: e Let_def del: run_ops.simps)
qed

section \<open>A cancellation is delivered once\<close>






section \<open>A revoked device stays out until it is registered again\<close>

definition gone :: "tenant \<Rightarrow> string \<Rightarrow> hosted_state \<Rightarrow> bool" where
  "gone t dev s = (device_get t dev (hs_devices s) = None \<and> stream_closed t dev (hs_mailbox s))"

fun registers :: "string \<Rightarrow> hosted_op \<Rightarrow> bool" where
  "registers dev (HRegister input now) = (dg_deviceId input = dev)"
| "registers dev _ = False"

lemma close_streams_closed:
  "stream_closed t dev mb \<Longrightarrow> stream_closed t dev (snd (close_streams u rows now mb))"
proof (induction u rows now mb rule: close_streams.induct)
  case (2 u key existing rows now mb)
  obtain r mb' where c: "closeStream u (dv_deviceId existing) Device_superseded now mb = (r, mb')"
    by (cases "closeStream u (dv_deviceId existing) Device_superseded now mb")
  have "stream_closed t dev mb'"
    using closed_call(3) [OF 2(2), of u "dv_deviceId existing" Device_superseded now] by (simp add: c)
  then show ?case using 2(1) [OF c [symmetric]] by (cases r) (simp_all add: c)
qed simp

lemma expire_task_rows_closed:
  "expire_task_rows json_parse isRegistered u task devs mb = Some mb' \<Longrightarrow> stream_closed t dev mb \<Longrightarrow> stream_closed t dev mb'"
proof (induction json_parse isRegistered u task devs mb rule: expire_task_rows.induct)
  case (2 json_parse isRegistered u task d devs mb)
  show ?case
  proof (cases "isRegistered d")
    case True
    then show ?thesis using 2 by simp
  next
    case False
    then obtain seqs where seqs: "task_seqs json_parse u d task mb (length (messagesOf u d mb) + 1) 0 [] = Some seqs"
      "expire_task_rows json_parse isRegistered u task devs (snd (expirePending u d seqs mb)) = Some mb'"
      using 2(3) by (auto split: option.splits)
    show ?thesis using 2(2) [OF False seqs(1) seqs(2) closed_call(4) [OF 2(4)]] .
  qed
qed simp

lemma reopen_other_closed:
  assumes "stream_closed t dev mb" and "isTenantId t" and "isTenantId u" and "(u, dev') \<noteq> (t, dev)"
  shows "stream_closed t dev (reopenStream u dev' mb)"
  using assms by (auto simp: stream_closed_def reopenStream_def split: option.splits)

lemma gone_register:
  assumes "dir_rows (hs_devices s)" and "gone t dev s" and "isTenantId t" and "isTenantId u" and "(u, dg_deviceId input) \<noteq> (t, dev)"
  shows "gone t dev (snd (device_register u input now s))"
proof -
  have none: "jget (dd_byTenant (hs_devices s)) (tenantKey t [dev]) = None" and closed: "stream_closed t dev (hs_mailbox s)"
    using assms(2) by (simp_all add: gone_def device_get_def)
  have "tenantKey t [dev] \<noteq> tenantKey u [dg_deviceId input]" using assms(3-5) by auto
  then have "device_get t dev (hs_devices (snd (device_register u input now s))) = None"
    using none
    by (simp add: device_get_def device_register_devices rolled_back_get [OF assms(1)] replaced_get [OF assms(1)] del: tenantKey_one
        split: sum.splits)
  moreover obtain e mb where c: "close_streams u (superseded_rows u input (hs_devices s)) now (hs_mailbox s) = (e, mb)"
    by (cases "close_streams u (superseded_rows u input (hs_devices s)) now (hs_mailbox s)")
  have "stream_closed t dev mb" using close_streams_closed [OF closed, of u "superseded_rows u input (hs_devices s)" now] by (simp add: c)
  then have "stream_closed t dev (hs_mailbox (snd (device_register u input now s)))"
    using closed reopen_other_closed [OF _ assms(3-5)] by (auto simp: device_register_def Let_def c split: option.splits)
  ultimately show ?thesis by (simp add: gone_def)
qed

lemma gone_step:
  assumes "hosted_inv s" and "host_call (u, op)" and "isTenantId t" and "gone t dev s" and "\<not> (u = t \<and> registers dev op)"
  shows "gone t dev (snd (hosted_exec json_parse u op s))"
proof -
  have u: "isTenantId u" and p: "port_op op" using assms(2) by simp_all
  have none: "jget (dd_byTenant (hs_devices s)) (tenantKey t [dev]) = None" and closed: "stream_closed t dev (hs_mailbox s)"
    using assms(4) by (simp_all add: gone_def device_get_def)
  have rows: "dir_rows (hs_devices s)" using hosted_invD(3) [OF assms(1)] by (simp add: dir_inv_def)
  show ?thesis
  proof (cases op)
    case (HTask a)
    then show ?thesis using assms(4) by (simp add: gone_def split_beta)
  next
    case (HMail m)
    have "(u, m) \<noteq> (t, MReopenStream dev)" using p HMail by auto
    then show ?thesis
      using HMail assms(4) mailbox_exec_closed [OF assms(3) u closed] by (simp add: gone_def split_beta)
  next
    case (HRegister input now)
    then show ?thesis using gone_register [OF rows assms(4,3) u] assms(5) by auto
  next
    case (HRevoke dev' now)
    then show ?thesis
      using none closed closed_call(3) [OF closed, of u dev' Device_revoked now]
      by (auto simp: gone_def device_get_def device_revoke_def Let_def split_beta simp del: tenantKey_one split: option.splits sum.splits)
  next
    case (HCapabilities dev' hs caps)
    then show ?thesis
      using none closed
      by (auto simp: gone_def device_get_def recordCapabilities_def Let_def split_beta simp del: tenantKey_one split: option.splits)
  next
    case (HCancel input now)
    have "stream_closed t dev (snd (mailbox_append u i e now (hs_mailbox s)))" for i e by (rule closed_append [OF closed])
    then have "stream_closed t dev mb" if "mailbox_append u i e now (hs_mailbox s) = (r, mb)" for i e r mb using that by (metis snd_conv)
    then show ?thesis
      using HCancel assms(4)
      by (auto simp: gone_def cancel_request_def Let_def split: option.splits prod.splits sum.splits)
  next
    case (HAbandon task cause now)
    then show ?thesis
      using assms(4) expire_task_rows_closed [OF _ closed]
      by (auto simp: gone_def abandonTask_def Let_def split: option.splits)
  qed (use assms(4) in simp_all)
qed

interpretation gone_history:
  invariant_store "hosted_exec json_parse" "\<lambda>(u, op). isTenantId u \<and> port_op op \<and> \<not> (u = t \<and> registers dev op)"
    "\<lambda>s. isTenantId t \<and> hosted_inv s \<and> gone t dev s" for json_parse t dev
proof (unfold_locales, goal_cases)
  case (1 u op s)
  then show ?case using gone_step [of s u op t dev json_parse] hosted_exec_step [of s u op json_parse] by simp
qed

lemma device_revoke_gone:
  assumes "device_get t dev (hs_devices s) \<noteq> None" and "dev \<noteq> []"
  shows "gone t dev (snd (device_revoke t dev now s))"
proof -
  obtain n mb where n: "closeStream t dev Device_revoked now (hs_mailbox s) = (Inr n, mb)"
    using closeStream_ok(1) [OF assms(2), of t Device_revoked now "hs_mailbox s"]
    by (cases "closeStream t dev Device_revoked now (hs_mailbox s)") auto
  have "stream_closed t dev mb" using closeStream_closed [OF assms(2), of t Device_revoked now "hs_mailbox s"] by (simp add: n)
  then show ?thesis
    using assms(1) by (auto simp: gone_def device_get_def device_revoke_def Let_def n simp del: tenantKey_one split: option.splits)
qed

text \<open>
  C8. A revoked device stays out: after the revocation of a registered device, and for as long as
  its tenant does not register it again, whatever else the host does for any tenant, it is in no
  directory read of the tenant, the pre-tenant lookup never resolves to its old registration, it has
  no message to read, and every append to it, cancellations included, is refused and leaves the
  mailbox as it was.
\<close>

theorem revoked_stays_out:
  assumes "hosted_inv s" and "isTenantId t" and "dev \<noteq> []" and "device_get t dev (hs_devices s) \<noteq> None"
    and "\<forall>(u, op) \<in> set ops. isTenantId u \<and> port_op op \<and> \<not> (u = t \<and> registers dev op)"
    and "s' = snd (run_ops (hosted_exec json_parse) ((t, HRevoke dev now) # ops) s)"
  shows "device_get t dev (hs_devices s') = None \<and>
    (\<forall>r. resolveByDeviceId dev (hs_devices s') = Some r \<longrightarrow> dv_tenantId r \<noteq> t) \<and>
    (\<forall>q. mq_deviceId q = dev \<longrightarrow> mp_messages (readAfter t q (hs_mailbox s')) = []) \<and>
    (\<forall>i e later. ma_deviceId i = dev \<longrightarrow>
       (\<exists>c. mailbox_append t i e later (hs_mailbox s') = (Inl (MailboxStreamClosedError dev c), hs_mailbox s')))"
proof -
  have "hosted_inv (snd (device_revoke t dev now s))" using hosted_exec_step [OF assms(1), of t "HRevoke dev now"] assms(2) by simp
  then have "isTenantId t \<and> hosted_inv s' \<and> gone t dev s'"
    using gone_history.run_inv [OF assms(5), of "snd (device_revoke t dev now s)" json_parse] device_revoke_gone [OF assms(4,3)] assms(2)
    by (simp add: assms(6) run_ops_step del: run_ops.simps(2))
  then have inv: "hosted_inv s'" and g: "gone t dev s'" by blast+
  note I = hosted_invD [OF inv]
  obtain d at0 c where d: "jget (hs_mailbox s') (tenantKey t [dev]) = Some d" "dm_closed d = Some (at0, c)"
    using g by (auto simp: gone_def stream_closed_def split: option.splits)
  have "device_ok t dev d" by (rule mailbox_inv_device(1) [OF I(2) assms(2) d(1)])
  then have "pending_after x d = []" for x using d(2) by (simp add: device_ok_def pending_after_sort filter_empty_conv)
  then have "mp_messages (readAfter t q (hs_mailbox s')) = []" if "mq_deviceId q = dev" for q
    using d(1) that by (simp add: readAfter_def Let_def slice0_def)
  moreover have "mailbox_append t i e later (hs_mailbox s') = (Inl (MailboxStreamClosedError dev c), hs_mailbox s')"
    if "ma_deviceId i = dev" for i e later
    using d assms(3) that by (simp add: mailbox_append_def mailbox_device_def append_begin_def Let_def)
  moreover have "dv_tenantId r \<noteq> t" if "resolveByDeviceId dev (hs_devices s') = Some r" for r
    using resolve_own [OF I(3) that] g by (auto simp: gone_def)
  ultimately show ?thesis using g unfolding gone_def by blast
qed

theorem revoked_stays_out_witness:
  "let s' = snd (run_ops (hosted_exec sample_parse) ((''acme'', HRevoke ''d'' 5) # [(''globex'', HRegister (sample_registration ''d'') 6)]) sample_hosted)
   in device_get ''acme'' ''d'' (hs_devices s') = None \<and>
     mp_messages (readAfter ''acme'' (default_query ''d'' 0) (hs_mailbox s')) = []"
proof -
  have "hosted_inv sample_hosted"
    using hosted_exec_step [OF hosted_inv_empty, of "''acme''" "HRegister (sample_registration ''d'') 0"] by (simp add: sample_hosted_def)
  from revoked_stays_out [OF this sample_tenants(1) _ _ _ refl, of "''d''" "[(''globex'', HRegister (sample_registration ''d'') 6)]" sample_parse 5]
  show ?thesis by (simp add: sample_hosted_ok(4) default_query_def Let_def del: run_ops.simps)
qed

end
