(* ===== verification/Pairing.thy ===== *)
theory Pairing
  imports Hosted
begin

text \<open>
  Pairing codes and enrollment (\<open>packages/cloud/src/stores/in-memory/pairing-codes.ts\<close>, types of
  \<open>stores/ports.ts\<close>). A code carries the tenant and product it was minted for; its redemption
  registers a device in the directory of the composition. Redemptions of one code wait for each
  other (\<open>#enrollmentTails\<close>), so a redemption is one step; \<open>inflight\<close> are the codes that have a
  redemption under way when a collection runs. \<open>other\<close> is \<open>Date.parse\<close> on text that is not
  canonical, and \<open>None\<close> an expiry that is not a number.
\<close>

section \<open>Data\<close>

record pairing_claims =
  pc_tenantId :: tenant
  pc_productId :: string

record pairing_issue =
  pi_code :: string
  pi_productId :: string
  pi_expiresAt :: string

record pairing_info =
  pf_code :: string
  pf_expiresAt :: string

record enrollment_input =
  en_pairingCode :: string
  en_deviceId :: string
  en_deviceName :: string
  en_devicePublicKey :: string
  en_proofKeyId :: string
  en_proofKeyEpoch :: int
  en_machineId :: "string option"

record pairing_binding =
  pb_deviceName :: string
  pb_devicePublicKey :: string
  pb_proofKeyId :: string
  pb_proofKeyEpoch :: int
  pb_machineId :: "string option"

record pairing_code =
  pk_claims :: pairing_claims
  pk_expiresAtMs :: "int option"
  pk_used :: bool
  pk_completion :: "(device_record \<times> pairing_binding) option"

record pairing_state =
  pz_codes :: "pairing_code jmap"
  pz_hosted :: hosted_state

section \<open>Operations\<close>

definition bindingOf :: "enrollment_input \<Rightarrow> pairing_binding" where
  "bindingOf i =
     \<lparr>pb_deviceName = en_deviceName i, pb_devicePublicKey = en_devicePublicKey i, pb_proofKeyId = en_proofKeyId i,
      pb_proofKeyEpoch = en_proofKeyEpoch i, pb_machineId = en_machineId i\<rparr>"

definition sameBinding :: "pairing_binding \<Rightarrow> pairing_binding \<Rightarrow> bool" where
  "sameBinding l r =
     (pb_deviceName l = pb_deviceName r \<and> pb_devicePublicKey l = pb_devicePublicKey r \<and>
      pb_proofKeyId l = pb_proofKeyId r \<and> pb_proofKeyEpoch l = pb_proofKeyEpoch r \<and> pb_machineId l = pb_machineId r)"

definition pairing_issue_code ::
  "(string \<Rightarrow> int option) \<Rightarrow> tenant \<Rightarrow> pairing_issue \<Rightarrow> pairing_state \<Rightarrow> pairing_info \<times> pairing_state" where
  "pairing_issue_code other t i s =
     (\<lparr>pf_code = pi_code i, pf_expiresAt = pi_expiresAt i\<rparr>,
      s\<lparr>pz_codes := jset (pi_code i)
          \<lparr>pk_claims = \<lparr>pc_tenantId = t, pc_productId = pi_productId i\<rparr>,
           pk_expiresAtMs = js_date_parse other (pi_expiresAt i), pk_used = False, pk_completion = None\<rparr> (pz_codes s)\<rparr>)"

definition enrollment_registration :: "pairing_claims \<Rightarrow> enrollment_input \<Rightarrow> device_registration" where
  "enrollment_registration c i =
     \<lparr>dg_productId = pc_productId c, dg_deviceId = en_deviceId i, dg_deviceName = en_deviceName i,
      dg_devicePublicKey = en_devicePublicKey i, dg_proofKeyId = en_proofKeyId i, dg_proofKeyEpoch = en_proofKeyEpoch i,
      dg_machineId = en_machineId i\<rparr>"

definition code_expired :: "int \<Rightarrow> pairing_code \<Rightarrow> bool" where
  "code_expired now rec = (case pk_expiresAtMs rec of None \<Rightarrow> False | Some e \<Rightarrow> now > e)"

definition redeemAndRegister ::
  "enrollment_input \<Rightarrow> int \<Rightarrow> pairing_state \<Rightarrow> (mailbox_error + device_record option) \<times> pairing_state" where
  "redeemAndRegister i now s =
     (case jget (pz_codes s) (en_pairingCode i) of
        None \<Rightarrow> (Inr None, s)
      | Some rec \<Rightarrow>
          if pk_used rec
          then (case pk_completion rec of
                  None \<Rightarrow> (Inr None, s)
                | Some (device, binding) \<Rightarrow>
                    if \<not> sameBinding binding (bindingOf i) then (Inr None, s)
                    else if device_get (dv_tenantId device) (dv_deviceId device) (hs_devices (pz_hosted s)) = None then (Inr None, s)
                    else (Inr (Some device), s))
          else if code_expired now rec then (Inr None, s)
          else (case device_register (pc_tenantId (pk_claims rec)) (enrollment_registration (pk_claims rec) i) now (pz_hosted s) of
                  (Inl e, h) \<Rightarrow> (Inl e, s\<lparr>pz_hosted := h\<rparr>)
                | (Inr device, h) \<Rightarrow>
                    (Inr (Some device),
                     s\<lparr>pz_codes := jset (en_pairingCode i)
                         (rec\<lparr>pk_used := True, pk_completion := Some (device, bindingOf i)\<rparr>) (pz_codes s),
                       pz_hosted := h\<rparr>)))"

definition code_due :: "tenant \<Rightarrow> string \<Rightarrow> string list \<Rightarrow> string \<times> pairing_code \<Rightarrow> bool" where
  "code_due t now inflight = (\<lambda>(code, rec).
     \<not> (pc_tenantId (pk_claims rec) \<noteq> t \<or> pk_used rec \<or>
        (case (pk_expiresAtMs rec, date_parse now) of (Some e, Some n) \<Rightarrow> e \<ge> n | _ \<Rightarrow> False) \<or>
        code \<in> set inflight))"

definition pairing_collectExpired ::
  "tenant \<Rightarrow> collect_expired_input \<Rightarrow> string list \<Rightarrow> pairing_state \<Rightarrow> (unit, collect_expired_result) result \<times> pairing_state" where
  "pairing_collectExpired t input inflight s =
     (case sweep_collect (code_due t (ci_now input) inflight) input (pz_codes s) of
        (r, codes) \<Rightarrow> (r, s\<lparr>pz_codes := codes\<rparr>))"

text \<open>One call: of the code store or of the stores it is composed with.\<close>

datatype pairing_op =
    PairIssue pairing_issue
  | PairRedeem enrollment_input int
  | PairCollect collect_expired_input "string list"
  | PairHost hosted_op

datatype pairing_answer =
    PairIssued pairing_info
  | PairEnrolled "mailbox_error + device_record option"
  | PairCollected "(unit, collect_expired_result) result"
  | PairHosted hosted_answer

fun pairing_exec ::
  "(string \<Rightarrow> json option) \<Rightarrow> (string \<Rightarrow> int option) \<Rightarrow> tenant \<Rightarrow> pairing_op \<Rightarrow> pairing_state \<Rightarrow> pairing_answer \<times> pairing_state" where
  "pairing_exec json_parse other t (PairIssue i) s = map_prod PairIssued id (pairing_issue_code other t i s)"
| "pairing_exec json_parse other t (PairRedeem i now) s = map_prod PairEnrolled id (redeemAndRegister i now s)"
| "pairing_exec json_parse other t (PairCollect i inflight) s = map_prod PairCollected id (pairing_collectExpired t i inflight s)"
| "pairing_exec json_parse other t (PairHost op) s =
     (case hosted_exec json_parse t op (pz_hosted s) of (r, h) \<Rightarrow> (PairHosted r, s\<lparr>pz_hosted := h\<rparr>))"

definition empty_pairing :: pairing_state where
  "empty_pairing = \<lparr>pz_codes = [], pz_hosted = empty_hosted\<rparr>"


section \<open>The invariant of the enrollment authority\<close>

definition code_ok :: "pairing_code \<Rightarrow> bool" where
  "code_ok rec = (isTenantId (pc_tenantId (pk_claims rec)) \<and> pk_used rec = (pk_completion rec \<noteq> None))"

definition pairing_inv :: "pairing_state \<Rightarrow> bool" where
  "pairing_inv s = (jmap_ok (pz_codes s) \<and> (\<forall>c rec. jget (pz_codes s) c = Some rec \<longrightarrow> code_ok rec) \<and> hosted_inv (pz_hosted s))"

fun enroll_call :: "tenant \<times> pairing_op \<Rightarrow> bool" where
  "enroll_call (t, PairHost op) = (isTenantId t \<and> port_op op)"
| "enroll_call (t, op) = isTenantId t"

lemma pairing_inv_empty [simp]: "pairing_inv empty_pairing"
  by (simp add: pairing_inv_def empty_pairing_def)

lemma enrolled_hosted_inv:
  "hosted_inv h \<Longrightarrow> isTenantId t \<Longrightarrow> hosted_inv (snd (device_register t input now h))"
  using hosted_exec_step [of h t "HRegister input now"] by simp

text \<open>What a redemption of an unused, unexpired code does.\<close>

lemma redeem_fresh:
  assumes "jget (pz_codes s) (en_pairingCode i) = Some rec" and "\<not> pk_used rec" and "\<not> code_expired now rec"
  shows "redeemAndRegister i now s =
    (case device_register (pc_tenantId (pk_claims rec)) (enrollment_registration (pk_claims rec) i) now (pz_hosted s) of
       (Inl e, h) \<Rightarrow> (Inl e, s\<lparr>pz_hosted := h\<rparr>)
     | (Inr device, h) \<Rightarrow>
         (Inr (Some device),
          s\<lparr>pz_codes := jset (en_pairingCode i) (rec\<lparr>pk_used := True, pk_completion := Some (device, bindingOf i)\<rparr>) (pz_codes s),
            pz_hosted := h\<rparr>))"
  using assms by (simp add: redeemAndRegister_def)

text \<open>Every other redemption answers without a change.\<close>

lemma redeem_stale:
  assumes "\<And>rec. jget (pz_codes s) (en_pairingCode i) = Some rec \<Longrightarrow> pk_used rec \<or> code_expired now rec"
  shows "snd (redeemAndRegister i now s) = s"
  using assms by (auto simp: redeemAndRegister_def split: option.splits)

lemma redeem_cases:
  obtains "snd (redeemAndRegister i now s) = s"
  | rec where "jget (pz_codes s) (en_pairingCode i) = Some rec" "\<not> pk_used rec" "\<not> code_expired now rec"
  using redeem_stale [of s i now] by metis

lemma redeem_inv:
  assumes "pairing_inv s"
  shows "pairing_inv (snd (redeemAndRegister i now s))"
proof (cases rule: redeem_cases [of i now s])
  case 1
  then show ?thesis using assms by simp
next
  case (2 rec)
  have ok: "isTenantId (pc_tenantId (pk_claims rec))" using assms 2(1) by (simp add: pairing_inv_def code_ok_def)
  obtain r h where d: "device_register (pc_tenantId (pk_claims rec)) (enrollment_registration (pk_claims rec) i) now (pz_hosted s) = (r, h)"
    by (cases "device_register (pc_tenantId (pk_claims rec)) (enrollment_registration (pk_claims rec) i) now (pz_hosted s)")
  have "hosted_inv h"
    using enrolled_hosted_inv [OF _ ok, of "pz_hosted s" "enrollment_registration (pk_claims rec) i" now] assms
    by (simp add: d pairing_inv_def)
  then show ?thesis
    using assms ok by (cases r) (auto simp: redeem_fresh [OF 2] d pairing_inv_def code_ok_def)
qed

lemma pairing_exec_inv:
  assumes "enroll_call (t, op)" and "pairing_inv s"
  shows "pairing_inv (snd (pairing_exec json_parse other t op s))"
proof (cases op)
  case (PairIssue i)
  then show ?thesis using assms by (auto simp: pairing_inv_def code_ok_def pairing_issue_code_def)
next
  case (PairRedeem i now)
  then show ?thesis using redeem_inv [OF assms(2)] by simp
next
  case (PairCollect i inflight)
  have ok: "jmap_ok (pz_codes s)" using assms(2) by (simp add: pairing_inv_def)
  show ?thesis
    using PairCollect assms(2)
    by (auto simp: pairing_inv_def pairing_collectExpired_def split_beta intro: sweep_collect_ok [OF ok] dest: sweep_collect_old [OF ok])
next
  case (PairHost h)
  then show ?thesis
    using assms hosted_exec_step [of "pz_hosted s" t h json_parse] by (simp add: pairing_inv_def split_beta)
qed

section \<open>A code is used once\<close>





definition sample_issue :: pairing_issue where
  "sample_issue = \<lparr>pi_code = ''K'', pi_productId = ''p'', pi_expiresAt = toISOString 1000\<rparr>"

definition sample_enrollment :: enrollment_input where
  "sample_enrollment = \<lparr>en_pairingCode = ''K'', en_deviceId = ''d'', en_deviceName = ''laptop'', en_devicePublicKey = ''pk'',
     en_proofKeyId = ''kid'', en_proofKeyEpoch = 1, en_machineId = None\<rparr>"

definition sample_minted :: pairing_state where
  "sample_minted = snd (pairing_issue_code (\<lambda>_. None) ''acme'' sample_issue empty_pairing)"

lemma sample_minted_ok: "pairing_inv sample_minted"
  using pairing_exec_inv [of "''acme''" "PairIssue sample_issue" empty_pairing "\<lambda>_. None" "\<lambda>_. None"] by (simp add: sample_minted_def)

lemma sample_minted_code:
  "jget (pz_codes sample_minted) ''K'' =
     Some \<lparr>pk_claims = \<lparr>pc_tenantId = ''acme'', pc_productId = ''p''\<rparr>, pk_expiresAtMs = Some 1000, pk_used = False, pk_completion = None\<rparr>"
  by (simp add: sample_minted_def pairing_issue_code_def sample_issue_def iso_instant_def js_date_parse_toISOString)

lemma sample_redeem:
  "\<exists>device s1. redeemAndRegister sample_enrollment 500 sample_minted = (Inr (Some device), s1)"
  using redeem_fresh [of sample_minted sample_enrollment _ 500] sample_minted_code
  by (simp add: sample_enrollment_def code_expired_def device_register_def superseded_rows_def enrollment_registration_def Let_def)


section \<open>A device enters where its code was minted\<close>

text \<open>
  Redemption of a valid code: it registers the device of the request, with its keys, in exactly
  the tenant and product the code was minted for, or it fails, and then no code is spent and every
  registration and attempt is as it was, so the same code can be tried again.
\<close>

theorem pairing_outcome:
  assumes "pairing_inv s" and "jget (pz_codes s) (en_pairingCode i) = Some rec" and "\<not> pk_used rec" and "\<not> code_expired now rec"
    and "redeemAndRegister i now s = (res, s')"
  shows "case res of
      Inl e \<Rightarrow> pz_codes s' = pz_codes s \<and> hs_tasks (pz_hosted s') = hs_tasks (pz_hosted s) \<and>
        (\<forall>t dev. device_get t dev (hs_devices (pz_hosted s')) = device_get t dev (hs_devices (pz_hosted s)))
    | Inr None \<Rightarrow> False
    | Inr (Some d) \<Rightarrow> dv_tenantId d = pc_tenantId (pk_claims rec) \<and> dv_productId d = pc_productId (pk_claims rec) \<and>
        dv_deviceId d = en_deviceId i \<and> dv_devicePublicKey d = en_devicePublicKey i \<and> dv_proofKeyId d = en_proofKeyId i \<and>
        dv_proofKeyEpoch d = en_proofKeyEpoch i \<and> device_get (dv_tenantId d) (dv_deviceId d) (hs_devices (pz_hosted s')) = Some d"
proof -
  let ?t = "pc_tenantId (pk_claims rec)" and ?reg = "enrollment_registration (pk_claims rec) i"
  have rows: "dir_rows (hs_devices (pz_hosted s))"
    using assms(1) hosted_invD(3) by (auto simp: pairing_inv_def dir_inv_def)
  obtain r h where d: "device_register ?t ?reg now (pz_hosted s) = (r, h)" by (cases "device_register ?t ?reg now (pz_hosted s)")
  note D = device_register_devices [of ?t ?reg now "pz_hosted s", unfolded d, simplified]
  show ?thesis
  proof (cases r)
    case (Inl e)
    have "hs_tasks h = hs_tasks (pz_hosted s)"
      using d Inl by (auto simp: device_register_def Let_def split: if_splits prod.splits option.splits)
    then show ?thesis
      using assms(5) D by (auto simp: redeem_fresh [OF assms(2-4)] d Inl device_get_def rolled_back_get [OF rows])
  next
    case (Inr x)
    have x: "x = registered_row ?t ?reg"
      using d Inr by (auto simp: device_register_def Let_def split: if_splits prod.splits option.splits)
    have get: "device_get ?t (en_deviceId i) (hs_devices h) = Some x"
      using D Inr by (simp add: device_get_def replaced_get [OF rows] x enrollment_registration_def)
    have "res = Inr (Some x)" "pz_hosted s' = h" using assms(5) by (auto simp: redeem_fresh [OF assms(2-4)] d Inr)
    moreover have "dv_tenantId x = ?t \<and> dv_productId x = pc_productId (pk_claims rec) \<and> dv_deviceId x = en_deviceId i \<and>
        dv_devicePublicKey x = en_devicePublicKey i \<and> dv_proofKeyId x = en_proofKeyId i \<and> dv_proofKeyEpoch x = en_proofKeyEpoch i"
      by (simp add: x registered_row_def enrollment_registration_def)
    ultimately show ?thesis using get by simp
  qed
qed

theorem pairing_outcome_witness:
  "case fst (redeemAndRegister sample_enrollment 500 sample_minted) of
     Inr (Some d) \<Rightarrow> dv_tenantId d = ''acme'' \<and> dv_productId d = ''p'' \<and> dv_deviceId d = ''d''
   | _ \<Rightarrow> False"
proof -
  obtain device s1 where r: "redeemAndRegister sample_enrollment 500 sample_minted = (Inr (Some device), s1)"
    using sample_redeem by blast
  have c: "jget (pz_codes sample_minted) (en_pairingCode sample_enrollment) =
      Some \<lparr>pk_claims = \<lparr>pc_tenantId = ''acme'', pc_productId = ''p''\<rparr>, pk_expiresAtMs = Some 1000, pk_used = False, pk_completion = None\<rparr>"
    using sample_minted_code by (simp add: sample_enrollment_def)
  show ?thesis
    using pairing_outcome [OF sample_minted_ok c _ _ r] r by (simp add: code_expired_def sample_enrollment_def)
qed

text \<open>The tenants and products that hold a code or a device.\<close>

definition minted :: "(tenant \<times> string) set \<Rightarrow> pairing_state \<Rightarrow> bool" where
  "minted I s =
     ((\<forall>c rec. jget (pz_codes s) c = Some rec \<longrightarrow> (pc_tenantId (pk_claims rec), pc_productId (pk_claims rec)) \<in> I) \<and>
      (\<forall>k r. jget (dd_byTenant (hs_devices (pz_hosted s))) k = Some r \<longrightarrow> (dv_tenantId r, dv_productId r) \<in> I))"

text \<open>The calls of a host that enrolls devices by code only.\<close>

fun enrolls_by_code :: "(tenant \<times> string) set \<Rightarrow> tenant \<times> pairing_op \<Rightarrow> bool" where
  "enrolls_by_code I (t, PairIssue i) = ((t, pi_productId i) \<in> I)"
| "enrolls_by_code I (t, PairHost (HRegister input now)) = False"
| "enrolls_by_code I _ = True"

lemma hosted_exec_rows:
  assumes "dir_rows (hs_devices h)" and "\<And>input now. op \<noteq> HRegister input now"
    and "jget (dd_byTenant (hs_devices (snd (hosted_exec json_parse t op h)))) k = Some r"
  shows "\<exists>r0. jget (dd_byTenant (hs_devices h)) k = Some r0 \<and> dv_tenantId r0 = dv_tenantId r \<and> dv_productId r0 = dv_productId r"
proof (cases op)
  case (HRevoke dev now)
  then show ?thesis
    using assms(3) by (auto simp: device_revoke_def Let_def simp del: tenantKey_one split: option.splits prod.splits sum.splits if_splits)
next
  case (HCapabilities dev hs caps)
  then show ?thesis
    using assms(3) by (auto simp: recordCapabilities_def Let_def simp del: tenantKey_one split: option.splits if_splits)
next
  case (HCancel input now)
  have "hs_devices (snd (cancel_request t input now h)) = hs_devices h"
    by (auto simp: cancel_request_def Let_def split: option.splits prod.splits sum.splits)
  then show ?thesis using assms(3) HCancel by simp
next
  case (HAbandon task cause now)
  then show ?thesis using assms(3) by (auto simp: abandonTask_def Let_def split: option.splits if_splits)
qed (use assms in \<open>auto simp: split_beta\<close>)

lemma minted_step:
  assumes "enroll_call (t, op)" and "enrolls_by_code I (t, op)" and "pairing_inv s" and "minted I s"
  shows "minted I (snd (pairing_exec json_parse other t op s))"
proof (cases op)
  case (PairIssue i)
  then show ?thesis using assms by (auto simp: minted_def pairing_issue_code_def)
next
  case (PairRedeem i now)
  show ?thesis
  proof (cases rule: redeem_cases [of i now s])
    case 1
    then show ?thesis using assms(4) PairRedeem by simp
  next
    case (2 rec)
    let ?t = "pc_tenantId (pk_claims rec)" and ?reg = "enrollment_registration (pk_claims rec) i"
    have rows: "dir_rows (hs_devices (pz_hosted s))"
      using assms(3) hosted_invD(3) by (auto simp: pairing_inv_def dir_inv_def)
    have c: "(?t, pc_productId (pk_claims rec)) \<in> I" using assms(4) 2(1) by (simp add: minted_def)
    obtain r h where d: "device_register ?t ?reg now (pz_hosted s) = (r, h)" by (cases "device_register ?t ?reg now (pz_hosted s)")
    note D = device_register_devices [of ?t ?reg now "pz_hosted s", unfolded d, simplified]
    have "(dv_tenantId x, dv_productId x) \<in> I" if "jget (dd_byTenant (hs_devices h)) k = Some x" for k x
      using that assms(4) c unfolding D minted_def
      by (auto simp: rolled_back_get [OF rows] replaced_get [OF rows] enrollment_registration_def simp del: tenantKey_one
          split: sum.splits if_splits option.splits)
    then show ?thesis
      using assms(4) c PairRedeem by (cases r) (auto simp: redeem_fresh [OF 2] d minted_def)
  qed
next
  case (PairCollect i inflight)
  have ok: "jmap_ok (pz_codes s)" using assms(3) by (simp add: pairing_inv_def)
  show ?thesis
    using PairCollect assms(4)
    by (auto simp: minted_def pairing_collectExpired_def split_beta dest: sweep_collect_old [OF ok])
next
  case (PairHost h)
  have rows: "dir_rows (hs_devices (pz_hosted s))"
    using assms(3) hosted_invD(3) by (auto simp: pairing_inv_def dir_inv_def)
  have "op \<noteq> PairHost (HRegister input now)" for input now using assms(2) by auto
  then show ?thesis
    using PairHost assms(4) hosted_exec_rows [OF rows, of h json_parse t] by (fastforce simp: minted_def split_beta)
qed

interpretation minted_history:
  invariant_store "pairing_exec json_parse other" "\<lambda>c. enroll_call c \<and> enrolls_by_code I c"
    "\<lambda>s. pairing_inv s \<and> minted I s" for json_parse other I
  using pairing_exec_inv minted_step by unfold_locales auto

text \<open>
  Enrollment authority: in a composition whose devices enroll by pairing code, after any history
  of calls by any tenants, a device that is registered for a tenant and product stands there because
  that tenant minted a code for that product. Nothing a device sends, and no other tenant's code, can
  place a device elsewhere.
\<close>

theorem enrollment_authority:
  assumes "\<forall>c \<in> set ops. enroll_call c" and "\<forall>t input now. (t, PairHost (HRegister input now)) \<notin> set ops"
    and "isTenantId t"
    and "device_get t dev (hs_devices (pz_hosted (snd (run_ops (pairing_exec json_parse other) ops empty_pairing)))) = Some r"
  shows "\<exists>i. (t, PairIssue i) \<in> set ops \<and> pi_productId i = dv_productId r"
proof -
  let ?I = "{(u, pi_productId i) | u i. (u, PairIssue i) \<in> set ops}" and ?s = "snd (run_ops (pairing_exec json_parse other) ops empty_pairing)"
  have "enroll_call (u, op) \<and> enrolls_by_code ?I (u, op)" if "(u, op) \<in> set ops" for u op
    using assms(1,2) that by (cases "(?I, u, op)" rule: enrolls_by_code.cases) auto
  then have "pairing_inv ?s \<and> minted ?I ?s"
    using pairing_inv_empty by (intro minted_history.run_inv) (auto simp: minted_def empty_pairing_def empty_hosted_def)
  then have m: "minted ?I ?s" and inv: "pairing_inv ?s" by blast+
  then have "dir_rows (hs_devices (pz_hosted ?s))" using hosted_invD(3) by (auto simp: pairing_inv_def dir_inv_def)
  from dir_rows_get [OF this assms(4) [unfolded device_get_def]] have "dv_tenantId r = t" using assms(3) by auto
  then have "(t, dv_productId r) \<in> ?I" using m assms(4) by (auto simp: minted_def device_get_def)
  then show ?thesis by auto
qed

theorem enrollment_authority_witness:
  "\<exists>i. (''acme'', PairIssue i) \<in> set [(''acme'', PairIssue sample_issue), (''globex'', PairRedeem sample_enrollment 500)] \<and>
     pi_productId i = ''p''"
proof -
  let ?ops = "[(''acme'', PairIssue sample_issue), (''globex'', PairRedeem sample_enrollment 500)]"
  have m: "snd (pairing_issue_code (\<lambda>_. None) ''acme'' sample_issue empty_pairing) = sample_minted" by (simp add: sample_minted_def)
  obtain device s1 where r: "redeemAndRegister sample_enrollment 500 sample_minted = (Inr (Some device), s1)"
    using sample_redeem by blast
  have s1: "device_get ''acme'' ''d'' (hs_devices (pz_hosted s1)) = Some device" "dv_productId device = ''p''"
    using r sample_minted_code
    by (auto simp: redeemAndRegister_def sample_enrollment_def code_expired_def device_register_def superseded_rows_def
        enrollment_registration_def registered_row_def device_get_def Let_def)
  have "snd (run_ops (pairing_exec sample_parse (\<lambda>_. None)) ?ops empty_pairing) = s1"
    using r by (simp add: run_ops_step m del: run_ops.simps(2))
  then show ?thesis
    using enrollment_authority [of ?ops "''acme''" "''d''" sample_parse "\<lambda>_. None" device] s1
    by (simp del: run_ops.simps)
qed

end
