(* ===== verification/Cloud_Errors.thy ===== *)
theory Cloud_Errors
  imports Retention
begin

text \<open>
  The errors of the hosted stores (\<open>packages/cloud/src/errors.ts\<close>): the codes that the modelled
  stores raise, the core errors that pass through them, the two errors of the language their
  code can run into, the error of a schema whose \<open>parse\<close> refuses its input, and a plain \<open>Error\<close>. The message texts are left out.
\<close>

datatype cloud_error_code =
    Activity_history_gap
  | Activity_cursor_invalid
  | Activity_task_settled
  | Approval_timeline_settled
  | Coordination_input_invalid
  | Activity_batch_too_large
  | E2ee_member_state_unreadable
  | Task_content_redacted
  | Agent_capability_missing
  | Agent_memory_projection_task_mismatch
  | Agent_memory_projection_authorization_denied
  | Agent_memory_projection_sealing_mismatch
  | Agent_memory_projection_hash_mismatch
  | Agent_memory_projection_replay_mismatch
  | Agent_memory_projection_erased_epoch
  | Agent_memory_projection_sequence_gap
  | Agent_memory_projection_stale_epoch
  | Agent_memory_projection_epoch_exhausted

datatype cloud_error =
    ByokCloudError cloud_error_code
  | CoreFailure "unit core_error"
  | InvalidDate
  | TypeError
  | SchemaError
  | PlainError

text \<open>\<open>new Date(Date.parse(at) + ms).toISOString()\<close>.\<close>

definition stamp_after :: "(string \<Rightarrow> int option) \<Rightarrow> string \<Rightarrow> int \<Rightarrow> cloud_error + string" where
  "stamp_after other stamp ms =
     (case js_date_parse other stamp of
        None \<Rightarrow> Inl InvalidDate
      | Some n \<Rightarrow> if \<bar>n + ms\<bar> \<le> MAX_DATE then Inr (toISOString (n + ms)) else Inl InvalidDate)"

lemma stamp_after_iso:
  assumes "iso_instant n" and "\<bar>n + ms\<bar> \<le> MAX_DATE"
  shows "stamp_after other (toISOString n) ms = Inr (toISOString (n + ms))"
  using assms by (simp add: stamp_after_def)


end
