(* ===== verification/Drafts.thy ===== *)
theory Drafts
  imports Task_Attempts Cloud_Errors
begin

text \<open>
  The draft of a task's Agent message (\<open>packages/cloud/src/stores/in-memory/agent-message-draft.ts\<close>,
  types and the suffix reader of \<open>packages/cloud/src/agent-message-draft.ts\<close>): chunks of text arrive
  at byte offsets, some late, twice or not at all; a row holds what arrived without a hole. \<open>other\<close>
  is \<open>Date.parse\<close> on text that is not canonical.
\<close>

section \<open>Data\<close>

datatype draft_status = Draft_open | Draft_overflow | Draft_gap

datatype draft_result = Draft_applied | Draft_stale | Draft_refused draft_status

record draft_row =
  dr_taskId :: string
  dr_deviceId :: string
  dr_agentRef :: agent_ref
  dr_revision :: int
  dr_text :: string
  dr_byteCount :: int
  dr_state :: draft_status
  dr_updatedAt :: string
  dr_expiresAt :: string

record draft_input =
  di_taskId :: string
  di_deviceId :: string
  di_agentRef :: agent_ref
  di_revision :: int
  di_offset :: int
  di_text :: string
  di_overflow :: bool
  di_maxBytes :: int
  di_now :: string

type_synonym draft_state = "draft_row jmap"

definition DEFAULT_ACTIVITY_TTL_MS :: int where "DEFAULT_ACTIVITY_TTL_MS = 10 * 60000"

section \<open>Operations\<close>

text \<open>A chunk that continues \<open>row\<close>; \<open>expiry\<close> is ten minutes after the input's instant.\<close>

definition draft_store ::
  "string \<Rightarrow> draft_input \<Rightarrow> cloud_error + string \<Rightarrow> draft_row \<Rightarrow> draft_state \<Rightarrow> (cloud_error + draft_result) \<times> draft_state" where
  "draft_store key i expiry row s =
     (let byteCount = dr_byteCount row + utf8_length (di_text i)
      in if byteCount > di_maxBytes i then (Inr (Draft_refused Draft_overflow), jset key (row\<lparr>dr_state := Draft_overflow\<rparr>) s)
         else case expiry of
           Inl e \<Rightarrow> (Inl e, s)
         | Inr expiresAt \<Rightarrow>
             (Inr Draft_applied,
              jset key (row\<lparr>dr_text := dr_text row @ di_text i, dr_byteCount := byteCount,
                dr_state := (if di_overflow i then Draft_overflow else Draft_open), dr_updatedAt := di_now i, dr_expiresAt := expiresAt\<rparr>) s))"

definition draft_fresh :: "draft_input \<Rightarrow> string \<Rightarrow> draft_row" where
  "draft_fresh i expiresAt =
     \<lparr>dr_taskId = di_taskId i, dr_deviceId = di_deviceId i, dr_agentRef = di_agentRef i, dr_revision = di_revision i,
      dr_text = [], dr_byteCount = 0, dr_state = Draft_open, dr_updatedAt = di_now i, dr_expiresAt = expiresAt\<rparr>"

definition draft_live :: "string \<Rightarrow> draft_row option \<Rightarrow> draft_row option" where
  "draft_live now row = (case row of None \<Rightarrow> None | Some r \<Rightarrow> if dr_expiresAt r \<le> now then None else Some r)"

text \<open>The first chunk of a revision opens a row, and only at offset 0.\<close>

definition draft_open ::
  "string \<Rightarrow> draft_input \<Rightarrow> cloud_error + string \<Rightarrow> draft_state \<Rightarrow> (cloud_error + draft_result) \<times> draft_state" where
  "draft_open key i expiry s =
     (if di_offset i \<noteq> 0 then (Inr (Draft_refused Draft_gap), s)
      else case expiry of Inl e \<Rightarrow> (Inl e, s) | Inr expiresAt \<Rightarrow> draft_store key i expiry (draft_fresh i expiresAt) s)"

definition draft_apply ::
  "(string \<Rightarrow> int option) \<Rightarrow> tenant \<Rightarrow> draft_input \<Rightarrow> draft_state \<Rightarrow> (cloud_error + draft_result) \<times> draft_state" where
  "draft_apply other t i s =
     (let key = tenantKey t [di_taskId i]; row = draft_live (di_now i) (jget s key);
          expiry = stamp_after other (di_now i) DEFAULT_ACTIVITY_TTL_MS
      in case row of
           None \<Rightarrow> draft_open key i expiry s
         | Some r \<Rightarrow>
             if di_revision i > dr_revision r then draft_open key i expiry s
             else if di_revision i < dr_revision r \<or> di_offset i < dr_byteCount r then (Inr Draft_stale, s)
             else if dr_state r \<noteq> Draft_open then (Inr (Draft_refused (dr_state r)), s)
             else if di_offset i > dr_byteCount r
             then (Inr (Draft_refused Draft_gap), jset key (r\<lparr>dr_state := Draft_gap\<rparr>) s)
             else draft_store key i expiry r s)"

definition draft_read :: "tenant \<Rightarrow> string \<Rightarrow> int \<Rightarrow> draft_state \<Rightarrow> draft_row option" where
  "draft_read t task now s = draft_live (toISOString now) (jget s (tenantKey t [task]))"

definition draft_delete :: "tenant \<Rightarrow> string \<Rightarrow> draft_state \<Rightarrow> draft_state" where
  "draft_delete t task s = jdel (tenantKey t [task]) s"

definition deleteAgentMessageDraft :: "tenant \<Rightarrow> string \<Rightarrow> draft_state \<Rightarrow> int \<times> draft_state" where
  "deleteAgentMessageDraft t task s =
     (if jget s (tenantKey t [task]) \<noteq> None then 1 else 0, jdel (tenantKey t [task]) s)"

definition sweepExpired :: "string \<Rightarrow> draft_state \<Rightarrow> draft_state" where
  "sweepExpired now s = filter (\<lambda>(_, row). \<not> dr_expiresAt row \<le> now) s"

section \<open>Reading the suffix\<close>

text \<open>
  The bytes of a text from a byte offset on, decoded strictly: an offset inside a character is an
  error of the decoder, an offset past the end leaves nothing.
\<close>

definition char_bytes :: "char \<Rightarrow> int" where
  "char_bytes c = (if of_char c < (128 :: nat) then 1 else 2)"

fun from_byte :: "string \<Rightarrow> int \<Rightarrow> string option" where
  "from_byte [] offset = Some []"
| "from_byte (c # s) offset =
     (if offset \<le> 0 then Some (c # s) else if offset < char_bytes c then None else from_byte s (offset - char_bytes c))"

definition agentMessageDraftSuffix :: "string \<Rightarrow> (int \<times> jsnum) option \<Rightarrow> int \<Rightarrow> cloud_error + int \<times> string" where
  "agentMessageDraftSuffix text cursor revision =
     (case cursor of
        None \<Rightarrow> Inr (0, text)
      | Some (r, offset) \<Rightarrow>
          if r \<noteq> revision then Inr (0, text)
          else if \<not> isSafeInteger offset \<or> num_int offset < 0 then Inl (CoreFailure RangeError)
          else (case from_byte text (num_int offset) of None \<Rightarrow> Inl TypeError | Some rest \<Rightarrow> Inr (num_int offset, rest)))"

section \<open>A draft is a prefix of its message\<close>

lemma prefix_bytes_unique:
  assumes "prefix a m" and "prefix b m" and "utf8_length a = utf8_length b"
  shows "a = b"
proof -
  have "prefix a b \<or> prefix b a" using assms(1,2) prefix_same_cases by blast
  then show ?thesis
    using assms(3) by (auto simp: prefix_def utf8_length_zero)
qed

text \<open>A chunk of the message \<open>m\<close>: its text stands in \<open>m\<close> at its byte offset.\<close>

definition chunk_of :: "string \<Rightarrow> draft_input \<Rightarrow> bool" where
  "chunk_of m i = (\<exists>pre post. m = pre @ di_text i @ post \<and> utf8_length pre = di_offset i)"

definition row_of :: "(int \<Rightarrow> string) \<Rightarrow> draft_row \<Rightarrow> bool" where
  "row_of msg r = (prefix (dr_text r) (msg (dr_revision r)) \<and> dr_byteCount r = utf8_length (dr_text r))"

datatype draft_op =
    DraftApply draft_input
  | DraftRead string int
  | DraftDelete string
  | DraftSweep string

datatype draft_answer = DraftApplied "cloud_error + draft_result" | DraftFound "draft_row option" | DraftDone

fun draft_exec :: "(string \<Rightarrow> int option) \<Rightarrow> tenant \<Rightarrow> draft_op \<Rightarrow> draft_state \<Rightarrow> draft_answer \<times> draft_state" where
  "draft_exec other t (DraftApply i) s = map_prod DraftApplied id (draft_apply other t i s)"
| "draft_exec other t (DraftRead task now) s = (DraftFound (draft_read t task now s), s)"
| "draft_exec other t (DraftDelete task) s = (DraftDone, draft_delete t task s)"
| "draft_exec other t (DraftSweep now) s = (DraftDone, sweepExpired now s)"

text \<open>\<open>msg t task r\<close> is the message the device composes as revision \<open>r\<close>.\<close>

fun sends :: "(tenant \<Rightarrow> string \<Rightarrow> int \<Rightarrow> string) \<Rightarrow> tenant \<times> draft_op \<Rightarrow> bool" where
  "sends msg (t, DraftApply i) = (isTenantId t \<and> chunk_of (msg t (di_taskId i) (di_revision i)) i)"
| "sends msg (t, op) = isTenantId t"

definition draft_inv :: "(tenant \<Rightarrow> string \<Rightarrow> int \<Rightarrow> string) \<Rightarrow> draft_state \<Rightarrow> bool" where
  "draft_inv msg s = (jmap_ok s \<and>
     (\<forall>t task r. isTenantId t \<longrightarrow> jget s (tenantKey t [task]) = Some r \<longrightarrow> row_of (msg t task) r))"

lemma draft_write:
  assumes "draft_inv msg s" and "isTenantId t" and "row_of (msg t task) r"
  shows "draft_inv msg (jset (tenantKey t [task]) r s)"
  using assms by (auto simp: draft_inv_def)

lemma store_inv:
  assumes "draft_inv msg s" and "isTenantId t" and "row_of (msg t (di_taskId i)) r" and "dr_revision r = di_revision i"
    and "di_offset i = dr_byteCount r" and "chunk_of (msg t (di_taskId i) (di_revision i)) i"
  shows "draft_inv msg (snd (draft_store (tenantKey t [di_taskId i]) i expiry r s))"
proof -
  let ?m = "msg t (di_taskId i) (di_revision i)"
  obtain pre post where m: "?m = pre @ di_text i @ post" "utf8_length pre = di_offset i" using assms(6) by (auto simp: chunk_of_def)
  have "prefix (dr_text r) ?m" "utf8_length (dr_text r) = utf8_length pre"
    using assms(3-5) m(2) by (simp_all add: row_of_def)
  then have "dr_text r = pre" using m(1) prefix_bytes_unique [of "dr_text r" ?m pre] by (metis prefixI)
  then have "prefix (dr_text r @ di_text i) ?m" using m(1) by (metis append.assoc prefixI)
  then have "row_of (msg t (di_taskId i))
      (r\<lparr>dr_text := dr_text r @ di_text i, dr_byteCount := dr_byteCount r + utf8_length (di_text i), dr_state := a, dr_updatedAt := b, dr_expiresAt := c\<rparr>)" for a b c
    using assms(3,4) by (simp add: row_of_def)
  moreover have "row_of (msg t (di_taskId i)) (r\<lparr>dr_state := Draft_overflow\<rparr>)" using assms(3) by (simp add: row_of_def)
  ultimately show ?thesis
    using assms(1) draft_write [OF assms(1,2)] by (simp add: draft_store_def Let_def del: tenantKey_one split: sum.splits)
qed

lemma open_inv:
  assumes "draft_inv msg s" and "isTenantId t" and "chunk_of (msg t (di_taskId i) (di_revision i)) i"
  shows "draft_inv msg (snd (draft_open (tenantKey t [di_taskId i]) i expiry s))"
proof -
  have "row_of (msg t (di_taskId i)) (draft_fresh i x)" "dr_revision (draft_fresh i x) = di_revision i" "dr_byteCount (draft_fresh i x) = 0" for x
    by (simp_all add: row_of_def draft_fresh_def)
  then show ?thesis
    using assms store_inv [OF assms(1,2)] by (simp add: draft_open_def del: tenantKey_one split: sum.splits)
qed

lemma apply_inv:
  assumes "draft_inv msg s" and "isTenantId t" and "chunk_of (msg t (di_taskId i) (di_revision i)) i"
  shows "draft_inv msg (snd (draft_apply other t i s))"
proof (cases "draft_live (di_now i) (jget s (tenantKey t [di_taskId i]))")
  case None
  then show ?thesis using open_inv [OF assms] by (simp add: draft_apply_def Let_def)
next
  case (Some r)
  then have r: "jget s (tenantKey t [di_taskId i]) = Some r" by (auto simp: draft_live_def split: option.splits if_splits)
  then have row: "row_of (msg t (di_taskId i)) r" using assms(1,2) by (simp add: draft_inv_def)
  then have "row_of (msg t (di_taskId i)) (r\<lparr>dr_state := Draft_gap\<rparr>)" by (simp add: row_of_def)
  then show ?thesis
    using Some assms(1) open_inv [OF assms] store_inv [OF assms(1,2) row _ _ assms(3)] draft_write [OF assms(1,2)]
    by (simp add: draft_apply_def Let_def del: tenantKey_one)
qed

lemma draft_exec_inv:
  assumes "sends msg (t, op)" and "draft_inv msg s"
  shows "draft_inv msg (snd (draft_exec other t op s))"
proof (cases op)
  case (DraftApply i)
  then show ?thesis using assms apply_inv by simp
next
  case (DraftDelete task)
  then show ?thesis using assms(2) by (auto simp: draft_inv_def draft_delete_def split: if_splits)
next
  case (DraftSweep now)
  have ok: "jmap_ok s" using assms(2) by (simp add: draft_inv_def)
  show ?thesis
    using DraftSweep assms(2) by (auto simp: draft_inv_def sweepExpired_def jget_filter [OF ok] split: option.splits if_splits)
qed (use assms in simp)

interpretation draft_history: invariant_store "draft_exec other" "sends msg" "draft_inv msg" for other msg
  using draft_exec_inv by unfold_locales blast

text \<open>
  C14. A draft is never garbled: whatever chunks of a task's message arrive, in any order, late,
  repeated or lost, mixed with the calls of any tenants, deletions and sweeps, a draft that is read
  holds a prefix of the message of its revision, and its byte count is the length of that prefix.
\<close>

theorem draft_is_prefix:
  assumes "\<forall>c \<in> set ops. sends msg c" and "isTenantId t"
    and "draft_read t task now (snd (run_ops (draft_exec other) ops [])) = Some r"
  shows "prefix (dr_text r) (msg t task (dr_revision r)) \<and> dr_byteCount r = utf8_length (dr_text r)"
proof -
  have "draft_inv msg []" by (simp add: draft_inv_def)
  from draft_history.run_inv [OF assms(1) this] assms(2,3) show ?thesis
    by (auto simp: draft_inv_def row_of_def draft_read_def draft_live_def simp del: tenantKey_one split: option.splits if_splits)
qed

definition sample_chunk :: "int \<Rightarrow> string \<Rightarrow> draft_input" where
  "sample_chunk off chunk = \<lparr>di_taskId = ''t'', di_deviceId = ''d'', di_agentRef = \<lparr>ar_agentId = ''a'', ar_profileRevision = ''1''\<rparr>,
     di_revision = 1, di_offset = off, di_text = chunk, di_overflow = False, di_maxBytes = 100, di_now = toISOString 0\<rparr>"

theorem draft_is_prefix_witness:
  "\<exists>r. draft_read ''acme'' ''t'' 5
       (snd (run_ops (draft_exec (\<lambda>_. None)) [(''acme'', DraftApply (sample_chunk 0 ''he'')), (''acme'', DraftApply (sample_chunk 2 ''y''))] [])) = Some r \<and>
     prefix (dr_text r) ''hey''"
proof -
  let ?ops = "[(''acme'', DraftApply (sample_chunk 0 ''he'')), (''acme'', DraftApply (sample_chunk 2 ''y''))]"
  have "chunk_of ''hey'' (sample_chunk 0 ''he'')"
    unfolding chunk_of_def by (intro exI [of _ "''''"] exI [of _ "''y''"]) (simp add: sample_chunk_def)
  moreover have "chunk_of ''hey'' (sample_chunk 2 ''y'')"
    unfolding chunk_of_def by (intro exI [of _ "''he''"] exI [of _ "''''"]) (simp add: sample_chunk_def utf8_length_def)
  moreover have "case draft_read ''acme'' ''t'' 5 (snd (run_ops (draft_exec (\<lambda>_. None)) ?ops [])) of
      Some r \<Rightarrow> True | None \<Rightarrow> False" by code_simp
  ultimately show ?thesis
    using draft_is_prefix [of ?ops "\<lambda>_ _ _. ''hey''" "''acme''" "''t''" 5 "\<lambda>_. None"]
    by (auto simp del: run_ops.simps split: option.splits)
qed

section \<open>A reader that keeps its cursor\<close>

lemma from_byte_suffix: "from_byte (pre @ rest) (utf8_length pre) = Some rest"
proof (induction pre)
  case Nil
  then show ?case by (cases rest) simp_all
next
  case (Cons c pre)
  have "utf8_length (c # pre) = char_bytes c + utf8_length pre" "0 < char_bytes c" "0 \<le> utf8_length pre"
    by (simp_all add: utf8_length_Cons char_bytes_def)
  then show ?case using Cons by (simp del: utf8_length_nonneg)
qed

text \<open>
  Reading the rest: a reader that already holds a prefix of the draft and asks from its byte
  length gets exactly the text that is missing, never an error and never a broken character; a
  reader of another revision gets the whole text.
\<close>

theorem draft_suffix_completes:
  assumes "prefix held text" and "utf8_length held \<le> MAX_SAFE_INTEGER"
  shows "\<exists>rest. agentMessageDraftSuffix text (Some (r, Fin (of_int (utf8_length held)))) revision =
      Inr (if r = revision then (utf8_length held, rest) else (0, text)) \<and> held @ rest = text"
proof -
  obtain rest where "text = held @ rest" using assms(1) by (auto simp: prefix_def)
  then show ?thesis
    using assms(2) from_byte_suffix [of held rest] utf8_length_nonneg [of held]
    by (auto simp: agentMessageDraftSuffix_def simp del: utf8_length_nonneg)
qed

theorem draft_suffix_completes_witness:
  "agentMessageDraftSuffix ''hello'' (Some (3, Fin (of_int (utf8_length ''he'')))) 3 = Inr (2, ''llo'')"
proof -
  have "prefix ''he'' ''hello''" "utf8_length ''he'' = 2" "(2 :: int) \<le> MAX_SAFE_INTEGER"
    by (simp_all add: utf8_length_def MAX_SAFE_INTEGER_def)
  with draft_suffix_completes [of "''he''" "''hello''" 3 3] show ?thesis by auto
qed

end
