(* ===== verification/Activity.thy ===== *)
theory Activity
  imports Cloud_Errors Json
begin

text \<open>
  The task activity log (\<open>packages/cloud/src/stores/in-memory/activity.ts\<close> with the types, bounds
  and helpers of \<open>packages/cloud/src/activity.ts\<close> and \<open>sealed-comparison.ts\<close>): a bounded log per
  task, resumed by revision, fenced by source envelope and closed when the task's output closes. An
  append computes its hash before it reads the log, so what it does to the log is one step.

  Parameters: \<open>ntext\<close> prints numbers that are not integers, \<open>digest\<close> is SHA-256 in hexadecimal,
  \<open>schema\<close> the zod check of the payload, \<open>other\<close> is \<open>Date.parse\<close> on text that is not canonical;
  \<open>uuid\<close> is the identifier a new log draws.
\<close>

section \<open>Data\<close>

datatype activity_content =
    Progress (content_batchSeq: int) (content_dropped: int) "json list"
  | Sealed_progress (content_batchSeq: int) (content_dropped: int) json
  | Artifact json

record activity_entry =
  ae_taskId :: string
  ae_sourceEnvelopeId :: string
  ae_revision :: int
  ae_receivedAt :: string
  ae_content :: activity_content

record activity_cursor =
  ac_version :: int
  ac_tenantId :: tenant
  ac_taskId :: string
  ac_generation :: string
  ac_revision :: int

record activity_tail =
  at_tenantId :: tenant
  at_taskId :: string
  at_entries :: "activity_entry list"
  at_cursor :: activity_cursor
  at_floor :: int
  at_after :: int
  at_dropped :: int
  at_sourceDropped :: int
  at_capacity :: int
  at_byteCapacity :: int
  at_retainedBytes :: int
  at_terminalAt :: "string option"
  at_expiresAt :: "string option"

record activity_input =
  ai_taskId :: string
  ai_sourceEnvelopeId :: string
  ai_ttlMs :: jsnum
  ai_capacity :: "jsnum option"
  ai_byteCapacity :: "jsnum option"
  ai_content :: activity_content

text \<open>
  The cursor a reader hands back: one of this log, the two numbers of the log format before it, or
  any other value.
\<close>

record activity_position =
  ap_version :: jsnum
  ap_tenantId :: tenant
  ap_taskId :: string
  ap_generation :: string
  ap_revision :: jsnum

datatype activity_after = LogPosition activity_position | LegacyPosition jsnum jsnum | OddPosition

record task_log =
  lg_tail :: activity_tail
  lg_ttlMs :: int
  lg_fences :: "string jmap"
  lg_removed :: bool

type_synonym activity_state = "task_log jmap"

section \<open>Bounds, canonical bytes and the source hash\<close>

definition DEFAULT_ACTIVITY_CAPACITY :: int where "DEFAULT_ACTIVITY_CAPACITY = 1000"
definition MAX_ACTIVITY_BYTES :: int where "MAX_ACTIVITY_BYTES = 4 * 1024 * 1024"
definition ACTIVITY_TERMINAL_TTL_MS :: int where "ACTIVITY_TERMINAL_TTL_MS = 10 * 60000"

definition in_bounds :: "jsnum \<Rightarrow> int \<Rightarrow> bool" where
  "in_bounds n hi = (isSafeInteger n \<and> 1 \<le> num_int n \<and> num_int n \<le> hi)"

definition input_capacity :: "activity_input \<Rightarrow> jsnum" where
  "input_capacity i = (case ai_capacity i of None \<Rightarrow> Fin (of_int DEFAULT_ACTIVITY_CAPACITY) | Some n \<Rightarrow> n)"

definition input_byteCapacity :: "activity_input \<Rightarrow> jsnum" where
  "input_byteCapacity i = (case ai_byteCapacity i of None \<Rightarrow> Fin (of_int MAX_ACTIVITY_BYTES) | Some n \<Rightarrow> n)"

definition validateActivityAppend :: "(activity_input \<Rightarrow> bool) \<Rightarrow> activity_input \<Rightarrow> cloud_error + int" where
  "validateActivityAppend schema i =
     (if \<not> (in_bounds (input_capacity i) DEFAULT_ACTIVITY_CAPACITY \<and> in_bounds (input_byteCapacity i) MAX_ACTIVITY_BYTES \<and>
            in_bounds (ai_ttlMs i) ACTIVITY_TERMINAL_TTL_MS)
      then Inl (ByokCloudError Coordination_input_invalid)
      else if \<not> schema i then Inl (ByokCloudError Coordination_input_invalid)
      else Inr (num_int (input_capacity i)))"

definition jint :: "int \<Rightarrow> json" where
  "jint z = JNumber (Fin (of_int z))"

text \<open>The fields of an entry, in the order in which \<open>createActivityEntry\<close> sets them.\<close>

fun content_fields :: "activity_content \<Rightarrow> (string \<times> json) list" where
  "content_fields (Progress b d evs) =
     [(''batchSeq'', jint b), (''sourceDropped'', jint d), (''kind'', JString ''progress''), (''events'', JArray evs)]"
| "content_fields (Sealed_progress b d sealed) =
     [(''batchSeq'', jint b), (''sourceDropped'', jint d), (''kind'', JString ''sealed-progress''), (''sealed'', sealed)]"
| "content_fields (Artifact a) = [(''kind'', JString ''artifact''), (''artifact'', a)]"

definition entry_json :: "activity_entry \<Rightarrow> json" where
  "entry_json e = JObject
     ([(''taskId'', JString (ae_taskId e)), (''sourceEnvelopeId'', JString (ae_sourceEnvelopeId e)),
       (''revision'', jint (ae_revision e)), (''receivedAt'', JString (ae_receivedAt e))] @ content_fields (ae_content e))"

definition activityEntryBytes :: "(rat \<Rightarrow> string) \<Rightarrow> activity_entry \<Rightarrow> int" where
  "activityEntryBytes ntext e = utf8_length (canonicalActivityJson ntext (entry_json e))"

definition createActivityEntry :: "activity_input \<Rightarrow> int \<Rightarrow> string \<Rightarrow> activity_entry" where
  "createActivityEntry i revision receivedAt =
     \<lparr>ae_taskId = ai_taskId i, ae_sourceEnvelopeId = ai_sourceEnvelopeId i, ae_revision = revision,
      ae_receivedAt = receivedAt, ae_content = ai_content i\<rparr>"

fun source_fields :: "activity_content \<Rightarrow> (string \<times> json) list" where
  "source_fields (Progress b d evs) = [(''batchSeq'', jint b), (''dropped'', jint d), (''events'', JArray evs)]"
| "source_fields (Sealed_progress b d sealed) = [(''batchSeq'', jint b), (''dropped'', jint d), (''sealed'', sealed)]"
| "source_fields (Artifact a) = [(''artifact'', a)]"

definition activitySourceHash :: "(rat \<Rightarrow> string) \<Rightarrow> (string \<Rightarrow> string) \<Rightarrow> activity_input \<Rightarrow> string" where
  "activitySourceHash ntext digest i =
     digest (canonicalActivityJson ntext (JObject (sealedComparisonProjection
       ([(''taskId'', JString (ai_taskId i)), (''sourceEnvelopeId'', JString (ai_sourceEnvelopeId i))] @ source_fields (ai_content i)))))"

section \<open>Operations\<close>

definition newLog :: "tenant \<Rightarrow> string \<Rightarrow> string \<Rightarrow> task_log" where
  "newLog t task uuid =
     \<lparr>lg_tail =
        \<lparr>at_tenantId = t, at_taskId = task, at_entries = [],
         at_cursor = \<lparr>ac_version = 1, ac_tenantId = t, ac_taskId = task, ac_generation = uuid, ac_revision = 0\<rparr>,
         at_floor = 0, at_after = 0, at_dropped = 0, at_sourceDropped = 0, at_capacity = DEFAULT_ACTIVITY_CAPACITY,
         at_byteCapacity = MAX_ACTIVITY_BYTES, at_retainedBytes = 0, at_terminalAt = None, at_expiresAt = None\<rparr>,
      lg_ttlMs = ACTIVITY_TERMINAL_TTL_MS, lg_fences = [], lg_removed = False\<rparr>"

definition log_or_new :: "tenant \<Rightarrow> string \<Rightarrow> string \<Rightarrow> activity_state \<Rightarrow> task_log" where
  "log_or_new t task uuid s = (case jget s (tenantKey t [task]) of None \<Rightarrow> newLog t task uuid | Some lg \<Rightarrow> lg)"

text \<open>The content goes, the revision stays as the floor.\<close>

definition emptied :: "activity_tail \<Rightarrow> activity_tail" where
  "emptied tail = tail\<lparr>at_entries := [], at_retainedBytes := 0, at_floor := ac_revision (at_cursor tail)\<rparr>"

definition deleteActivityTail :: "tenant \<Rightarrow> string \<Rightarrow> string \<Rightarrow> activity_state \<Rightarrow> int \<times> activity_state" where
  "deleteActivityTail t task uuid s =
     (let key = tenantKey t [task]; lg = log_or_new t task uuid s;
          existed = (jget s key \<noteq> None \<and> \<not> lg_removed lg \<and> ac_revision (at_cursor (lg_tail lg)) > 0)
      in (if existed then 1 else 0, jset key (lg\<lparr>lg_tail := emptied (lg_tail lg), lg_removed := True\<rparr>) s))"

definition closeActivityLog ::
  "(string \<Rightarrow> int option) \<Rightarrow> tenant \<Rightarrow> string \<Rightarrow> string \<Rightarrow> string \<Rightarrow> activity_state \<Rightarrow> (cloud_error + unit) \<times> activity_state" where
  "closeActivityLog other t task terminalAt uuid s =
     (let key = tenantKey t [task]; lg = log_or_new t task uuid s
      in if lg_removed lg \<or> at_terminalAt (lg_tail lg) \<noteq> None then (Inr (), s)
         else case stamp_after other terminalAt (lg_ttlMs lg) of
                Inl e \<Rightarrow> (Inl e, s)
              | Inr expiresAt \<Rightarrow>
                  (Inr (), jset key (lg\<lparr>lg_tail := (lg_tail lg)\<lparr>at_terminalAt := Some terminalAt, at_expiresAt := Some expiresAt\<rparr>\<rparr>) s))"

definition tail_expired :: "string \<Rightarrow> activity_tail \<Rightarrow> bool" where
  "tail_expired now tail = (case at_expiresAt tail of None \<Rightarrow> False | Some x \<Rightarrow> x \<le> now)"

definition expire_log :: "int \<Rightarrow> task_log \<Rightarrow> task_log" where
  "expire_log now lg = (if tail_expired (toISOString now) (lg_tail lg) then lg\<lparr>lg_tail := emptied (lg_tail lg)\<rparr> else lg)"

text \<open>The eviction loop; \<open>None\<close> is a \<open>shift\<close> on an empty array, whose result the code reads.\<close>

fun evict ::
  "(activity_entry \<Rightarrow> int) \<Rightarrow> int \<Rightarrow> int \<Rightarrow> activity_entry list \<Rightarrow> int \<Rightarrow> int \<Rightarrow> int \<Rightarrow> (activity_entry list \<times> int \<times> int \<times> int) option" where
  "evict bytes capacity byteCapacity [] retained fl evicted =
     (if 0 > capacity \<or> retained > byteCapacity then None else Some ([], retained, fl, evicted))"
| "evict bytes capacity byteCapacity (e # es) retained fl evicted =
     (if int (length (e # es)) > capacity \<or> retained > byteCapacity
      then evict bytes capacity byteCapacity es (retained - bytes e) (ae_revision e) (evicted + 1)
      else Some (e # es, retained, fl, evicted))"

fun declared_dropped :: "activity_content \<Rightarrow> int" where
  "declared_dropped (Artifact _) = 0"
| "declared_dropped c = content_dropped c"

definition activity_append ::
  "(rat \<Rightarrow> string) \<Rightarrow> (string \<Rightarrow> string) \<Rightarrow> (activity_input \<Rightarrow> bool) \<Rightarrow> tenant \<Rightarrow> activity_input \<Rightarrow> string \<Rightarrow> int \<Rightarrow>
   activity_state \<Rightarrow> (cloud_error + activity_tail) \<times> activity_state" where
  "activity_append ntext digest schema t i uuid now s =
     (case validateActivityAppend schema i of
        Inl e \<Rightarrow> (Inl e, s)
      | Inr capacity \<Rightarrow>
          let hash = activitySourceHash ntext digest i; key = tenantKey t [ai_taskId i];
              lg = log_or_new t (ai_taskId i) uuid s; tail = lg_tail lg; byteCapacity = num_int (input_byteCapacity i)
          in if lg_removed lg then (Inl (ByokCloudError Activity_history_gap), s)
             else case jget (lg_fences lg) (ai_sourceEnvelopeId i) of
               Some fence \<Rightarrow>
                 if fence \<noteq> hash then (Inl (ByokCloudError Coordination_input_invalid), s)
                 else (Inr (lg_tail (expire_log now lg)), jset key (expire_log now lg) s)
             | None \<Rightarrow>
                 if at_terminalAt tail \<noteq> None then (Inl (ByokCloudError Activity_task_settled), s)
                 else if jget s key \<noteq> None \<and>
                   (capacity \<noteq> at_capacity tail \<or> byteCapacity \<noteq> at_byteCapacity tail \<or> num_int (ai_ttlMs i) \<noteq> lg_ttlMs lg)
                 then (Inl (ByokCloudError Coordination_input_invalid), s)
                 else
                   let revision = ac_revision (at_cursor tail) + 1;
                       entry = createActivityEntry i revision (toISOString now);
                       bytes = activityEntryBytes ntext entry
                   in if \<not> revision \<le> MAX_SAFE_INTEGER then (Inl (ByokCloudError Coordination_input_invalid), s)
                      else if bytes > byteCapacity then (Inl (ByokCloudError Activity_batch_too_large), s)
                      else case evict (activityEntryBytes ntext) capacity byteCapacity (at_entries tail @ [entry])
                                  (at_retainedBytes tail + bytes) (at_floor tail) 0 of
                        None \<Rightarrow> (Inl TypeError, s)
                      | Some (es, retained, fl, evicted) \<Rightarrow>
                          let tail' = tail\<lparr>at_entries := es, at_cursor := (at_cursor tail)\<lparr>ac_revision := revision\<rparr>,
                                at_floor := fl, at_dropped := at_dropped tail + evicted,
                                at_sourceDropped := at_sourceDropped tail + declared_dropped (ai_content i),
                                at_capacity := capacity, at_byteCapacity := byteCapacity, at_retainedBytes := retained\<rparr>
                          in (Inr tail', jset key (lg\<lparr>lg_tail := tail', lg_ttlMs := num_int (ai_ttlMs i),
                                lg_fences := jset (ai_sourceEnvelopeId i) hash (lg_fences lg)\<rparr>) s))"

definition activity_settle ::
  "(string \<Rightarrow> int option) \<Rightarrow> tenant \<Rightarrow> string \<Rightarrow> string \<Rightarrow> string \<Rightarrow> int \<Rightarrow> activity_state \<Rightarrow> (cloud_error + activity_tail) \<times> activity_state" where
  "activity_settle other t task terminalAt uuid now s =
     (if (case js_date_parse other terminalAt of None \<Rightarrow> True | Some ms \<Rightarrow> toISOString ms \<noteq> terminalAt)
      then (Inl (ByokCloudError Coordination_input_invalid), s)
      else if (case jget s (tenantKey t [task]) of None \<Rightarrow> False | Some lg \<Rightarrow> lg_removed lg)
      then (Inl (ByokCloudError Activity_history_gap), s)
      else case closeActivityLog other t task terminalAt uuid s of
             (Inl e, s') \<Rightarrow> (Inl e, s')
           | (Inr _, s') \<Rightarrow>
               let lg = expire_log now (log_or_new t task uuid s')
               in (Inr (lg_tail lg), jset (tenantKey t [task]) lg s'))"

definition position_error :: "tenant \<Rightarrow> string \<Rightarrow> activity_after \<Rightarrow> cloud_error_code option" where
  "position_error t task after =
     (case after of
        LegacyPosition batchSeq eventIndex \<Rightarrow>
          if isSafeInteger batchSeq \<and> num_int batchSeq \<ge> 0 \<and> isSafeInteger eventIndex \<and> num_int eventIndex \<ge> 0
          then Some Activity_history_gap else Some Activity_cursor_invalid
      | OddPosition \<Rightarrow> Some Activity_cursor_invalid
      | LogPosition p \<Rightarrow>
          if ap_version p \<noteq> Fin 1 \<or> ap_tenantId p \<noteq> t \<or> ap_taskId p \<noteq> task \<or> \<not> isSafeInteger (ap_revision p) \<or>
             num_int (ap_revision p) < 0 \<or> ap_generation p = []
          then Some Activity_cursor_invalid else None)"

definition position_of :: "activity_after option \<Rightarrow> activity_position option" where
  "position_of after = (case after of Some (LogPosition p) \<Rightarrow> Some p | _ \<Rightarrow> None)"

definition activity_read ::
  "tenant \<Rightarrow> string \<Rightarrow> activity_after option \<Rightarrow> int \<Rightarrow> activity_state \<Rightarrow> (cloud_error + activity_tail option) \<times> activity_state" where
  "activity_read t task after now s =
     (case Option.bind after (position_error t task) of
        Some e \<Rightarrow> (Inl (ByokCloudError e), s)
      | None \<Rightarrow>
          let key = tenantKey t [task]; gap = Inl (ByokCloudError Activity_history_gap)
          in case jget s key of
               None \<Rightarrow> (if after \<noteq> None then gap else Inr None, s)
             | Some lg \<Rightarrow>
                 if lg_removed lg then (if after \<noteq> None then gap else Inr None, s)
                 else
                   let lg' = expire_log now lg; tail = lg_tail lg'; s' = jset key lg' s;
                       low = (case position_of after of None \<Rightarrow> 0 | Some p \<Rightarrow> num_int (ap_revision p))
                   in if (case position_of after of None \<Rightarrow> False
                          | Some p \<Rightarrow> ap_generation p \<noteq> ac_generation (at_cursor tail) \<or> num_int (ap_revision p) < at_floor tail)
                      then (gap, s')
                      else if after \<noteq> None \<and> low > ac_revision (at_cursor tail)
                      then (Inl (ByokCloudError Activity_cursor_invalid), s')
                      else if tail_expired (toISOString now) tail
                      then (if after \<noteq> None then gap else Inr None, s')
                      else (Inr (Some (tail\<lparr>at_after := low, at_entries := filter (\<lambda>e. ae_revision e > low) (at_entries tail)\<rparr>)), s'))"

definition log_due :: "tenant \<Rightarrow> string \<Rightarrow> task_log \<Rightarrow> bool" where
  "log_due t now lg =
     (\<not> (at_tenantId (lg_tail lg) \<noteq> t \<or> (case at_expiresAt (lg_tail lg) of None \<Rightarrow> True | Some x \<Rightarrow> x > now) \<or>
         at_entries (lg_tail lg) = []))"

text \<open>The loop of \<open>collectExpired\<close>: it empties the due logs in place.\<close>

fun empty_due :: "(task_log \<Rightarrow> bool) \<Rightarrow> int \<Rightarrow> int \<Rightarrow> activity_state \<Rightarrow> activity_state \<times> int \<times> bool" where
  "empty_due due limit removed [] = ([], removed, False)"
| "empty_due due limit removed ((key, lg) # m) =
     (if \<not> due lg then (case empty_due due limit removed m of (m', r, again) \<Rightarrow> ((key, lg) # m', r, again))
      else if removed = limit then ((key, lg) # m, removed, True)
      else (case empty_due due limit (removed + 1) m of
              (m', r, again) \<Rightarrow> ((key, lg\<lparr>lg_tail := emptied (lg_tail lg)\<rparr>) # m', r, again)))"

definition activity_collectExpired ::
  "tenant \<Rightarrow> collect_expired_input \<Rightarrow> activity_state \<Rightarrow> (cloud_error + collect_expired_result) \<times> activity_state" where
  "activity_collectExpired t input s =
     (case assertCollectExpiredInput input of
        Inl e \<Rightarrow> (Inl (CoreFailure e), s)
      | Inr _ \<Rightarrow>
          (case empty_due (log_due t (ci_now input)) (num_int (ci_limit input)) 0 s of
             (s', removed, again) \<Rightarrow>
               (Inr \<lparr>cc_removed = removed, cc_expired = 0, cc_releasedBytes = 0, cr_more = again\<rparr>, s')))"

section \<open>The eviction loop ends with the newest entries\<close>

definition entry_sum :: "(activity_entry \<Rightarrow> int) \<Rightarrow> activity_entry list \<Rightarrow> int" where
  "entry_sum bytes es = sum_list (map bytes es)"

lemma upto_ConsD: "x # xs = [l + 1..r] \<Longrightarrow> x = l + 1 \<and> xs = [(l + 1) + 1..r]" for l r :: int
  by (metis list.distinct(1) list.inject upto.simps)

lemma evict_spec:
  assumes "es \<noteq> []" and "1 \<le> capacity" and "bytes (last es) \<le> byteCapacity"
    and "retained = entry_sum bytes es" and "map ae_revision es = [fl + 1..r]"
  shows "\<exists>old new. es = old @ new \<and> new \<noteq> [] \<and> int (length new) \<le> capacity \<and> entry_sum bytes new \<le> byteCapacity \<and>
    map ae_revision new = [fl + int (length old) + 1..r] \<and>
    evict bytes capacity byteCapacity es retained fl evicted =
      Some (new, entry_sum bytes new, fl + int (length old), evicted + int (length old))"
  using assms
proof (induction bytes capacity byteCapacity es retained fl evicted rule: evict.induct)
  case (2 bytes capacity byteCapacity e es retained fl evicted)
  show ?case
  proof (cases "int (length (e # es)) > capacity \<or> retained > byteCapacity")
    case True
    then have ne: "es \<noteq> []" using 2(3-5) by (auto simp: entry_sum_def)
    have "ae_revision e # map ae_revision es = [fl + 1..r]" using 2(6) by simp
    note c = upto_ConsD [OF this]
    then have e: "ae_revision e = fl + 1" and es: "map ae_revision es = [ae_revision e + 1..r]" by simp_all
    have "bytes (last es) \<le> byteCapacity" "retained - bytes e = entry_sum bytes es"
      using 2(4,5) ne by (simp_all add: entry_sum_def)
    from 2(1) [OF True ne 2(3) this es] obtain old new where n: "es = old @ new" "new \<noteq> []" "int (length new) \<le> capacity" "entry_sum bytes new \<le> byteCapacity"
      "map ae_revision new = [ae_revision e + int (length old) + 1..r]"
      "evict bytes capacity byteCapacity es (retained - bytes e) (ae_revision e) (evicted + 1) =
        Some (new, entry_sum bytes new, ae_revision e + int (length old), evicted + 1 + int (length old))"
      by blast
    show ?thesis
      by (intro exI [of _ "e # old"] exI [of _ new]) (use n True e in \<open>auto simp: add.assoc\<close>)
  next
    case False
    then show ?thesis using 2(5,6) by (intro exI [of _ "[]"] exI [of _ "e # es"]) (auto simp: not_less entry_sum_def)
  qed
qed simp

section \<open>The log invariant\<close>

definition log_ok :: "(rat \<Rightarrow> string) \<Rightarrow> tenant \<Rightarrow> string \<Rightarrow> task_log \<Rightarrow> bool" where
  "log_ok ntext t task lg =
     (let tail = lg_tail lg; revision = ac_revision (at_cursor tail)
      in at_tenantId tail = t \<and> at_taskId tail = task \<and>
         at_floor tail \<le> revision \<and> 0 \<le> at_floor tail \<and> map ae_revision (at_entries tail) = [at_floor tail + 1..revision] \<and>
         at_retainedBytes tail = entry_sum (activityEntryBytes ntext) (at_entries tail) \<and>
         int (length (at_entries tail)) \<le> at_capacity tail \<and> at_retainedBytes tail \<le> at_byteCapacity tail \<and>
         1 \<le> at_capacity tail \<and> at_capacity tail \<le> DEFAULT_ACTIVITY_CAPACITY \<and>
         1 \<le> at_byteCapacity tail \<and> at_byteCapacity tail \<le> MAX_ACTIVITY_BYTES \<and>
         (at_terminalAt tail = None) = (at_expiresAt tail = None) \<and>
         (lg_removed lg \<longrightarrow> at_entries tail = []) \<and> 1 \<le> lg_ttlMs lg \<and> lg_ttlMs lg \<le> ACTIVITY_TERMINAL_TTL_MS \<and>
         distinct (map ae_sourceEnvelopeId (at_entries tail)) \<and>
         (\<forall>e \<in> set (at_entries tail). jget (lg_fences lg) (ae_sourceEnvelopeId e) \<noteq> None))"

text \<open>How a log moves: what it held, admitted or refused stays so.\<close>

definition log_le :: "task_log \<Rightarrow> task_log \<Rightarrow> bool" where
  "log_le a b =
     (ac_generation (at_cursor (lg_tail b)) = ac_generation (at_cursor (lg_tail a)) \<and>
      ac_revision (at_cursor (lg_tail a)) \<le> ac_revision (at_cursor (lg_tail b)) \<and>
      at_floor (lg_tail a) \<le> at_floor (lg_tail b) \<and>
      (\<forall>e \<in> set (at_entries (lg_tail b)). ae_revision e \<le> ac_revision (at_cursor (lg_tail a)) \<longrightarrow> e \<in> set (at_entries (lg_tail a))) \<and>
      (\<forall>x h. jget (lg_fences a) x = Some h \<longrightarrow> jget (lg_fences b) x = Some h) \<and>
      (at_terminalAt (lg_tail a) \<noteq> None \<longrightarrow>
         at_terminalAt (lg_tail b) = at_terminalAt (lg_tail a) \<and> at_expiresAt (lg_tail b) = at_expiresAt (lg_tail a) \<and>
         ac_revision (at_cursor (lg_tail b)) = ac_revision (at_cursor (lg_tail a))) \<and>
      (lg_removed a \<longrightarrow> lg_removed b))"

lemma log_le_refl [simp]: "log_le a a"
  by (simp add: log_le_def)

lemma log_le_trans: "log_le a b \<Longrightarrow> log_le b c \<Longrightarrow> log_le a c"
  unfolding log_le_def by (smt (verit) order_trans)

definition activity_inv :: "(rat \<Rightarrow> string) \<Rightarrow> activity_state \<Rightarrow> bool" where
  "activity_inv ntext s = (jmap_ok s \<and>
     (\<forall>k lg. jget s k = Some lg \<longrightarrow>
        (\<exists>t task. isTenantId t \<and> k = tenantKey t [task] \<and> log_ok ntext t task lg)))"

definition activity_le :: "activity_state \<Rightarrow> activity_state \<Rightarrow> bool" where
  "activity_le s s' = (\<forall>k lg. jget s k = Some lg \<longrightarrow> (\<exists>lg'. jget s' k = Some lg' \<and> log_le lg lg'))"

lemma activity_le_refl [simp]: "activity_le s s"
  by (simp add: activity_le_def)

lemma activity_le_trans: "activity_le a b \<Longrightarrow> activity_le b c \<Longrightarrow> activity_le a c"
  unfolding activity_le_def by (meson log_le_trans)

lemma activity_inv_log:
  assumes "activity_inv ntext s" and "isTenantId t" and "jget s (tenantKey t [task]) = Some lg"
  shows "log_ok ntext t task lg"
  using assms unfolding activity_inv_def by (metis tenantKey_one tenantKey_one_eq)

lemma newLog_ok: "log_ok ntext t task (newLog t task uuid)"
  by (simp add: log_ok_def newLog_def entry_sum_def DEFAULT_ACTIVITY_CAPACITY_def MAX_ACTIVITY_BYTES_def ACTIVITY_TERMINAL_TTL_MS_def)

lemma log_or_new_ok: "activity_inv ntext s \<Longrightarrow> isTenantId t \<Longrightarrow> log_ok ntext t task (log_or_new t task uuid s)"
  using activity_inv_log [of ntext s t task] by (simp add: log_or_new_def newLog_ok split: option.splits)

lemma log_write:
  assumes "activity_inv ntext s" and "isTenantId t" and "log_ok ntext t task lg'"
    and "log_le (log_or_new t task uuid s) lg'"
  shows "activity_inv ntext (jset (tenantKey t [task]) lg' s) \<and> activity_le s (jset (tenantKey t [task]) lg' s)"
  using assms by (auto simp: activity_inv_def activity_le_def log_or_new_def simp del: tenantKey_one)

lemma emptied_ok:
  assumes "log_ok ntext t task lg"
  shows "log_ok ntext t task (lg\<lparr>lg_tail := emptied (lg_tail lg)\<rparr>)" "log_le lg (lg\<lparr>lg_tail := emptied (lg_tail lg)\<rparr>)"
  using assms by (auto simp: log_ok_def log_le_def emptied_def entry_sum_def Let_def)

lemma removed_ok:
  assumes "log_ok ntext t task lg"
  shows "log_ok ntext t task (lg\<lparr>lg_tail := emptied (lg_tail lg), lg_removed := True\<rparr>)"
    "log_le lg (lg\<lparr>lg_tail := emptied (lg_tail lg), lg_removed := True\<rparr>)"
  using assms by (auto simp: log_ok_def log_le_def emptied_def entry_sum_def Let_def)

lemma expire_log_ok:
  assumes "log_ok ntext t task lg"
  shows "log_ok ntext t task (expire_log now lg)" "log_le lg (expire_log now lg)"
  using assms emptied_ok [OF assms] by (auto simp: expire_log_def)

lemma closed_ok:
  assumes "log_ok ntext t task lg" and "at_terminalAt (lg_tail lg) = None"
  shows "log_ok ntext t task (lg\<lparr>lg_tail := (lg_tail lg)\<lparr>at_terminalAt := Some x, at_expiresAt := Some y\<rparr>\<rparr>)"
    "log_le lg (lg\<lparr>lg_tail := (lg_tail lg)\<lparr>at_terminalAt := Some x, at_expiresAt := Some y\<rparr>\<rparr>)"
  using assms by (auto simp: log_ok_def log_le_def Let_def)

section \<open>An accepted append\<close>

definition appended_log ::
  "activity_entry list \<Rightarrow> int \<Rightarrow> int \<Rightarrow> int \<Rightarrow> int \<Rightarrow> string \<Rightarrow> activity_input \<Rightarrow> task_log \<Rightarrow> task_log" where
  "appended_log es retained fl evicted capacity hash i lg =
     lg\<lparr>lg_tail := (lg_tail lg)\<lparr>at_entries := es,
            at_cursor := (at_cursor (lg_tail lg))\<lparr>ac_revision := ac_revision (at_cursor (lg_tail lg)) + 1\<rparr>,
            at_floor := fl, at_dropped := at_dropped (lg_tail lg) + evicted,
            at_sourceDropped := at_sourceDropped (lg_tail lg) + declared_dropped (ai_content i),
            at_capacity := capacity, at_byteCapacity := num_int (input_byteCapacity i), at_retainedBytes := retained\<rparr>,
        lg_ttlMs := num_int (ai_ttlMs i), lg_fences := jset (ai_sourceEnvelopeId i) hash (lg_fences lg)\<rparr>"

definition next_entry :: "activity_input \<Rightarrow> int \<Rightarrow> task_log \<Rightarrow> activity_entry" where
  "next_entry i now lg = createActivityEntry i (ac_revision (at_cursor (lg_tail lg)) + 1) (toISOString now)"

lemma validate_Inr:
  "validateActivityAppend schema i = Inr capacity \<longleftrightarrow>
     in_bounds (input_capacity i) DEFAULT_ACTIVITY_CAPACITY \<and> in_bounds (input_byteCapacity i) MAX_ACTIVITY_BYTES \<and>
     in_bounds (ai_ttlMs i) ACTIVITY_TERMINAL_TTL_MS \<and> schema i \<and> capacity = num_int (input_capacity i)"
  by (auto simp: validateActivityAppend_def)

lemma appended_ok:
  assumes ok: "log_ok ntext t (ai_taskId i) lg" and f: "jget (lg_fences lg) (ai_sourceEnvelopeId i) = None"
    and open0: "at_terminalAt (lg_tail lg) = None" "\<not> lg_removed lg"
    and v: "validateActivityAppend schema i = Inr capacity"
    and b: "activityEntryBytes ntext (next_entry i now lg) \<le> num_int (input_byteCapacity i)"
  shows "\<exists>old new. at_entries (lg_tail lg) = old @ new \<and>
    evict (activityEntryBytes ntext) capacity (num_int (input_byteCapacity i)) (at_entries (lg_tail lg) @ [next_entry i now lg])
      (at_retainedBytes (lg_tail lg) + activityEntryBytes ntext (next_entry i now lg)) (at_floor (lg_tail lg)) 0 =
      Some (new @ [next_entry i now lg], entry_sum (activityEntryBytes ntext) (new @ [next_entry i now lg]),
        at_floor (lg_tail lg) + int (length old), int (length old)) \<and>
    (let lg' = appended_log (new @ [next_entry i now lg]) (entry_sum (activityEntryBytes ntext) (new @ [next_entry i now lg]))
        (at_floor (lg_tail lg) + int (length old)) (int (length old)) capacity hash i lg
     in log_ok ntext t (ai_taskId i) lg' \<and> log_le lg lg')"
proof -
  let ?e = "next_entry i now lg" and ?tail = "lg_tail lg" and ?B = "activityEntryBytes ntext"
  let ?r = "ac_revision (at_cursor ?tail)"
  have L: "map ae_revision (at_entries ?tail) = [at_floor ?tail + 1..?r]" "at_floor ?tail \<le> ?r" "0 \<le> at_floor ?tail"
    "at_retainedBytes ?tail = entry_sum ?B (at_entries ?tail)" "distinct (map ae_sourceEnvelopeId (at_entries ?tail))"
    "\<forall>e \<in> set (at_entries ?tail). jget (lg_fences lg) (ae_sourceEnvelopeId e) \<noteq> None"
    using ok by (simp_all add: log_ok_def Let_def)
  have cap: "1 \<le> capacity" "capacity \<le> DEFAULT_ACTIVITY_CAPACITY" "1 \<le> num_int (input_byteCapacity i)"
    "num_int (input_byteCapacity i) \<le> MAX_ACTIVITY_BYTES" "1 \<le> num_int (ai_ttlMs i)" "num_int (ai_ttlMs i) \<le> ACTIVITY_TERMINAL_TTL_MS"
    using v by (auto simp: validate_Inr in_bounds_def)
  have rev: "ae_revision ?e = ?r + 1" "ae_sourceEnvelopeId ?e = ai_sourceEnvelopeId i" by (simp_all add: next_entry_def createActivityEntry_def)
  have "map ae_revision (at_entries ?tail @ [?e]) = [at_floor ?tail + 1..?r + 1]"
    using L(1,2) by (simp add: rev upto_rec2)
  from evict_spec [where bytes = ?B and es = "at_entries ?tail @ [?e]" and capacity = capacity and byteCapacity = "num_int (input_byteCapacity i)"
      and evicted = 0, OF _ cap(1) _ refl this] b
  obtain old all where n: "at_entries ?tail @ [?e] = old @ all" "all \<noteq> []" "int (length all) \<le> capacity"
    "entry_sum ?B all \<le> num_int (input_byteCapacity i)" "map ae_revision all = [at_floor ?tail + int (length old) + 1..?r + 1]"
    "evict ?B capacity (num_int (input_byteCapacity i)) (at_entries ?tail @ [?e]) (entry_sum ?B (at_entries ?tail @ [?e])) (at_floor ?tail) 0 =
      Some (all, entry_sum ?B all, at_floor ?tail + int (length old), int (length old))"
    by auto
  obtain new where new: "all = new @ [?e]" "at_entries ?tail = old @ new"
    using n(1,2) by (metis append_butlast_last_id append_eq_append_conv2 append_is_Nil_conv butlast_append butlast_snoc last_appendR last_snoc)
  have len: "int (length old) \<le> ?r - at_floor ?tail"
    using arg_cong [OF L(1), of length] L(2) new(2) by simp
  have bytes: "at_retainedBytes ?tail + ?B ?e = entry_sum ?B (at_entries ?tail @ [?e])" by (simp add: L(4) entry_sum_def)
  let ?lg = "appended_log all (entry_sum ?B all) (at_floor ?tail + int (length old)) (int (length old)) capacity hash i lg"
  have "ai_sourceEnvelopeId i \<notin> ae_sourceEnvelopeId ` set new"
  proof
    assume "ai_sourceEnvelopeId i \<in> ae_sourceEnvelopeId ` set new"
    then obtain x where x: "ai_sourceEnvelopeId i = ae_sourceEnvelopeId x" "x \<in> set new" by (rule imageE)
    then have "x \<in> set (at_entries ?tail)" using new(2) by simp
    then have "jget (lg_fences lg) (ae_sourceEnvelopeId x) \<noteq> None" by (rule L(6) [rule_format])
    then show False using f x(1) by simp
  qed
  then have "log_ok ntext t (ai_taskId i) ?lg"
    using ok n(3-5) L(3,5,6) len cap open0 f new
    by (auto simp: log_ok_def appended_log_def Let_def rev)
  moreover have "log_le lg ?lg"
    using f open0 new L(2) by (auto simp: log_le_def appended_log_def rev)
  ultimately show ?thesis
    using n(6) new bytes by (intro exI [of _ old] exI [of _ new]) (simp add: Let_def)
qed

section \<open>Histories of the log store\<close>

datatype activity_op =
    LogAppend activity_input string int
  | LogSettle string string string int
  | LogRead string "activity_after option" int
  | LogCollect collect_expired_input
  | LogClose string string string
  | LogDelete string string

datatype activity_answer =
    LogTail "cloud_error + activity_tail"
  | LogFound "cloud_error + activity_tail option"
  | LogCollected "cloud_error + collect_expired_result"
  | LogClosed "cloud_error + unit"
  | LogDeleted int

fun activity_exec ::
  "(rat \<Rightarrow> string) \<Rightarrow> (string \<Rightarrow> string) \<Rightarrow> (activity_input \<Rightarrow> bool) \<Rightarrow> (string \<Rightarrow> int option) \<Rightarrow> tenant \<Rightarrow> activity_op \<Rightarrow>
   activity_state \<Rightarrow> activity_answer \<times> activity_state" where
  "activity_exec ntext digest schema other t (LogAppend i uuid now) s = map_prod LogTail id (activity_append ntext digest schema t i uuid now s)"
| "activity_exec ntext digest schema other t (LogSettle task terminalAt uuid now) s =
     map_prod LogTail id (activity_settle other t task terminalAt uuid now s)"
| "activity_exec ntext digest schema other t (LogRead task after now) s = map_prod LogFound id (activity_read t task after now s)"
| "activity_exec ntext digest schema other t (LogCollect i) s = map_prod LogCollected id (activity_collectExpired t i s)"
| "activity_exec ntext digest schema other t (LogClose task terminalAt uuid) s =
     map_prod LogClosed id (closeActivityLog other t task terminalAt uuid s)"
| "activity_exec ntext digest schema other t (LogDelete task uuid) s = map_prod LogDeleted id (deleteActivityTail t task uuid s)"

text \<open>What one call of the store keeps, and how it moves.\<close>

abbreviation log_moves :: "(rat \<Rightarrow> string) \<Rightarrow> activity_state \<Rightarrow> activity_state \<Rightarrow> bool" where
  "log_moves ntext s s' \<equiv> activity_inv ntext s' \<and> activity_le s s'"

lemma expire_write:
  assumes "activity_inv ntext s" and "isTenantId t" and "log_ok ntext t task lg" and "log_le (log_or_new t task uuid s) lg"
  shows "log_moves ntext s (jset (tenantKey t [task]) (expire_log now lg) s)"
  using log_write [OF assms(1,2), of task "expire_log now lg" uuid] expire_log_ok [OF assms(3), of now] log_le_trans [OF assms(4)] by blast

lemma append_cases:
  assumes "activity_inv ntext s" and "isTenantId t"
  obtains (refused) e where "activity_append ntext digest schema t i uuid now s = (Inl e, s)" "e \<noteq> TypeError"
  | (replayed) lg where "jget s (tenantKey t [ai_taskId i]) = Some lg" "\<not> lg_removed lg"
      "jget (lg_fences lg) (ai_sourceEnvelopeId i) = Some (activitySourceHash ntext digest i)"
      "activity_append ntext digest schema t i uuid now s =
         (Inr (lg_tail (expire_log now lg)), jset (tenantKey t [ai_taskId i]) (expire_log now lg) s)"
  | (accepted) lg old new capacity hash lg' where "lg = log_or_new t (ai_taskId i) uuid s" "\<not> lg_removed lg" "at_terminalAt (lg_tail lg) = None"
      "jget (lg_fences lg) (ai_sourceEnvelopeId i) = None" "at_entries (lg_tail lg) = old @ new"
      "lg' = appended_log (new @ [next_entry i now lg]) (entry_sum (activityEntryBytes ntext) (new @ [next_entry i now lg]))
         (at_floor (lg_tail lg) + int (length old)) (int (length old)) capacity hash i lg"
      "activity_append ntext digest schema t i uuid now s = (Inr (lg_tail lg'), jset (tenantKey t [ai_taskId i]) lg' s)"
      "hash = activitySourceHash ntext digest i" "log_ok ntext t (ai_taskId i) lg'" "log_le lg lg'"
proof (cases "validateActivityAppend schema i")
  case (Inl e)
  have "e \<noteq> TypeError" using Inl by (auto simp: validateActivityAppend_def split: if_splits)
  then show ?thesis using refused [of e] Inl by (simp add: activity_append_def)
next
  case (Inr capacity)
  define lg where "lg = log_or_new t (ai_taskId i) uuid s"
  have ok: "log_ok ntext t (ai_taskId i) lg" unfolding lg_def by (rule log_or_new_ok [OF assms])
  let ?hash = "activitySourceHash ntext digest i"
  note D = activity_append_def [of ntext digest schema t i uuid now s, unfolded Inr Let_def sum.case lg_def [symmetric]]
  show ?thesis
  proof (cases "lg_removed lg")
    case True
    then show ?thesis using refused D by simp
  next
    case live: False
    show ?thesis
    proof (cases "jget (lg_fences lg) (ai_sourceEnvelopeId i)")
      case (Some fence)
      then have "jget s (tenantKey t [ai_taskId i]) = Some lg"
        by (auto simp: lg_def log_or_new_def newLog_def split: option.splits)
      then show ?thesis using Some live refused replayed D by (cases "fence = ?hash") auto
    next
      case None
      show ?thesis
      proof (cases "at_terminalAt (lg_tail lg) = None \<and> activityEntryBytes ntext (next_entry i now lg) \<le> num_int (input_byteCapacity i)")
        case False
        then show ?thesis using None live refused D by (auto simp: next_entry_def not_le split: if_splits)
      next
        case True
        from appended_ok [OF ok None _ live Inr, of now ?hash] True
        obtain old new where n: "at_entries (lg_tail lg) = old @ new"
          "evict (activityEntryBytes ntext) capacity (num_int (input_byteCapacity i)) (at_entries (lg_tail lg) @ [next_entry i now lg])
            (at_retainedBytes (lg_tail lg) + activityEntryBytes ntext (next_entry i now lg)) (at_floor (lg_tail lg)) 0 =
            Some (new @ [next_entry i now lg], entry_sum (activityEntryBytes ntext) (new @ [next_entry i now lg]),
              at_floor (lg_tail lg) + int (length old), int (length old))"
          "log_ok ntext t (ai_taskId i) (appended_log (new @ [next_entry i now lg]) (entry_sum (activityEntryBytes ntext) (new @ [next_entry i now lg]))
            (at_floor (lg_tail lg) + int (length old)) (int (length old)) capacity ?hash i lg)"
          "log_le lg (appended_log (new @ [next_entry i now lg]) (entry_sum (activityEntryBytes ntext) (new @ [next_entry i now lg]))
            (at_floor (lg_tail lg) + int (length old)) (int (length old)) capacity ?hash i lg)"
          by (auto simp: Let_def)
        show ?thesis
        proof (cases "fst (activity_append ntext digest schema t i uuid now s)")
          case (Inl e)
          then have "activity_append ntext digest schema t i uuid now s = (Inl e, s)" "e \<noteq> TypeError"
            using None live True n(2) D by (auto simp: next_entry_def split: if_splits)
          then show ?thesis by (rule refused)
        next
          case (Inr tail)
          then show ?thesis
            using None live True n D
            by (intro accepted [OF lg_def live _ None n(1) refl _ refl n(3,4)])
              (auto simp: next_entry_def appended_log_def split: if_splits)
        qed
      qed
    qed
  qed
qed

lemma close_moves:
  assumes "activity_inv ntext s" and "isTenantId t"
  shows "log_moves ntext s (snd (closeActivityLog other t task terminalAt uuid s))"
proof -
  have ok: "log_ok ntext t task (log_or_new t task uuid s)" by (rule log_or_new_ok [OF assms])
  show ?thesis
    using assms log_write [OF assms, of task _ uuid] closed_ok [OF ok]
    by (auto simp: closeActivityLog_def Let_def simp del: tenantKey_one split: sum.splits)
qed

lemma settle_moves:
  assumes "activity_inv ntext s" and "isTenantId t"
  shows "log_moves ntext s (snd (activity_settle other t task terminalAt uuid now s))"
proof -
  obtain r s' where c: "closeActivityLog other t task terminalAt uuid s = (r, s')" by (cases "closeActivityLog other t task terminalAt uuid s")
  have m: "log_moves ntext s s'" using close_moves [OF assms, of other task terminalAt uuid] by (simp add: c)
  then have inv: "activity_inv ntext s'" ..
  from expire_write [OF inv assms(2) log_or_new_ok [OF inv assms(2)] log_le_refl]
  have "log_moves ntext s (jset (tenantKey t [task]) (expire_log now (log_or_new t task uuid s')) s')"
    using m activity_le_trans by blast
  then show ?thesis
    using m assms(1) by (auto simp: activity_settle_def c Let_def simp del: tenantKey_one split: sum.splits option.splits)
qed

lemma read_moves:
  assumes "activity_inv ntext s" and "isTenantId t"
  shows "log_moves ntext s (snd (activity_read t task after now s))"
proof (cases "jget s (tenantKey t [task])")
  case None
  then show ?thesis using assms(1) by (simp add: activity_read_def Let_def split: option.splits)
next
  case (Some lg)
  have "log_moves ntext s (jset (tenantKey t [task]) (expire_log now lg) s)"
    using expire_write [OF assms activity_inv_log [OF assms Some], of undefined] Some by (simp add: log_or_new_def)
  then show ?thesis using assms(1) Some by (simp add: activity_read_def Let_def del: tenantKey_one split: option.splits)
qed

lemma empty_due_keys: "map fst (fst (empty_due due limit removed s)) = map fst s"
  by (induction due limit removed s rule: empty_due.induct) (auto split: prod.splits)

lemma empty_due_get:
  "jget (fst (empty_due due limit removed s)) k = jget s k \<or>
   (\<exists>lg. jget s k = Some lg \<and> due lg \<and> jget (fst (empty_due due limit removed s)) k = Some (lg\<lparr>lg_tail := emptied (lg_tail lg)\<rparr>))"
  by (induction due limit removed s rule: empty_due.induct) (auto simp: jget_def split: prod.splits if_splits)

lemma collect_moves:
  assumes "activity_inv ntext s"
  shows "log_moves ntext s (snd (activity_collectExpired t input s))"
proof (cases "assertCollectExpiredInput input :: (unit, unit) result")
  case (Inl e)
  then show ?thesis using assms by (simp add: activity_collectExpired_def)
next
  case (Inr u)
  let ?s = "fst (empty_due (log_due t (ci_now input)) (num_int (ci_limit input)) 0 s)"
  have get: "jget ?s k = jget s k \<or> (\<exists>lg. jget s k = Some lg \<and> jget ?s k = Some (lg\<lparr>lg_tail := emptied (lg_tail lg)\<rparr>))" for k
    using empty_due_get [of "log_due t (ci_now input)" "num_int (ci_limit input)" 0 s k] by blast
  have rows: "\<exists>u task. isTenantId u \<and> k = tenantKey u [task] \<and> log_ok ntext u task lg" if "jget s k = Some lg" for k lg
    using assms that by (simp add: activity_inv_def)
  have "activity_inv ntext ?s"
    unfolding activity_inv_def
  proof (intro conjI allI impI)
    show "jmap_ok ?s" using assms by (simp add: activity_inv_def jmap_ok_def empty_due_keys)
    show "\<exists>u task. isTenantId u \<and> k = tenantKey u [task] \<and> log_ok ntext u task lg" if "jget ?s k = Some lg" for k lg
      using get [of k] that rows [of k] emptied_ok(1) by fastforce
  qed
  moreover have "activity_le s ?s"
    unfolding activity_le_def
  proof (intro allI impI)
    fix k lg
    assume lg: "jget s k = Some lg"
    then obtain u task where "log_ok ntext u task lg" using rows by blast
    from get [of k] lg emptied_ok(2) [OF this] show "\<exists>lg'. jget ?s k = Some lg' \<and> log_le lg lg'" by auto
  qed
  ultimately show ?thesis by (simp add: activity_collectExpired_def Inr split_beta)
qed

lemma activity_exec_moves:
  assumes "activity_inv ntext s" and "isTenantId t"
  shows "log_moves ntext s (snd (activity_exec ntext digest schema other t op s))"
proof (cases op)
  case (LogAppend i uuid now)
  show ?thesis
  proof (cases rule: append_cases [OF assms, of digest schema i uuid now, case_names refused replayed accepted])
    case (refused e)
    then show ?thesis using assms(1) LogAppend by simp
  next
    case (replayed lg)
    then show ?thesis
      using expire_write [OF assms activity_inv_log [OF assms replayed(1)], of uuid now] LogAppend by (simp add: log_or_new_def)
  next
    case (accepted lg old new capacity hash lg')
    then show ?thesis using log_write [OF assms accepted(9), of uuid] LogAppend by simp
  qed
next
  case (LogSettle task terminalAt uuid now)
  then show ?thesis using settle_moves [OF assms] by simp
next
  case (LogRead task after now)
  then show ?thesis using read_moves [OF assms] by simp
next
  case (LogCollect i)
  then show ?thesis using collect_moves [OF assms(1)] by simp
next
  case (LogClose task terminalAt uuid)
  then show ?thesis using close_moves [OF assms] by simp
next
  case (LogDelete task uuid)
  then show ?thesis
    using log_write [OF assms, of task _ uuid] removed_ok [OF log_or_new_ok [OF assms]]
    by (simp add: deleteActivityTail_def Let_def del: tenantKey_one)
qed

interpretation activity_history:
  monotone_store "activity_exec ntext digest schema other" tenant_call "activity_inv ntext" activity_le
  for ntext digest schema other
  using activity_exec_moves by unfold_locales (auto intro: activity_le_trans)

lemma activity_inv_empty [simp]: "activity_inv ntext []"
  by (simp add: activity_inv_def)

section \<open>Resuming from a cursor\<close>




text \<open>One log per source: what the fences give.\<close>

lemma append_fences:
  assumes "activity_inv ntext s" and "isTenantId t" and "activity_append ntext digest schema t i uuid now s = (Inr tail, s1)"
  shows "\<exists>lg. jget s1 (tenantKey t [ai_taskId i]) = Some lg \<and>
    jget (lg_fences lg) (ai_sourceEnvelopeId i) = Some (activitySourceHash ntext digest i)"
proof (cases rule: append_cases [OF assms(1,2), of digest schema i uuid now, case_names refused replayed accepted])
  case (replayed lg)
  then have s1: "s1 = jset (tenantKey t [ai_taskId i]) (expire_log now lg) s" using assms(3) by simp
  have "lg_fences (expire_log now lg) = lg_fences lg" by (simp add: expire_log_def)
  then show ?thesis using replayed(3) by (simp add: s1)
next
  case (accepted lg old new capacity hash lg')
  then have s1: "s1 = jset (tenantKey t [ai_taskId i]) lg' s" using assms(3) by simp
  show ?thesis by (simp add: s1 accepted(6,8) appended_log_def)
qed (use assms(3) in simp)

text \<open>
  A source envelope counts once: after an append was answered, whatever calls follow, no append
  that names the same task and source adds an entry or moves the cursor. The same content is
  answered again, unless the log was removed or the request itself is not valid; other content under
  that source is refused.
\<close>

theorem activity_source_once:
  assumes "activity_inv ntext s" and "isTenantId t" and "activity_append ntext digest schema t i uuid now s = (Inr tail, s1)"
    and "\<forall>(u, op) \<in> set ops. isTenantId u" and "s2 = snd (run_ops (activity_exec ntext digest schema other) ops s1)"
    and "ai_taskId j = ai_taskId i" and "ai_sourceEnvelopeId j = ai_sourceEnvelopeId i"
    and "activity_append ntext digest schema t j uuid' later s2 = (r, s3)"
  shows "\<exists>a b. jget s2 (tenantKey t [ai_taskId i]) = Some a \<and> jget s3 (tenantKey t [ai_taskId i]) = Some b \<and>
    at_cursor (lg_tail b) = at_cursor (lg_tail a) \<and> set (at_entries (lg_tail b)) \<subseteq> set (at_entries (lg_tail a)) \<and>
    (activitySourceHash ntext digest j \<noteq> activitySourceHash ntext digest i \<longrightarrow> (\<exists>e. r = Inl e) \<and> s3 = s2) \<and>
    (activitySourceHash ntext digest j = activitySourceHash ntext digest i \<longrightarrow> validateActivityAppend schema j = Inr c \<longrightarrow>
       r = (if lg_removed a then Inl (ByokCloudError Activity_history_gap) else Inr (lg_tail b)))"
proof -
  let ?k = "tenantKey t [ai_taskId i]" and ?h = "activitySourceHash ntext digest i"
  have inv1: "activity_inv ntext s1" using activity_exec_moves [OF assms(1,2), of digest schema other "LogAppend i uuid now"] assms(3) by simp
  obtain lg where lg: "jget s1 ?k = Some lg" "jget (lg_fences lg) (ai_sourceEnvelopeId i) = Some ?h"
    using append_fences [OF assms(1-3)] by blast
  have le: "activity_le s1 s2" unfolding assms(5) using activity_history.run_mono [OF assms(4) inv1] by simp
  then obtain a where a: "jget s2 ?k = Some a" "log_le lg a" using lg(1) unfolding activity_le_def by blast
  then have f: "jget (lg_fences a) (ai_sourceEnvelopeId j) = Some ?h" using lg(2) assms(7) by (simp add: log_le_def)
  have new: "log_or_new t (ai_taskId i) uuid' s2 = a" using a(1) by (simp add: log_or_new_def)
  let ?e = "expire_log later a"
  have D: "(r, s3) = (case validateActivityAppend schema j of Inl e \<Rightarrow> (Inl e, s2) | Inr c \<Rightarrow>
      if lg_removed a then (Inl (ByokCloudError Activity_history_gap), s2)
      else if ?h \<noteq> activitySourceHash ntext digest j then (Inl (ByokCloudError Coordination_input_invalid), s2)
      else (Inr (lg_tail ?e), jset ?k ?e s2))"
    using assms(8) by (simp add: activity_append_def new f assms(6) Let_def del: tenantKey_one split: sum.splits if_splits)
  have E: "at_cursor (lg_tail ?e) = at_cursor (lg_tail a)" "set (at_entries (lg_tail ?e)) \<subseteq> set (at_entries (lg_tail a))"
    by (auto simp: expire_log_def emptied_def)
  show ?thesis
    using D a(1) E by (auto simp del: tenantKey_one split: sum.splits if_splits)
qed

definition sample_append :: activity_input where
  "sample_append = \<lparr>ai_taskId = ''t'', ai_sourceEnvelopeId = ''e1'', ai_ttlMs = Fin 1000, ai_capacity = Some (Fin 2), ai_byteCapacity = None,
     ai_content = Progress 0 0 [JString ''x'']\<rparr>"

definition sample_log :: "(cloud_error + activity_tail) \<times> activity_state" where
  "sample_log = activity_append (\<lambda>_. []) id (\<lambda>_. True) ''acme'' sample_append ''g'' 0 []"

lemma sample_log_ok: "\<exists>tail s. sample_log = (Inr tail, s) \<and> activity_inv (\<lambda>_. []) s"
proof -
  have "case fst sample_log of Inr tail \<Rightarrow> ac_revision (at_cursor tail) = 1 | _ \<Rightarrow> False" by code_simp
  then obtain tail where "fst sample_log = Inr tail" by (auto split: sum.splits)
  moreover have "activity_inv (\<lambda>_. []) (snd sample_log)"
    using activity_exec_moves [OF activity_inv_empty, of "''acme''" "\<lambda>_. []" id "\<lambda>_. True" "\<lambda>_. None" "LogAppend sample_append ''g'' 0"]
    by (simp add: sample_log_def)
  ultimately show ?thesis by (metis prod.collapse)
qed



theorem activity_source_once_witness:
  "\<exists>tail s. sample_log = (Inr tail, s) \<and>
     (\<exists>e. activity_append (\<lambda>_. []) id (\<lambda>_. True) ''acme'' (sample_append\<lparr>ai_content := Progress 0 0 []\<rparr>) ''h'' 7 s = (Inl e, s))"
proof -
  obtain tail s where s: "sample_log = (Inr tail, s)" using sample_log_ok by blast
  let ?j = "sample_append\<lparr>ai_content := Progress 0 0 []\<rparr>"
  have a: "activity_append (\<lambda>_. []) id (\<lambda>_. True) ''acme'' sample_append ''g'' 0 [] = (Inr tail, s)" using s by (simp add: sample_log_def)
  obtain r s3 where r: "activity_append (\<lambda>_. []) id (\<lambda>_. True) ''acme'' ?j ''h'' 7 s = (r, s3)"
    by (cases "activity_append (\<lambda>_. []) id (\<lambda>_. True) ''acme'' ?j ''h'' 7 s")
  have h: "activitySourceHash (\<lambda>_. []) id ?j \<noteq> activitySourceHash (\<lambda>_. []) id sample_append" by code_simp
  have "(\<exists>e. r = Inl e) \<and> s3 = s"
    using activity_source_once [OF activity_inv_empty sample_tenants(1) a, of "[]" s "\<lambda>_. None" ?j "''h''" 7 r s3 0] r h by auto
  then show ?thesis using s r by blast
qed

section \<open>A retry of the same content\<close>

text \<open>
  The same output submitted again: its JSON may list the keys of its objects in another order, and a
  sealed batch may have been sealed again, which changes its salt, nonce and ciphertext and keeps
  the stable fields.
\<close>

fun same_output :: "activity_content \<Rightarrow> activity_content \<Rightarrow> bool" where
  "same_output (Progress b d xs) (Progress b' d' ys) \<longleftrightarrow> b = b' \<and> d = d' \<and> list_all2 json_same xs ys"
| "same_output (Sealed_progress b d (JObject x)) (Sealed_progress b' d' (JObject y)) \<longleftrightarrow>
     b = b' \<and> d = d' \<and> (\<forall>f \<in> set STABLE_SEALED_FIELDS. rel_option json_same (jget x f) (jget y f))"
| "same_output (Artifact a) (Artifact b) \<longleftrightarrow> json_same a b"
| "same_output _ _ \<longleftrightarrow> False"

abbreviation entries_same :: "(string \<times> json) list \<Rightarrow> (string \<times> json) list \<Rightarrow> bool" where
  "entries_same \<equiv> list_all2 (\<lambda>e f. fst e = fst f \<and> sort_keys (snd e) = sort_keys (snd f))"

lemma sort_keys_entries:
  assumes "entries_same fs gs"
  shows "sort_keys (JObject fs) = sort_keys (JObject gs)"
proof -
  have "map (\<lambda>e. (fst e, sort_keys (snd e))) fs = map (\<lambda>e. (fst e, sort_keys (snd e))) gs"
    using assms by (induction fs gs rule: list_all2_induct) auto
  then show ?thesis by simp
qed

lemma stable_fields_same:
  assumes "\<forall>f \<in> set fs. rel_option json_same (jget x f) (jget y f)"
  shows "entries_same
    (List.map_filter (\<lambda>f. map_option (Pair f) (jget x f)) fs) (List.map_filter (\<lambda>f. map_option (Pair f) (jget y f)) fs)"
  using assms by (induction fs) (auto simp: map_filter_simps sort_keys_same split: option.splits)

text \<open>What the source hash covers.\<close>

definition source_json :: "activity_input \<Rightarrow> (string \<times> json) list" where
  "source_json i = sealedComparisonProjection
     ([(''taskId'', JString (ai_taskId i)), (''sourceEnvelopeId'', JString (ai_sourceEnvelopeId i))] @ source_fields (ai_content i))"

lemma activitySourceHash_json: "activitySourceHash ntext digest i = digest (canonicalActivityJson ntext (JObject (source_json i)))"
  by (simp add: activitySourceHash_def source_json_def)

text \<open>
  Retries are recognised: content that differs only in the order of JSON keys, or that was sealed
  again with the same stable fields, has the source hash of the first submission, whatever the
  digest, so an append of it is a replay and never a conflict.
\<close>

theorem activity_retry_same_source:
  assumes "same_output (ai_content i) (ai_content j)" and "ai_taskId i = ai_taskId j" and "ai_sourceEnvelopeId i = ai_sourceEnvelopeId j"
  shows "activitySourceHash ntext digest i = activitySourceHash ntext digest j"
  unfolding activitySourceHash_json canonicalActivityJson_def
proof (rule arg_cong [where f = "\<lambda>v. digest (stringify ntext v)"], rule sort_keys_entries,
    cases "(ai_content i, ai_content j)" rule: same_output.cases)
  case (1 b d xs b' d' ys)
  then have "json_same (JArray xs) (JArray ys)" using assms(1) by (simp add: same_array)
  from sort_keys_same [OF this]
  show "entries_same (source_json i) (source_json j)"
    using 1 assms by (simp add: source_json_def sealedComparisonProjection_def jget_def del: sort_keys.simps)
next
  case (2 b d x b' d' y)
  have "\<forall>f \<in> set STABLE_SEALED_FIELDS. rel_option json_same (jget x f) (jget y f)" using assms(1) 2 by simp
  from sort_keys_entries [OF stable_fields_same [OF this]]
  show "entries_same (source_json i) (source_json j)"
    using 2 assms by (simp add: source_json_def sealedComparisonProjection_def jget_Cons jset_new del: sort_keys.simps)
next
  case (3 a b)
  then have "json_same a b" using assms(1) by simp
  from sort_keys_same [OF this]
  show "entries_same (source_json i) (source_json j)"
    using 3 assms(2,3) by (simp add: source_json_def sealedComparisonProjection_def jget_def del: sort_keys.simps)
qed (use assms(1) in simp_all)

theorem activity_retry_same_source_witness:
  "activitySourceHash (\<lambda>_. []) id
      (sample_append\<lparr>ai_content := Sealed_progress 3 0 (JObject [(''v'', JNull), (''salt'', JString ''a''), (''contentMac'', JString ''m'')])\<rparr>) =
   activitySourceHash (\<lambda>_. []) id
      (sample_append\<lparr>ai_content := Sealed_progress 3 0 (JObject [(''contentMac'', JString ''m''), (''v'', JNull), (''salt'', JString ''b'')])\<rparr>)"
  by (rule activity_retry_same_source) (simp_all add: STABLE_SEALED_FIELDS_def jget_Cons same_refl)

section \<open>Bounds\<close>

text \<open>
  The log is bounded: after any history of calls an append never runs off the end of its eviction
  loop, and every tail it answers holds at most as many entries and bytes as the log was opened for,
  at most 1000 and 4 MiB, with the revisions after the floor up to the cursor and no other.
\<close>

theorem activity_bounded:
  assumes "\<forall>(u, op) \<in> set ops. isTenantId u" and "isTenantId t"
    and "activity_append ntext digest schema t i uuid now (snd (run_ops (activity_exec ntext digest schema other) ops [])) = (r, s')"
  shows "case r of
      Inl e \<Rightarrow> e \<noteq> TypeError
    | Inr tail \<Rightarrow> int (length (at_entries tail)) \<le> at_capacity tail \<and> at_capacity tail \<le> 1000 \<and>
        sum_list (map (activityEntryBytes ntext) (at_entries tail)) \<le> at_byteCapacity tail \<and> at_byteCapacity tail \<le> 4194304 \<and>
        map ae_revision (at_entries tail) = [at_floor tail + 1..ac_revision (at_cursor tail)]"
proof -
  let ?s = "snd (run_ops (activity_exec ntext digest schema other) ops [])"
  have inv: "activity_inv ntext ?s" using activity_history.run_inv [OF assms(1) activity_inv_empty] .
  have B: "int (length (at_entries (lg_tail lg))) \<le> at_capacity (lg_tail lg) \<and> at_capacity (lg_tail lg) \<le> 1000 \<and>
      sum_list (map (activityEntryBytes ntext) (at_entries (lg_tail lg))) \<le> at_byteCapacity (lg_tail lg) \<and> at_byteCapacity (lg_tail lg) \<le> 4194304 \<and>
      map ae_revision (at_entries (lg_tail lg)) = [at_floor (lg_tail lg) + 1..ac_revision (at_cursor (lg_tail lg))]"
    if "log_ok ntext u task lg" for lg u task
    using that by (simp add: log_ok_def entry_sum_def DEFAULT_ACTIVITY_CAPACITY_def MAX_ACTIVITY_BYTES_def Let_def)
  show ?thesis
  proof (cases rule: append_cases [OF inv assms(2), of digest schema i uuid now, case_names refused replayed accepted])
    case (refused e)
    then show ?thesis using assms(3) by simp
  next
    case (replayed lg)
    from B [OF expire_log_ok(1) [OF activity_inv_log [OF inv assms(2) replayed(1)]]] show ?thesis using assms(3) replayed(4) by auto
  next
    case (accepted lg old new capacity hash lg')
    from B [OF accepted(9)] show ?thesis using assms(3) accepted(7) by auto
  qed
qed

theorem activity_bounded_witness:
  "\<exists>tail s. sample_log = (Inr tail, s) \<and> int (length (at_entries tail)) \<le> at_capacity tail \<and> at_capacity tail \<le> 1000"
proof -
  obtain tail s where s: "sample_log = (Inr tail, s)" using sample_log_ok by blast
  then show ?thesis
    using activity_bounded [of "[]" "''acme''" "\<lambda>_. []" id "\<lambda>_. True" sample_append "''g''" 0 "\<lambda>_. None" "Inr tail" s]
    by (simp add: sample_log_def)
qed

section \<open>A closed log\<close>

text \<open>A log that is closed or removed.\<close>

definition log_shut :: "tenant \<Rightarrow> string \<Rightarrow> activity_state \<Rightarrow> bool" where
  "log_shut t task s =
     (case jget s (tenantKey t [task]) of None \<Rightarrow> False | Some lg \<Rightarrow> lg_removed lg \<or> at_terminalAt (lg_tail lg) \<noteq> None)"

lemma log_shut_le:
  assumes "log_shut t task s" and "activity_le s s'"
  shows "log_shut t task s'"
proof -
  obtain lg where lg: "jget s (tenantKey t [task]) = Some lg" "lg_removed lg \<or> at_terminalAt (lg_tail lg) \<noteq> None"
    using assms(1) by (auto simp: log_shut_def split: option.splits)
  then obtain lg' where "jget s' (tenantKey t [task]) = Some lg'" "log_le lg lg'" using assms(2) unfolding activity_le_def by blast
  then show ?thesis using lg(2) by (auto simp: log_shut_def log_le_def)
qed

lemma close_shuts:
  assumes "iso_instant n" and "activity_inv ntext s" and "isTenantId t"
  shows "fst (closeActivityLog other t task (toISOString n) uuid s) = Inr () \<and>
    log_shut t task (snd (closeActivityLog other t task (toISOString n) uuid s))"
proof -
  let ?lg = "log_or_new t task uuid s"
  have ok: "log_ok ntext t task ?lg" by (rule log_or_new_ok [OF assms(2,3)])
  then have "1 \<le> lg_ttlMs ?lg" "lg_ttlMs ?lg \<le> 600000" by (simp_all add: log_ok_def ACTIVITY_TERMINAL_TTL_MS_def Let_def)
  then have "\<bar>n + lg_ttlMs ?lg\<bar> \<le> MAX_DATE" using assms(1) unfolding iso_instant_def MAX_DATE_def by linarith
  then have st: "stamp_after other (toISOString n) (lg_ttlMs ?lg) = Inr (toISOString (n + lg_ttlMs ?lg))" by (rule stamp_after_iso [OF assms(1)])
  show ?thesis
  proof (cases "lg_removed ?lg \<or> at_terminalAt (lg_tail ?lg) \<noteq> None")
    case True
    then have "jget s (tenantKey t [task]) = Some ?lg" by (auto simp: log_or_new_def newLog_def split: option.splits)
    then show ?thesis using True by (auto simp: closeActivityLog_def log_shut_def Let_def simp del: tenantKey_one)
  next
    case False
    then show ?thesis using st by (simp add: closeActivityLog_def log_shut_def Let_def)
  qed
qed

text \<open>A log that is shut takes no entry.\<close>

lemma shut_append:
  assumes "activity_inv ntext s" and "isTenantId t" and "log_shut t (ai_taskId i) s"
  shows "(\<exists>e. activity_append ntext digest schema t i uuid now s = (Inl e, s)) \<or>
    (\<exists>lg. jget s (tenantKey t [ai_taskId i]) = Some lg \<and> activity_append ntext digest schema t i uuid now s =
        (Inr (lg_tail (expire_log now lg)), jset (tenantKey t [ai_taskId i]) (expire_log now lg) s))"
proof (cases rule: append_cases [OF assms(1,2), of digest schema i uuid now, case_names refused replayed accepted])
  case (accepted lg old new capacity hash lg')
  then show ?thesis using assms(3) by (auto simp: log_shut_def log_or_new_def split: option.splits)
qed blast+

end
