(* ===== verification/Approvals.thy ===== *)
theory Approvals
  imports Cloud_Errors Json
begin

text \<open>
  The approval timeline of a task (\<open>packages/cloud/src/stores/in-memory/approval-timeline.ts\<close> with
  the types, checks and helpers of \<open>packages/cloud/src/approval-timeline.ts\<close>): a bounded list of
  approval requests and decisions, in which the pending request is never evicted, and which closes
  when the task's output closes.

  Parameters: \<open>ntext\<close> prints numbers that are not integers, \<open>isoOk\<close> is zod's check of a date and time
  with offset, \<open>sealedOk\<close> its check of a sealed payload, \<open>other\<close> is \<open>Date.parse\<close> on text that is
  not canonical. Observations of one timeline have distinct revisions, so the identity of two
  observations is equality.
\<close>

section \<open>Data\<close>

datatype approval_decision = Approve | Reject

datatype approval_event =
    Requested string "string option"
  | Sealed_requested string json
  | Resolved_local "string option" approval_decision string
  | Host_approved "string option" string
  | Host_rejected "string option" "string option" string

record approval_observation =
  ao_taskId :: string
  ao_sourceEnvelopeId :: string
  ao_revision :: int
  ao_receivedAt :: string
  ao_event :: approval_event

record approval_tail =
  aw_tenantId :: tenant
  aw_taskId :: string
  aw_entries :: "approval_observation list"
  aw_cursor :: "int option"
  aw_dropped :: int
  aw_capacity :: int
  aw_terminalAt :: "string option"
  aw_expiresAt :: "string option"

record approval_append_input =
  aa_taskId :: string
  aa_sourceEnvelopeId :: string
  aa_event :: approval_event
  aa_capacity :: "jsnum option"

record approval_resolve_input = approval_append_input +
  ar_expectedSourceEnvelopeId :: string
  ar_expectedRevision :: jsnum

datatype approval_resolution =
    Applied approval_tail
  | Replayed approval_tail
  | Conflict approval_tail
  | Superseded approval_tail
  | Absent "approval_tail option"

type_synonym approval_state = "approval_tail jmap"

definition DEFAULT_APPROVAL_TIMELINE_CAPACITY :: int where "DEFAULT_APPROVAL_TIMELINE_CAPACITY = 50"
definition DEFAULT_APPROVAL_TIMELINE_TTL_MS :: int where "DEFAULT_APPROVAL_TIMELINE_TTL_MS = 10 * 60 * 1000"
definition MAX_APPROVAL_TIMELINE_BYTES :: int where "MAX_APPROVAL_TIMELINE_BYTES = 1024 * 1024"
definition MAX_APPROVAL_EVENT_BYTES :: int where "MAX_APPROVAL_EVENT_BYTES = MAX_APPROVAL_TIMELINE_BYTES div 2 - 4 * 1024"
definition APPROVAL_SUMMARY_MAX_BYTES :: int where "APPROVAL_SUMMARY_MAX_BYTES = 16 * 1024"

section \<open>Events and their JSON\<close>

fun event_requested :: "approval_event \<Rightarrow> bool" where
  "event_requested (Requested _ _) = True"
| "event_requested (Sealed_requested _ _) = True"
| "event_requested _ = False"

fun event_approvalId :: "approval_event \<Rightarrow> string option" where
  "event_approvalId (Requested _ i) = i"
| "event_approvalId (Sealed_requested i _) = Some i"
| "event_approvalId (Resolved_local i _ _) = i"
| "event_approvalId (Host_approved i _) = i"
| "event_approvalId (Host_rejected i _ _) = i"

fun by_host :: "approval_event \<Rightarrow> bool" where
  "by_host (Host_approved _ _) = True"
| "by_host (Host_rejected _ _ _) = True"
| "by_host _ = False"

definition optional :: "string \<Rightarrow> string option \<Rightarrow> (string \<times> json) list" where
  "optional k v = (case v of None \<Rightarrow> [] | Some s \<Rightarrow> [(k, JString s)])"

fun event_fields :: "approval_event \<Rightarrow> (string \<times> json) list" where
  "event_fields (Requested summary i) = [(''type'', JString ''approval_requested''), (''summary'', JString summary)] @ optional ''approvalId'' i"
| "event_fields (Sealed_requested i sealed) =
     [(''type'', JString ''approval_requested''), (''approvalId'', JString i), (''sealed'', sealed)]"
| "event_fields (Resolved_local i decision when0) =
     [(''type'', JString ''approval_resolved'')] @ optional ''approvalId'' i @
     [(''decision'', JString (if decision = Approve then ''approve'' else ''reject'')), (''resolvedBy'', JString ''local''), (''at'', JString when0)]"
| "event_fields (Host_approved i when0) =
     [(''type'', JString ''approval_resolved'')] @ optional ''approvalId'' i @
     [(''decision'', JString ''approve''), (''resolvedBy'', JString ''host''), (''at'', JString when0)]"
| "event_fields (Host_rejected i reason when0) =
     [(''type'', JString ''approval_resolved'')] @ optional ''approvalId'' i @
     [(''decision'', JString ''reject''), (''resolvedBy'', JString ''host''),
      (''reason'', case reason of None \<Rightarrow> JNull | Some r \<Rightarrow> JString r), (''at'', JString when0)]"

definition event_json :: "approval_event \<Rightarrow> json" where
  "event_json ev = JObject (event_fields ev)"

fun event_sealed :: "approval_event \<Rightarrow> bool" where
  "event_sealed (Sealed_requested _ _) = True"
| "event_sealed _ = False"

definition sameSealedProjection :: "(rat \<Rightarrow> string) \<Rightarrow> (string \<times> json) list \<Rightarrow> (string \<times> json) list \<Rightarrow> bool" where
  "sameSealedProjection ntext a b =
     (stringify ntext (JObject (sealedComparisonProjection a)) = stringify ntext (JObject (sealedComparisonProjection b)))"

definition sameApprovalTimelineEvent :: "(rat \<Rightarrow> string) \<Rightarrow> approval_event \<Rightarrow> approval_event \<Rightarrow> bool" where
  "sameApprovalTimelineEvent ntext l r =
     (if event_sealed l \<and> event_sealed r then sameSealedProjection ntext (event_fields l) (event_fields r)
      else stringify ntext (event_json l) = stringify ntext (event_json r))"

section \<open>Checks of a request\<close>

definition task_id_ok :: "string \<Rightarrow> bool" where
  "task_id_ok s = (1 \<le> length s \<and> length s \<le> 200)"

definition non_blank_id :: "string \<Rightarrow> bool" where
  "non_blank_id s = (length s \<le> 200 \<and> list_ex (\<lambda>c. \<not> js_space c) s)"

definition opt_ok :: "('a \<Rightarrow> bool) \<Rightarrow> 'a option \<Rightarrow> bool" where
  "opt_ok P x = (case x of None \<Rightarrow> True | Some v \<Rightarrow> P v)"

fun event_ok :: "(string \<Rightarrow> bool) \<Rightarrow> (json \<Rightarrow> bool) \<Rightarrow> approval_event \<Rightarrow> bool" where
  "event_ok isoOk sealedOk (Requested summary i) = opt_ok non_blank_id i"
| "event_ok isoOk sealedOk (Sealed_requested i sealed) = (non_blank_id i \<and> sealedOk sealed)"
| "event_ok isoOk sealedOk (Resolved_local i decision when0) = (opt_ok non_blank_id i \<and> isoOk when0)"
| "event_ok isoOk sealedOk (Host_approved i when0) = (opt_ok non_blank_id i \<and> isoOk when0)"
| "event_ok isoOk sealedOk (Host_rejected i reason when0) = (opt_ok non_blank_id i \<and> isoOk when0)"

fun event_summary :: "approval_event \<Rightarrow> string option" where
  "event_summary (Requested summary _) = Some summary"
| "event_summary _ = None"

definition invalid_input :: cloud_error where
  "invalid_input = ByokCloudError Coordination_input_invalid"

definition validateApprovalTimelineAppend ::
  "(rat \<Rightarrow> string) \<Rightarrow> (string \<Rightarrow> bool) \<Rightarrow> (json \<Rightarrow> bool) \<Rightarrow> 'x approval_append_input_scheme \<Rightarrow> cloud_error + int" where
  "validateApprovalTimelineAppend ntext isoOk sealedOk i =
     (let capacity = (case aa_capacity i of None \<Rightarrow> Fin (of_int DEFAULT_APPROVAL_TIMELINE_CAPACITY) | Some n \<Rightarrow> n)
      in if \<not> isSafeInteger capacity \<or> num_int capacity < 2 \<or> num_int capacity > DEFAULT_APPROVAL_TIMELINE_CAPACITY then Inl invalid_input
         else if \<not> (task_id_ok (aa_taskId i) \<and> non_blank_id (aa_sourceEnvelopeId i) \<and> event_ok isoOk sealedOk (aa_event i)) then Inl invalid_input
         else if (case event_summary (aa_event i) of None \<Rightarrow> False | Some m \<Rightarrow> utf8_length m > APPROVAL_SUMMARY_MAX_BYTES) then Inl invalid_input
         else if utf8_length (stringify ntext (event_json (aa_event i))) > MAX_APPROVAL_EVENT_BYTES then Inl invalid_input
         else Inr (num_int capacity))"

definition validateApprovalTimelineResolve ::
  "(rat \<Rightarrow> string) \<Rightarrow> (string \<Rightarrow> bool) \<Rightarrow> (json \<Rightarrow> bool) \<Rightarrow> approval_resolve_input \<Rightarrow> cloud_error + int" where
  "validateApprovalTimelineResolve ntext isoOk sealedOk i =
     (case validateApprovalTimelineAppend ntext isoOk sealedOk i of
        Inl e \<Rightarrow> Inl e
      | Inr capacity \<Rightarrow>
          if \<not> (non_blank_id (ar_expectedSourceEnvelopeId i) \<and> isSafeInteger (ar_expectedRevision i) \<and> num_int (ar_expectedRevision i) > 0) \<or>
             event_requested (aa_event i) \<or> \<not> by_host (aa_event i)
          then Inl invalid_input else Inr capacity)"

section \<open>The pending request and the eviction loop\<close>

definition resolves :: "approval_observation \<Rightarrow> approval_observation \<Rightarrow> bool" where
  "resolves d p = (event_approvalId (ao_event p) = None \<or> event_approvalId (ao_event p) = event_approvalId (ao_event d))"

definition pending_step :: "approval_observation option \<Rightarrow> approval_observation \<Rightarrow> approval_observation option" where
  "pending_step pending entry =
     (if event_requested (ao_event entry) then Some entry
      else case pending of None \<Rightarrow> None | Some p \<Rightarrow> if resolves entry p then None else Some p)"

definition pendingApprovalObservation :: "approval_observation list \<Rightarrow> approval_observation option" where
  "pendingApprovalObservation entries = foldl pending_step None entries"

definition observation_json :: "approval_observation \<Rightarrow> json" where
  "observation_json o' = JObject
     [(''taskId'', JString (ao_taskId o')), (''sourceEnvelopeId'', JString (ao_sourceEnvelopeId o')),
      (''revision'', JNumber (Fin (of_int (ao_revision o')))), (''receivedAt'', JString (ao_receivedAt o')), (''event'', event_json (ao_event o'))]"

definition observationBytes :: "(rat \<Rightarrow> string) \<Rightarrow> approval_observation \<Rightarrow> int" where
  "observationBytes ntext o' = utf8_length (stringify ntext (observation_json o'))"

text \<open>
  \<open>retained.splice(retained.findIndex((entry) => entry !== pending), 1)\<close>: the entry removed and
  what is left. An index of \<open>-1\<close> removes the last entry.
\<close>

definition splice_first :: "approval_observation option \<Rightarrow> approval_observation list \<Rightarrow> (approval_observation \<times> approval_observation list) option" where
  "splice_first pending xs =
     (case dropWhile (\<lambda>e. Some e = pending) xs of
        x # rest \<Rightarrow> Some (x, takeWhile (\<lambda>e. Some e = pending) xs @ rest)
      | [] \<Rightarrow> if xs = [] then None else Some (last xs, butlast xs))"

lemma splice_first_shorter: "splice_first pending xs = Some (x, ys) \<Longrightarrow> length ys < length xs"
proof (cases "dropWhile (\<lambda>e. Some e = pending) xs")
  case (Cons a rest)
  assume "splice_first pending xs = Some (x, ys)"
  then have "ys = takeWhile (\<lambda>e. Some e = pending) xs @ rest" using Cons by (simp add: splice_first_def)
  moreover have "xs = takeWhile (\<lambda>e. Some e = pending) xs @ a # rest" using Cons by (metis takeWhile_dropWhile_id)
  ultimately show ?thesis by (metis length_append length_Cons add_less_cancel_left lessI)
qed (auto simp: splice_first_def split: if_splits)

text \<open>The eviction loop; \<open>None\<close> is a removal from an empty array, whose result the code reads.\<close>

function retain_loop ::
  "(approval_observation \<Rightarrow> int) \<Rightarrow> int \<Rightarrow> approval_observation option \<Rightarrow> approval_observation list \<Rightarrow> int \<Rightarrow> int \<Rightarrow>
   (approval_observation list \<times> int) option" where
  "retain_loop size0 capacity pending xs bytes evicted =
     (if int (length xs) > capacity \<or> bytes > MAX_APPROVAL_TIMELINE_BYTES
      then (case splice_first pending xs of
              None \<Rightarrow> None
            | Some (x, ys) \<Rightarrow> retain_loop size0 capacity pending ys (bytes - size0 x) (evicted + 1))
      else Some (xs, evicted))"
  by pat_completeness auto

termination
  by (relation "measure (\<lambda>(_, _, _, xs, _, _). length xs)") (auto simp: splice_first_shorter)

declare retain_loop.simps [simp del]

definition retainApprovalObservations ::
  "(rat \<Rightarrow> string) \<Rightarrow> approval_observation list \<Rightarrow> approval_observation \<Rightarrow> int \<Rightarrow> (approval_observation list \<times> int) option" where
  "retainApprovalObservations ntext entries observation capacity =
     (let retained = entries @ [observation]
      in retain_loop (observationBytes ntext) capacity (pendingApprovalObservation retained) retained
           (sum_list (map (observationBytes ntext) retained)) 0)"

section \<open>Operations\<close>

definition tail_due :: "string \<Rightarrow> approval_tail \<Rightarrow> bool" where
  "tail_due now tail = (case aw_expiresAt tail of None \<Rightarrow> False | Some x \<Rightarrow> x \<le> now)"

definition deleteApprovalTimelineTail :: "tenant \<Rightarrow> string \<Rightarrow> approval_state \<Rightarrow> int \<times> approval_state" where
  "deleteApprovalTimelineTail t task s =
     (case jget s (tenantKey t [task]) of
        None \<Rightarrow> (0, s)
      | Some tail \<Rightarrow> (if aw_entries tail \<noteq> [] then 1 else 0, jset (tenantKey t [task]) (tail\<lparr>aw_entries := []\<rparr>) s))"

definition new_timeline :: "tenant \<Rightarrow> string \<Rightarrow> approval_tail" where
  "new_timeline t task =
     \<lparr>aw_tenantId = t, aw_taskId = task, aw_entries = [], aw_cursor = None, aw_dropped = 0,
      aw_capacity = DEFAULT_APPROVAL_TIMELINE_CAPACITY, aw_terminalAt = None, aw_expiresAt = None\<rparr>"

definition closeApprovalTimeline ::
  "(string \<Rightarrow> int option) \<Rightarrow> tenant \<Rightarrow> string \<Rightarrow> string \<Rightarrow> approval_state \<Rightarrow> (cloud_error + unit) \<times> approval_state" where
  "closeApprovalTimeline other t task terminalAt s =
     (let key = tenantKey t [task]; tail = (case jget s key of None \<Rightarrow> new_timeline t task | Some x \<Rightarrow> x)
      in if aw_terminalAt tail \<noteq> None then (Inr (), s)
         else case stamp_after other terminalAt DEFAULT_APPROVAL_TIMELINE_TTL_MS of
                Inl e \<Rightarrow> (Inl e, s)
              | Inr expiresAt \<Rightarrow> (Inr (), jset key (tail\<lparr>aw_terminalAt := Some terminalAt, aw_expiresAt := Some expiresAt\<rparr>) s))"

text \<open>
  The observation the next revision would record. Its schema only admits safe integers as revisions.
\<close>

definition observe :: "'x approval_append_input_scheme \<Rightarrow> int \<Rightarrow> int option \<Rightarrow> approval_observation option" where
  "observe i now cursor =
     (let revision = (case cursor of None \<Rightarrow> 0 | Some n \<Rightarrow> n) + 1
      in if revision > MAX_SAFE_INTEGER then None
         else Some \<lparr>ao_taskId = aa_taskId i, ao_sourceEnvelopeId = aa_sourceEnvelopeId i, ao_revision = revision,
                ao_receivedAt = toISOString now, ao_event = aa_event i\<rparr>)"

text \<open>What both writers do with a new observation.\<close>

definition record_observation ::
  "(rat \<Rightarrow> string) \<Rightarrow> tenant \<Rightarrow> 'x approval_append_input_scheme \<Rightarrow> int \<Rightarrow> int \<Rightarrow> approval_tail option \<Rightarrow> cloud_error + approval_tail" where
  "record_observation ntext t i capacity now existing =
     (case observe i now (Option.bind existing aw_cursor) of
        None \<Rightarrow> Inl TypeError
      | Some obs \<Rightarrow>
          (case retainApprovalObservations ntext (case existing of None \<Rightarrow> [] | Some x \<Rightarrow> aw_entries x) obs capacity of
             None \<Rightarrow> Inl TypeError
           | Some (entries, evicted) \<Rightarrow>
               Inr \<lparr>aw_tenantId = t, aw_taskId = aa_taskId i, aw_entries = entries, aw_cursor = Some (ao_revision obs),
                 aw_dropped = (case existing of None \<Rightarrow> 0 | Some x \<Rightarrow> aw_dropped x) + evicted, aw_capacity = capacity,
                 aw_terminalAt = None, aw_expiresAt = None\<rparr>))"

definition source_entry :: "string \<Rightarrow> approval_tail \<Rightarrow> approval_observation option" where
  "source_entry src tail = find (\<lambda>e. ao_sourceEnvelopeId e = src) (aw_entries tail)"

definition approval_append ::
  "(rat \<Rightarrow> string) \<Rightarrow> (string \<Rightarrow> bool) \<Rightarrow> (json \<Rightarrow> bool) \<Rightarrow> tenant \<Rightarrow> approval_append_input \<Rightarrow> int \<Rightarrow> approval_state \<Rightarrow>
   (cloud_error + approval_tail) \<times> approval_state" where
  "approval_append ntext isoOk sealedOk t i now s =
     (case validateApprovalTimelineAppend ntext isoOk sealedOk i of
        Inl e \<Rightarrow> (Inl e, s)
      | Inr capacity \<Rightarrow>
          let key = tenantKey t [aa_taskId i]; existing = jget s key;
              duplicate = (case existing of None \<Rightarrow> None
                | Some tail \<Rightarrow> if tail_due (toISOString now) tail then None else source_entry (aa_sourceEnvelopeId i) tail)
          in case duplicate of
               Some entry \<Rightarrow>
                 if \<not> sameApprovalTimelineEvent ntext (ao_event entry) (aa_event i) then (Inl invalid_input, s)
                 else (Inr (the existing), s)
             | None \<Rightarrow>
                 if (case existing of None \<Rightarrow> False | Some tail \<Rightarrow> aw_terminalAt tail \<noteq> None)
                 then (Inl (ByokCloudError Approval_timeline_settled), s)
                 else case record_observation ntext t i capacity now existing of
                        Inl e \<Rightarrow> (Inl e, s)
                      | Inr tail \<Rightarrow> (Inr tail, jset key tail s))"

definition resolvePending ::
  "(rat \<Rightarrow> string) \<Rightarrow> (string \<Rightarrow> bool) \<Rightarrow> (json \<Rightarrow> bool) \<Rightarrow> tenant \<Rightarrow> approval_resolve_input \<Rightarrow> int \<Rightarrow> approval_state \<Rightarrow>
   (cloud_error + approval_resolution) \<times> approval_state" where
  "resolvePending ntext isoOk sealedOk t i now s =
     (case validateApprovalTimelineResolve ntext isoOk sealedOk i of
        Inl e \<Rightarrow> (Inl e, s)
      | Inr capacity \<Rightarrow>
          let key = tenantKey t [aa_taskId i]
          in case jget s key of
               None \<Rightarrow> (Inr (Absent None), s)
             | Some live \<Rightarrow>
                 if tail_due (toISOString now) live then (Inr (Absent None), s)
                 else case source_entry (aa_sourceEnvelopeId i) live of
                   Some entry \<Rightarrow>
                     if \<not> sameApprovalTimelineEvent ntext (ao_event entry) (aa_event i) then (Inr (Conflict live), s)
                     else (Inr (Replayed live), s)
                 | None \<Rightarrow>
                     (case (if aw_terminalAt live = None then pendingApprovalObservation (aw_entries live) else None) of
                        None \<Rightarrow> (Inr (Absent (Some live)), s)
                      | Some pending \<Rightarrow>
                          if ao_sourceEnvelopeId pending \<noteq> ar_expectedSourceEnvelopeId i \<or>
                             ao_revision pending \<noteq> num_int (ar_expectedRevision i)
                          then (Inr (Superseded live), s)
                          else (case record_observation ntext t i capacity now (Some live) of
                                  Inl e \<Rightarrow> (Inl e, s)
                                | Inr tail \<Rightarrow> (Inr (Applied tail), jset key tail s))))"

definition approval_read :: "tenant \<Rightarrow> string \<Rightarrow> int \<Rightarrow> approval_state \<Rightarrow> approval_tail option" where
  "approval_read t task now s =
     (case jget s (tenantKey t [task]) of
        None \<Rightarrow> None
      | Some tail \<Rightarrow> if tail_due (toISOString now) tail then None else Some tail)"

fun clear_due :: "(approval_tail \<Rightarrow> bool) \<Rightarrow> int \<Rightarrow> int \<Rightarrow> approval_state \<Rightarrow> approval_state \<times> int \<times> bool" where
  "clear_due due limit removed [] = ([], removed, False)"
| "clear_due due limit removed ((key, tail) # m) =
     (if \<not> due tail then (case clear_due due limit removed m of (m', r, again) \<Rightarrow> ((key, tail) # m', r, again))
      else if removed = limit then ((key, tail) # m, removed, True)
      else (case clear_due due limit (removed + 1) m of
              (m', r, again) \<Rightarrow> ((key, tail\<lparr>aw_entries := []\<rparr>) # m', r, again)))"

definition approval_collectExpired ::
  "tenant \<Rightarrow> collect_expired_input \<Rightarrow> approval_state \<Rightarrow> (cloud_error + collect_expired_result) \<times> approval_state" where
  "approval_collectExpired t input s =
     (case assertCollectExpiredInput input of
        Inl e \<Rightarrow> (Inl (CoreFailure e), s)
      | Inr _ \<Rightarrow>
          (case clear_due (\<lambda>tail. \<not> (aw_tenantId tail \<noteq> t \<or> aw_entries tail = [] \<or> \<not> tail_due (ci_now input) tail))
                  (num_int (ci_limit input)) 0 s of
             (s', removed, again) \<Rightarrow>
               (Inr \<lparr>cc_removed = removed, cc_expired = 0, cc_releasedBytes = 0, cr_more = again\<rparr>, s')))"

section \<open>The pending request survives eviction\<close>

lemma pending_snoc: "pendingApprovalObservation (xs @ [x]) = pending_step (pendingApprovalObservation xs) x"
  by (simp add: pendingApprovalObservation_def)


text \<open>A request that is pending in a list is pending in every list that ends with that list.\<close>

lemma pending_suffix: "foldl pending_step None ys = Some q \<Longrightarrow> foldl pending_step p ys = Some q"
  by (induction ys arbitrary: q rule: rev_induct) (auto simp: pending_step_def split: if_splits option.splits)

lemma pending_tl: "pendingApprovalObservation (x # xs) = None \<Longrightarrow> pendingApprovalObservation xs = None"
proof (rule ccontr)
  assume n: "pendingApprovalObservation (x # xs) = None" and "pendingApprovalObservation xs \<noteq> None"
  then obtain q where "foldl pending_step None xs = Some q" by (auto simp: pendingApprovalObservation_def)
  from pending_suffix [OF this, of "pending_step None x"] n show False by (simp add: pendingApprovalObservation_def)
qed

lemma pending_split:
  "pendingApprovalObservation xs = Some p \<Longrightarrow>
     \<exists>pre post. xs = pre @ p # post \<and> event_requested (ao_event p) \<and> (\<forall>d \<in> set post. \<not> event_requested (ao_event d) \<and> \<not> resolves d p)"
proof (induction xs arbitrary: p rule: rev_induct)
  case Nil
  then show ?case by (simp add: pendingApprovalObservation_def)
next
  case (snoc x xs)
  show ?case
  proof (cases "event_requested (ao_event x)")
    case True
    then have "p = x" using snoc.prems by (simp add: pending_snoc pending_step_def)
    then show ?thesis using True by (intro exI [of _ xs] exI [of _ "[]"]) simp
  next
    case False
    then have "pendingApprovalObservation xs = Some p" "\<not> resolves x p"
      using snoc.prems by (auto simp: pending_snoc pending_step_def split: option.splits if_splits)
    with snoc.IH obtain pre post where "xs = pre @ p # post" "event_requested (ao_event p)"
      "\<forall>d \<in> set post. \<not> event_requested (ao_event d) \<and> \<not> resolves d p" by blast
    with False \<open>\<not> resolves x p\<close> show ?thesis by (intro exI [of _ pre] exI [of _ "post @ [x]"]) auto
  qed
qed

lemma pending_unresolved:
  assumes "event_requested (ao_event p)" and "\<forall>d \<in> set post. \<not> event_requested (ao_event d) \<and> \<not> resolves d p"
  shows "pendingApprovalObservation (pre @ p # post) = Some p"
  using assms(2)
proof (induction post rule: rev_induct)
  case Nil
  then show ?case using assms(1) by (simp add: pending_snoc pending_step_def)
next
  case (snoc d post)
  then have "pendingApprovalObservation (pre @ p # post) = Some p" by simp
  with snoc.prems show ?case using pending_snoc [of "pre @ p # post" d] by (simp add: pending_step_def)
qed

lemma subseq_keeps:
  assumes "subseq ys xs"
  shows "set ys \<subseteq> set xs" "distinct xs \<Longrightarrow> distinct ys"
  using assms unfolding subseq_conv_nths by (auto simp: distinct_nthsI dest: in_set_nthsD)

lemma subseq_sorted: "subseq ys xs \<Longrightarrow> sorted_wrt R (map f xs) \<Longrightarrow> sorted_wrt R (map f ys)"
proof (induction rule: list_emb.induct)
  case (list_emb_Cons2 x y xs ys)
  then show ?case using subseq_keeps(1) [of xs ys] by auto
qed auto

text \<open>One removal, with at least three entries.\<close>

lemma splice_first_keeps:
  fixes f :: "approval_observation \<Rightarrow> int"
  assumes "3 \<le> length xs" and "distinct xs"
  shows "\<exists>x ys. splice_first (pendingApprovalObservation xs) xs = Some (x, ys) \<and> x \<in> set xs \<and> subseq ys xs \<and>
    length xs = Suc (length ys) \<and> last ys = last xs \<and> pendingApprovalObservation ys = pendingApprovalObservation xs \<and>
    sum_list (map f xs) = f x + sum_list (map f ys)"
proof (cases "pendingApprovalObservation xs")
  case None
  obtain x rest where xs: "xs = x # rest" "rest \<noteq> []" using assms(1) by (cases xs; cases "tl xs") auto
  show ?thesis
    using None pending_tl [of x rest] xs by (intro exI [of _ x] exI [of _ rest]) (simp add: splice_first_def list_emb_Cons)
next
  case (Some p)
  then obtain pre post where s: "xs = pre @ p # post" "event_requested (ao_event p)"
    "\<forall>d \<in> set post. \<not> event_requested (ao_event d) \<and> \<not> resolves d p"
    using pending_split by blast
  show ?thesis
  proof (cases pre)
    case (Cons x pre')
    have "x \<noteq> p" using assms(2) s(1) Cons by auto
    then have "splice_first (Some p) xs = Some (x, pre' @ p # post)" using s(1) Cons by (simp add: splice_first_def)
    moreover have "pendingApprovalObservation (pre' @ p # post) = Some p" by (rule pending_unresolved [OF s(2,3)])
    ultimately show ?thesis using Some s(1) Cons by (intro exI [of _ x] exI [of _ "pre' @ p # post"]) (auto intro: list_emb_Cons)
  next
    case Nil
    then obtain x post' where post: "post = x # post'" "post' \<noteq> []" using assms(1) s(1) by (cases post; cases "tl post") auto
    have "x \<noteq> p" using assms(2) s(1) Nil post by auto
    then have "splice_first (Some p) xs = Some (x, p # post')" using s(1) Nil post by (simp add: splice_first_def)
    moreover have "pendingApprovalObservation ([] @ p # post') = Some p" using s(3) post by (intro pending_unresolved [OF s(2)]) auto
    ultimately show ?thesis using Some s(1) Nil post by (intro exI [of _ x] exI [of _ "p # post'"]) (auto intro: list_emb_Cons list_emb_Cons2)
  qed
qed

lemma sum_two:
  fixes f :: "'a \<Rightarrow> int"
  shows "length xs \<le> 2 \<Longrightarrow> (\<And>x. x \<in> set xs \<Longrightarrow> f x \<le> b) \<Longrightarrow> 0 \<le> b \<Longrightarrow> sum_list (map f xs) \<le> 2 * b"
proof -
  assume l: "length xs \<le> 2" and b: "\<And>x. x \<in> set xs \<Longrightarrow> f x \<le> b" and "0 \<le> b"
  have "sum_list (map f xs) \<le> sum_list (map (\<lambda>_. b) xs)" by (rule sum_list_mono) (rule b)
  also have "\<dots> = int (length xs) * b" by (simp add: sum_list_triv)
  also have "\<dots> \<le> 2 * b" using l \<open>0 \<le> b\<close> by (intro mult_right_mono) simp_all
  finally show ?thesis .
qed

lemma retain_loop_keeps:
  assumes "xs \<noteq> []" and "distinct xs" and "2 \<le> capacity"
    and "\<And>x. x \<in> set xs \<Longrightarrow> 0 \<le> f x \<and> 2 * f x \<le> MAX_APPROVAL_TIMELINE_BYTES"
    and "pending = pendingApprovalObservation xs" and "bytes = sum_list (map f xs)"
  shows "\<exists>ys n. retain_loop f capacity pending xs bytes evicted = Some (ys, evicted + n) \<and> ys \<noteq> [] \<and> subseq ys xs \<and>
    last ys = last xs \<and> pendingApprovalObservation ys = pending \<and> int (length ys) \<le> capacity \<and>
    sum_list (map f ys) \<le> MAX_APPROVAL_TIMELINE_BYTES \<and> n = int (length xs) - int (length ys)"
  using assms
proof (induction f capacity pending xs bytes evicted rule: retain_loop.induct)
  case (1 f capacity pending xs bytes evicted)
  show ?case
  proof (cases "int (length xs) > capacity \<or> bytes > MAX_APPROVAL_TIMELINE_BYTES")
    case False
    then show ?thesis using "1.prems" by (intro exI [of _ xs] exI [of _ 0]) (simp add: retain_loop.simps [of f capacity])
  next
    case True
    have three: "3 \<le> length xs"
    proof (rule ccontr)
      assume "\<not> 3 \<le> length xs"
      then have two: "length xs \<le> 2" by simp
      have "2 * sum_list (map f xs) = sum_list (map (\<lambda>x. 2 * f x) xs)" by (simp add: sum_list_const_mult)
      also have "\<dots> \<le> 2 * MAX_APPROVAL_TIMELINE_BYTES"
        using "1.prems"(4) two by (intro sum_two) (auto simp: MAX_APPROVAL_TIMELINE_BYTES_def)
      finally show False using True two "1.prems"(3,6) by simp
    qed
    obtain x ys where c: "splice_first pending xs = Some (x, ys)" "x \<in> set xs" "subseq ys xs" "length xs = Suc (length ys)"
      "last ys = last xs" "pendingApprovalObservation ys = pending" "sum_list (map f xs) = f x + sum_list (map f ys)"
      using splice_first_keeps [OF three "1.prems"(2), of f] "1.prems"(5) by auto
    have "ys \<noteq> []" using three c(4) by auto
    moreover have "distinct ys" using subseq_keeps(2) [OF c(3)] "1.prems"(2) by blast
    moreover have "set ys \<subseteq> set xs" using c(3) by (rule subseq_keeps(1))
    ultimately obtain zs n where z: "retain_loop f capacity pending ys (bytes - f x) (evicted + 1) = Some (zs, evicted + 1 + n)" "zs \<noteq> []"
      "subseq zs ys" "last zs = last ys" "pendingApprovalObservation zs = pending" "int (length zs) \<le> capacity"
      "sum_list (map f zs) \<le> MAX_APPROVAL_TIMELINE_BYTES" "n = int (length ys) - int (length zs)"
      using "1.IH" [OF True c(1) refl, of ] "1.prems"(3,4,6) c(6,7) by fastforce
    have "retain_loop f capacity pending xs bytes evicted = Some (zs, evicted + (1 + n))"
      using True c(1) z(1) by (simp add: retain_loop.simps [of f capacity pending xs] add.assoc)
    moreover have "subseq zs xs" using z(3) c(3) by (rule subseq_order.order_trans)
    ultimately show ?thesis using z c(4,5) by (intro exI [of _ zs] exI [of _ "1 + n"]) simp
  qed
qed

section \<open>Two observations always fit\<close>

lemma utf8_length_le: "utf8_length s \<le> 2 * int (length s)"
  by (induction s) (auto simp: utf8_length_Cons)

lemma utf8_json_string: "utf8_length (json_string s) \<le> 6 * int (length s) + 2"
proof -
  have "utf8_length (concat (map json_escape s)) \<le> 6 * int (length s)"
  proof (induction s)
    case (Cons c s)
    then show ?case using utf8_json_escape [of c] by simp
  qed simp
  then show ?thesis by (simp add: json_string_def utf8_length_Cons)
qed

lemma nat_text_length: "n < 10 ^ k \<Longrightarrow> 0 < k \<Longrightarrow> length (nat_text n) \<le> k"
proof (induction n arbitrary: k rule: nat_text.induct)
  case (1 n)
  show ?case
  proof (cases "n < 10")
    case True
    then show ?thesis using "1.prems" by (simp add: nat_text.simps)
  next
    case False
    obtain j where j: "k = Suc j" using "1.prems"(2) by (cases k) auto
    then have k: "k = Suc j" "0 < j" using "1.prems"(1) False by (cases j; simp)+
    then have "n div 10 < 10 ^ j" using "1.prems"(1) by (simp add: less_mult_imp_div_less mult.commute)
    from "1.IH" [OF False this k(2)] show ?thesis using False k by (simp add: nat_text.simps [of n])
  qed
qed

lemma toISOString_length: "iso_instant n \<Longrightarrow> length (toISOString n) = 24"
proof -
  assume "iso_instant n"
  then have "CANONICAL_TIMESTAMP_PATTERN (toISOString n)"
    using isCanonicalTimestamp_toISOString [of n] by (auto simp: isCanonicalTimestamp_def split: if_splits)
  then show ?thesis using list_all2_lengthD by (fastforce simp: CANONICAL_TIMESTAMP_PATTERN_def)
qed

lemma observation_bytes:
  "observationBytes ntext o' = 66 + utf8_length (json_string (ao_taskId o')) + utf8_length (json_string (ao_sourceEnvelopeId o')) +
     utf8_length (number_text ntext (Fin (of_int (ao_revision o')))) + utf8_length (json_string (ao_receivedAt o')) +
     utf8_length (stringify ntext (event_json (ao_event o')))"
proof -
  have keys: "utf8_length (json_string ''taskId'') = 8" "utf8_length (json_string ''sourceEnvelopeId'') = 18"
    "utf8_length (json_string ''revision'') = 10" "utf8_length (json_string ''receivedAt'') = 12" "utf8_length (json_string ''event'') = 7"
    by code_simp+
  show ?thesis
    by (simp add: observationBytes_def observation_json_def keys utf8_length_Cons)
qed

lemma validate_approval_Inr:
  assumes "validateApprovalTimelineAppend ntext isoOk sealedOk i = Inr capacity"
  shows "2 \<le> capacity \<and> capacity \<le> 50 \<and> length (aa_taskId i) \<le> 200 \<and> length (aa_sourceEnvelopeId i) \<le> 200 \<and>
    utf8_length (stringify ntext (event_json (aa_event i))) \<le> 520192"
  using assms
  by (auto simp: validateApprovalTimelineAppend_def task_id_ok_def non_blank_id_def DEFAULT_APPROVAL_TIMELINE_CAPACITY_def
      MAX_APPROVAL_EVENT_BYTES_def MAX_APPROVAL_TIMELINE_BYTES_def Let_def split: if_splits)

lemma observation_small:
  assumes "validateApprovalTimelineAppend ntext isoOk sealedOk i = Inr capacity" and "iso_instant now"
    and "observe i now cursor = Some o'" and "\<And>n. cursor = Some n \<Longrightarrow> 0 \<le> n"
  shows "0 \<le> observationBytes ntext o' \<and> 2 * observationBytes ntext o' \<le> MAX_APPROVAL_TIMELINE_BYTES"
proof -
  note V = validate_approval_Inr [OF assms(1)]
  have o': "ao_taskId o' = aa_taskId i" "ao_sourceEnvelopeId o' = aa_sourceEnvelopeId i" "ao_receivedAt o' = toISOString now"
    "ao_event o' = aa_event i" "0 < ao_revision o'" "ao_revision o' \<le> MAX_SAFE_INTEGER"
    using assms(3,4) by (auto simp: observe_def Let_def split: if_splits option.splits)
  have "nat (ao_revision o') < 10 ^ 16" using o'(5,6) by (simp add: MAX_SAFE_INTEGER_def nat_less_iff)
  then have "length (nat_text (nat (ao_revision o'))) \<le> 16" by (rule nat_text_length) simp
  moreover have "number_text ntext (Fin (of_int (ao_revision o'))) = nat_text (nat (ao_revision o'))"
    using o'(5,6) by (simp add: int_text_def MAX_SAFE_INTEGER_def)
  ultimately have "utf8_length (number_text ntext (Fin (of_int (ao_revision o')))) \<le> 32"
    using utf8_length_le [of "nat_text (nat (ao_revision o'))"] by simp
  then show ?thesis
    using V utf8_json_string [of "aa_taskId i"] utf8_json_string [of "aa_sourceEnvelopeId i"] utf8_json_string [of "toISOString now"]
      toISOString_length [OF assms(2)]
    by (simp add: observation_bytes o' MAX_APPROVAL_TIMELINE_BYTES_def)
qed

section \<open>The timeline invariant\<close>

definition cursor_of :: "approval_tail option \<Rightarrow> int" where
  "cursor_of x = (case Option.bind x aw_cursor of None \<Rightarrow> 0 | Some n \<Rightarrow> n)"

definition entries_of :: "approval_tail option \<Rightarrow> approval_observation list" where
  "entries_of x = (case x of None \<Rightarrow> [] | Some tail \<Rightarrow> aw_entries tail)"

definition timeline_ok :: "(rat \<Rightarrow> string) \<Rightarrow> approval_tail option \<Rightarrow> bool" where
  "timeline_ok ntext x = (0 \<le> cursor_of x \<and> sorted_wrt (<) (map ao_revision (entries_of x)) \<and>
     (\<forall>e \<in> set (entries_of x). ao_revision e \<le> cursor_of x \<and> 0 \<le> observationBytes ntext e \<and>
        2 * observationBytes ntext e \<le> MAX_APPROVAL_TIMELINE_BYTES))"

definition approval_inv :: "(rat \<Rightarrow> string) \<Rightarrow> approval_state \<Rightarrow> bool" where
  "approval_inv ntext s = (jmap_ok s \<and> (\<forall>k tail. jget s k = Some tail \<longrightarrow>
     timeline_ok ntext (Some tail) \<and> (\<exists>t task. isTenantId t \<and> k = tenantKey t [task] \<and> aw_tenantId tail = t \<and> aw_taskId tail = task)))"

text \<open>The request of revision \<open>n\<close> is not, and can no longer become, the pending one.\<close>

definition not_pending :: "int \<Rightarrow> approval_tail option \<Rightarrow> bool" where
  "not_pending n x = (n \<le> cursor_of x \<and> (\<forall>p. pendingApprovalObservation (entries_of x) = Some p \<longrightarrow> ao_revision p \<noteq> n))"

definition timeline_le :: "approval_tail option \<Rightarrow> approval_tail option \<Rightarrow> bool" where
  "timeline_le a b = (cursor_of a \<le> cursor_of b \<and> (\<forall>n. not_pending n a \<longrightarrow> not_pending n b) \<and>
     (\<forall>tail. a = Some tail \<longrightarrow> aw_terminalAt tail \<noteq> None \<longrightarrow>
        (\<exists>tail'. b = Some tail' \<and> aw_terminalAt tail' = aw_terminalAt tail \<and> aw_expiresAt tail' = aw_expiresAt tail \<and>
           set (aw_entries tail') \<subseteq> set (aw_entries tail))))"

definition approval_le :: "approval_state \<Rightarrow> approval_state \<Rightarrow> bool" where
  "approval_le s s' = (\<forall>k. timeline_le (jget s k) (jget s' k))"

lemma timeline_le_refl [simp]: "timeline_le a a"
  by (auto simp: timeline_le_def)

lemma timeline_le_trans: "timeline_le a b \<Longrightarrow> timeline_le b c \<Longrightarrow> timeline_le a c"
  unfolding timeline_le_def by fastforce

lemma approval_le_refl [simp]: "approval_le s s"
  by (simp add: approval_le_def)

lemma approval_le_trans: "approval_le a b \<Longrightarrow> approval_le b c \<Longrightarrow> approval_le a c"
  unfolding approval_le_def using timeline_le_trans by blast

lemma timeline_ok_None [simp]: "timeline_ok ntext None"
  by (simp add: timeline_ok_def cursor_of_def entries_of_def)

lemma approval_inv_get: "approval_inv ntext s \<Longrightarrow> timeline_ok ntext (jget s k)"
  by (cases "jget s k") (auto simp: approval_inv_def)

lemma approval_write:
  assumes "approval_inv ntext s" and "isTenantId t" and "aw_tenantId tail = t" and "aw_taskId tail = task"
    and "timeline_ok ntext (Some tail)" and "timeline_le (jget s (tenantKey t [task])) (Some tail)"
  shows "approval_inv ntext (jset (tenantKey t [task]) tail s) \<and> approval_le s (jset (tenantKey t [task]) tail s)"
  using assms by (auto simp: approval_inv_def approval_le_def simp del: tenantKey_one)

text \<open>What a recorded observation does to the timeline.\<close>

lemma record_ok:
  assumes "validateApprovalTimelineAppend ntext isoOk sealedOk i = Inr capacity" and "iso_instant now"
    and "timeline_ok ntext x" and "cursor_of x < MAX_SAFE_INTEGER"
  shows "\<exists>obs tail. record_observation ntext t i capacity now x = Inr tail \<and>
    obs = \<lparr>ao_taskId = aa_taskId i, ao_sourceEnvelopeId = aa_sourceEnvelopeId i, ao_revision = cursor_of x + 1,
           ao_receivedAt = toISOString now, ao_event = aa_event i\<rparr> \<and>
    aw_tenantId tail = t \<and> aw_taskId tail = aa_taskId i \<and> aw_cursor tail = Some (cursor_of x + 1) \<and> aw_entries tail \<noteq> [] \<and>
    last (aw_entries tail) = obs \<and> subseq (aw_entries tail) (entries_of x @ [obs]) \<and>
    pendingApprovalObservation (aw_entries tail) = pending_step (pendingApprovalObservation (entries_of x)) obs \<and>
    int (length (aw_entries tail)) \<le> capacity \<and>
    sum_list (map (observationBytes ntext) (aw_entries tail)) \<le> MAX_APPROVAL_TIMELINE_BYTES \<and>
    timeline_ok ntext (Some tail) \<and> aw_terminalAt tail = None"
proof -
  let ?obs = "\<lparr>ao_taskId = aa_taskId i, ao_sourceEnvelopeId = aa_sourceEnvelopeId i, ao_revision = cursor_of x + 1,
           ao_receivedAt = toISOString now, ao_event = aa_event i\<rparr>"
  let ?xs = "entries_of x @ [?obs]" and ?B = "observationBytes ntext"
  have o': "observe i now (Option.bind x aw_cursor) = Some ?obs"
    using assms(4) by (simp add: observe_def cursor_of_def)
  have "0 \<le> n" if "Option.bind x aw_cursor = Some n" for n
    using assms(3) that by (simp add: timeline_ok_def cursor_of_def)
  note small = observation_small [OF assms(1,2) o' this]
  have sorted: "sorted_wrt (<) (map ao_revision ?xs)"
    using assms(3) by (auto simp: timeline_ok_def sorted_wrt_append)
  then have dist: "distinct ?xs" by (metis distinct_map strict_sorted_iff)
  have all: "0 \<le> ?B e \<and> 2 * ?B e \<le> MAX_APPROVAL_TIMELINE_BYTES" if "e \<in> set ?xs" for e
    using that small assms(3) by (auto simp: timeline_ok_def)
  have cap: "2 \<le> capacity" using validate_approval_Inr [OF assms(1)] by simp
  from retain_loop_keeps [where xs = ?xs and f = ?B and evicted = 0, OF _ dist cap all refl refl]
  obtain ys n where y: "retain_loop ?B capacity (pendingApprovalObservation ?xs) ?xs (sum_list (map ?B ?xs)) 0 = Some (ys, n)"
    "ys \<noteq> []" "subseq ys ?xs" "last ys = ?obs" "pendingApprovalObservation ys = pendingApprovalObservation ?xs"
    "int (length ys) \<le> capacity" "sum_list (map ?B ys) \<le> MAX_APPROVAL_TIMELINE_BYTES"
    by auto
  let ?tail = "\<lparr>aw_tenantId = t, aw_taskId = aa_taskId i, aw_entries = ys, aw_cursor = Some (cursor_of x + 1),
      aw_dropped = (case x of None \<Rightarrow> 0 | Some x \<Rightarrow> aw_dropped x) + n, aw_capacity = capacity, aw_terminalAt = None, aw_expiresAt = None\<rparr>"
  have r: "record_observation ntext t i capacity now x = Inr ?tail"
    using y(1) by (simp add: record_observation_def o' retainApprovalObservations_def entries_of_def [symmetric] Let_def)
  have "ao_revision e \<le> cursor_of x + 1" if "e \<in> set ys" for e
    using that subseq_keeps(1) [OF y(3)] assms(3) by (force simp: timeline_ok_def)
  moreover have "0 \<le> ?B e \<and> 2 * ?B e \<le> MAX_APPROVAL_TIMELINE_BYTES" if "e \<in> set ys" for e
    using that subseq_keeps(1) [OF y(3)] all by blast
  ultimately have "timeline_ok ntext (Some ?tail)"
    using subseq_sorted [OF y(3) sorted] assms(3) by (simp add: timeline_ok_def cursor_of_def [of "Some ?tail"] entries_of_def [of "Some ?tail"])
  then show ?thesis using r y by (intro exI [of _ ?obs] exI [of _ ?tail]) (simp add: pending_snoc)
qed

lemma record_moves:
  assumes "cursor_of x < cursor_of (Some tail)" and "pendingApprovalObservation (aw_entries tail) = pending_step (pendingApprovalObservation (entries_of x)) obs"
    and "ao_revision obs = cursor_of (Some tail)" and "\<And>y. x = Some y \<Longrightarrow> aw_terminalAt y = None"
  shows "timeline_le x (Some tail)"
proof -
  have "not_pending n (Some tail)" if "not_pending n x" for n
    using that assms by (auto simp: not_pending_def entries_of_def [of "Some tail"] pending_step_def split: if_splits option.splits)
  then show ?thesis using assms by (auto simp: timeline_le_def)
qed

section \<open>Histories of the timeline store\<close>

datatype approval_op =
    ApprovalAppend approval_append_input int
  | ApprovalResolve approval_resolve_input int
  | ApprovalRead string int
  | ApprovalCollect collect_expired_input
  | ApprovalClose string string
  | ApprovalDelete string

datatype approval_answer =
    ApprovalTail "cloud_error + approval_tail"
  | ApprovalResolved "cloud_error + approval_resolution"
  | ApprovalFound "approval_tail option"
  | ApprovalCollected "cloud_error + collect_expired_result"
  | ApprovalClosed "cloud_error + unit"
  | ApprovalDeleted int

fun approval_exec ::
  "(rat \<Rightarrow> string) \<Rightarrow> (string \<Rightarrow> bool) \<Rightarrow> (json \<Rightarrow> bool) \<Rightarrow> (string \<Rightarrow> int option) \<Rightarrow> tenant \<Rightarrow> approval_op \<Rightarrow>
   approval_state \<Rightarrow> approval_answer \<times> approval_state" where
  "approval_exec ntext isoOk sealedOk other t (ApprovalAppend i now) s = map_prod ApprovalTail id (approval_append ntext isoOk sealedOk t i now s)"
| "approval_exec ntext isoOk sealedOk other t (ApprovalResolve i now) s = map_prod ApprovalResolved id (resolvePending ntext isoOk sealedOk t i now s)"
| "approval_exec ntext isoOk sealedOk other t (ApprovalRead task now) s = (ApprovalFound (approval_read t task now s), s)"
| "approval_exec ntext isoOk sealedOk other t (ApprovalCollect i) s = map_prod ApprovalCollected id (approval_collectExpired t i s)"
| "approval_exec ntext isoOk sealedOk other t (ApprovalClose task terminalAt) s =
     map_prod ApprovalClosed id (closeApprovalTimeline other t task terminalAt s)"
| "approval_exec ntext isoOk sealedOk other t (ApprovalDelete task) s = map_prod ApprovalDeleted id (deleteApprovalTimelineTail t task s)"

text \<open>The calls of valid tenants at instants of the years 0 to 9999.\<close>

fun approval_call :: "tenant \<times> approval_op \<Rightarrow> bool" where
  "approval_call (t, ApprovalAppend i now) = (isTenantId t \<and> iso_instant now)"
| "approval_call (t, ApprovalResolve i now) = (isTenantId t \<and> iso_instant now)"
| "approval_call (t, op) = isTenantId t"

abbreviation approval_moves :: "(rat \<Rightarrow> string) \<Rightarrow> approval_state \<Rightarrow> approval_state \<Rightarrow> bool" where
  "approval_moves ntext s s' \<equiv> approval_inv ntext s' \<and> approval_le s s'"

lemma record_limit: "record_observation ntext t i capacity now x = Inr tail \<Longrightarrow> cursor_of x < MAX_SAFE_INTEGER"
  by (auto simp: record_observation_def observe_def cursor_of_def Let_def split: option.splits if_splits)

lemma recorded_moves:
  assumes "approval_inv ntext s" and "isTenantId t" and "validateApprovalTimelineAppend ntext isoOk sealedOk i = Inr capacity" and "iso_instant now"
    and "record_observation ntext t i capacity now (jget s (tenantKey t [aa_taskId i])) = Inr tail"
    and "\<And>y. jget s (tenantKey t [aa_taskId i]) = Some y \<Longrightarrow> aw_terminalAt y = None"
  shows "approval_moves ntext s (jset (tenantKey t [aa_taskId i]) tail s)"
proof -
  let ?x = "jget s (tenantKey t [aa_taskId i])"
  obtain obs where r: "aw_tenantId tail = t" "aw_taskId tail = aa_taskId i" "aw_cursor tail = Some (cursor_of ?x + 1)"
    "pendingApprovalObservation (aw_entries tail) = pending_step (pendingApprovalObservation (entries_of ?x)) obs"
    "ao_revision obs = cursor_of ?x + 1" "timeline_ok ntext (Some tail)"
    using record_ok [OF assms(3,4) approval_inv_get [OF assms(1)] record_limit [OF assms(5)], of t] assms(5) by auto
  have c: "cursor_of (Some tail) = cursor_of ?x + 1" by (simp add: cursor_of_def [of "Some tail"] r(3))
  have "timeline_le ?x (Some tail)"
    using record_moves [of ?x tail obs, OF _ r(4)] c r(5) assms(6) by simp
  then show ?thesis using approval_write [OF assms(1,2) r(1,2,6)] by simp
qed

lemma cleared_ok:
  assumes "timeline_ok ntext (Some tail)"
  shows "timeline_ok ntext (Some (tail\<lparr>aw_entries := []\<rparr>))" "timeline_le (Some tail) (Some (tail\<lparr>aw_entries := []\<rparr>))"
  using assms
  by (auto simp: timeline_ok_def timeline_le_def not_pending_def cursor_of_def entries_of_def pendingApprovalObservation_def)

lemma closed_timeline_ok:
  assumes "timeline_ok ntext x" and "\<And>y. x = Some y \<Longrightarrow> aw_terminalAt y = None"
    and "tail = (case x of None \<Rightarrow> new_timeline t task | Some y \<Rightarrow> y)"
  shows "timeline_ok ntext (Some (tail\<lparr>aw_terminalAt := a, aw_expiresAt := b\<rparr>))" "timeline_le x (Some (tail\<lparr>aw_terminalAt := a, aw_expiresAt := b\<rparr>))"
  using assms
  by (auto simp: timeline_ok_def timeline_le_def not_pending_def cursor_of_def entries_of_def new_timeline_def split: option.splits)

lemma clear_due_keys: "map fst (fst (clear_due due limit removed s)) = map fst s"
  by (induction due limit removed s rule: clear_due.induct) (auto split: prod.splits)

lemma clear_due_get:
  "jget (fst (clear_due due limit removed s)) k = jget s k \<or>
   (\<exists>tail. jget s k = Some tail \<and> jget (fst (clear_due due limit removed s)) k = Some (tail\<lparr>aw_entries := []\<rparr>))"
  by (induction due limit removed s rule: clear_due.induct) (auto simp: jget_def split: prod.splits if_splits)

lemma clear_moves:
  assumes "approval_inv ntext s"
  shows "approval_moves ntext s (fst (clear_due due limit removed s))"
proof -
  let ?s = "fst (clear_due due limit removed s)"
  have rows: "timeline_ok ntext (Some tail) \<and> (\<exists>t task. isTenantId t \<and> k = tenantKey t [task] \<and> aw_tenantId tail = t \<and> aw_taskId tail = task)"
    if "jget s k = Some tail" for k tail
    using assms that by (simp add: approval_inv_def)
  have "jmap_ok ?s" using assms by (simp add: approval_inv_def jmap_ok_def clear_due_keys)
  moreover have "timeline_ok ntext (Some tail) \<and> (\<exists>t task. isTenantId t \<and> k = tenantKey t [task] \<and> aw_tenantId tail = t \<and> aw_taskId tail = task)"
    if "jget ?s k = Some tail" for k tail
    using clear_due_get [of due limit removed s k] that rows [of k] cleared_ok(1) by fastforce
  moreover have "timeline_le (jget s k) (jget ?s k)" for k
    using clear_due_get [of due limit removed s k] rows [of k] cleared_ok(2) by auto
  ultimately show ?thesis by (simp add: approval_inv_def approval_le_def)
qed

lemma validate_resolve: "validateApprovalTimelineResolve ntext isoOk sealedOk i = Inr capacity \<Longrightarrow>
    validateApprovalTimelineAppend ntext isoOk sealedOk i = Inr capacity \<and> by_host (aa_event i)"
  by (auto simp: validateApprovalTimelineResolve_def split: sum.splits if_splits)

lemma append_moves:
  assumes "approval_inv ntext s" and "isTenantId t" and "iso_instant now"
  shows "approval_moves ntext s (snd (approval_append ntext isoOk sealedOk t i now s))"
proof (cases "snd (approval_append ntext isoOk sealedOk t i now s) = s")
  case True
  then show ?thesis using assms(1) by simp
next
  case False
  let ?x = "jget s (tenantKey t [aa_taskId i])"
  obtain capacity tail where a: "validateApprovalTimelineAppend ntext isoOk sealedOk i = Inr capacity"
    "record_observation ntext t i capacity now ?x = Inr tail" "\<And>y. ?x = Some y \<Longrightarrow> aw_terminalAt y = None"
    "snd (approval_append ntext isoOk sealedOk t i now s) = jset (tenantKey t [aa_taskId i]) tail s"
    using False by (auto simp: approval_append_def Let_def simp del: tenantKey_one split: sum.splits option.splits if_splits)
  show ?thesis unfolding a(4) by (rule recorded_moves [OF assms(1,2) a(1) assms(3) a(2,3)])
qed

lemma resolve_moves:
  assumes "approval_inv ntext s" and "isTenantId t" and "iso_instant now"
  shows "approval_moves ntext s (snd (resolvePending ntext isoOk sealedOk t i now s))"
proof (cases "snd (resolvePending ntext isoOk sealedOk t i now s) = s")
  case True
  then show ?thesis using assms(1) by simp
next
  case False
  let ?x = "jget s (tenantKey t [aa_taskId i])"
  obtain capacity tail where a: "validateApprovalTimelineResolve ntext isoOk sealedOk i = Inr capacity"
    "record_observation ntext t i capacity now ?x = Inr tail" "\<And>y. ?x = Some y \<Longrightarrow> aw_terminalAt y = None"
    "snd (resolvePending ntext isoOk sealedOk t i now s) = jset (tenantKey t [aa_taskId i]) tail s"
    using False by (auto simp: resolvePending_def Let_def simp del: tenantKey_one split: sum.splits option.splits if_splits)
  show ?thesis unfolding a(4) by (rule recorded_moves [OF assms(1,2) conjunct1 [OF validate_resolve [OF a(1)]] assms(3) a(2,3)])
qed

lemma approval_exec_moves:
  assumes "approval_inv ntext s" and "approval_call (t, op)"
  shows "approval_moves ntext s (snd (approval_exec ntext isoOk sealedOk other t op s))"
proof (cases op)
  case (ApprovalAppend i now)
  then show ?thesis using append_moves assms by simp
next
  case (ApprovalResolve i now)
  then show ?thesis using resolve_moves assms by simp
next
  case (ApprovalRead task now)
  then show ?thesis using assms by simp
next
  case (ApprovalCollect i)
  then show ?thesis using assms clear_moves by (simp add: approval_collectExpired_def split_beta split: sum.splits)
next
  case (ApprovalClose task terminalAt)
  let ?x = "jget s (tenantKey t [task])"
  have t: "isTenantId t" using assms(2) ApprovalClose by simp
  have own: "aw_tenantId y = t \<and> aw_taskId y = task" if "?x = Some y" for y
    using assms(1) t that by (fastforce simp: approval_inv_def)
  have "approval_moves ntext s (jset (tenantKey t [task]) (tail\<lparr>aw_terminalAt := a, aw_expiresAt := b\<rparr>) s)"
    if e: "tail = (case ?x of None \<Rightarrow> new_timeline t task | Some y \<Rightarrow> y)" "aw_terminalAt tail = None" for tail a b
  proof (rule approval_write [OF assms(1) t])
    have "aw_tenantId tail = t \<and> aw_taskId tail = task" using e(1) own by (cases ?x) (simp_all add: new_timeline_def)
    then show "aw_tenantId (tail\<lparr>aw_terminalAt := a, aw_expiresAt := b\<rparr>) = t" "aw_taskId (tail\<lparr>aw_terminalAt := a, aw_expiresAt := b\<rparr>) = task"
      by simp_all
    have "aw_terminalAt y = None" if "?x = Some y" for y using that e by simp
    from closed_timeline_ok [OF approval_inv_get [OF assms(1)] this e(1)]
    show "timeline_ok ntext (Some (tail\<lparr>aw_terminalAt := a, aw_expiresAt := b\<rparr>))"
      "timeline_le ?x (Some (tail\<lparr>aw_terminalAt := a, aw_expiresAt := b\<rparr>))" by blast+
  qed
  then show ?thesis
    using ApprovalClose assms(1) by (auto simp: closeApprovalTimeline_def Let_def simp del: tenantKey_one split: sum.splits)
next
  case (ApprovalDelete task)
  have t: "isTenantId t" using assms(2) ApprovalDelete by simp
  have own: "aw_tenantId y = t \<and> aw_taskId y = task" if "jget s (tenantKey t [task]) = Some y" for y
    using assms(1) t that by (fastforce simp: approval_inv_def)
  have "approval_moves ntext s (jset (tenantKey t [task]) (y\<lparr>aw_entries := []\<rparr>) s)" if y: "jget s (tenantKey t [task]) = Some y" for y
  proof (rule approval_write [OF assms(1) t])
    show "aw_tenantId (y\<lparr>aw_entries := []\<rparr>) = t" "aw_taskId (y\<lparr>aw_entries := []\<rparr>) = task" using own [OF y] by simp_all
    have "timeline_ok ntext (Some y)" using approval_inv_get [OF assms(1), of "tenantKey t [task]"] y by simp
    from cleared_ok [OF this] show "timeline_ok ntext (Some (y\<lparr>aw_entries := []\<rparr>))"
      "timeline_le (jget s (tenantKey t [task])) (Some (y\<lparr>aw_entries := []\<rparr>))" unfolding y .
  qed
  then show ?thesis
    using ApprovalDelete assms(1) by (simp add: deleteApprovalTimelineTail_def del: tenantKey_one split: option.splits)
qed

interpretation approval_history:
  monotone_store "approval_exec ntext isoOk sealedOk other" approval_call "approval_inv ntext" approval_le
  for ntext isoOk sealedOk other
  using approval_exec_moves by unfold_locales (auto intro: approval_le_trans)

lemma approval_inv_empty [simp]: "approval_inv ntext []"
  by (simp add: approval_inv_def)

section \<open>The pending slot\<close>

text \<open>
  C13. The timeline keeps what is pending: after any history of calls, a valid new observation of an
  open task is recorded with the next revision as the last entry, whatever has to be evicted for it,
  and the pending request is exactly what one step of the slot makes of it: a request takes the slot,
  a decision frees it when it names the request in it. Eviction never changes the pending request,
  never drops the new observation, and keeps the timeline within 50 entries and 1 MiB.
\<close>

theorem approval_pending_kept:
  assumes "\<forall>c \<in> set ops. approval_call c" and "s = snd (run_ops (approval_exec ntext isoOk sealedOk other) ops [])"
    and "isTenantId t" and "iso_instant now" and "x = jget s (tenantKey t [aa_taskId i])"
    and "validateApprovalTimelineAppend ntext isoOk sealedOk i = Inr capacity" and "cursor_of x < MAX_SAFE_INTEGER"
    and "\<forall>y. x = Some y \<longrightarrow> aw_terminalAt y = None \<and> source_entry (aa_sourceEnvelopeId i) y = None"
  shows "\<exists>tail obs. approval_append ntext isoOk sealedOk t i now s = (Inr tail, jset (tenantKey t [aa_taskId i]) tail s) \<and>
    ao_event obs = aa_event i \<and> ao_sourceEnvelopeId obs = aa_sourceEnvelopeId i \<and> ao_revision obs = cursor_of x + 1 \<and>
    aw_entries tail \<noteq> [] \<and> last (aw_entries tail) = obs \<and> subseq (aw_entries tail) (entries_of x @ [obs]) \<and>
    pendingApprovalObservation (aw_entries tail) = pending_step (pendingApprovalObservation (entries_of x)) obs \<and>
    length (aw_entries tail) \<le> 50 \<and> sum_list (map (observationBytes ntext) (aw_entries tail)) \<le> 1048576"
proof -
  have inv: "approval_inv ntext s" unfolding assms(2) by (rule approval_history.run_inv [OF assms(1) approval_inv_empty])
  then have ok: "timeline_ok ntext x" unfolding assms(5) by (rule approval_inv_get)
  obtain obs tail where r: "record_observation ntext t i capacity now x = Inr tail"
    "obs = \<lparr>ao_taskId = aa_taskId i, ao_sourceEnvelopeId = aa_sourceEnvelopeId i, ao_revision = cursor_of x + 1,
           ao_receivedAt = toISOString now, ao_event = aa_event i\<rparr>"
    "aw_entries tail \<noteq> []" "last (aw_entries tail) = obs" "subseq (aw_entries tail) (entries_of x @ [obs])"
    "pendingApprovalObservation (aw_entries tail) = pending_step (pendingApprovalObservation (entries_of x)) obs"
    "int (length (aw_entries tail)) \<le> capacity" "sum_list (map (observationBytes ntext) (aw_entries tail)) \<le> MAX_APPROVAL_TIMELINE_BYTES"
    using record_ok [OF assms(6,4) ok assms(7), of t] by blast
  have a: "approval_append ntext isoOk sealedOk t i now s = (Inr tail, jset (tenantKey t [aa_taskId i]) tail s)"
    using assms(6,8) r(1) by (cases x) (simp_all add: approval_append_def assms(5) [symmetric] Let_def del: tenantKey_one)
  have "length (aw_entries tail) \<le> 50" using r(7) validate_approval_Inr [OF assms(6)] by simp
  then show ?thesis using a r(2-6,8) by (intro exI [of _ tail] exI [of _ obs]) (simp add: MAX_APPROVAL_TIMELINE_BYTES_def)
qed

definition sample_request_input :: approval_append_input where
  "sample_request_input = \<lparr>aa_taskId = ''t'', aa_sourceEnvelopeId = ''e1'', aa_event = Requested ''run it?'' (Some ''A''), aa_capacity = None\<rparr>"

lemma sample_request_valid: "validateApprovalTimelineAppend (\<lambda>_. []) (\<lambda>_. True) (\<lambda>_. True) sample_request_input = Inr 50"
  by code_simp

theorem approval_pending_kept_witness:
  "\<exists>tail obs. approval_append (\<lambda>_. []) (\<lambda>_. True) (\<lambda>_. True) ''acme'' sample_request_input 0 [] = (Inr tail, [(tenantKey ''acme'' [''t''], tail)]) \<and>
     last (aw_entries tail) = obs \<and> ao_revision obs = 1 \<and> pendingApprovalObservation (aw_entries tail) = Some obs"
proof -
  have z: "cursor_of None < MAX_SAFE_INTEGER" by (simp add: cursor_of_def MAX_SAFE_INTEGER_def)
  have e: "aa_taskId sample_request_input = ''t''" "event_requested (aa_event sample_request_input)" by (simp_all add: sample_request_input_def)
  have "\<exists>tail obs. approval_append (\<lambda>_. []) (\<lambda>_. True) (\<lambda>_. True) ''acme'' sample_request_input 0 [] =
        (Inr tail, jset (tenantKey ''acme'' [aa_taskId sample_request_input]) tail []) \<and>
      ao_event obs = aa_event sample_request_input \<and> ao_revision obs = cursor_of None + 1 \<and> last (aw_entries tail) = obs \<and>
      pendingApprovalObservation (aw_entries tail) = pending_step (pendingApprovalObservation (entries_of None)) obs"
    using approval_pending_kept [of "[]" "[]" "\<lambda>_. []" "\<lambda>_. True" "\<lambda>_. True" "\<lambda>_. None" "''acme''" 0 None sample_request_input 50]
      sample_request_valid z
    by (simp add: iso_instant_def) blast
  then show ?thesis using e by (auto simp: pending_step_def jset_new cursor_of_def simp del: tenantKey_one)
qed

text \<open>
  The comment on \<open>pendingApprovalObservation\<close> says that a resolution without an id resolves the
  single outstanding request; the fold lets a request that has an id stand.
\<close>

lemma idless_resolution_ignored:
  assumes "event_requested (ao_event p)" and "event_approvalId (ao_event p) = Some a"
    and "\<not> event_requested (ao_event d)" and "event_approvalId (ao_event d) = None"
  shows "pendingApprovalObservation [p, d] = Some p"
  using assms by (simp add: pendingApprovalObservation_def pending_step_def resolves_def)





section \<open>A closed timeline\<close>

definition timeline_shut :: "tenant \<Rightarrow> string \<Rightarrow> approval_state \<Rightarrow> bool" where
  "timeline_shut t task s = (case jget s (tenantKey t [task]) of None \<Rightarrow> False | Some tail \<Rightarrow> aw_terminalAt tail \<noteq> None)"

lemma timeline_shut_le:
  assumes "timeline_shut t task s" and "approval_le s s'"
  shows "timeline_shut t task s'"
proof -
  obtain tail where tail: "jget s (tenantKey t [task]) = Some tail" "aw_terminalAt tail \<noteq> None"
    using assms(1) by (auto simp: timeline_shut_def split: option.splits)
  have "timeline_le (jget s (tenantKey t [task])) (jget s' (tenantKey t [task]))" using assms(2) by (simp add: approval_le_def)
  then show ?thesis using tail by (auto simp: timeline_le_def timeline_shut_def)
qed

lemma close_shuts_timeline:
  assumes "iso_instant n"
  shows "fst (closeApprovalTimeline other t task (toISOString n) s) = Inr () \<and>
    timeline_shut t task (snd (closeApprovalTimeline other t task (toISOString n) s))"
proof -
  have "\<bar>n + DEFAULT_APPROVAL_TIMELINE_TTL_MS\<bar> \<le> MAX_DATE"
    using assms unfolding iso_instant_def MAX_DATE_def DEFAULT_APPROVAL_TIMELINE_TTL_MS_def by linarith
  from stamp_after_iso [OF assms this] show ?thesis
    by (auto simp: closeApprovalTimeline_def timeline_shut_def new_timeline_def Let_def split: option.splits)
qed

text \<open>A closed timeline takes no observation and applies no decision.\<close>

lemma shut_timeline:
  assumes "timeline_shut t (aa_taskId i) s"
  shows "snd (approval_append ntext isoOk sealedOk t i now s) = s"
  using assms by (auto simp: timeline_shut_def approval_append_def Let_def split: option.splits sum.splits if_splits)

lemma shut_timeline_resolve:
  assumes "timeline_shut t (aa_taskId j) s"
  shows "snd (resolvePending ntext isoOk sealedOk t j now s) = s"
  using assms by (auto simp: timeline_shut_def resolvePending_def Let_def split: option.splits sum.splits if_splits)

end
