(* ===== verification/Task_Output.thy ===== *)
theory Task_Output
  imports Activity Approvals Task_Attempts
begin

text \<open>
  Closing a task's output (\<open>createInMemoryCloudStores\<close> of
  \<open>packages/cloud/src/stores/in-memory/index.ts\<close>, lines 101 to 107): the write of an attempt that
  first closes its output also closes the task's activity log and its approval timeline, in the same
  step. \<open>drawn t task\<close> is the identifier a log opened by that step draws. The calls read a clock of
  the years 0 to 9999, on which closing cannot fail (\<open>close_shuts\<close>, \<open>close_shuts_timeline\<close>).
\<close>

section \<open>The three stores\<close>

record task_output =
  to_tasks :: attempt_state
  to_activity :: activity_state
  to_approvals :: approval_state

definition empty_output :: task_output where
  "empty_output = \<lparr>to_tasks = empty_attempts, to_activity = [], to_approvals = []\<rparr>"

fun close_output ::
  "(string \<Rightarrow> int option) \<Rightarrow> (tenant \<Rightarrow> string \<Rightarrow> string) \<Rightarrow> task_event \<Rightarrow> activity_state \<times> approval_state \<Rightarrow> activity_state \<times> approval_state" where
  "close_output other drawn (OutputClosed t task terminalAt) (act, app) =
     (snd (closeActivityLog other t task terminalAt (drawn t task) act), snd (closeApprovalTimeline other t task terminalAt app))"
| "close_output other drawn (TaskChanged t task) logs = logs"

fun close_outputs ::
  "(string \<Rightarrow> int option) \<Rightarrow> (tenant \<Rightarrow> string \<Rightarrow> string) \<Rightarrow> task_event list \<Rightarrow> activity_state \<times> approval_state \<Rightarrow> activity_state \<times> approval_state" where
  "close_outputs other drawn [] logs = logs"
| "close_outputs other drawn (e # es) logs = close_outputs other drawn es (close_output other drawn e logs)"

datatype output_op =
    OutTask attempt_op
  | OutActivity activity_op
  | OutApproval approval_op

datatype output_answer =
    OutTaskAnswer attempt_answer
  | OutActivityAnswer activity_answer
  | OutApprovalAnswer approval_answer

fun output_exec ::
  "(rat \<Rightarrow> string) \<Rightarrow> (string \<Rightarrow> string) \<Rightarrow> (activity_input \<Rightarrow> bool) \<Rightarrow> (string \<Rightarrow> bool) \<Rightarrow> (json \<Rightarrow> bool) \<Rightarrow> (string \<Rightarrow> int option) \<Rightarrow>
   (tenant \<Rightarrow> string \<Rightarrow> string) \<Rightarrow> tenant \<Rightarrow> output_op \<Rightarrow> task_output \<Rightarrow> output_answer \<times> task_output" where
  "output_exec ntext digest schema isoOk sealedOk other drawn t (OutTask op) s =
     (case attempt_exec t op (to_tasks s) of
        (r, a) \<Rightarrow>
          (case close_outputs other drawn (drop (length (as_events (to_tasks s))) (as_events a)) (to_activity s, to_approvals s) of
             (act, app) \<Rightarrow> (OutTaskAnswer r, \<lparr>to_tasks = a, to_activity = act, to_approvals = app\<rparr>)))"
| "output_exec ntext digest schema isoOk sealedOk other drawn t (OutActivity op) s =
     (case activity_exec ntext digest schema other t op (to_activity s) of (r, act) \<Rightarrow> (OutActivityAnswer r, s\<lparr>to_activity := act\<rparr>))"
| "output_exec ntext digest schema isoOk sealedOk other drawn t (OutApproval op) s =
     (case approval_exec ntext isoOk sealedOk other t op (to_approvals s) of (r, app) \<Rightarrow> (OutApprovalAnswer r, s\<lparr>to_approvals := app\<rparr>))"

fun attempt_now :: "attempt_op \<Rightarrow> int option" where
  "attempt_now (AOpen _ _ _ now) = Some now"
| "attempt_now (AReserveOffer _ _ _ now) = Some now"
| "attempt_now (AReserveMessage _ now) = Some now"
| "attempt_now (AFirstOutput _ _ now) = Some now"
| "attempt_now (AClaim _ now) = Some now"
| "attempt_now (ARecordStatus _ now) = Some now"
| "attempt_now (ASettle _ _ now) = Some now"
| "attempt_now (ACancel _ _ now) = Some now"
| "attempt_now (AAbandon _ _ now) = Some now"
| "attempt_now _ = None"

fun output_call :: "tenant \<times> output_op \<Rightarrow> bool" where
  "output_call (t, OutTask op) = (isTenantId t \<and> (case attempt_now op of None \<Rightarrow> True | Some now \<Rightarrow> iso_instant now))"
| "output_call (t, OutActivity op) = isTenantId t"
| "output_call (t, OutApproval op) = approval_call (t, op)"

section \<open>The instants of the closing events\<close>

definition stamp :: "string \<Rightarrow> bool" where
  "stamp x = (\<exists>n. iso_instant n \<and> x = toISOString n)"

definition stamped_row :: "task_attempt \<Rightarrow> bool" where
  "stamped_row a = ((\<forall>x. ta_terminalAt a = Some x \<longrightarrow> stamp x) \<and> (\<forall>c. ta_cancellation a = Some c \<longrightarrow> stamp (tc_requestedAt c)))"

fun stamped_event :: "task_event \<Rightarrow> bool" where
  "stamped_event (OutputClosed t task x) = (isTenantId t \<and> stamp x)"
| "stamped_event (TaskChanged t task) = True"

definition stamped_rows :: "attempt_state \<Rightarrow> bool" where
  "stamped_rows s = (\<forall>k a. jget (as_attempts s) k = Some a \<longrightarrow> isTenantId (ta_tenantId a) \<and> stamped_row a)"

text \<open>Every closing event of a step carries an instant of the clock, of a valid tenant.\<close>

definition stamped_step :: "attempt_state \<Rightarrow> attempt_state \<Rightarrow> bool" where
  "stamped_step s s' =
     (stamped_rows s \<longrightarrow> stamped_rows s' \<and> (\<exists>new. as_events s' = as_events s @ new \<and> list_all stamped_event new))"

lemma stamped_step_refl [simp]: "stamped_step s s"
  by (simp add: stamped_step_def)

lemma stamped_step_trans: "stamped_step a b \<Longrightarrow> stamped_step b c \<Longrightarrow> stamped_step a c"
  unfolding stamped_step_def by (metis append.assoc list_all_append)

lemma stamped_admission [simp]: "stamped_step s (s\<lparr>as_messageAdmissions := m\<rparr>)"
  by (simp add: stamped_step_def stamped_rows_def)

lemma stamped_set:
  assumes "stamped_rows s \<Longrightarrow> isTenantId (ta_tenantId a) \<and> stamped_row a"
  shows "stamped_step s (attempt_set k a s)"
proof -
  have "stamped_rows (attempt_set k a s) \<and> (\<exists>new. as_events (attempt_set k a s) = as_events s @ new \<and> list_all stamped_event new)"
    if "stamped_rows s"
    using assms [OF that] that
    by (auto simp: stamped_rows_def stamped_row_def attempt_set_def outputClosedAt_def Let_def split: option.splits)
  then show ?thesis by (simp add: stamped_step_def)
qed

lemma stamped_write:
  assumes "jget (as_attempts s) k = Some b" and "ta_tenantId a = ta_tenantId b" and "stamped_row b \<Longrightarrow> stamped_row a"
  shows "stamped_step s (attempt_set k a s)"
  using assms by (intro stamped_set) (auto simp: stamped_rows_def)

lemma stamp_now: "iso_instant now \<Longrightarrow> stamp (toISOString now)"
  by (auto simp: stamp_def)

lemma stamped_abandoned: "stamped_row b \<Longrightarrow> stamp now \<Longrightarrow> stamped_row (abandoned b cause now)"
  by (auto simp: stamped_row_def abandoned_def split: option.splits)

lemma stamped_settle_loop:
  assumes "\<forall>(k, a) \<in> set rows. jget (as_attempts s) k = Some a" and "distinct (map fst rows)" and "stamp now"
  shows "stamped_step s (settle_loop t dev cause now rows s)"
  using assms(1,2)
proof (induction rows arbitrary: s)
  case (Cons e rows)
  obtain k a where e: "e = (k, a)" by (cases e)
  let ?s = "attempt_set k (abandoned a cause now) s"
  have rows: "\<forall>(k, a) \<in> set rows. jget (as_attempts s) k = Some a" "\<forall>(k, a) \<in> set rows. jget (as_attempts ?s) k = Some a"
    using Cons.prems by (force simp: e)+
  have "stamped_step s ?s"
    using Cons.prems(1) stamped_abandoned [OF _ assms(3)] by (intro stamped_write [of s k a]) (simp_all add: e abandoned_def)
  with Cons.IH [OF rows(1)] Cons.IH [OF rows(2)] Cons.prems(2) show ?case
    by (auto simp: e intro: stamped_step_trans)
qed simp

lemma attempt_exec_stamped:
  assumes "output_call (t, OutTask op)" and "attempts_inv s"
  shows "stamped_step s (snd (attempt_exec t op s))"
proof (cases op)
  case (AOpen task dev ref now)
  have "stamped_step s (attempt_set k (fresh_attempt t task dev ref n) s)" for k n
    using assms(1) AOpen by (intro stamped_set) (simp add: stamped_row_def fresh_attempt_def)
  then show ?thesis by (simp add: AOpen attempt_open_def Let_def split: option.splits)
next
  case (AReserveOffer task dev ref now)
  have "stamped_step s (attempt_set k (fresh_attempt t task dev (Some ref) n) s)" for k n
    using assms(1) AReserveOffer by (intro stamped_set) (simp add: stamped_row_def fresh_attempt_def)
  then show ?thesis by (simp add: AReserveOffer reserveAgentOffer_def Let_def split: option.splits)
next
  case (AReserveMessage i now)
  have "stamped_step s (attempt_set k (a\<lparr>ta_firstOutputAt := x\<rparr>) (s\<lparr>as_messageAdmissions := m\<rparr>))"
    if "jget (as_attempts s) k = Some a" for k a x m
    by (rule stamped_step_trans [OF stamped_admission stamped_write [of _ k a]]) (simp_all add: that stamped_row_def)
  then show ?thesis by (simp add: AReserveMessage reserveAgentMessage_def Let_def split: option.splits)
next
  case (AFirstOutput task dev now)
  have "stamped_step s (attempt_set k (a\<lparr>ta_firstOutputAt := x\<rparr>) s)" if "jget (as_attempts s) k = Some a" for k a x
    by (rule stamped_write [OF that]) (simp_all add: stamped_row_def)
  then show ?thesis by (simp add: AFirstOutput recordFirstOutput_def Let_def split: option.splits)
next
  case (AClaim i now)
  then show ?thesis
    by (auto simp: attempt_claim_def Let_def simp del: tenantKey_one split: option.splits intro!: stamped_write)
      (simp_all add: stamped_row_def)
next
  case (ARecordStatus i now)
  have "stamp (toISOString now)" using assms(1) ARecordStatus by (simp add: stamp_now)
  then show ?thesis
    using ARecordStatus
    by (auto simp: recordStatus_def Let_def simp del: tenantKey_one split: option.splits intro!: stamped_write)
      (auto simp: stamped_row_def)
next
  case (ASettle dev cause now)
  have "stamp (toISOString now)" using assms(1) ASettle by (simp add: stamp_now)
  then show ?thesis
    using ASettle assms(2) stamped_settle_loop [of "as_attempts s" s "toISOString now"]
    by (auto simp: settleDeviceAttempts_def attempts_inv_def jmap_ok_def jget_Some_iff)
next
  case (ACancel task reason now)
  have "stamp (toISOString now)" using assms(1) ACancel by (simp add: stamp_now)
  then show ?thesis
    using ACancel
    by (auto simp: cancel_attempt_def cancellation_written_def Let_def simp del: tenantKey_one split: option.splits intro!: stamped_write)
      (auto simp: stamped_row_def)
next
  case (AAbandon task cause now)
  have "stamp (toISOString now)" using assms(1) AAbandon by (simp add: stamp_now)
  then show ?thesis
    using AAbandon stamped_abandoned
    by (auto simp: abandon_attempt_def Let_def abandoned_def simp del: tenantKey_one split: option.splits intro!: stamped_write)
      (auto simp: stamped_row_def split: option.splits)
next
  case (AFinalize i body)
  then show ?thesis by (simp add: finalizeAgentMessage_def terminalize_def Let_def split: option.splits)
qed simp_all

section \<open>The logs close with the task\<close>

lemma close_output_moves:
  assumes "stamped_event e" and "activity_inv ntext act" and "approval_inv ntext app" and "close_output other drawn e (act, app) = (act', app')"
  shows "log_moves ntext act act' \<and> approval_moves ntext app app' \<and>
    (\<forall>t task x. e = OutputClosed t task x \<longrightarrow> log_shut t task act' \<and> timeline_shut t task app')"
proof (cases e)
  case (OutputClosed t task x)
  then obtain n where n: "isTenantId t" "iso_instant n" "x = toISOString n" using assms(1) by (auto simp: stamp_def)
  have "act' = snd (closeActivityLog other t task x (drawn t task) act)" "app' = snd (closeApprovalTimeline other t task x app)"
    using assms(4) OutputClosed by simp_all
  then show ?thesis
    using close_moves [OF assms(2) n(1), of other task x "drawn t task"] close_shuts [OF n(2) assms(2) n(1), of other task "drawn t task"]
      approval_exec_moves [OF assms(3), of t "ApprovalClose task x" undefined undefined other] close_shuts_timeline [OF n(2), of other t task app]
      n(1) OutputClosed by (simp add: n(3))
next
  case (TaskChanged t task)
  then show ?thesis using assms by simp
qed

lemma close_outputs_moves:
  assumes "list_all stamped_event es" and "activity_inv ntext act" and "approval_inv ntext app"
    and "close_outputs other drawn es (act, app) = (act', app')"
  shows "log_moves ntext act act' \<and> approval_moves ntext app app' \<and>
    (\<forall>t task x. OutputClosed t task x \<in> set es \<longrightarrow> log_shut t task act' \<and> timeline_shut t task app')"
  using assms
proof (induction es arbitrary: act app)
  case (Cons e es)
  obtain act1 app1 where c: "close_output other drawn e (act, app) = (act1, app1)" by (cases "close_output other drawn e (act, app)")
  have e: "stamped_event e" using Cons.prems(1) by simp
  note M = close_output_moves [OF e Cons.prems(2,3) c]
  have R: "log_moves ntext act1 act' \<and> approval_moves ntext app1 app' \<and>
      (\<forall>t task x. OutputClosed t task x \<in> set es \<longrightarrow> log_shut t task act' \<and> timeline_shut t task app')"
    using Cons.prems M by (intro Cons.IH) (simp_all add: c)
  have E: "log_shut t task act' \<and> timeline_shut t task app'" if "e = OutputClosed t task x" for t task x
  proof -
    have "log_shut t task act1" "timeline_shut t task app1" "activity_le act1 act'" "approval_le app1 app'" using M R that by simp_all
    then show ?thesis using log_shut_le timeline_shut_le by blast
  qed
  have "log_shut t task act' \<and> timeline_shut t task app'" if "OutputClosed t task x \<in> set (e # es)" for t task x
  proof (cases "e = OutputClosed t task x")
    case False
    then have "OutputClosed t task x \<in> set es" using that by auto
    then show ?thesis using R by blast
  qed (rule E)
  moreover have "activity_le act act'" using M R activity_le_trans [of act act1 act'] by simp
  moreover have "approval_le app app'" using M R approval_le_trans [of app app1 app'] by simp
  ultimately show ?case using R by blast
qed simp

definition output_inv :: "(rat \<Rightarrow> string) \<Rightarrow> task_output \<Rightarrow> bool" where
  "output_inv ntext s = (attempts_inv (to_tasks s) \<and> stamped_rows (to_tasks s) \<and> activity_inv ntext (to_activity s) \<and>
     approval_inv ntext (to_approvals s) \<and>
     (\<forall>t task a. isTenantId t \<longrightarrow> attempt_get t task (to_tasks s) = Some a \<longrightarrow> outputClosedAt a \<noteq> None \<longrightarrow>
        log_shut t task (to_activity s) \<and> timeline_shut t task (to_approvals s)))"

lemma output_inv_empty [simp]: "output_inv ntext empty_output"
  by (simp add: output_inv_def empty_output_def stamped_rows_def attempt_get_def empty_attempts_def [of] attempts_inv_empty [unfolded empty_attempts_def])

lemma is_close_iff: "is_close t task e \<longleftrightarrow> (\<exists>x. e = OutputClosed t task x)"
  by (cases e) auto

text \<open>A step that closes an attempt reports it.\<close>

lemma closing_event:
  assumes "attempts_inv s" and "attempts_inv s'" and "as_events s' = as_events s @ new" and "isTenantId t"
    and "attempt_get t task s' = Some a" and "outputClosedAt a \<noteq> None"
    and "\<And>b. attempt_get t task s = Some b \<Longrightarrow> outputClosedAt b = None"
  shows "\<exists>x. OutputClosed t task x \<in> set new"
proof -
  have "length (closes t task s') = 1"
    using assms(2,4-6) by (simp add: attempts_inv_def attempt_get_def close_of_def)
  moreover have "length (closes t task s) = 0"
    using assms(1,4,7) by (cases "attempt_get t task s") (simp_all add: attempts_inv_def attempt_get_def close_of_def)
  ultimately have "filter (is_close t task) new \<noteq> []" using assms(3) by (auto simp: closes_def)
  then show ?thesis by (auto simp: filter_empty_conv is_close_iff)
qed

lemma output_exec_inv:
  assumes "output_call (t, op)" and "output_inv ntext s"
  shows "output_inv ntext (snd (output_exec ntext digest schema isoOk sealedOk other drawn t op s))"
proof (cases op)
  case (OutTask top)
  have inv: "attempts_inv (to_tasks s)" "stamped_rows (to_tasks s)" "activity_inv ntext (to_activity s)" "approval_inv ntext (to_approvals s)"
    using assms(2) by (simp_all add: output_inv_def)
  have t: "isTenantId t" using assms(1) OutTask by simp
  obtain r a where a: "attempt_exec t top (to_tasks s) = (r, a)" by (cases "attempt_exec t top (to_tasks s)")
  have keeps: "attempts_inv a" "attempts_le (to_tasks s) a"
    using attempt_exec_keeps [OF t inv(1), of top] inv(1) by (simp_all add: a attempt_keeps_def)
  obtain new where new: "stamped_rows a" "as_events a = as_events (to_tasks s) @ new" "list_all stamped_event new"
    using attempt_exec_stamped [OF _ inv(1), of t top] assms(1) inv(2) OutTask by (auto simp: a stamped_step_def)
  obtain act app where c: "close_outputs other drawn new (to_activity s, to_approvals s) = (act, app)"
    by (cases "close_outputs other drawn new (to_activity s, to_approvals s)")
  note M = close_outputs_moves [OF new(3) inv(3,4) c]
  have "log_shut u task act \<and> timeline_shut u task app"
    if u: "isTenantId u" "attempt_get u task a = Some b" "outputClosedAt b \<noteq> None" for u task b
  proof (cases "\<exists>b0. attempt_get u task (to_tasks s) = Some b0 \<and> outputClosedAt b0 \<noteq> None")
    case True
    then have "log_shut u task (to_activity s)" "timeline_shut u task (to_approvals s)"
      using assms(2) u(1) unfolding output_inv_def by blast+
    then show ?thesis using M log_shut_le timeline_shut_le by blast
  next
    case False
    then show ?thesis using closing_event [OF inv(1) keeps(1) new(2) u] M by blast
  qed
  then show ?thesis using OutTask M keeps(1) new(1,2) by (simp add: a c output_inv_def)
next
  case (OutActivity aop)
  have inv: "activity_inv ntext (to_activity s)" using assms(2) by (simp add: output_inv_def)
  have "isTenantId t" using assms(1) OutActivity by simp
  note M = activity_exec_moves [OF inv this, of digest schema other aop]
  then have shut: "log_shut u task (to_activity s) \<Longrightarrow> log_shut u task (snd (activity_exec ntext digest schema other t aop (to_activity s)))" for u task
    using log_shut_le by blast
  then show ?thesis using assms(2) M OutActivity by (auto simp: output_inv_def split_beta)
next
  case (OutApproval aop)
  have inv: "approval_inv ntext (to_approvals s)" using assms(2) by (simp add: output_inv_def)
  have "approval_call (t, aop)" using assms(1) OutApproval by simp
  note M = approval_exec_moves [OF inv this, of isoOk sealedOk other]
  then have shut: "timeline_shut u task (to_approvals s) \<Longrightarrow> timeline_shut u task (snd (approval_exec ntext isoOk sealedOk other t aop (to_approvals s)))" for u task
    using timeline_shut_le by blast
  then show ?thesis using assms(2) M OutApproval by (auto simp: output_inv_def split_beta)
qed

interpretation output_history:
  invariant_store "output_exec ntext digest schema isoOk sealedOk other drawn" output_call "output_inv ntext"
  for ntext digest schema isoOk sealedOk other drawn
  using output_exec_inv by unfold_locales blast

text \<open>
  C15. A task's output closes as one: after any history of calls on the attempts, the activity logs
  and the approval timelines, once an attempt is terminal or its cancellation is recorded, no call
  adds to what the task shows. An activity append is refused, or is the replay of an accepted source
  and leaves the cursor and adds no entry; an approval observation or decision changes nothing.
\<close>

theorem output_closes_as_one:
  assumes "\<forall>c \<in> set ops. output_call c" and "isTenantId t"
    and "s = snd (run_ops (output_exec ntext digest schema isoOk sealedOk other drawn) ops empty_output)"
    and "attempt_get t task (to_tasks s) = Some a" and "ta_terminalAt a \<noteq> None \<or> ta_cancellation a \<noteq> None"
  shows "(\<forall>i uuid now. ai_taskId i = task \<longrightarrow>
       (\<exists>e. activity_append ntext digest schema t i uuid now (to_activity s) = (Inl e, to_activity s)) \<or>
       (\<exists>tail s' lg. activity_append ntext digest schema t i uuid now (to_activity s) = (Inr tail, s') \<and>
          jget (to_activity s) (tenantKey t [task]) = Some lg \<and> at_cursor tail = at_cursor (lg_tail lg) \<and>
          set (at_entries tail) \<subseteq> set (at_entries (lg_tail lg)))) \<and>
    (\<forall>i now. aa_taskId i = task \<longrightarrow> snd (approval_append ntext isoOk sealedOk t i now (to_approvals s)) = to_approvals s) \<and>
    (\<forall>i now. aa_taskId i = task \<longrightarrow> snd (resolvePending ntext isoOk sealedOk t i now (to_approvals s)) = to_approvals s)"
proof -
  have inv: "output_inv ntext s" unfolding assms(3) by (rule output_history.run_inv [OF assms(1) output_inv_empty])
  have "outputClosedAt a \<noteq> None" using assms(5) by (auto simp: outputClosedAt_def split: option.splits)
  then have shut: "log_shut t task (to_activity s)" "timeline_shut t task (to_approvals s)"
    using inv assms(2,4) by (simp_all add: output_inv_def)
  have act: "activity_inv ntext (to_activity s)" using inv by (simp add: output_inv_def)
  have "(\<exists>e. activity_append ntext digest schema t i uuid now (to_activity s) = (Inl e, to_activity s)) \<or>
       (\<exists>tail s' lg. activity_append ntext digest schema t i uuid now (to_activity s) = (Inr tail, s') \<and>
          jget (to_activity s) (tenantKey t [task]) = Some lg \<and> at_cursor tail = at_cursor (lg_tail lg) \<and>
          set (at_entries tail) \<subseteq> set (at_entries (lg_tail lg)))" if "ai_taskId i = task" for i uuid now
    using shut_append [OF act assms(2), of i digest schema uuid now] shut(1) that
    by (auto simp: expire_log_def emptied_def simp del: tenantKey_one)
  then show ?thesis
    using shut_timeline shut_timeline_resolve shut(2) by metis
qed

definition sample_output :: task_output where
  "sample_output = snd (run_ops (output_exec (\<lambda>_. []) id (\<lambda>_. True) (\<lambda>_. True) (\<lambda>_. True) (\<lambda>_. None) (\<lambda>_ _. ''g''))
     [(''acme'', OutTask (AOpen ''t'' ''d'' None 0)), (''acme'', OutTask (ACancel ''t'' None 5))] empty_output)"

theorem output_closes_as_one_witness:
  "snd (approval_append (\<lambda>_. []) (\<lambda>_. True) (\<lambda>_. True) ''acme'' sample_request_input 9 (to_approvals sample_output)) = to_approvals sample_output"
proof -
  have "case attempt_get ''acme'' ''t'' (to_tasks sample_output) of Some a \<Rightarrow> ta_cancellation a \<noteq> None | None \<Rightarrow> False" by code_simp
  then obtain a where "attempt_get ''acme'' ''t'' (to_tasks sample_output) = Some a" "ta_cancellation a \<noteq> None"
    by (auto split: option.splits)
  then show ?thesis
    using output_closes_as_one [OF _ _ sample_output_def, of "''acme''" "''t''" a] by (simp add: iso_instant_def sample_request_input_def)
qed

end
