(* ===== verification/Receipts.thy ===== *)
theory Receipts
  imports Task_Attempts Cloud_Errors Json "HOL-Library.Multiset"
begin

text \<open>
  The stores that keep the first fact: request receipts with their retention classes
  (\<open>cloud/src/stores/in-memory/receipts.ts\<close>, \<open>cloud/src/receipt-retention.ts\<close>), the receipts of used
  device-proof requests (\<open>proof-receipts.ts\<close>) and the reliable egress facts of Agents
  (\<open>agent-egress.ts\<close>, \<open>cloud/src/agent-reliability.ts\<close>). They share one contract, the locale
  \<open>write_once\<close>: the first write of a key is stored, every later one is answered with it.
\<close>

section \<open>The contract: the first write wins\<close>

primrec answers :: "('i \<Rightarrow> 's \<Rightarrow> ('r \<times> bool) \<times> 's) \<Rightarrow> 'i list \<Rightarrow> 's \<Rightarrow> ('r \<times> bool) list" where
  "answers rec [] s = []"
| "answers rec (i # is) s = fst (rec i s) # answers rec is (snd (rec i s))"

locale write_once =
  fixes rec :: "'i \<Rightarrow> 's \<Rightarrow> ('r \<times> bool) \<times> 's"
    and lookup :: "'s \<Rightarrow> 'k \<Rightarrow> 'r option"
    and key :: "'i \<Rightarrow> 'k"
  assumes record_known: "lookup s (key i) = Some r \<Longrightarrow> rec i s = ((r, False), s)"
    and record_new: "lookup s (key i) = None \<Longrightarrow> \<exists>r. fst (rec i s) = (r, True) \<and> lookup (snd (rec i s)) (key i) = Some r"
    and record_frame: "k \<noteq> key i \<Longrightarrow> lookup (snd (rec i s)) k = lookup s k"
begin

lemma record_answer: "rec i s = ((r, c), s') \<Longrightarrow> lookup s' (key i) = Some r \<and> c = (lookup s (key i) = None)"
  using record_known [of s i] record_new [of s i] by (cases "lookup s (key i)") auto

lemma record_keeps: "lookup s k = Some r \<Longrightarrow> lookup (snd (rec i s)) k = Some r"
  using record_known [of s i r] record_frame [of k i s] by (cases "k = key i") auto

text \<open>
  Of any sequence of writes exactly the first of each new key is created, and all writes of one key
  get the same row.
\<close>

lemma answers_once:
  "n < length is \<Longrightarrow> snd (answers rec is s ! n) = (lookup s (key (is ! n)) = None \<and> key (is ! n) \<notin> key ` set (take n is))"
proof (induction "is" arbitrary: n s)
  case (Cons i "is")
  obtain r c s' where rec: "rec i s = ((r, c), s')" by (cases "rec i s") auto
  note A = record_answer [OF rec]
  show ?case
  proof (cases n)
    case 0
    then show ?thesis using A by (simp add: rec)
  next
    case (Suc m)
    have "(lookup s' k = None) = (lookup s k = None \<and> k \<noteq> key i)" for k
      using A record_frame [of k i s] by (cases "k = key i") (auto simp: rec)
    then show ?thesis using Cons.IH [of m s'] Cons.prems by (auto simp: Suc rec)
  qed
qed simp

lemma answers_known:
  "lookup s k = Some r \<Longrightarrow> n < length is \<Longrightarrow> key (is ! n) = k \<Longrightarrow> answers rec is s ! n = (r, False)"
proof (induction "is" arbitrary: n s)
  case (Cons i "is")
  show ?case
  proof (cases n)
    case 0
    then show ?thesis using Cons.prems record_known [of s i r] by simp
  next
    case (Suc m)
    then show ?thesis using Cons.IH [OF record_keeps [OF Cons.prems(1), of i], of m] Cons.prems by simp
  qed
qed simp

end

section \<open>Retention classes of receipts\<close>

datatype receipt_class = Identity | Request

type_synonym retention_table = "(string \<times> receipt_class) list"

definition RECEIPT_RETENTION :: retention_table where
  "RECEIPT_RETENTION = map (\<lambda>p. (p, Identity))
     [''task-offer:'', ''task-offer-delivered:'', ''task:'', ''agent-message-offer:'',
      ''agent-content-request:'', ''agent-content-receipt:'',
      ''agent-home-projection-request:'', ''agent-home-projection-completion:'',
      ''agent-input-preparation-request:'', ''agent-input-preparation-completion:'',
      ''pairing-completion:v1:'', ''task-redaction:'', ''e2ee-scope-shred:'']"

definition request_prefixes :: "retention_table \<Rightarrow> string list" where
  "request_prefixes table = map fst (filter (\<lambda>e. snd e = Request) table)"

definition REQUEST_RECEIPT_PREFIXES :: "string list" where
  "REQUEST_RECEIPT_PREFIXES = request_prefixes RECEIPT_RETENTION"

text \<open>
  What the module checks of its table when it is loaded: the prefixes are distinct, a request prefix
  ends in a colon, and no request prefix overlaps an identity prefix.
\<close>

definition retention_families_ok :: "retention_table \<Rightarrow> bool" where
  "retention_families_ok table =
     (distinct (map fst table) \<and>
      list_all (\<lambda>p. suffix '':'' p \<and>
        \<not> list_ex (\<lambda>identity. prefix p (fst identity) \<or> prefix (fst identity) p) (filter (\<lambda>e. snd e = Identity) table))
        (request_prefixes table))"

definition retention_class :: "retention_table \<Rightarrow> string \<Rightarrow> receipt_class" where
  "retention_class table key = (case find (\<lambda>e. prefix (fst e) key) table of Some e \<Rightarrow> snd e | None \<Rightarrow> Identity)"

definition receiptRetentionClass :: "string \<Rightarrow> receipt_class" where
  "receiptRetentionClass = retention_class RECEIPT_RETENTION"

lemma retention_table_ok: "retention_families_ok RECEIPT_RETENTION"
  by code_simp

text \<open>In a table that passes the check no identity receipt carries a request prefix.\<close>

lemma identity_no_request_prefix:
  assumes "retention_families_ok table" and "retention_class table key = Identity" and "p \<in> set (request_prefixes table)"
  shows "\<not> prefix p key"
proof
  assume p: "prefix p key"
  obtain e where e: "e \<in> set table" "snd e = Request" "fst e = p" using assms(3) by (auto simp: request_prefixes_def)
  then have "find (\<lambda>e. prefix (fst e) key) table \<noteq> None" using p by (metis find_None_iff)
  then obtain f where f: "find (\<lambda>e. prefix (fst e) key) table = Some f" by blast
  then have F: "prefix (fst f) key" "f \<in> set table" by (auto simp: find_Some_iff)
  have "snd f = Identity" using assms(2) f by (simp add: retention_class_def)
  then have "(fst f, Identity) \<in> set table" using F(2) by (cases f) simp
  then have "\<not> prefix p (fst f)" "\<not> prefix (fst f) p"
    using assms(1,3) by (auto simp: retention_families_ok_def list_all_iff list_ex_iff)
  then show False using prefix_same_cases [OF p F(1)] by blast
qed

section \<open>Request receipts\<close>

record request_receipt =
  rc_tenantId :: tenant
  rc_key :: string
  rc_body :: string
  rc_recordedAt :: string

type_synonym receipt_state = "request_receipt jmap"

record receipt_collect_input = collect_expired_input +
  rx_requestBefore :: string

definition receiptBodyOf :: "tenant \<Rightarrow> string \<Rightarrow> receipt_state \<Rightarrow> string option" where
  "receiptBodyOf t key s = map_option rc_body (jget s (tenantKey t [key]))"

definition setReceiptBody :: "tenant \<Rightarrow> string \<Rightarrow> string \<Rightarrow> int \<Rightarrow> receipt_state \<Rightarrow> receipt_state" where
  "setReceiptBody t key body now s =
     (let stored = tenantKey t [key]
      in jset stored (case jget s stored of
           None \<Rightarrow> \<lparr>rc_tenantId = t, rc_key = key, rc_body = body, rc_recordedAt = toISOString now\<rparr>
         | Some existing \<Rightarrow> existing\<lparr>rc_body := body\<rparr>) s)"

definition receipt_record :: "tenant \<Rightarrow> string \<Rightarrow> string \<Rightarrow> int \<Rightarrow> receipt_state \<Rightarrow> (request_receipt \<times> bool) \<times> receipt_state" where
  "receipt_record t key body now s =
     (let stored = tenantKey t [key]
      in case jget s stored of
           Some existing \<Rightarrow> ((existing, False), s)
         | None \<Rightarrow>
             let receipt = \<lparr>rc_tenantId = t, rc_key = key, rc_body = body, rc_recordedAt = toISOString now\<rparr>
             in ((receipt, True), jset stored receipt s))"

definition receipt_get :: "tenant \<Rightarrow> string \<Rightarrow> receipt_state \<Rightarrow> request_receipt option" where
  "receipt_get t key s = jget s (tenantKey t [key])"

definition receipt_due :: "tenant \<Rightarrow> string \<Rightarrow> string \<times> request_receipt \<Rightarrow> bool" where
  "receipt_due t requestBefore = (\<lambda>(key, receipt).
     \<not> (rc_tenantId receipt \<noteq> t \<or> rc_recordedAt receipt \<ge> requestBefore \<or>
        \<not> list_ex (\<lambda>p. prefix p (rc_key receipt)) REQUEST_RECEIPT_PREFIXES))"

definition receipt_collectExpired ::
  "tenant \<Rightarrow> receipt_collect_input \<Rightarrow> receipt_state \<Rightarrow> (unit, collect_expired_result) result \<times> receipt_state" where
  "receipt_collectExpired t input s =
     (case assertCollectExpiredInput input of
        Inl e \<Rightarrow> (Inl e, s)
      | Inr _ \<Rightarrow>
          (case assertCanonicalTimestamp (rx_requestBefore input) of
             Inl e \<Rightarrow> (Inl e, s)
           | Inr _ \<Rightarrow> sweep_collect (receipt_due t (rx_requestBefore input)) input s))"

datatype receipt_op =
    RcRecord string string int
  | RcGet string
  | RcCollect receipt_collect_input

datatype receipt_answer =
    RcRecorded "request_receipt \<times> bool"
  | RcFound "request_receipt option"
  | RcCollected "(unit, collect_expired_result) result"

fun receipt_exec :: "tenant \<Rightarrow> receipt_op \<Rightarrow> receipt_state \<Rightarrow> receipt_answer \<times> receipt_state" where
  "receipt_exec t (RcRecord key body now) s = map_prod RcRecorded id (receipt_record t key body now s)"
| "receipt_exec t (RcGet key) s = (RcFound (receipt_get t key s), s)"
| "receipt_exec t (RcCollect input) s = map_prod RcCollected id (receipt_collectExpired t input s)"

interpretation receipt_once:
  write_once "\<lambda>(t, key, body, now). receipt_record t key body now" jget "\<lambda>(t, key, body, now). tenantKey t [key]"
  by unfold_locales (auto simp: receipt_record_def Let_def split: option.splits)

definition receipts_ok :: "receipt_state \<Rightarrow> bool" where
  "receipts_ok s = (jmap_ok s \<and> (\<forall>t key r. isTenantId t \<longrightarrow> jget s (tenantKey t [key]) = Some r \<longrightarrow> rc_tenantId r = t \<and> rc_key r = key))"

text \<open>The receipts of identity keys are never lost and never change.\<close>

definition receipts_le :: "receipt_state \<Rightarrow> receipt_state \<Rightarrow> bool" where
  "receipts_le s s' = (\<forall>t key r. isTenantId t \<longrightarrow> receiptRetentionClass key = Identity \<longrightarrow>
     jget s (tenantKey t [key]) = Some r \<longrightarrow> jget s' (tenantKey t [key]) = Some r)"


lemma receipt_record_ok: "receipts_ok s \<Longrightarrow> isTenantId t \<Longrightarrow> receipts_ok (snd (receipt_record t key body now s))"
  by (auto simp: receipts_ok_def receipt_record_def Let_def split: option.splits)

lemma receipt_identity_kept:
  assumes "receipts_ok s" and "isTenantId u" and "receiptRetentionClass key = Identity" and "jget s (tenantKey u [key]) = Some r"
  shows "\<not> receipt_due t before (tenantKey u [key], r)"
proof -
  have "rc_key r = key" using assms by (simp add: receipts_ok_def)
  moreover have "\<not> prefix p key" if "p \<in> set REQUEST_RECEIPT_PREFIXES" for p
    using identity_no_request_prefix [OF retention_table_ok] assms(3) that
    by (simp add: receiptRetentionClass_def REQUEST_RECEIPT_PREFIXES_def)
  ultimately show ?thesis by (auto simp: receipt_due_def list_ex_iff)
qed

lemma receipt_collect_ok:
  assumes "receipts_ok s"
  shows "receipts_ok (snd (receipt_collectExpired t input s)) \<and> receipts_le s (snd (receipt_collectExpired t input s))"
proof -
  have ok: "jmap_ok s" using assms by (simp add: receipts_ok_def)
  let ?el = "receipt_due t (rx_requestBefore input)"
  have "receipts_ok (snd (sweep_collect ?el input s))"
    using assms sweep_collect_old [OF ok] sweep_collect_ok [OF ok] unfolding receipts_ok_def by blast
  moreover have "receipts_le s (snd (sweep_collect ?el input s))"
    unfolding receipts_le_def using sweep_collect_kept [OF ok] receipt_identity_kept [OF assms] by blast
  ultimately show ?thesis using assms by (auto simp: receipt_collectExpired_def receipts_le_def split: sum.split)
qed

lemma receipt_exec_moves:
  assumes "isTenantId t" and "receipts_ok s"
  shows "receipts_ok (snd (receipt_exec t op s)) \<and> receipts_le s (snd (receipt_exec t op s))"
proof (cases op)
  case (RcRecord key body now)
  have "receipts_le s (snd (receipt_record t key body now s))"
    using receipt_once.record_keeps [of s _ _ "(t, key, body, now)"] unfolding receipts_le_def by simp
  then show ?thesis using assms receipt_record_ok by (simp add: RcRecord)
next
  case (RcGet key)
  then show ?thesis using assms by (simp add: receipts_le_def)
next
  case (RcCollect input)
  then show ?thesis using receipt_collect_ok [OF assms(2)] by simp
qed

interpretation receipt_history: monotone_store receipt_exec tenant_call receipts_ok receipts_le
  using receipt_exec_moves by unfold_locales (auto simp: receipts_le_def)

text \<open>
  The first receipt is the fact: after a record was answered, whatever calls follow on the
  store, by any tenants and collections included, recording the same key again, with any body, and
  reading it answer that same receipt, the body and the instant of the first write unchanged. The
  key of an identity family, or of no known family, stays so for ever.
\<close>

theorem receipt_first_fact:
  assumes "receipts_ok s" and "isTenantId t" and "receiptRetentionClass key = Identity"
    and "receipt_record t key body now s = ((r, created), s1)"
    and "\<forall>(u, op) \<in> set ops. isTenantId u" and "s2 = snd (run_ops receipt_exec ops s1)"
  shows "receipt_record t key body' later s2 = ((r, False), s2) \<and> receipt_get t key s2 = Some r \<and>
    (created \<longrightarrow> rc_body r = body \<and> rc_recordedAt r = toISOString now)"
proof -
  have r: "jget s1 (tenantKey t [key]) = Some r"
    using receipt_once.record_answer [of "(t, key, body, now)" s r created s1] assms(4) by simp
  have "receipts_ok s1" using receipt_record_ok [OF assms(1,2), of key body now] assms(4) by simp
  then have "receipts_le s1 s2" unfolding assms(6) using assms(5) by (intro receipt_history.run_mono) auto
  then have "jget s2 (tenantKey t [key]) = Some r" using assms(2,3) r by (simp add: receipts_le_def)
  moreover have "created \<Longrightarrow> rc_body r = body \<and> rc_recordedAt r = toISOString now"
    using assms(4) by (auto simp: receipt_record_def Let_def split: option.splits)
  ultimately show ?thesis by (simp add: receipt_record_def receipt_get_def)
qed

theorem receipt_first_fact_witness:
  "fst (receipt_record ''acme'' ''task:1'' ''other'' 9 (snd (run_ops receipt_exec
      [(''globex'', RcRecord ''task:1'' ''theirs'' 2),
       (''acme'', RcCollect \<lparr>ci_now = toISOString 5, ci_limit = Fin 10, rx_requestBefore = toISOString 5\<rparr>)]
      (snd (receipt_record ''acme'' ''task:1'' ''done'' 1 []))))) =
    (\<lparr>rc_tenantId = ''acme'', rc_key = ''task:1'', rc_body = ''done'', rc_recordedAt = toISOString 1\<rparr>, False)"
proof -
  let ?ops = "[(''globex'', RcRecord ''task:1'' ''theirs'' 2),
    (''acme'', RcCollect \<lparr>ci_now = toISOString 5, ci_limit = Fin 10, rx_requestBefore = toISOString 5\<rparr>)]"
  have "receiptRetentionClass ''task:1'' = Identity" by code_simp
  then show ?thesis
    using receipt_first_fact [of "[]" "''acme''" "''task:1''" "''done''" 1
        "\<lparr>rc_tenantId = ''acme'', rc_key = ''task:1'', rc_body = ''done'', rc_recordedAt = toISOString 1\<rparr>" True
        "snd (receipt_record ''acme'' ''task:1'' ''done'' 1 [])" ?ops "snd (run_ops receipt_exec ?ops (snd (receipt_record ''acme'' ''task:1'' ''done'' 1 [])))"
        "''other''" 9]
    by (simp add: receipts_ok_def receipt_record_def Let_def del: run_ops.simps)
qed

section \<open>Receipts of used device-proof requests\<close>

record proof_receipt_input =
  pr_deviceId :: string
  pr_requestId :: string
  pr_operation :: string
  pr_resource :: string
  pr_bodySha256 :: string
  pr_bodySize :: int
  pr_responseStatus :: int
  pr_responseBody :: string

record proof_receipt = proof_receipt_input +
  pr_tenantId :: tenant
  pr_recordedAt :: string

type_synonym proof_state = "proof_receipt jmap"

record proof_collect_input = collect_expired_input +
  px_recordedBefore :: string

definition proof_key :: "tenant \<Rightarrow> string \<Rightarrow> string \<Rightarrow> string" where
  "proof_key t deviceId requestId = tenantKey t [deviceId, requestId]"

definition proof_record :: "tenant \<Rightarrow> proof_receipt_input \<Rightarrow> int \<Rightarrow> proof_state \<Rightarrow> (proof_receipt \<times> bool) \<times> proof_state" where
  "proof_record t i now s =
     (let key = proof_key t (pr_deviceId i) (pr_requestId i)
      in case jget s key of
           Some existing \<Rightarrow> ((existing, False), s)
         | None \<Rightarrow>
             let receipt = proof_receipt_input.extend i \<lparr>pr_tenantId = t, pr_recordedAt = toISOString now\<rparr>
             in ((receipt, True), jset key receipt s))"

definition proof_get :: "tenant \<Rightarrow> string \<Rightarrow> string \<Rightarrow> proof_state \<Rightarrow> proof_receipt option" where
  "proof_get t deviceId requestId s = jget s (proof_key t deviceId requestId)"

text \<open>The due receipts of a tenant, the oldest first.\<close>

definition proof_eligible :: "tenant \<Rightarrow> string \<Rightarrow> proof_state \<Rightarrow> proof_state" where
  "proof_eligible t recordedBefore s =
     sort_by (\<lambda>l r. str_cmp (pr_recordedAt (snd l)) (pr_recordedAt (snd r)))
       (filter (\<lambda>(_, r). pr_tenantId r = t \<and> pr_recordedAt r < recordedBefore) s)"

definition proof_collectExpired ::
  "tenant \<Rightarrow> proof_collect_input \<Rightarrow> proof_state \<Rightarrow> (unit, collect_expired_result) result \<times> proof_state" where
  "proof_collectExpired t input s =
     (case assertCollectExpiredInput input of
        Inl e \<Rightarrow> (Inl e, s)
      | Inr _ \<Rightarrow>
          (case assertCanonicalTimestamp (px_recordedBefore input) of
             Inl e \<Rightarrow> (Inl e, s)
           | Inr _ \<Rightarrow>
               let eligible = proof_eligible t (px_recordedBefore input) s;
                   batch = slice0 (num_int (ci_limit input)) eligible
               in (Inr \<lparr>cc_removed = int (length batch), cc_expired = 0, cc_releasedBytes = 0, cr_more = length eligible > length batch\<rparr>,
                   fold (jdel \<circ> fst) batch s)))"

datatype proof_op =
    PrRecord proof_receipt_input int
  | PrGet string string
  | PrCollect proof_collect_input

datatype proof_answer =
    PrRecorded "proof_receipt \<times> bool"
  | PrFound "proof_receipt option"
  | PrCollected "(unit, collect_expired_result) result"

fun proof_exec :: "tenant \<Rightarrow> proof_op \<Rightarrow> proof_state \<Rightarrow> proof_answer \<times> proof_state" where
  "proof_exec t (PrRecord i now) s = map_prod PrRecorded id (proof_record t i now s)"
| "proof_exec t (PrGet deviceId requestId) s = (PrFound (proof_get t deviceId requestId s), s)"
| "proof_exec t (PrCollect input) s = map_prod PrCollected id (proof_collectExpired t input s)"

interpretation proof_once:
  write_once "\<lambda>(t, i, now). proof_record t i now" jget "\<lambda>(t, i, now). proof_key t (pr_deviceId i) (pr_requestId i)"
  by unfold_locales (auto simp: proof_record_def Let_def split: option.splits)

lemma jget_fold_jdel: "jget (fold (jdel \<circ> fst) batch s) k = (if k \<in> fst ` set batch then None else jget s k)"
  by (induction batch arbitrary: s) auto

lemma jmap_ok_fold_jdel: "jmap_ok s \<Longrightarrow> jmap_ok (fold (jdel \<circ> fst) batch s)"
  by (induction batch arbitrary: s) auto

lemma set_proof_eligible:
  "e \<in> set (proof_eligible t before s) \<longleftrightarrow> e \<in> set s \<and> pr_tenantId (snd e) = t \<and> pr_recordedAt (snd e) < before"
  by (cases e) (auto simp: proof_eligible_def)

text \<open>What a collection deletes.\<close>

definition proof_batch :: "tenant \<Rightarrow> proof_collect_input \<Rightarrow> proof_state \<Rightarrow> proof_state" where
  "proof_batch t input s =
     (if valid_collect input \<and> isCanonicalTimestamp (px_recordedBefore input)
      then slice0 (num_int (ci_limit input)) (proof_eligible t (px_recordedBefore input) s) else [])"

lemma proof_collect_batch: "snd (proof_collectExpired t input s) = fold (jdel \<circ> fst) (proof_batch t input s) s"
  by (simp add: proof_collectExpired_def proof_batch_def assertCanonicalTimestamp_def assertCollectExpiredInput_def valid_collect_def Let_def)

lemma proof_batch_rows:
  "e \<in> set (proof_batch t input s) \<Longrightarrow> e \<in> set s \<and> pr_tenantId (snd e) = t \<and> pr_recordedAt (snd e) < px_recordedBefore input"
  by (auto simp: proof_batch_def set_proof_eligible dest!: set_slice0 split: if_splits)

text \<open>
  The calls that leave a receipt alone: everything but a collection of its tenant whose cutoff is
  later than its record.
\<close>

fun keeps_proof :: "proof_receipt \<Rightarrow> tenant \<times> proof_op \<Rightarrow> bool" where
  "keeps_proof r (u, PrCollect c) = (u = pr_tenantId r \<longrightarrow> px_recordedBefore c \<le> pr_recordedAt r)"
| "keeps_proof r (u, _) = True"

definition proof_used :: "string \<Rightarrow> proof_receipt \<Rightarrow> proof_state \<Rightarrow> bool" where
  "proof_used key r s = (jmap_ok s \<and> jget s key = Some r)"

lemma proof_exec_used:
  assumes "keeps_proof r (t, op)" and "proof_used key r s"
  shows "proof_used key r (snd (proof_exec t op s))"
proof (cases op)
  case (PrRecord i now)
  have "jmap_ok (snd (proof_record t i now s))"
    using assms(2) by (auto simp: proof_record_def proof_used_def Let_def split: option.splits)
  then show ?thesis using assms(2) proof_once.record_keeps [of s key r "(t, i, now)"] by (simp add: PrRecord proof_used_def)
next
  case (PrGet d q)
  then show ?thesis using assms(2) by simp
next
  case (PrCollect c)
  have "key \<notin> fst ` set (proof_batch t c s)"
  proof
    assume "key \<in> fst ` set (proof_batch t c s)"
    then obtain r' where r': "(key, r') \<in> set (proof_batch t c s)" by auto
    note B = proof_batch_rows [OF r']
    have "r' = r" using B assms(2) jget_Some_iff [of s key r'] by (simp add: proof_used_def)
    then show False using B assms(1) by (auto simp: PrCollect)
  qed
  then show ?thesis using assms(2) by (simp add: PrCollect proof_collect_batch proof_used_def jget_fold_jdel jmap_ok_fold_jdel)
qed

interpretation proof_history: invariant_store proof_exec "keeps_proof r" "proof_used key r" for key r
  using proof_exec_used by unfold_locales blast

text \<open>
  A request id is single use: after a device-proof request was recorded, whatever calls follow,
  by any tenants, as long as its tenant collects only receipts older than it, presenting the same
  device and request id again writes nothing and gets the first receipt, with the binding and the
  response of the first request.
\<close>

theorem proof_request_single_use:
  assumes "jmap_ok s" and "proof_record t i now s = ((r, True), s1)"
    and "\<forall>c \<in> set ops. keeps_proof r c" and "s2 = snd (run_ops proof_exec ops s1)"
    and "pr_deviceId j = pr_deviceId i" and "pr_requestId j = pr_requestId i"
  shows "proof_record t j later s2 = ((r, False), s2) \<and> proof_get t (pr_deviceId i) (pr_requestId i) s2 = Some r \<and>
    proof_receipt_input.truncate r = i \<and> pr_recordedAt r = toISOString now"
proof -
  let ?key = "proof_key t (pr_deviceId i) (pr_requestId i)"
  have "jget s1 ?key = Some r" using proof_once.record_answer [of "(t, i, now)" s r True s1] assms(2) by simp
  moreover have "jmap_ok s1" using assms(1,2) by (auto simp: proof_record_def Let_def split: option.splits)
  ultimately have "proof_used ?key r s2"
    unfolding assms(4) using assms(3) by (intro proof_history.run_inv) (simp_all add: proof_used_def)
  moreover have "proof_receipt_input.truncate r = i \<and> pr_recordedAt r = toISOString now"
    using assms(2) by (auto simp: proof_record_def Let_def proof_receipt_input.defs proof_receipt.defs split: option.splits)
  ultimately show ?thesis using assms(5,6) by (simp add: proof_used_def proof_record_def proof_get_def)
qed

definition sample_proof :: proof_receipt_input where
  "sample_proof = \<lparr>pr_deviceId = ''d'', pr_requestId = ''q'', pr_operation = ''put'', pr_resource = ''r'', pr_bodySha256 = ''h'',
     pr_bodySize = 2, pr_responseStatus = 200, pr_responseBody = ''ok''\<rparr>"

theorem proof_request_single_use_witness:
  "snd (fst (proof_record ''acme'' (sample_proof\<lparr>pr_resource := ''z''\<rparr>) 9 (snd (run_ops proof_exec
      [(''acme'', PrCollect \<lparr>ci_now = toISOString 7, ci_limit = Fin 10, px_recordedBefore = toISOString 5\<rparr>)]
      (snd (proof_record ''acme'' sample_proof 5 [])))))) = False"
proof -
  let ?ops = "[(''acme'', PrCollect \<lparr>ci_now = toISOString 7, ci_limit = Fin 10, px_recordedBefore = toISOString 5\<rparr>)]"
  show ?thesis
    using proof_request_single_use [of "[]" "''acme''" sample_proof 5 _ _ ?ops _ "sample_proof\<lparr>pr_resource := ''z''\<rparr>" 9, OF _ _ _ refl]
    by (simp add: proof_record_def proof_receipt_input.defs sample_proof_def proof_key_def Let_def del: run_ops.simps)
qed

text \<open>
  Collection takes the oldest: a valid call removes as many due receipts of its tenant as the limit
  allows, none of them newer than a due receipt that it leaves, and no other receipt; it reports more
  exactly when due receipts are left.
\<close>

theorem proof_collection_oldest_first:
  assumes "jmap_ok s" and "valid_collect input" and "isCanonicalTimestamp (px_recordedBefore input)"
    and "proof_collectExpired t input s = (res, s')"
  shows "\<exists>gone left. mset (gone @ left) = mset (proof_eligible t (px_recordedBefore input) s) \<and>
    set s' = set s - set gone \<and> int (length gone) = min (num_int (ci_limit input)) (int (length (gone @ left))) \<and>
    (\<forall>g \<in> set gone. \<forall>l \<in> set left. pr_recordedAt (snd g) \<le> pr_recordedAt (snd l)) \<and>
    res = Inr \<lparr>cc_removed = int (length gone), cc_expired = 0, cc_releasedBytes = 0, cr_more = left \<noteq> []\<rparr>"
proof -
  let ?E = "proof_eligible t (px_recordedBefore input) s" and ?n = "nat (num_int (ci_limit input))"
  let ?gone = "take ?n ?E" and ?left = "drop ?n ?E"
  have lim: "0 \<le> num_int (ci_limit input)" using assms(2) by (rule valid_collect_limit)
  then have sl: "slice0 (num_int (ci_limit input)) ?E = ?gone" by (simp add: slice0_def)
  have s': "s' = fold (jdel \<circ> fst) ?gone s"
    using assms(2-4) proof_collect_batch [of t input s] by (simp add: proof_batch_def sl)
  have in_s: "e \<in> set s" if "e \<in> set ?gone" for e
    using in_set_takeD [OF that] by (simp add: set_proof_eligible)
  have "(k, v) \<in> set s' \<longleftrightarrow> (k, v) \<in> set s - set ?gone" for k v
  proof -
    have "(k, v) \<in> set s' \<longleftrightarrow> k \<notin> fst ` set ?gone \<and> (k, v) \<in> set s"
      using jget_Some_iff [OF jmap_ok_fold_jdel [OF assms(1), of ?gone], of k v] jget_Some_iff [OF assms(1), of k v]
      by (auto simp: s' jget_fold_jdel split: if_splits)
    also have "\<dots> \<longleftrightarrow> (k, v) \<in> set s - set ?gone"
      using in_s assms(1) by (force simp: jget_Some_iff [symmetric])
    finally show ?thesis .
  qed
  then have "set s' = set s - set ?gone" by auto
  moreover have "sorted (map (\<lambda>e. pr_recordedAt (snd e)) (?gone @ ?left))"
    unfolding append_take_drop_id by (simp add: proof_eligible_def sort_by_str_cmp)
  then have "\<forall>g \<in> set ?gone. \<forall>l \<in> set ?left. pr_recordedAt (snd g) \<le> pr_recordedAt (snd l)"
    unfolding map_append sorted_append by auto
  moreover have "res = Inr \<lparr>cc_removed = int (length ?gone), cc_expired = 0, cc_releasedBytes = 0, cr_more = ?left \<noteq> []\<rparr>"
    using assms(2-4) by (auto simp: proof_collectExpired_def assertCollectExpiredInput_valid assertCanonicalTimestamp_def Let_def sl)
  moreover have "int (length ?gone) = min (num_int (ci_limit input)) (int (length (?gone @ ?left)))"
    using lim unfolding append_take_drop_id by (simp add: min_def) linarith
  moreover have "mset (?gone @ ?left) = mset ?E" unfolding append_take_drop_id ..
  ultimately show ?thesis by blast
qed

definition sample_proofs :: proof_state where
  "sample_proofs = snd (proof_record ''acme'' (sample_proof\<lparr>pr_requestId := ''p''\<rparr>) 3 (snd (proof_record ''acme'' sample_proof 4 [])))"

theorem proof_collection_oldest_first_witness:
  "\<exists>gone left. mset (gone @ left) = mset (proof_eligible ''acme'' (toISOString 8) sample_proofs) \<and> length gone = 1 \<and>
    set (snd (proof_collectExpired ''acme'' \<lparr>ci_now = toISOString 9, ci_limit = Fin 1, px_recordedBefore = toISOString 8\<rparr> sample_proofs)) =
      set sample_proofs - set gone"
proof -
  let ?i = "\<lparr>ci_now = toISOString 9, ci_limit = Fin 1, px_recordedBefore = toISOString 8\<rparr>"
  have ok: "jmap_ok sample_proofs" by (simp add: sample_proofs_def proof_record_def Let_def split: option.split)
  have v: "valid_collect ?i" "isCanonicalTimestamp (px_recordedBefore ?i)"
    by (simp_all add: valid_collect_def isCanonicalTimestamp_toISOString iso_instant_def MAX_SAFE_INTEGER_def)
  have n: "length (proof_eligible ''acme'' (toISOString 8) sample_proofs) = 2" by code_simp
  obtain res s' where c: "proof_collectExpired ''acme'' ?i sample_proofs = (res, s')" by (cases "proof_collectExpired ''acme'' ?i sample_proofs")
  obtain gone left where g: "mset (gone @ left) = mset (proof_eligible ''acme'' (toISOString 8) sample_proofs)"
    "set s' = set sample_proofs - set gone" "int (length gone) = min 1 (int (length (gone @ left)))"
    using proof_collection_oldest_first [OF ok v c] by auto
  have "length (gone @ left) = 2" using n mset_eq_length [OF g(1)] by simp
  then have "length gone = 1" using g(3) by simp
  then show ?thesis using g c by auto
qed

section \<open>Reliable egress facts of an Agent\<close>

text \<open>\<open>AgentRefSchema\<close> of \<open>packages/protocol/src/messages.ts\<close>.\<close>

definition AGENT_REF_MAX_BYTES :: nat where "AGENT_REF_MAX_BYTES = 160"

definition agent_ref_value :: "string \<Rightarrow> bool" where
  "agent_ref_value v =
     (v \<noteq> [] \<and> length v \<le> AGENT_REF_MAX_BYTES \<and> utf8_length v \<le> int AGENT_REF_MAX_BYTES \<and>
      list_all (\<lambda>c. \<not> (of_char c \<le> (31 :: nat) \<or> c = CHR 0x7F)) v)"

definition ascii_lower :: "char \<Rightarrow> char" where
  "ascii_lower c = (if CHR ''A'' \<le> c \<and> c \<le> CHR ''Z'' then char_of (of_char c + (32 :: nat)) else c)"

text \<open>\<open>con\<close>, \<open>prn\<close>, \<open>aux\<close>, \<open>nul\<close>, \<open>com1\<close> to \<open>com9\<close>, \<open>lpt1\<close> to \<open>lpt9\<close>, alone or before a dot, in any case.\<close>

definition WINDOWS_RESERVED_AGENT_SEGMENT :: "string \<Rightarrow> bool" where
  "WINDOWS_RESERVED_AGENT_SEGMENT v =
     (takeWhile (\<lambda>c. c \<noteq> CHR ''.'') (map ascii_lower v) \<in>
        set ([''con'', ''prn'', ''aux'', ''nul''] @ map (\<lambda>d. ''com'' @ [d]) ''123456789'' @ map (\<lambda>d. ''lpt'' @ [d]) ''123456789''))"

definition AgentRefSchema :: "agent_ref \<Rightarrow> bool" where
  "AgentRefSchema ref =
     (agent_ref_value (ar_agentId ref) \<and>
      list_all (\<lambda>c. c \<notin> {BACKSLASH, CHR ''/'', CHR '':'', CHR ''<'', CHR ''>'', QUOTE, CHR 0x7C, CHR ''?'', CHR ''*''}) (ar_agentId ref) \<and>
      ar_agentId ref \<noteq> ''.'' \<and> ar_agentId ref \<noteq> ''..'' \<and>
      last (ar_agentId ref) \<notin> {CHR ''.'', CHR '' ''} \<and> \<not> WINDOWS_RESERVED_AGENT_SEGMENT (ar_agentId ref) \<and>
      agent_ref_value (ar_profileRevision ref))"

definition reliability_text :: "string \<Rightarrow> string \<Rightarrow> agent_ref \<Rightarrow> string \<Rightarrow> string" where
  "reliability_text domain deviceId ref i = domain @ '':'' @ json_stringify [deviceId, ar_agentId ref, ar_profileRevision ref, i]"

text \<open>A reference that does not pass the schema raises the error of the parser.\<close>

definition agentReliabilityKey :: "string \<Rightarrow> string \<Rightarrow> agent_ref \<Rightarrow> string \<Rightarrow> string option" where
  "agentReliabilityKey domain deviceId ref i = (if AgentRefSchema ref then Some (reliability_text domain deviceId ref i) else None)"

lemma reliability_text_inject [simp]:
  "reliability_text domain d ref i = reliability_text domain d' ref' i' \<longleftrightarrow> d = d' \<and> ref = ref' \<and> i = i'"
  by (auto simp: reliability_text_def intro: agent_ref.equality)

record 'p egress_row =
  eg_tenantId :: tenant
  eg_deviceId :: string
  eg_agentRef :: agent_ref
  eg_eventId :: string
  eg_payload :: 'p
  eg_receiptId :: string
  eg_recordedAt :: string

text \<open>The input without its tenant and instant; \<open>'p\<close> is the rest of the reliable payload.\<close>

record 'p egress_input =
  gi_deviceId :: string
  gi_agentRef :: agent_ref
  gi_eventId :: string
  gi_payload :: 'p
  gi_receiptId :: string

type_synonym 'p egress_state = "'p egress_row jmap"

definition egress_key :: "tenant \<Rightarrow> string \<Rightarrow> agent_ref \<Rightarrow> string \<Rightarrow> string option" where
  "egress_key t deviceId ref eventId = map_option (\<lambda>k. tenantKey t [k]) (agentReliabilityKey ''agent-egress'' deviceId ref eventId)"

definition egress_put :: "tenant \<Rightarrow> 'p egress_input \<Rightarrow> int \<Rightarrow> string \<Rightarrow> 'p egress_state \<Rightarrow> ('p egress_row \<times> bool) \<times> 'p egress_state" where
  "egress_put t i now key s =
     (case jget s key of
        Some existing \<Rightarrow> ((existing, False), s)
      | None \<Rightarrow>
          let r = \<lparr>eg_tenantId = t, eg_deviceId = gi_deviceId i, eg_agentRef = gi_agentRef i, eg_eventId = gi_eventId i,
                eg_payload = gi_payload i, eg_receiptId = gi_receiptId i, eg_recordedAt = toISOString now\<rparr>
          in ((r, True), jset key r s))"

definition egress_record :: "tenant \<Rightarrow> 'p egress_input \<Rightarrow> int \<Rightarrow> 'p egress_state \<Rightarrow> (cloud_error + 'p egress_row \<times> bool) \<times> 'p egress_state" where
  "egress_record t i now s =
     (case egress_key t (gi_deviceId i) (gi_agentRef i) (gi_eventId i) of
        None \<Rightarrow> (Inl SchemaError, s)
      | Some key \<Rightarrow> apfst Inr (egress_put t i now key s))"

definition egress_get :: "tenant \<Rightarrow> string \<Rightarrow> agent_ref \<Rightarrow> string \<Rightarrow> 'p egress_state \<Rightarrow> cloud_error + 'p egress_row option" where
  "egress_get t deviceId ref eventId s =
     (case egress_key t deviceId ref eventId of None \<Rightarrow> Inl SchemaError | Some key \<Rightarrow> Inr (jget s key))"

interpretation egress_once: write_once "\<lambda>(t, i, now, key). egress_put t i now key" jget "\<lambda>(t, i, now, key). key"
  by unfold_locales (auto simp: egress_put_def Let_def split: option.splits)

lemma egress_key_inject:
  assumes "isTenantId t" and "isTenantId u" and "egress_key t d ref e = Some k" and "egress_key u d' ref' e' = Some k'"
  shows "k = k' \<longleftrightarrow> t = u \<and> d = d' \<and> ref = ref' \<and> e = e'"
  using assms by (auto simp: egress_key_def agentReliabilityKey_def split: if_splits)

text \<open>The specification: a map from the four coordinates of an event to its fact.\<close>

definition egress_facts :: "'p egress_state \<Rightarrow> tenant \<times> string \<times> agent_ref \<times> string \<Rightarrow> 'p egress_row option" where
  "egress_facts s = (\<lambda>(t, d, ref, e). case egress_key t d ref e of None \<Rightarrow> None | Some k \<Rightarrow> jget s k)"

text \<open>
  Egress facts are a map: recording an event with a valid Agent reference answers the fact the
  map holds for its tenant, device, Agent and event id, or adds it when there is none, and changes
  the fact of no other coordinates, whatever characters they are made of. An invalid reference is
  refused and changes nothing.
\<close>

theorem egress_refines_map:
  assumes "isTenantId t" and "isTenantId u" and "egress_record t i now s = (res, s')"
  shows "if AgentRefSchema (gi_agentRef i) then
      \<exists>r. res = Inr (r, egress_facts s (t, gi_deviceId i, gi_agentRef i, gi_eventId i) = None) \<and>
        egress_facts s' (u, d, ref, e) =
          (if (u, d, ref, e) = (t, gi_deviceId i, gi_agentRef i, gi_eventId i) then Some r else egress_facts s (u, d, ref, e))
    else res = Inl SchemaError \<and> s' = s"
proof (cases "egress_key t (gi_deviceId i) (gi_agentRef i) (gi_eventId i)")
  case None
  then have "\<not> AgentRefSchema (gi_agentRef i)" by (simp add: egress_key_def agentReliabilityKey_def split: if_splits)
  then show ?thesis using assms(3) None by (simp add: egress_record_def)
next
  case key: (Some key)
  obtain r c where put: "egress_put t i now key s = ((r, c), s')" and r: "res = Inr (r, c)"
    using assms(3) key by (cases "egress_put t i now key s") (auto simp: egress_record_def)
  note A = egress_once.record_answer [of "(t, i, now, key)" s r c s', simplified, OF put]
  have "egress_facts s' (u, d, ref, e) =
      (if (u, d, ref, e) = (t, gi_deviceId i, gi_agentRef i, gi_eventId i) then Some r else egress_facts s (u, d, ref, e))"
  proof (cases "egress_key u d ref e")
    case None
    then show ?thesis using key by (auto simp: egress_facts_def)
  next
    case (Some k)
    then show ?thesis
      using egress_key_inject [OF assms(2,1) Some key] egress_once.record_frame [of k "(t, i, now, key)" s] A put
      by (auto simp: egress_facts_def)
  qed
  moreover have "AgentRefSchema (gi_agentRef i)" using key by (simp add: egress_key_def agentReliabilityKey_def split: if_splits)
  ultimately show ?thesis using r A key by (simp add: egress_facts_def)
qed

definition sample_ref :: agent_ref where
  "sample_ref = \<lparr>ar_agentId = ''bot'', ar_profileRevision = ''1''\<rparr>"

theorem egress_refines_map_witness:
  "\<exists>r s'. egress_record ''acme'' \<lparr>gi_deviceId = ''d'', gi_agentRef = sample_ref, gi_eventId = ''e'', gi_payload = (), gi_receiptId = ''r1''\<rparr> 5 [] =
      (Inr (r, True), s') \<and> egress_facts s' (''acme'', ''d'', sample_ref, ''e'') = Some r"
proof -
  let ?i = "\<lparr>gi_deviceId = ''d'', gi_agentRef = sample_ref, gi_eventId = ''e'', gi_payload = (), gi_receiptId = ''r1''\<rparr>"
  obtain res s' where e: "egress_record ''acme'' ?i 5 [] = (res, s')" by (cases "egress_record ''acme'' ?i 5 []")
  have "AgentRefSchema sample_ref" by code_simp
  moreover have "egress_facts [] (''acme'', ''d'', sample_ref, ''e'') = None" by (simp add: egress_facts_def split: option.split)
  ultimately show ?thesis
    using egress_refines_map [OF sample_tenants(1,1) e, of "''d''" sample_ref "''e''"] e by auto
qed

end
