(* ===== verification/Inbound_Gates.thy ===== *)
theory Inbound_Gates
  imports Receipts
begin

text \<open>
  Two gates of the hosted surface: the single-use challenge nonces
  (\<open>cloud/src/stores/in-memory/nonces.ts\<close>) and the bounded memory of processed envelopes
  (\<open>cloud/src/stores/in-memory/dedup.ts\<close>). The token of a nonce is the one drawn from the crypto port.
\<close>

section \<open>Challenge nonces\<close>

definition NONCE_TTL_MS :: int where "NONCE_TTL_MS = 5 * 60 * 1000"

record nonce_record =
  nr_owner :: string
  nr_expiresAtMs :: int
  nr_used :: bool

type_synonym nonce_state = "nonce_record jmap"

definition nonce_issue :: "int \<Rightarrow> tenant \<Rightarrow> string \<Rightarrow> string \<Rightarrow> int \<Rightarrow> nonce_state \<Rightarrow> string \<times> nonce_state" where
  "nonce_issue ttlMs t deviceId token now s =
     (token, jset token \<lparr>nr_owner = tenantKey t [deviceId], nr_expiresAtMs = now + ttlMs, nr_used = False\<rparr> s)"

definition consumeIfValid :: "tenant \<Rightarrow> string \<Rightarrow> string \<Rightarrow> int \<Rightarrow> nonce_state \<Rightarrow> bool \<times> nonce_state" where
  "consumeIfValid t deviceId nonce now s =
     (case jget s nonce of
        None \<Rightarrow> (False, s)
      | Some rec \<Rightarrow>
          if nr_used rec then (False, s)
          else if nr_owner rec \<noteq> tenantKey t [deviceId] then (False, s)
          else if now > nr_expiresAtMs rec then (False, s)
          else (True, jset nonce (rec\<lparr>nr_used := True\<rparr>) s))"

definition nonce_due :: "tenant \<Rightarrow> string \<Rightarrow> string \<times> nonce_record \<Rightarrow> bool" where
  "nonce_due t now = (\<lambda>(key, rec).
     \<not> (\<not> in_tenant t (nr_owner rec) \<or>
        (\<not> nr_used rec \<and> (case date_parse now of Some n \<Rightarrow> nr_expiresAtMs rec \<ge> n | None \<Rightarrow> False))))"

definition nonce_collectExpired ::
  "tenant \<Rightarrow> collect_expired_input \<Rightarrow> nonce_state \<Rightarrow> (unit, collect_expired_result) result \<times> nonce_state" where
  "nonce_collectExpired t input s = sweep_collect (nonce_due t (ci_now input)) input s"

datatype nonce_op =
    NIssue string string int
  | NConsume string string int
  | NCollect collect_expired_input

datatype nonce_answer =
    NIssued string
  | NConsumed bool
  | NCollected "(unit, collect_expired_result) result"

fun nonce_exec :: "int \<Rightarrow> tenant \<Rightarrow> nonce_op \<Rightarrow> nonce_state \<Rightarrow> nonce_answer \<times> nonce_state" where
  "nonce_exec ttl t (NIssue deviceId token now) s = map_prod NIssued id (nonce_issue ttl t deviceId token now s)"
| "nonce_exec ttl t (NConsume deviceId nonce now) s = map_prod NConsumed id (consumeIfValid t deviceId nonce now s)"
| "nonce_exec ttl t (NCollect input) s = map_prod NCollected id (nonce_collectExpired t input s)"

text \<open>The consumptions of a token that succeed in a history, with their tenant, device and instant.\<close>

fun nonce_wins :: "int \<Rightarrow> string \<Rightarrow> (tenant \<times> nonce_op) list \<Rightarrow> nonce_state \<Rightarrow> (tenant \<times> string \<times> int) list" where
  "nonce_wins ttl token [] s = []"
| "nonce_wins ttl token ((t, op) # ops) s =
     (case op of
        NConsume deviceId nonce now \<Rightarrow> if nonce = token \<and> fst (consumeIfValid t deviceId nonce now s) then [(t, deviceId, now)] else []
      | _ \<Rightarrow> []) @ nonce_wins ttl token ops (snd (nonce_exec ttl t op s))"

fun reissues :: "string \<Rightarrow> nonce_op \<Rightarrow> bool" where
  "reissues token (NIssue d tok now) = (tok = token)"
| "reissues token _ = False"

text \<open>A token is spent when it is used or gone, and open when it stands as it was issued.\<close>

definition nonce_spent :: "string \<Rightarrow> nonce_state \<Rightarrow> bool" where
  "nonce_spent token s = (jmap_ok s \<and> (\<forall>rec. jget s token = Some rec \<longrightarrow> nr_used rec))"

definition nonce_open :: "string \<Rightarrow> string \<Rightarrow> int \<Rightarrow> nonce_state \<Rightarrow> bool" where
  "nonce_open token owner expires s =
     (jmap_ok s \<and> jget s token = Some \<lparr>nr_owner = owner, nr_expiresAtMs = expires, nr_used = False\<rparr>)"

lemma nonce_collect_jget:
  assumes "jmap_ok s"
  shows "jget (snd (nonce_collectExpired t input s)) token \<in> {None, jget s token} \<and> jmap_ok (snd (nonce_collectExpired t input s))"
  using sweep_collect_old [OF assms] sweep_collect_ok [OF assms] unfolding nonce_collectExpired_def
  by (metis insertCI not_None_eq)

lemma nonce_exec_ok: "jmap_ok s \<Longrightarrow> jmap_ok (snd (nonce_exec ttl t op s))"
  using nonce_collect_jget by (cases op) (auto simp: nonce_issue_def consumeIfValid_def split: option.splits)

lemma nonce_exec_jget:
  assumes "jmap_ok s" and "\<not> reissues token op"
  shows "jget (snd (nonce_exec ttl t op s)) token \<in> {None, jget s token, map_option (nr_used_update (\<lambda>_. True)) (jget s token)}"
proof (cases op)
  case (NConsume d n now)
  then show ?thesis by (auto simp: consumeIfValid_def split: option.splits)
next
  case (NCollect input)
  then show ?thesis using nonce_collect_jget [OF assms(1), of t input token] by auto
qed (use assms(2) in \<open>simp add: nonce_issue_def\<close>)

lemma nonce_spent_step: "nonce_spent token s \<Longrightarrow> \<not> reissues token op \<Longrightarrow> nonce_spent token (snd (nonce_exec ttl t op s))"
  using nonce_exec_jget [of s token op ttl t] by (auto simp: nonce_spent_def nonce_exec_ok)

lemma nonce_spent_wins:
  "nonce_spent token s \<Longrightarrow> \<forall>(u, op) \<in> set ops. \<not> reissues token op \<Longrightarrow> nonce_wins ttl token ops s = []"
proof (induction ops arbitrary: s)
  case (Cons a ops)
  obtain u op where a: "a = (u, op)" by (cases a)
  have "nonce_spent token (snd (nonce_exec ttl u op s))" using Cons.prems by (intro nonce_spent_step) (simp_all add: a)
  then have "nonce_wins ttl token ops (snd (nonce_exec ttl u op s)) = []" using Cons.prems(2) by (intro Cons.IH) simp_all
  then show ?case
    using Cons.prems(1) by (auto simp: a nonce_spent_def consumeIfValid_def split: nonce_op.splits option.splits)
qed simp

lemma nonce_open_step:
  assumes "nonce_open token owner expires s" and "\<not> reissues token op"
  shows "nonce_open token owner expires (snd (nonce_exec ttl t op s)) \<or> nonce_spent token (snd (nonce_exec ttl t op s))"
  using assms nonce_exec_jget [of s token op ttl t] by (auto simp: nonce_open_def nonce_spent_def nonce_exec_ok)

lemma nonce_open_wins:
  assumes "nonce_open token (tenantKey t [dev]) expires s" and "isTenantId t"
    and "\<forall>(u, op) \<in> set ops. isTenantId u \<and> \<not> reissues token op"
  shows "nonce_wins ttl token ops s = [] \<or> (\<exists>later \<le> expires. nonce_wins ttl token ops s = [(t, dev, later)])"
  using assms(1,3)
proof (induction ops arbitrary: s)
  case (Cons a ops)
  obtain u op where a: "a = (u, op)" by (cases a)
  let ?s = "snd (nonce_exec ttl u op s)"
  have u: "isTenantId u" "\<not> reissues token op" using Cons.prems by (simp_all add: a)
  have rest: "\<forall>(u, op) \<in> set ops. isTenantId u \<and> \<not> reissues token op" using Cons.prems(2) by simp
  then have rest': "\<forall>(u, op) \<in> set ops. \<not> reissues token op" by auto
  have later: "nonce_spent token ?s \<Longrightarrow> nonce_wins ttl token ops ?s = []" by (rule nonce_spent_wins [OF _ rest'])
  show ?case
  proof (cases "\<exists>d now. op = NConsume d token now \<and> fst (consumeIfValid u d token now s)")
    case True
    then obtain d now where op: "op = NConsume d token now" and win: "fst (consumeIfValid u d token now s)" by blast
    have "tenantKey t [dev] = tenantKey u [d]" "now \<le> expires" "nonce_spent token ?s"
      using win Cons.prems(1) by (auto simp: op consumeIfValid_def nonce_open_def nonce_spent_def split: option.splits if_splits)
    then show ?thesis using later assms(2) u(1) win by (auto simp: a op)
  next
    case False
    then have "nonce_wins ttl token (a # ops) s = nonce_wins ttl token ops ?s" by (auto simp: a split: nonce_op.splits)
    then show ?thesis
      using nonce_open_step [OF Cons.prems(1) u(2), of ttl u] Cons.IH [OF _ rest] later by auto
  qed
qed simp

text \<open>A token that is gone stays gone, and one that stays there unused stands as it was issued.\<close>

interpretation nonce_gone:
  invariant_store "nonce_exec ttl" "\<lambda>(u, op). \<not> reissues token op" "\<lambda>s. jmap_ok s \<and> jget s token = None" for ttl token
  using nonce_exec_jget nonce_exec_ok by unfold_locales force

lemma nonce_exec_unused:
  assumes "jmap_ok s" and "jget s token = Some rec" and "\<not> nr_used rec" and "\<not> reissues token op"
    and "\<And>d now. op = NConsume d token now \<Longrightarrow> \<not> fst (consumeIfValid t d token now s)"
    and "jget (snd (nonce_exec ttl t op s)) token = Some r"
  shows "\<not> nr_used r"
proof (cases op)
  case (NIssue d tok now)
  then show ?thesis using assms(2-4,6) by (simp add: nonce_issue_def)
next
  case (NConsume d n now)
  show ?thesis
  proof (cases "n = token")
    case True
    then show ?thesis using assms(2,3,5,6) by (auto simp: NConsume consumeIfValid_def split: if_splits)
  next
    case False
    then show ?thesis using assms(2,3,6) by (auto simp: NConsume consumeIfValid_def split: option.splits if_splits)
  qed
next
  case (NCollect input)
  then show ?thesis using assms(2,3,6) nonce_collect_jget [OF assms(1), of t input token] by auto
qed

lemma nonce_open_run:
  assumes "nonce_open token owner expires s" and "\<forall>(u, op) \<in> set ops. \<not> reissues token op"
    and "nonce_wins ttl token ops s = []" and "jget (snd (run_ops (nonce_exec ttl) ops s)) token \<noteq> None"
  shows "nonce_open token owner expires (snd (run_ops (nonce_exec ttl) ops s))"
  using assms
proof (induction ops arbitrary: s)
  case (Cons a ops)
  obtain u op where a: "a = (u, op)" by (cases a)
  let ?s = "snd (nonce_exec ttl u op s)"
  have ok: "jmap_ok ?s" using Cons.prems(1) by (simp add: nonce_open_def nonce_exec_ok)
  have "jget ?s token \<noteq> None"
  proof
    assume "jget ?s token = None"
    then have "jget (snd (run_ops (nonce_exec ttl) ops ?s)) token = None"
      using nonce_gone.run_inv [of ops token ?s ttl] Cons.prems(2) ok by auto
    then show False using Cons.prems(4) by (simp add: a run_ops_step del: run_ops.simps)
  qed
  moreover have "\<not> nr_used r" if r: "jget ?s token = Some r" for r
  proof (rule nonce_exec_unused [OF _ _ _ _ _ r])
    show "jmap_ok s" "jget s token = Some \<lparr>nr_owner = owner, nr_expiresAtMs = expires, nr_used = False\<rparr>"
      using Cons.prems(1) by (simp_all add: nonce_open_def)
    show "\<not> fst (consumeIfValid u d token now s)" if "op = NConsume d token now" for d now
      using Cons.prems(3) that by (auto simp: a split: if_splits)
  qed (use Cons.prems(2) in \<open>simp_all add: a\<close>)
  ultimately have "nonce_open token owner expires ?s"
    using nonce_open_step [OF Cons.prems(1), of op ttl u] Cons.prems(2) by (auto simp: a nonce_spent_def)
  then show ?case using Cons.IH [of ?s] Cons.prems by (simp add: a run_ops_step del: run_ops.simps)
qed simp

text \<open>
  C20. A nonce is used once, by its owner and in time: after it was issued, in any history of calls by
  any tenants, collections included, that does not draw the same token again, at most one consumption
  of it succeeds, and that one is by the device and tenant it was issued to, no later than its expiry.
  While it has neither been consumed nor collected, its owner's first attempt in time does succeed.
\<close>

theorem nonce_single_use:
  assumes "jmap_ok s" and "isTenantId t" and "s1 = snd (nonce_issue ttl t dev token now s)"
    and "\<forall>(u, op) \<in> set ops. isTenantId u \<and> \<not> reissues token op"
  shows "(nonce_wins ttl token ops s1 = [] \<or> (\<exists>later \<le> now + ttl. nonce_wins ttl token ops s1 = [(t, dev, later)])) \<and>
    (later \<le> now + ttl \<longrightarrow> nonce_wins ttl token ops s1 = [] \<longrightarrow> jget (snd (run_ops (nonce_exec ttl) ops s1)) token \<noteq> None \<longrightarrow>
      fst (consumeIfValid t dev token later (snd (run_ops (nonce_exec ttl) ops s1))))"
proof -
  have op: "nonce_open token (tenantKey t [dev]) (now + ttl) s1"
    using assms(1) by (simp add: assms(3) nonce_issue_def nonce_open_def)
  have "\<forall>(u, op) \<in> set ops. \<not> reissues token op" using assms(4) by auto
  from nonce_open_run [OF op this, of ttl] nonce_open_wins [OF op assms(2,4), of ttl]
  show ?thesis by (fastforce simp: nonce_open_def consumeIfValid_def)
qed

theorem nonce_single_use_witness:
  "let s1 = snd (nonce_issue NONCE_TTL_MS ''acme'' ''d'' ''tok'' 0 []);
       ops = [(''globex'', NConsume ''d'' ''tok'' 1), (''acme'', NConsume ''d'' ''tok'' 2), (''acme'', NConsume ''d'' ''tok'' 3)]
   in nonce_wins NONCE_TTL_MS ''tok'' ops s1 = [(''acme'', ''d'', 2)]"
proof -
  let ?s1 = "snd (nonce_issue NONCE_TTL_MS ''acme'' ''d'' ''tok'' 0 [])"
  let ?ops = "[(''globex'', NConsume ''d'' ''tok'' 1), (''acme'', NConsume ''d'' ''tok'' 2), (''acme'', NConsume ''d'' ''tok'' 3)]"
  have "\<exists>later \<le> 0 + NONCE_TTL_MS. nonce_wins NONCE_TTL_MS ''tok'' ?ops ?s1 = [(''acme'', ''d'', later)]"
    using nonce_single_use [of "[]" "''acme''" ?s1 NONCE_TTL_MS "''d''" "''tok''" 0 ?ops]
    by (auto simp: nonce_issue_def consumeIfValid_def NONCE_TTL_MS_def)
  then show ?thesis by (auto simp: Let_def nonce_issue_def consumeIfValid_def NONCE_TTL_MS_def)
qed

section \<open>The memory of processed envelopes\<close>

definition DEDUP_RING_CAPACITY :: nat where "DEDUP_RING_CAPACITY = 1024"

text \<open>A JavaScript \<open>Set\<close> in insertion order is the list of its members.\<close>

type_synonym dedup_state = "string list jmap"

definition dedup_ring :: "nat \<Rightarrow> string \<Rightarrow> string list \<Rightarrow> bool \<times> string list" where
  "dedup_ring capacity envelopeId ring =
     (if envelopeId \<in> set ring then (True, ring)
      else let ring' = ring @ [envelopeId] in (False, if length ring' > capacity then tl ring' else ring'))"

definition dedup_check :: "nat \<Rightarrow> string \<Rightarrow> string \<Rightarrow> dedup_state \<Rightarrow> bool \<times> dedup_state" where
  "dedup_check capacity key envelopeId s =
     (case dedup_ring capacity envelopeId (case jget s key of None \<Rightarrow> [] | Some ring \<Rightarrow> ring) of
        (seen, ring) \<Rightarrow> (seen, jset key ring s))"

definition checkAndRecord :: "nat \<Rightarrow> tenant \<Rightarrow> string \<Rightarrow> string \<Rightarrow> dedup_state \<Rightarrow> bool \<times> dedup_state" where
  "checkAndRecord capacity t deviceId envelopeId s = dedup_check capacity (tenantKey t [deviceId]) envelopeId s"

definition checkAndRecordAgent ::
  "nat \<Rightarrow> tenant \<Rightarrow> string \<Rightarrow> agent_ref \<Rightarrow> string \<Rightarrow> dedup_state \<Rightarrow> (cloud_error + bool) \<times> dedup_state" where
  "checkAndRecordAgent capacity t deviceId ref envelopeId s =
     (case agentReliabilityKey ''inbound-dedup'' deviceId ref [] of
        None \<Rightarrow> (Inl SchemaError, s)
      | Some k \<Rightarrow> apfst Inr (dedup_check capacity (tenantKey t [k]) envelopeId s))"

datatype dedup_op =
    DeviceEnvelope string string
  | AgentEnvelope string agent_ref string

fun dedup_exec :: "nat \<Rightarrow> tenant \<Rightarrow> dedup_op \<Rightarrow> dedup_state \<Rightarrow> (cloud_error + bool) \<times> dedup_state" where
  "dedup_exec capacity t (DeviceEnvelope d e) s = apfst Inr (checkAndRecord capacity t d e s)"
| "dedup_exec capacity t (AgentEnvelope d ref e) s = checkAndRecordAgent capacity t d ref e s"

text \<open>
  The specification keeps, for every tenant and device or Agent, all the envelopes it let through, in
  order, and calls an envelope seen when it is among the last \<open>capacity\<close> of them.
\<close>

definition last_n :: "nat \<Rightarrow> 'a list \<Rightarrow> 'a list" where
  "last_n n xs = drop (length xs - n) xs"

type_synonym dedup_log = "tenant \<times> string \<times> agent_ref option \<Rightarrow> string list"

fun dedup_gate :: "dedup_op \<Rightarrow> string \<times> agent_ref option" where
  "dedup_gate (DeviceEnvelope d e) = (d, None)"
| "dedup_gate (AgentEnvelope d ref e) = (d, Some ref)"

fun dedup_envelope :: "dedup_op \<Rightarrow> string" where
  "dedup_envelope (DeviceEnvelope d e) = e"
| "dedup_envelope (AgentEnvelope d ref e) = e"

definition gate_ok :: "string \<times> agent_ref option \<Rightarrow> bool" where
  "gate_ok g = (case snd g of None \<Rightarrow> True | Some ref \<Rightarrow> AgentRefSchema ref)"

definition spec_step :: "nat \<Rightarrow> tenant \<Rightarrow> dedup_op \<Rightarrow> dedup_log \<Rightarrow> (cloud_error + bool) \<times> dedup_log" where
  "spec_step capacity t op lg =
     (let g = (t, dedup_gate op); e = dedup_envelope op
      in if \<not> gate_ok (dedup_gate op) then (Inl SchemaError, lg)
         else if e \<in> set (last_n capacity (lg g)) then (Inr True, lg)
         else (Inr False, lg(g := lg g @ [e])))"

definition gate_key :: "tenant \<times> string \<times> agent_ref option \<Rightarrow> string" where
  "gate_key = (\<lambda>(t, d, g). tenantKey t [case g of None \<Rightarrow> d | Some ref \<Rightarrow> reliability_text ''inbound-dedup'' d ref []])"

text \<open>Device ids that cannot be taken for the key text of an Agent.\<close>

definition plain_device :: "string \<Rightarrow> bool" where
  "plain_device d = (\<not> prefix ''inbound-dedup:'' d)"

definition plain_gate :: "tenant \<times> string \<times> agent_ref option \<Rightarrow> bool" where
  "plain_gate = (\<lambda>(t, d, g). isTenantId t \<and> plain_device d)"

lemma reliability_text_not_plain: "\<not> plain_device (reliability_text ''inbound-dedup'' d ref i)"
  by (simp add: plain_device_def reliability_text_def)

lemma gate_key_inject: "plain_gate g \<Longrightarrow> plain_gate h \<Longrightarrow> gate_key g = gate_key h \<longleftrightarrow> g = h"
  using reliability_text_not_plain by (cases g; cases h) (auto simp: plain_gate_def gate_key_def split: option.splits)

lemma dedup_ring_last_n:
  "dedup_ring n e (last_n n xs) = (e \<in> set (last_n n xs), last_n n (if e \<in> set (last_n n xs) then xs else xs @ [e]))"
proof (cases "length xs < n")
  case False
  show ?thesis
  proof (cases n)
    case (Suc m)
    then have "last_n n xs \<noteq> []" "tl (last_n n xs) = drop (length xs - m) xs"
      using False by (simp_all add: last_n_def tl_drop drop_Suc [symmetric] Suc_diff_Suc)
    then show ?thesis using False by (auto simp: dedup_ring_def last_n_def Let_def Suc)
  qed (simp add: dedup_ring_def last_n_def)
qed (auto simp: dedup_ring_def last_n_def Let_def)

text \<open>The store holds, for each gate, the last \<open>capacity\<close> envelopes of the specification.\<close>

definition dedup_sim :: "nat \<Rightarrow> dedup_state \<Rightarrow> dedup_log \<Rightarrow> bool" where
  "dedup_sim n s lg = (\<forall>g. plain_gate g \<longrightarrow> (case jget s (gate_key g) of None \<Rightarrow> [] | Some ring \<Rightarrow> ring) = last_n n (lg g))"

lemma dedup_check_sim:
  assumes "dedup_sim n s lg" and "plain_gate g"
  shows "fst (dedup_check n (gate_key g) e s) = (e \<in> set (last_n n (lg g)))"
    and "dedup_sim n (snd (dedup_check n (gate_key g) e s)) (if e \<in> set (last_n n (lg g)) then lg else lg(g := lg g @ [e]))"
proof -
  have r: "(case jget s (gate_key g) of None \<Rightarrow> [] | Some ring \<Rightarrow> ring) = last_n n (lg g)"
    using assms unfolding dedup_sim_def by blast
  show "fst (dedup_check n (gate_key g) e s) = (e \<in> set (last_n n (lg g)))"
    by (simp add: dedup_check_def r dedup_ring_last_n)
  show "dedup_sim n (snd (dedup_check n (gate_key g) e s)) (if e \<in> set (last_n n (lg g)) then lg else lg(g := lg g @ [e]))"
    unfolding dedup_sim_def
  proof (intro allI impI)
    fix h
    assume h: "plain_gate h"
    then have "(case jget s (gate_key h) of None \<Rightarrow> [] | Some ring \<Rightarrow> ring) = last_n n (lg h)"
      using assms(1) unfolding dedup_sim_def by blast
    then show "(case jget (snd (dedup_check n (gate_key g) e s)) (gate_key h) of None \<Rightarrow> [] | Some ring \<Rightarrow> ring) =
        last_n n ((if e \<in> set (last_n n (lg g)) then lg else lg(g := lg g @ [e])) h)"
      using gate_key_inject [OF assms(2) h] r by (simp add: dedup_check_def dedup_ring_last_n)
  qed
qed

lemma dedup_exec_sim:
  assumes "dedup_sim n s lg" and "isTenantId t" and "plain_device (fst (dedup_gate op))"
  shows "fst (dedup_exec n t op s) = fst (spec_step n t op lg) \<and> dedup_sim n (snd (dedup_exec n t op s)) (snd (spec_step n t op lg))"
proof (cases op)
  case (DeviceEnvelope d e)
  have "plain_gate (t, d, None)" using assms by (simp add: plain_gate_def DeviceEnvelope)
  from dedup_check_sim [OF assms(1) this, of e] show ?thesis
    by (simp add: DeviceEnvelope checkAndRecord_def gate_key_def spec_step_def gate_ok_def Let_def split: if_splits)
next
  case (AgentEnvelope d ref e)
  have "plain_gate (t, d, Some ref)" using assms by (simp add: plain_gate_def AgentEnvelope)
  from dedup_check_sim [OF assms(1) this, of e] show ?thesis
    using assms(1) by (simp add: AgentEnvelope checkAndRecordAgent_def agentReliabilityKey_def gate_key_def spec_step_def gate_ok_def Let_def split: if_splits)
qed

text \<open>
  C21. The bounded memory refines a log: any history of envelopes, of any tenants, devices and Agents,
  is answered exactly as by a store that keeps for each of them all the envelopes it let through and
  looks at the last \<open>capacity\<close>. So an envelope is processed again only after \<open>capacity\<close> others of the
  same device or Agent, and never because of another one's traffic.
\<close>

theorem dedup_refines_window:
  assumes "\<forall>(t, op) \<in> set ops. isTenantId t \<and> plain_device (fst (dedup_gate op))"
  shows "fst (run_ops (dedup_exec n) ops []) = fst (run_ops (spec_step n) ops (\<lambda>_. []))"
proof -
  have "fst (run_ops (dedup_exec n) ops s) = fst (run_ops (spec_step n) ops lg)" if "dedup_sim n s lg" for s lg
    using that assms
  proof (induction ops arbitrary: s lg)
    case (Cons a ops)
    obtain t op where a: "a = (t, op)" by (cases a)
    note S = dedup_exec_sim [OF Cons.prems(1), of t op]
    show ?case
      using S Cons.IH [of "snd (dedup_exec n t op s)" "snd (spec_step n t op lg)"] Cons.prems(2)
      by (simp add: a run_ops_step del: run_ops.simps)
  qed simp
  moreover have "dedup_sim n [] (\<lambda>_. [])" by (simp add: dedup_sim_def last_n_def)
  ultimately show ?thesis by blast
qed

theorem dedup_refines_window_witness:
  "fst (run_ops (dedup_exec 1) [(''acme'', DeviceEnvelope ''d'' ''e1''), (''globex'', DeviceEnvelope ''d'' ''e1''),
      (''acme'', DeviceEnvelope ''d'' ''e1''), (''acme'', DeviceEnvelope ''d'' ''e2''), (''acme'', DeviceEnvelope ''d'' ''e1'')] []) =
    [(''acme'', Inr False), (''globex'', Inr False), (''acme'', Inr True), (''acme'', Inr False), (''acme'', Inr False)]"
proof -
  let ?ops = "[(''acme'', DeviceEnvelope ''d'' ''e1''), (''globex'', DeviceEnvelope ''d'' ''e1''),
      (''acme'', DeviceEnvelope ''d'' ''e1''), (''acme'', DeviceEnvelope ''d'' ''e2''), (''acme'', DeviceEnvelope ''d'' ''e1'')]"
  have "\<forall>(t, op) \<in> set ?ops. isTenantId t \<and> plain_device (fst (dedup_gate op))" by (simp add: plain_device_def)
  from dedup_refines_window [OF this, of 1] show ?thesis
    by (simp add: spec_step_def gate_ok_def last_n_def Let_def)
qed

end
