(* ===== verification/Json_Arrays.thy ===== *)
theory Json_Arrays
  imports Time Json
begin

text \<open>
  The JSON text of arrays of strings and integers, from which the hosted stores build map keys
  (\<open>JSON.stringify([...])\<close> in \<open>cloud/src/stores/in-memory/e2ee-member.ts\<close> and
  \<open>agent-memory-projection.ts\<close>), and that it determines the array.
\<close>

fun elem_text :: "string + int \<Rightarrow> string" where
  "elem_text (Inl s) = json_string s"
| "elem_text (Inr n) = int_text n"

definition json_array :: "(string + int) list \<Rightarrow> string" where
  "json_array xs = CHR ''['' # join (CHR '','') (map elem_text xs) @ '']''"

lemma nat_text_digits: "list_all isdigit (nat_text n) \<and> nat_text n \<noteq> []"
proof (induction n rule: nat_text.induct)
  case (1 n)
  then show ?case by (subst nat_text.simps) (auto simp: isdigit_digit nat_text.simps [of n])
qed

lemma num_of_nat_text: "num_of (nat_text n) = n"
proof (induction n rule: nat_text.induct)
  case (1 n)
  show ?case
  proof (cases "n < 10")
    case True
    then show ?thesis by (simp add: nat_text.simps [of n] num_of_def of_char_digit)
  next
    case False
    then show ?thesis using 1 by (simp add: nat_text.simps [of n] num_of_snoc of_char_digit)
  qed
qed

text \<open>The number a text of digits, with or without a sign, stands for.\<close>

definition int_value :: "string \<Rightarrow> int" where
  "int_value s = (if s \<noteq> [] \<and> hd s = CHR ''-'' then - int_of (tl s) else int_of s)"

lemma int_value_text [simp]: "int_value (int_text n) = n"
proof -
  have "hd (nat_text k) \<noteq> CHR ''-''" for k
  proof -
    have "isdigit (hd (nat_text k))" using nat_text_digits [of k] by (cases "nat_text k") simp_all
    then show ?thesis by (auto simp: isdigit_def less_eq_char_def)
  qed
  then show ?thesis using nat_text_digits by (simp add: int_value_def int_text_def int_num_of [symmetric] num_of_nat_text)
qed

lemma int_text_chars: "c \<in> set (int_text n) \<Longrightarrow> isdigit c \<or> c = CHR ''-''"
  using nat_text_digits by (auto simp: int_text_def list_all_iff split: if_splits)

lemma int_text_no: "CHR '','' \<notin> set (int_text n)" "CHR '']'' \<notin> set (int_text n)" "QUOTE \<notin> set (int_text n)"
  by (auto dest!: int_text_chars simp: isdigit_def less_eq_char_def)

lemma int_text_nonempty: "int_text n \<noteq> []"
  using nat_text_digits by (simp add: int_text_def)

text \<open>An element's text ends where a comma or the closing bracket follows.\<close>

abbreviation json_stop :: "string \<Rightarrow> bool" where
  "json_stop r \<equiv> r = [] \<or> hd r = CHR '',''"

lemma int_text_inject_append:
  assumes "int_text a @ r = int_text b @ r'" and "json_stop r" and "json_stop r'"
  shows "a = b \<and> r = r'"
proof -
  have T: "takeWhile (\<lambda>c. c \<noteq> CHR '','') (int_text n @ x) = int_text n" if "json_stop x" for n x
    using that int_text_no(1) [of n] by (cases x) (auto simp: takeWhile_append takeWhile_tail)
  have "int_text a = int_text b" using arg_cong [OF assms(1), of "takeWhile (\<lambda>c. c \<noteq> CHR '','')"] T assms(2,3) by simp
  then show ?thesis using assms(1) int_value_text [of a] by simp
qed

lemma elem_text_inject_append:
  assumes "elem_text a @ r = elem_text b @ r'" and "json_stop r" and "json_stop r'"
  shows "a = b \<and> r = r'"
proof -
  have no: "json_string s @ x \<noteq> int_text n @ y" for s n x y
  proof
    assume eq: "json_string s @ x = int_text n @ y"
    then have "hd (int_text n) = QUOTE" using int_text_nonempty [of n] by (cases "int_text n") (auto simp: json_string_def)
    then show False using int_text_no(3) [of n] int_text_nonempty [of n] by (metis hd_in_set)
  qed
  show ?thesis
  proof (cases a)
    case (Inl s)
    then show ?thesis using assms(1) no [of s r] json_string_inject_append [of s r _ r'] by (cases b) auto
  next
    case (Inr n)
    then show ?thesis using assms no [of _ r' n r] int_text_inject_append [of n r _ r'] by (cases b) force+
  qed
qed

lemma elem_text_nonempty: "elem_text a \<noteq> []"
  by (cases a) (simp_all add: json_string_def int_text_nonempty)

lemma json_array_inject [simp]: "json_array xs = json_array ys \<longleftrightarrow> xs = ys"
proof -
  let ?J = "\<lambda>zs. join (CHR '','') (map elem_text zs)"
  have J: "?J (z # zs) = elem_text z @ (if zs = [] then [] else CHR '','' # ?J zs)" for z zs by (cases zs) simp_all
  have "?J xs = ?J ys \<Longrightarrow> xs = ys"
  proof (induction xs arbitrary: ys)
    case Nil
    then show ?case using J elem_text_nonempty by (cases ys) (simp_all del: list.map(2))
  next
    case (Cons x xs)
    obtain y ys' where ys: "ys = y # ys'" using Cons.prems elem_text_nonempty [of x] unfolding J by (cases ys) simp_all
    have "x = y \<and> (if xs = [] then [] else CHR '','' # ?J xs) = (if ys' = [] then [] else CHR '','' # ?J ys')"
      using Cons.prems unfolding ys J by (rule elem_text_inject_append) simp_all
    then have "x = y" and "(xs = [] \<and> ys' = []) \<or> ?J xs = ?J ys'" by (auto split: if_splits)
    with Cons.IH [of ys'] show ?case by (auto simp: ys)
  qed
  then show ?thesis by (auto simp: json_array_def)
qed

text \<open>\<open>JSON.parse(key)[0]\<close> and \<open>JSON.parse(key)[1]\<close> of a text \<open>["\<dots>",n]\<close>.\<close>

lemma json_first_array [simp]: "json_first (json_array (Inl x # xs)) = Some x"
proof -
  let ?r = "if xs = [] then [] else CHR '','' # join (CHR '','') (map elem_text xs)"
  have "json_array (Inl x # xs) = CHR ''['' # QUOTE # concat (map json_escape x) @ QUOTE # ?r @ '']''"
    by (cases xs) (simp_all add: json_array_def json_string_def)
  then show ?thesis using json_chars_string [of x "?r @ '']''"] by simp
qed

definition json_second :: "string \<Rightarrow> int" where
  "json_second key = (case json_chars (drop 2 key) of
     None \<Rightarrow> 0 | Some (_, r) \<Rightarrow> int_value (takeWhile (\<lambda>c. c \<noteq> CHR '']'') (tl r)))"

lemma json_second_array [simp]: "json_second (json_array [Inl x, Inr n]) = n"
proof -
  have "json_array [Inl x, Inr n] = CHR ''['' # QUOTE # concat (map json_escape x) @ QUOTE # CHR '','' # int_text n @ '']''"
    by (simp add: json_array_def json_string_def)
  moreover have "takeWhile (\<lambda>c. c \<noteq> CHR '']'') (int_text n @ '']'') = int_text n"
    using int_text_no(2) [of n] by (simp add: takeWhile_append)
  ultimately show ?thesis using json_chars_string [of x "CHR '','' # int_text n @ '']''"] by (simp add: json_second_def)
qed

end
