(* ===== verification/E2ee_Members.thy ===== *)
theory E2ee_Members
  imports Receipts Json_Arrays
begin

text \<open>
  The end-to-end encryption member store (\<open>cloud/src/stores/in-memory/e2ee-member.ts\<close>, types of
  \<open>cloud/src/e2ee-member.ts\<close>): per tenant the member chain, the scope key packages with their epochs,
  the member registrations and pairing MACs, the shredded scopes, the KEM floors, and the device-proof
  requests whose results it replays. A shred writes its receipt into the request receipts.

  The text of a recorded result is represented by the result itself: \<open>parseRecordedWriteResult\<close> reads
  back exactly the shape that its kind of write records. Appends wait for each other up to the end of
  their receipt writes, so an append is one step.
\<close>

section \<open>Data\<close>

record e2ee_proof_request =
  pq_requestId :: string
  pq_operation :: string
  pq_resource :: string
  pq_bodySha256 :: string
  pq_bodySize :: int

record e2ee_proven_write =
  pw_deviceId :: string
  pw_request :: e2ee_proof_request

record e2ee_chain_row =
  cw_seq :: int
  cw_entry :: string

record e2ee_scope_shred =
  ss_seq :: int
  ss_scopeId :: string
  ss_receiptKey :: string
  ss_receiptBody :: string

record e2ee_rotation =
  ro_seq :: int
  ro_memberId :: string
  ro_kemEpoch :: int

record e2ee_append_input =
  ea_rows :: "e2ee_chain_row list"
  ea_shreds :: "e2ee_scope_shred list"
  ea_rotations :: "e2ee_rotation list"
  ea_proof :: "e2ee_proven_write option"

datatype e2ee_append_result =
    Appended int int
  | AppendConflict int
  | AppendGap int int
  | AppendRequestConflict

record e2ee_package_row =
  kp_scopeId :: string
  kp_epoch :: int
  kp_recipient :: string
  kp_keyId :: string
  kp_sender :: string
  kp_package :: string

text \<open>A row of a put carries the KEM epoch of its package beside it.\<close>

record e2ee_package_put = e2ee_package_row +
  kp_recipientKemEpoch :: int

datatype e2ee_put_result =
    PackagesStored int
  | KeyIdConflict string int string
  | ScopeShredded string
  | KemEpochStale string int int
  | PutRequestConflict

record e2ee_registration_input =
  ri_deviceId :: string
  ri_memberId :: string
  ri_bundle :: string
  ri_deviceMac :: string
  ri_macExpiresAt :: string
  ri_request :: e2ee_proof_request

datatype e2ee_register_result = Registered | Replayed_registration | Device_conflict | Member_conflict | Register_request_conflict

record e2ee_registration =
  rg_memberId :: string
  rg_bundle :: string

record e2ee_expiring =
  ex_body :: string
  ex_expiresAt :: string

text \<open>What a store records of a write: only a successful result.\<close>

datatype recorded_result = RecAppended int int | RecStored int | RecRegistered | RecReplayed

record e2ee_recorded =
  er_binding :: string
  er_result :: recorded_result

record e2ee_tenant =
  et_chain :: "(int \<times> string) list"
  et_epochKeyIds :: "string jmap"
  et_packages :: "e2ee_package_row jmap"
  et_registrations :: "e2ee_registration jmap"
  et_deviceMacs :: "e2ee_expiring jmap"
  et_clientMacs :: "e2ee_expiring jmap"
  et_shredded :: "int jmap"
  et_kemFloors :: "int jmap"
  et_requests :: "e2ee_recorded jmap"

definition empty_e2ee_tenant :: e2ee_tenant where
  "empty_e2ee_tenant = \<lparr>et_chain = [], et_epochKeyIds = [], et_packages = [], et_registrations = [], et_deviceMacs = [],
     et_clientMacs = [], et_shredded = [], et_kemFloors = [], et_requests = []\<rparr>"

record e2ee_store =
  es_tenants :: "e2ee_tenant jmap"
  es_receipts :: receipt_state

section \<open>Recorded device requests\<close>

definition requestKey :: "e2ee_proven_write \<Rightarrow> string" where
  "requestKey p = json_stringify [pw_deviceId p, pq_requestId (pw_request p)]"

definition proof_binding :: "e2ee_proven_write \<Rightarrow> string" where
  "proof_binding p = json_array [Inl (pq_operation (pw_request p)), Inl (pq_resource (pw_request p)),
     Inl (pq_bodySha256 (pw_request p)), Inr (pq_bodySize (pw_request p))]"

datatype 'a replayed = NewRequest | RequestConflict | RecordedResult 'a | UnreadableResult

definition recorded :: "e2ee_tenant \<Rightarrow> e2ee_proven_write option \<Rightarrow> (recorded_result \<Rightarrow> 'a option) \<Rightarrow> 'a replayed" where
  "recorded st proof parse =
     (case proof of
        None \<Rightarrow> NewRequest
      | Some p \<Rightarrow>
          (case jget (et_requests st) (requestKey p) of
             None \<Rightarrow> NewRequest
           | Some stored \<Rightarrow>
               if er_binding stored = proof_binding p
               then (case parse (er_result stored) of None \<Rightarrow> UnreadableResult | Some r \<Rightarrow> RecordedResult r)
               else RequestConflict))"

definition record_request :: "e2ee_proven_write option \<Rightarrow> recorded_result \<Rightarrow> e2ee_tenant \<Rightarrow> e2ee_tenant" where
  "record_request proof r st =
     (case proof of
        None \<Rightarrow> st
      | Some p \<Rightarrow> st\<lparr>et_requests := jset (requestKey p) \<lparr>er_binding = proof_binding p, er_result = r\<rparr> (et_requests st)\<rparr>)"

text \<open>\<open>parseRecordedWriteResult\<close> for the three kinds of write.\<close>

fun parse_append :: "recorded_result \<Rightarrow> e2ee_append_result option" where
  "parse_append (RecAppended a r) = Some (Appended a r)"
| "parse_append _ = None"

fun parse_put :: "recorded_result \<Rightarrow> e2ee_put_result option" where
  "parse_put (RecStored n) = Some (PackagesStored n)"
| "parse_put _ = None"

fun parse_register :: "recorded_result \<Rightarrow> e2ee_register_result option" where
  "parse_register RecRegistered = Some Registered"
| "parse_register RecReplayed = Some Replayed_registration"
| "parse_register _ = None"

definition state_unreadable :: cloud_error where
  "state_unreadable = ByokCloudError E2ee_member_state_unreadable"

section \<open>The member chain\<close>

text \<open>The loop over the rows that are stored already: how many there are, or the first that differs.\<close>

fun replay_rows :: "(int \<times> string) list \<Rightarrow> int \<Rightarrow> e2ee_chain_row list \<Rightarrow> int + nat" where
  "replay_rows chain headSeq [] = Inr 0"
| "replay_rows chain headSeq (row # rows) =
     (if cw_seq row > headSeq then Inr 0
      else if map_of chain (cw_seq row) \<noteq> Some (cw_entry row) then Inl (cw_seq row)
      else map_sum id Suc (replay_rows chain headSeq rows))"

definition chain_set :: "e2ee_chain_row list \<Rightarrow> (int \<times> string) list \<Rightarrow> (int \<times> string) list" where
  "chain_set rows chain = fold (\<lambda>row. AList.update (cw_seq row) (cw_entry row)) rows chain"

definition shred_scope :: "e2ee_scope_shred \<Rightarrow> e2ee_tenant \<Rightarrow> e2ee_tenant" where
  "shred_scope sh st = st\<lparr>
     et_packages := filter (\<lambda>(_, row). kp_scopeId row \<noteq> ss_scopeId sh) (et_packages st),
     et_epochKeyIds := filter (\<lambda>(key, _). json_first key \<noteq> Some (ss_scopeId sh)) (et_epochKeyIds st),
     et_shredded := (if jget (et_shredded st) (ss_scopeId sh) = None
                     then jset (ss_scopeId sh) (ss_seq sh) (et_shredded st) else et_shredded st)\<rparr>"

definition kem_floor :: "string \<Rightarrow> e2ee_tenant \<Rightarrow> int" where
  "kem_floor member st = (case jget (et_kemFloors st) member of None \<Rightarrow> 0 | Some f \<Rightarrow> f)"

definition rotate_member :: "int \<Rightarrow> e2ee_rotation \<Rightarrow> e2ee_tenant \<Rightarrow> e2ee_tenant" where
  "rotate_member headSeq ro st =
     (if ro_seq ro > headSeq \<and> ro_kemEpoch ro > kem_floor (ro_memberId ro) st
      then st\<lparr>et_kemFloors := jset (ro_memberId ro) (ro_kemEpoch ro) (et_kemFloors st)\<rparr> else st)"

definition fresh_shreds :: "int \<Rightarrow> e2ee_append_input \<Rightarrow> e2ee_scope_shred list" where
  "fresh_shreds headSeq input = filter (\<lambda>sh. ss_seq sh > headSeq) (ea_shreds input)"

text \<open>The synchronous part of \<open>#append\<close>; the list holds the shreds whose receipts follow.\<close>

definition append_chain ::
  "e2ee_append_input \<Rightarrow> e2ee_tenant \<Rightarrow> (cloud_error + e2ee_append_result) \<times> e2ee_scope_shred list \<times> e2ee_tenant" where
  "append_chain input st =
     (case recorded st (ea_proof input) parse_append of
        RequestConflict \<Rightarrow> (Inr AppendRequestConflict, [], st)
      | UnreadableResult \<Rightarrow> (Inl state_unreadable, [], st)
      | RecordedResult r \<Rightarrow> (Inr r, [], st)
      | NewRequest \<Rightarrow>
          let chain = et_chain st; rows = ea_rows input; headSeq = int (length chain)
          in case replay_rows chain headSeq rows of
               Inl seq \<Rightarrow> (Inr (AppendConflict seq), [], st)
             | Inr replayed \<Rightarrow>
                 let fresh = drop replayed rows
                 in if fresh \<noteq> [] \<and> cw_seq (hd fresh) \<noteq> headSeq + 1
                    then (Inr (AppendGap (cw_seq (hd fresh)) headSeq), [], st)
                    else
                      let shreds = fresh_shreds headSeq input;
                          st1 = st\<lparr>et_chain := chain_set fresh chain\<rparr>;
                          st2 = fold shred_scope shreds st1;
                          st3 = fold (rotate_member headSeq) (ea_rotations input) st2;
                          appended = int (length fresh)
                      in (Inr (Appended appended (int replayed)), shreds,
                          record_request (ea_proof input) (RecAppended appended (int replayed)) st3))"

definition tenant_state :: "tenant \<Rightarrow> e2ee_store \<Rightarrow> e2ee_tenant" where
  "tenant_state t s = (case jget (es_tenants s) t of None \<Rightarrow> empty_e2ee_tenant | Some st \<Rightarrow> st)"

definition put_tenant :: "tenant \<Rightarrow> e2ee_tenant \<Rightarrow> e2ee_store \<Rightarrow> e2ee_store" where
  "put_tenant t st s = s\<lparr>es_tenants := jset t st (es_tenants s)\<rparr>"

definition record_shreds :: "tenant \<Rightarrow> int \<Rightarrow> e2ee_scope_shred list \<Rightarrow> receipt_state \<Rightarrow> receipt_state" where
  "record_shreds t now shreds rs =
     fold (\<lambda>sh rs. snd (receipt_record t (ss_receiptKey sh) (ss_receiptBody sh) now rs)) shreds rs"

definition appendChainEntries ::
  "tenant \<Rightarrow> e2ee_append_input \<Rightarrow> int \<Rightarrow> e2ee_store \<Rightarrow> (cloud_error + e2ee_append_result) \<times> e2ee_store" where
  "appendChainEntries t input now s =
     (case append_chain input (tenant_state t s) of
        (r, shreds, st) \<Rightarrow> (r, (put_tenant t st s)\<lparr>es_receipts := record_shreds t now shreds (es_receipts s)\<rparr>))"

text \<open>The loop \<open>for (seq = afterSeq + 1; seq <= size && rows.length < limit; seq++)\<close>.\<close>

definition read_chain :: "int \<Rightarrow> int \<Rightarrow> (int \<times> string) list \<Rightarrow> e2ee_chain_row list" where
  "read_chain afterSeq limit chain =
     map (\<lambda>seq. \<lparr>cw_seq = seq, cw_entry = (case map_of chain seq of None \<Rightarrow> [] | Some e \<Rightarrow> e)\<rparr>)
       (take (nat limit) [afterSeq + 1..int (length chain)])"

definition readChainEntries :: "tenant \<Rightarrow> int \<Rightarrow> int \<Rightarrow> e2ee_store \<Rightarrow> e2ee_chain_row list \<times> e2ee_store" where
  "readChainEntries t afterSeq limit s =
     (read_chain afterSeq limit (et_chain (tenant_state t s)), put_tenant t (tenant_state t s) s)"

section \<open>Scope key packages\<close>

definition epoch_key :: "string \<Rightarrow> int \<Rightarrow> string" where
  "epoch_key scopeId epoch = json_array [Inl scopeId, Inr epoch]"

definition package_key :: "string \<Rightarrow> int \<Rightarrow> string \<Rightarrow> string" where
  "package_key scopeId epoch recipient = json_array [Inl scopeId, Inr epoch, Inl recipient]"

fun stale_package :: "e2ee_tenant \<Rightarrow> e2ee_package_put list \<Rightarrow> e2ee_put_result option" where
  "stale_package st [] = None"
| "stale_package st (row # rows) =
     (case jget (et_kemFloors st) (kp_recipient row) of
        Some fl \<Rightarrow> if kp_recipientKemEpoch row < fl then Some (KemEpochStale (kp_recipient row) (kp_recipientKemEpoch row) fl)
                   else stale_package st rows
      | None \<Rightarrow> stale_package st rows)"

text \<open>The first row of a new scope epoch fixes its \<open>keyId\<close> for the rest of the call.\<close>

fun key_conflict :: "string jmap \<Rightarrow> string jmap \<Rightarrow> e2ee_package_put list \<Rightarrow> e2ee_put_result option" where
  "key_conflict epochKeyIds fixed [] = None"
| "key_conflict epochKeyIds fixed (row # rows) =
     (let epochKey = epoch_key (kp_scopeId row) (kp_epoch row);
          keyId = (case jget epochKeyIds epochKey of Some k \<Rightarrow> Some k | None \<Rightarrow> jget fixed epochKey)
      in case keyId of
           Some k \<Rightarrow> if k \<noteq> kp_keyId row then Some (KeyIdConflict (kp_scopeId row) (kp_epoch row) k)
                     else key_conflict epochKeyIds (jset epochKey (kp_keyId row) fixed) rows
         | None \<Rightarrow> key_conflict epochKeyIds (jset epochKey (kp_keyId row) fixed) rows)"

definition store_package :: "e2ee_package_put \<Rightarrow> e2ee_tenant \<Rightarrow> e2ee_tenant" where
  "store_package row st = st\<lparr>
     et_epochKeyIds := jset (epoch_key (kp_scopeId row) (kp_epoch row)) (kp_keyId row) (et_epochKeyIds st),
     et_packages := jset (package_key (kp_scopeId row) (kp_epoch row) (kp_recipient row)) (e2ee_package_row.truncate row) (et_packages st)\<rparr>"

definition put_packages ::
  "e2ee_package_put list \<Rightarrow> e2ee_proven_write option \<Rightarrow> e2ee_tenant \<Rightarrow> (cloud_error + e2ee_put_result) \<times> e2ee_tenant" where
  "put_packages rows proof st =
     (case recorded st proof parse_put of
        RequestConflict \<Rightarrow> (Inr PutRequestConflict, st)
      | UnreadableResult \<Rightarrow> (Inl state_unreadable, st)
      | RecordedResult r \<Rightarrow> (Inr r, st)
      | NewRequest \<Rightarrow>
          (case find (\<lambda>row. jget (et_shredded st) (kp_scopeId row) \<noteq> None) rows of
             Some row \<Rightarrow> (Inr (ScopeShredded (kp_scopeId row)), st)
           | None \<Rightarrow>
               (case stale_package st rows of
                  Some r \<Rightarrow> (Inr r, st)
                | None \<Rightarrow>
                    (case key_conflict (et_epochKeyIds st) [] rows of
                       Some r \<Rightarrow> (Inr r, st)
                     | None \<Rightarrow> (Inr (PackagesStored (int (length rows))),
                         record_request proof (RecStored (int (length rows))) (fold store_package rows st))))))"

definition putScopeKeyPackages ::
  "tenant \<Rightarrow> e2ee_package_put list \<Rightarrow> e2ee_proven_write option \<Rightarrow> e2ee_store \<Rightarrow> (cloud_error + e2ee_put_result) \<times> e2ee_store" where
  "putScopeKeyPackages t rows proof s =
     (case put_packages rows proof (tenant_state t s) of (r, st) \<Rightarrow> (r, put_tenant t st s))"

fun scope_head :: "string \<Rightarrow> int option \<Rightarrow> string list \<Rightarrow> int option" where
  "scope_head scopeId head [] = head"
| "scope_head scopeId head (key # keys) =
     scope_head scopeId
       (if json_first key = Some scopeId \<and> json_second key > (case head of None \<Rightarrow> 0 | Some h \<Rightarrow> h) then Some (json_second key) else head) keys"

definition own_packages :: "string \<Rightarrow> string \<Rightarrow> int \<Rightarrow> int \<Rightarrow> e2ee_tenant \<Rightarrow> e2ee_package_row list \<times> int option" where
  "own_packages scopeId recipient afterEpoch limit st =
     (slice0 limit (sort_by (\<lambda>a b. kp_epoch a - kp_epoch b)
        (filter (\<lambda>row. kp_scopeId row = scopeId \<and> kp_recipient row = recipient \<and> kp_epoch row > afterEpoch) (jvals (et_packages st)))),
      scope_head scopeId None (map fst (et_epochKeyIds st)))"

definition readOwnScopeKeyPackages ::
  "tenant \<Rightarrow> string \<Rightarrow> string \<Rightarrow> int \<Rightarrow> int \<Rightarrow> e2ee_store \<Rightarrow> (e2ee_package_row list \<times> int option) \<times> e2ee_store" where
  "readOwnScopeKeyPackages t scopeId recipient afterEpoch limit s =
     (own_packages scopeId recipient afterEpoch limit (tenant_state t s), put_tenant t (tenant_state t s) s)"

definition scope_packages :: "string \<Rightarrow> int option \<Rightarrow> string option \<Rightarrow> e2ee_tenant \<Rightarrow> e2ee_package_row list" where
  "scope_packages scopeId epoch recipient st =
     sort_by (\<lambda>a b. if kp_epoch a - kp_epoch b \<noteq> 0 then kp_epoch a - kp_epoch b else str_cmp (kp_recipient a) (kp_recipient b))
       (filter (\<lambda>row. kp_scopeId row = scopeId \<and> (epoch = None \<or> epoch = Some (kp_epoch row)) \<and>
          (recipient = None \<or> recipient = Some (kp_recipient row))) (jvals (et_packages st)))"

definition readScopeKeyPackages ::
  "tenant \<Rightarrow> string \<Rightarrow> int option \<Rightarrow> string option \<Rightarrow> e2ee_store \<Rightarrow> e2ee_package_row list \<times> e2ee_store" where
  "readScopeKeyPackages t scopeId epoch recipient s =
     (scope_packages scopeId epoch recipient (tenant_state t s), put_tenant t (tenant_state t s) s)"

section \<open>Member registrations and pairing MACs\<close>

definition register_member :: "e2ee_registration_input \<Rightarrow> e2ee_tenant \<Rightarrow> (cloud_error + e2ee_register_result) \<times> e2ee_tenant" where
  "register_member i st =
     (let proof = Some \<lparr>pw_deviceId = ri_deviceId i, pw_request = ri_request i\<rparr>
      in case recorded st proof parse_register of
           RequestConflict \<Rightarrow> (Inr Register_request_conflict, st)
         | UnreadableResult \<Rightarrow> (Inl state_unreadable, st)
         | RecordedResult r \<Rightarrow> (Inr r, st)
         | NewRequest \<Rightarrow>
             let existing = jget (et_registrations st) (ri_deviceId i)
             in if (case existing of None \<Rightarrow> False | Some e \<Rightarrow> rg_bundle e \<noteq> ri_bundle i) then (Inr Device_conflict, st)
                else if existing = None \<and> list_ex (\<lambda>r. rg_memberId r = ri_memberId i) (jvals (et_registrations st))
                then (Inr Member_conflict, st)
                else
                  let st1 = (if existing = None
                       then st\<lparr>et_registrations := jset (ri_deviceId i) \<lparr>rg_memberId = ri_memberId i, rg_bundle = ri_bundle i\<rparr> (et_registrations st)\<rparr>
                       else st);
                      st2 = st1\<lparr>et_deviceMacs := jset (ri_deviceId i) \<lparr>ex_body = ri_deviceMac i, ex_expiresAt = ri_macExpiresAt i\<rparr> (et_deviceMacs st1)\<rparr>
                  in (Inr (if existing = None then Registered else Replayed_registration),
                      record_request proof (if existing = None then RecRegistered else RecReplayed) st2))"

definition registerMember :: "tenant \<Rightarrow> e2ee_registration_input \<Rightarrow> e2ee_store \<Rightarrow> (cloud_error + e2ee_register_result) \<times> e2ee_store" where
  "registerMember t i s = (case register_member i (tenant_state t s) of (r, st) \<Rightarrow> (r, put_tenant t st s))"

definition live_body :: "(string \<Rightarrow> int option) \<Rightarrow> e2ee_expiring option \<Rightarrow> string \<Rightarrow> string option" where
  "live_body other v now =
     (case v of
        None \<Rightarrow> None
      | Some x \<Rightarrow>
          (case (js_date_parse other now, js_date_parse other (ex_expiresAt x)) of
             (Some n, Some e) \<Rightarrow> if n < e then Some (ex_body x) else None
           | _ \<Rightarrow> None))"

definition readMemberRegistration ::
  "(string \<Rightarrow> int option) \<Rightarrow> tenant \<Rightarrow> string \<Rightarrow> string \<Rightarrow> e2ee_store \<Rightarrow> (e2ee_registration \<times> string option) option \<times> e2ee_store" where
  "readMemberRegistration other t deviceId now s =
     (let st = tenant_state t s
      in (map_option (\<lambda>r. (r, live_body other (jget (et_deviceMacs st) deviceId) now)) (jget (et_registrations st) deviceId),
          put_tenant t st s))"

text \<open>The answer is whether the MAC was stored.\<close>

definition putClientPairingMac :: "tenant \<Rightarrow> string \<Rightarrow> string \<Rightarrow> string \<Rightarrow> e2ee_store \<Rightarrow> bool \<times> e2ee_store" where
  "putClientPairingMac t deviceId body expiresAt s =
     (let st = tenant_state t s
      in if jget (et_registrations st) deviceId = None then (False, put_tenant t st s)
         else (True, put_tenant t (st\<lparr>et_clientMacs := jset deviceId \<lparr>ex_body = body, ex_expiresAt = expiresAt\<rparr> (et_clientMacs st)\<rparr>) s))"

definition readClientPairingMac :: "(string \<Rightarrow> int option) \<Rightarrow> tenant \<Rightarrow> string \<Rightarrow> string \<Rightarrow> e2ee_store \<Rightarrow> string option \<times> e2ee_store" where
  "readClientPairingMac other t deviceId now s =
     (live_body other (jget (et_clientMacs (tenant_state t s)) deviceId) now, put_tenant t (tenant_state t s) s)"

section \<open>Calls\<close>

datatype e2ee_op =
    EAppend e2ee_append_input int
  | EReadChain int int
  | EPut "e2ee_package_put list" "e2ee_proven_write option"
  | EReadOwn string string int int
  | EReadScope string "int option" "string option"
  | ERegister e2ee_registration_input
  | EReadMember string string
  | EPutMac string string string
  | EReadMac string string

datatype e2ee_answer =
    AppendAnswer "cloud_error + e2ee_append_result"
  | ChainAnswer "e2ee_chain_row list"
  | PutAnswer "cloud_error + e2ee_put_result"
  | OwnAnswer "e2ee_package_row list \<times> int option"
  | ScopeAnswer "e2ee_package_row list"
  | RegisterAnswer "cloud_error + e2ee_register_result"
  | MemberAnswer "(e2ee_registration \<times> string option) option"
  | MacStored bool
  | MacAnswer "string option"

fun e2ee_exec :: "(string \<Rightarrow> int option) \<Rightarrow> tenant \<Rightarrow> e2ee_op \<Rightarrow> e2ee_store \<Rightarrow> e2ee_answer \<times> e2ee_store" where
  "e2ee_exec other t (EAppend i now) s = map_prod AppendAnswer id (appendChainEntries t i now s)"
| "e2ee_exec other t (EReadChain a l) s = map_prod ChainAnswer id (readChainEntries t a l s)"
| "e2ee_exec other t (EPut rows proof) s = map_prod PutAnswer id (putScopeKeyPackages t rows proof s)"
| "e2ee_exec other t (EReadOwn sc r a l) s = map_prod OwnAnswer id (readOwnScopeKeyPackages t sc r a l s)"
| "e2ee_exec other t (EReadScope sc e r) s = map_prod ScopeAnswer id (readScopeKeyPackages t sc e r s)"
| "e2ee_exec other t (ERegister i) s = map_prod RegisterAnswer id (registerMember t i s)"
| "e2ee_exec other t (EReadMember d now) s = map_prod MemberAnswer id (readMemberRegistration other t d now s)"
| "e2ee_exec other t (EPutMac d b e) s = map_prod MacStored id (putClientPairingMac t d b e s)"
| "e2ee_exec other t (EReadMac d now) s = map_prod MacAnswer id (readClientPairingMac other t d now s)"

text \<open>What a call makes of the state of its tenant.\<close>

fun op_state :: "e2ee_op \<Rightarrow> e2ee_tenant \<Rightarrow> e2ee_tenant" where
  "op_state (EAppend i now) st = snd (snd (append_chain i st))"
| "op_state (EPut rows proof) st = snd (put_packages rows proof st)"
| "op_state (ERegister i) st = snd (register_member i st)"
| "op_state (EPutMac d b e) st =
     (if jget (et_registrations st) d = None then st
      else st\<lparr>et_clientMacs := jset d \<lparr>ex_body = b, ex_expiresAt = e\<rparr> (et_clientMacs st)\<rparr>)"
| "op_state _ st = st"

lemma tenant_state_put [simp]: "tenant_state u (put_tenant t st s) = (if u = t then st else tenant_state u s)"
  by (simp add: tenant_state_def put_tenant_def)

lemma tenant_state_receipts [simp]: "tenant_state u (s\<lparr>es_receipts := r\<rparr>) = tenant_state u s"
  by (simp add: tenant_state_def)

lemma tenant_state_exec:
  "tenant_state u (snd (e2ee_exec other t op s)) = (if u = t then op_state op (tenant_state t s) else tenant_state u s)"
  by (cases op) (simp_all add: appendChainEntries_def readChainEntries_def putScopeKeyPackages_def readOwnScopeKeyPackages_def
      readScopeKeyPackages_def registerMember_def readMemberRegistration_def putClientPairingMac_def readClientPairingMac_def
      Let_def split: prod.split)

section \<open>The invariant of a tenant and how its state moves\<close>

definition chain_ok :: "(int \<times> string) list \<Rightarrow> bool" where
  "chain_ok chain = (map fst chain = [1..int (length chain)])"

definition keys_ok :: "e2ee_tenant \<Rightarrow> bool" where
  "keys_ok st =
     (jmap_ok (et_packages st) \<and> jmap_ok (et_epochKeyIds st) \<and>
      (\<forall>k row. jget (et_packages st) k = Some row \<longrightarrow>
         k = package_key (kp_scopeId row) (kp_epoch row) (kp_recipient row) \<and>
         jget (et_epochKeyIds st) (epoch_key (kp_scopeId row) (kp_epoch row)) = Some (kp_keyId row) \<and>
         jget (et_shredded st) (kp_scopeId row) = None) \<and>
      (\<forall>k v. jget (et_epochKeyIds st) k = Some v \<longrightarrow> (\<exists>scope e. k = epoch_key scope e \<and> jget (et_shredded st) scope = None)))"

definition members_ok :: "e2ee_tenant \<Rightarrow> bool" where
  "members_ok st =
     (jmap_ok (et_registrations st) \<and>
      (\<forall>d e r q. jget (et_registrations st) d = Some r \<longrightarrow> jget (et_registrations st) e = Some q \<longrightarrow> rg_memberId r = rg_memberId q \<longrightarrow> d = e))"

definition tenant_inv :: "e2ee_tenant \<Rightarrow> bool" where
  "tenant_inv st = (chain_ok (et_chain st) \<and> keys_ok st \<and> members_ok st)"

definition tenant_le :: "e2ee_tenant \<Rightarrow> e2ee_tenant \<Rightarrow> bool" where
  "tenant_le a b =
     (prefix (et_chain a) (et_chain b) \<and>
      (\<forall>k v. jget (et_shredded a) k = Some v \<longrightarrow> jget (et_shredded b) k = Some v) \<and>
      (\<forall>m. kem_floor m a \<le> kem_floor m b) \<and>
      (\<forall>k v. jget (et_requests a) k = Some v \<longrightarrow> jget (et_requests b) k = Some v) \<and>
      (\<forall>d r. jget (et_registrations a) d = Some r \<longrightarrow> jget (et_registrations b) d = Some r) \<and>
      (\<forall>scope e v. jget (et_epochKeyIds a) (epoch_key scope e) = Some v \<longrightarrow>
         jget (et_epochKeyIds b) (epoch_key scope e) = Some v \<or> jget (et_shredded b) scope \<noteq> None))"

text \<open>The rows an append takes have contiguous ascending seqs; its caller refuses others.\<close>

definition contiguous :: "e2ee_chain_row list \<Rightarrow> bool" where
  "contiguous rows = (rows \<noteq> [] \<and> map cw_seq rows = [cw_seq (hd rows)..cw_seq (hd rows) + int (length rows) - 1])"

fun e2ee_call :: "tenant \<times> e2ee_op \<Rightarrow> bool" where
  "e2ee_call (t, EAppend i now) = contiguous (ea_rows i)"
| "e2ee_call (t, op) = True"

lemma tenant_le_refl [simp]: "tenant_le st st"
  by (simp add: tenant_le_def)

lemma tenant_leD:
  assumes "tenant_le a b"
  shows "prefix (et_chain a) (et_chain b)" and "jget (et_shredded a) k = Some v \<Longrightarrow> jget (et_shredded b) k = Some v"
    and "kem_floor m a \<le> kem_floor m b" and "jget (et_requests a) k = Some q \<Longrightarrow> jget (et_requests b) k = Some q"
    and "jget (et_registrations a) d = Some r \<Longrightarrow> jget (et_registrations b) d = Some r"
    and "jget (et_epochKeyIds a) (epoch_key scope e) = Some w \<Longrightarrow>
      jget (et_epochKeyIds b) (epoch_key scope e) = Some w \<or> jget (et_shredded b) scope \<noteq> None"
  using assms unfolding tenant_le_def by blast+

lemma tenant_le_trans [trans]:
  assumes "tenant_le a b" and "tenant_le b c"
  shows "tenant_le a c"
  unfolding tenant_le_def
proof (intro conjI allI impI)
  show "prefix (et_chain a) (et_chain c)" using tenant_leD(1) [OF assms(1)] tenant_leD(1) [OF assms(2)] by (rule prefix_order.trans)
  show "kem_floor m a \<le> kem_floor m c" for m
    using tenant_leD(3) [OF assms(1), of m] tenant_leD(3) [OF assms(2), of m] by simp
  show "jget (et_epochKeyIds c) (epoch_key scope e) = Some v \<or> jget (et_shredded c) scope \<noteq> None"
    if "jget (et_epochKeyIds a) (epoch_key scope e) = Some v" for scope e v
    using tenant_leD(6) [OF assms(1) that] tenant_leD(6) [OF assms(2), of scope e v] tenant_leD(2) [OF assms(2), of scope] by blast
qed (use tenant_leD(2,4,5) [OF assms(1)] tenant_leD(2,4,5) [OF assms(2)] in blast)+

abbreviation tenant_moves :: "e2ee_tenant \<Rightarrow> e2ee_tenant \<Rightarrow> bool" where
  "tenant_moves a b \<equiv> tenant_inv b \<and> tenant_le a b"

lemma tenant_moves_trans: "tenant_moves a b \<Longrightarrow> tenant_moves b c \<Longrightarrow> tenant_moves a c"
  using tenant_le_trans by blast

lemma fold_moves:
  assumes "\<And>x st. x \<in> set xs \<Longrightarrow> tenant_inv st \<Longrightarrow> tenant_moves st (f x st)" and "tenant_inv st"
  shows "tenant_moves st (fold f xs st)"
  using assms
proof (induction xs arbitrary: st)
  case (Cons x xs)
  have "tenant_moves st (f x st)" using Cons.prems by simp
  moreover have "tenant_moves (f x st) (fold f xs (f x st))" using Cons.prems by (intro Cons.IH) simp_all
  ultimately show ?case using tenant_moves_trans by simp
qed simp

lemma epoch_key_inject [simp]: "epoch_key a e = epoch_key b f \<longleftrightarrow> a = b \<and> e = f"
  by (simp add: epoch_key_def)

lemma package_key_inject [simp]: "package_key a e r = package_key b f q \<longleftrightarrow> a = b \<and> e = f \<and> r = q"
  by (simp add: package_key_def)

lemma epoch_key_scope [simp]: "json_first (epoch_key scope e) = Some scope" "json_second (epoch_key scope e) = e"
  by (simp_all add: epoch_key_def)

lemma shred_scope_moves:
  assumes "tenant_inv st"
  shows "tenant_moves st (shred_scope sh st)"
proof -
  have ok: "jmap_ok (et_packages st)" "jmap_ok (et_epochKeyIds st)" using assms by (simp_all add: tenant_inv_def keys_ok_def)
  note pk = jget_filter [OF ok(1)] and ek = jget_filter [OF ok(2)]
  let ?st = "shred_scope sh st"
  have sh: "jget (et_shredded ?st) scope = None \<longleftrightarrow> jget (et_shredded st) scope = None \<and> scope \<noteq> ss_scopeId sh" for scope
    by (auto simp: shred_scope_def)
  have p: "jget (et_packages ?st) k = Some row \<longleftrightarrow> jget (et_packages st) k = Some row \<and> kp_scopeId row \<noteq> ss_scopeId sh" for k row
    by (auto simp: shred_scope_def pk split: option.splits)
  have e: "jget (et_epochKeyIds ?st) k = Some v \<longleftrightarrow> jget (et_epochKeyIds st) k = Some v \<and> json_first k \<noteq> Some (ss_scopeId sh)" for k v
    by (auto simp: shred_scope_def ek split: option.splits)
  have jm: "jmap_ok (et_packages ?st)" "jmap_ok (et_epochKeyIds ?st)" using ok by (simp_all add: shred_scope_def)
  have "keys_ok ?st"
    using assms unfolding tenant_inv_def keys_ok_def sh p e by (auto simp: jm)
  moreover have "tenant_le st ?st"
    unfolding tenant_le_def e by (auto simp: shred_scope_def kem_floor_def)
  ultimately show ?thesis using assms by (simp add: tenant_inv_def members_ok_def shred_scope_def)
qed

lemma rotate_member_moves: "tenant_inv st \<Longrightarrow> tenant_moves st (rotate_member head ro st)"
  by (auto simp: rotate_member_def tenant_inv_def tenant_le_def keys_ok_def members_ok_def kem_floor_def)

lemma record_request_moves:
  assumes "tenant_inv st" and "\<And>p. proof = Some p \<Longrightarrow> jget (et_requests st) (requestKey p) = None"
  shows "tenant_moves st (record_request proof r st)"
  using assms by (auto simp: record_request_def tenant_inv_def tenant_le_def keys_ok_def members_ok_def kem_floor_def split: option.split)

lemma recorded_New: "recorded st proof parse = NewRequest \<Longrightarrow> proof = Some p \<Longrightarrow> jget (et_requests st) (requestKey p) = None"
  by (auto simp: recorded_def split: option.splits if_splits)

subsection \<open>Appending to the chain\<close>

lemma map_upto_nth:
  assumes "map f xs = [a..b]" and "i < length xs"
  shows "f (xs ! i) = a + int i"
proof -
  have "length xs = nat (b - a + 1)" using arg_cong [OF assms(1), of length] by simp
  then have "[a..b] ! i = a + int i" using assms(2) by (intro nth_upto) linarith
  then show ?thesis using assms by (metis nth_map)
qed

lemma upto_snoc: "n \<le> m \<Longrightarrow> [n..m + 1] = [n..m] @ [m + 1 :: int]"
  using upto_rec2 [of n "m + 1"] by simp

lemma chain_set_append:
  assumes "chain_ok chain" and "map cw_seq rows = [int (length chain) + 1..int (length chain) + int (length rows)]"
  shows "chain_set rows chain = chain @ map (\<lambda>r. (cw_seq r, cw_entry r)) rows \<and> chain_ok (chain_set rows chain)"
  using assms
proof (induction rows arbitrary: chain)
  case Nil
  then show ?case by (simp add: chain_set_def)
next
  case (Cons r rows)
  let ?n = "int (length chain)"
  have up: "[?n + 1..?n + int (length (r # rows))] = (?n + 1) # [?n + 1 + 1..?n + int (length (r # rows))]"
    by (rule upto_rec1) simp
  have r: "cw_seq r = ?n + 1" and rs: "map cw_seq rows = [?n + 1 + 1..?n + int (length (r # rows))]"
    using Cons.prems(2) unfolding up by simp_all
  have new: "cw_seq r \<notin> set (map fst chain)" using Cons.prems(1) unfolding chain_ok_def by (simp add: r)
  then have upd: "AList.update (cw_seq r) (cw_entry r) chain = chain @ [(cw_seq r, cw_entry r)]"
    by (induction chain) auto
  let ?c = "chain @ [(cw_seq r, cw_entry r)]"
  have ok: "chain_ok ?c"
    using Cons.prems(1) upto_snoc [of 1 ?n] by (cases chain) (simp_all add: chain_ok_def r add.commute)
  have "map cw_seq rows = [int (length ?c) + 1..int (length ?c) + int (length rows)]" using rs by (simp add: algebra_simps)
  note IH = Cons.IH [OF ok this]
  have eq: "chain_set (r # rows) chain = chain_set rows ?c" by (simp add: chain_set_def upd)
  show ?case unfolding eq
  proof
    show "chain_set rows ?c = chain @ map (\<lambda>r. (cw_seq r, cw_entry r)) (r # rows)" using conjunct1 [OF IH] by simp
  qed (rule conjunct2 [OF IH])
qed

lemma replay_rows_Inr:
  assumes "replay_rows chain head rows = Inr k"
  shows "k \<le> length rows \<and> (\<forall>i < k. cw_seq (rows ! i) \<le> head \<and> map_of chain (cw_seq (rows ! i)) = Some (cw_entry (rows ! i))) \<and>
    (k < length rows \<longrightarrow> cw_seq (rows ! k) > head)"
  using assms
proof (induction rows arbitrary: k)
  case (Cons r rows)
  show ?case
  proof (cases "cw_seq r > head")
    case True
    then show ?thesis using Cons.prems by simp
  next
    case False
    then obtain m where m: "replay_rows chain head rows = Inr m" "k = Suc m" "map_of chain (cw_seq r) = Some (cw_entry r)"
      using Cons.prems by (cases "replay_rows chain head rows") (auto split: if_splits)
    from Cons.IH [OF m(1)] show ?thesis using m(2,3) False by (auto simp: nth_Cons split: nat.split)
  qed
qed simp

text \<open>The seq of every row of a contiguous append.\<close>

lemma contiguous_seq: "contiguous rows \<Longrightarrow> i < length rows \<Longrightarrow> cw_seq (rows ! i) = cw_seq (hd rows) + int i"
  using map_upto_nth [of cw_seq rows] by (simp add: contiguous_def)

lemma contiguous_drop:
  assumes "contiguous rows" and "k < length rows"
  shows "map cw_seq (drop k rows) = [cw_seq (rows ! k)..cw_seq (rows ! k) + int (length (drop k rows)) - 1]"
proof -
  have nth: "cw_seq (rows ! i) = cw_seq (hd rows) + int i" if "i < length rows" for i
    using assms(1) that by (rule contiguous_seq)
  show ?thesis
    by (intro nth_equalityI) (use assms(2) nth in \<open>simp_all add: nth_upto\<close>)
qed

lemma append_chain_moves:
  assumes "tenant_inv st" and "contiguous (ea_rows input)"
  shows "tenant_moves st (snd (snd (append_chain input st)))"
proof (cases "recorded st (ea_proof input) parse_append")
  case NewRequest
  let ?head = "int (length (et_chain st))"
  show ?thesis
  proof (cases "replay_rows (et_chain st) ?head (ea_rows input)")
    case (Inl seq)
    then show ?thesis using assms NewRequest by (simp add: append_chain_def)
  next
    case (Inr k)
    let ?fresh = "drop k (ea_rows input)"
    note R = replay_rows_Inr [OF Inr]
    show ?thesis
    proof (cases "?fresh \<noteq> [] \<and> cw_seq (hd ?fresh) \<noteq> ?head + 1")
      case True
      then show ?thesis using assms NewRequest Inr by (simp add: append_chain_def Let_def)
    next
      case False
      have "map cw_seq ?fresh = [?head + 1..?head + int (length ?fresh)]"
        using contiguous_drop [OF assms(2), of k] False R by (cases "k < length (ea_rows input)") (simp_all add: hd_drop_conv_nth algebra_simps)
      from chain_set_append [OF _ this] assms(1)
      have c: "prefix (et_chain st) (chain_set ?fresh (et_chain st))" "chain_ok (chain_set ?fresh (et_chain st))"
        by (auto simp: tenant_inv_def)
      let ?st1 = "st\<lparr>et_chain := chain_set ?fresh (et_chain st)\<rparr>"
      let ?st2 = "fold shred_scope (fresh_shreds ?head input) ?st1" and ?st3 = "fold (rotate_member ?head) (ea_rotations input)"
      have 1: "tenant_moves st ?st1"
        using assms(1) c by (simp add: tenant_inv_def tenant_le_def keys_ok_def members_ok_def kem_floor_def)
      then have 2: "tenant_moves ?st1 ?st2" by (intro fold_moves shred_scope_moves) simp_all
      then have 3: "tenant_moves ?st2 (?st3 ?st2)" by (intro fold_moves rotate_member_moves) simp_all
      have req: "et_requests (fold shred_scope shs z) = et_requests z" "et_requests (fold (rotate_member h) ros z) = et_requests z" for shs ros h z
        by (induction shs arbitrary: z; simp add: shred_scope_def) (induction ros arbitrary: z; simp add: rotate_member_def)
      have 4: "tenant_moves (?st3 ?st2) (record_request (ea_proof input) r (?st3 ?st2))" for r
        using 3 recorded_New [OF NewRequest] by (intro record_request_moves) (simp_all add: req)
      have "snd (snd (append_chain input st)) = record_request (ea_proof input) (RecAppended (int (length ?fresh)) (int k)) (?st3 ?st2)"
        using False by (auto simp: append_chain_def NewRequest Inr Let_def)
      then show ?thesis using tenant_moves_trans [OF 1 tenant_moves_trans [OF 2 tenant_moves_trans [OF 3 4]]] by simp
    qed
  qed
qed (use assms in \<open>simp_all add: append_chain_def\<close>)

subsection \<open>Storing packages\<close>

definition key_of :: "e2ee_package_put \<Rightarrow> string" where
  "key_of row = epoch_key (kp_scopeId row) (kp_epoch row)"

definition rows_agree :: "e2ee_package_put list \<Rightarrow> bool" where
  "rows_agree rows = (\<forall>r \<in> set rows. \<forall>q \<in> set rows. key_of r = key_of q \<longrightarrow> kp_keyId r = kp_keyId q)"

lemma key_conflict_None:
  assumes "key_conflict eids fixed rows = None"
  shows "rows_agree rows \<and> (\<forall>r \<in> set rows. (case jget eids (key_of r) of Some k \<Rightarrow> Some k | None \<Rightarrow> jget fixed (key_of r)) \<in> {None, Some (kp_keyId r)})"
  using assms
proof (induction rows arbitrary: fixed)
  case Nil
  then show ?case by (simp add: rows_agree_def)
next
  case (Cons r rows)
  let ?look = "\<lambda>f k. case jget eids k of Some v \<Rightarrow> Some v | None \<Rightarrow> jget f k"
  let ?f = "jset (key_of r) (kp_keyId r) fixed"
  have r: "?look fixed (key_of r) \<in> {None, Some (kp_keyId r)}" and rest: "key_conflict eids ?f rows = None"
    using Cons.prems by (auto simp: Let_def key_of_def split: option.splits if_splits)
  have ih: "rows_agree rows" "\<And>q. q \<in> set rows \<Longrightarrow> ?look ?f (key_of q) \<in> {None, Some (kp_keyId q)}"
    using Cons.IH [OF rest] by blast+
  have same: "kp_keyId q = kp_keyId r" if "q \<in> set rows" "key_of q = key_of r" for q
    using ih(2) [OF that(1)] r that(2) by (auto split: option.splits)
  have other: "?look fixed (key_of q) \<in> {None, Some (kp_keyId q)}" if "q \<in> set rows" for q
    using ih(2) [OF that] same [OF that] r by (cases "key_of q = key_of r") (auto split: option.splits)
  have "rows_agree (r # rows)" using ih(1) same unfolding rows_agree_def by (metis set_ConsD)
  then show ?case using r other by auto
qed

lemma store_package_moves:
  assumes "tenant_inv st" and "jget (et_epochKeyIds st) (key_of row) \<in> {None, Some (kp_keyId row)}" and "jget (et_shredded st) (kp_scopeId row) = None"
  shows "tenant_moves st (store_package row st)"
proof -
  let ?st = "store_package row st"
  have p: "jget (et_packages ?st) k = (if k = package_key (kp_scopeId row) (kp_epoch row) (kp_recipient row)
      then Some (e2ee_package_row.truncate row) else jget (et_packages st) k)" for k by (simp add: store_package_def)
  have e: "jget (et_epochKeyIds ?st) k = (if k = key_of row then Some (kp_keyId row) else jget (et_epochKeyIds st) k)" for k
    by (simp add: store_package_def key_of_def)
  have keep: "jget (et_epochKeyIds st) k = Some v \<Longrightarrow> jget (et_epochKeyIds ?st) k = Some v" for k v
    using assms(2) unfolding e by auto
  have T: "kp_scopeId (e2ee_package_row.truncate row) = kp_scopeId row" "kp_epoch (e2ee_package_row.truncate row) = kp_epoch row"
    "kp_recipient (e2ee_package_row.truncate row) = kp_recipient row" "kp_keyId (e2ee_package_row.truncate row) = kp_keyId row"
    by (simp_all add: e2ee_package_row.defs)
  have sh: "et_shredded ?st = et_shredded st" by (simp add: store_package_def)
  have jm: "jmap_ok (et_packages ?st)" "jmap_ok (et_epochKeyIds ?st)"
    using assms(1) by (simp_all add: tenant_inv_def keys_ok_def store_package_def)
  have "keys_ok ?st"
    unfolding keys_ok_def sh
  proof (intro conjI allI impI jm)
    fix k w
    assume w: "jget (et_packages ?st) k = Some w"
    show "k = package_key (kp_scopeId w) (kp_epoch w) (kp_recipient w)"
      "jget (et_epochKeyIds ?st) (epoch_key (kp_scopeId w) (kp_epoch w)) = Some (kp_keyId w)" "jget (et_shredded st) (kp_scopeId w) = None"
      using w assms(1,3) keep e [of "key_of row"] unfolding p tenant_inv_def keys_ok_def
      by (auto simp: T key_of_def [symmetric] simp del: epoch_key_inject split: if_splits)
  next
    fix k v
    assume "jget (et_epochKeyIds ?st) k = Some v"
    then show "\<exists>scope e. k = epoch_key scope e \<and> jget (et_shredded st) scope = None"
      using assms(1,3) unfolding e tenant_inv_def keys_ok_def by (auto simp: key_of_def split: if_splits)
  qed
  moreover have "tenant_le st ?st" unfolding tenant_le_def using keep by (auto simp: sh) (simp_all add: store_package_def kem_floor_def)
  ultimately show ?thesis using assms(1) by (simp add: tenant_inv_def members_ok_def store_package_def)
qed

lemma store_packages_moves:
  assumes "tenant_inv st" and "rows_agree rows"
    and "\<forall>r \<in> set rows. jget (et_epochKeyIds st) (key_of r) \<in> {None, Some (kp_keyId r)} \<and> jget (et_shredded st) (kp_scopeId r) = None"
  shows "tenant_moves st (fold store_package rows st)"
  using assms
proof (induction rows arbitrary: st)
  case (Cons r rows)
  have step: "tenant_moves st (store_package r st)" using Cons.prems by (intro store_package_moves) simp_all
  have agree: "rows_agree rows" using Cons.prems(2) unfolding rows_agree_def by (meson list.set_intros(2))
  have rest: "\<forall>q \<in> set rows. jget (et_epochKeyIds (store_package r st)) (key_of q) \<in> {None, Some (kp_keyId q)} \<and>
      jget (et_shredded (store_package r st)) (kp_scopeId q) = None"
  proof
    fix q
    assume q: "q \<in> set rows"
    then have "key_of r = key_of q \<Longrightarrow> kp_keyId r = kp_keyId q" using Cons.prems(2) unfolding rows_agree_def by (meson list.set_intros)
    then show "jget (et_epochKeyIds (store_package r st)) (key_of q) \<in> {None, Some (kp_keyId q)} \<and>
        jget (et_shredded (store_package r st)) (kp_scopeId q) = None"
      using Cons.prems(3) q by (simp add: store_package_def key_of_def [symmetric])
  qed
  have "tenant_moves (store_package r st) (fold store_package rows (store_package r st))"
    using step by (intro Cons.IH agree rest) simp
  from tenant_moves_trans [OF step this] show ?case by simp
qed simp

lemma put_packages_moves:
  assumes "tenant_inv st"
  shows "tenant_moves st (snd (put_packages rows proof st))"
proof (cases "recorded st proof parse_put = NewRequest \<and> find (\<lambda>row. jget (et_shredded st) (kp_scopeId row) \<noteq> None) rows = None \<and>
    stale_package st rows = None \<and> key_conflict (et_epochKeyIds st) [] rows = None")
  case True
  then have sh: "\<forall>r \<in> set rows. jget (et_shredded st) (kp_scopeId r) = None" by (auto simp: find_None_iff)
  note K = key_conflict_None [of "et_epochKeyIds st" "[]" rows]
  have "jget (et_epochKeyIds st) (key_of r) \<in> {None, Some (kp_keyId r)}" if "r \<in> set rows" for r
    using K True that by (fastforce split: option.splits)
  then have 1: "tenant_moves st (fold store_package rows st)"
    using assms K True sh by (intro store_packages_moves) simp_all
  have "et_requests (fold store_package rows z) = et_requests z" for z
    by (induction rows arbitrary: z) (simp_all add: store_package_def)
  then have "tenant_moves (fold store_package rows st) (record_request proof q (fold store_package rows st))" for q
    using 1 True recorded_New [of st "proof" parse_put] by (intro record_request_moves) auto
  then show ?thesis using tenant_moves_trans [OF 1] True by (simp add: put_packages_def)
next
  case False
  then have "snd (put_packages rows proof st) = st"
    by (auto simp: put_packages_def split: replayed.split option.split)
  then show ?thesis using assms by simp
qed

lemma register_member_moves:
  assumes "tenant_inv st"
  shows "tenant_moves st (snd (register_member i st))"
proof -
  let ?proof = "Some \<lparr>pw_deviceId = ri_deviceId i, pw_request = ri_request i\<rparr>" and ?d = "ri_deviceId i"
  let ?mac = "\<lambda>z. z\<lparr>et_deviceMacs := jset ?d \<lparr>ex_body = ri_deviceMac i, ex_expiresAt = ri_macExpiresAt i\<rparr> (et_deviceMacs z)\<rparr>"
  let ?reg = "st\<lparr>et_registrations := jset ?d \<lparr>rg_memberId = ri_memberId i, rg_bundle = ri_bundle i\<rparr> (et_registrations st)\<rparr>"
  have mac: "tenant_moves z (?mac z)" if "tenant_inv z" for z
    using that by (simp add: tenant_inv_def tenant_le_def keys_ok_def members_ok_def kem_floor_def)
  have rec: "tenant_moves z (record_request ?proof r z)" if "tenant_inv z" "et_requests z = et_requests st" "recorded st ?proof parse_register = NewRequest" for z r
    using that recorded_New [OF that(3)] by (intro record_request_moves) simp_all
  have reg: "tenant_moves st ?reg"
    if "jget (et_registrations st) ?d = None" "\<not> list_ex (\<lambda>r. rg_memberId r = ri_memberId i) (jvals (et_registrations st))"
  proof -
    have no: "rg_memberId q \<noteq> ri_memberId i" if "jget (et_registrations st) e = Some q" for e q
      using jget_SomeD [OF that] \<open>\<not> list_ex _ _\<close> by (force simp: list_ex_iff jvals_def)
    have "members_ok ?reg"
      using assms no no [symmetric] by (auto simp: tenant_inv_def members_ok_def split: if_splits)
    then show ?thesis using assms that(1) by (simp add: tenant_inv_def tenant_le_def keys_ok_def kem_floor_def)
  qed
  have step: "tenant_moves z (record_request ?proof r (?mac z))"
    if "tenant_inv z" "et_requests z = et_requests st" "recorded st ?proof parse_register = NewRequest" for z r
    using tenant_moves_trans [OF mac [OF that(1)] rec [OF _ _ that(3), of "?mac z" r]] mac [OF that(1)] that(2) by simp
  have old: "tenant_moves st (record_request ?proof r (?mac st))" if "recorded st ?proof parse_register = NewRequest" for r
    using step [OF assms refl that] .
  have new: "tenant_moves st (record_request ?proof r (?mac ?reg))"
    if "recorded st ?proof parse_register = NewRequest" "jget (et_registrations st) ?d = None"
      "\<not> list_ex (\<lambda>r. rg_memberId r = ri_memberId i) (jvals (et_registrations st))" for r
    using tenant_moves_trans [OF reg [OF that(2,3)] step [of ?reg r]] reg [OF that(2,3)] that(1) by simp
  show ?thesis
    using assms old new by (auto simp: register_member_def Let_def split: replayed.split option.split)
qed

section \<open>Histories\<close>

definition e2ee_inv :: "e2ee_store \<Rightarrow> bool" where
  "e2ee_inv s = (\<forall>t. tenant_inv (tenant_state t s))"

definition e2ee_le :: "e2ee_store \<Rightarrow> e2ee_store \<Rightarrow> bool" where
  "e2ee_le s s' = (\<forall>t. tenant_le (tenant_state t s) (tenant_state t s'))"

lemma op_state_moves:
  assumes "e2ee_call (t, op)" and "tenant_inv st"
  shows "tenant_moves st (op_state op st)"
proof (cases op)
  case (EPutMac d b e)
  then show ?thesis using assms(2) by (simp add: tenant_inv_def tenant_le_def keys_ok_def members_ok_def kem_floor_def)
qed (use assms append_chain_moves put_packages_moves register_member_moves in simp_all)

interpretation e2ee_history: monotone_store "e2ee_exec other" e2ee_call e2ee_inv e2ee_le for other
proof (unfold_locales, goal_cases)
  case (1 t op s)
  then show ?case using op_state_moves by (auto simp: e2ee_inv_def tenant_state_exec)
next
  case (4 t op s)
  then show ?case using op_state_moves by (auto simp: e2ee_inv_def e2ee_le_def tenant_state_exec)
qed (auto simp: e2ee_le_def intro: tenant_le_trans)

definition empty_e2ee :: e2ee_store where
  "empty_e2ee = \<lparr>es_tenants = [], es_receipts = []\<rparr>"

lemma empty_e2ee_inv [simp]: "e2ee_inv empty_e2ee"
  by (simp add: e2ee_inv_def empty_e2ee_def tenant_state_def empty_e2ee_tenant_def tenant_inv_def chain_ok_def keys_ok_def members_ok_def)

section \<open>The chain only grows\<close>

lemma chain_nth:
  assumes "chain_ok chain" and "i < length chain"
  shows "chain ! i = (int i + 1, snd (chain ! i))" and "map_of chain (int i + 1) = Some (snd (chain ! i))"
proof -
  have "fst (chain ! i) = int i + 1"
    using map_upto_nth [of fst chain] assms by (simp add: chain_ok_def)
  then show n: "chain ! i = (int i + 1, snd (chain ! i))" by (metis prod.collapse)
  have "distinct (map fst chain)" using assms(1) unfolding chain_ok_def by simp
  then show "map_of chain (int i + 1) = Some (snd (chain ! i))" using n assms(2) by (metis map_of_is_SomeI nth_mem)
qed

lemma chain_absent: "chain_ok chain \<Longrightarrow> q < 1 \<or> int (length chain) < q \<Longrightarrow> map_of chain q = None"
  by (metis atLeastAtMost_iff chain_ok_def list.set_map map_of_eq_None_iff not_le set_upto)

lemma read_chain_rows:
  assumes "chain_ok chain" and "0 \<le> a"
  shows "read_chain a l chain = map (\<lambda>(q, e). \<lparr>cw_seq = q, cw_entry = e\<rparr>) (take (nat l) (drop (nat a) chain))"
proof (rule nth_equalityI)
  show "length (read_chain a l chain) = length (map (\<lambda>(q, e). \<lparr>cw_seq = q, cw_entry = e\<rparr>) (take (nat l) (drop (nat a) chain)))"
    using assms(2) by (simp add: read_chain_def)
  fix i
  assume "i < length (read_chain a l chain)"
  then have i: "i < nat l" "nat a + i < length chain" using assms(2) by (auto simp: read_chain_def)
  have "int (nat a + i) + 1 = a + 1 + int i" using assms(2) by simp
  then show "read_chain a l chain ! i = map (\<lambda>(q, e). \<lparr>cw_seq = q, cw_entry = e\<rparr>) (take (nat l) (drop (nat a) chain)) ! i"
    using i chain_nth [OF assms(1) i(2)] assms(2) by (cases "chain ! (nat a + i)") (simp add: read_chain_def nth_upto ac_simps)
qed

lemma prefix_page: "prefix xs ys \<Longrightarrow> prefix (map f (take n (drop m xs))) (map f (take n (drop m ys)))"
  by (auto simp: prefix_def)

lemma e2ee_run:
  assumes "e2ee_inv s" and "\<forall>c \<in> set ops. e2ee_call c" and "s' = snd (run_ops (e2ee_exec other) ops s)"
  shows "tenant_inv (tenant_state t s)" and "tenant_inv (tenant_state t s')" and "tenant_le (tenant_state t s) (tenant_state t s')"
  using e2ee_history.run_inv [OF assms(2,1)] e2ee_history.run_mono [OF assms(2,1)] assms(1)
  by (simp_all add: assms(3) e2ee_inv_def e2ee_le_def)

text \<open>
  C17. The member chain is append-only and without holes: a page read at any position holds the
  consecutive entries from there, and after any history of calls by any tenants the same read gives
  the same entries, followed at most by newer ones.
\<close>

theorem e2ee_chain_append_only:
  assumes "e2ee_inv s" and "\<forall>c \<in> set ops. e2ee_call c" and "s' = snd (run_ops (e2ee_exec other) ops s)" and "0 \<le> a"
  shows "prefix (fst (readChainEntries t a l s)) (fst (readChainEntries t a l s')) \<and>
    map cw_seq (fst (readChainEntries t a l s')) = take (nat l) [a + 1..int (length (et_chain (tenant_state t s')))]"
proof -
  note R = e2ee_run [OF assms(1-3), of t]
  have "prefix (fst (readChainEntries t a l s)) (fst (readChainEntries t a l s'))"
    using R tenant_leD(1) [OF R(3)] assms(4) by (simp add: readChainEntries_def read_chain_rows tenant_inv_def prefix_page)
  then show ?thesis by (simp add: readChainEntries_def read_chain_def comp_def)
qed

definition sample_chain_input :: "int \<Rightarrow> string \<Rightarrow> e2ee_append_input" where
  "sample_chain_input q e = \<lparr>ea_rows = [\<lparr>cw_seq = q, cw_entry = e\<rparr>], ea_shreds = [], ea_rotations = [], ea_proof = None\<rparr>"

lemma sample_chain_call [simp]: "contiguous (ea_rows (sample_chain_input q e))"
  by (simp add: sample_chain_input_def contiguous_def)

theorem e2ee_chain_append_only_witness:
  "prefix (fst (readChainEntries ''acme'' 0 10 (snd (appendChainEntries ''acme'' (sample_chain_input 1 ''genesis'') 0 empty_e2ee))))
    (fst (readChainEntries ''acme'' 0 10 (snd (run_ops (e2ee_exec (\<lambda>_. None)) [(''acme'', EAppend (sample_chain_input 2 ''add'') 1)]
       (snd (appendChainEntries ''acme'' (sample_chain_input 1 ''genesis'') 0 empty_e2ee))))))"
proof -
  let ?s = "snd (appendChainEntries ''acme'' (sample_chain_input 1 ''genesis'') 0 empty_e2ee)"
  have "e2ee_inv (snd (run_ops (e2ee_exec (\<lambda>_. None)) [(''acme'', EAppend (sample_chain_input 1 ''genesis'') 0)] empty_e2ee))"
    by (rule e2ee_history.run_inv) simp_all
  then have "e2ee_inv ?s" by (simp add: run_ops_step del: run_ops.simps(2))
  from e2ee_chain_append_only [OF this, of "[(''acme'', EAppend (sample_chain_input 2 ''add'') 1)]" _ "\<lambda>_. None" 0, OF _ refl]
  show ?thesis by (simp del: run_ops.simps)
qed

section \<open>What an append answers\<close>

lemma replay_rows_Inl:
  assumes "replay_rows chain head rows = Inl q"
  shows "\<exists>i < length rows. cw_seq (rows ! i) = q \<and> q \<le> head \<and> map_of chain q \<noteq> Some (cw_entry (rows ! i)) \<and>
    (\<forall>j < i. map_of chain (cw_seq (rows ! j)) = Some (cw_entry (rows ! j)))"
  using assms
proof (induction rows)
  case (Cons r rows)
  show ?case
  proof (cases "map_of chain (cw_seq r) = Some (cw_entry r)")
    case True
    then have "replay_rows chain head rows = Inl q"
      using Cons.prems by (cases "replay_rows chain head rows") (auto split: if_splits)
    then obtain i where i: "i < length rows" "cw_seq (rows ! i) = q" "q \<le> head" "map_of chain q \<noteq> Some (cw_entry (rows ! i))"
      "\<forall>j < i. map_of chain (cw_seq (rows ! j)) = Some (cw_entry (rows ! j))"
      using Cons.IH by blast
    then show ?thesis using True by (intro exI [of _ "Suc i"]) (auto simp: nth_Cons split: nat.split)
  next
    case False
    then show ?thesis using Cons.prems by (intro exI [of _ 0]) (auto split: if_splits)
  qed
qed simp

text \<open>The rows of an append that are stored already: all before the head, up to the first that differs.\<close>

lemma replay_rows_exact:
  assumes "chain_ok chain" and "contiguous rows" and "cw_seq (hd rows) = int k + 1"
  shows "replay_rows chain (int (length chain)) rows = Inr m \<Longrightarrow>
      m = min (length chain - k) (length rows) \<and> (\<forall>i < m. snd (chain ! (k + i)) = cw_entry (rows ! i))"
    and "replay_rows chain (int (length chain)) rows = Inl q \<Longrightarrow>
      \<exists>i < length rows. k + i < length chain \<and> q = int (k + i) + 1 \<and> snd (chain ! (k + i)) \<noteq> cw_entry (rows ! i) \<and>
        (\<forall>j < i. snd (chain ! (k + j)) = cw_entry (rows ! j))"
proof -
  have seq: "cw_seq (rows ! i) = int (k + i) + 1" if "i < length rows" for i
    using contiguous_seq [OF assms(2) that] assms(3) by simp
  have stored: "map_of chain (cw_seq (rows ! i)) = Some (snd (chain ! (k + i)))" if "i < length rows" "k + i < length chain" for i
    using chain_nth(2) [OF assms(1) that(2)] seq [OF that(1)] by simp
  have absent: "map_of chain (cw_seq (rows ! i)) = None" if "i < length rows" "\<not> k + i < length chain" for i
    using chain_absent [OF assms(1), of "cw_seq (rows ! i)"] seq [OF that(1)] that(2) by simp
  show "m = min (length chain - k) (length rows) \<and> (\<forall>i < m. snd (chain ! (k + i)) = cw_entry (rows ! i))"
    if "replay_rows chain (int (length chain)) rows = Inr m"
  proof -
    note R = replay_rows_Inr [OF that]
    have lt: "k + i < length chain" "snd (chain ! (k + i)) = cw_entry (rows ! i)" if "i < m" for i
      using R that seq [of i] stored [of i] by auto
    have "m \<le> length chain - k" using lt(1) [of "m - 1"] by (cases m) auto
    moreover have "length chain - k \<le> m" if "m < length rows" using R that seq [of m] by auto
    ultimately show ?thesis using R lt(2) by (cases "m < length rows") auto
  qed
  show "\<exists>i < length rows. k + i < length chain \<and> q = int (k + i) + 1 \<and> snd (chain ! (k + i)) \<noteq> cw_entry (rows ! i) \<and>
      (\<forall>j < i. snd (chain ! (k + j)) = cw_entry (rows ! j))"
    if q: "replay_rows chain (int (length chain)) rows = Inl q"
  proof -
    obtain i where i: "i < length rows" "cw_seq (rows ! i) = q" "q \<le> int (length chain)" "map_of chain q \<noteq> Some (cw_entry (rows ! i))"
      "\<forall>j < i. map_of chain (cw_seq (rows ! j)) = Some (cw_entry (rows ! j))"
      using replay_rows_Inl [OF q] by blast
    then have "k + i < length chain" using seq [of i] by simp
    moreover have "snd (chain ! (k + j)) = cw_entry (rows ! j)" if "j < i" for j
      using i that stored [of j] calculation by (metis (no_types, lifting) add_strict_left_mono dual_order.strict_trans option.inject)
    ultimately show ?thesis using i stored [of i] seq [of i] by (intro exI [of _ i]) auto
  qed
qed

text \<open>
  Every outcome of an append: for a request that is new, with the first row at seq \<open>k + 1\<close>, rows
  that differ from what is stored refuse the append at the first such seq, rows that leave a hole
  after the head refuse it as a gap, and either way nothing changes. Otherwise the stored entries
  are kept, the rows beyond the head follow them, and the answer counts the new and the repeated rows.
\<close>

theorem e2ee_append_outcome:
  assumes "tenant_inv st" and "contiguous rows" and "rows = ea_rows input" and "cw_seq (hd rows) = int k + 1"
    and "recorded st (ea_proof input) parse_append = NewRequest" and "append_chain input st = (r, shreds, st')"
    and "cs = map snd (et_chain st)" and "xs = map cw_entry rows"
  shows "if \<exists>i < length xs. k + i < length cs \<and> cs ! (k + i) \<noteq> xs ! i
    then \<exists>i < length xs. k + i < length cs \<and> cs ! (k + i) \<noteq> xs ! i \<and> (\<forall>j < i. cs ! (k + j) = xs ! j) \<and>
      r = Inr (AppendConflict (int (k + i) + 1)) \<and> shreds = [] \<and> st' = st
    else if length cs < k then r = Inr (AppendGap (int k + 1) (int (length cs))) \<and> shreds = [] \<and> st' = st
    else map snd (et_chain st') = cs @ drop (length cs - k) xs \<and>
      r = Inr (Appended (int (length xs - (length cs - k))) (int (min (length cs - k) (length xs))))"
proof -
  let ?chain = "et_chain st"
  have ok: "chain_ok ?chain" using assms(1) by (simp add: tenant_inv_def)
  note E = replay_rows_exact [OF ok assms(2,4)]
  have len: "length cs = length ?chain" "length xs = length rows" by (simp_all add: assms(7,8))
  have nth: "i < length rows \<Longrightarrow> xs ! i = cw_entry (rows ! i)" "n < length ?chain \<Longrightarrow> cs ! n = snd (?chain ! n)" for i n
    by (simp_all add: assms(7,8))
  show ?thesis
  proof (cases "replay_rows ?chain (int (length ?chain)) rows")
    case (Inl q)
    from E(2) [OF this] obtain i where i: "i < length rows" "k + i < length ?chain" "q = int (k + i) + 1"
      "snd (?chain ! (k + i)) \<noteq> cw_entry (rows ! i)" "\<forall>j < i. snd (?chain ! (k + j)) = cw_entry (rows ! j)" by blast
    have "r = Inr (AppendConflict q)" "shreds = []" "st' = st"
      using assms(6) Inl by (simp_all add: append_chain_def assms(3) [symmetric] assms(5))
    moreover have "cs ! (k + i) \<noteq> xs ! i" "\<forall>j < i. cs ! (k + j) = xs ! j" using i by (simp_all add: nth)
    ultimately show ?thesis using i(1-3) unfolding len by auto
  next
    case (Inr m)
    note M = E(1) [OF this]
    let ?fresh = "drop m rows"
    have same: "\<not> (\<exists>i < length xs. k + i < length cs \<and> cs ! (k + i) \<noteq> xs ! i)"
      using M by (auto simp: len nth)
    have rows: "rows \<noteq> []" using assms(2) by (simp add: contiguous_def)
    have hd: "?fresh \<noteq> [] \<Longrightarrow> cw_seq (hd ?fresh) = int (k + m) + 1"
      using contiguous_seq [OF assms(2), of m] assms(4) by (simp add: hd_drop_conv_nth)
    show ?thesis
    proof (cases "length ?chain < k")
      case True
      then have "m = 0" "?fresh = rows" using M by simp_all
      then have "r = Inr (AppendGap (int k + 1) (int (length ?chain))) \<and> shreds = [] \<and> st' = st"
        using assms(6) rows hd True by (auto simp: append_chain_def assms(3) [symmetric] assms(4,5) Inr Let_def)
      then show ?thesis using same True by (simp add: len)
    next
      case False
      have "k + m = length ?chain" if "?fresh \<noteq> []" using that M False by (simp add: min_def split: if_splits)
      then have no: "\<not> (?fresh \<noteq> [] \<and> cw_seq (hd ?fresh) \<noteq> int (length ?chain) + 1)" using hd by metis
      have "map cw_seq ?fresh = [int (length ?chain) + 1..int (length ?chain) + int (length ?fresh)]"
      proof (cases "m < length rows")
        case True
        then have "cw_seq (rows ! m) = int (length ?chain) + 1" using no by (simp add: hd_drop_conv_nth)
        then show ?thesis using contiguous_drop [OF assms(2) True] by (simp add: algebra_simps)
      qed simp
      then have c: "chain_set ?fresh ?chain = ?chain @ map (\<lambda>r. (cw_seq r, cw_entry r)) ?fresh"
        using chain_set_append [OF ok] by blast
      have chain: "et_chain (fold shred_scope shs z) = et_chain z" "et_chain (fold (rotate_member h) ros z) = et_chain z"
        "et_chain (record_request p q z) = et_chain z" for shs ros h z p q
        by (induction shs arbitrary: z; simp add: shred_scope_def)
          ((induction ros arbitrary: z; simp add: rotate_member_def), (simp add: record_request_def split: option.split))
      have A: "r = Inr (Appended (int (length ?fresh)) (int m))" and "et_chain st' = chain_set ?fresh ?chain"
        using assms(6) no by (auto simp: append_chain_def assms(3) [symmetric] assms(5) Inr Let_def chain)
      then have "map snd (et_chain st') = cs @ map cw_entry ?fresh" by (simp add: c assms(7) comp_def)
      moreover have "map cw_entry ?fresh = drop (length cs - k) xs"
        using M by (cases "length cs - k \<le> length rows") (simp_all add: assms(8) len drop_map min_def)
      ultimately show ?thesis using same False A M by (simp add: len)
    qed
  qed
qed

theorem e2ee_append_outcome_witness:
  "append_chain (sample_chain_input 3 ''x'') empty_e2ee_tenant = (Inr (AppendGap 3 0), [], empty_e2ee_tenant)"
proof -
  have "tenant_inv empty_e2ee_tenant"
    by (simp add: empty_e2ee_tenant_def tenant_inv_def chain_ok_def keys_ok_def members_ok_def)
  moreover have "cw_seq (hd (ea_rows (sample_chain_input 3 ''x''))) = int 2 + 1"
    "recorded empty_e2ee_tenant (ea_proof (sample_chain_input 3 ''x'')) parse_append = NewRequest"
    by (simp_all add: sample_chain_input_def recorded_def)
  moreover obtain r shreds st' where "append_chain (sample_chain_input 3 ''x'') empty_e2ee_tenant = (r, shreds, st')"
    by (metis prod_cases3)
  ultimately show ?thesis
    using e2ee_append_outcome [OF _ sample_chain_call refl, of empty_e2ee_tenant 3 "''x''" 2 r shreds st', OF _ _ _ _ refl refl]
    by (simp add: empty_e2ee_tenant_def)
qed

section \<open>A shredded scope stays shredded\<close>

lemma shredded_fold: "jget (et_shredded (fold shred_scope shs st)) scope = None \<longleftrightarrow> jget (et_shredded st) scope = None \<and> scope \<notin> ss_scopeId ` set shs"
  by (induction shs arbitrary: st) (auto simp: shred_scope_def)

lemma shredded_later:
  "et_shredded (fold (rotate_member h) ros z) = et_shredded z" "et_shredded (record_request p q z) = et_shredded z"
  by (induction ros arbitrary: z) (simp_all add: rotate_member_def record_request_def split: option.split)

lemma scope_head_other: "\<forall>k \<in> set keys. json_first k \<noteq> Some scope \<Longrightarrow> scope_head scope head keys = head"
  by (induction keys) simp_all

lemma shredded_empty:
  assumes "tenant_inv st" and "jget (et_shredded st) scope \<noteq> None"
  shows "scope_packages scope e r st = []" and "own_packages scope q a l st = ([], None)"
proof -
  have none: "kp_scopeId row \<noteq> scope" if mem: "row \<in> set (jvals (et_packages st))" for row
  proof -
    obtain k where "(k, row) \<in> set (et_packages st)" using mem by (auto simp: jvals_def)
    then have "jget (et_packages st) k = Some row" using assms(1) by (simp add: tenant_inv_def keys_ok_def jget_Some_iff)
    then show ?thesis using assms by (auto simp: tenant_inv_def keys_ok_def)
  qed
  have "json_first k \<noteq> Some scope" if mem: "k \<in> set (map fst (et_epochKeyIds st))" for k
  proof -
    obtain v where "(k, v) \<in> set (et_epochKeyIds st)" using mem by auto
    then have "jget (et_epochKeyIds st) k = Some v" using assms(1) by (simp add: tenant_inv_def keys_ok_def jget_Some_iff)
    then obtain sc f where "k = epoch_key sc f" "jget (et_shredded st) sc = None" using assms(1) unfolding tenant_inv_def keys_ok_def by blast
    then show ?thesis using assms(2) by auto
  qed
  then have "scope_head scope None (map fst (et_epochKeyIds st)) = None"
    by (intro scope_head_other) blast
  moreover have "filter (\<lambda>row. kp_scopeId row = scope \<and> P row) (jvals (et_packages st)) = []" for P using none by auto
  ultimately show "scope_packages scope e r st = []" "own_packages scope q a l st = ([], None)"
    by (simp_all add: scope_packages_def own_packages_def slice0_def)
qed

text \<open>What an append that is accepted leaves of the scopes, and which receipts follow it.\<close>

lemma append_chain_shreds:
  assumes "append_chain input st = (Inr (Appended n m), shs, st')" and "recorded st (ea_proof input) parse_append = NewRequest"
  shows "shs = fresh_shreds (int (length (et_chain st))) input"
    and "jget (et_shredded st') scope = None \<longleftrightarrow> jget (et_shredded st) scope = None \<and> scope \<notin> ss_scopeId ` set shs"
proof -
  let ?head = "int (length (et_chain st))"
  obtain k where k: "replay_rows (et_chain st) ?head (ea_rows input) = Inr k"
    using assms by (cases "replay_rows (et_chain st) ?head (ea_rows input)") (auto simp: append_chain_def)
  have ok: "\<not> (drop k (ea_rows input) \<noteq> [] \<and> cw_seq (hd (drop k (ea_rows input))) \<noteq> ?head + 1)"
    using assms k by (auto simp: append_chain_def Let_def split: if_splits)
  show 1: "shs = fresh_shreds ?head input" using assms ok by (auto simp: append_chain_def k Let_def)
  have "st' = record_request (ea_proof input) (RecAppended n m) (fold (rotate_member ?head) (ea_rotations input)
      (fold shred_scope shs (st\<lparr>et_chain := chain_set (drop k (ea_rows input)) (et_chain st)\<rparr>)))"
    using assms ok unfolding 1 by (auto simp: append_chain_def k Let_def)
  then show "jget (et_shredded st') scope = None \<longleftrightarrow> jget (et_shredded st) scope = None \<and> scope \<notin> ss_scopeId ` set shs"
    by (simp add: shredded_later shredded_fold)
qed

lemma record_shreds_present:
  assumes "sh \<in> set shs \<or> receipt_get t (ss_receiptKey sh) rs \<noteq> None"
  shows "receipt_get t (ss_receiptKey sh) (record_shreds t now shs rs) \<noteq> None"
  using assms
proof (induction shs arbitrary: rs)
  case Nil
  then show ?case by (simp add: record_shreds_def)
next
  case (Cons x shs)
  have "sh = x \<or> receipt_get t (ss_receiptKey sh) rs \<noteq> None \<Longrightarrow>
      receipt_get t (ss_receiptKey sh) (snd (receipt_record t (ss_receiptKey x) (ss_receiptBody x) now rs)) \<noteq> None"
    by (auto simp: receipt_get_def receipt_record_def Let_def split: option.splits)
  then show ?case using Cons by (auto simp: record_shreds_def)
qed

lemma put_shredded:
  assumes "jget (et_shredded st) scope \<noteq> None" and "scope \<in> kp_scopeId ` set rows" and "recorded st proof parse_put = NewRequest"
  shows "\<exists>sc. put_packages rows proof st = (Inr (ScopeShredded sc), st)"
proof -
  obtain row where "find (\<lambda>row. jget (et_shredded st) (kp_scopeId row) \<noteq> None) rows = Some row"
    using assms(1,2) by (cases "find (\<lambda>row. jget (et_shredded st) (kp_scopeId row) \<noteq> None) rows") (auto simp: find_None_iff)
  then show ?thesis using assms(3) by (simp add: put_packages_def)
qed

text \<open>
  C16. A shred is final: once an append has shredded a scope, its receipt is on record, and after any
  further history of calls no read gives a key package or a key epoch of the scope, and every new
  request that names the scope among its packages is refused and changes nothing.
\<close>

theorem e2ee_shred_final:
  assumes "e2ee_inv s" and "contiguous (ea_rows input)" and "recorded (tenant_state t s) (ea_proof input) parse_append = NewRequest"
    and "appendChainEntries t input now s = (Inr (Appended n m), s1)"
    and "sh \<in> set (ea_shreds input)" and "int (length (et_chain (tenant_state t s))) < ss_seq sh"
    and "\<forall>c \<in> set ops. e2ee_call c" and "s' = snd (run_ops (e2ee_exec other) ops s1)"
    and "ss_scopeId sh \<in> kp_scopeId ` set rows" and "recorded (tenant_state t s') req parse_put = NewRequest"
  shows "receipt_get t (ss_receiptKey sh) (es_receipts s1) \<noteq> None \<and>
    fst (readScopeKeyPackages t (ss_scopeId sh) e q s') = [] \<and>
    fst (readOwnScopeKeyPackages t (ss_scopeId sh) member a l s') = ([], None) \<and>
    (\<exists>sc. fst (putScopeKeyPackages t rows req s') = Inr (ScopeShredded sc)) \<and>
    tenant_state t (snd (putScopeKeyPackages t rows req s')) = tenant_state t s'"
proof -
  let ?st = "tenant_state t s"
  obtain shs st1 where A: "append_chain input ?st = (Inr (Appended n m), shs, st1)" and
    s1: "s1 = (put_tenant t st1 s)\<lparr>es_receipts := record_shreds t now shs (es_receipts s)\<rparr>"
    using assms(4) by (auto simp: appendChainEntries_def split: prod.splits)
  note S = append_chain_shreds [OF A assms(3)]
  have sh: "sh \<in> set shs" unfolding S(1) using assms(5,6) by (simp add: fresh_shreds_def)
  have "e2ee_inv (snd (e2ee_exec other t (EAppend input now) s))"
    using assms(1,2) by (intro e2ee_history.exec_inv) simp_all
  then have "e2ee_inv s1" using assms(4) by simp
  note R = e2ee_run [OF this assms(7,8), of t]
  have "jget (et_shredded st1) (ss_scopeId sh) \<noteq> None" using S(2) sh by blast
  then have gone: "jget (et_shredded (tenant_state t s')) (ss_scopeId sh) \<noteq> None"
    using tenant_leD(2) [OF R(3)] by (auto simp: s1)
  from put_shredded [OF this assms(9,10)] shredded_empty [OF R(2) gone] record_shreds_present [of sh shs t "es_receipts s" now] sh
  show ?thesis
    by (auto simp: readScopeKeyPackages_def readOwnScopeKeyPackages_def putScopeKeyPackages_def s1)
qed

definition sample_shred :: e2ee_append_input where
  "sample_shred = (sample_chain_input 1 ''shred'')\<lparr>ea_shreds := [\<lparr>ss_seq = 1, ss_scopeId = ''room'', ss_receiptKey = ''e2ee'', ss_receiptBody = ''b''\<rparr>]\<rparr>"

definition sample_package :: e2ee_package_put where
  "sample_package = \<lparr>kp_scopeId = ''room'', kp_epoch = 1, kp_recipient = ''m'', kp_keyId = ''k'', kp_sender = ''s'', kp_package = ''p'',
     kp_recipientKemEpoch = 1\<rparr>"

lemma sample_shred_appended:
  "fst (appendChainEntries ''acme'' sample_shred 0 empty_e2ee) = Inr (Appended 1 0)"
  by (simp add: appendChainEntries_def append_chain_def sample_shred_def sample_chain_input_def recorded_def empty_e2ee_def tenant_state_def
      empty_e2ee_tenant_def Let_def)

theorem e2ee_shred_final_witness:
  "\<exists>sc. fst (putScopeKeyPackages ''acme'' [sample_package] None (snd (appendChainEntries ''acme'' sample_shred 0 empty_e2ee))) = Inr (ScopeShredded sc)"
proof -
  have call: "contiguous (ea_rows sample_shred)" by (simp add: sample_shred_def sample_chain_input_def contiguous_def)
  have new: "recorded (tenant_state ''acme'' empty_e2ee) (ea_proof sample_shred) parse_append = NewRequest"
    by (simp add: sample_shred_def sample_chain_input_def recorded_def)
  have "appendChainEntries ''acme'' sample_shred 0 empty_e2ee = (Inr (Appended 1 0), snd (appendChainEntries ''acme'' sample_shred 0 empty_e2ee))"
    using sample_shred_appended by (metis prod.collapse)
  from e2ee_shred_final [OF empty_e2ee_inv call new this, of "hd (ea_shreds sample_shred)" "[]" _ "\<lambda>_. None" "[sample_package]" None, OF _ _ _ refl]
  show ?thesis
    by (simp add: sample_shred_def sample_chain_input_def sample_package_def recorded_def empty_e2ee_def tenant_state_def empty_e2ee_tenant_def)
qed

section \<open>A device request is answered once\<close>

fun op_proof :: "e2ee_op \<Rightarrow> e2ee_proven_write option" where
  "op_proof (EAppend i now) = ea_proof i"
| "op_proof (EPut rows proof) = proof"
| "op_proof (ERegister i) = Some \<lparr>pw_deviceId = ri_deviceId i, pw_request = ri_request i\<rparr>"
| "op_proof _ = None"

text \<open>The answer of an accepted write, as it is recorded; \<open>replay_answer\<close> is what a repeat of kind \<open>op\<close> makes of it.\<close>

fun accepted :: "e2ee_answer \<Rightarrow> recorded_result option" where
  "accepted (AppendAnswer (Inr (Appended n m))) = Some (RecAppended n m)"
| "accepted (PutAnswer (Inr (PackagesStored n))) = Some (RecStored n)"
| "accepted (RegisterAnswer (Inr Registered)) = Some RecRegistered"
| "accepted (RegisterAnswer (Inr Replayed_registration)) = Some RecReplayed"
| "accepted _ = None"

fun same_kind :: "e2ee_op \<Rightarrow> e2ee_op \<Rightarrow> bool" where
  "same_kind (EAppend i n) (EAppend j m) = True"
| "same_kind (EPut rs p) (EPut qs q) = True"
| "same_kind (ERegister i) (ERegister j) = True"
| "same_kind _ _ = False"

fun request_refused :: "e2ee_op \<Rightarrow> e2ee_answer" where
  "request_refused (EAppend i n) = AppendAnswer (Inr AppendRequestConflict)"
| "request_refused (EPut rs p) = PutAnswer (Inr PutRequestConflict)"
| "request_refused (ERegister i) = RegisterAnswer (Inr Register_request_conflict)"
| "request_refused _ = MacAnswer None"

fun request_unreadable :: "e2ee_op \<Rightarrow> e2ee_answer" where
  "request_unreadable (EAppend i n) = AppendAnswer (Inl state_unreadable)"
| "request_unreadable (EPut rs p) = PutAnswer (Inl state_unreadable)"
| "request_unreadable (ERegister i) = RegisterAnswer (Inl state_unreadable)"
| "request_unreadable _ = MacAnswer None"

lemma record_request_get:
  "jget (et_requests (record_request (Some p) r st)) (requestKey p) = Some \<lparr>er_binding = proof_binding p, er_result = r\<rparr>"
  by (simp add: record_request_def)

lemma put_refusals:
  "stale_package st rows = Some r \<Longrightarrow> \<exists>a b c. r = KemEpochStale a b c"
  "key_conflict ids fixed rows = Some r \<Longrightarrow> \<exists>a b c. r = KeyIdConflict a b c"
  by (induction rows arbitrary: fixed) (auto simp: Let_def split: option.splits if_splits)

text \<open>An accepted write finds its request on record afterwards, with the answer it gave.\<close>

lemma accepted_recorded:
  assumes "op_proof op = Some p" and "accepted (fst (e2ee_exec other t op s)) = Some r"
  shows "jget (et_requests (op_state op (tenant_state t s))) (requestKey p) = Some \<lparr>er_binding = proof_binding p, er_result = r\<rparr>"
proof (cases op)
  case (EAppend i now)
  then show ?thesis
    using assms by (auto simp: appendChainEntries_def append_chain_def Let_def record_request_get recorded_def record_request_def
        split: prod.splits option.splits if_splits sum.splits elim!: parse_append.elims)
next
  case (EPut rows q)
  then show ?thesis
    using assms by (auto simp: putScopeKeyPackages_def put_packages_def record_request_def recorded_def
        split: prod.splits option.splits if_splits elim!: parse_put.elims dest!: put_refusals)
next
  case (ERegister i)
  then show ?thesis
    using assms by (auto simp: registerMember_def register_member_def Let_def record_request_def recorded_def
        split: prod.splits option.splits if_splits elim!: parse_register.elims)
qed (use assms in simp_all)

lemma repeat_request:
  assumes "op_proof op = Some q" and "jget (et_requests (tenant_state t s)) (requestKey q) = Some \<lparr>er_binding = b, er_result = r\<rparr>"
  shows "op_state op (tenant_state t s) = tenant_state t s"
    and "es_receipts (snd (e2ee_exec other t op s)) = es_receipts s"
    and "b \<noteq> proof_binding q \<Longrightarrow> fst (e2ee_exec other t op s) = request_refused op"
    and "b = proof_binding q \<Longrightarrow> accepted ans = Some r \<Longrightarrow> ans = fst (e2ee_exec other t op' z) \<Longrightarrow>
      fst (e2ee_exec other t op s) = (if same_kind op op' then ans else request_unreadable op)"
proof -
  have rec: "recorded (tenant_state t s) (Some q) parse = (if b = proof_binding q then
      (case parse r of None \<Rightarrow> UnreadableResult | Some x \<Rightarrow> RecordedResult x) else RequestConflict)"
    for parse :: "recorded_result \<Rightarrow> 'a option" by (simp add: recorded_def assms(2))
  have rec2: "recorded (tenant_state t s) (Some q) parse = (if b = proof_binding q then
      (case parse r of None \<Rightarrow> UnreadableResult | Some x \<Rightarrow> RecordedResult x) else RequestConflict)"
    for parse :: "recorded_result \<Rightarrow> 'b option" by (simp add: recorded_def assms(2))
  show "op_state op (tenant_state t s) = tenant_state t s"
    using assms by (cases op) (auto simp: append_chain_def put_packages_def register_member_def recorded_def split: option.splits)
  show "es_receipts (snd (e2ee_exec other t op s)) = es_receipts s"
    using assms by (cases op) (auto simp: appendChainEntries_def append_chain_def putScopeKeyPackages_def registerMember_def
        recorded_def record_shreds_def put_tenant_def split: option.splits prod.splits)
  show "fst (e2ee_exec other t op s) = request_refused op" if "b \<noteq> proof_binding q"
    using assms that by (cases op) (auto simp: appendChainEntries_def append_chain_def putScopeKeyPackages_def put_packages_def
        registerMember_def register_member_def recorded_def)
  show "fst (e2ee_exec other t op s) = (if same_kind op op' then ans else request_unreadable op)"
    if "b = proof_binding q" "accepted ans = Some r" "ans = fst (e2ee_exec other t op' z)"
    using assms that by (cases op; cases op'; cases r) (auto simp: appendChainEntries_def append_chain_def putScopeKeyPackages_def put_packages_def
        registerMember_def register_member_def recorded_def elim!: accepted.elims)
qed

text \<open>
  C18. A device request takes effect once: after a write is accepted, and any history of calls, a write
  under the same device and request id changes neither the tenant's state nor the receipts. With the
  same operation, resource and body it is answered as the first time, with any other it is refused;
  and a record of another kind of write is reported as unreadable.
\<close>

theorem e2ee_request_once:
  assumes "e2ee_inv s" and "e2ee_call (t, op)" and "op_proof op = Some p" and "e2ee_exec other t op s = (ans, s1)" and "accepted ans = Some r"
    and "\<forall>c \<in> set ops. e2ee_call c" and "s' = snd (run_ops (e2ee_exec other) ops s1)"
    and "op_proof op' = Some q" and "pw_deviceId q = pw_deviceId p" and "pq_requestId (pw_request q) = pq_requestId (pw_request p)"
  shows "tenant_state t (snd (e2ee_exec other t op' s')) = tenant_state t s' \<and>
    es_receipts (snd (e2ee_exec other t op' s')) = es_receipts s' \<and>
    fst (e2ee_exec other t op' s') =
      (if proof_binding q \<noteq> proof_binding p then request_refused op'
       else if same_kind op' op then ans else request_unreadable op')"
proof -
  have "e2ee_inv s1" using e2ee_history.exec_inv [OF assms(2,1), of other] assms(4) by simp
  note R = e2ee_run [OF this assms(6,7), of t]
  have "tenant_state t s1 = op_state op (tenant_state t s)"
    using tenant_state_exec [of t other t op s] assms(4) by simp
  then have "jget (et_requests (tenant_state t s1)) (requestKey p) = Some \<lparr>er_binding = proof_binding p, er_result = r\<rparr>"
    using accepted_recorded [OF assms(3), of other t s] assms(4,5) by simp
  moreover have "requestKey q = requestKey p" using assms(9,10) by (simp add: requestKey_def)
  ultimately have got: "jget (et_requests (tenant_state t s')) (requestKey q) = Some \<lparr>er_binding = proof_binding p, er_result = r\<rparr>"
    using tenant_leD(4) [OF R(3)] by simp
  note P = repeat_request [OF assms(8) got]
  have "fst (e2ee_exec other t op' s') = (if proof_binding q \<noteq> proof_binding p then request_refused op'
       else if same_kind op' op then ans else request_unreadable op')"
  proof (cases "proof_binding p = proof_binding q")
    case True
    from P(4) [OF this assms(5), of other op s] show ?thesis using assms(4) True by simp
  next
    case False
    then show ?thesis using P(3) by simp
  qed
  then show ?thesis using P(2) [of other] by (simp only: tenant_state_exec P(1) if_cancel)
qed

definition sample_proven :: "e2ee_proven_write" where
  "sample_proven = \<lparr>pw_deviceId = ''d'', pw_request = \<lparr>pq_requestId = ''r'', pq_operation = ''put'', pq_resource = ''k'', pq_bodySha256 = ''h'', pq_bodySize = 3\<rparr>\<rparr>"

theorem e2ee_request_once_witness:
  "fst (e2ee_exec (\<lambda>_. None) ''acme'' (EPut [] (Some sample_proven))
      (snd (e2ee_exec (\<lambda>_. None) ''acme'' (EPut [sample_package] (Some sample_proven)) empty_e2ee))) = PutAnswer (Inr (PackagesStored 1))"
proof -
  let ?op = "EPut [sample_package] (Some sample_proven)"
  have a: "fst (e2ee_exec (\<lambda>_. None) ''acme'' ?op empty_e2ee) = PutAnswer (Inr (PackagesStored 1))"
    by (simp add: putScopeKeyPackages_def put_packages_def recorded_def empty_e2ee_def tenant_state_def empty_e2ee_tenant_def sample_package_def Let_def)
  then have "e2ee_exec (\<lambda>_. None) ''acme'' ?op empty_e2ee =
      (PutAnswer (Inr (PackagesStored 1)), snd (e2ee_exec (\<lambda>_. None) ''acme'' ?op empty_e2ee))" by (metis prod.collapse)
  from e2ee_request_once [OF empty_e2ee_inv _ _ this, of sample_proven _ "[]" _ "EPut [] (Some sample_proven)" sample_proven, OF _ _ _ _ refl]
  show ?thesis by simp
qed

section \<open>Keys and members keep their identity\<close>

lemma scope_packages_stored:
  assumes "tenant_inv st" and "row \<in> set (scope_packages scope e q st)"
  shows "kp_scopeId row = scope \<and> jget (et_epochKeyIds st) (epoch_key scope (kp_epoch row)) = Some (kp_keyId row) \<and> jget (et_shredded st) scope = None"
proof -
  have mem: "row \<in> set (jvals (et_packages st))" "kp_scopeId row = scope" using assms(2) by (auto simp: scope_packages_def)
  obtain k where "(k, row) \<in> set (et_packages st)" using mem(1) by (auto simp: jvals_def)
  then have "jget (et_packages st) k = Some row" using assms(1) by (simp add: tenant_inv_def keys_ok_def jget_Some_iff)
  then show ?thesis using assms(1) mem(2) by (auto simp: tenant_inv_def keys_ok_def)
qed

text \<open>
  A scope epoch has one key: two packages of the same scope and epoch, read before and after any
  history of calls and for any recipients, carry the same key id.
\<close>

theorem e2ee_epoch_key_fixed:
  assumes "e2ee_inv s" and "\<forall>c \<in> set ops. e2ee_call c" and "s' = snd (run_ops (e2ee_exec other) ops s)"
    and "row \<in> set (fst (readScopeKeyPackages t scope e q s))" and "row' \<in> set (fst (readScopeKeyPackages t scope e' q' s'))"
    and "kp_epoch row = kp_epoch row'"
  shows "kp_keyId row = kp_keyId row'"
proof -
  note R = e2ee_run [OF assms(1-3), of t]
  have a: "row \<in> set (scope_packages scope e q (tenant_state t s))" "row' \<in> set (scope_packages scope e' q' (tenant_state t s'))"
    using assms(4,5) by (simp_all add: readScopeKeyPackages_def)
  show ?thesis
    using scope_packages_stored [OF R(1) a(1)] scope_packages_stored [OF R(2) a(2)] tenant_leD(6) [OF R(3)] assms(6) by fastforce
qed

definition sample_package_for :: "string \<Rightarrow> e2ee_package_put" where
  "sample_package_for m = sample_package\<lparr>kp_recipient := m\<rparr>"

theorem e2ee_epoch_key_fixed_witness:
  "let s = snd (putScopeKeyPackages ''acme'' [sample_package_for ''m''] None empty_e2ee);
       s' = snd (putScopeKeyPackages ''acme'' [sample_package_for ''n''] None s)
   in map kp_keyId (fst (readScopeKeyPackages ''acme'' ''room'' None (Some ''m'') s)) =
      map kp_keyId (fst (readScopeKeyPackages ''acme'' ''room'' None (Some ''n'') s'))"
proof -
  let ?s = "snd (putScopeKeyPackages ''acme'' [sample_package_for ''m''] None empty_e2ee)"
  let ?s' = "snd (putScopeKeyPackages ''acme'' [sample_package_for ''n''] None ?s)"
  let ?row = "\<lambda>m. e2ee_package_row.truncate (sample_package_for m)"
  have t: "tenant_state ''acme'' empty_e2ee = empty_e2ee_tenant" by (simp add: tenant_state_def empty_e2ee_def)
  note defs = readScopeKeyPackages_def scope_packages_def putScopeKeyPackages_def put_packages_def recorded_def t
    empty_e2ee_tenant_def sample_package_for_def sample_package_def Let_def store_package_def record_request_def jvals_def jset_def
    e2ee_package_row.defs sort_by_def
  have r: "fst (readScopeKeyPackages ''acme'' ''room'' None (Some ''m'') ?s) = [?row ''m'']" by (simp add: defs)
  have r': "fst (readScopeKeyPackages ''acme'' ''room'' None (Some ''n'') ?s') = [?row ''n'']" by (simp add: defs jget_def)
  have "e2ee_inv (snd (e2ee_exec (\<lambda>_. None) ''acme'' (EPut [sample_package_for ''m''] None) empty_e2ee))"
    by (rule e2ee_history.exec_inv) simp_all
  then have "e2ee_inv ?s" by simp
  moreover have "?s' = snd (run_ops (e2ee_exec (\<lambda>_. None)) [(''acme'', EPut [sample_package_for ''n''] None)] ?s)"
    by (simp add: run_ops_step del: run_ops.simps(2))
  moreover have "kp_epoch (?row ''m'') = kp_epoch (?row ''n'')" by (simp add: defs)
  ultimately have "kp_keyId (?row ''m'') = kp_keyId (?row ''n'')"
    using e2ee_epoch_key_fixed [of ?s "[(''acme'', EPut [sample_package_for ''n''] None)]" ?s' "\<lambda>_. None" "?row ''m''" "''acme''" "''room''"
        None "Some ''m''" "?row ''n''" None "Some ''n''"] r r' by (simp del: run_ops.simps)
  then show ?thesis by (simp add: Let_def r r')
qed

section \<open>Well-formed states\<close>

text \<open>
  C19. The state a tenant reaches from an empty store, through any history of calls, is well formed: the
  chain holds exactly the seqs from 1 to its length, every key package is filed under its own scope,
  epoch and recipient with the key id of its epoch and belongs to no shredded scope, and no two
  devices are registered for one member.
\<close>

theorem e2ee_state_well_formed:
  assumes "\<forall>c \<in> set ops. e2ee_call c" and "st = tenant_state t (snd (run_ops (e2ee_exec other) ops empty_e2ee))"
  shows "map fst (et_chain st) = [1..int (length (et_chain st))] \<and>
    (\<forall>k row. jget (et_packages st) k = Some row \<longrightarrow>
       k = package_key (kp_scopeId row) (kp_epoch row) (kp_recipient row) \<and>
       jget (et_epochKeyIds st) (epoch_key (kp_scopeId row) (kp_epoch row)) = Some (kp_keyId row) \<and>
       jget (et_shredded st) (kp_scopeId row) = None) \<and>
    (\<forall>d d' r r'. jget (et_registrations st) d = Some r \<and> jget (et_registrations st) d' = Some r' \<and> rg_memberId r = rg_memberId r' \<longrightarrow> d = d')"
proof -
  have "tenant_inv st"
    using e2ee_run(2) [OF empty_e2ee_inv assms(1) refl] by (simp add: assms(2))
  then show ?thesis unfolding tenant_inv_def chain_ok_def keys_ok_def members_ok_def by blast
qed

theorem e2ee_state_well_formed_witness:
  "map fst (et_chain (tenant_state ''acme'' (snd (run_ops (e2ee_exec (\<lambda>_. None))
     [(''acme'', EAppend (sample_chain_input 1 ''genesis'') 0), (''acme'', EAppend (sample_chain_input 2 ''add'') 1)] empty_e2ee)))) = [1, 2]"
proof -
  let ?ops = "[(''acme'', EAppend (sample_chain_input 1 ''genesis'') 0), (''acme'', EAppend (sample_chain_input 2 ''add'') 1)]"
  let ?st = "tenant_state ''acme'' (snd (run_ops (e2ee_exec (\<lambda>_. None)) ?ops empty_e2ee))"
  have "map fst (et_chain ?st) = [1..int (length (et_chain ?st))]"
    using e2ee_state_well_formed [of ?ops ?st "''acme''" "\<lambda>_. None", OF _ refl] by (simp del: run_ops.simps)
  moreover have "length (et_chain ?st) = 2"
    by (simp add: run_ops_step tenant_state_exec append_chain_def recorded_def sample_chain_input_def chain_set_def fresh_shreds_def
        record_request_def Let_def tenant_state_def empty_e2ee_def empty_e2ee_tenant_def put_tenant_def appendChainEntries_def jset_def jget_def record_shreds_def
        del: run_ops.simps(2))
  ultimately show ?thesis by (simp add: upto.simps del: run_ops.simps)
qed

end
