(* ===== verification/Task_Redaction.thy ===== *)
theory Task_Redaction
  imports Objects Mailbox Json Cloud_Errors Task_Attempts
begin

text \<open>
  Redaction of task content (\<open>packages/cloud/src/task-redaction.ts\<close>): the tombstone that replaces a
  stored body, the comparison of a stored body with a proposed one, the object hashes a body names,
  and the identifier of a task offer (\<open>offer-identity.ts\<close>). \<open>digest\<close> is SHA-256 of the UTF-8 bytes of
  a text, in its canonical form, \<open>json_parse\<close> is \<open>JSON.parse\<close> and \<open>ntext\<close> the text of a number that is
  not an integer.
\<close>

section \<open>Tombstones\<close>

definition TASK_REDACTION_MAX_TASKS :: nat where "TASK_REDACTION_MAX_TASKS = 100"

definition TASK_ID_MAX_LENGTH :: nat where "TASK_ID_MAX_LENGTH = 512"

definition TOMBSTONE_PREFIX :: string where
  "TOMBSTONE_PREFIX = CHR 0x7B # QUOTE # ''byokRedacted'' @ QUOTE # '':1,''"

definition ENVELOPE_TYPE :: "string \<Rightarrow> bool" where
  "ENVELOPE_TYPE v =
     (v \<noteq> [] \<and> CHR ''a'' \<le> hd v \<and> hd v \<le> CHR ''z'' \<and> length v \<le> 64 \<and>
      list_all (\<lambda>c. (CHR ''a'' \<le> c \<and> c \<le> CHR ''z'') \<or> isdigit c \<or> c = CHR ''_'' \<or> c = CHR ''.'') (tl v))"

definition taskRedactionReceiptKey :: "string \<Rightarrow> string" where
  "taskRedactionReceiptKey task = ''task-redaction:'' @ task"

definition isTaskRedactionTombstone :: "string \<Rightarrow> bool" where
  "isTaskRedactionTombstone body = prefix TOMBSTONE_PREFIX body"

definition assertTaskContentPresent :: "string \<Rightarrow> string \<Rightarrow> cloud_error + unit" where
  "assertTaskContentPresent task body =
     (if isTaskRedactionTombstone body then Inl (ByokCloudError Task_content_redacted) else Inr ())"

text \<open>\<open>envelopeType\<close>; a text that is not JSON has none.\<close>

definition envelopeType :: "(string \<Rightarrow> json option) \<Rightarrow> string \<Rightarrow> string option" where
  "envelopeType json_parse body =
     (case json_parse body of
        Some (JObject fs) \<Rightarrow>
          (case jget fs ''type'' of Some (JString ty) \<Rightarrow> if ENVELOPE_TYPE ty then Some ty else None | _ \<Rightarrow> None)
      | _ \<Rightarrow> None)"

definition tombstone_json :: "string \<Rightarrow> int \<Rightarrow> string option \<Rightarrow> json" where
  "tombstone_json hash bytes type =
     JObject ([(''byokRedacted'', JNumber (Fin 1)), (''sha256'', JString hash), (''bytes'', JNumber (Fin (of_int bytes)))] @
       (case type of None \<Rightarrow> [] | Some ty \<Rightarrow> [(''type'', JString ty)]))"

definition tombstone_text :: "(rat \<Rightarrow> string) \<Rightarrow> (string \<Rightarrow> string) \<Rightarrow> (string \<Rightarrow> json option) \<Rightarrow> string \<Rightarrow> string" where
  "tombstone_text ntext digest json_parse body =
     stringify ntext (tombstone_json (digest body) (utf8_length body) (envelopeType json_parse body))"

definition tombstone ::
  "(rat \<Rightarrow> string) \<Rightarrow> (string \<Rightarrow> string) \<Rightarrow> (string \<Rightarrow> json option) \<Rightarrow> string \<Rightarrow> cloud_error + mailbox_body" where
  "tombstone ntext digest json_parse body =
     (let text = tombstone_text ntext digest json_parse body
      in case contentHash (digest text) of
           Inl e \<Rightarrow> Inl (CoreFailure e)
         | Inr hash \<Rightarrow> Inr \<lparr>mb_body = text, mb_bodyHash = hash, mb_byteSize = utf8_length text\<rparr>)"

definition tombstone_absent :: "(rat \<Rightarrow> string) \<Rightarrow> string" where
  "tombstone_absent ntext = stringify ntext (JObject [(''byokRedacted'', JNumber (Fin 1)), (''absent'', JBool True)])"

definition sameTaskBody ::
  "(rat \<Rightarrow> string) \<Rightarrow> (string \<Rightarrow> string) \<Rightarrow> (string \<Rightarrow> json option) \<Rightarrow> string \<Rightarrow> string \<Rightarrow> cloud_error + bool" where
  "sameTaskBody ntext digest json_parse stored proposed =
     (if stored = proposed then Inr True
      else if \<not> isTaskRedactionTombstone stored then Inr False
      else case tombstone ntext digest json_parse proposed of
             Inl e \<Rightarrow> Inl e
           | Inr m \<Rightarrow> Inr (stored = mb_body m))"

section \<open>The task ids of a redaction\<close>

text \<open>The loop that collects the distinct ids; \<open>None\<close> when one is refused.\<close>

fun unique_ids :: "string list \<Rightarrow> json list \<Rightarrow> string list option" where
  "unique_ids unique [] = Some unique"
| "unique_ids unique (JString v # vs) =
     (if v = [] \<or> length v > TASK_ID_MAX_LENGTH \<or> v \<in> set unique then None else unique_ids (unique @ [v]) vs)"
| "unique_ids unique (_ # vs) = None"

definition parseTaskRedactionInput :: "json option \<Rightarrow> cloud_error + string list" where
  "parseTaskRedactionInput taskIds =
     (case taskIds of
        Some (JArray vs) \<Rightarrow>
          if vs = [] \<or> length vs > TASK_REDACTION_MAX_TASKS then Inl (ByokCloudError cloud_error_code.Coordination_input_invalid)
          else (case unique_ids [] vs of None \<Rightarrow> Inl (ByokCloudError cloud_error_code.Coordination_input_invalid) | Some ids \<Rightarrow> Inr ids)
      | _ \<Rightarrow> Inl (ByokCloudError cloud_error_code.Coordination_input_invalid))"

section \<open>The objects a body names\<close>

definition blob_ref :: "(string \<times> json) list \<Rightarrow> string option" where
  "blob_ref fs =
     (case (jget fs ''blobId'', jget fs ''contentHash'') of
        (Some (JString _), Some (JString h)) \<Rightarrow> if CONTENT_HASH_PATTERN h then Some h else None
      | _ \<Rightarrow> None)"

fun collectBlobHashes :: "json \<Rightarrow> string list \<Rightarrow> string list" where
  "collectBlobHashes (JArray xs) hashes = fold collectBlobHashes xs hashes"
| "collectBlobHashes (JObject fs) hashes =
     fold (\<lambda>e. collectBlobHashes (snd e)) fs
       (case blob_ref fs of Some h \<Rightarrow> if h \<in> set hashes then hashes else hashes @ [h] | None \<Rightarrow> hashes)"
| "collectBlobHashes _ hashes = hashes"

fun content_hashes :: "string list \<Rightarrow> cloud_error + string list" where
  "content_hashes [] = Inr []"
| "content_hashes (h # hs) =
     (case contentHash h of
        Inl e \<Rightarrow> Inl (CoreFailure e)
      | Inr v \<Rightarrow> map_sum id (Cons v) (content_hashes hs))"

definition blobHashes :: "(string \<Rightarrow> json option) \<Rightarrow> string \<Rightarrow> cloud_error + string list" where
  "blobHashes json_parse body =
     content_hashes (case json_parse body of None \<Rightarrow> [] | Some v \<Rightarrow> collectBlobHashes v [])"

section \<open>The codec a store applies\<close>

record redaction_codec =
  cd_tombstone :: "string \<Rightarrow> cloud_error + mailbox_body"
  cd_absent :: string
  cd_isTombstone :: "string \<Rightarrow> bool"
  cd_blobHashes :: "string \<Rightarrow> cloud_error + string list"

definition taskRedactionCodec :: "(rat \<Rightarrow> string) \<Rightarrow> (string \<Rightarrow> string) \<Rightarrow> (string \<Rightarrow> json option) \<Rightarrow> redaction_codec" where
  "taskRedactionCodec ntext digest json_parse =
     \<lparr>cd_tombstone = tombstone ntext digest json_parse, cd_absent = tombstone_absent ntext,
      cd_isTombstone = isTaskRedactionTombstone, cd_blobHashes = blobHashes json_parse\<rparr>"

section \<open>The identifier of a task offer\<close>

definition hex_digit_value :: "char \<Rightarrow> nat" where
  "hex_digit_value c = (if isdigit c then of_char c - 48 else of_char c - 87)"

definition uuidFromSha256 :: "string \<Rightarrow> cloud_error + string" where
  "uuidFromSha256 v =
     (if \<not> CONTENT_HASH_PATTERN v then Inl PlainError
      else let hex = (take 32 (drop 7 v))[12 := CHR ''8'', 16 := ''89ab'' ! (hex_digit_value (drop 7 v ! 16) mod 4)]
           in Inr (take 8 hex @ ''-'' @ take 4 (drop 8 hex) @ ''-'' @ take 4 (drop 12 hex) @ ''-'' @ take 4 (drop 16 hex) @ ''-'' @ drop 20 hex))"

definition agent_ref_json :: "agent_ref \<Rightarrow> json" where
  "agent_ref_json r = JObject [(''agentId'', JString (ar_agentId r)), (''profileRevision'', JString (ar_profileRevision r))]"

definition taskOfferMessageId ::
  "(rat \<Rightarrow> string) \<Rightarrow> (string \<Rightarrow> string) \<Rightarrow> tenant \<Rightarrow> string \<Rightarrow> string \<Rightarrow> agent_ref option \<Rightarrow> cloud_error + string" where
  "taskOfferMessageId ntext digest t task dev agentRef =
     uuidFromSha256 (digest (stringify ntext (JObject
       ([(''domain'', JString ''byok:task-offer''), (''tenant'', JString t), (''taskId'', JString task), (''deviceId'', JString dev)] @
        (case agentRef of None \<Rightarrow> [] | Some r \<Rightarrow> [(''agentRef'', agent_ref_json r)])))))"

section \<open>A tombstone stands for its body\<close>

lemma number_one: "number_text ntext (Fin 1) = ''1''"
proof -
  have "[digit 1] = ''1''" by code_simp
  then show ?thesis by (simp add: int_text_def nat_text.simps)
qed

lemma json_keys:
  "json_string ''byokRedacted'' = QUOTE # ''byokRedacted'' @ [QUOTE]" "json_string ''sha256'' = QUOTE # ''sha256'' @ [QUOTE]"
  "json_string ''absent'' = QUOTE # ''absent'' @ [QUOTE]"
  by code_simp+

lemma tombstone_text_split:
  "\<exists>r. tombstone_text ntext digest json_parse body = TOMBSTONE_PREFIX @ json_string ''sha256'' @ CHR '':'' # json_string (digest body) @ r"
  by (cases "envelopeType json_parse body")
    (simp_all add: tombstone_text_def tombstone_json_def TOMBSTONE_PREFIX_def json_keys(1) number_one del: number_text.simps)

lemma absent_split: "tombstone_absent ntext = TOMBSTONE_PREFIX @ json_string ''absent'' @ '':true'' @ [CHR 0x7D]"
  by (simp add: tombstone_absent_def TOMBSTONE_PREFIX_def json_keys(1) number_one del: number_text.simps)

lemma tombstone_text_is: "isTaskRedactionTombstone (tombstone_text ntext digest json_parse body)"
  using tombstone_text_split [of ntext digest json_parse body] by (auto simp: isTaskRedactionTombstone_def)

lemma tombstone_absent_is: "isTaskRedactionTombstone (tombstone_absent ntext)"
  by (simp add: isTaskRedactionTombstone_def absent_split)

lemma tombstone_text_inject:
  assumes "tombstone_text ntext digest json_parse a = tombstone_text ntext digest json_parse b"
  shows "digest a = digest b"
proof -
  obtain r r' where "tombstone_text ntext digest json_parse a = TOMBSTONE_PREFIX @ json_string ''sha256'' @ CHR '':'' # json_string (digest a) @ r"
    "tombstone_text ntext digest json_parse b = TOMBSTONE_PREFIX @ json_string ''sha256'' @ CHR '':'' # json_string (digest b) @ r'"
    using tombstone_text_split by blast
  then have "json_string (digest a) @ r = json_string (digest b) @ r'" using assms by simp
  then show ?thesis using json_string_inject_append by blast
qed

lemma tombstone_text_not_absent: "tombstone_text ntext digest json_parse a \<noteq> tombstone_absent ntext"
proof -
  obtain r where "tombstone_text ntext digest json_parse a = TOMBSTONE_PREFIX @ json_string ''sha256'' @ CHR '':'' # json_string (digest a) @ r"
    using tombstone_text_split by blast
  then show ?thesis by (simp add: absent_split json_keys)
qed

lemma tombstone_ok:
  assumes "CONTENT_HASH_PATTERN (digest (tombstone_text ntext digest json_parse b))"
  shows "\<exists>m. tombstone ntext digest json_parse b = Inr m \<and> mb_body m = tombstone_text ntext digest json_parse b"
  using assms by (simp add: tombstone_def contentHash_def Let_def)

lemma tombstone_body: "tombstone ntext digest json_parse b = Inr m \<Longrightarrow> mb_body m = tombstone_text ntext digest json_parse b"
  by (auto simp: tombstone_def Let_def split: sum.splits)

lemma same_as_tombstone:
  assumes "CONTENT_HASH_PATTERN (digest (tombstone_text ntext digest json_parse proposed))" and "digest body = digest proposed \<Longrightarrow> body = proposed"
    and "tombstone ntext digest json_parse body = Inr m"
  shows "sameTaskBody ntext digest json_parse (mb_body m) proposed = Inr (proposed = body \<or> proposed = mb_body m)"
proof -
  obtain q where q: "tombstone ntext digest json_parse proposed = Inr q" using tombstone_ok [of digest ntext json_parse proposed] assms(1) by blast
  have "mb_body m = mb_body q \<longleftrightarrow> proposed = body"
    using tombstone_text_inject [of ntext digest json_parse body proposed] assms(2) unfolding tombstone_body [OF assms(3)] tombstone_body [OF q] by blast
  then show ?thesis
    using tombstone_text_is [of ntext digest json_parse body] by (auto simp: sameTaskBody_def q tombstone_body [OF assms(3)])
qed

text \<open>
  A tombstone keeps the identity of its body: with a digest that is canonical and does not map
  the two bodies to one value, the stored body, its tombstone and the tombstone of a body that was
  never stored accept exactly the body itself, exactly the body or its own text, and nothing but
  their own text.
\<close>

theorem tombstone_fence:
  assumes "\<And>x. CONTENT_HASH_PATTERN (digest x)" and "digest body = digest proposed \<Longrightarrow> body = proposed" and "\<not> isTaskRedactionTombstone body"
    and "tombstone ntext digest json_parse body = Inr m"
  shows "sameTaskBody ntext digest json_parse body proposed = Inr (proposed = body) \<and>
    sameTaskBody ntext digest json_parse (mb_body m) proposed = Inr (proposed = body \<or> proposed = mb_body m) \<and>
    sameTaskBody ntext digest json_parse (tombstone_absent ntext) proposed = Inr (proposed = tombstone_absent ntext)"
proof -
  obtain q where q: "tombstone ntext digest json_parse proposed = Inr q" using tombstone_ok assms(1) by blast
  then have "sameTaskBody ntext digest json_parse (tombstone_absent ntext) proposed = Inr (proposed = tombstone_absent ntext)"
    using tombstone_absent_is [of ntext] tombstone_text_not_absent [of ntext digest json_parse proposed]
    by (auto simp: sameTaskBody_def tombstone_body [OF q])
  then show ?thesis
    using same_as_tombstone [of digest ntext json_parse proposed body m, OF assms(1,2,4)] assms(3) by (auto simp: sameTaskBody_def)
qed

definition sample_digest :: "string \<Rightarrow> string" where
  "sample_digest x = ''sha256:'' @ replicate 63 CHR ''0'' @ [if x = ''a'' then CHR ''0'' else CHR ''1'']"

lemma sample_digest_ok: "CONTENT_HASH_PATTERN (sample_digest x)"
  by (simp add: CONTENT_HASH_PATTERN_def sample_digest_def hex_lower_def isdigit_def less_eq_char_def list_all_iff)

theorem tombstone_fence_witness:
  "\<exists>m. tombstone (\<lambda>_. []) sample_digest (\<lambda>_. None) ''a'' = Inr m \<and>
     sameTaskBody (\<lambda>_. []) sample_digest (\<lambda>_. None) (mb_body m) ''b'' = Inr (''b'' = mb_body m)"
proof -
  obtain m where m: "tombstone (\<lambda>_. []) sample_digest (\<lambda>_. None) ''a'' = Inr m" using tombstone_ok sample_digest_ok by blast
  moreover have "\<not> isTaskRedactionTombstone ''a''" by (simp add: isTaskRedactionTombstone_def TOMBSTONE_PREFIX_def)
  ultimately show ?thesis
    using tombstone_fence [OF sample_digest_ok _ _ m, of "''b''"] by (simp add: sample_digest_def)
qed

section \<open>Every named object is found once\<close>

text \<open>The reference definition: a BlobRef anywhere in a value.\<close>

inductive names_blob :: "string \<Rightarrow> json \<Rightarrow> bool" where
  here: "blob_ref fs = Some h \<Longrightarrow> names_blob h (JObject fs)"
| in_array: "x \<in> set xs \<Longrightarrow> names_blob h x \<Longrightarrow> names_blob h (JArray xs)"
| in_field: "e \<in> set fs \<Longrightarrow> names_blob h (snd e) \<Longrightarrow> names_blob h (JObject fs)"

inductive_simps names_blob_simps [simp]:
  "names_blob h JNull" "names_blob h (JBool b)" "names_blob h (JNumber n)" "names_blob h (JString s)"
  "names_blob h (JArray xs)"

inductive_cases names_blob_objectE: "names_blob h (JObject fs)"

lemma names_blob_object: "names_blob h (JObject fs) \<longleftrightarrow> blob_ref fs = Some h \<or> (\<exists>e \<in> set fs. names_blob h (snd e))"
  by (meson names_blob.here names_blob.in_field names_blob_objectE)

lemma fold_collects:
  assumes "\<And>x acc. x \<in> set xs \<Longrightarrow> set (f x acc) = set acc \<union> A x \<and> (distinct acc \<longrightarrow> distinct (f x acc))"
  shows "set (fold f xs hashes) = set hashes \<union> (\<Union>x \<in> set xs. A x) \<and> (distinct hashes \<longrightarrow> distinct (fold f xs hashes))"
  using assms by (induction xs arbitrary: hashes) (simp_all, blast)

lemma collectBlobHashes_set:
  "set (collectBlobHashes j hashes) = set hashes \<union> {h. names_blob h j} \<and> (distinct hashes \<longrightarrow> distinct (collectBlobHashes j hashes))"
proof (induction j hashes rule: collectBlobHashes.induct)
  case (1 xs hashes)
  have "set (fold collectBlobHashes xs hashes) = set hashes \<union> (\<Union>x \<in> set xs. {h. names_blob h x}) \<and>
      (distinct hashes \<longrightarrow> distinct (fold collectBlobHashes xs hashes))"
    using 1 by (rule fold_collects)
  then show ?case by auto
next
  case (2 fs hashes)
  let ?h = "case blob_ref fs of Some h \<Rightarrow> if h \<in> set hashes then hashes else hashes @ [h] | None \<Rightarrow> hashes"
  have "set (fold (\<lambda>e. collectBlobHashes (snd e)) fs ?h) = set ?h \<union> (\<Union>e \<in> set fs. {h. names_blob h (snd e)}) \<and>
      (distinct ?h \<longrightarrow> distinct (fold (\<lambda>e. collectBlobHashes (snd e)) fs ?h))"
    using 2 by (rule fold_collects)
  moreover have "set ?h = set hashes \<union> {h. blob_ref fs = Some h}" "distinct hashes \<longrightarrow> distinct ?h"
    by (auto split: option.split)
  moreover have "{h. names_blob h (JObject fs)} = {h. blob_ref fs = Some h} \<union> (\<Union>e \<in> set fs. {h. names_blob h (snd e)})"
    unfolding names_blob_object by blast
  ultimately show ?case by (simp only: collectBlobHashes.simps) blast
qed simp_all

lemma names_blob_hash: "names_blob h j \<Longrightarrow> CONTENT_HASH_PATTERN h"
  by (induction rule: names_blob.induct) (auto simp: blob_ref_def split: option.splits json.splits if_splits)

lemma content_hashes_ok: "list_all CONTENT_HASH_PATTERN hs \<Longrightarrow> content_hashes hs = Inr hs"
  by (induction hs) (simp_all add: contentHash_def)

text \<open>
  The object hashes of a body are exactly the canonical hashes of the BlobRefs that occur anywhere
  in it, each once, and reading them never fails; a body that is not JSON names none.
\<close>

theorem blob_hashes_exact:
  "\<exists>hs. blobHashes json_parse body = Inr hs \<and> distinct hs \<and> set hs = {h. \<exists>v. json_parse body = Some v \<and> names_blob h v}"
proof (cases "json_parse body")
  case (Some v)
  have "list_all CONTENT_HASH_PATTERN (collectBlobHashes v [])"
    using collectBlobHashes_set [of v "[]"] names_blob_hash by (auto simp: list_all_iff)
  then show ?thesis using collectBlobHashes_set [of v "[]"] by (simp add: blobHashes_def Some content_hashes_ok)
qed (simp add: blobHashes_def)

lemma unique_ids_Some:
  "distinct acc \<Longrightarrow> unique_ids acc vs = Some ids \<longleftrightarrow>
     (\<exists>new. vs = map JString new \<and> ids = acc @ new \<and> distinct ids \<and> list_all (\<lambda>i. i \<noteq> [] \<and> length i \<le> TASK_ID_MAX_LENGTH) new)"
proof (induction acc vs rule: unique_ids.induct)
  case (2 acc v vs)
  show ?case
  proof (cases "v = [] \<or> length v > TASK_ID_MAX_LENGTH \<or> v \<in> set acc")
    case True
    then show ?thesis by (auto simp: Cons_eq_map_conv)
  next
    case False
    then have "distinct (acc @ [v])" using "2.prems" by simp
    from "2.IH" [OF False this] show ?thesis using False by (auto simp: Cons_eq_map_conv)
  qed
qed (auto simp: Cons_eq_map_conv)

text \<open>
  A redaction accepts exactly the arrays of 1 to 100 distinct, non-empty task ids of at most 512
  characters, and works on them in the order they were given.
\<close>

theorem redaction_input_exact:
  "parseTaskRedactionInput x = Inr ids \<longleftrightarrow>
     x = Some (JArray (map JString ids)) \<and> 1 \<le> length ids \<and> length ids \<le> 100 \<and> distinct ids \<and>
     list_all (\<lambda>i. 1 \<le> length i \<and> length i \<le> 512) ids"
proof (cases "\<exists>vs. x = Some (JArray vs)")
  case True
  then obtain vs where x: "x = Some (JArray vs)" by blast
  have "parseTaskRedactionInput x = Inr ids \<longleftrightarrow> vs \<noteq> [] \<and> length vs \<le> 100 \<and> unique_ids [] vs = Some ids"
    by (simp add: x parseTaskRedactionInput_def TASK_REDACTION_MAX_TASKS_def not_less split: option.split)
  also have "\<dots> \<longleftrightarrow> vs = map JString ids \<and> vs \<noteq> [] \<and> length vs \<le> 100 \<and> distinct ids \<and>
      list_all (\<lambda>i. i \<noteq> [] \<and> length i \<le> 512) ids"
    using unique_ids_Some [of "[]" vs ids] by (simp add: TASK_ID_MAX_LENGTH_def) blast
  also have "\<dots> \<longleftrightarrow> vs = map JString ids \<and> 1 \<le> length ids \<and> length ids \<le> 100 \<and> distinct ids \<and>
      list_all (\<lambda>i. 1 \<le> length i \<and> length i \<le> 512) ids"
    by (auto simp: Suc_le_eq)
  finally show ?thesis by (simp add: x)
next
  case False
  then have "parseTaskRedactionInput x = Inl (ByokCloudError cloud_error_code.Coordination_input_invalid)"
    by (simp add: parseTaskRedactionInput_def split: option.split json.split)
  then show ?thesis using False by auto
qed

end
