(* ===== verification/Task_Archive.thy ===== *)
theory Task_Archive
  imports Task_Redaction Receipts Drafts Task_Output Board
begin

text \<open>
  The archive of terminal tasks (\<open>packages/cloud/src/task-archive.ts\<close> and
  \<open>packages/cloud/src/stores/in-memory/task-archive.ts\<close>): one call rewrites the receipts, the message
  admission and the mailbox rows of a task as tombstones, drops its activity log, approval timeline,
  draft and object references, and stamps the attempt. The stores it reaches form \<open>archive_state\<close>;
  \<open>uuid\<close> is the identifier an activity log opened by the call draws, \<open>now\<close> the reading of the clock.
\<close>

declare tenantKey_one [simp del]

section \<open>State and data\<close>

record archive_state =
  ax_tasks :: attempt_state
  ax_receipts :: receipt_state
  ax_mailbox :: mailbox_state
  ax_activity :: activity_state
  ax_approvals :: approval_state
  ax_drafts :: draft_state
  ax_objects :: object_store

datatype archive_phase = ArchivePhase | SettlePhase

record task_archive_work =
  wk_taskId :: string
  wk_deviceId :: string
  wk_agentRef :: "agent_ref option"
  wk_phase :: archive_phase

record task_archive_input =
  xi_taskId :: string
  xi_receiptKeys :: "string list"
  xi_terminalReceiptKey :: string
  xi_releaseObjectReferences :: "(string \<times> string) list"
  xi_archivedAt :: string
  xi_codec :: redaction_codec

record task_archive_counts =
  xc_receiptsRedacted :: int
  xc_admissionsRedacted :: int
  xc_outboxRedacted :: int
  xc_ephemeralRowsDeleted :: int
  xc_referencesReleased :: int

datatype task_redaction_refusal = Task_not_terminal | Pending_delivery

datatype task_archive_result =
    Archived task_archive_counts
  | Already_archived
  | Archive_not_found
  | Archive_refused task_redaction_refusal

section \<open>The work a run has\<close>

definition work_of :: "archive_phase \<Rightarrow> task_attempt \<Rightarrow> task_archive_work" where
  "work_of phase a = \<lparr>wk_taskId = ta_taskId a, wk_deviceId = ta_deviceId a, wk_agentRef = ta_agentRef a, wk_phase = phase\<rparr>"

definition to_settle :: "tenant \<Rightarrow> attempt_state \<Rightarrow> task_attempt \<Rightarrow> bool" where
  "to_settle t s a = (ta_tenantId a = t \<and> ta_archivedAt a \<noteq> None \<and> jget (as_archiveSettled s) (tenantKey t [ta_taskId a]) = None)"

definition to_archive :: "tenant \<Rightarrow> string \<Rightarrow> task_attempt \<Rightarrow> bool" where
  "to_archive t archiveBefore a =
     (ta_tenantId a = t \<and> ta_archivedAt a = None \<and> terminal_status (ta_status a) \<and>
      (case ta_terminalAt a of None \<Rightarrow> False | Some x \<Rightarrow> x < archiveBefore))"

definition archive_order :: "task_attempt \<Rightarrow> task_attempt \<Rightarrow> int" where
  "archive_order l r =
     (let c = str_cmp (case_option [] id (ta_terminalAt l)) (case_option [] id (ta_terminalAt r))
      in if c \<noteq> 0 then c else str_cmp (ta_taskId l) (ta_taskId r))"

definition listWork :: "tenant \<Rightarrow> string \<Rightarrow> int \<Rightarrow> attempt_state \<Rightarrow> task_archive_work list" where
  "listWork t archiveBefore limit s =
     slice0 limit
       (map (work_of SettlePhase) (sort_by (\<lambda>l r. str_cmp (ta_taskId l) (ta_taskId r)) (filter (to_settle t s) (jvals (as_attempts s)))) @
        map (work_of ArchivePhase) (sort_by archive_order (filter (to_archive t archiveBefore) (jvals (as_attempts s)))))"

section \<open>Archiving one task\<close>

text \<open>\<open>body.includes(sub)\<close>.\<close>

definition str_includes :: "string \<Rightarrow> string \<Rightarrow> bool" where
  "str_includes sub body = list_ex (prefix sub) (suffixes body)"

definition namesTask :: "(string \<Rightarrow> json option) \<Rightarrow> string \<Rightarrow> string \<Rightarrow> bool" where
  "namesTask json_parse body task =
     (str_includes (json_string ''task_id'' @ CHR '':'' # json_string task) body \<and>
      (case json_parse body of Some (JObject fs) \<Rightarrow> jget fs ''task_id'' = Some (JString task) | _ \<Rightarrow> False))"

definition archive_devices :: "task_attempt \<Rightarrow> string list" where
  "archive_devices a =
     (case ta_ownerDeviceId a of
        None \<Rightarrow> [ta_deviceId a]
      | Some owner \<Rightarrow> if owner = ta_deviceId a then [ta_deviceId a] else [ta_deviceId a, owner])"

definition archive_rows :: "(string \<Rightarrow> json option) \<Rightarrow> tenant \<Rightarrow> string \<Rightarrow> task_attempt \<Rightarrow> mailbox_state \<Rightarrow> (string \<times> mailbox_message) list" where
  "archive_rows json_parse t task a mb =
     concat (map (\<lambda>dev. map (Pair dev) (filter (\<lambda>m. namesTask json_parse (mm_body m) task) (messagesOf t dev mb))) (archive_devices a))"

definition receipt_bodies :: "tenant \<Rightarrow> string list \<Rightarrow> receipt_state \<Rightarrow> (string \<times> string) list" where
  "receipt_bodies t keys rs = List.map_filter (\<lambda>k. map_option (Pair k) (receiptBodyOf t k rs)) keys"

definition admission_bodies :: "message_admission option \<Rightarrow> string list" where
  "admission_bodies adm =
     (case adm of None \<Rightarrow> [] | Some a \<Rightarrow> am_payloadBody a # (case am_terminalBody a of None \<Rightarrow> [] | Some b \<Rightarrow> [b]))"

text \<open>The bodies of the task that are not redacted yet.\<close>

definition stored_bodies :: "redaction_codec \<Rightarrow> (string \<times> string) list \<Rightarrow> message_admission option \<Rightarrow> (string \<times> mailbox_message) list \<Rightarrow> string list" where
  "stored_bodies codec rbs adm settled =
     filter (\<lambda>b. \<not> cd_isTombstone codec b) (map snd rbs @ admission_bodies adm @ map (mm_body \<circ> snd) settled)"

text \<open>The replacement of a body; the lookup succeeds because no body is missing when it is used.\<close>

definition redacted_body :: "redaction_codec \<Rightarrow> mailbox_body jmap \<Rightarrow> string \<Rightarrow> string" where
  "redacted_body codec tombstones body =
     (if cd_isTombstone codec body then body else case jget tombstones body of None \<Rightarrow> body | Some m \<Rightarrow> mb_body m)"

definition redact_receipt :: "redaction_codec \<Rightarrow> mailbox_body jmap \<Rightarrow> tenant \<Rightarrow> int \<Rightarrow> string \<times> string \<Rightarrow> receipt_state \<Rightarrow> receipt_state" where
  "redact_receipt codec tombstones t now = (\<lambda>(key, body) rs.
     if cd_isTombstone codec body then rs else setReceiptBody t key (redacted_body codec tombstones body) now rs)"

definition redact_admission :: "redaction_codec \<Rightarrow> mailbox_body jmap \<Rightarrow> message_admission \<Rightarrow> message_admission" where
  "redact_admission codec tombstones a =
     a\<lparr>am_payloadBody := redacted_body codec tombstones (am_payloadBody a),
       am_terminalBody := map_option (redacted_body codec tombstones) (am_terminalBody a)\<rparr>"

definition redact_admissions :: "redaction_codec \<Rightarrow> mailbox_body jmap \<Rightarrow> string \<Rightarrow> attempt_state \<Rightarrow> int \<times> attempt_state" where
  "redact_admissions codec tombstones key s =
     (case jget (as_messageAdmissions s) key of
        None \<Rightarrow> (0, s)
      | Some a \<Rightarrow>
          let a' = redact_admission codec tombstones a
          in if am_payloadBody a' \<noteq> am_payloadBody a \<or> am_terminalBody a' \<noteq> am_terminalBody a
             then (1, s\<lparr>as_messageAdmissions := jset key a' (as_messageAdmissions s)\<rparr>) else (0, s))"

text \<open>The loop over the mailbox rows; a row whose body has no entry ends it with a \<open>TypeError\<close>.\<close>

fun replace_rows :: "mailbox_body jmap \<Rightarrow> tenant \<Rightarrow> (string \<times> mailbox_message) list \<Rightarrow> mailbox_state \<Rightarrow> bool \<times> mailbox_state" where
  "replace_rows tombstones t [] mb = (True, mb)"
| "replace_rows tombstones t ((dev, m) # rows) mb =
     (case jget tombstones (mm_body m) of
        None \<Rightarrow> (False, mb)
      | Some b \<Rightarrow> replace_rows tombstones t rows (replaceBody t dev (mm_seq m) b mb))"

fun release_all :: "tenant \<Rightarrow> int \<Rightarrow> (string \<times> string) list \<Rightarrow> object_store \<Rightarrow> int \<times> object_store" where
  "release_all t now [] s = (0, s)"
| "release_all t now ((kind, refId) # refs) s =
     (case releaseReferences t kind refId now s of (n, s1) \<Rightarrow> case release_all t now refs s1 of (m, s2) \<Rightarrow> (n + m, s2))"

definition archived_attempt :: "string \<Rightarrow> task_attempt \<Rightarrow> task_attempt" where
  "archived_attempt archivedAt a =
     a\<lparr>ta_terminalCause := None, ta_cancellation := map_option (\<lambda>c. c\<lparr>tc_reason := None\<rparr>) (ta_cancellation a), ta_archivedAt := Some archivedAt\<rparr>"

datatype archive_step = Missing "string list" | Finished task_archive_result

text \<open>The writes of \<open>#attempt\<close>, which run without a suspension.\<close>

definition archive_write ::
  "tenant \<Rightarrow> string \<Rightarrow> int \<Rightarrow> task_archive_input \<Rightarrow> mailbox_body jmap \<Rightarrow> task_attempt \<Rightarrow> (string \<times> string) list \<Rightarrow>
   (string \<times> mailbox_message) list \<Rightarrow> archive_state \<Rightarrow> (cloud_error + archive_step) \<times> archive_state" where
  "archive_write t uuid now input tombstones a rbs settled s =
     (let key = tenantKey t [xi_taskId input]; codec = xi_codec input; term = xi_terminalReceiptKey input;
          rs1 = (if receiptBodyOf t term (ax_receipts s) = None then setReceiptBody t term (cd_absent codec) now (ax_receipts s) else ax_receipts s);
          rs2 = fold (redact_receipt codec tombstones t now) rbs rs1
      in case redact_admissions codec tombstones key (ax_tasks s) of
           (admitted, ts1) \<Rightarrow>
             (case replace_rows tombstones t settled (ax_mailbox s) of
                (False, mb) \<Rightarrow> (Inl TypeError, s\<lparr>ax_tasks := ts1, ax_receipts := rs2, ax_mailbox := mb\<rparr>)
              | (True, mb) \<Rightarrow>
                  (case (deleteActivityTail t (xi_taskId input) uuid (ax_activity s),
                         deleteApprovalTimelineTail t (xi_taskId input) (ax_approvals s),
                         deleteAgentMessageDraft t (xi_taskId input) (ax_drafts s),
                         release_all t now (xi_releaseObjectReferences input) (ax_objects s)) of
                     ((n1, act), (n2, app), (n3, dr), (released, ob)) \<Rightarrow>
                       (Inr (Finished (Archived \<lparr>
                          xc_receiptsRedacted = int (length (filter (\<lambda>(_, body). \<not> cd_isTombstone codec body) rbs)),
                          xc_admissionsRedacted = admitted, xc_outboxRedacted = int (length settled),
                          xc_ephemeralRowsDeleted = n1 + n2 + n3, xc_referencesReleased = released\<rparr>)),
                        \<lparr>ax_tasks = attempt_set key (archived_attempt (xi_archivedAt input) a) ts1, ax_receipts = rs2, ax_mailbox = mb,
                         ax_activity = act, ax_approvals = app, ax_drafts = dr, ax_objects = ob\<rparr>))))"

definition archive_attempt ::
  "(string \<Rightarrow> json option) \<Rightarrow> tenant \<Rightarrow> string \<Rightarrow> int \<Rightarrow> task_archive_input \<Rightarrow> mailbox_body jmap \<Rightarrow> archive_state \<Rightarrow>
   (cloud_error + archive_step) \<times> archive_state" where
  "archive_attempt json_parse t uuid now input tombstones s =
     (let key = tenantKey t [xi_taskId input]; codec = xi_codec input
      in case jget (as_attempts (ax_tasks s)) key of
           None \<Rightarrow> (Inr (Finished Archive_not_found), s)
         | Some a \<Rightarrow>
             if ta_archivedAt a \<noteq> None then (Inr (Finished Already_archived), s)
             else if \<not> terminal_status (ta_status a) then (Inr (Finished (Archive_refused Task_not_terminal)), s)
             else
               let rows = archive_rows json_parse t (xi_taskId input) a (ax_mailbox s)
               in if list_ex (\<lambda>(_, m). mm_state m = Pending) rows then (Inr (Finished (Archive_refused Pending_delivery)), s)
                  else
                    let settled = filter (\<lambda>(_, m). mm_state m \<noteq> Pending) rows;
                        rbs = receipt_bodies t (xi_receiptKeys input) (ax_receipts s);
                        bodies = stored_bodies codec rbs (jget (as_messageAdmissions (ax_tasks s)) key) settled;
                        missing = set_order (filter (\<lambda>b. jget tombstones b = None) bodies)
                    in if missing \<noteq> [] then (Inr (Missing missing), s)
                       else archive_write t uuid now input tombstones a rbs settled s)"

text \<open>\<open>for (const body of step.missing) tombstones.set(body, await input.codec.tombstone(body))\<close>.\<close>

fun add_tombstones :: "redaction_codec \<Rightarrow> string list \<Rightarrow> mailbox_body jmap \<Rightarrow> cloud_error + mailbox_body jmap" where
  "add_tombstones codec [] tombstones = Inr tombstones"
| "add_tombstones codec (b # bs) tombstones =
     (case cd_tombstone codec b of Inl e \<Rightarrow> Inl e | Inr m \<Rightarrow> add_tombstones codec bs (jset b m tombstones))"

text \<open>
  The loop of \<open>archive\<close>. While it waits for the codec other calls run: the first of \<open>others\<close> is what
  they make of the state in this round. \<open>None\<close>: the loop has not returned after these rounds.
\<close>

fun archive_rounds ::
  "(string \<Rightarrow> json option) \<Rightarrow> tenant \<Rightarrow> string \<Rightarrow> int \<Rightarrow> task_archive_input \<Rightarrow> (archive_state \<Rightarrow> archive_state) list \<Rightarrow>
   mailbox_body jmap \<Rightarrow> archive_state \<Rightarrow> ((cloud_error + task_archive_result) \<times> archive_state) option" where
  "archive_rounds json_parse t uuid now input others tombstones s =
     (case archive_attempt json_parse t uuid now input tombstones s of
        (Inl e, s') \<Rightarrow> Some (Inl e, s')
      | (Inr (Finished r), s') \<Rightarrow> Some (Inr r, s')
      | (Inr (Missing bs), s') \<Rightarrow>
          (case others of
             [] \<Rightarrow> None
           | other # rest \<Rightarrow>
               (case add_tombstones (xi_codec input) bs tombstones of
                  Inl e \<Rightarrow> Some (Inl e, other s')
                | Inr tombstones' \<Rightarrow> archive_rounds json_parse t uuid now input rest tombstones' (other s'))))"

declare archive_rounds.simps [simp del]

text \<open>An archive that nothing interrupts.\<close>

definition archive_task ::
  "(string \<Rightarrow> json option) \<Rightarrow> tenant \<Rightarrow> string \<Rightarrow> int \<Rightarrow> task_archive_input \<Rightarrow> archive_state \<Rightarrow>
   ((cloud_error + task_archive_result) \<times> archive_state) option" where
  "archive_task json_parse t uuid now input s = archive_rounds json_parse t uuid now input [id] [] s"

definition archive_settle :: "tenant \<Rightarrow> string \<Rightarrow> string \<Rightarrow> attempt_state \<Rightarrow> attempt_state" where
  "archive_settle t task settledAt s =
     (let key = tenantKey t [task]
      in case jget (as_attempts s) key of
           None \<Rightarrow> s
         | Some a \<Rightarrow> if ta_archivedAt a \<noteq> None \<and> jget (as_archiveSettled s) key = None
                     then s\<lparr>as_archiveSettled := jset key settledAt (as_archiveSettled s)\<rparr> else s)"

section \<open>The loop around the codec\<close>

text \<open>A table that the codec filled, with bodies that were not tombstones.\<close>

definition table_ok :: "redaction_codec \<Rightarrow> mailbox_body jmap \<Rightarrow> bool" where
  "table_ok codec tombstones = (\<forall>b m. jget tombstones b = Some m \<longrightarrow> cd_tombstone codec b = Inr m \<and> \<not> cd_isTombstone codec b)"

lemma set_order_Nil [simp]: "set_order xs = [] \<longleftrightarrow> xs = []"
  by (simp add: set_order_def)

lemma add_tombstones_get:
  assumes "\<And>b. \<exists>m. cd_tombstone codec b = Inr m"
  shows "\<exists>tbl. add_tombstones codec bs tombstones = Inr tbl \<and>
    (\<forall>b. jget tbl b = (if b \<in> set bs then Some (projr (cd_tombstone codec b)) else jget tombstones b))"
proof (induction bs arbitrary: tombstones)
  case (Cons b bs)
  obtain m where m: "cd_tombstone codec b = Inr m" using assms by blast
  show ?case using Cons [of "jset b m tombstones"] by (auto simp: m)
qed simp

lemma redacted_cong: "jget tbl b = jget tbl' b \<or> cd_isTombstone codec b \<Longrightarrow> redacted_body codec tbl b = redacted_body codec tbl' b"
  by (auto simp: redacted_body_def)

lemma replace_rows_cong:
  "(\<And>dev m. (dev, m) \<in> set rows \<Longrightarrow> jget tbl (mm_body m) = jget tbl' (mm_body m)) \<Longrightarrow> replace_rows tbl t rows mb = replace_rows tbl' t rows mb"
proof (induction rows arbitrary: mb)
  case (Cons r rows)
  then show ?case by (cases r) (force split: option.split)
qed simp

lemma archive_write_cong:
  assumes "\<And>b. b \<in> set (stored_bodies (xi_codec input) rbs (jget (as_messageAdmissions (ax_tasks s)) (tenantKey t [xi_taskId input])) settled) \<Longrightarrow> jget tbl b = jget tbl' b"
    and "table_ok (xi_codec input) tbl" and "table_ok (xi_codec input) tbl'"
  shows "archive_write t uuid now input tbl a rbs settled s = archive_write t uuid now input tbl' a rbs settled s"
proof -
  let ?codec = "xi_codec input"
  have none: "cd_isTombstone ?codec b \<Longrightarrow> jget tbl b = jget tbl' b" for b
    using assms(2,3) unfolding table_ok_def by (metis not_Some_eq)
  have rcp: "redact_receipt ?codec tbl t now x = redact_receipt ?codec tbl' t now x" if x: "x \<in> set rbs" for x
  proof -
    have "redacted_body ?codec tbl (snd x) = redacted_body ?codec tbl' (snd x)"
      using assms(1) [of "snd x"] x by (intro redacted_cong) (auto simp: stored_bodies_def)
    then show ?thesis by (cases x) (auto simp: redact_receipt_def fun_eq_iff)
  qed
  have 1: "fold (redact_receipt ?codec tbl t now) rbs rs = fold (redact_receipt ?codec tbl' t now) rbs rs" for rs
    using rcp by (intro fold_cong) simp_all
  have 2: "redact_admissions ?codec tbl (tenantKey t [xi_taskId input]) (ax_tasks s) = redact_admissions ?codec tbl' (tenantKey t [xi_taskId input]) (ax_tasks s)"
  proof (cases "jget (as_messageAdmissions (ax_tasks s)) (tenantKey t [xi_taskId input])")
    case (Some a)
    have eq: "redacted_body ?codec tbl b = redacted_body ?codec tbl' b" if "b \<in> set (admission_bodies (Some a))" for b
      using assms(1) [of b] that Some by (intro redacted_cong) (auto simp: stored_bodies_def)
    have "redact_admission ?codec tbl a = redact_admission ?codec tbl' a"
      using eq by (cases "am_terminalBody a") (simp_all add: redact_admission_def admission_bodies_def)
    then show ?thesis by (simp add: redact_admissions_def Some)
  qed (simp add: redact_admissions_def)
  have 3: "replace_rows tbl t settled (ax_mailbox s) = replace_rows tbl' t settled (ax_mailbox s)"
  proof (rule replace_rows_cong)
    fix dev m
    assume "(dev, m) \<in> set settled"
    then have "\<not> cd_isTombstone ?codec (mm_body m) \<Longrightarrow> mm_body m \<in> set (stored_bodies ?codec rbs (jget (as_messageAdmissions (ax_tasks s)) (tenantKey t [xi_taskId input])) settled)"
      by (force simp: stored_bodies_def)
    then show "jget tbl (mm_body m) = jget tbl' (mm_body m)" using assms(1) none by blast
  qed
  show ?thesis unfolding archive_write_def Let_def 1 2 3 ..
qed

text \<open>The bodies an attempt of the loop asks for, when the task can be archived.\<close>

definition wanted :: "(string \<Rightarrow> json option) \<Rightarrow> tenant \<Rightarrow> task_archive_input \<Rightarrow> archive_state \<Rightarrow> string list" where
  "wanted json_parse t input s =
     (case jget (as_attempts (ax_tasks s)) (tenantKey t [xi_taskId input]) of
        None \<Rightarrow> []
      | Some a \<Rightarrow> stored_bodies (xi_codec input) (receipt_bodies t (xi_receiptKeys input) (ax_receipts s))
          (jget (as_messageAdmissions (ax_tasks s)) (tenantKey t [xi_taskId input]))
          (filter (\<lambda>(_, m). mm_state m \<noteq> Pending) (archive_rows json_parse t (xi_taskId input) a (ax_mailbox s))))"

lemma wanted_plain: "b \<in> set (wanted json_parse t input s) \<Longrightarrow> \<not> cd_isTombstone (xi_codec input) b"
  by (auto simp: wanted_def stored_bodies_def split: option.splits)

lemma archive_write_finishes: "archive_write t uuid now input tbl a rbs settled s \<noteq> (Inr (Missing bs), s')"
  by (simp add: archive_write_def Let_def split_beta split: bool.split)

lemma attempt_missing:
  assumes "archive_attempt json_parse t uuid now input tbl s = (Inr (Missing bs), s')"
  shows "s' = s" and "bs \<noteq> []" and "set bs = {b \<in> set (wanted json_parse t input s). jget tbl b = None}"
proof -
  obtain a where a: "jget (as_attempts (ax_tasks s)) (tenantKey t [xi_taskId input]) = Some a"
    using assms by (cases "jget (as_attempts (ax_tasks s)) (tenantKey t [xi_taskId input])") (auto simp: archive_attempt_def Let_def)
  let ?settled = "filter (\<lambda>(_, m). mm_state m \<noteq> Pending) (archive_rows json_parse t (xi_taskId input) a (ax_mailbox s))"
  have "bs = set_order (filter (\<lambda>b. jget tbl b = None) (wanted json_parse t input s)) \<and> s' = s \<and> bs \<noteq> []"
    using assms archive_write_finishes [of t uuid now input tbl a "receipt_bodies t (xi_receiptKeys input) (ax_receipts s)" ?settled s bs s']
    by (auto simp: archive_attempt_def Let_def a wanted_def split: if_splits)
  then show "s' = s" "bs \<noteq> []" "set bs = {b \<in> set (wanted json_parse t input s). jget tbl b = None}" by auto
qed

text \<open>Two tables that know every wanted body make the same attempt.\<close>

lemma attempt_known:
  assumes "table_ok (xi_codec input) tbl" and "table_ok (xi_codec input) tbl'"
    and "\<And>b. b \<in> set (wanted json_parse t input s) \<Longrightarrow> jget tbl b \<noteq> None \<and> jget tbl' b \<noteq> None"
  shows "archive_attempt json_parse t uuid now input tbl s = archive_attempt json_parse t uuid now input tbl' s"
proof (cases "jget (as_attempts (ax_tasks s)) (tenantKey t [xi_taskId input])")
  case (Some a)
  let ?settled = "filter (\<lambda>(_, m). mm_state m \<noteq> Pending) (archive_rows json_parse t (xi_taskId input) a (ax_mailbox s))"
  let ?rbs = "receipt_bodies t (xi_receiptKeys input) (ax_receipts s)"
  have known: "jget tbl b = jget tbl' b" if "b \<in> set (wanted json_parse t input s)" for b
    using assms(1,2) assms(3) [OF that] unfolding table_ok_def by (metis not_Some_eq sum.inject(2))
  have w: "wanted json_parse t input s = stored_bodies (xi_codec input) ?rbs (jget (as_messageAdmissions (ax_tasks s)) (tenantKey t [xi_taskId input])) ?settled"
    by (simp add: wanted_def Some)
  have "archive_write t uuid now input tbl a ?rbs ?settled s = archive_write t uuid now input tbl' a ?rbs ?settled s"
    using known assms(1,2) unfolding w by (intro archive_write_cong) simp_all
  moreover have "filter (\<lambda>b. jget tbl b = None) (wanted json_parse t input s) = filter (\<lambda>b. jget tbl' b = None) (wanted json_parse t input s)"
    using known by (intro filter_cong) simp_all
  ultimately show ?thesis unfolding w by (simp add: archive_attempt_def Let_def Some)
qed (simp add: archive_attempt_def)

text \<open>An attempt that ends either did not depend on its table or knew every wanted body.\<close>

lemma attempt_ends:
  assumes "\<And>bs s'. archive_attempt json_parse t uuid now input tbl s \<noteq> (Inr (Missing bs), s')"
  shows "(\<forall>tbl'. archive_attempt json_parse t uuid now input tbl' s = archive_attempt json_parse t uuid now input tbl s) \<or>
    (\<forall>b \<in> set (wanted json_parse t input s). jget tbl b \<noteq> None)"
proof (cases "jget (as_attempts (ax_tasks s)) (tenantKey t [xi_taskId input])")
  case (Some a)
  show ?thesis
  proof (cases "ta_archivedAt a \<noteq> None \<or> \<not> terminal_status (ta_status a) \<or>
      list_ex (\<lambda>(_, m). mm_state m = Pending) (archive_rows json_parse t (xi_taskId input) a (ax_mailbox s))")
    case True
    then show ?thesis using Some by (auto simp: archive_attempt_def Let_def)
  next
    case False
    let ?missing = "filter (\<lambda>b. jget tbl b = None) (wanted json_parse t input s)"
    have "?missing \<noteq> [] \<Longrightarrow> archive_attempt json_parse t uuid now input tbl s = (Inr (Missing (set_order ?missing)), s)"
      using Some False by (simp add: archive_attempt_def wanted_def Let_def)
    then have "?missing = []" using assms by blast
    then show ?thesis by (auto simp: filter_empty_conv)
  qed
qed (simp add: archive_attempt_def)

lemma table_ok_Nil: "table_ok codec []"
  by (simp add: table_ok_def jget_def)

lemma add_tombstones_round:
  assumes "\<And>b. \<exists>m. cd_tombstone (xi_codec input) b = Inr m" and "table_ok (xi_codec input) tbl"
    and "archive_attempt json_parse t uuid now input tbl s = (Inr (Missing bs), s')"
  obtains tbl' where "add_tombstones (xi_codec input) bs tbl = Inr tbl'" and "table_ok (xi_codec input) tbl'"
    and "\<And>b. jget tbl' b \<noteq> None \<longleftrightarrow> jget tbl b \<noteq> None \<or> b \<in> set (wanted json_parse t input s)"
proof -
  note M = attempt_missing [OF assms(3)]
  obtain tbl' where T: "add_tombstones (xi_codec input) bs tbl = Inr tbl'"
    "\<And>b. jget tbl' b = (if b \<in> set bs then Some (projr (cd_tombstone (xi_codec input) b)) else jget tbl b)"
    using add_tombstones_get [OF assms(1)] by blast
  have tomb: "cd_tombstone (xi_codec input) b = Inr (projr (cd_tombstone (xi_codec input) b))" for b using assms(1) [of b] by auto
  have "table_ok (xi_codec input) tbl'"
    unfolding table_ok_def T(2) using assms(2) tomb M(3) wanted_plain [of _ json_parse t input s]
    by (auto simp: table_ok_def split: if_splits)
  moreover have "jget tbl' b \<noteq> None \<longleftrightarrow> jget tbl b \<noteq> None \<or> b \<in> set (wanted json_parse t input s)" for b
    unfolding T(2) M(3) by auto
  ultimately show ?thesis using that T(1) by blast
qed

text \<open>What the loop answers when an attempt ends.\<close>

definition step_answer :: "(cloud_error + archive_step) \<times> archive_state \<Rightarrow> ((cloud_error + task_archive_result) \<times> archive_state) option" where
  "step_answer x = (case x of (Inl e, s) \<Rightarrow> Some (Inl e, s) | (Inr (Finished r), s) \<Rightarrow> Some (Inr r, s) | (Inr (Missing bs), s) \<Rightarrow> None)"

lemma rounds_end: "step_answer (archive_attempt json_parse t uuid now input tbl s) = Some x \<Longrightarrow>
    archive_rounds json_parse t uuid now input others tbl s = Some x"
  by (subst archive_rounds.simps) (auto simp: step_answer_def split: prod.splits sum.splits archive_step.splits)

lemma rounds_missing:
  assumes "archive_attempt json_parse t uuid now input tbl s = (Inr (Missing bs), s')" and "add_tombstones (xi_codec input) bs tbl = Inr tbl'"
  shows "archive_rounds json_parse t uuid now input (f # others) tbl s = archive_rounds json_parse t uuid now input others tbl' (f s)"
    and "archive_rounds json_parse t uuid now input [] tbl s = None"
  using assms attempt_missing(1) [OF assms(1)] by (simp_all add: archive_rounds.simps [of _ _ _ _ _ _ tbl])

lemma step_answer_None: "step_answer x = None \<longleftrightarrow> (\<exists>bs s'. x = (Inr (Missing bs), s'))"
  by (auto simp: step_answer_def split: prod.splits sum.splits archive_step.splits)

lemma attempt_table:
  assumes "\<And>b. \<exists>m. cd_tombstone (xi_codec input) b = Inr m" and "table_ok (xi_codec input) tbl"
    and "step_answer (archive_attempt json_parse t uuid now input tbl s) = Some x"
  shows "archive_task json_parse t uuid now input s = Some x"
proof (cases "step_answer (archive_attempt json_parse t uuid now input [] s)")
  case None
  then obtain bs s' where m: "archive_attempt json_parse t uuid now input [] s = (Inr (Missing bs), s')" by (auto simp: step_answer_None)
  obtain tbl' where T: "add_tombstones (xi_codec input) bs [] = Inr tbl'" "table_ok (xi_codec input) tbl'"
    "\<And>b. b \<in> set (wanted json_parse t input s) \<Longrightarrow> jget tbl' b \<noteq> None"
    using add_tombstones_round [OF assms(1) table_ok_Nil m] by metis
  have ends: "archive_attempt json_parse t uuid now input tbl s \<noteq> (Inr (Missing bs), s')" for bs s'
    using assms(3) by (auto simp: step_answer_def)
  then have "\<forall>b \<in> set (wanted json_parse t input s). jget tbl b \<noteq> None" using attempt_ends [OF ends] m by metis
  then have "archive_attempt json_parse t uuid now input tbl' s = archive_attempt json_parse t uuid now input tbl s"
    using T assms(2) by (intro attempt_known) simp_all
  then show ?thesis using rounds_end [of json_parse t uuid now input tbl' s x] assms(3) by (simp add: archive_task_def rounds_missing [OF m T(1)])
next
  case (Some y)
  have ends: "archive_attempt json_parse t uuid now input [] s \<noteq> (Inr (Missing bs), s')" for bs s'
    using Some by (auto simp: step_answer_def)
  have "archive_attempt json_parse t uuid now input tbl s = archive_attempt json_parse t uuid now input [] s"
  proof (cases "wanted json_parse t input s = []")
    case True
    then show ?thesis using assms(2) table_ok_Nil by (intro attempt_known) simp_all
  next
    case False
    then obtain b where "b \<in> set (wanted json_parse t input s)" by (cases "wanted json_parse t input s") auto
    then show ?thesis using attempt_ends [OF ends] by (auto simp: jget_def)
  qed
  then show ?thesis using Some assms(3) rounds_end by (simp add: archive_task_def)
qed


lemma attempt_not_missing:
  assumes "\<And>b. b \<in> set (wanted json_parse t input s) \<Longrightarrow> jget tbl b \<noteq> None"
  shows "archive_attempt json_parse t uuid now input tbl s \<noteq> (Inr (Missing bs), s')"
proof
  assume eq: "archive_attempt json_parse t uuid now input tbl s = (Inr (Missing bs), s')"
  note M = attempt_missing [OF eq]
  obtain b where "b \<in> set bs" using M(2) by (cases bs) auto
  then show False using M(3) assms [of b] by simp
qed

lemma archive_task_total:
  assumes "\<And>b. \<exists>m. cd_tombstone (xi_codec input) b = Inr m"
  obtains tbl x where "archive_task json_parse t uuid now input s = Some x" and "table_ok (xi_codec input) tbl"
    and "step_answer (archive_attempt json_parse t uuid now input tbl s) = Some x"
proof (cases "step_answer (archive_attempt json_parse t uuid now input [] s)")
  case None
  then obtain bs s' where m: "archive_attempt json_parse t uuid now input [] s = (Inr (Missing bs), s')" by (auto simp: step_answer_None)
  obtain tbl where T: "table_ok (xi_codec input) tbl" "\<And>b. b \<in> set (wanted json_parse t input s) \<Longrightarrow> jget tbl b \<noteq> None"
    using add_tombstones_round [OF assms(1) table_ok_Nil m] by metis
  have "archive_attempt json_parse t uuid now input tbl s \<noteq> (Inr (Missing bs), s')" for bs s'
    using T(2) by (rule attempt_not_missing)
  then obtain x where "step_answer (archive_attempt json_parse t uuid now input tbl s) = Some x" using step_answer_None by blast
  then show ?thesis using that attempt_table [OF assms T(1)] T(1) by blast
next
  case (Some x)
  then show ?thesis using that table_ok_Nil attempt_table [OF assms table_ok_Nil Some] by blast
qed



section \<open>What an archive leaves behind\<close>

definition set_message_body :: "mailbox_body \<Rightarrow> mailbox_message \<Rightarrow> mailbox_message" where
  "set_message_body b m = m\<lparr>mm_body := mb_body b, mm_bodyHash := mb_bodyHash b, mm_byteSize := mb_byteSize b\<rparr>"

lemma set_message_body_sel [simp]:
  "mm_seq (set_message_body b m) = mm_seq m" "mm_body (set_message_body b m) = mb_body b"
  "mm_messageId (set_message_body b m) = mm_messageId m" "mm_state (set_message_body b m) = mm_state m"
  "set_message_body b (set_message_body b' m) = set_message_body b m"
  by (simp_all add: set_message_body_def)

lemma replace_first_map:
  "distinct (map mm_seq ms) \<Longrightarrow> replace_first n b ms =
     (map (\<lambda>m. if mm_seq m = n then set_message_body b m else m) ms, map_option (set_message_body b) (find (\<lambda>m. mm_seq m = n) ms))"
proof (induction ms)
  case (Cons m ms)
  have "mm_seq m = n \<Longrightarrow> map (\<lambda>m. if mm_seq m = n then set_message_body b m else m) ms = ms"
    using Cons.prems by (intro map_idI) (auto, metis image_eqI)
  then show ?case using Cons by (auto simp: set_message_body_def Let_def)
qed simp

lemma messagesOf_replaceBody:
  assumes "distinct (map mm_seq (messagesOf t dev mb))"
  shows "messagesOf t dev (replaceBody t dev' n b mb) =
    map (\<lambda>m. if dev' = dev \<and> mm_seq m = n then set_message_body b m else m) (messagesOf t dev mb)"
proof (cases "dev' = dev")
  case True
  show ?thesis
  proof (cases "jget mb (tenantKey t [dev])")
    case None
    then show ?thesis by (simp add: True messagesOf_def replaceBody_def)
  next
    case (Some d)
    have d: "distinct (map mm_seq (dm_messages d))" using assms Some by (simp add: messagesOf_def)
    show ?thesis
    proof (cases "find (\<lambda>m. mm_seq m = n) (dm_messages d)")
      case None
      then have "map (\<lambda>m. if mm_seq m = n then set_message_body b m else m) (dm_messages d) = dm_messages d"
        by (intro map_idI) (auto simp: find_None_iff)
      then show ?thesis using None by (simp add: True messagesOf_def replaceBody_def Some replace_first_map [OF d])
    next
      case (Some m)
      then show ?thesis using \<open>jget mb (tenantKey t [dev]) = Some d\<close>
        by (simp add: True messagesOf_def replaceBody_def replace_first_map [OF d])
    qed
  qed
next
  case False
  then have "tenantKey t [dev] \<noteq> tenantKey t [dev']" by (simp add: tenantKey_one)
  then show ?thesis using False by (auto simp: messagesOf_def replaceBody_def split: option.splits prod.splits)
qed

text \<open>What the loop over the rows makes of one message.\<close>

fun row_effect :: "mailbox_body jmap \<Rightarrow> string \<Rightarrow> (string \<times> mailbox_message) list \<Rightarrow> mailbox_message \<Rightarrow> mailbox_message" where
  "row_effect tbl dev [] m = m"
| "row_effect tbl dev ((d, m0) # rows) m =
     row_effect tbl dev rows (if d = dev \<and> mm_seq m = mm_seq m0 then set_message_body (the (jget tbl (mm_body m0))) m else m)"

lemma row_effect_seq [simp]: "mm_seq (row_effect tbl dev rows m) = mm_seq m"
  by (induction tbl dev rows m rule: row_effect.induct) simp_all

lemma replace_rows_messages:
  assumes "replace_rows tbl t rows mb = (True, mb')" and "distinct (map mm_seq (messagesOf t dev mb))"
  shows "messagesOf t dev mb' = map (row_effect tbl dev rows) (messagesOf t dev mb)"
  using assms
proof (induction rows arbitrary: mb)
  case (Cons row rows)
  obtain d m0 b where row: "row = (d, m0)" "jget tbl (mm_body m0) = Some b" "replace_rows tbl t rows (replaceBody t d (mm_seq m0) b mb) = (True, mb')"
    using Cons.prems(1) by (cases row) (auto split: option.splits)
  note M = messagesOf_replaceBody [OF Cons.prems(2), of d "mm_seq m0" b]
  have "map mm_seq (messagesOf t dev (replaceBody t d (mm_seq m0) b mb)) = map mm_seq (messagesOf t dev mb)"
    unfolding M by (simp add: comp_def if_distrib [of mm_seq] cong: if_cong)
  then have "distinct (map mm_seq (messagesOf t dev (replaceBody t d (mm_seq m0) b mb)))" using Cons.prems(2) by simp
  from Cons.IH [OF row(3) this] show ?case unfolding M by (simp add: row comp_def)
qed (simp add: map_idI)

lemma replace_rows_known: "replace_rows tbl t rows mb = (True, mb') \<Longrightarrow> (dev, m) \<in> set rows \<Longrightarrow> jget tbl (mm_body m) \<noteq> None"
  by (induction rows arbitrary: mb) (auto split: option.splits)

lemma row_effect_own:
  assumes "\<And>d m0. (d, m0) \<in> set rows \<Longrightarrow> d = dev \<Longrightarrow> mm_seq m0 = mm_seq m \<Longrightarrow> m0 = m"
  shows "row_effect tbl dev rows m = (if (dev, m) \<in> set rows then set_message_body (the (jget tbl (mm_body m))) m else m)"
proof -
  let ?b = "the (jget tbl (mm_body m))"
  have stay: "row_effect tbl dev rows (set_message_body ?b m) = set_message_body ?b m"
    if "\<And>d m0. (d, m0) \<in> set rows \<Longrightarrow> d = dev \<Longrightarrow> mm_seq m0 = mm_seq m \<Longrightarrow> m0 = m" for rows
    using that by (induction rows) (auto, metis set_message_body_sel(5))
  show ?thesis using assms
  proof (induction rows)
    case (Cons row rows)
    obtain d m0 where row: "row = (d, m0)" by (cases row)
    show ?case
    proof (cases "d = dev \<and> mm_seq m = mm_seq m0")
      case True
      then have "m0 = m" using Cons.prems [of d m0] by (simp add: row)
      then show ?thesis using True stay [of rows] Cons.prems by (simp add: row)
    next
      case False
      then show ?thesis using Cons.IH Cons.prems by (auto simp: row)
    qed
  qed simp
qed

lemma archive_rows_in: "(dev, m) \<in> set (archive_rows json_parse t task a mb) \<longleftrightarrow>
    dev \<in> set (archive_devices a) \<and> m \<in> set (messagesOf t dev mb) \<and> namesTask json_parse (mm_body m) task"
  by (auto simp: archive_rows_def)

lemma seq_inj: "distinct (map mm_seq ms) \<Longrightarrow> m \<in> set ms \<Longrightarrow> m' \<in> set ms \<Longrightarrow> mm_seq m = mm_seq m' \<Longrightarrow> m = m'"
  by (auto simp: distinct_map dest: inj_onD)

text \<open>The facts of an archive that went through.\<close>

lemma archive_done:
  assumes "\<And>b. \<exists>m. cd_tombstone (xi_codec input) b = Inr m"
    and "archive_task json_parse t uuid now input s = Some (Inr (Archived c), s')"
  obtains a tbl where "jget (as_attempts (ax_tasks s)) (tenantKey t [xi_taskId input]) = Some a" and "ta_archivedAt a = None"
    and "terminal_status (ta_status a)" and "table_ok (xi_codec input) tbl"
    and "\<And>dev m. (dev, m) \<in> set (archive_rows json_parse t (xi_taskId input) a (ax_mailbox s)) \<Longrightarrow> mm_state m \<noteq> Pending"
    and "\<And>b. b \<in> set (wanted json_parse t input s) \<Longrightarrow> jget tbl b \<noteq> None"
    and "archive_write t uuid now input tbl a (receipt_bodies t (xi_receiptKeys input) (ax_receipts s))
      (archive_rows json_parse t (xi_taskId input) a (ax_mailbox s)) s = (Inr (Finished (Archived c)), s')"
proof -
  obtain tbl where tbl: "table_ok (xi_codec input) tbl" "step_answer (archive_attempt json_parse t uuid now input tbl s) = Some (Inr (Archived c), s')"
    using archive_task_total [OF assms(1), of json_parse t uuid now s] assms(2) by (metis option.inject)
  then have A: "archive_attempt json_parse t uuid now input tbl s = (Inr (Finished (Archived c)), s')"
    by (auto simp: step_answer_def split: prod.splits sum.splits archive_step.splits)
  obtain a where a: "jget (as_attempts (ax_tasks s)) (tenantKey t [xi_taskId input]) = Some a"
    using A by (cases "jget (as_attempts (ax_tasks s)) (tenantKey t [xi_taskId input])") (auto simp: archive_attempt_def Let_def)
  let ?rows = "archive_rows json_parse t (xi_taskId input) a (ax_mailbox s)"
  have b: "ta_archivedAt a = None" "terminal_status (ta_status a)" "\<not> list_ex (\<lambda>(_, m). mm_state m = Pending) ?rows"
    using A a by (auto simp: archive_attempt_def Let_def split: if_splits)
  then have f: "filter (\<lambda>(_, m). mm_state m \<noteq> Pending) ?rows = ?rows" by (auto simp: list_ex_iff intro!: filter_True)
  have w: "wanted json_parse t input s = stored_bodies (xi_codec input) (receipt_bodies t (xi_receiptKeys input) (ax_receipts s))
      (jget (as_messageAdmissions (ax_tasks s)) (tenantKey t [xi_taskId input])) ?rows"
    by (simp add: wanted_def a f)
  have m: "filter (\<lambda>b. jget tbl b = None) (wanted json_parse t input s) = []"
    using A a b by (auto simp: archive_attempt_def Let_def f w split: if_splits)
  have "archive_write t uuid now input tbl a (receipt_bodies t (xi_receiptKeys input) (ax_receipts s)) ?rows s = (Inr (Finished (Archived c)), s')"
    using A a b m by (simp add: archive_attempt_def Let_def f w [symmetric])
  then show ?thesis using that [OF a b(1,2) tbl(1)] b(3) m by (auto simp: list_ex_iff filter_empty_conv)
qed

lemma archive_write_Archived:
  assumes "archive_write t uuid now input tbl a rbs settled s = (Inr (Finished (Archived c)), s')"
  defines "key \<equiv> tenantKey t [xi_taskId input]" and "codec \<equiv> xi_codec input"
  shows "ax_receipts s' = fold (redact_receipt codec tbl t now) rbs
      (if receiptBodyOf t (xi_terminalReceiptKey input) (ax_receipts s) = None
       then setReceiptBody t (xi_terminalReceiptKey input) (cd_absent codec) now (ax_receipts s) else ax_receipts s)"
    and "ax_tasks s' = attempt_set key (archived_attempt (xi_archivedAt input) a) (snd (redact_admissions codec tbl key (ax_tasks s)))"
    and "replace_rows tbl t settled (ax_mailbox s) = (True, ax_mailbox s')"
    and "ax_activity s' = snd (deleteActivityTail t (xi_taskId input) uuid (ax_activity s))"
    and "ax_approvals s' = snd (deleteApprovalTimelineTail t (xi_taskId input) (ax_approvals s))"
    and "ax_drafts s' = snd (deleteAgentMessageDraft t (xi_taskId input) (ax_drafts s))"
  using assms(1) unfolding archive_write_def Let_def split_beta key_def codec_def
  by (auto simp: prod_eq_iff split: bool.splits prod.splits)

lemma receiptBodyOf_set [simp]: "receiptBodyOf t k (setReceiptBody t k' body now rs) = (if k = k' then Some body else receiptBodyOf t k rs)"
  by (auto simp: receiptBodyOf_def setReceiptBody_def Let_def tenantKey_one split: option.splits)

lemma fold_redact_receipts:
  assumes "\<And>k b. (k, b) \<in> set rbs \<Longrightarrow> body k = b"
  shows "receiptBodyOf t k (fold (redact_receipt codec tbl t now) rbs rs) =
    (if k \<in> fst ` set rbs \<and> \<not> cd_isTombstone codec (body k) then Some (redacted_body codec tbl (body k)) else receiptBodyOf t k rs)"
  using assms
proof (induction rbs arbitrary: rs)
  case (Cons kb rbs)
  obtain k' b where kb: "kb = (k', b)" "b = body k'" using Cons.prems by (cases kb) auto
  have "\<And>k b. (k, b) \<in> set rbs \<Longrightarrow> body k = b" using Cons.prems by simp
  from Cons.IH [OF this] show ?case by (auto simp: kb redact_receipt_def)
qed simp

lemma receipt_bodies_in: "(k, b) \<in> set (receipt_bodies t keys rs) \<longleftrightarrow> k \<in> set keys \<and> receiptBodyOf t k rs = Some b"
  by (induction keys) (auto simp: receipt_bodies_def List.map_filter_def split: option.splits)

lemma sdk_codec_total:
  assumes "xi_codec input = taskRedactionCodec ntext digest json_parse" and "\<And>x. CONTENT_HASH_PATTERN (digest x)"
  shows "\<exists>m. cd_tombstone (xi_codec input) b = Inr m"
  using tombstone_ok [of digest ntext json_parse b] assms by (auto simp: taskRedactionCodec_def)

lemma sdk_redacted:
  assumes "codec = taskRedactionCodec ntext digest json_parse" and "table_ok codec tbl" and "isTaskRedactionTombstone b \<or> jget tbl b \<noteq> None"
  shows "isTaskRedactionTombstone (redacted_body codec tbl b)"
    and "\<not> isTaskRedactionTombstone b \<Longrightarrow> \<exists>m. tombstone ntext digest json_parse b = Inr m \<and> redacted_body codec tbl b = mb_body m"
    and "\<not> isTaskRedactionTombstone b \<Longrightarrow> \<exists>m. tombstone ntext digest json_parse b = Inr m \<and> jget tbl b = Some m"
proof -
  show 1: "\<exists>m. tombstone ntext digest json_parse b = Inr m \<and> jget tbl b = Some m" if "\<not> isTaskRedactionTombstone b"
    using assms that unfolding table_ok_def by (auto simp: taskRedactionCodec_def)
  then show "\<exists>m. tombstone ntext digest json_parse b = Inr m \<and> redacted_body codec tbl b = mb_body m" if "\<not> isTaskRedactionTombstone b"
    using that assms(1) by (force simp: redacted_body_def taskRedactionCodec_def)
  then show "isTaskRedactionTombstone (redacted_body codec tbl b)"
    using assms(1) tombstone_body tombstone_text_is by (cases "isTaskRedactionTombstone b") (force simp: redacted_body_def taskRedactionCodec_def)+
qed


lemma mailbox_seqs: "mailbox_inv mb \<Longrightarrow> distinct (map mm_seq (messagesOf t dev mb))"
  by (auto simp: mailbox_inv_def device_ok_def rows_ok_def messagesOf_def strict_sorted_iff split: option.splits)

text \<open>An archive on the SDK's codec: the receipts, the rows and the attempt afterwards.\<close>

lemma archive_effects:
  assumes codec: "xi_codec input = taskRedactionCodec ntext digest json_parse" and "\<And>x. CONTENT_HASH_PATTERN (digest x)"
    and "mailbox_inv (ax_mailbox s)" and "archive_task json_parse t uuid now input s = Some (Inr (Archived c), s')"
  defines "key \<equiv> tenantKey t [xi_taskId input]"
  obtains a tbl where "jget (as_attempts (ax_tasks s)) key = Some a" and "table_ok (xi_codec input) tbl"
    and "jget (as_attempts (ax_tasks s')) key = Some (archived_attempt (xi_archivedAt input) a)"
    and "\<And>k b. k \<in> set (xi_receiptKeys input) \<Longrightarrow> receiptBodyOf t k (ax_receipts s) = Some b \<Longrightarrow>
        (isTaskRedactionTombstone b \<or> jget tbl b \<noteq> None) \<and> receiptBodyOf t k (ax_receipts s') = Some (redacted_body (xi_codec input) tbl b)"
    and "\<And>k. receiptBodyOf t k (ax_receipts s) = None \<Longrightarrow>
        receiptBodyOf t k (ax_receipts s') = (if k = xi_terminalReceiptKey input then Some (tombstone_absent ntext) else None)"
    and "\<And>m b. jget (as_messageAdmissions (ax_tasks s)) key = Some m \<Longrightarrow> b \<in> set (admission_bodies (Some m)) \<Longrightarrow> isTaskRedactionTombstone b \<or> jget tbl b \<noteq> None"
    and "jget (as_messageAdmissions (ax_tasks s')) key = map_option (redact_admission (xi_codec input) tbl) (jget (as_messageAdmissions (ax_tasks s)) key)"
    and "\<And>dev. messagesOf t dev (ax_mailbox s') = map (\<lambda>m. if dev \<in> set (archive_devices a) \<and> namesTask json_parse (mm_body m) (xi_taskId input)
        then set_message_body (the (jget tbl (mm_body m))) m else m) (messagesOf t dev (ax_mailbox s))"
    and "\<And>dev m. dev \<in> set (archive_devices a) \<Longrightarrow> m \<in> set (messagesOf t dev (ax_mailbox s)) \<Longrightarrow> namesTask json_parse (mm_body m) (xi_taskId input) \<Longrightarrow>
        \<exists>b. tombstone ntext digest json_parse (mm_body m) = Inr b \<and> jget tbl (mm_body m) = Some b"
    and "ax_activity s' = snd (deleteActivityTail t (xi_taskId input) uuid (ax_activity s))"
    and "ax_approvals s' = snd (deleteApprovalTimelineTail t (xi_taskId input) (ax_approvals s))"
    and "ax_drafts s' = snd (deleteAgentMessageDraft t (xi_taskId input) (ax_drafts s))"
proof -
  obtain a tbl where D: "jget (as_attempts (ax_tasks s)) key = Some a" "ta_archivedAt a = None" "terminal_status (ta_status a)" "table_ok (xi_codec input) tbl"
    "\<And>dev m. (dev, m) \<in> set (archive_rows json_parse t (xi_taskId input) a (ax_mailbox s)) \<Longrightarrow> mm_state m \<noteq> Pending"
    "\<And>b. b \<in> set (wanted json_parse t input s) \<Longrightarrow> jget tbl b \<noteq> None"
    "archive_write t uuid now input tbl a (receipt_bodies t (xi_receiptKeys input) (ax_receipts s))
      (archive_rows json_parse t (xi_taskId input) a (ax_mailbox s)) s = (Inr (Finished (Archived c)), s')"
    using archive_done [OF sdk_codec_total [OF codec assms(2)] assms(4)] unfolding key_def by metis
  let ?rbs = "receipt_bodies t (xi_receiptKeys input) (ax_receipts s)" and ?rows = "archive_rows json_parse t (xi_taskId input) a (ax_mailbox s)"
  note W = archive_write_Archived [OF D(7), folded key_def]
  have tomb: "cd_isTombstone (xi_codec input) = isTaskRedactionTombstone" "cd_absent (xi_codec input) = tombstone_absent ntext"
    by (simp_all add: codec taskRedactionCodec_def)
  have f: "filter (\<lambda>(_, m). mm_state m \<noteq> Pending) ?rows = ?rows" using D(5) by (auto intro!: filter_True)
  have known: "isTaskRedactionTombstone b \<or> jget tbl b \<noteq> None"
    if "b \<in> set (map snd ?rbs @ admission_bodies (jget (as_messageAdmissions (ax_tasks s)) key) @ map (mm_body \<circ> snd) ?rows)" for b
    using that D(6) [of b] D(1) by (cases "isTaskRedactionTombstone b") (simp_all add: wanted_def key_def [symmetric] stored_bodies_def tomb f)
  have rb: "receiptBodyOf t k (ax_receipts s') = (if k \<in> fst ` set ?rbs \<and> \<not> cd_isTombstone (xi_codec input) (the (receiptBodyOf t k (ax_receipts s)))
      then Some (redacted_body (xi_codec input) tbl (the (receiptBodyOf t k (ax_receipts s))))
      else receiptBodyOf t k (if receiptBodyOf t (xi_terminalReceiptKey input) (ax_receipts s) = None
        then setReceiptBody t (xi_terminalReceiptKey input) (cd_absent (xi_codec input)) now (ax_receipts s) else ax_receipts s))" for k
    unfolding W(1) by (rule fold_redact_receipts) (simp add: receipt_bodies_in)
  show ?thesis
  proof (rule that [OF D(1,4)])
    show "jget (as_attempts (ax_tasks s')) key = Some (archived_attempt (xi_archivedAt input) a)" by (simp add: W(2))
    show "(isTaskRedactionTombstone b \<or> jget tbl b \<noteq> None) \<and> receiptBodyOf t k (ax_receipts s') = Some (redacted_body (xi_codec input) tbl b)"
      if k: "k \<in> set (xi_receiptKeys input)" "receiptBodyOf t k (ax_receipts s) = Some b" for k b
    proof -
      have in_rbs: "(k, b) \<in> set ?rbs" using k by (simp add: receipt_bodies_in)
      then have "k \<in> fst ` set ?rbs" "b \<in> set (map snd ?rbs)" by force+
      then show ?thesis using known [of b] rb [of k] k(2) by (auto simp: redacted_body_def)
    qed
    show "receiptBodyOf t k (ax_receipts s') = (if k = xi_terminalReceiptKey input then Some (tombstone_absent ntext) else None)"
      if k: "receiptBodyOf t k (ax_receipts s) = None" for k
    proof -
      have "k \<notin> fst ` set ?rbs" using k by (auto simp: receipt_bodies_in)
      then show ?thesis using rb [of k] k by (auto simp: tomb)
    qed
    show "isTaskRedactionTombstone b \<or> jget tbl b \<noteq> None"
      if "jget (as_messageAdmissions (ax_tasks s)) key = Some m" "b \<in> set (admission_bodies (Some m))" for m b
      using known [of b] that by simp
    show "jget (as_messageAdmissions (ax_tasks s')) key = map_option (redact_admission (xi_codec input) tbl) (jget (as_messageAdmissions (ax_tasks s)) key)"
    proof -
      have "m = redact_admission (xi_codec input) tbl m" if "am_payloadBody (redact_admission (xi_codec input) tbl m) = am_payloadBody m"
        "am_terminalBody (redact_admission (xi_codec input) tbl m) = am_terminalBody m" for m
        using that by (simp add: redact_admission_def)
      then show ?thesis
        by (cases "jget (as_messageAdmissions (ax_tasks s)) key") (auto simp: W(2) redact_admissions_def Let_def)
    qed
    show "messagesOf t dev (ax_mailbox s') = map (\<lambda>m. if dev \<in> set (archive_devices a) \<and> namesTask json_parse (mm_body m) (xi_taskId input)
        then set_message_body (the (jget tbl (mm_body m))) m else m) (messagesOf t dev (ax_mailbox s))" for dev
    proof -
      note dist = mailbox_seqs [OF assms(3), of t dev]
      have "row_effect tbl dev ?rows m = (if (dev, m) \<in> set ?rows then set_message_body (the (jget tbl (mm_body m))) m else m)"
        if "m \<in> set (messagesOf t dev (ax_mailbox s))" for m
        by (rule row_effect_own) (use seq_inj [OF dist _ that] in \<open>auto simp: archive_rows_in\<close>)
      then show ?thesis using replace_rows_messages [OF W(3) dist] by (simp add: archive_rows_in)
    qed
    show "\<exists>b. tombstone ntext digest json_parse (mm_body m) = Inr b \<and> jget tbl (mm_body m) = Some b"
      if "dev \<in> set (archive_devices a)" "m \<in> set (messagesOf t dev (ax_mailbox s))" "namesTask json_parse (mm_body m) (xi_taskId input)" for dev m
      using replace_rows_known [OF W(3), of dev m] that D(4) by (auto simp: archive_rows_in table_ok_def codec taskRedactionCodec_def)
  qed (rule W(4), rule W(5), rule W(6))
qed



text \<open>
  C23. An archive keeps the fences of the task: for every receipt it was given, a proposed body that is
  not itself a tombstone compares with what is stored exactly as before; every mailbox row keeps its
  sequence number, message id and state; and the attempt keeps its identity, status and instants.
\<close>

theorem archive_keeps_fences:
  assumes "xi_codec input = taskRedactionCodec ntext digest json_parse" and "\<And>x. CONTENT_HASH_PATTERN (digest x)"
    and "mailbox_inv (ax_mailbox s)" and "archive_task json_parse t uuid now input s = Some (Inr (Archived c), s')"
    and "k \<in> set (xi_receiptKeys input)" and "receiptBodyOf t k (ax_receipts s) = Some b" and "\<not> isTaskRedactionTombstone b"
    and "\<not> isTaskRedactionTombstone p" and "digest b = digest p \<Longrightarrow> b = p"
  defines "key \<equiv> tenantKey t [xi_taskId input]"
  shows "(\<exists>b'. receiptBodyOf t k (ax_receipts s') = Some b' \<and> sameTaskBody ntext digest json_parse b' p = sameTaskBody ntext digest json_parse b p) \<and>
    map (\<lambda>m. (mm_seq m, mm_messageId m, mm_state m)) (messagesOf t dev (ax_mailbox s')) =
      map (\<lambda>m. (mm_seq m, mm_messageId m, mm_state m)) (messagesOf t dev (ax_mailbox s)) \<and>
    (\<exists>a. jget (as_attempts (ax_tasks s)) key = Some a \<and> jget (as_attempts (ax_tasks s')) key =
       Some (a\<lparr>ta_terminalCause := None, ta_cancellation := map_option (\<lambda>c. c\<lparr>tc_reason := None\<rparr>) (ta_cancellation a), ta_archivedAt := Some (xi_archivedAt input)\<rparr>))"
proof (rule archive_effects [OF assms(1-4), folded key_def], goal_cases)
  case (1 a tbl)
  note R = 1(4) [OF assms(5,6)]
  obtain m where m: "tombstone ntext digest json_parse b = Inr m" "redacted_body (xi_codec input) tbl b = mb_body m"
    using sdk_redacted(2) [OF assms(1) 1(2)] R assms(7) by blast
  have "p \<noteq> mb_body m" using assms(8) tombstone_body [OF m(1)] tombstone_text_is by auto
  then have "sameTaskBody ntext digest json_parse (mb_body m) p = sameTaskBody ntext digest json_parse b p"
    using same_as_tombstone [of digest ntext json_parse p b m, OF assms(2,9) m(1)] assms(7) by (auto simp: sameTaskBody_def)
  then have "\<exists>b'. receiptBodyOf t k (ax_receipts s') = Some b' \<and> sameTaskBody ntext digest json_parse b' p = sameTaskBody ntext digest json_parse b p"
    using R m(2) by simp
  moreover have "map (\<lambda>m. (mm_seq m, mm_messageId m, mm_state m)) (messagesOf t dev (ax_mailbox s')) =
      map (\<lambda>m. (mm_seq m, mm_messageId m, mm_state m)) (messagesOf t dev (ax_mailbox s))"
    unfolding 1(8) by simp
  ultimately show ?case using 1(1,3) by (simp add: archived_attempt_def)
qed

section \<open>A run over all tasks that are due\<close>

definition terminalReceiptKey :: "string \<Rightarrow> string" where
  "terminalReceiptKey task = ''task:'' @ task @ '':terminal''"

definition SEALED_TASK_REFERENCE_KIND :: string where
  "SEALED_TASK_REFERENCE_KIND = ''sealed-task''"

definition unit_input :: "(rat \<Rightarrow> string) \<Rightarrow> (string \<Rightarrow> string) \<Rightarrow> (string \<Rightarrow> json option) \<Rightarrow> string \<Rightarrow> string \<Rightarrow> task_archive_work \<Rightarrow> task_archive_input" where
  "unit_input ntext digest json_parse messageId archivedAt u =
     \<lparr>xi_taskId = wk_taskId u,
      xi_receiptKeys = [''task-offer:'' @ messageId, terminalReceiptKey (wk_taskId u), ''agent-message-offer:'' @ wk_deviceId u @ '':'' @ wk_taskId u],
      xi_terminalReceiptKey = terminalReceiptKey (wk_taskId u),
      xi_releaseObjectReferences = [(SEALED_TASK_REFERENCE_KIND, wk_taskId u)],
      xi_archivedAt = archivedAt, xi_codec = taskRedactionCodec ntext digest json_parse\<rparr>"

record task_archive_step_counts =
  ru_archived :: int
  ru_settled :: int
  ru_refused :: int

type_synonym archive_world = "archive_state \<times> board_state"

text \<open>The last two steps of a unit: the board item goes, then the task is settled.\<close>

definition settle_unit :: "tenant \<Rightarrow> string \<Rightarrow> task_archive_work \<Rightarrow> archive_world \<Rightarrow> archive_world" where
  "settle_unit t at_now u = (\<lambda>(s, b). (s\<lparr>ax_tasks := archive_settle t (wk_taskId u) at_now (ax_tasks s)\<rparr>, board_remove t (wk_taskId u) b))"

text \<open>
  The loop of \<open>archiveTerminalTasks\<close>. \<open>drawn\<close> gives the identifier a log opened by the archive of a task
  draws. \<open>None\<close> would be an archive that does not return.
\<close>

fun run_units ::
  "(rat \<Rightarrow> string) \<Rightarrow> (string \<Rightarrow> string) \<Rightarrow> (string \<Rightarrow> json option) \<Rightarrow> (string \<Rightarrow> string) \<Rightarrow> tenant \<Rightarrow> int \<Rightarrow> string \<Rightarrow>
   task_archive_work list \<Rightarrow> task_archive_step_counts \<Rightarrow> archive_world \<Rightarrow> ((cloud_error + task_archive_step_counts) \<times> archive_world) option" where
  "run_units ntext digest json_parse drawn t now at_now [] n w = Some (Inr n, w)"
| "run_units ntext digest json_parse drawn t now at_now (u # us) n (s, b) =
     (case wk_phase u of
        SettlePhase \<Rightarrow> run_units ntext digest json_parse drawn t now at_now us (n\<lparr>ru_settled := ru_settled n + 1\<rparr>) (settle_unit t at_now u (s, b))
      | ArchivePhase \<Rightarrow>
          (case taskOfferMessageId ntext digest t (wk_taskId u) (wk_deviceId u) (wk_agentRef u) of
             Inl e \<Rightarrow> Some (Inl e, (s, b))
           | Inr messageId \<Rightarrow>
               (case archive_task json_parse t (drawn (wk_taskId u)) now (unit_input ntext digest json_parse messageId at_now u) s of
                  None \<Rightarrow> None
                | Some (Inl e, s') \<Rightarrow> Some (Inl e, (s', b))
                | Some (Inr (Archive_refused _), s') \<Rightarrow>
                    run_units ntext digest json_parse drawn t now at_now us (n\<lparr>ru_refused := ru_refused n + 1\<rparr>) (s', b)
                | Some (Inr Archive_not_found, s') \<Rightarrow> run_units ntext digest json_parse drawn t now at_now us n (s', b)
                | Some (Inr (Archived _), s') \<Rightarrow>
                    run_units ntext digest json_parse drawn t now at_now us (n\<lparr>ru_archived := ru_archived n + 1, ru_settled := ru_settled n + 1\<rparr>)
                      (settle_unit t at_now u (s', b))
                | Some (Inr Already_archived, s') \<Rightarrow>
                    run_units ntext digest json_parse drawn t now at_now us (n\<lparr>ru_settled := ru_settled n + 1\<rparr>) (settle_unit t at_now u (s', b)))))"

definition archiveTerminalTasks ::
  "(rat \<Rightarrow> string) \<Rightarrow> (string \<Rightarrow> string) \<Rightarrow> (string \<Rightarrow> json option) \<Rightarrow> (string \<Rightarrow> string) \<Rightarrow> tenant \<Rightarrow> int \<Rightarrow> string \<Rightarrow> string \<Rightarrow> int \<Rightarrow>
   archive_world \<Rightarrow> ((cloud_error + task_archive_step_counts \<times> bool) \<times> archive_world) option" where
  "archiveTerminalTasks ntext digest json_parse drawn t now archiveBefore at_now limit w =
     (let work = listWork t archiveBefore limit (ax_tasks (fst w))
      in case run_units ntext digest json_parse drawn t now at_now work \<lparr>ru_archived = 0, ru_settled = 0, ru_refused = 0\<rparr> w of
           None \<Rightarrow> None
         | Some (Inl e, w') \<Rightarrow> Some (Inl e, w')
         | Some (Inr n, w') \<Rightarrow> Some (Inr (n, int (length work) = limit), w'))"

lemma archive_write_tasks:
  assumes "archive_write t uuid now input tbl a rbs settled s = (Inr (Finished r), s')"
  shows "(\<exists>c. r = Archived c) \<and> as_archiveSettled (ax_tasks s') = as_archiveSettled (ax_tasks s) \<and>
    as_attempts (ax_tasks s') = jset (tenantKey t [xi_taskId input]) (archived_attempt (xi_archivedAt input) a) (as_attempts (ax_tasks s))"
proof -
  have "as_archiveSettled (snd (redact_admissions codec tbl key z)) = as_archiveSettled z \<and> as_attempts (snd (redact_admissions codec tbl key z)) = as_attempts z" for codec key z
    by (simp add: redact_admissions_def Let_def split: option.split)
  then show ?thesis
    using assms by (auto simp: archive_write_def Let_def split_beta attempt_set_def split: bool.splits)
qed

text \<open>What a call of the archive does to the attempts, by its answer.\<close>

lemma archive_task_attempts:
  assumes "\<And>b. \<exists>m. cd_tombstone (xi_codec input) b = Inr m" and "archive_task json_parse t uuid now input s = Some (Inr r, s')"
  defines "key \<equiv> tenantKey t [xi_taskId input]"
  shows "as_archiveSettled (ax_tasks s') = as_archiveSettled (ax_tasks s)"
    and "k \<noteq> key \<Longrightarrow> jget (as_attempts (ax_tasks s')) k = jget (as_attempts (ax_tasks s)) k"
    and "r = Archive_not_found \<Longrightarrow> jget (as_attempts (ax_tasks s)) key = None \<and> s' = s"
    and "r = Archive_refused q \<Longrightarrow> (\<exists>a. jget (as_attempts (ax_tasks s)) key = Some a \<and> ta_archivedAt a = None) \<and> s' = s"
    and "r = Already_archived \<or> r = Archived c \<Longrightarrow> \<exists>a. jget (as_attempts (ax_tasks s')) key = Some a \<and> ta_archivedAt a \<noteq> None"
proof -
  obtain tbl where "step_answer (archive_attempt json_parse t uuid now input tbl s) = Some (Inr r, s')"
    using archive_task_total [OF assms(1), of json_parse t uuid now s] assms(2) by (metis option.inject)
  then have A: "archive_attempt json_parse t uuid now input tbl s = (Inr (Finished r), s')"
    by (auto simp: step_answer_def split: prod.splits sum.splits archive_step.splits)
  have "(r = Archive_not_found \<and> jget (as_attempts (ax_tasks s)) key = None \<and> s' = s) \<or>
    (\<exists>a. jget (as_attempts (ax_tasks s)) key = Some a \<and>
      ((r = Already_archived \<and> ta_archivedAt a \<noteq> None \<and> s' = s) \<or> (\<exists>q. r = Archive_refused q \<and> ta_archivedAt a = None \<and> s' = s) \<or>
       (\<exists>c. r = Archived c) \<and> as_archiveSettled (ax_tasks s') = as_archiveSettled (ax_tasks s) \<and>
         as_attempts (ax_tasks s') = jset key (archived_attempt (xi_archivedAt input) a) (as_attempts (ax_tasks s))))"
    using A archive_write_tasks [of t uuid now input tbl _ _ _ s r s'] unfolding archive_attempt_def Let_def key_def
    by (auto split: option.splits if_splits)
  then show "as_archiveSettled (ax_tasks s') = as_archiveSettled (ax_tasks s)"
    "k \<noteq> key \<Longrightarrow> jget (as_attempts (ax_tasks s')) k = jget (as_attempts (ax_tasks s)) k"
    "r = Archive_not_found \<Longrightarrow> jget (as_attempts (ax_tasks s)) key = None \<and> s' = s"
    "r = Archive_refused q \<Longrightarrow> (\<exists>a. jget (as_attempts (ax_tasks s)) key = Some a \<and> ta_archivedAt a = None) \<and> s' = s"
    "r = Already_archived \<or> r = Archived c \<Longrightarrow> \<exists>a. jget (as_attempts (ax_tasks s')) key = Some a \<and> ta_archivedAt a \<noteq> None"
    by (auto simp: archived_attempt_def)
qed

text \<open>A task of a run: archived, settled and off the board, or still waiting for a later run.\<close>

definition archived_in :: "tenant \<Rightarrow> string \<Rightarrow> archive_world \<Rightarrow> bool" where
  "archived_in t task w = (\<exists>a. jget (as_attempts (ax_tasks (fst w))) (tenantKey t [task]) = Some a \<and> ta_archivedAt a \<noteq> None)"

definition waiting_in :: "tenant \<Rightarrow> string \<Rightarrow> archive_world \<Rightarrow> bool" where
  "waiting_in t task w = (\<exists>a. jget (as_attempts (ax_tasks (fst w))) (tenantKey t [task]) = Some a \<and> ta_archivedAt a = None)"

definition finished_in :: "tenant \<Rightarrow> string \<Rightarrow> archive_world \<Rightarrow> bool" where
  "finished_in t task w =
     (archived_in t task w \<and> jget (as_archiveSettled (ax_tasks (fst w))) (tenantKey t [task]) \<noteq> None \<and> jget (items (snd w)) (tenantKey t [task]) = None)"

text \<open>A unit of a run only moves tasks on.\<close>

definition world_le :: "tenant \<Rightarrow> archive_world \<Rightarrow> archive_world \<Rightarrow> bool" where
  "world_le t w w' =
     (\<forall>task. (archived_in t task w \<longrightarrow> archived_in t task w') \<and> (finished_in t task w \<longrightarrow> finished_in t task w') \<and>
        (waiting_in t task w \<longrightarrow> waiting_in t task w' \<or> finished_in t task w'))"

lemma world_le_refl: "world_le t w w" and world_le_trans: "world_le t a b \<Longrightarrow> world_le t b c \<Longrightarrow> world_le t a c"
  by (auto simp: world_le_def)

lemma settle_unit_finishes: "archived_in t (wk_taskId u) w \<Longrightarrow> finished_in t (wk_taskId u) (settle_unit t now u w)"
  by (cases w) (auto simp: settle_unit_def archived_in_def finished_in_def archive_settle_def board_remove_def Let_def)

lemma settle_unit_le: "world_le t w (settle_unit t now u w)"
  by (cases w) (auto simp: world_le_def settle_unit_def archived_in_def finished_in_def waiting_in_def archive_settle_def board_remove_def Let_def split: option.split)

lemma archive_then_settle:
  assumes "\<And>b. \<exists>m. cd_tombstone (xi_codec input) b = Inr m" and "archive_task json_parse t uuid now input s = Some (Inr r, s')"
    and "xi_taskId input = wk_taskId u" and "r = Already_archived \<or> r = Archived c"
  shows "world_le t (s, b) (settle_unit t at_now u (s', b))" and "finished_in t (wk_taskId u) (settle_unit t at_now u (s', b))"
proof -
  note A = archive_task_attempts [OF assms(1,2), unfolded assms(3)]
  have arch: "archived_in t (wk_taskId u) (s', b)" using A(5) [OF assms(4)] by (simp add: archived_in_def)
  show fin: "finished_in t (wk_taskId u) (settle_unit t at_now u (s', b))" using settle_unit_finishes [OF arch] .
  have key: "tenantKey t [x] = tenantKey t [y] \<longleftrightarrow> x = y" for x y by (simp add: tenantKey_one)
  show "world_le t (s, b) (settle_unit t at_now u (s', b))"
    unfolding world_le_def
  proof (rule allI)
    fix task
    show "(archived_in t task (s, b) \<longrightarrow> archived_in t task (settle_unit t at_now u (s', b))) \<and>
      (finished_in t task (s, b) \<longrightarrow> finished_in t task (settle_unit t at_now u (s', b))) \<and>
      (waiting_in t task (s, b) \<longrightarrow> waiting_in t task (settle_unit t at_now u (s', b)) \<or> finished_in t task (settle_unit t at_now u (s', b)))"
    proof (cases "task = wk_taskId u")
      case True
      then show ?thesis using fin by (simp add: finished_in_def)
    next
      case False
      then have "archived_in t task (s', b) = archived_in t task (s, b)" "finished_in t task (s', b) = finished_in t task (s, b)"
        "waiting_in t task (s', b) = waiting_in t task (s, b)"
        using A(1,2) by (simp_all add: archived_in_def finished_in_def waiting_in_def key)
      then show ?thesis using settle_unit_le [of t "(s', b)" at_now u] by (simp add: world_le_def)
    qed
  qed
qed

text \<open>A unit that a run can work on.\<close>

definition workable :: "tenant \<Rightarrow> archive_world \<Rightarrow> task_archive_work \<Rightarrow> bool" where
  "workable t w u = (archived_in t (wk_taskId u) w \<or> wk_phase u = ArchivePhase \<and> waiting_in t (wk_taskId u) w)"

lemma workable_le: "world_le t w w' \<Longrightarrow> workable t w u \<Longrightarrow> workable t w' u"
  by (auto simp: workable_def world_le_def finished_in_def)

lemma run_units_moves:
  assumes "\<And>x. CONTENT_HASH_PATTERN (digest x)" and "\<And>u. u \<in> set us \<Longrightarrow> workable t w u"
  shows "\<exists>res w'. run_units ntext digest json_parse drawn t now at_now us n w = Some (res, w') \<and>
    (\<forall>n'. res = Inr n' \<longrightarrow> world_le t w w' \<and> (\<forall>u \<in> set us. finished_in t (wk_taskId u) w' \<or> waiting_in t (wk_taskId u) w') \<and>
       ru_settled n' + ru_refused n' = ru_settled n + ru_refused n + int (length us))"
  using assms(2)
proof (induction us arbitrary: n w)
  case Nil
  then show ?case by (cases w) (simp add: world_le_refl)
next
  case (Cons u us)
  obtain s b where w: "w = (s, b)" by (cases w)
  let ?run = "run_units ntext digest json_parse drawn t now at_now"
  let ?goal = "\<lambda>m. \<exists>res w'. m = Some (res, w') \<and> (\<forall>n'. res = Inr n' \<longrightarrow> world_le t w w' \<and>
      (\<forall>x \<in> set (u # us). finished_in t (wk_taskId x) w' \<or> waiting_in t (wk_taskId x) w') \<and>
      ru_settled n' + ru_refused n' = ru_settled n + ru_refused n + int (length (u # us)))"
  have rest: "?goal (?run us m w1)"
    if le: "world_le t w w1" and here: "finished_in t (wk_taskId u) w1 \<or> waiting_in t (wk_taskId u) w1"
      and cnt: "ru_settled m + ru_refused m = ru_settled n + ru_refused n + 1" for m w1
  proof -
    have "workable t w1 x" if "x \<in> set us" for x using workable_le [OF le] Cons.prems that by simp
    then obtain res w' where r: "?run us m w1 = Some (res, w')" "\<And>n'. res = Inr n' \<Longrightarrow> world_le t w1 w' \<and>
        (\<forall>x \<in> set us. finished_in t (wk_taskId x) w' \<or> waiting_in t (wk_taskId x) w') \<and>
        ru_settled n' + ru_refused n' = ru_settled m + ru_refused m + int (length us)"
      using Cons.IH by blast
    have "finished_in t (wk_taskId u) w' \<or> waiting_in t (wk_taskId u) w'" if "world_le t w1 w'"
      using that here by (auto simp: world_le_def)
    then show ?thesis using r world_le_trans [OF le] cnt by fastforce
  qed
  show ?case
  proof (cases "wk_phase u")
    case SettlePhase
    then have "archived_in t (wk_taskId u) w" using Cons.prems [of u] by (simp add: workable_def)
    from rest [OF settle_unit_le disjI1 [OF settle_unit_finishes [OF this]], of "n\<lparr>ru_settled := ru_settled n + 1\<rparr>" at_now] SettlePhase
    show ?thesis unfolding w by simp
  next
    case ArchivePhase
    note phase = this
    show ?thesis
    proof (cases "taskOfferMessageId ntext digest t (wk_taskId u) (wk_deviceId u) (wk_agentRef u)")
      case (Inl e)
      then show ?thesis using phase unfolding w by simp
    next
      case (Inr messageId)
      let ?i = "unit_input ntext digest json_parse messageId at_now u"
      have codec: "\<exists>m. cd_tombstone (xi_codec ?i) b = Inr m" for b
        by (rule sdk_codec_total [OF _ assms(1)]) (simp add: unit_input_def)
      have task: "xi_taskId ?i = wk_taskId u" by (simp add: unit_input_def)
      obtain res s' where a: "archive_task json_parse t (drawn (wk_taskId u)) now ?i s = Some (res, s')"
        using archive_task_total [OF codec] by (metis surj_pair)
      show ?thesis
      proof (cases res)
        case (Inl e)
        then show ?thesis using phase Inr a unfolding w by simp
      next
        case (Inr r)
        note A = archive_task_attempts [OF codec a [unfolded Inr], unfolded task]
        note step = phase \<open>taskOfferMessageId _ _ _ _ _ _ = _\<close> a Inr
        have go: "?goal (?run us m w1)" if "world_le t w w1" "finished_in t (wk_taskId u) w1 \<or> waiting_in t (wk_taskId u) w1"
          "ru_settled m + ru_refused m = ru_settled n + ru_refused n + 1" for m w1 using rest [OF that] .
        note settled = archive_then_settle [where b = b and at_now = at_now, OF codec a [unfolded Inr] task, folded w]
        have fin: "?goal (?run us m (settle_unit t at_now u (s', b)))"
          if "r = Already_archived \<or> r = Archived c" "ru_settled m + ru_refused m = ru_settled n + ru_refused n + 1" for m c
          using go [OF settled(1) [OF that(1)] disjI1 [OF settled(2) [OF that(1)]] that(2)] .
        show ?thesis
        proof (cases r)
          case (Archived c)
          then show ?thesis using step fin [of c "n\<lparr>ru_archived := ru_archived n + 1, ru_settled := ru_settled n + 1\<rparr>"] unfolding w by simp
        next
          case Already_archived
          then show ?thesis using step fin [of _ "n\<lparr>ru_settled := ru_settled n + 1\<rparr>"] unfolding w by simp
        next
          case Archive_not_found
          then have "\<not> workable t w u" using A(3) by (simp add: w workable_def archived_in_def waiting_in_def)
          then show ?thesis using Cons.prems [of u] by simp
        next
          case (Archive_refused q)
          then have "s' = s" "waiting_in t (wk_taskId u) w" using A(4) [of q] by (simp_all add: w waiting_in_def)
          then show ?thesis using step Archive_refused go [OF world_le_refl, of "n\<lparr>ru_refused := ru_refused n + 1\<rparr>"] unfolding w by simp
        qed
      qed
    qed
  qed
qed

lemma listWork_workable:
  assumes "attempts_inv (ax_tasks s)" and "u \<in> set (listWork t archiveBefore limit (ax_tasks s))"
  shows "workable t (s, b) u"
proof -
  obtain a phase where a: "a \<in> set (jvals (as_attempts (ax_tasks s)))" "ta_tenantId a = t" "u = work_of phase a"
    "phase = SettlePhase \<longrightarrow> ta_archivedAt a \<noteq> None"
    using set_slice0 [OF assms(2) [unfolded listWork_def]] by (auto simp: to_settle_def to_archive_def)
  obtain k where k: "(k, a) \<in> set (as_attempts (ax_tasks s))" using a(1) by (auto simp: jvals_def)
  then have "jget (as_attempts (ax_tasks s)) k = Some a" using assms(1) by (simp add: attempts_inv_def jget_Some_iff)
  then have "jget (as_attempts (ax_tasks s)) (tenantKey t [ta_taskId a]) = Some a" using assms(1) a(2) by (auto simp: attempts_inv_def)
  then show ?thesis using a(3,4) by (cases phase) (auto simp: workable_def archived_in_def waiting_in_def work_of_def)
qed

text \<open>
  C26. A run accounts for every task it lists: it returns, and when it returns counts, each listed task is
  archived, settled and off the board, or it was refused and waits for a later run; the counts of
  settled and refused tasks add up to the listed ones.
\<close>

theorem archive_run_settles:
  assumes "attempts_inv (ax_tasks s)" and "\<And>x. CONTENT_HASH_PATTERN (digest x)"
    and work_def: "work = listWork t archiveBefore limit (ax_tasks s)"
  shows "\<exists>res w'. archiveTerminalTasks ntext digest json_parse drawn t now archiveBefore at_now limit (s, b) = Some (res, w') \<and>
    (\<forall>n more_work. res = Inr (n, more_work) \<longrightarrow>
       list_all (\<lambda>u. finished_in t (wk_taskId u) w' \<or> waiting_in t (wk_taskId u) w') work \<and>
       ru_settled n + ru_refused n = int (length work) \<and> (more_work \<longleftrightarrow> int (length work) = limit))"
proof -
  let ?n = "\<lparr>ru_archived = 0, ru_settled = 0, ru_refused = 0\<rparr>"
  have "workable t (s, b) u" if "u \<in> set work" for u using listWork_workable [OF assms(1)] that unfolding work_def by blast
  from run_units_moves [where n = ?n and w = "(s, b)" and t = t and us = work and digest = digest, OF assms(2) this]
  obtain res w' where "run_units ntext digest json_parse drawn t now at_now work ?n (s, b) = Some (res, w')"
    "\<And>n'. res = Inr n' \<Longrightarrow> (\<forall>u \<in> set work. finished_in t (wk_taskId u) w' \<or> waiting_in t (wk_taskId u) w') \<and>
      ru_settled n' + ru_refused n' = ru_settled ?n + ru_refused ?n + int (length work)"
    by blast
  then show ?thesis
    by (cases res) (auto simp: archiveTerminalTasks_def work_def [symmetric] list_all_iff)
qed

section \<open>A concrete archive\<close>

definition sample_tasks :: attempt_state where
  "sample_tasks = snd (run_ops attempt_exec [(''acme'', AOpen ''t'' ''d'' None 1), (''acme'', AAbandon ''t'' Operator 2)] empty_attempts)"

definition sample_archive :: archive_state where
  "sample_archive = \<lparr>ax_tasks = sample_tasks,
     ax_receipts = snd (receipt_record ''acme'' (terminalReceiptKey ''t'') ''a'' 2 []), ax_mailbox = [], ax_activity = [], ax_approvals = [],
     ax_drafts = [], ax_objects = \<lparr>ob_manifest = [], ob_references = [], ob_deleteCursor = []\<rparr>\<rparr>"

definition sample_parse :: "string \<Rightarrow> json option" where
  "sample_parse _ = Some (JObject [])"

definition sample_unit :: task_archive_work where
  "sample_unit = \<lparr>wk_taskId = ''t'', wk_deviceId = ''d'', wk_agentRef = None, wk_phase = ArchivePhase\<rparr>"

definition sample_archive_input :: task_archive_input where
  "sample_archive_input = unit_input (\<lambda>_. []) sample_digest sample_parse ''m'' ''later'' sample_unit"

lemma sample_archive_codec: "xi_codec sample_archive_input = taskRedactionCodec (\<lambda>_. []) sample_digest sample_parse"
  by (simp add: sample_archive_input_def unit_input_def)

lemma sample_abandoned_get:
  "jget (as_attempts sample_tasks) (tenantKey ''acme'' [''t'']) = Some (abandoned (fresh_attempt ''acme'' ''t'' ''d'' None (toISOString 1)) Operator (toISOString 2))"
  by (simp add: sample_tasks_def run_ops_step attempt_open_def abandon_attempt_def empty_attempts_def Let_def fresh_attempt_def unfinished_def
      TASK_ATTEMPT_UNFINISHED_STATUSES_def del: run_ops.simps(2))

lemma sample_archived:
  "\<exists>c s'. archive_task sample_parse ''acme'' ''u'' 3 sample_archive_input sample_archive = Some (Inr (Archived c), s')"
proof -
  have codec: "\<exists>m. cd_tombstone (xi_codec sample_archive_input) b = Inr m" for b
    by (rule sdk_codec_total [OF sample_archive_codec sample_digest_ok])
  obtain tbl x where x: "archive_task sample_parse ''acme'' ''u'' 3 sample_archive_input sample_archive = Some x"
    "step_answer (archive_attempt sample_parse ''acme'' ''u'' 3 sample_archive_input tbl sample_archive) = Some x"
    using archive_task_total [OF codec] by metis
  let ?a = "abandoned (fresh_attempt ''acme'' ''t'' ''d'' None (toISOString 1)) Operator (toISOString 2)"
  have a: "ta_archivedAt ?a = None" "terminal_status (ta_status ?a)"
    by (simp_all add: abandoned_def fresh_attempt_def terminal_status_def)
  have g: "jget (as_attempts (ax_tasks sample_archive)) (tenantKey ''acme'' [xi_taskId sample_archive_input]) = Some ?a"
    using sample_abandoned_get by (simp add: sample_archive_def sample_archive_input_def unit_input_def sample_unit_def)
  have rows: "archive_rows sample_parse ''acme'' (xi_taskId sample_archive_input) ?a (ax_mailbox sample_archive) = []"
    by (simp add: archive_rows_def messagesOf_def sample_archive_def jget_def)
  obtain c s' where "archive_write ''acme'' ''u'' 3 sample_archive_input tbl ?a
      (receipt_bodies ''acme'' (xi_receiptKeys sample_archive_input) (ax_receipts sample_archive)) [] sample_archive = (Inr (Finished (Archived c)), s')"
    by (simp add: archive_write_def Let_def split_beta)
  then have "x = (Inr (Archived c), s')"
    using x(2) by (auto simp: archive_attempt_def Let_def g a rows step_answer_def split: if_splits)
  then show ?thesis using x(1) by blast
qed


lemma sample_mailbox_ok: "mailbox_inv (ax_mailbox sample_archive)"
  by (simp add: sample_archive_def mailbox_inv_def jget_def)

lemma sample_terminal_receipt:
  "receiptBodyOf ''acme'' (terminalReceiptKey ''t'') (ax_receipts sample_archive) = Some ''a''"
  "terminalReceiptKey ''t'' \<in> set (xi_receiptKeys sample_archive_input)" "xi_terminalReceiptKey sample_archive_input = terminalReceiptKey ''t''"
  by (simp_all add: sample_archive_def receipt_record_def receiptBodyOf_def Let_def sample_archive_input_def unit_input_def sample_unit_def)




theorem archive_keeps_fences_witness:
  "\<exists>c s' b'. archive_task sample_parse ''acme'' ''u'' 3 sample_archive_input sample_archive = Some (Inr (Archived c), s') \<and>
     receiptBodyOf ''acme'' (terminalReceiptKey ''t'') (ax_receipts s') = Some b' \<and>
     sameTaskBody (\<lambda>_. []) sample_digest sample_parse b' ''b'' = Inr False"
proof -
  obtain c s' where fin: "archive_task sample_parse ''acme'' ''u'' 3 sample_archive_input sample_archive = Some (Inr (Archived c), s')"
    using sample_archived by blast
  have plain: "\<not> isTaskRedactionTombstone ''a''" "\<not> isTaskRedactionTombstone ''b''"
    by (simp_all add: isTaskRedactionTombstone_def TOMBSTONE_PREFIX_def)
  moreover have "sameTaskBody (\<lambda>_. []) sample_digest sample_parse ''a'' ''b'' = Inr False" using plain by (simp add: sameTaskBody_def)
  moreover have "sample_digest ''a'' \<noteq> sample_digest ''b''" by (simp add: sample_digest_def)
  ultimately show ?thesis
    using archive_keeps_fences [OF sample_archive_codec sample_digest_ok sample_mailbox_ok fin sample_terminal_receipt(2,1), of "''b''"] fin by fastforce
qed

lemma sample_tasks_inv: "attempts_inv sample_tasks"
  unfolding sample_tasks_def by (rule attempt_history.run_inv) simp_all

theorem archive_run_settles_witness:
  "\<exists>res w'. archiveTerminalTasks (\<lambda>_. []) sample_digest sample_parse (\<lambda>_. ''u'') ''acme'' 3 ''z'' ''later'' 10 (sample_archive, \<lparr>items = [], seqByTenant = []\<rparr>) =
     Some (res, w')"
proof -
  have "attempts_inv (ax_tasks sample_archive)" using sample_tasks_inv by (simp add: sample_archive_def)
  from archive_run_settles [where digest = sample_digest, OF this sample_digest_ok refl] show ?thesis by blast
qed

end
