(* ===== verification/Sealed_Bytes.thy ===== *)
theory Sealed_Bytes
  imports Core_Errors "HOL-Library.Word"
begin

text \<open>
  The byte forms of sealed content: canonical base64url
  (\<open>packages/core/src/sealed-provider-secret.ts\<close>), the padded frame of a content
  (\<open>packages/core/src/sealed-payload/sealed-content.ts\<close>), and the checks of the same forms that the
  wire schemas repeat (\<open>packages/protocol/src/sealed-payload.ts\<close>). Bytes are \<open>8 word\<close>s, and the shifts
  and masks of the source work on \<open>32 word\<close>s as the language's bit operators do.
\<close>

unbundle bit_operations_syntax

type_synonym byte = "8 word"

section \<open>The contract of a canonical code\<close>

text \<open>Decoding undoes encoding, and accepts nothing but encodings.\<close>

locale canonical_code =
  fixes enc :: "'a \<Rightarrow> 'b" and dec :: "'b \<Rightarrow> 'a option"
  assumes dec_enc: "dec (enc x) = Some x"
    and dec_Some: "dec y = Some x \<Longrightarrow> y = enc x"
begin

lemma dec_iff: "dec y = Some x \<longleftrightarrow> y = enc x"
  using dec_enc dec_Some by blast

lemma enc_inject: "enc x = enc y \<longleftrightarrow> x = y"
  by (metis dec_enc option.inject)

lemma dec_None: "dec y = None \<longleftrightarrow> y \<notin> range enc"
  using dec_iff [of y] by (cases "dec y") (auto simp: dec_enc)

end

section \<open>Base64url\<close>

definition B64URL_ALPHABET :: string where
  "B64URL_ALPHABET = ''ABCDEFGHIJKLMNOPQRSTUVWXYZabcdefghijklmnopqrstuvwxyz0123456789-_''"

text \<open>\<open>/^[A-Za-z0-9_-]*$/\<close>.\<close>

definition B64URL_PATTERN :: "string \<Rightarrow> bool" where
  "B64URL_PATTERN = list_all (\<lambda>c. CHR ''A'' \<le> c \<and> c \<le> CHR ''Z'' \<or> CHR ''a'' \<le> c \<and> c \<le> CHR ''z'' \<or>
     CHR ''0'' \<le> c \<and> c \<le> CHR ''9'' \<or> c = CHR ''_'' \<or> c = CHR ''-'')"

text \<open>\<open>B64URL_ALPHABET[w]\<close> and \<open>B64URL_ALPHABET.indexOf(c)\<close>, which is \<open>-1\<close> for other characters.\<close>

definition b64_char :: "32 word \<Rightarrow> char" where
  "b64_char w = B64URL_ALPHABET ! unat w"

definition b64_index :: "char \<Rightarrow> 32 word" where
  "b64_index c = (let n = length (takeWhile (\<lambda>d. d \<noteq> c) B64URL_ALPHABET) in if n < 64 then of_nat n else -1)"

fun encodeBase64Url :: "byte list \<Rightarrow> string" where
  "encodeBase64Url (a # b # c # rest) =
     (let v = push_bit 16 (ucast a) OR push_bit 8 (ucast b) OR ucast c :: 32 word
      in [b64_char (signed_drop_bit 18 v AND 63), b64_char (signed_drop_bit 12 v AND 63),
          b64_char (signed_drop_bit 6 v AND 63), b64_char (v AND 63)] @ encodeBase64Url rest)"
| "encodeBase64Url [a, b] =
     (let v = push_bit 16 (ucast a) OR push_bit 8 (ucast b) :: 32 word
      in [b64_char (signed_drop_bit 18 v AND 63), b64_char (signed_drop_bit 12 v AND 63), b64_char (signed_drop_bit 6 v AND 63)])"
| "encodeBase64Url [a] =
     (let v = push_bit 16 (ucast a) :: 32 word
      in [b64_char (signed_drop_bit 18 v AND 63), b64_char (signed_drop_bit 12 v AND 63)])"
| "encodeBase64Url [] = []"

text \<open>
  The loop of the decoder: \<open>buffer\<close> keeps the last 32 bits, \<open>out\<close> is the typed array, in which a
  write out of range has no effect.
\<close>

fun b64_loop :: "string \<Rightarrow> 32 word \<Rightarrow> nat \<Rightarrow> nat \<Rightarrow> byte list \<Rightarrow> byte list" where
  "b64_loop [] buffer bits offset out = out"
| "b64_loop (c # cs) buffer bits offset out =
     (let buffer = push_bit 6 buffer OR b64_index c; bits = bits + 6
      in if bits \<ge> 8 then b64_loop cs buffer (bits - 8) (offset + 1)
           (out[offset := ucast (signed_drop_bit (bits - 8) buffer AND 0xFF)])
         else b64_loop cs buffer bits offset out)"

definition decodeBase64Url :: "string \<Rightarrow> (unit, byte list) result" where
  "decodeBase64Url v =
     (if \<not> B64URL_PATTERN v \<or> length v mod 4 = 1 then Inl (ByokCoreError Sealed_secret_invalid)
      else let out = b64_loop v 0 0 0 (replicate (length v * 3 div 4) 0)
        in if encodeBase64Url out \<noteq> v then Inl (ByokCoreError Sealed_secret_invalid) else Inr out)"

text \<open>\<open>sealedBase64UrlByteLength\<close> of the protocol package: the length without the bytes.\<close>

definition sealedBase64UrlByteLength :: "string \<Rightarrow> nat option" where
  "sealedBase64UrlByteLength v =
     (if \<not> B64URL_PATTERN v then None
      else let tail = length v mod 4
        in if tail = 1 then None
           else if tail \<noteq> 0 \<and> b64_index (last v) AND (if tail = 2 then 15 else 3) \<noteq> 0 then None
           else Some (length v div 4 * 3 + (if tail = 0 then 0 else tail - 1)))"

subsection \<open>Sextets\<close>

lemma b64_index_char: "unat w < 64 \<Longrightarrow> b64_index (b64_char w) = w"
proof -
  assume w: "unat w < 64"
  have "\<forall>n < 64. length (takeWhile (\<lambda>d. d \<noteq> B64URL_ALPHABET ! n) B64URL_ALPHABET) = n"
    by code_simp
  then have "length (takeWhile (\<lambda>d. d \<noteq> b64_char w) B64URL_ALPHABET) = unat w"
    using w by (simp add: b64_char_def)
  then show ?thesis using w by (simp add: b64_index_def)
qed

lemma mask_literals: "(63 :: 32 word) = mask 6" "(255 :: 32 word) = mask 8" "(15 :: 32 word) = mask 4" "(3 :: 32 word) = mask 2"
  by (simp_all add: mask_eq_exp_minus_1)

lemma sextet_bound: "unat (w AND 63 :: 32 word) < 64"
proof -
  have "unat (w AND 63) \<le> unat (63 :: 32 word)" by (rule word_and_le1 [THEN word_le_nat_alt [THEN iffD1]])
  then show ?thesis by simp
qed

lemma b64_index_sextet [simp]: "b64_index (b64_char (w AND 63)) = w AND 63"
  by (rule b64_index_char) (rule sextet_bound)

lemma byte_bit: "bit (b :: byte) k \<Longrightarrow> k < 8"
  using bit_imp_le_length [of b k] by simp

lemma byte_bit_out [simp]: "8 \<le> k \<Longrightarrow> \<not> bit (b :: byte) k"
  using bit_imp_le_length [of b k] by auto

lemma minus_two_plus: "2 \<le> n \<Longrightarrow> Suc (Suc (n - 2)) = n" "4 \<le> n \<Longrightarrow> Suc (Suc (Suc (Suc (n - 4)))) = n"
  "6 \<le> n \<Longrightarrow> 6 + (n - 6) = n"
  by simp_all

text \<open>The group of three bytes and its four characters.\<close>

definition b64_group :: "byte \<Rightarrow> byte \<Rightarrow> byte \<Rightarrow> 32 word" where
  "b64_group a b c = push_bit 16 (ucast a) OR push_bit 8 (ucast b) OR ucast c"

definition sextet :: "nat \<Rightarrow> 32 word \<Rightarrow> 32 word" where
  "sextet k v = signed_drop_bit k v AND 63"

definition b64_feed :: "32 word \<Rightarrow> 32 word \<Rightarrow> 32 word" where
  "b64_feed buffer s = push_bit 6 buffer OR s"

definition take_byte :: "nat \<Rightarrow> 32 word \<Rightarrow> byte" where
  "take_byte k buffer = ucast (signed_drop_bit k buffer AND 0xFF)"

lemmas group_bits = b64_group_def sextet_def b64_feed_def take_byte_def mask_literals

lemma bit_take_byte: "k \<le> 8 \<Longrightarrow> bit (take_byte k w) n \<longleftrightarrow> n < 8 \<and> bit w (n + k)"
  unfolding group_bits by (auto simp: bit_simps ac_simps)

lemma bit_b64_feed: "bit (b64_feed w s) n \<longleftrightarrow> n < 32 \<and> (6 \<le> n \<and> bit w (n - 6) \<or> bit s n)"
  unfolding group_bits by (auto simp: bit_simps dest: bit_imp_le_length)

lemma bit_sextet: "k \<le> 18 \<Longrightarrow> bit (sextet k v) n \<longleftrightarrow> n < 6 \<and> bit v (n + k)"
  unfolding group_bits by (auto simp: bit_simps ac_simps)

lemma bit_b64_group:
  "bit (b64_group a b c) n \<longleftrightarrow> (if n < 8 then bit c n else if n < 16 then bit b (n - 8) else n < 24 \<and> bit a (n - 16))"
  unfolding group_bits by (auto simp: bit_simps dest: byte_bit)

lemmas bits_of_group = bit_take_byte bit_b64_feed bit_sextet bit_b64_group minus_two_plus not_less

lemma decode_group:
  "take_byte 4 (b64_feed (b64_feed w (sextet 18 (b64_group a b c))) (sextet 12 (b64_group a b c))) = a"
  "take_byte 2 (b64_feed (b64_feed w' (sextet 12 (b64_group a b c))) (sextet 6 (b64_group a b c))) = b"
  "take_byte 0 (b64_feed (b64_feed w'' (sextet 6 (b64_group a b c))) (sextet 0 (b64_group a b c))) = c"
  by (rule bit_word_eqI; auto simp: bits_of_group)+

lemma encode_groups:
  "encodeBase64Url (a # b # c # rest) =
     map (\<lambda>k. b64_char (sextet k (b64_group a b c))) [18, 12, 6, 0] @ encodeBase64Url rest"
  "encodeBase64Url [a, b] = map (\<lambda>k. b64_char (sextet k (b64_group a b 0))) [18, 12, 6]"
  "encodeBase64Url [a] = map (\<lambda>k. b64_char (sextet k (b64_group a 0 0))) [18, 12]"
  by (simp_all add: Let_def sextet_def b64_group_def)

lemma b64_loop_step:
  "b64_loop (c # cs) buffer 0 k out = b64_loop cs (b64_feed buffer (b64_index c)) 6 k out"
  "b64_loop (c # cs) buffer 6 k out = b64_loop cs (b64_feed buffer (b64_index c)) 4 (k + 1) (out[k := take_byte 4 (b64_feed buffer (b64_index c))])"
  "b64_loop (c # cs) buffer 4 k out = b64_loop cs (b64_feed buffer (b64_index c)) 2 (k + 1) (out[k := take_byte 2 (b64_feed buffer (b64_index c))])"
  "b64_loop (c # cs) buffer 2 k out = b64_loop cs (b64_feed buffer (b64_index c)) 0 (k + 1) (out[k := take_byte 0 (b64_feed buffer (b64_index c))])"
  by (simp_all add: Let_def b64_feed_def take_byte_def)

lemma b64_index_of_sextet [simp]: "b64_index (b64_char (sextet k v)) = sextet k v"
  by (simp add: sextet_def)

lemma b64_loop_encode:
  "b64_loop (encodeBase64Url bs) w 0 (length pre) (pre @ replicate (length bs) 0) = pre @ bs"
proof (induction bs arbitrary: w pre rule: encodeBase64Url.induct)
  case (1 a b c rest)
  show ?case using "1" [OF refl, of _ "pre @ [a, b, c]"]
    by (simp add: encode_groups b64_loop_step decode_group list_update_append numeral_3_eq_3 del: b64_loop.simps encodeBase64Url.simps)
qed (simp_all add: encode_groups b64_loop_step decode_group list_update_append del: b64_loop.simps(2) encodeBase64Url.simps(1-3))

lemma b64_alphabet_pattern: "list_all (\<lambda>c. B64URL_PATTERN [c]) B64URL_ALPHABET"
  by code_simp

lemma pattern_append [simp]: "B64URL_PATTERN (s @ s') \<longleftrightarrow> B64URL_PATTERN s \<and> B64URL_PATTERN s'"
  by (auto simp: B64URL_PATTERN_def)

lemma pattern_Cons: "B64URL_PATTERN (c # s) \<longleftrightarrow> B64URL_PATTERN [c] \<and> B64URL_PATTERN s"
  using pattern_append [of "[c]" s] by simp

lemma pattern_Nil [simp]: "B64URL_PATTERN []"
  by (simp add: B64URL_PATTERN_def)

lemma sextet_lt: "unat (sextet k v) < 64"
  by (simp add: sextet_def sextet_bound)

lemma pattern_sextet [simp]: "B64URL_PATTERN [b64_char (sextet k v)]"
proof -
  have "length B64URL_ALPHABET = 64" by code_simp
  then show ?thesis using b64_alphabet_pattern sextet_lt [of k v] by (simp add: b64_char_def list_all_length)
qed

lemma encode_pattern: "B64URL_PATTERN (encodeBase64Url bs)"
  by (induction bs rule: encodeBase64Url.induct)
    (simp_all add: encode_groups pattern_Cons [of _ "_ # _"] pattern_Cons [of _ "encodeBase64Url _"] del: encodeBase64Url.simps(1-3))

lemma encode_length: "length (encodeBase64Url bs) = length bs div 3 * 4 + (if length bs mod 3 = 0 then 0 else length bs mod 3 + 1)"
  by (induction bs rule: encodeBase64Url.induct) (simp_all add: Let_def)

lemma encode_length_decoded: "length (encodeBase64Url bs) mod 4 \<noteq> 1" "length (encodeBase64Url bs) * 3 div 4 = length bs"
  "length (encodeBase64Url bs) div 4 * 3 + (if length (encodeBase64Url bs) mod 4 = 0 then 0 else length (encodeBase64Url bs) mod 4 - 1) = length bs"
proof -
  let ?e = "length (encodeBase64Url bs)"
  define q r where "q = length bs div 3" and "r = length bs mod 3"
  then have l: "length bs = 3 * q + r" and e: "?e = 4 * q + (if r = 0 then 0 else r + 1)" and "r < 3"
    by (simp_all add: encode_length)
  then consider "r = 0" | "r = 1" | "r = 2" by linarith
  then consider "length bs = 3 * q" "?e = 4 * q" | "length bs = 3 * q + 1" "?e = 4 * q + 2" | "length bs = 3 * q + 2" "?e = 4 * q + 3"
    by cases (simp_all add: l e)
  note C = this
  show "?e mod 4 \<noteq> 1" by (rule C) presburger+
  show "?e * 3 div 4 = length bs" by (rule C) presburger+
  show "?e div 4 * 3 + (if ?e mod 4 = 0 then 0 else ?e mod 4 - 1) = length bs" by (rule C) presburger+
qed

lemma decode_encode: "decodeBase64Url (encodeBase64Url bs) = Inr bs"
  using b64_loop_encode [of bs 0 "[]"] by (simp add: decodeBase64Url_def encode_pattern encode_length_decoded [unfolded One_nat_def])

lemma decode_Inr: "decodeBase64Url v = Inr bs \<longleftrightarrow> v = encodeBase64Url bs"
proof
  assume "decodeBase64Url v = Inr bs"
  then show "v = encodeBase64Url bs" by (auto simp: decodeBase64Url_def Let_def split: if_splits)
qed (simp add: decode_encode)

interpretation b64: canonical_code encodeBase64Url "\<lambda>v. case decodeBase64Url v of Inl _ \<Rightarrow> None | Inr bs \<Rightarrow> Some bs"
  by unfold_locales (simp add: decode_encode, simp add: decode_Inr split: sum.splits)

subsection \<open>The length check of the wire\<close>

text \<open>Sextets below 64 whose unused bits are zero are the sextets of some bytes.\<close>

lemma exp_64: "(64 :: nat) = 2 ^ 6"
  by simp

lemma sextet_word: "unat s < 64 \<Longrightarrow> bit (s :: 32 word) n \<Longrightarrow> n < 6"
proof (rule ccontr)
  assume s: "unat s < 64" "bit s n" "\<not> n < 6"
  have "take_bit 6 s = s" using s(1) by (metis take_bit_nat_eq_self unsigned_take_bit_eq word_unat_eq_iff exp_64)
  then show False using s(2,3) by (metis bit_take_bit_iff)
qed

lemma encode_group_back:
  assumes "unat s0 < 64" and "unat s1 < 64" and "unat s2 < 64" and "unat s3 < 64"
  defines "g \<equiv> b64_group (take_byte 4 (b64_feed s0 s1)) (take_byte 2 (b64_feed s1 s2)) (take_byte 0 (b64_feed s2 s3))"
  shows "sextet 18 g = s0" "sextet 12 g = s1" "sextet 6 g = s2" "sextet 0 g = s3"
  unfolding g_def
  by (rule bit_word_eqI; auto simp: bits_of_group dest: assms(1-4) [THEN sextet_word])+

lemma alphabet_codes: "B64URL_ALPHABET = map char_of ([65..<91] @ [97..<123] @ [48..<58] @ [45, 95 :: nat])"
  by code_simp

lemma pattern_alphabet: "B64URL_PATTERN [c] \<Longrightarrow> c \<in> set B64URL_ALPHABET"
proof -
  assume "B64URL_PATTERN [c]"
  then have "of_char c \<in> set ([65..<91] @ [97..<123] @ [48..<58] @ [45, 95 :: nat])"
    unfolding set_append set_upt by (auto simp: B64URL_PATTERN_def less_eq_char_def)
  then have "char_of (of_char c :: nat) \<in> set B64URL_ALPHABET" unfolding alphabet_codes set_map by (rule imageI)
  then show ?thesis by simp
qed

lemma b64_char_index: "B64URL_PATTERN [c] \<Longrightarrow> unat (b64_index c) < 64 \<and> b64_char (b64_index c) = c"
proof -
  assume c: "B64URL_PATTERN [c]"
  let ?n = "length (takeWhile (\<lambda>d. d \<noteq> c) B64URL_ALPHABET)"
  have len: "length B64URL_ALPHABET = 64" by code_simp
  have "takeWhile (\<lambda>d. d \<noteq> c) B64URL_ALPHABET \<noteq> B64URL_ALPHABET"
    using pattern_alphabet [OF c] by (auto simp: takeWhile_eq_all_conv)
  then have n: "?n < 64" unfolding len [symmetric] by (metis length_takeWhile_le nat_less_le take_all takeWhile_eq_take order_refl)
  then have "B64URL_ALPHABET ! ?n = c"
    using nth_length_takeWhile [of "\<lambda>d. d \<noteq> c" B64URL_ALPHABET] by (simp add: len)
  then show ?thesis using n by (simp add: b64_index_def b64_char_def unat_of_nat)
qed


lemma low_bits_zero: "w AND mask k = 0 \<Longrightarrow> n < k \<Longrightarrow> \<not> bit (w :: 32 word) n"
  using bit_imp_le_length [of w n] by (auto simp: bit_eq_iff bit_simps)

lemma unused_bits:
  "s AND 15 = 0 \<Longrightarrow> take_byte 2 (b64_feed s 0) = 0" "s AND 3 = 0 \<Longrightarrow> take_byte 0 (b64_feed s 0) = 0" "take_byte 0 (b64_feed 0 0) = 0"
proof -
  show "take_byte 2 (b64_feed s 0) = 0" if "s AND 15 = 0"
    by (rule bit_word_eqI) (use low_bits_zero [OF that [unfolded mask_literals]] in \<open>force simp: bits_of_group\<close>)
  show "take_byte 0 (b64_feed s 0) = 0" if "s AND 3 = 0"
    by (rule bit_word_eqI) (use low_bits_zero [OF that [unfolded mask_literals]] in \<open>force simp: bits_of_group\<close>)
  show "take_byte 0 (b64_feed 0 0) = 0" by (rule bit_word_eqI) (auto simp: bits_of_group)
qed

lemma sextet_chars:
  assumes "B64URL_PATTERN v" and "c \<in> set v"
  shows "unat (b64_index c) < 64" "b64_char (b64_index c) = c"
  using assms b64_char_index [of c] by (auto simp: B64URL_PATTERN_def list_all_iff)

lemma encode_back2:
  assumes "B64URL_PATTERN [c0, c1]" and "b64_index c1 AND 15 = 0"
  shows "\<exists>a. encodeBase64Url [a] = [c0, c1]"
  using encode_group_back [of "b64_index c0" "b64_index c1" 0 0] sextet_chars [OF assms(1)] unused_bits(1) [OF assms(2)] unused_bits(3)
  by (intro exI [of _ "take_byte 4 (b64_feed (b64_index c0) (b64_index c1))"]) (simp add: encode_groups del: encodeBase64Url.simps)

lemma encode_back3:
  assumes "B64URL_PATTERN [c0, c1, c2]" and "b64_index c2 AND 3 = 0"
  shows "\<exists>a b. encodeBase64Url [a, b] = [c0, c1, c2]"
  using encode_group_back [of "b64_index c0" "b64_index c1" "b64_index c2" 0] sextet_chars [OF assms(1)] unused_bits(2) [OF assms(2)]
  by (intro exI [of _ "take_byte 4 (b64_feed (b64_index c0) (b64_index c1))"] exI [of _ "take_byte 2 (b64_feed (b64_index c1) (b64_index c2))"])
    (simp add: encode_groups del: encodeBase64Url.simps)

lemma encode_back4:
  assumes "B64URL_PATTERN [c0, c1, c2, c3]"
  shows "\<exists>a b c. encodeBase64Url [a, b, c] = [c0, c1, c2, c3]"
  using encode_group_back [of "b64_index c0" "b64_index c1" "b64_index c2" "b64_index c3"] sextet_chars [OF assms]
  by (intro exI [of _ "take_byte 4 (b64_feed (b64_index c0) (b64_index c1))"] exI [of _ "take_byte 2 (b64_feed (b64_index c1) (b64_index c2))"]
      exI [of _ "take_byte 0 (b64_feed (b64_index c2) (b64_index c3))"])
    (simp add: encode_groups del: encodeBase64Url.simps(1-3))

lemma encode_triple: "encodeBase64Url (a # b # c # bs) = encodeBase64Url [a, b, c] @ encodeBase64Url bs"
  by (simp add: Let_def)

text \<open>The length check accepts exactly the encodings, with the length of what they encode.\<close>

lemma length_check_back: "sealedBase64UrlByteLength v = Some n \<Longrightarrow> \<exists>bs. v = encodeBase64Url bs"
proof (induction v arbitrary: n rule: length_induct)
  case (1 v)
  have p: "B64URL_PATTERN v" "length v mod 4 \<noteq> 1" using "1.prems" by (auto simp: sealedBase64UrlByteLength_def Let_def split: if_splits)
  consider (e) "v = []" | (one) c0 where "v = [c0]" | (two) c0 c1 where "v = [c0, c1]" | (three) c0 c1 c2 where "v = [c0, c1, c2]"
    | (four) c0 c1 c2 c3 rest where "v = [c0, c1, c2, c3] @ rest"
    by (metis append_Cons append_Nil neq_Nil_conv)
  then show ?case
  proof cases
    case e
    then show ?thesis using encodeBase64Url.simps(4) by metis
  next
    case one
    then show ?thesis using p(2) by simp
  next
    case two
    then have "b64_index c1 AND 15 = 0" using "1.prems" by (auto simp: sealedBase64UrlByteLength_def split: if_splits)
    then show ?thesis using encode_back2 [of c0 c1] p two by metis
  next
    case three
    then have "b64_index c2 AND 3 = 0" using "1.prems" by (auto simp: sealedBase64UrlByteLength_def split: if_splits)
    then show ?thesis using encode_back3 [of c0 c1 c2] p three by metis
  next
    case four
    obtain a b c where g: "encodeBase64Url [a, b, c] = [c0, c1, c2, c3]" using encode_back4 [of c0 c1 c2 c3] p(1) unfolding four pattern_append by blast
    have "\<exists>m. sealedBase64UrlByteLength rest = Some m"
      using "1.prems" p(1) unfolding four pattern_append
      by (cases "rest = []") (auto simp: sealedBase64UrlByteLength_def Let_def split: if_splits)
    then obtain bs where "rest = encodeBase64Url bs" using "1.IH" [rule_format, of rest] four by auto
    then show ?thesis using g four encode_triple by metis
  qed
qed

lemma encode_last_unused:
  assumes "length bs mod 3 \<noteq> 0"
  shows "encodeBase64Url bs \<noteq> [] \<and> b64_index (last (encodeBase64Url bs)) AND (if length bs mod 3 = 1 then 15 else 3) = 0"
  using assms
proof (induction bs rule: encodeBase64Url.induct)
  case (1 a b c rest)
  have "length rest mod 3 \<noteq> 0" "(length (a # b # c # rest) mod 3 = 1) = (length rest mod 3 = 1)" using "1.prems" by auto
  then show ?case using "1.IH" [OF refl] by (simp add: encode_groups del: encodeBase64Url.simps)
next
  case (2 a b)
  have "sextet 6 (b64_group a b 0) AND mask 2 = 0" by (rule bit_word_eqI) (auto simp: bit_simps bits_of_group)
  then show ?case by (simp add: encode_groups mask_literals del: encodeBase64Url.simps)
next
  case (3 a)
  have "sextet 12 (b64_group a 0 0) AND mask 4 = 0" by (rule bit_word_eqI) (auto simp: bit_simps bits_of_group)
  then show ?case by (simp add: encode_groups mask_literals del: encodeBase64Url.simps)
qed simp

lemma encode_tail: "length (encodeBase64Url bs) mod 4 = (if length bs mod 3 = 0 then 0 else length bs mod 3 + 1)"
proof -
  have "length bs mod 3 < 3" by simp
  then show ?thesis unfolding encode_length by (simp add: mod_less)
qed

lemma length_check_encode: "sealedBase64UrlByteLength (encodeBase64Url bs) = Some (length bs)"
proof -
  have "length bs mod 3 \<noteq> 0 \<Longrightarrow> (length bs mod 3 = 1) = (length (encodeBase64Url bs) mod 4 = 2)" by (simp add: encode_tail)
  then have "length (encodeBase64Url bs) mod 4 \<noteq> 0 \<Longrightarrow>
      b64_index (last (encodeBase64Url bs)) AND (if length (encodeBase64Url bs) mod 4 = 2 then 15 else 3) = 0"
    using encode_last_unused [of bs] by (simp add: encode_tail split: if_splits)
  then show ?thesis using encode_length_decoded [of bs] unfolding sealedBase64UrlByteLength_def Let_def
    by (cases "length (encodeBase64Url bs) mod 4 = 0"; cases "length (encodeBase64Url bs) mod 4 = 2") (simp_all add: encode_pattern)
qed

text \<open>
  C32. The wire's length check and the decoder agree: \<open>sealedBase64UrlByteLength\<close> accepts a text exactly
  when \<open>decodeBase64Url\<close> decodes it, with the length of the bytes it decodes to, and both accept exactly
  the texts that \<open>encodeBase64Url\<close> writes, so one byte string has one legal text.
\<close>

theorem base64url_canonical:
  "(decodeBase64Url v = Inr bs) = (v = encodeBase64Url bs) \<and>
   (sealedBase64UrlByteLength v = Some n) = (\<exists>cs. length cs = n \<and> decodeBase64Url v = Inr cs) \<and>
   (encodeBase64Url bs = encodeBase64Url cs) = (bs = cs)"
proof -
  have "(sealedBase64UrlByteLength v = Some n) = (\<exists>cs. length cs = n \<and> v = encodeBase64Url cs)"
    using length_check_back [of v n] length_check_encode by (metis option.inject)
  then show ?thesis using b64.enc_inject by (simp add: decode_Inr)
qed

section \<open>Padding\<close>

definition FRAME_HEADER_BYTES :: nat where "FRAME_HEADER_BYTES = 4"
definition ALIGNED_FRAME_LIMIT :: nat where "ALIGNED_FRAME_LIMIT = 16 * 1024"
definition FRAME_ALIGNMENT :: nat where "FRAME_ALIGNMENT = 256"
definition MAX_CONTENT_LENGTH :: int where "MAX_CONTENT_LENGTH = 0xFFFFFFFF"
definition SEALED_PAYLOAD_MAX_CONTENT_LENGTH :: nat where "SEALED_PAYLOAD_MAX_CONTENT_LENGTH = 2 * 1024 * 1024"

fun log2_loop :: "nat \<Rightarrow> nat \<Rightarrow> nat" where
  "log2_loop remaining exponent = (if remaining \<ge> 2 then log2_loop (remaining div 2) (exponent + 1) else exponent)"

declare log2_loop.simps [simp del]

definition floorLog2 :: "nat \<Rightarrow> nat" where
  "floorLog2 n = log2_loop n 0"

text \<open>\<open>Math.ceil(n / step) * step\<close>: the quotient by a power of two is exact below \<open>2 ^ 53\<close>.\<close>

definition ceil_to :: "nat \<Rightarrow> nat \<Rightarrow> nat" where
  "ceil_to step n = (n + (step - 1)) div step * step"

definition padded :: "nat \<Rightarrow> nat" where
  "padded n =
     (if n \<le> ALIGNED_FRAME_LIMIT then ceil_to FRAME_ALIGNMENT n
      else let exponent = floorLog2 n; step = 2 ^ (exponent - (floorLog2 exponent + 1)) in ceil_to step n)"

definition sealedPaddedLength :: "jsnum \<Rightarrow> (unit, int) result" where
  "sealedPaddedLength frameLength =
     (if \<not> isSafeInteger frameLength \<or> num_int frameLength < int FRAME_HEADER_BYTES then Inl (ByokCoreError Sealed_secret_invalid)
      else Inr (int (padded (nat (num_int frameLength)))))"

definition isLegalPaddedLength :: "jsnum \<Rightarrow> bool" where
  "isLegalPaddedLength v =
     (isSafeInteger v \<and> num_int v \<ge> int FRAME_ALIGNMENT \<and> sealedPaddedLength v = Inr (num_int v))"

text \<open>The copies of the protocol package: a language error, and the limit of one content.\<close>

definition sealedPayloadPaddedLength :: "jsnum \<Rightarrow> (unit, int) result" where
  "sealedPayloadPaddedLength frameLength =
     (if \<not> isSafeInteger frameLength \<or> num_int frameLength < int FRAME_HEADER_BYTES then Inl RangeError
      else Inr (int (padded (nat (num_int frameLength)))))"

definition SEALED_PAYLOAD_MAX_PADDED_LENGTH :: int where
  "SEALED_PAYLOAD_MAX_PADDED_LENGTH = int (padded (FRAME_HEADER_BYTES + SEALED_PAYLOAD_MAX_CONTENT_LENGTH))"

definition isLegalWireLength :: "jsnum \<Rightarrow> bool" where
  "isLegalWireLength v =
     (isSafeInteger v \<and> num_int v \<ge> int FRAME_ALIGNMENT \<and> num_int v \<le> SEALED_PAYLOAD_MAX_PADDED_LENGTH \<and>
      sealedPayloadPaddedLength v = Inr (num_int v))"

lemma log2_loop_bounds: "n \<ge> 1 \<Longrightarrow> 2 ^ log2_loop n e \<le> n * 2 ^ e \<and> n * 2 ^ e < 2 ^ Suc (log2_loop n e)"
proof (induction n e rule: log2_loop.induct)
  case (1 n e)
  show ?case
  proof (cases "n \<ge> 2")
    case True
    then have IH: "2 ^ log2_loop n e \<le> n div 2 * 2 ^ (e + 1)" "n div 2 * 2 ^ (e + 1) < 2 ^ Suc (log2_loop n e)"
      using 1 by (simp_all add: log2_loop.simps [of n e])
    have "e < log2_loop n e"
    proof (rule ccontr)
      assume "\<not> e < log2_loop n e"
      then have "(2 :: nat) ^ Suc (log2_loop n e) \<le> 2 ^ (e + 1)" by (intro power_increasing) auto
      moreover have "1 * 2 ^ (e + 1) \<le> n div 2 * 2 ^ (e + 1)" using True by (intro mult_le_mono1) simp
      ultimately show False using IH(2) by linarith
    qed
    then obtain k where k: "log2_loop n e = e + 1 + k" using less_iff_Suc_add [of e] by auto
    have "n div 2 * 2 ^ (e + 1) < 2 ^ Suc k * 2 ^ (e + 1)" using IH(2) unfolding k by (simp add: power_add ac_simps)
    then have "n div 2 < 2 ^ Suc k" by simp
    then have "n < 2 * 2 ^ Suc k" by linarith
    then have "n * 2 ^ e < 2 * 2 ^ Suc k * 2 ^ e" by (intro mult_strict_right_mono) simp_all
    moreover have "n div 2 * 2 ^ (e + 1) \<le> n * 2 ^ e" using div_times_less_eq_dividend [of n 2] by simp
    ultimately show ?thesis using IH(1) unfolding k by (simp add: power_add ac_simps)
  next
    case False
    then show ?thesis using 1 by (simp add: log2_loop.simps [of n e])
  qed
qed

lemma floorLog2_bounds: "n \<ge> 1 \<Longrightarrow> 2 ^ floorLog2 n \<le> n \<and> n < 2 ^ Suc (floorLog2 n)"
  using log2_loop_bounds [of n 0] by (simp add: floorLog2_def)

lemma floorLog2_eqI: "2 ^ k \<le> n \<Longrightarrow> n < 2 ^ Suc k \<Longrightarrow> floorLog2 n = k"
proof -
  assume k: "2 ^ k \<le> n" "n < 2 ^ Suc k"
  have n: "n \<ge> 1" using k(1) by (metis one_le_numeral one_le_power order_trans)
  have "(2 :: nat) ^ k < 2 ^ Suc (floorLog2 n)" "(2 :: nat) ^ floorLog2 n < 2 ^ Suc k" using floorLog2_bounds [OF n] k by linarith+
  then have "k < Suc (floorLog2 n)" "floorLog2 n < Suc k" by (simp_all only: power_strict_increasing_iff one_less_numeral_iff semiring_norm)
  then show ?thesis by simp
qed

lemma floorLog2_mono: "1 \<le> m \<Longrightarrow> m \<le> n \<Longrightarrow> floorLog2 m \<le> floorLog2 n"
proof -
  assume m: "1 \<le> m" "m \<le> n"
  then have "(2 :: nat) ^ floorLog2 m < 2 ^ Suc (floorLog2 n)" using floorLog2_bounds [of m] floorLog2_bounds [of n] by linarith
  then have "floorLog2 m < Suc (floorLog2 n)" by (simp only: power_strict_increasing_iff one_less_numeral_iff semiring_norm)
  then show ?thesis by simp
qed

lemma ceil_to_props:
  assumes "step > 0"
  shows "n \<le> ceil_to step n" "ceil_to step n < n + step" "step dvd ceil_to step n"
proof -
  have "n + (step - 1) = (n + (step - 1)) div step * step + (n + (step - 1)) mod step" by simp
  moreover have "(n + (step - 1)) mod step < step" using assms by simp
  ultimately show "n \<le> ceil_to step n" "ceil_to step n < n + step" using assms unfolding ceil_to_def by linarith+
  show "step dvd ceil_to step n" by (simp add: ceil_to_def)
qed

lemma ceil_to_least: "step > 0 \<Longrightarrow> step dvd q \<Longrightarrow> n \<le> q \<Longrightarrow> ceil_to step n \<le> q"
proof -
  assume s: "step > 0" "step dvd q" "n \<le> q"
  obtain k l where k: "q = step * k" "ceil_to step n = step * l" using s(2) ceil_to_props(3) [OF s(1), of n] unfolding dvd_def by blast
  have "step * l < step * (k + 1)" using ceil_to_props(2) [OF s(1), of n] s(3) k by simp
  then have "l < k + 1" by (simp only: mult_less_cancel1)
  then show ?thesis by (simp add: k)
qed

lemma ceil_to_fixed: "step > 0 \<Longrightarrow> step dvd n \<Longrightarrow> ceil_to step n = n"
  using ceil_to_least [of step n n] ceil_to_props(1) [of step n] by simp

lemma ceil_to_mono: "step > 0 \<Longrightarrow> m \<le> n \<Longrightarrow> ceil_to step m \<le> ceil_to step n"
  using ceil_to_props [of step n] by (intro ceil_to_least) auto

text \<open>Above 16 KiB: the step divides both ends of its octave and is less than a sixteenth of the length.\<close>

definition pad_step :: "nat \<Rightarrow> nat" where
  "pad_step e = 2 ^ (e - (floorLog2 e + 1))"

lemma pad_step_dvd: "pad_step e dvd 2 ^ e" "pad_step e dvd 2 ^ Suc e" "pad_step e > 0"
  by (simp_all add: pad_step_def le_imp_power_dvd)

lemma pad_step_bound: "e \<ge> 14 \<Longrightarrow> 16 * pad_step e \<le> 2 ^ e"
proof -
  assume e: "e \<ge> 14"
  have "floorLog2 14 = 3" by (rule floorLog2_eqI) simp_all
  then have f: "floorLog2 e \<ge> 3" using floorLog2_mono [of 14 e] e by simp
  have "(16 :: nat) * 2 ^ (e - (floorLog2 e + 1)) = 2 ^ (4 + (e - (floorLog2 e + 1)))" by (simp only: power_add) simp
  also have "\<dots> \<le> 2 ^ e" using f e by (intro power_increasing) auto
  finally show ?thesis by (simp add: pad_step_def)
qed

lemma padded_small: "n \<le> 16384 \<Longrightarrow> padded n = ceil_to 256 n"
  by (simp add: padded_def ALIGNED_FRAME_LIMIT_def FRAME_ALIGNMENT_def)

lemma padded_large: "n > 16384 \<Longrightarrow> padded n = ceil_to (pad_step (floorLog2 n)) n"
  by (simp add: padded_def ALIGNED_FRAME_LIMIT_def Let_def pad_step_def)

lemma octave_14: "n > 16384 \<Longrightarrow> floorLog2 n \<ge> 14"
proof -
  assume n: "n > 16384"
  have "floorLog2 16384 = 14" by (rule floorLog2_eqI) simp_all
  then show ?thesis using floorLog2_mono [of 16384 n] n by simp
qed

lemma padded_ge: "n \<le> padded n"
  using ceil_to_props(1) [of 256 n] ceil_to_props(1) [OF pad_step_dvd(3), of n]
  by (cases "n \<le> 16384") (simp_all add: padded_small padded_large)

lemma padded_octave: "n > 16384 \<Longrightarrow> padded n \<le> 2 ^ Suc (floorLog2 n)"
  using ceil_to_least [OF pad_step_dvd(3,2)] floorLog2_bounds [of n] by (simp add: padded_large less_imp_le)

lemma padded_idem: "padded (padded n) = padded n"
proof (cases "n \<le> 16384")
  case True
  have "ceil_to 256 n \<le> 16384" using True by (intro ceil_to_least) simp_all
  then show ?thesis using ceil_to_fixed [OF _ ceil_to_props(3), of 256 n] True by (simp add: padded_small)
next
  case False
  let ?p = "padded n" and ?e = "floorLog2 n"
  have p: "16384 < ?p" "n \<le> ?p" "pad_step ?e dvd ?p" "?p \<le> 2 ^ Suc ?e" "2 ^ ?e \<le> ?p"
    using False padded_ge [of n] padded_octave [of n] ceil_to_props(3) [OF pad_step_dvd(3), of ?e n] floorLog2_bounds [of n]
    by (simp_all add: padded_large)
  have "pad_step (floorLog2 ?p) dvd ?p"
  proof (cases "?p = 2 ^ Suc ?e")
    case True
    then have "floorLog2 ?p = Suc ?e" by (intro floorLog2_eqI) simp_all
    then show ?thesis using pad_step_dvd(1) [of "Suc ?e"] True by simp
  next
    case False
    then have "floorLog2 ?p = ?e" using p by (intro floorLog2_eqI) simp_all
    then show ?thesis using p by simp
  qed
  then show ?thesis using p(1) by (simp add: padded_large [of ?p] ceil_to_fixed pad_step_dvd(3))
qed

lemma padded_mono: "m \<le> n \<Longrightarrow> padded m \<le> padded n"
proof -
  assume mn: "m \<le> n"
  consider "n \<le> 16384" | "m \<le> 16384" "16384 < n" | "16384 < m" "floorLog2 m = floorLog2 n" | "16384 < m" "floorLog2 m \<noteq> floorLog2 n"
    using mn by linarith
  then show ?thesis
  proof cases
    case 1
    then show ?thesis using mn by (simp add: padded_small ceil_to_mono)
  next
    case 2
    then have "padded m \<le> 16384" using ceil_to_least [of 256 16384 m] by (simp add: padded_small)
    then show ?thesis using 2 padded_ge [of n] by simp
  next
    case 3
    then show ?thesis using mn by (simp add: padded_large ceil_to_mono pad_step_dvd(3))
  next
    case 4
    then have "Suc (floorLog2 m) \<le> floorLog2 n" using floorLog2_mono [of m n] mn by simp
    then have "(2 :: nat) ^ Suc (floorLog2 m) \<le> 2 ^ floorLog2 n" by (intro power_increasing) simp_all
    also have "\<dots> \<le> n" using floorLog2_bounds [of n] 4 mn by simp
    finally show ?thesis using padded_octave [of m] padded_ge [of n] 4 by simp
  qed
qed

lemma padded_overhead: "if n \<le> 16384 then padded n < n + 256 else 16 * (padded n - n) < n"
proof (cases "n \<le> 16384")
  case True
  then show ?thesis using ceil_to_props(2) [of 256 n] by (simp add: padded_small)
next
  case False
  then have "16 * pad_step (floorLog2 n) \<le> n" using pad_step_bound [OF octave_14, of n] floorLog2_bounds [of n] by linarith
  then show ?thesis using False ceil_to_props(2) [OF pad_step_dvd(3), of "floorLog2 n" n] by (simp add: padded_large)
qed

lemma safe_of_nat: "isSafeInteger (Fin (of_nat n)) \<longleftrightarrow> int n \<le> MAX_SAFE_INTEGER"
  by simp

lemma legal_iff: "isLegalPaddedLength (Fin (of_nat n)) \<longleftrightarrow> 256 \<le> n \<and> int n \<le> MAX_SAFE_INTEGER \<and> padded n = n"
  by (auto simp: isLegalPaddedLength_def sealedPaddedLength_def FRAME_ALIGNMENT_def FRAME_HEADER_BYTES_def)

lemma wire_legal_iff:
  "isLegalWireLength (Fin (of_nat n)) \<longleftrightarrow> isLegalPaddedLength (Fin (of_nat n)) \<and> int n \<le> SEALED_PAYLOAD_MAX_PADDED_LENGTH"
  by (auto simp: isLegalPaddedLength_def isLegalWireLength_def sealedPaddedLength_def sealedPayloadPaddedLength_def)

lemma padded_min: "n \<ge> 1 \<Longrightarrow> 256 \<le> padded n"
proof -
  assume "n \<ge> 1"
  then have "padded 1 \<le> padded n" by (rule padded_mono)
  moreover have "padded 1 = 256" by (simp add: padded_small ceil_to_def)
  ultimately show ?thesis by simp
qed

lemma padded_safe: "int n \<le> 2 ^ 52 \<Longrightarrow> int (padded n) \<le> MAX_SAFE_INTEGER"
  using padded_overhead [of n] by (simp add: MAX_SAFE_INTEGER_def split: if_splits)

text \<open>
  The padded length of a frame is the least legal length that holds it, so one content has exactly
  one legal padded length; it is found again from itself, hides the content's length up to 256 bytes
  below 16 KiB, and adds less than one sixteenth above, as the comment of \<open>sealedPaddedLength\<close> says.
  The wire accepts the same lengths up to the length of the largest content.
\<close>

theorem padded_length_least:
  assumes "4 \<le> n" and "int n \<le> 2 ^ 52"
  shows "\<exists>p. sealedPaddedLength (Fin (of_nat n)) = Inr (int p) \<and> sealedPayloadPaddedLength (Fin (of_nat n)) = Inr (int p) \<and>
    isLegalPaddedLength (Fin (of_nat p)) \<and> n \<le> p \<and>
    (\<forall>q. isLegalPaddedLength (Fin (of_nat q)) \<and> n \<le> q \<longrightarrow> p \<le> q) \<and>
    (if n \<le> 16384 then p < n + 256 else 16 * (p - n) < n) \<and>
    isLegalWireLength (Fin (of_nat p)) = (int p \<le> SEALED_PAYLOAD_MAX_PADDED_LENGTH)"
proof -
  have s: "int n \<le> MAX_SAFE_INTEGER" using assms(2) by (simp add: MAX_SAFE_INTEGER_def)
  have legal: "isLegalPaddedLength (Fin (of_nat (padded n)))"
    using padded_min [of n] padded_safe [OF assms(2)] assms(1) by (simp add: legal_iff padded_idem)
  have "padded n \<le> q" if "isLegalPaddedLength (Fin (of_nat q))" "n \<le> q" for q
    using that padded_mono [of n q] by (simp add: legal_iff)
  moreover have "sealedPaddedLength (Fin (of_nat n)) = Inr (int (padded n))" "sealedPayloadPaddedLength (Fin (of_nat n)) = Inr (int (padded n))"
    using s assms(1) by (simp_all add: sealedPaddedLength_def sealedPayloadPaddedLength_def FRAME_HEADER_BYTES_def)
  ultimately show ?thesis using legal padded_ge [of n] padded_overhead [of n] wire_legal_iff [of "padded n"] by blast
qed

theorem padded_length_least_witness:
  "(\<exists>p. sealedPaddedLength (Fin (of_nat (20000 :: nat))) = Inr (int p) \<and> isLegalPaddedLength (Fin (of_nat p)) \<and>
      (if (20000 :: nat) \<le> 16384 then p < 20000 + 256 else 16 * (p - 20000) < 20000)) \<and>
   sealedPaddedLength (Fin 20000) = Inr 20480"
proof -
  have "floorLog2 20000 = 14" "floorLog2 14 = 3" by (rule floorLog2_eqI; simp)+
  then have "sealedPaddedLength (Fin 20000) = Inr 20480"
    by (simp add: sealedPaddedLength_def FRAME_HEADER_BYTES_def padded_large pad_step_def ceil_to_def MAX_SAFE_INTEGER_def)
  then show ?thesis using padded_length_least [of 20000] by auto
qed

section \<open>Frames\<close>

text \<open>\<open>DataView.setUint32(0, n, false)\<close> and \<open>getUint32(0, false)\<close>.\<close>

definition u32be :: "nat \<Rightarrow> byte list" where
  "u32be n = [of_nat (n div 2 ^ 24), of_nat (n div 2 ^ 16), of_nat (n div 2 ^ 8), of_nat n]"

definition getUint32 :: "byte list \<Rightarrow> nat" where
  "getUint32 frame = unat (frame ! 0) * 2 ^ 24 + unat (frame ! 1) * 2 ^ 16 + unat (frame ! 2) * 2 ^ 8 + unat (frame ! 3)"

definition encodeSealedFrame :: "byte list \<Rightarrow> (unit, byte list) result" where
  "encodeSealedFrame content =
     (if int (length content) > MAX_CONTENT_LENGTH then Inl (ByokCoreError Sealed_secret_invalid)
      else case sealedPaddedLength (Fin (of_nat (FRAME_HEADER_BYTES + length content))) of
        Inl e \<Rightarrow> Inl e
      | Inr n \<Rightarrow> Inr (u32be (length content) @ content @ replicate (nat n - FRAME_HEADER_BYTES - length content) 0))"

text \<open>\<open>undefined\<close> is \<open>Inr None\<close>; \<open>sealedPaddedLength\<close> could raise.\<close>

definition decodeSealedFrame :: "byte list \<Rightarrow> int \<Rightarrow> int \<Rightarrow> (unit, byte list option) result" where
  "decodeSealedFrame frame paddedLength maxContentLength =
     (if int (length frame) \<noteq> paddedLength \<or> paddedLength < int FRAME_HEADER_BYTES then Inr None
      else let contentLength = getUint32 frame
        in if int contentLength > paddedLength - int FRAME_HEADER_BYTES then Inr None
           else case sealedPaddedLength (Fin (of_nat (FRAME_HEADER_BYTES + contentLength))) of
             Inl e \<Rightarrow> Inl e
           | Inr n \<Rightarrow>
               if n \<noteq> paddedLength then Inr None
               else if int contentLength > maxContentLength then Inr None
               else if \<not> list_all (\<lambda>b. b = 0) (drop (FRAME_HEADER_BYTES + contentLength) frame) then Inr None
               else Inr (Some (take contentLength (drop FRAME_HEADER_BYTES frame))))"

lemma byte_lt: "unat (b :: byte) < 256"
  using unsigned_less [of b] by simp

lemma getUint32_bound: "getUint32 frame < 2 ^ 32"
  using byte_lt [of "frame ! 0"] byte_lt [of "frame ! 1"] byte_lt [of "frame ! 2"] byte_lt [of "frame ! 3"]
  by (simp add: getUint32_def)

text \<open>The digits of a number in base 256.\<close>

lemma base_256:
  assumes "n < 2 ^ 32"
  shows "n div 2 ^ 24 mod 256 * 2 ^ 24 + n div 2 ^ 16 mod 256 * 2 ^ 16 + n div 2 ^ 8 mod 256 * 2 ^ 8 + n mod 256 = (n :: nat)"
proof -
  define m1 m2 m3 where "m1 = n div 256" and "m2 = m1 div 256" and "m3 = m2 div 256"
  have "n div 2 ^ 8 = m1" "n div 2 ^ 16 = m2" "n div 2 ^ 24 = m3"
    by (simp_all add: m1_def m2_def m3_def div_mult2_eq [symmetric])
  moreover have "n = 256 * m1 + n mod 256" "m1 = 256 * m2 + m1 mod 256" "m2 = 256 * m3 + m2 mod 256"
    by (simp_all add: m1_def m2_def m3_def)
  moreover have "m3 < 256" using assms by (simp add: m1_def m2_def m3_def div_mult2_eq [symmetric] less_mult_imp_div_less)
  then have "m3 mod 256 = m3" by simp
  ultimately show ?thesis by simp
qed

lemma base_256_digits:
  assumes "a < 256" and "b < 256" and "c < 256" and "d < (256 :: nat)"
  defines "n \<equiv> a * 2 ^ 24 + b * 2 ^ 16 + c * 2 ^ 8 + d"
  shows "n div 2 ^ 24 = a" "n div 2 ^ 16 mod 256 = b" "n div 2 ^ 8 mod 256 = c" "n mod 256 = d"
proof -
  have step: "(256 * m + e) div 256 = m" "(256 * m + e) mod 256 = e" if "e < 256" for m e :: nat using that by simp_all
  have n: "n = 256 * (256 * (256 * a + b) + c) + d" by (simp add: n_def)
  have "n div 256 = 256 * (256 * a + b) + c" "n div 256 div 256 = 256 * a + b" "n div 256 div 256 div 256 = a"
    unfolding n using assms(1-4) by (simp_all only: step)
  then have q: "n div 2 ^ 8 = 256 * (256 * a + b) + c" "n div 2 ^ 16 = 256 * a + b" "n div 2 ^ 24 = a"
    by (simp_all add: div_mult2_eq [symmetric])
  show "n div 2 ^ 24 = a" "n div 2 ^ 16 mod 256 = b" "n div 2 ^ 8 mod 256 = c" using assms(2,3) unfolding q by (simp_all only: step)
  show "n mod 256 = d" unfolding n using assms(4) by (rule step)
qed

lemma getUint32_u32be: "n < 2 ^ 32 \<Longrightarrow> getUint32 (u32be n @ xs) = n"
  using base_256 [of n] by (simp add: getUint32_def u32be_def unat_of_nat)

lemma getUint32_Cons: "getUint32 (a # b # c # d # rest) = unat a * 2 ^ 24 + unat b * 2 ^ 16 + unat c * 2 ^ 8 + unat d"
  by (simp add: getUint32_def numeral_2_eq_2 numeral_3_eq_3)

lemma byte_of_nat: "n mod 256 = unat b \<Longrightarrow> (of_nat n :: byte) = b"
  by (simp add: word_unat_eq_iff unat_of_nat)

lemma u32be_getUint32: "u32be (getUint32 (a # b # c # d # rest)) = [a, b, c, d]"
proof -
  let ?n = "getUint32 (a # b # c # d # rest)"
  note digits = base_256_digits [OF byte_lt byte_lt byte_lt byte_lt, of a b c d, folded getUint32_Cons [of a b c d rest]]
  have "?n div 2 ^ 24 mod 256 = unat a" unfolding digits(1) using byte_lt [of a] by simp
  then show ?thesis unfolding u32be_def using digits(2-4) by (simp only: byte_of_nat)
qed

lemma frame_padded: "n < 2 ^ 32 \<Longrightarrow> sealedPaddedLength (Fin (of_nat (FRAME_HEADER_BYTES + n))) = Inr (int (padded (4 + n)))"
  by (simp add: sealedPaddedLength_def FRAME_HEADER_BYTES_def MAX_SAFE_INTEGER_def nat_add_distrib)

lemma encode_frame_iff:
  "encodeSealedFrame c = Inr f \<longleftrightarrow> length c < 2 ^ 32 \<and> f = u32be (length c) @ c @ replicate (padded (4 + length c) - 4 - length c) 0"
proof (cases "length c < 2 ^ 32")
  case True
  then show ?thesis using frame_padded [OF True] by (auto simp: encodeSealedFrame_def MAX_CONTENT_LENGTH_def FRAME_HEADER_BYTES_def)
next
  case False
  then show ?thesis by (auto simp: encodeSealedFrame_def MAX_CONTENT_LENGTH_def)
qed

lemma encode_frame_length: "encodeSealedFrame c = Inr f \<Longrightarrow> length f = padded (4 + length c)"
  using padded_ge [of "4 + length c"] by (auto simp: encode_frame_iff u32be_def)

lemma decode_frame_iff:
  "decodeSealedFrame f p m = Inr (Some c) \<longleftrightarrow>
     int (length f) = p \<and> 4 \<le> length f \<and> getUint32 f \<le> length f - 4 \<and> padded (4 + getUint32 f) = length f \<and> int (getUint32 f) \<le> m \<and>
     (\<forall>b \<in> set (drop (4 + getUint32 f) f). b = 0) \<and> c = take (getUint32 f) (drop 4 f)"
  unfolding decodeSealedFrame_def Let_def frame_padded [OF getUint32_bound]
  by (auto simp: FRAME_HEADER_BYTES_def list_all_iff split: if_splits)

text \<open>
  C31. Framing is canonical: \<open>decodeSealedFrame\<close> never raises, and gives a content back exactly when the
  bytes are the frame \<open>encodeSealedFrame\<close> builds of it, have the announced length and the content is
  within the limit. So a frame has one content, a content one frame, and changed header or padding bytes
  are refused.
\<close>

theorem frame_canonical:
  "(\<exists>r. decodeSealedFrame f p m = Inr r) \<and>
   (decodeSealedFrame f p m = Inr (Some c)) = (encodeSealedFrame c = Inr f \<and> int (length f) = p \<and> int (length c) \<le> m)"
proof
  show "\<exists>r. decodeSealedFrame f p m = Inr r"
    unfolding decodeSealedFrame_def Let_def frame_padded [OF getUint32_bound] by simp
  show "(decodeSealedFrame f p m = Inr (Some c)) = (encodeSealedFrame c = Inr f \<and> int (length f) = p \<and> int (length c) \<le> m)"
  proof
    assume "decodeSealedFrame f p m = Inr (Some c)"
    then have d: "int (length f) = p" "4 \<le> length f" "getUint32 f \<le> length f - 4" "padded (4 + getUint32 f) = length f"
      "int (getUint32 f) \<le> m" "\<forall>b \<in> set (drop (4 + getUint32 f) f). b = 0" "c = take (getUint32 f) (drop 4 f)"
      by (simp_all add: decode_frame_iff)
    have len: "length c = getUint32 f" using d(3,7) by simp
    obtain a b c' e rest where f: "f = a # b # c' # e # rest"
      using d(2) by (metis Suc_le_length_iff numeral_eq_Suc pred_numeral_simps(2) BitM.simps(1,2) numeral_2_eq_2 numeral_3_eq_3)
    have "drop (4 + getUint32 f) f = replicate (length f - (4 + getUint32 f)) 0"
      using d(6) by (intro replicate_eqI) auto
    then have "f = take 4 f @ take (getUint32 f) (drop 4 f) @ replicate (length f - 4 - getUint32 f) 0"
      by (metis append_take_drop_id drop_drop add.commute diff_diff_left)
    moreover have "take 4 f = u32be (getUint32 f)" by (simp add: f u32be_getUint32)
    ultimately show "encodeSealedFrame c = Inr f \<and> int (length f) = p \<and> int (length c) \<le> m"
      using d getUint32_bound [of f] len by (simp add: encode_frame_iff)
  next
    assume e: "encodeSealedFrame c = Inr f \<and> int (length f) = p \<and> int (length c) \<le> m"
    then have f: "length c < 2 ^ 32" "f = u32be (length c) @ c @ replicate (padded (4 + length c) - 4 - length c) 0"
      by (simp_all only: encode_frame_iff)
    have "getUint32 f = length c" unfolding f(2) by (rule getUint32_u32be [OF f(1)])
    moreover have "length (u32be (length c)) = 4" by (simp add: u32be_def)
    ultimately show "decodeSealedFrame f p m = Inr (Some c)"
      using e encode_frame_length [of c f] padded_ge [of "4 + length c"] by (auto simp: decode_frame_iff f(2))
  qed
qed

end
