(* ===== verification/Sealed_Payload.thy ===== *)
theory Sealed_Payload
  imports Sealed_Bytes Objects Json
begin

text \<open>
  Sealed payloads on the hosted wire (\<open>packages/protocol/src/sealed-payload.ts\<close>,
  \<open>packages/protocol/src/sealed-split-table.ts\<close>): the shape of a sealed member, the sealing policy of a
  task, the rule of a sealed offer, the split table and the closed plaintext codes of a task whose
  output is sealed. A payload is the list of its own fields.
\<close>

section \<open>Categories\<close>

definition SEALED_PAYLOAD_CATEGORIES :: "string list" where
  "SEALED_PAYLOAD_CATEGORIES = [''task-input'', ''agent-message'', ''task-output'', ''memory-projection'']"

text \<open>\<open>Array.prototype.indexOf\<close>.\<close>

definition indexOf :: "string list \<Rightarrow> string \<Rightarrow> int" where
  "indexOf xs x = (let n = length (takeWhile (\<lambda>y. y \<noteq> x) xs) in if n < length xs then int n else -1)"

definition isCanonicalCategoryList :: "string list \<Rightarrow> bool" where
  "isCanonicalCategoryList cs =
     list_all (\<lambda>i. i = 0 \<or> indexOf SEALED_PAYLOAD_CATEGORIES (cs ! (i - 1)) < indexOf SEALED_PAYLOAD_CATEGORIES (cs ! i)) [0..<length cs]"

record task_sealing =
  sg_scopeId :: string
  sg_epoch :: int
  sg_categories :: "string list"

definition positive_integer :: "int \<Rightarrow> bool" where
  "positive_integer n = (1 \<le> n \<and> n \<le> MAX_SAFE_INTEGER)"

definition TaskSealingSchema :: "task_sealing \<Rightarrow> bool" where
  "TaskSealingSchema s =
     (sg_scopeId s \<noteq> [] \<and> positive_integer (sg_epoch s) \<and> list_all (\<lambda>c. c \<in> set SEALED_PAYLOAD_CATEGORIES) (sg_categories s) \<and>
      sg_categories s \<noteq> [] \<and> isCanonicalCategoryList (sg_categories s) \<and>
      (''memory-projection'' \<in> set (sg_categories s) \<longrightarrow> ''task-output'' \<in> set (sg_categories s)))"

section \<open>Sealed members\<close>

record sealed_blob_ref =
  br_blobId :: string
  br_contentHash :: string
  br_size :: int
  br_contentType :: string

record sealed_payload =
  sp_v :: int
  sp_suite :: string
  sp_category :: string
  sp_scopeId :: string
  sp_scopeEpoch :: int
  sp_scopeKeyId :: string
  sp_headSeq :: int
  sp_headHash :: string
  sp_sender :: string
  sp_salt :: string
  sp_nonce :: string
  sp_paddedLength :: int
  sp_contentMac :: string
  sp_ciphertext :: "string option"
  sp_ciphertextRef :: "sealed_blob_ref option"

definition SEALED_PAYLOAD_VERSION :: int where "SEALED_PAYLOAD_VERSION = 1"
definition SEALED_PAYLOAD_SUITE :: string where "SEALED_PAYLOAD_SUITE = ''byok-sealed-v1.hkdf-sha256.aes-256-gcm''"
definition SEALED_INLINE_MAX_PADDED_LENGTH :: int where "SEALED_INLINE_MAX_PADDED_LENGTH = 256 * 1024"
definition AEAD_TAG_BYTES :: int where "AEAD_TAG_BYTES = 16"
definition SALT_BYTES :: nat where "SALT_BYTES = 32"
definition NONCE_BYTES :: nat where "NONCE_BYTES = 12"

definition base64UrlOf :: "nat \<Rightarrow> string \<Rightarrow> bool" where
  "base64UrlOf bytes v = (sealedBase64UrlByteLength v = Some bytes)"

text \<open>\<open>/^[A-Za-z0-9_-]{n}$/\<close> and \<open>/^hmac-sha256:[0-9a-f]{64}$/\<close>.\<close>

definition url_chars :: "nat \<Rightarrow> string \<Rightarrow> bool" where
  "url_chars n v = (B64URL_PATTERN v \<and> length v = n)"

definition CONTENT_MAC_PATTERN :: "string \<Rightarrow> bool" where
  "CONTENT_MAC_PATTERN v = (take 12 v = ''hmac-sha256:'' \<and> length v = 76 \<and> list_all hex_lower (drop 12 v))"

definition sealed_blob_ref_schema :: "sealed_blob_ref \<Rightarrow> bool" where
  "sealed_blob_ref_schema r = (CONTENT_HASH_PATTERN (br_contentHash r) \<and> 0 \<le> br_size r \<and> br_size r \<le> MAX_SAFE_INTEGER)"

text \<open>\<open>sealedPayloadSchema(category, inlineOnly)\<close>: the fields, then the rule of the ciphertext's place.\<close>

definition sealed_fields :: "(string \<Rightarrow> bool) \<Rightarrow> sealed_payload \<Rightarrow> bool" where
  "sealed_fields category s =
     (sp_v s = SEALED_PAYLOAD_VERSION \<and> sp_suite s = SEALED_PAYLOAD_SUITE \<and> category (sp_category s) \<and>
      sp_scopeId s \<noteq> [] \<and> positive_integer (sp_scopeEpoch s) \<and> url_chars 22 (sp_scopeKeyId s) \<and>
      positive_integer (sp_headSeq s) \<and> CONTENT_HASH_PATTERN (sp_headHash s) \<and> url_chars 43 (sp_sender s) \<and>
      base64UrlOf SALT_BYTES (sp_salt s) \<and> base64UrlOf NONCE_BYTES (sp_nonce s) \<and>
      positive_integer (sp_paddedLength s) \<and> isLegalWireLength (Fin (of_int (sp_paddedLength s))) \<and>
      CONTENT_MAC_PATTERN (sp_contentMac s) \<and>
      (case sp_ciphertextRef s of None \<Rightarrow> True | Some r \<Rightarrow> sealed_blob_ref_schema r))"

definition sealed_place :: "bool \<Rightarrow> sealed_payload \<Rightarrow> bool" where
  "sealed_place inlineOnly s =
     (let ciphertextLength = sp_paddedLength s + AEAD_TAG_BYTES;
          inline = sp_paddedLength s \<le> SEALED_INLINE_MAX_PADDED_LENGTH
      in if inlineOnly \<and> \<not> inline then False
         else if inline then
           (case (sp_ciphertextRef s, sp_ciphertext s) of
              (None, Some c) \<Rightarrow> map_option int (sealedBase64UrlByteLength c) = Some ciphertextLength
            | _ \<Rightarrow> False)
         else
           (case (sp_ciphertext s, sp_ciphertextRef s) of
              (None, Some r) \<Rightarrow> br_size r = ciphertextLength
            | _ \<Rightarrow> False))"

definition sealedPayloadSchema :: "(string \<Rightarrow> bool) \<Rightarrow> bool \<Rightarrow> sealed_payload \<Rightarrow> bool" where
  "sealedPayloadSchema category inlineOnly s = (sealed_fields category s \<and> sealed_place inlineOnly s)"

definition SealedPayloadSchema :: "sealed_payload \<Rightarrow> bool" where
  "SealedPayloadSchema = sealedPayloadSchema (\<lambda>c. c \<in> set SEALED_PAYLOAD_CATEGORIES) False"

definition SealedTaskInputSchema :: "sealed_payload \<Rightarrow> bool" where
  "SealedTaskInputSchema = sealedPayloadSchema (\<lambda>c. c = ''task-input'') False"

definition SealedTaskOutputSchema :: "sealed_payload \<Rightarrow> bool" where
  "SealedTaskOutputSchema = sealedPayloadSchema (\<lambda>c. c = ''task-output'') False"

definition SealedAgentMessageSchema :: "sealed_payload \<Rightarrow> bool" where
  "SealedAgentMessageSchema = sealedPayloadSchema (\<lambda>c. c = ''agent-message'') False"

definition SealedMemoryProjectionSchema :: "sealed_payload \<Rightarrow> bool" where
  "SealedMemoryProjectionSchema = sealedPayloadSchema (\<lambda>c. c = ''memory-projection'') True"

section \<open>Limits of a sealed message\<close>

definition AGENT_MESSAGE_MAX_BYTES :: int where "AGENT_MESSAGE_MAX_BYTES = 256 * 1024"
definition SEALED_AGENT_MESSAGE_FRAME_BYTES :: int where "SEALED_AGENT_MESSAGE_FRAME_BYTES = 11"
definition JSON_STRING_MAX_EXPANSION :: int where "JSON_STRING_MAX_EXPANSION = 6"

definition sealedAgentMessageMaxContentLength :: "jsnum \<Rightarrow> (unit, int) result" where
  "sealedAgentMessageMaxContentLength maxBytes =
     (if \<not> isSafeInteger maxBytes \<or> num_int maxBytes < 1 \<or> num_int maxBytes > AGENT_MESSAGE_MAX_BYTES then Inl RangeError
      else Inr (JSON_STRING_MAX_EXPANSION * num_int maxBytes + SEALED_AGENT_MESSAGE_FRAME_BYTES))"

section \<open>The rule of a sealed offer\<close>

text \<open>The issues \<open>sealedOfferRule\<close> adds, by the path they name, in order.\<close>

definition sealedOfferRule :: "bool \<Rightarrow> task_sealing \<Rightarrow> sealed_payload option \<Rightarrow> bool \<Rightarrow> string list" where
  "sealedOfferRule hasInstruction sealing sealed hasRoutineRef =
     (if ''task-input'' \<notin> set (sg_categories sealing) then
        (if hasRoutineRef then [''routineRef''] else []) @ (if sealed \<noteq> None then [''sealed''] else []) @
        (if \<not> hasInstruction then [''instruction''] else [])
      else case sealed of
        None \<Rightarrow> [''sealed'']
      | Some s \<Rightarrow>
          (if hasInstruction then [''instruction''] else []) @
          (if sp_scopeId s \<noteq> sg_scopeId sealing \<or> sp_scopeEpoch s \<noteq> sg_epoch sealing then [''sealed.scope''] else []))"

section \<open>Routines\<close>

record routine_ref =
  rr_routineId :: string
  rr_definitionVersion :: int
  rr_notAfter :: string

definition CanonicalInstantSchema :: "string \<Rightarrow> bool" where
  "CanonicalInstantSchema v = isCanonicalTimestamp v"

definition RoutineRefSchema :: "routine_ref \<Rightarrow> bool" where
  "RoutineRefSchema r =
     (rr_routineId r \<noteq> [] \<and> 0 \<le> rr_definitionVersion r \<and> rr_definitionVersion r \<le> MAX_SAFE_INTEGER \<and> CanonicalInstantSchema (rr_notAfter r))"

section \<open>The split table\<close>

datatype digest_rule = Ciphertext_sha256 | Keyed_mac | Sealed | Plain | Forbidden

record sealed_split_entry =
  se_marker :: string
  se_category :: string
  se_identity :: "string list"
  se_moved :: "string list"
  se_movedWith :: "(string \<times> string list) list"
  se_forbidden :: "string list"
  se_digests :: "(string \<times> digest_rule) list"
  se_limits :: "(string \<times> int) list"
  se_inlineOnly :: bool

definition MEMORY_EVIDENCE :: "(string \<times> string list) list" where
  "MEMORY_EVIDENCE = [(''memory-projection'', [''agentHomeMemoryChange'', ''residentMemoryOverLimit''])]"

definition TERMINAL_DIGESTS :: "(string \<times> digest_rule) list" where
  "TERMINAL_DIGESTS =
    [(''agentRef.profileRevision'', Plain), (''agentHomeProjection.profileRevision'', Plain), (''agentHomeProjection.projectionHash'', Plain)]"

definition SEALED_SPLIT_TABLE :: "sealed_split_entry jmap" where
  "SEALED_SPLIT_TABLE =
    [(''task.offer'', \<lparr>se_marker = ''sealing'', se_category = ''task-input'', se_identity = [], se_moved = [''instruction''],
       se_movedWith = [], se_forbidden = [''preparation''],
       se_digests = [(''instruction.blobRef.contentHash'', Sealed), (''agentRef.profileRevision'', Plain),
         (''dispatchSelection.providerProfile.profileRevision'', Plain), (''dispatchSelection.providerProfile.profileHash'', Plain),
         (''egressPolicy.policyRevision'', Plain), (''preparation.requestDigest'', Forbidden), (''preparation.artifactDigest'', Forbidden)],
       se_limits = [], se_inlineOnly = False\<rparr>),
     (''task.steer'', \<lparr>se_marker = ''sealed'', se_category = ''task-input'', se_identity = [''steerId''], se_moved = [''text''],
       se_movedWith = [], se_forbidden = [],
       se_digests = [],
       se_limits = [], se_inlineOnly = False\<rparr>),
     (''task.complete'', \<lparr>se_marker = ''sealed'', se_category = ''task-output'', se_identity = [],
       se_moved = [''summary'', ''finalMessage'', ''document''], se_movedWith = MEMORY_EVIDENCE,
       se_forbidden = [''artifactRefs'', ''preparedObservation''],
       se_digests = TERMINAL_DIGESTS @ [(''artifactRefs[].contentHash'', Forbidden), (''preparedObservation.requestDigest'', Forbidden)],
       se_limits = [], se_inlineOnly = False\<rparr>),
     (''task.fail'', \<lparr>se_marker = ''sealed'', se_category = ''task-output'', se_identity = [], se_moved = [''reason''],
       se_movedWith = MEMORY_EVIDENCE, se_forbidden = [''preparedObservation''],
       se_digests = TERMINAL_DIGESTS @ [(''preparedObservation.requestDigest'', Forbidden)],
       se_limits = [], se_inlineOnly = False\<rparr>),
     (''task.decline'', \<lparr>se_marker = ''sealed'', se_category = ''task-output'', se_identity = [], se_moved = [''reason''],
       se_movedWith = [], se_forbidden = [],
       se_digests = [(''agentRef.profileRevision'', Plain)],
       se_limits = [], se_inlineOnly = False\<rparr>),
     (''task.cancelled'', \<lparr>se_marker = ''sealed'', se_category = ''task-output'', se_identity = [], se_moved = [''reason''],
       se_movedWith = MEMORY_EVIDENCE, se_forbidden = [],
       se_digests = TERMINAL_DIGESTS,
       se_limits = [], se_inlineOnly = False\<rparr>),
     (''task.progress'', \<lparr>se_marker = ''sealed'', se_category = ''task-output'', se_identity = [''seq''], se_moved = [''events''],
       se_movedWith = [], se_forbidden = [],
       se_digests = [(''events[].spill.blob.contentHash'', Sealed)],
       se_limits = [], se_inlineOnly = True\<rparr>),
     (''task.artifact'', \<lparr>se_marker = ''sealed'', se_category = ''task-output'', se_identity = [''artifactId''], se_moved = [''inline''],
       se_movedWith = [], se_forbidden = [''blobRef''],
       se_digests = [(''blobRef.contentHash'', Forbidden)],
       se_limits = [(''inline'', 2 * 1024 * 1024)], se_inlineOnly = False\<rparr>),
     (''task.await_approval'', \<lparr>se_marker = ''sealed'', se_category = ''task-output'', se_identity = [''approvalId''],
       se_moved = [''summary''], se_movedWith = [], se_forbidden = [],
       se_digests = [],
       se_limits = [], se_inlineOnly = True\<rparr>),
     (''agent.message.publish'', \<lparr>se_marker = ''sealed'', se_category = ''agent-message'', se_identity = [''messageId'', ''cursor''],
       se_moved = [''body''], se_movedWith = [], se_forbidden = [''contentHash'', ''byteCount''],
       se_digests = [(''agentRef.profileRevision'', Plain), (''contentHash'', Forbidden)],
       se_limits = [], se_inlineOnly = False\<rparr>)]"

definition sealedMovedFields :: "sealed_split_entry \<Rightarrow> string list \<Rightarrow> string list" where
  "sealedMovedFields entry categories =
     se_moved entry @ concat (map (\<lambda>c. case jget (se_movedWith entry) c of None \<Rightarrow> [] | Some fs \<Rightarrow> fs) categories)"

definition isSealableMessageType :: "string \<Rightarrow> bool" where
  "isSealableMessageType type = (jget SEALED_SPLIT_TABLE type \<noteq> None)"

text \<open>Whether a payload takes its sealed branch; a payload that is not an object does not.\<close>

definition isSealedPayload :: "string \<Rightarrow> json \<Rightarrow> bool" where
  "isSealedPayload type payload =
     (case (jget SEALED_SPLIT_TABLE type, payload) of
        (Some entry, JObject fs) \<Rightarrow> jget fs (se_marker entry) \<noteq> None
      | _ \<Rightarrow> False)"

section \<open>Plaintext codes of a sealed task\<close>

definition SEALED_DECLINE_CODES :: "string list" where
  "SEALED_DECLINE_CODES = [''sealed_key_unavailable'', ''sealed_open_failed'', ''sealed_content_mac_mismatch'', ''sealing_policy_mismatch'']"

definition SEALED_TASK_PLAIN_CODES :: "(string list) jmap jmap" where
  "SEALED_TASK_PLAIN_CODES =
    [(''task.fail'', [(''reason'', [''daemon_interrupted'', ''sealed_key_unavailable''])]),
     (''task.decline'', [(''reason'', SEALED_DECLINE_CODES)]),
     (''task.cancelled'', [(''reason'', [])])]"

definition plain_fields :: "string \<Rightarrow> string list \<Rightarrow> string list" where
  "plain_fields type categories =
     (case jget SEALED_SPLIT_TABLE type of
        None \<Rightarrow> []
      | Some entry \<Rightarrow> if se_category entry = ''task-output'' then sealedMovedFields entry categories @ se_forbidden entry else [])"

definition plain_code_ok :: "(string list) jmap \<Rightarrow> json jmap \<Rightarrow> string \<Rightarrow> bool" where
  "plain_code_ok codes payload field =
     (case jget payload field of
        None \<Rightarrow> True
      | Some (JString v) \<Rightarrow> v \<in> set (case jget codes field of None \<Rightarrow> [] | Some cs \<Rightarrow> cs)
      | Some _ \<Rightarrow> False)"

definition isSealedTaskPlainOutput :: "string \<Rightarrow> json jmap \<Rightarrow> string list \<Rightarrow> bool" where
  "isSealedTaskPlainOutput type payload categories =
     (let codes = (case jget SEALED_TASK_PLAIN_CODES type of None \<Rightarrow> [] | Some cs \<Rightarrow> cs);
          fs = plain_fields type categories
      in if fs \<noteq> [] \<and> jget SEALED_TASK_PLAIN_CODES type = None then False
         else if \<not> list_all (plain_code_ok codes payload) fs then False
         else type \<noteq> ''task.decline'' \<or> jget payload ''reason'' = None \<or> jget payload ''code'' = jget payload ''reason'')"

section \<open>What the checks establish\<close>

text \<open>A list of categories is canonical exactly when it is a subsequence of the list of all of them.\<close>

lemma indexOf_nth: "distinct xs \<Longrightarrow> i < length xs \<Longrightarrow> indexOf xs (xs ! i) = int i"
proof -
  assume a: "distinct xs" "i < length xs"
  have "takeWhile (\<lambda>y. y \<noteq> xs ! i) xs = take i xs"
    using a by (intro takeWhile_eq_take_P_nth) (auto simp: nth_eq_iff_index_eq)
  then show ?thesis using a by (simp add: indexOf_def)
qed

lemma canonical_sorted:
  "isCanonicalCategoryList cs \<longleftrightarrow> sorted_wrt (<) (map (indexOf SEALED_PAYLOAD_CATEGORIES) cs)"
proof -
  let ?f = "indexOf SEALED_PAYLOAD_CATEGORIES"
  have "isCanonicalCategoryList cs \<longleftrightarrow> (\<forall>i. Suc i < length (map ?f cs) \<longrightarrow> map ?f cs ! i < map ?f cs ! Suc i)"
    unfolding isCanonicalCategoryList_def list_all_iff
    by (auto simp: less_Suc_eq_0_disj) (metis Suc_pred diff_Suc_1 less_Suc_eq_0_disj not_less_eq)
  then show ?thesis by (simp add: sorted_wrt_iff_nth_Suc_transp transp_on_def)
qed

lemma categories_index: "c \<in> set SEALED_PAYLOAD_CATEGORIES \<Longrightarrow> SEALED_PAYLOAD_CATEGORIES ! nat (indexOf SEALED_PAYLOAD_CATEGORIES c) = c"
proof -
  assume "c \<in> set SEALED_PAYLOAD_CATEGORIES"
  then obtain i where "i < length SEALED_PAYLOAD_CATEGORIES" "SEALED_PAYLOAD_CATEGORIES ! i = c" by (auto simp: in_set_conv_nth)
  moreover have "distinct SEALED_PAYLOAD_CATEGORIES" by code_simp
  ultimately show ?thesis using indexOf_nth [of SEALED_PAYLOAD_CATEGORIES i] by auto
qed

lemma set_subseq_subset: "subseq xs ys \<Longrightarrow> set xs \<subseteq> set ys"
  by (induction rule: list_emb.induct) auto

lemma sorted_wrt_subseq: "subseq xs ys \<Longrightarrow> sorted_wrt R ys \<Longrightarrow> sorted_wrt R xs"
  by (induction rule: list_emb.induct) (use set_subseq_subset in auto)

lemma canonical_subseq:
  "set cs \<subseteq> set SEALED_PAYLOAD_CATEGORIES \<and> isCanonicalCategoryList cs \<longleftrightarrow> subseq cs SEALED_PAYLOAD_CATEGORIES"
proof
  let ?f = "indexOf SEALED_PAYLOAD_CATEGORIES" and ?C = SEALED_PAYLOAD_CATEGORIES
  assume a: "set cs \<subseteq> set ?C \<and> isCanonicalCategoryList cs"
  let ?ds = "filter (\<lambda>c. c \<in> set cs) ?C"
  have "sorted_wrt (<) (map ?f ?C)" by code_simp
  then have "sorted_wrt (<) (map ?f ?ds)" by (simp add: sorted_wrt_map sorted_wrt_filter)
  moreover have "sorted_wrt (<) (map ?f cs)" using a by (simp add: canonical_sorted)
  moreover have ds: "set ?ds = set cs" using a by auto
  then have "set (map ?f ?ds) = set (map ?f cs)" by (simp only: set_map)
  ultimately have "map ?f ?ds = map ?f cs" by (metis strict_sorted_equal)
  moreover have "inj_on ?f (set ?C)" by (rule inj_on_inverseI [where g = "\<lambda>i. ?C ! nat i"]) (rule categories_index)
  then have "inj_on ?f (set ?ds \<union> set cs)" using a ds by (auto intro: inj_on_subset)
  ultimately have "?ds = cs" using inj_on_map_eq_map by blast
  then show "subseq cs ?C" by (metis subseq_filter_left)
next
  let ?f = "indexOf SEALED_PAYLOAD_CATEGORIES" and ?C = SEALED_PAYLOAD_CATEGORIES
  assume "subseq cs ?C"
  moreover have "sorted_wrt (<) (map ?f ?C)" by code_simp
  ultimately show "set cs \<subseteq> set ?C \<and> isCanonicalCategoryList cs"
    unfolding canonical_sorted by (metis subseq_map sorted_wrt_subseq set_subseq_subset)
qed

subsection \<open>One legal wire form\<close>

lemma wire_length_frame:
  assumes "isLegalWireLength (Fin (of_int p))"
  shows "\<exists>n. n \<le> SEALED_PAYLOAD_MAX_CONTENT_LENGTH \<and> p = int (padded (FRAME_HEADER_BYTES + n))"
proof -
  have p: "256 \<le> p" "p \<le> SEALED_PAYLOAD_MAX_PADDED_LENGTH" "int (padded (nat p)) = p"
    using assms by (auto simp: isLegalWireLength_def sealedPayloadPaddedLength_def FRAME_ALIGNMENT_def split: if_splits)
  let ?m = "FRAME_HEADER_BYTES + SEALED_PAYLOAD_MAX_CONTENT_LENGTH"
  show ?thesis
  proof (cases "nat p \<le> ?m")
    case True
    then show ?thesis using p by (intro exI [of _ "nat p - FRAME_HEADER_BYTES"]) (auto simp: FRAME_HEADER_BYTES_def)
  next
    case False
    then have "padded ?m \<le> padded (nat p)" by (intro padded_mono) simp
    then have "int (padded ?m) = p" using p by (simp add: SEALED_PAYLOAD_MAX_PADDED_LENGTH_def)
    then show ?thesis by (intro exI [of _ SEALED_PAYLOAD_MAX_CONTENT_LENGTH]) simp
  qed
qed

lemma wire_bytes:
  assumes "map_option int (sealedBase64UrlByteLength v) = Some n"
  shows "\<exists>bytes. v = encodeBase64Url bytes \<and> int (length bytes) = n"
proof -
  obtain k where k: "sealedBase64UrlByteLength v = Some k" "int k = n" using assms by auto
  then obtain bs where "v = encodeBase64Url bs" using length_check_back by blast
  then show ?thesis using k length_check_encode [of bs] by auto
qed

text \<open>
  C33. One content has one legal wire form. A sealed member that passes its schema announces the padded
  length of the frame of some content within the limit; up to 256 KiB it carries the ciphertext inline,
  as base64url of exactly that many bytes and the tag, and no reference; above it carries a reference of
  exactly that size and no inline text, and an inline-only content is refused.
\<close>

theorem sealed_one_form:
  assumes "sealedPayloadSchema category inlineOnly s"
  shows "(\<exists>n. n \<le> SEALED_PAYLOAD_MAX_CONTENT_LENGTH \<and> sp_paddedLength s = int (padded (FRAME_HEADER_BYTES + n))) \<and>
    category (sp_category s) \<and>
    (if sp_paddedLength s \<le> SEALED_INLINE_MAX_PADDED_LENGTH then
       sp_ciphertextRef s = None \<and>
       (\<exists>bytes. sp_ciphertext s = Some (encodeBase64Url bytes) \<and> int (length bytes) = sp_paddedLength s + AEAD_TAG_BYTES)
     else \<not> inlineOnly \<and> sp_ciphertext s = None \<and>
       (\<exists>ref. sp_ciphertextRef s = Some ref \<and> br_size ref = sp_paddedLength s + AEAD_TAG_BYTES))"
proof -
  have f: "sealed_fields category s" "sealed_place inlineOnly s" using assms by (simp_all add: sealedPayloadSchema_def)
  then have "isLegalWireLength (Fin (of_int (sp_paddedLength s)))" "category (sp_category s)" by (simp_all add: sealed_fields_def)
  then show ?thesis using f(2) wire_length_frame wire_bytes
    by (auto simp: sealed_place_def Let_def split: option.splits if_splits)
qed

definition sample_sealed :: sealed_payload where
  "sample_sealed = \<lparr>sp_v = 1, sp_suite = SEALED_PAYLOAD_SUITE, sp_category = ''memory-projection'', sp_scopeId = ''s'', sp_scopeEpoch = 1,
     sp_scopeKeyId = replicate 22 CHR ''k'', sp_headSeq = 1, sp_headHash = ''sha256:'' @ replicate 64 CHR ''a'',
     sp_sender = replicate 43 CHR ''m'', sp_salt = encodeBase64Url (replicate 32 0), sp_nonce = encodeBase64Url (replicate 12 0),
     sp_paddedLength = 256, sp_contentMac = ''hmac-sha256:'' @ replicate 64 CHR ''b'',
     sp_ciphertext = Some (encodeBase64Url (replicate 272 0)), sp_ciphertextRef = None\<rparr>"

lemma padded_256: "padded 256 = 256"
  by (simp add: padded_small ceil_to_def)

lemma sample_sealed_ok: "SealedMemoryProjectionSchema sample_sealed"
proof -
  have "int 256 \<le> SEALED_PAYLOAD_MAX_PADDED_LENGTH"
    using padded_ge [of "FRAME_HEADER_BYTES + SEALED_PAYLOAD_MAX_CONTENT_LENGTH"]
    by (simp add: SEALED_PAYLOAD_MAX_PADDED_LENGTH_def SEALED_PAYLOAD_MAX_CONTENT_LENGTH_def)
  then have "isLegalWireLength (Fin 256)"
    by (simp add: isLegalWireLength_def sealedPayloadPaddedLength_def padded_256 FRAME_ALIGNMENT_def FRAME_HEADER_BYTES_def MAX_SAFE_INTEGER_def)
  then have "sealed_fields (\<lambda>c. c = ''memory-projection'') sample_sealed"
    by (simp add: sealed_fields_def sample_sealed_def SEALED_PAYLOAD_VERSION_def positive_integer_def MAX_SAFE_INTEGER_def url_chars_def
        base64UrlOf_def length_check_encode SALT_BYTES_def NONCE_BYTES_def CONTENT_HASH_PATTERN_def CONTENT_MAC_PATTERN_def
        B64URL_PATTERN_def list_all_iff hex_lower_def less_eq_char_def del: encodeBase64Url.simps)
  moreover have "sealed_place True sample_sealed"
    by (simp add: sealed_place_def sample_sealed_def AEAD_TAG_BYTES_def SEALED_INLINE_MAX_PADDED_LENGTH_def length_check_encode del: encodeBase64Url.simps)
  ultimately show ?thesis by (simp add: SealedMemoryProjectionSchema_def sealedPayloadSchema_def)
qed

theorem sealed_one_form_witness:
  "sealedPayloadSchema (\<lambda>c. c = ''memory-projection'') True sample_sealed \<and> sp_ciphertextRef sample_sealed = None \<and>
   (\<exists>bytes. sp_ciphertext sample_sealed = Some (encodeBase64Url bytes) \<and> int (length bytes) = 272)"
proof -
  have ok: "sealedPayloadSchema (\<lambda>c. c = ''memory-projection'') True sample_sealed"
    using sample_sealed_ok by (simp add: SealedMemoryProjectionSchema_def)
  moreover have "sp_paddedLength sample_sealed = 256" by (simp add: sample_sealed_def)
  ultimately show ?thesis using sealed_one_form [OF ok] by (simp add: SEALED_INLINE_MAX_PADDED_LENGTH_def AEAD_TAG_BYTES_def)
qed

subsection \<open>Every legal message seals\<close>

lemma utf8_escape_bound: "utf8_length (json_escape c) \<le> JSON_STRING_MAX_EXPANSION * utf8_length [c]"
proof (cases "of_char c < (128 :: nat)")
  case True
  then show ?thesis using utf8_json_escape [of c] by (simp add: JSON_STRING_MAX_EXPANSION_def utf8_length_Cons)
next
  case False
  then show ?thesis using utf8_json_escape [of c] by (simp add: JSON_STRING_MAX_EXPANSION_def utf8_length_Cons)
qed

lemma utf8_string_bound: "utf8_length (json_string s) \<le> JSON_STRING_MAX_EXPANSION * utf8_length s + 2"
proof -
  have "utf8_length (concat (map json_escape s)) \<le> JSON_STRING_MAX_EXPANSION * utf8_length s"
  proof (induction s)
    case (Cons c s)
    then show ?case using utf8_escape_bound [of c] utf8_length_append [of "[c]" s] by (simp add: algebra_simps)
  qed simp
  then show ?thesis by (simp add: json_string_def utf8_length_Cons)
qed

text \<open>
  Every legal message body seals: whatever the limit of a task allows, the canonical JSON of a body
  within the limit has at most \<open>sealedAgentMessageMaxContentLength\<close> bytes, and that is within the limit
  of a sealed content, so its padded frame is a legal wire length.
\<close>

theorem sealed_message_fits:
  assumes "1 \<le> maxBytes" and "maxBytes \<le> AGENT_MESSAGE_MAX_BYTES" and "utf8_length body \<le> maxBytes"
  shows "\<exists>limit. sealedAgentMessageMaxContentLength (Fin (of_int maxBytes)) = Inr limit \<and>
    utf8_length (stringify ntext (JObject [(''body'', JString body)])) \<le> limit \<and>
    limit \<le> int SEALED_PAYLOAD_MAX_CONTENT_LENGTH \<and>
    isLegalWireLength (Fin (of_nat (padded (FRAME_HEADER_BYTES + nat limit))))"
proof -
  let ?l = "JSON_STRING_MAX_EXPANSION * maxBytes + SEALED_AGENT_MESSAGE_FRAME_BYTES"
  have l: "sealedAgentMessageMaxContentLength (Fin (of_int maxBytes)) = Inr ?l"
    using assms(1,2) by (simp add: sealedAgentMessageMaxContentLength_def AGENT_MESSAGE_MAX_BYTES_def MAX_SAFE_INTEGER_def)
  have max: "?l \<le> int SEALED_PAYLOAD_MAX_CONTENT_LENGTH"
    using assms(2) by (simp add: JSON_STRING_MAX_EXPANSION_def SEALED_AGENT_MESSAGE_FRAME_BYTES_def AGENT_MESSAGE_MAX_BYTES_def
        SEALED_PAYLOAD_MAX_CONTENT_LENGTH_def)
  have "stringify ntext (JObject [(''body'', JString body)]) = ''{'' @ json_string ''body'' @ '':'' @ json_string body @ ''}''" by simp
  moreover have "utf8_length (json_string ''body'') = 6" by code_simp
  ultimately have "utf8_length (stringify ntext (JObject [(''body'', JString body)])) \<le> ?l"
    using utf8_string_bound [of body] assms(3) by (simp add: utf8_length_Cons JSON_STRING_MAX_EXPANSION_def SEALED_AGENT_MESSAGE_FRAME_BYTES_def)
  moreover have "isLegalWireLength (Fin (of_nat (padded (FRAME_HEADER_BYTES + nat ?l))))"
  proof -
    let ?n = "FRAME_HEADER_BYTES + nat ?l"
    have n: "?n \<le> FRAME_HEADER_BYTES + SEALED_PAYLOAD_MAX_CONTENT_LENGTH" "1 \<le> ?n" using max by (simp_all add: FRAME_HEADER_BYTES_def)
    then have "int (padded ?n) \<le> SEALED_PAYLOAD_MAX_PADDED_LENGTH" unfolding SEALED_PAYLOAD_MAX_PADDED_LENGTH_def by (simp add: padded_mono)
    moreover have "int (padded ?n) \<le> MAX_SAFE_INTEGER"
      by (rule padded_safe) (use max in \<open>simp add: FRAME_HEADER_BYTES_def SEALED_PAYLOAD_MAX_CONTENT_LENGTH_def\<close>)
    ultimately show ?thesis using padded_min [OF n(2)] by (simp only: wire_legal_iff legal_iff padded_idem)
  qed
  ultimately show ?thesis using l max by blast
qed

theorem sealed_message_fits_witness:
  "\<exists>limit. sealedAgentMessageMaxContentLength (Fin (of_int (2 :: int))) = Inr limit \<and>
    utf8_length (stringify (\<lambda>_. []) (JObject [(''body'', JString ''hi'')])) \<le> limit \<and> limit \<le> int SEALED_PAYLOAD_MAX_CONTENT_LENGTH"
proof -
  have "utf8_length ''hi'' = 2" by code_simp
  then show ?thesis using sealed_message_fits [of 2 "''hi''" "\<lambda>_. []"] by (auto simp: AGENT_MESSAGE_MAX_BYTES_def)
qed

subsection \<open>The split table\<close>

definition top_field :: "string \<Rightarrow> string" where
  "top_field path = takeWhile (\<lambda>c. c \<noteq> CHR ''.'' \<and> c \<noteq> CHR ''['') path"

definition split_entry_ok :: "sealed_split_entry \<Rightarrow> bool" where
  "split_entry_ok e =
     (se_category e \<in> set SEALED_PAYLOAD_CATEGORIES \<and> distinct (sealedMovedFields e SEALED_PAYLOAD_CATEGORIES @ se_forbidden e @ se_identity e) \<and>
      list_all (\<lambda>(path, rule).
        (rule = Sealed) = (top_field path \<in> set (sealedMovedFields e SEALED_PAYLOAD_CATEGORIES)) \<and>
        (rule = Forbidden) = (top_field path \<in> set (se_forbidden e)) \<and> rule \<in> {Sealed, Forbidden, Plain}) (se_digests e) \<and>
      list_all (\<lambda>(f, _). f \<in> set (se_moved e)) (se_limits e))"

text \<open>
  The split table is consistent: each type has one entry; no field is moved, dropped and part of the
  identity at once; a digest field is \<open>sealed\<close> exactly when its top field moves into the ciphertext and
  \<open>forbidden\<close> exactly when it is dropped; only moved fields have limits of their own.
\<close>

theorem split_table_consistent: "jmap_ok SEALED_SPLIT_TABLE \<and> list_all (\<lambda>(_, e). split_entry_ok e) SEALED_SPLIT_TABLE"
  by code_simp

subsection \<open>Plaintext of a sealed task\<close>

text \<open>The fields that a type may carry in plaintext only as closed codes, when the task seals its memory or not.\<close>

lemma plain_code_absent: "jget codes f = None \<Longrightarrow> plain_code_ok codes payload f \<longleftrightarrow> jget payload f = None"
  by (auto simp: plain_code_ok_def split: option.splits json.splits)

definition evidence_absent :: "json jmap \<Rightarrow> string list \<Rightarrow> bool" where
  "evidence_absent payload categories =
     (''memory-projection'' \<in> set categories \<longrightarrow>
        jget payload ''agentHomeMemoryChange'' = None \<and> jget payload ''residentMemoryOverLimit'' = None)"

definition reason_in :: "json jmap \<Rightarrow> string list \<Rightarrow> bool" where
  "reason_in payload codes = (jget payload ''reason'' = None \<or> (\<exists>c \<in> set codes. jget payload ''reason'' = Some (JString c)))"

lemma plain_reason: "plain_code_ok [(''reason'', codes)] payload ''reason'' \<longleftrightarrow> reason_in payload codes"
  by (auto simp: plain_code_ok_def reason_in_def jget_def split: option.splits json.splits)

definition plain_columns :: "string \<Rightarrow> (string \<times> string list \<times> (string \<times> string list) list \<times> string list) option" where
  "plain_columns type = map_option (\<lambda>e. (se_category e, se_moved e, se_movedWith e, se_forbidden e)) (jget SEALED_SPLIT_TABLE type)"

lemma plain_columns:
  "plain_columns ''task.complete'' = Some (''task-output'', [''summary'', ''finalMessage'', ''document''], MEMORY_EVIDENCE, [''artifactRefs'', ''preparedObservation''])"
  "plain_columns ''task.progress'' = Some (''task-output'', [''events''], [], [])"
  "plain_columns ''task.artifact'' = Some (''task-output'', [''inline''], [], [''blobRef''])"
  "plain_columns ''task.await_approval'' = Some (''task-output'', [''summary''], [], [])"
  "plain_columns ''task.fail'' = Some (''task-output'', [''reason''], MEMORY_EVIDENCE, [''preparedObservation''])"
  "plain_columns ''task.decline'' = Some (''task-output'', [''reason''], [], [])"
  "plain_columns ''task.cancelled'' = Some (''task-output'', [''reason''], MEMORY_EVIDENCE, [])"
  by code_simp+

definition evidence_fields :: "(string \<times> string list) list \<Rightarrow> string list \<Rightarrow> string list" where
  "evidence_fields m categories = concat (map (\<lambda>c. case jget m c of None \<Rightarrow> [] | Some fs \<Rightarrow> fs) categories)"

lemma evidence_fields_Nil [simp]: "evidence_fields [] categories = []"
  by (simp add: evidence_fields_def)

lemma plain_fields_columns:
  "plain_columns type = Some (''task-output'', moved, m, forbidden) \<Longrightarrow> plain_fields type categories = moved @ evidence_fields m categories @ forbidden"
  by (auto simp: plain_columns_def plain_fields_def sealedMovedFields_def evidence_fields_def)

lemma plain_codes:
  "jget SEALED_TASK_PLAIN_CODES ''task.fail'' = Some [(''reason'', [''daemon_interrupted'', ''sealed_key_unavailable''])]"
  "jget SEALED_TASK_PLAIN_CODES ''task.decline'' = Some [(''reason'', SEALED_DECLINE_CODES)]"
  "jget SEALED_TASK_PLAIN_CODES ''task.cancelled'' = Some [(''reason'', [])]"
  "jget SEALED_TASK_PLAIN_CODES ''task.complete'' = None" "jget SEALED_TASK_PLAIN_CODES ''task.progress'' = None"
  "jget SEALED_TASK_PLAIN_CODES ''task.artifact'' = None" "jget SEALED_TASK_PLAIN_CODES ''task.await_approval'' = None"
  by code_simp+

lemma reason_only: "f \<noteq> ''reason'' \<Longrightarrow> plain_code_ok [(''reason'', codes)] payload f \<longleftrightarrow> jget payload f = None"
  by (rule plain_code_absent) (simp add: jget_def)

lemma moved_evidence:
  "list_all (plain_code_ok [(''reason'', codes)] payload) (evidence_fields MEMORY_EVIDENCE categories) \<longleftrightarrow> evidence_absent payload categories"
  using reason_only [of "''agentHomeMemoryChange''" codes payload] reason_only [of "''residentMemoryOverLimit''" codes payload]
  by (induction categories) (auto simp: evidence_fields_def evidence_absent_def MEMORY_EVIDENCE_def jget_def [of "[_]"])

definition sealed_output_types :: "string list" where
  "sealed_output_types = [''task.complete'', ''task.progress'', ''task.artifact'', ''task.await_approval'', ''task.fail'', ''task.decline'', ''task.cancelled'']"

lemma no_plain_fields: "type \<notin> set sealed_output_types \<Longrightarrow> plain_fields type categories = []"
proof -
  have "list_all (\<lambda>(t, e). se_category e = ''task-output'' \<longrightarrow> t \<in> set sealed_output_types) SEALED_SPLIT_TABLE" by code_simp
  then have "jget SEALED_SPLIT_TABLE type = Some e \<Longrightarrow> se_category e = ''task-output'' \<Longrightarrow> type \<in> set sealed_output_types" for e
    by (auto simp: jget_def list_all_iff dest: map_of_SomeD)
  then show "type \<notin> set sealed_output_types \<Longrightarrow> plain_fields type categories = []" by (auto simp: plain_fields_def split: option.splits)
qed

text \<open>
  The plaintext that a task whose output is sealed may still show is closed, type by type: a
  completion, a progress report, an artifact and an approval request never travel in plaintext; a
  failure, a decline and a cancellation carry a reason only from their list of codes, a failure no
  prepared observation, none of them memory evidence when the task seals its memory, and a decline
  repeats its reason as its code; every other type is not restricted.
\<close>

theorem sealed_task_plaintext_closed:
  "isSealedTaskPlainOutput type payload categories =
     (if type \<in> {''task.complete'', ''task.progress'', ''task.artifact'', ''task.await_approval''} then False
      else if type = ''task.fail'' then
        reason_in payload [''daemon_interrupted'', ''sealed_key_unavailable''] \<and> jget payload ''preparedObservation'' = None \<and>
        evidence_absent payload categories
      else if type = ''task.decline'' then
        reason_in payload SEALED_DECLINE_CODES \<and> (jget payload ''reason'' = None \<or> jget payload ''code'' = jget payload ''reason'')
      else if type = ''task.cancelled'' then jget payload ''reason'' = None \<and> evidence_absent payload categories
      else True)"
proof (cases "type \<in> set sealed_output_types")
  case True
  note rules = plain_codes plain_fields_columns [OF plain_columns(1)] plain_fields_columns [OF plain_columns(2)] plain_fields_columns [OF plain_columns(3)]
    plain_fields_columns [OF plain_columns(4)] plain_fields_columns [OF plain_columns(5)] plain_fields_columns [OF plain_columns(6)]
    plain_fields_columns [OF plain_columns(7)] plain_reason reason_only moved_evidence
  have "isSealedTaskPlainOutput ''task.fail'' payload categories =
      (reason_in payload [''daemon_interrupted'', ''sealed_key_unavailable''] \<and> jget payload ''preparedObservation'' = None \<and> evidence_absent payload categories)"
    "isSealedTaskPlainOutput ''task.decline'' payload categories =
      (reason_in payload SEALED_DECLINE_CODES \<and> (jget payload ''reason'' = None \<or> jget payload ''code'' = jget payload ''reason''))"
    "isSealedTaskPlainOutput ''task.cancelled'' payload categories = (jget payload ''reason'' = None \<and> evidence_absent payload categories)"
    "\<not> isSealedTaskPlainOutput ''task.complete'' payload categories" "\<not> isSealedTaskPlainOutput ''task.progress'' payload categories"
    "\<not> isSealedTaskPlainOutput ''task.artifact'' payload categories" "\<not> isSealedTaskPlainOutput ''task.await_approval'' payload categories"
    unfolding isSealedTaskPlainOutput_def by (auto simp: rules reason_in_def [of _ "[]"])
  then show ?thesis using True by (auto simp: sealed_output_types_def)
next
  case False
  then show ?thesis using no_plain_fields [of type categories] by (auto simp: isSealedTaskPlainOutput_def sealed_output_types_def)
qed

text \<open>
  A sealed offer is accepted exactly in two forms: the task seals its input, and the offer carries the
  sealed instruction under the task's scope and epoch and no plaintext one; or the task does not, and the
  offer carries the plaintext instruction, no sealed member and no routine.
\<close>

theorem sealed_offer_exact:
  "sealedOfferRule hasInstruction sealing sealed hasRoutineRef = [] \<longleftrightarrow>
     (if ''task-input'' \<in> set (sg_categories sealing) then
        \<not> hasInstruction \<and> (\<exists>s. sealed = Some s \<and> sp_scopeId s = sg_scopeId sealing \<and> sp_scopeEpoch s = sg_epoch sealing)
      else hasInstruction \<and> sealed = None \<and> \<not> hasRoutineRef)"
  by (auto simp: sealedOfferRule_def split: option.splits)

end
