(* ===== verification/Memory_Projection.thy ===== *)
theory Memory_Projection
  imports Receipts Json_Arrays Sealed_Payload
begin

text \<open>
  The hosted projection of agent memory: its wire schemas
  (\<open>packages/protocol/src/agent-memory-projection.ts\<close>), the reference store and the reference
  authorizer (\<open>packages/cloud/src/stores/in-memory/agent-memory-projection.ts\<close>, types of
  \<open>packages/cloud/src/agent-memory-projection.ts\<close>). \<open>isUuid\<close> and \<open>isDatetime\<close> stand for zod's formats,
  \<open>sha256\<close> for the hash of the host's cryptography; epochs and sequence numbers are integers, as the
  schemas require. The store runs the mutations of one Agent one after the other, so each is a step.
\<close>

section \<open>Wire schemas\<close>

definition AGENT_MEMORY_PROJECTION_MAX_REDACTED_BYTES :: int where "AGENT_MEMORY_PROJECTION_MAX_REDACTED_BYTES = 512 * 1024"
definition AGENT_MEMORY_PROJECTION_MAX_ORDERING_VALUE :: int where "AGENT_MEMORY_PROJECTION_MAX_ORDERING_VALUE = 2147483647"
definition OPAQUE_REFERENCE_MAX_BYTES :: nat where "OPAQUE_REFERENCE_MAX_BYTES = 512"

definition RUNTIME_IDS :: "string list" where
  "RUNTIME_IDS = [''pi'', ''claude'', ''codex'']"

definition no_control :: "string \<Rightarrow> bool" where
  "no_control v = (v \<noteq> [] \<and> list_all (\<lambda>c. \<not> (of_char c \<le> (31 :: nat) \<or> c = CHR 0x7F)) v)"

definition opaqueReference :: "string \<Rightarrow> bool" where
  "opaqueReference v =
     (1 \<le> length v \<and> length v \<le> OPAQUE_REFERENCE_MAX_BYTES \<and> utf8_length v \<le> int OPAQUE_REFERENCE_MAX_BYTES \<and> no_control v)"

definition POLICY_REVISION :: "string \<Rightarrow> bool" where
  "POLICY_REVISION v = (1 \<le> length v \<and> length v \<le> 160 \<and> no_control v)"

definition ordering_value :: "int \<Rightarrow> bool" where
  "ordering_value n = (1 \<le> n \<and> n \<le> AGENT_MEMORY_PROJECTION_MAX_ORDERING_VALUE)"

definition agentMemoryProjectionBase64UrlByteLength :: "string \<Rightarrow> nat option" where
  "agentMemoryProjectionBase64UrlByteLength v =
     (if \<not> B64URL_PATTERN v \<or> length v mod 4 = 1 then None
      else let complete = length v div 4 * 3; tail = length v mod 4 in Some (complete + (if tail = 0 then 0 else tail - 1)))"

record memory_identity =
  mi_taskId :: string
  mi_agentRef :: agent_ref
  mi_sessionRef :: string
  mi_runtimeId :: string
  mi_grantRef :: string
  mi_writerEpoch :: int
  mi_sourceSeq :: int
  mi_mutationId :: string
  mi_policyRevision :: string

record memory_snapshot =
  sn_redactedHash :: string
  sn_redactedByteCount :: int
  sn_redactedBytes :: string

datatype memory_body = Plain_body memory_snapshot | Sealed_body sealed_payload

record memory_mutation =
  mm_identity :: memory_identity
  mm_body :: memory_body

definition MUTATION_IDENTITY :: "(string \<Rightarrow> bool) \<Rightarrow> memory_identity \<Rightarrow> bool" where
  "MUTATION_IDENTITY isUuid i =
     (1 \<le> length (mi_taskId i) \<and> length (mi_taskId i) \<le> 512 \<and> AgentRefSchema (mi_agentRef i) \<and>
      opaqueReference (mi_sessionRef i) \<and> mi_runtimeId i \<in> set RUNTIME_IDS \<and> opaqueReference (mi_grantRef i) \<and>
      ordering_value (mi_writerEpoch i) \<and> ordering_value (mi_sourceSeq i) \<and> isUuid (mi_mutationId i) \<and>
      POLICY_REVISION (mi_policyRevision i))"

definition byte_count :: "int \<Rightarrow> bool" where
  "byte_count n = (0 \<le> n \<and> n \<le> AGENT_MEMORY_PROJECTION_MAX_REDACTED_BYTES)"

definition AgentMemoryProjectionSnapshotSchema :: "memory_snapshot \<Rightarrow> bool" where
  "AgentMemoryProjectionSnapshotSchema s =
     (CONTENT_HASH_PATTERN (sn_redactedHash s) \<and> byte_count (sn_redactedByteCount s) \<and>
      int (length (sn_redactedBytes s)) \<le> (AGENT_MEMORY_PROJECTION_MAX_REDACTED_BYTES + 2) div 3 * 4 \<and>
      map_option int (agentMemoryProjectionBase64UrlByteLength (sn_redactedBytes s)) = Some (sn_redactedByteCount s))"

definition AgentMemoryProjectionMutationSchema :: "(string \<Rightarrow> bool) \<Rightarrow> memory_mutation \<Rightarrow> bool" where
  "AgentMemoryProjectionMutationSchema isUuid m =
     (MUTATION_IDENTITY isUuid (mm_identity m) \<and>
      (case mm_body m of Plain_body s \<Rightarrow> AgentMemoryProjectionSnapshotSchema s | Sealed_body s \<Rightarrow> SealedMemoryProjectionSchema s))"

datatype projection_outcome = Accepted | Idempotent

text \<open>\<open>contentFields\<close>: the redacted hash and size, or the content MAC and the padded length.\<close>

datatype projection_content = Redacted string int | Padded string int

record memory_receipt =
  mr_outcome :: projection_outcome
  mr_tenantId :: tenant
  mr_deviceId :: string
  mr_identity :: memory_identity
  mr_content :: projection_content
  mr_meteringReceiptId :: string
  mr_acceptedBytes :: int
  mr_recordedAt :: string

definition wire_padded :: "int \<Rightarrow> bool" where
  "wire_padded n = (positive_integer n \<and> isLegalWireLength (Fin (of_int n)))"

definition AgentMemoryProjectionReceiptSchema :: "(string \<Rightarrow> bool) \<Rightarrow> (string \<Rightarrow> bool) \<Rightarrow> memory_receipt \<Rightarrow> bool" where
  "AgentMemoryProjectionReceiptSchema isUuid isDatetime r =
     (mr_tenantId r \<noteq> [] \<and> mr_deviceId r \<noteq> [] \<and> MUTATION_IDENTITY isUuid (mr_identity r) \<and>
      isUuid (mr_meteringReceiptId r) \<and> isDatetime (mr_recordedAt r) \<and>
      (case mr_content r of
         Redacted h n \<Rightarrow> CONTENT_HASH_PATTERN h \<and> byte_count n \<and> byte_count (mr_acceptedBytes r)
       | Padded h n \<Rightarrow> CONTENT_MAC_PATTERN h \<and> wire_padded n \<and> wire_padded (mr_acceptedBytes r)))"

definition AgentMemoryProjectionEraseResultSchema :: "int \<Rightarrow> bool" where
  "AgentMemoryProjectionEraseResultSchema = ordering_value"

section \<open>The store\<close>

definition agentKey :: "tenant \<Rightarrow> string \<Rightarrow> string" where
  "agentKey t agentId = t @ TENANT_KEY_SEPARATOR # agentId"

definition receiptKey :: "tenant \<Rightarrow> memory_identity \<Rightarrow> string" where
  "receiptKey t i =
     agentKey t (ar_agentId (mi_agentRef i)) @ TENANT_KEY_SEPARATOR # int_text (mi_writerEpoch i) @
       TENANT_KEY_SEPARATOR # int_text (mi_sourceSeq i)"

definition contentFields :: "memory_mutation \<Rightarrow> projection_content" where
  "contentFields m = (case mm_body m of
     Plain_body s \<Rightarrow> Redacted (sn_redactedHash s) (sn_redactedByteCount s)
   | Sealed_body s \<Rightarrow> Padded (sp_contentMac s) (sp_paddedLength s))"

text \<open>Every entry of the mutation's content fields is a field of the receipt.\<close>

definition sameMutationReceipt :: "memory_receipt \<Rightarrow> tenant \<Rightarrow> string \<Rightarrow> memory_mutation \<Rightarrow> bool" where
  "sameMutationReceipt r t deviceId m =
     (let i = mr_identity r; j = mm_identity m in
      mr_tenantId r = t \<and> mr_deviceId r = deviceId \<and> mi_taskId i = mi_taskId j \<and>
      ar_agentId (mi_agentRef i) = ar_agentId (mi_agentRef j) \<and> ar_profileRevision (mi_agentRef i) = ar_profileRevision (mi_agentRef j) \<and>
      mi_sessionRef i = mi_sessionRef j \<and> mi_runtimeId i = mi_runtimeId j \<and> mi_grantRef i = mi_grantRef j \<and>
      mi_writerEpoch i = mi_writerEpoch j \<and> mi_sourceSeq i = mi_sourceSeq j \<and> mi_mutationId i = mi_mutationId j \<and>
      mi_policyRevision i = mi_policyRevision j \<and> mr_content r = contentFields m)"

record projection_head =
  ph_writerEpoch :: int
  ph_sourceSeq :: int

datatype stored_snapshot = Stored_bytes "byte list" | Stored_sealed sealed_payload

record projection_state =
  ps_heads :: "projection_head jmap"
  ps_snapshots :: "stored_snapshot jmap"
  ps_receipts :: "memory_receipt jmap"
  ps_eraseFences :: "int jmap"

definition empty_projection :: projection_state where
  "empty_projection = \<lparr>ps_heads = [], ps_snapshots = [], ps_receipts = [], ps_eraseFences = []\<rparr>"

record commit_input =
  pi_deviceId :: string
  pi_mutation :: memory_mutation
  pi_redactedBytes :: "byte list option"

text \<open>The part of \<open>commit\<close> before it waits for its turn: the schema, the length and the hash.\<close>

definition commit_snapshot :: "(string \<Rightarrow> bool) \<Rightarrow> (byte list \<Rightarrow> string) \<Rightarrow> commit_input \<Rightarrow> cloud_error + stored_snapshot" where
  "commit_snapshot isUuid sha256 input =
     (if \<not> AgentMemoryProjectionMutationSchema isUuid (pi_mutation input) then Inl SchemaError
      else case mm_body (pi_mutation input) of
        Sealed_body s \<Rightarrow> Inr (Stored_sealed s)
      | Plain_body s \<Rightarrow>
          (case pi_redactedBytes input of
             None \<Rightarrow> Inl (ByokCloudError Agent_memory_projection_hash_mismatch)
           | Some bytes \<Rightarrow>
               if int (length bytes) \<noteq> sn_redactedByteCount s then Inl (ByokCloudError Agent_memory_projection_hash_mismatch)
               else if sha256 bytes \<noteq> sn_redactedHash s then Inl (ByokCloudError Agent_memory_projection_hash_mismatch)
               else Inr (Stored_bytes bytes)))"

text \<open>The order check of a mutation that has no receipt: \<open>None\<close> when it may be written.\<close>

definition order_error :: "int option \<Rightarrow> projection_head option \<Rightarrow> int \<Rightarrow> int \<Rightarrow> cloud_error option" where
  "order_error fence head writerEpoch sourceSeq =
     (if (case fence of None \<Rightarrow> False | Some f \<Rightarrow> writerEpoch < f) then Some (ByokCloudError Agent_memory_projection_erased_epoch)
      else case head of
        None \<Rightarrow> if sourceSeq \<noteq> 1 then Some (ByokCloudError Agent_memory_projection_sequence_gap) else None
      | Some h \<Rightarrow>
          if writerEpoch < ph_writerEpoch h then Some (ByokCloudError Agent_memory_projection_stale_epoch)
          else if writerEpoch > ph_writerEpoch h then
            (if sourceSeq \<noteq> 1 then Some (ByokCloudError Agent_memory_projection_sequence_gap) else None)
          else if sourceSeq \<noteq> ph_sourceSeq h + 1 then Some (ByokCloudError Agent_memory_projection_sequence_gap)
          else None)"

definition accepted_receipt :: "tenant \<Rightarrow> commit_input \<Rightarrow> string \<Rightarrow> int \<Rightarrow> memory_receipt" where
  "accepted_receipt t input uuid now =
     (let m = pi_mutation input in
      \<lparr>mr_outcome = Accepted, mr_tenantId = t, mr_deviceId = pi_deviceId input, mr_identity = mm_identity m, mr_content = contentFields m,
       mr_meteringReceiptId = uuid,
       mr_acceptedBytes = (case mm_body m of Plain_body s \<Rightarrow> sn_redactedByteCount s | Sealed_body s \<Rightarrow> sp_paddedLength s),
       mr_recordedAt = toISOString now\<rparr>)"

text \<open>The part of \<open>commit\<close> that runs in its turn.\<close>

definition commit_turn :: "(string \<Rightarrow> bool) \<Rightarrow> (string \<Rightarrow> bool) \<Rightarrow> tenant \<Rightarrow> commit_input \<Rightarrow> stored_snapshot \<Rightarrow> string \<Rightarrow> int \<Rightarrow>
    projection_state \<Rightarrow> (cloud_error + memory_receipt) \<times> projection_state" where
  "commit_turn isUuid isDatetime t input snapshot uuid now s =
     (let m = pi_mutation input; i = mm_identity m; key = agentKey t (ar_agentId (mi_agentRef i)); rkey = receiptKey t i in
      case jget (ps_receipts s) rkey of
        Some prior \<Rightarrow>
          if \<not> sameMutationReceipt prior t (pi_deviceId input) m then (Inl (ByokCloudError Agent_memory_projection_replay_mismatch), s)
          else let r = prior\<lparr>mr_outcome := Idempotent\<rparr>
            in if AgentMemoryProjectionReceiptSchema isUuid isDatetime r then (Inr r, s) else (Inl SchemaError, s)
      | None \<Rightarrow>
          (case order_error (jget (ps_eraseFences s) key) (jget (ps_heads s) key) (mi_writerEpoch i) (mi_sourceSeq i) of
             Some e \<Rightarrow> (Inl e, s)
           | None \<Rightarrow>
               let receipt = accepted_receipt t input uuid now
               in if \<not> AgentMemoryProjectionReceiptSchema isUuid isDatetime receipt then (Inl SchemaError, s)
                  else (Inr receipt,
                    s\<lparr>ps_snapshots := jset key snapshot (ps_snapshots s),
                      ps_heads := jset key \<lparr>ph_writerEpoch = mi_writerEpoch i, ph_sourceSeq = mi_sourceSeq i\<rparr> (ps_heads s),
                      ps_receipts := jset rkey receipt (ps_receipts s)\<rparr>)))"

definition projection_commit :: "(string \<Rightarrow> bool) \<Rightarrow> (string \<Rightarrow> bool) \<Rightarrow> (byte list \<Rightarrow> string) \<Rightarrow> tenant \<Rightarrow> commit_input \<Rightarrow> string \<Rightarrow> int \<Rightarrow>
    projection_state \<Rightarrow> (cloud_error + memory_receipt) \<times> projection_state" where
  "projection_commit isUuid isDatetime sha256 t input uuid now s =
     (case commit_snapshot isUuid sha256 input of
        Inl e \<Rightarrow> (Inl e, s)
      | Inr snapshot \<Rightarrow> commit_turn isUuid isDatetime t input snapshot uuid now s)"

text \<open>\<open>erase\<close>: the epoch it answers, which is at least the one of an earlier erasure.\<close>

definition next_writer_epoch :: "tenant \<Rightarrow> string \<Rightarrow> projection_state \<Rightarrow> int" where
  "next_writer_epoch t agentId s =
     (let key = agentKey t agentId;
          priorHeadEpoch = (case jget (ps_heads s) key of None \<Rightarrow> 0 | Some h \<Rightarrow> ph_writerEpoch h)
      in max (case jget (ps_eraseFences s) key of None \<Rightarrow> 1 | Some f \<Rightarrow> f) (priorHeadEpoch + 1))"

definition projection_erase :: "tenant \<Rightarrow> string \<Rightarrow> projection_state \<Rightarrow> (cloud_error + int) \<times> projection_state" where
  "projection_erase t agentId s =
     (let key = agentKey t agentId; nextWriterEpoch = next_writer_epoch t agentId s in
      if nextWriterEpoch > AGENT_MEMORY_PROJECTION_MAX_ORDERING_VALUE then
        (Inl (ByokCloudError Agent_memory_projection_epoch_exhausted), s)
      else
        let s' = \<lparr>ps_heads = jdel key (ps_heads s), ps_snapshots = jdel key (ps_snapshots s),
              ps_receipts = filter (\<lambda>e. \<not> prefix (key @ [TENANT_KEY_SEPARATOR]) (fst e)) (ps_receipts s),
              ps_eraseFences = jset key nextWriterEpoch (ps_eraseFences s)\<rparr>
        in if AgentMemoryProjectionEraseResultSchema nextWriterEpoch then (Inr nextWriterEpoch, s') else (Inl SchemaError, s'))"

section \<open>The authorizer\<close>

record projection_sealing =
  pg_scopeId :: string
  pg_epoch :: int

record authorizer_input =
  ai_tenantId :: tenant
  ai_deviceId :: string
  ai_taskId :: string
  ai_agentRef :: agent_ref
  ai_sessionRef :: string
  ai_runtimeId :: string
  ai_grantRef :: string
  ai_writerEpoch :: int
  ai_policyRevision :: string

datatype authorization = Authorized "projection_sealing option" | Denied string

record authorizer_state =
  as_grants :: "(authorizer_input \<times> projection_sealing option) jmap"
  as_highestEpochs :: "int jmap"

definition permitKey :: "authorizer_input \<Rightarrow> string" where
  "permitKey i = json_array [Inl (ai_tenantId i), Inl (ai_deviceId i), Inl (ai_taskId i), Inl (ar_agentId (ai_agentRef i)),
     Inl (ar_profileRevision (ai_agentRef i)), Inl (ai_sessionRef i), Inl (ai_runtimeId i), Inl (ai_grantRef i), Inr (ai_writerEpoch i),
     Inl (ai_policyRevision i)]"

definition same_agent :: "tenant \<Rightarrow> string \<Rightarrow> authorizer_input \<Rightarrow> bool" where
  "same_agent t agentId g = (ai_tenantId g = t \<and> ar_agentId (ai_agentRef g) = agentId)"

definition authorizer_grant :: "authorizer_input \<Rightarrow> projection_sealing option \<Rightarrow> authorizer_state \<Rightarrow> authorizer_state" where
  "authorizer_grant i sealing a =
     (let agentId = ar_agentId (ai_agentRef i); key = agentKey (ai_tenantId i) agentId;
          highestEpoch = jget (as_highestEpochs a) key
      in if (case highestEpoch of None \<Rightarrow> False | Some h \<Rightarrow> ai_writerEpoch i < h) then a
         else
           let a' = (if (case highestEpoch of None \<Rightarrow> True | Some h \<Rightarrow> ai_writerEpoch i > h)
                 then a\<lparr>as_grants := filter (\<lambda>(_, g, _). \<not> (same_agent (ai_tenantId i) agentId g \<and> ai_writerEpoch g < ai_writerEpoch i)) (as_grants a),
                        as_highestEpochs := jset key (ai_writerEpoch i) (as_highestEpochs a)\<rparr>
                 else a)
           in a'\<lparr>as_grants := jset (permitKey i) (i, sealing) (as_grants a')\<rparr>)"

definition authorizer_authorize :: "authorizer_input \<Rightarrow> authorizer_state \<Rightarrow> authorization" where
  "authorizer_authorize i a = (case jget (as_grants a) (permitKey i) of None \<Rightarrow> Denied ''grant_not_authorized'' | Some (_, sealing) \<Rightarrow> Authorized sealing)"

definition authorizer_revoke :: "tenant \<Rightarrow> string \<Rightarrow> authorizer_state \<Rightarrow> authorizer_state" where
  "authorizer_revoke t agentId a = a\<lparr>as_grants := filter (\<lambda>(_, g, _). \<not> same_agent t agentId g) (as_grants a)\<rparr>"

section \<open>Keys\<close>

definition agent_id_ok :: "string \<Rightarrow> bool" where
  "agent_id_ok a = (TENANT_KEY_SEPARATOR \<notin> set a)"

definition rkey :: "tenant \<Rightarrow> string \<Rightarrow> int \<Rightarrow> int \<Rightarrow> string" where
  "rkey t a e q = agentKey t a @ TENANT_KEY_SEPARATOR # int_text e @ TENANT_KEY_SEPARATOR # int_text q"

lemma receiptKey_rkey: "receiptKey t i = rkey t (ar_agentId (mi_agentRef i)) (mi_writerEpoch i) (mi_sourceSeq i)"
  by (simp add: receiptKey_def rkey_def)

lemma AgentRef_id_ok: "AgentRefSchema ref \<Longrightarrow> agent_id_ok (ar_agentId ref)"
proof -
  assume "AgentRefSchema ref"
  then have "list_all (\<lambda>c. \<not> (of_char c \<le> (31 :: nat) \<or> c = CHR 0x7F)) (ar_agentId ref)"
    by (simp only: AgentRefSchema_def agent_ref_value_def)
  moreover have "of_char TENANT_KEY_SEPARATOR \<le> (31 :: nat)" by (simp add: TENANT_KEY_SEPARATOR_def)
  ultimately show ?thesis by (auto simp: agent_id_ok_def list_all_iff)
qed

lemma int_text_no_sep: "TENANT_KEY_SEPARATOR \<notin> set (int_text n)"
  by (auto dest!: int_text_chars simp: isdigit_def less_eq_char_def TENANT_KEY_SEPARATOR_def)

lemma int_text_inject [simp]: "int_text m = int_text n \<longleftrightarrow> m = n"
  using int_value_text [of m] int_value_text [of n] by metis

lemma agentKey_inject: "isTenantId t \<Longrightarrow> isTenantId u \<Longrightarrow> agentKey t a = agentKey u b \<longleftrightarrow> t = u \<and> a = b"
  by (simp add: agentKey_def)

lemma rkey_inject:
  assumes "isTenantId t" and "isTenantId u" and "agent_id_ok a" and "agent_id_ok b"
  shows "rkey t a e q = rkey u b e' q' \<longleftrightarrow> t = u \<and> a = b \<and> e = e' \<and> q = q'"
  using assms by (auto simp: rkey_def agentKey_def agent_id_ok_def append_sep_eq isTenantId_no_sep int_text_no_sep)

lemma rkey_prefix:
  assumes "isTenantId t" and "isTenantId u" and "agent_id_ok a" and "agent_id_ok b"
  shows "prefix (agentKey t a @ [TENANT_KEY_SEPARATOR]) (rkey u b e q) \<longleftrightarrow> t = u \<and> a = b"
proof
  assume "prefix (agentKey t a @ [TENANT_KEY_SEPARATOR]) (rkey u b e q)"
  then obtain z where "rkey u b e q = agentKey t a @ TENANT_KEY_SEPARATOR # z" by (auto simp: prefix_def)
  then show "t = u \<and> a = b"
    using assms by (simp add: rkey_def agentKey_def agent_id_ok_def append_sep_eq isTenantId_no_sep)
qed (simp add: rkey_def)

section \<open>One Agent's memory\<close>

text \<open>The specification: an Agent's memory on its own, with its receipts addressed by epoch and sequence number.\<close>

record agent_memory =
  am_fence :: "int option"
  am_head :: "projection_head option"
  am_snapshot :: "stored_snapshot option"
  am_receipt :: "int \<Rightarrow> int \<Rightarrow> memory_receipt option"

definition agent_memory_of :: "tenant \<Rightarrow> string \<Rightarrow> projection_state \<Rightarrow> agent_memory" where
  "agent_memory_of t a s =
     \<lparr>am_fence = jget (ps_eraseFences s) (agentKey t a), am_head = jget (ps_heads s) (agentKey t a),
      am_snapshot = jget (ps_snapshots s) (agentKey t a), am_receipt = \<lambda>e q. jget (ps_receipts s) (rkey t a e q)\<rparr>"

definition memory_commit :: "(string \<Rightarrow> bool) \<Rightarrow> (string \<Rightarrow> bool) \<Rightarrow> tenant \<Rightarrow> commit_input \<Rightarrow> stored_snapshot \<Rightarrow> string \<Rightarrow> int \<Rightarrow>
    agent_memory \<Rightarrow> (cloud_error + memory_receipt) \<times> agent_memory" where
  "memory_commit isUuid isDatetime t input snapshot uuid now m =
     (let i = mm_identity (pi_mutation input); e = mi_writerEpoch i; q = mi_sourceSeq i in
      case am_receipt m e q of
        Some prior \<Rightarrow>
          if \<not> sameMutationReceipt prior t (pi_deviceId input) (pi_mutation input) then (Inl (ByokCloudError Agent_memory_projection_replay_mismatch), m)
          else if AgentMemoryProjectionReceiptSchema isUuid isDatetime prior then (Inr (prior\<lparr>mr_outcome := Idempotent\<rparr>), m)
          else (Inl SchemaError, m)
      | None \<Rightarrow>
          (case order_error (am_fence m) (am_head m) e q of
             Some err \<Rightarrow> (Inl err, m)
           | None \<Rightarrow>
               let receipt = accepted_receipt t input uuid now
               in if \<not> AgentMemoryProjectionReceiptSchema isUuid isDatetime receipt then (Inl SchemaError, m)
                  else (Inr receipt,
                    m\<lparr>am_snapshot := Some snapshot, am_head := Some \<lparr>ph_writerEpoch = e, ph_sourceSeq = q\<rparr>,
                      am_receipt := (am_receipt m)(e := (am_receipt m e)(q := Some receipt))\<rparr>)))"

definition memory_erase :: "agent_memory \<Rightarrow> (cloud_error + int) \<times> agent_memory" where
  "memory_erase m =
     (let n = max (case am_fence m of None \<Rightarrow> 1 | Some f \<Rightarrow> f) (case am_head m of None \<Rightarrow> 1 | Some h \<Rightarrow> ph_writerEpoch h + 1) in
      if n > AGENT_MEMORY_PROJECTION_MAX_ORDERING_VALUE then (Inl (ByokCloudError Agent_memory_projection_epoch_exhausted), m)
      else (if n \<ge> 1 then Inr n else Inl SchemaError,
        \<lparr>am_fence = Some n, am_head = None, am_snapshot = None, am_receipt = \<lambda>_ _. None\<rparr>))"

lemma schema_outcome: "AgentMemoryProjectionReceiptSchema isUuid isDatetime (r\<lparr>mr_outcome := x\<rparr>) = AgentMemoryProjectionReceiptSchema isUuid isDatetime r"
  by (simp add: AgentMemoryProjectionReceiptSchema_def split: projection_content.split)

lemma commit_turn_spec:
  assumes "isTenantId t" and "agent_id_ok (ar_agentId (mi_agentRef (mm_identity (pi_mutation input))))"
  defines "a \<equiv> ar_agentId (mi_agentRef (mm_identity (pi_mutation input)))"
  shows "map_prod id (agent_memory_of t a) (commit_turn isUuid isDatetime t input snapshot uuid now s) =
    memory_commit isUuid isDatetime t input snapshot uuid now (agent_memory_of t a s)"
  using assms(1,2) unfolding a_def [symmetric]
  by (auto simp: commit_turn_def memory_commit_def Let_def agent_memory_of_def receiptKey_rkey a_def schema_outcome rkey_inject fun_eq_iff
      split: option.splits)

lemma commit_turn_frame:
  assumes "isTenantId t" and "isTenantId u" and "agent_id_ok (ar_agentId (mi_agentRef (mm_identity (pi_mutation input))))" and "agent_id_ok b"
    and "(u, b) \<noteq> (t, ar_agentId (mi_agentRef (mm_identity (pi_mutation input))))"
  shows "agent_memory_of u b (snd (commit_turn isUuid isDatetime t input snapshot uuid now s)) = agent_memory_of u b s"
  using assms
  by (auto simp: commit_turn_def Let_def agent_memory_of_def receiptKey_rkey rkey_inject agentKey_inject fun_eq_iff split: option.splits)

lemma jget_filter_prefix: "jget (filter (\<lambda>e. \<not> prefix p (fst e)) m) k = (if prefix p k then None else jget m k)"
  by (induction m) (auto simp: jget_def)

lemma erase_spec:
  assumes "isTenantId t" and "agent_id_ok a"
  shows "map_prod id (agent_memory_of t a) (projection_erase t a s) = memory_erase (agent_memory_of t a s)"
proof -
  have "jget (filter (\<lambda>e. \<not> prefix (agentKey t a @ [TENANT_KEY_SEPARATOR]) (fst e)) m) (rkey t a e q) = None" for m :: "memory_receipt jmap" and e q
    using assms by (simp add: jget_filter_prefix rkey_prefix)
  then show ?thesis
    by (auto simp: projection_erase_def memory_erase_def Let_def agent_memory_of_def next_writer_epoch_def
        AgentMemoryProjectionEraseResultSchema_def ordering_value_def fun_eq_iff split: option.splits)
qed

lemma erase_frame:
  assumes "isTenantId t" and "isTenantId u" and "agent_id_ok a" and "agent_id_ok b" and "(u, b) \<noteq> (t, a)"
  shows "agent_memory_of u b (snd (projection_erase t a s)) = agent_memory_of u b s"
  using assms by (auto simp: projection_erase_def Let_def agent_memory_of_def jget_filter_prefix rkey_prefix agentKey_inject fun_eq_iff)

section \<open>What every history keeps\<close>

definition snapshot_content :: "(byte list \<Rightarrow> string) \<Rightarrow> stored_snapshot \<Rightarrow> projection_content" where
  "snapshot_content sha256 sn = (case sn of
     Stored_bytes b \<Rightarrow> Redacted (sha256 b) (int (length b))
   | Stored_sealed x \<Rightarrow> Padded (sp_contentMac x) (sp_paddedLength x))"

definition upto_head :: "projection_head option \<Rightarrow> int \<Rightarrow> int \<Rightarrow> bool" where
  "upto_head head e q = (case head of None \<Rightarrow> False | Some h \<Rightarrow> e < ph_writerEpoch h \<or> e = ph_writerEpoch h \<and> q \<le> ph_sourceSeq h)"

definition fence_below :: "int option \<Rightarrow> int \<Rightarrow> bool" where
  "fence_below fence e = (case fence of None \<Rightarrow> True | Some f \<Rightarrow> f \<le> e)"

definition receipt_ok :: "(string \<Rightarrow> bool) \<Rightarrow> (string \<Rightarrow> bool) \<Rightarrow> tenant \<Rightarrow> string \<Rightarrow> agent_memory \<Rightarrow> int \<Rightarrow> int \<Rightarrow> memory_receipt \<Rightarrow> bool" where
  "receipt_ok isUuid isDatetime t a m e q r =
     (mr_tenantId r = t \<and> ar_agentId (mi_agentRef (mr_identity r)) = a \<and> mi_writerEpoch (mr_identity r) = e \<and> mi_sourceSeq (mr_identity r) = q \<and>
      mr_outcome r = Accepted \<and> AgentMemoryProjectionReceiptSchema isUuid isDatetime r \<and>
      fence_below (am_fence m) e \<and> upto_head (am_head m) e q)"

definition memory_ok :: "(string \<Rightarrow> bool) \<Rightarrow> (string \<Rightarrow> bool) \<Rightarrow> (byte list \<Rightarrow> string) \<Rightarrow> tenant \<Rightarrow> string \<Rightarrow> agent_memory \<Rightarrow> bool" where
  "memory_ok isUuid isDatetime sha256 t a m \<longleftrightarrow>
     (\<forall>e q r. am_receipt m e q = Some r \<longrightarrow> receipt_ok isUuid isDatetime t a m e q r) \<and>
     (\<forall>e q p. am_receipt m e q \<noteq> None \<and> 1 \<le> p \<and> p \<le> q \<longrightarrow> am_receipt m e p \<noteq> None) \<and>
     (case am_head m of
        None \<Rightarrow> am_snapshot m = None
      | Some h \<Rightarrow> fence_below (am_fence m) (ph_writerEpoch h) \<and>
          (\<exists>r sn. am_receipt m (ph_writerEpoch h) (ph_sourceSeq h) = Some r \<and> am_snapshot m = Some sn \<and> snapshot_content sha256 sn = mr_content r))"

lemma commit_snapshot_Inr:
  assumes "commit_snapshot isUuid sha256 input = Inr sn"
  shows "snapshot_content sha256 sn = contentFields (pi_mutation input)" "MUTATION_IDENTITY isUuid (mm_identity (pi_mutation input))"
    "agent_id_ok (ar_agentId (mi_agentRef (mm_identity (pi_mutation input))))"
proof -
  show "snapshot_content sha256 sn = contentFields (pi_mutation input)"
    using assms by (auto simp: commit_snapshot_def snapshot_content_def contentFields_def split: if_splits memory_body.splits option.splits)
  show m: "MUTATION_IDENTITY isUuid (mm_identity (pi_mutation input))"
    using assms by (simp add: commit_snapshot_def AgentMemoryProjectionMutationSchema_def split: if_splits)
  then show "agent_id_ok (ar_agentId (mi_agentRef (mm_identity (pi_mutation input))))"
    by (intro AgentRef_id_ok) (simp add: MUTATION_IDENTITY_def)
qed

text \<open>The outcomes of a commit on its Agent's memory.\<close>

lemma memory_commit_cases:
  obtains (replay) prior where "am_receipt m (mi_writerEpoch (mm_identity (pi_mutation input))) (mi_sourceSeq (mm_identity (pi_mutation input))) = Some prior"
      "snd (memory_commit isUuid isDatetime t input sn uuid now m) = m"
  | (refused) e where "memory_commit isUuid isDatetime t input sn uuid now m = (Inl e, m)"
  | (accepted) "am_receipt m (mi_writerEpoch (mm_identity (pi_mutation input))) (mi_sourceSeq (mm_identity (pi_mutation input))) = None"
      "order_error (am_fence m) (am_head m) (mi_writerEpoch (mm_identity (pi_mutation input))) (mi_sourceSeq (mm_identity (pi_mutation input))) = None"
      "AgentMemoryProjectionReceiptSchema isUuid isDatetime (accepted_receipt t input uuid now)"
      "memory_commit isUuid isDatetime t input sn uuid now m = (Inr (accepted_receipt t input uuid now),
         m\<lparr>am_snapshot := Some sn,
           am_head := Some \<lparr>ph_writerEpoch = mi_writerEpoch (mm_identity (pi_mutation input)), ph_sourceSeq = mi_sourceSeq (mm_identity (pi_mutation input))\<rparr>,
           am_receipt := (am_receipt m)(mi_writerEpoch (mm_identity (pi_mutation input)) :=
             (am_receipt m (mi_writerEpoch (mm_identity (pi_mutation input))))(mi_sourceSeq (mm_identity (pi_mutation input)) := Some (accepted_receipt t input uuid now)))\<rparr>)"
  unfolding memory_commit_def Let_def
  by (cases "am_receipt m (mi_writerEpoch (mm_identity (pi_mutation input))) (mi_sourceSeq (mm_identity (pi_mutation input)))"; fastforce split: option.splits if_splits)

lemma order_ok:
  assumes "order_error fence head e q = None"
  shows "fence_below fence e" "\<And>e' q'. upto_head head e' q' \<Longrightarrow> upto_head (Some \<lparr>ph_writerEpoch = e, ph_sourceSeq = q\<rparr>) e' q'"
    "q = 1 \<or> (\<exists>h. head = Some h \<and> ph_writerEpoch h = e \<and> q = ph_sourceSeq h + 1)"
  using assms by (auto simp: order_error_def fence_below_def upto_head_def split: option.splits if_splits)

lemma memory_commit_ok:
  assumes ok: "memory_ok isUuid isDatetime sha256 t (ar_agentId (mi_agentRef (mm_identity (pi_mutation input)))) m"
    and sn: "snapshot_content sha256 sn = contentFields (pi_mutation input)"
  shows "memory_ok isUuid isDatetime sha256 t (ar_agentId (mi_agentRef (mm_identity (pi_mutation input)))) (snd (memory_commit isUuid isDatetime t input sn uuid now m))"
proof (cases rule: memory_commit_cases [of m input isUuid isDatetime t sn uuid now])
  case replay
  then show ?thesis using ok by simp
next
  case refused
  then show ?thesis using ok by simp
next
  case accepted
  let ?e = "mi_writerEpoch (mm_identity (pi_mutation input))" and ?q = "mi_sourceSeq (mm_identity (pi_mutation input))"
  let ?m = "snd (memory_commit isUuid isDatetime t input sn uuid now m)"
  note O = order_ok [OF accepted(2)]
  have r: "receipt_ok isUuid isDatetime t (ar_agentId (mi_agentRef (mm_identity (pi_mutation input)))) ?m ?e ?q (accepted_receipt t input uuid now)"
    using accepted(3) O(1) by (simp add: accepted(4) receipt_ok_def upto_head_def) (simp add: accepted_receipt_def Let_def)
  have old: "receipt_ok isUuid isDatetime t (ar_agentId (mi_agentRef (mm_identity (pi_mutation input)))) ?m e q r"
    if "am_receipt m e q = Some r" for e q r
    using that ok O(2) [of e q] by (auto simp: accepted(4) memory_ok_def receipt_ok_def)
  have D: "\<And>e q p. am_receipt m e q \<noteq> None \<Longrightarrow> 1 \<le> p \<Longrightarrow> p \<le> q \<Longrightarrow> am_receipt m e p \<noteq> None"
    using ok unfolding memory_ok_def by blast
  have chain: "am_receipt m ?e p \<noteq> None" if p: "1 \<le> p" "p < ?q" for p
  proof -
    obtain h where h: "am_head m = Some h" "ph_writerEpoch h = ?e" "?q = ph_sourceSeq h + 1" using O(3) p by auto
    then have "am_receipt m ?e (ph_sourceSeq h) \<noteq> None" using ok by (auto simp: memory_ok_def)
    moreover have "p \<le> ph_sourceSeq h" using p(2) h(3) by simp
    ultimately show ?thesis using D p(1) by blast
  qed
  have dense: "am_receipt ?m e p \<noteq> None" if "am_receipt ?m e q \<noteq> None" "1 \<le> p" "p \<le> q" for e q p
    using that chain [of p] D [of e q p] by (auto simp: accepted(4) split: if_splits)
  have "mr_content (accepted_receipt t input uuid now) = snapshot_content sha256 sn" by (simp add: sn accepted_receipt_def Let_def)
  then have "case am_head ?m of None \<Rightarrow> am_snapshot ?m = None
      | Some h \<Rightarrow> fence_below (am_fence ?m) (ph_writerEpoch h) \<and>
          (\<exists>r sn. am_receipt ?m (ph_writerEpoch h) (ph_sourceSeq h) = Some r \<and> am_snapshot ?m = Some sn \<and> snapshot_content sha256 sn = mr_content r)"
    using O(1) by (simp add: accepted(4))
  moreover have "receipt_ok isUuid isDatetime t (ar_agentId (mi_agentRef (mm_identity (pi_mutation input)))) ?m e q x"
    if "am_receipt ?m e q = Some x" for e q x
  proof (cases "(e, q) = (?e, ?q)")
    case True
    then show ?thesis using that r by (simp add: accepted(4))
  next
    case False
    then have "am_receipt m e q = Some x" using that by (auto simp: accepted(4) split: if_splits)
    then show ?thesis by (rule old)
  qed
  ultimately show ?thesis unfolding memory_ok_def using dense by blast
qed

lemma memory_erase_ok: "memory_ok isUuid isDatetime sha256 t a m \<Longrightarrow> memory_ok isUuid isDatetime sha256 t a (snd (memory_erase m))"
  by (simp add: memory_erase_def Let_def) (simp add: memory_ok_def)

lemma memory_ok_empty: "memory_ok isUuid isDatetime sha256 t a (agent_memory_of t a empty_projection)"
  by (simp add: memory_ok_def agent_memory_of_def empty_projection_def)

section \<open>Histories\<close>

datatype projection_op = ProjectionCommit commit_input string int | ProjectionErase string

datatype projection_result = Committed "cloud_error + memory_receipt" | Erased "cloud_error + int"

fun projection_exec :: "(string \<Rightarrow> bool) \<Rightarrow> (string \<Rightarrow> bool) \<Rightarrow> (byte list \<Rightarrow> string) \<Rightarrow> tenant \<Rightarrow> projection_op \<Rightarrow> projection_state \<Rightarrow>
    projection_result \<times> projection_state" where
  "projection_exec isUuid isDatetime sha256 t (ProjectionCommit input uuid now) s =
     map_prod Committed id (projection_commit isUuid isDatetime sha256 t input uuid now s)"
| "projection_exec isUuid isDatetime sha256 t (ProjectionErase a) s = map_prod Erased id (projection_erase t a s)"

text \<open>The ids that an erasure is called with are Agent ids, which hold no separator.\<close>

fun projection_call :: "tenant \<times> projection_op \<Rightarrow> bool" where
  "projection_call (t, ProjectionErase a) = (isTenantId t \<and> agent_id_ok a)"
| "projection_call (t, ProjectionCommit _ _ _) = isTenantId t"

definition projection_inv :: "(string \<Rightarrow> bool) \<Rightarrow> (string \<Rightarrow> bool) \<Rightarrow> (byte list \<Rightarrow> string) \<Rightarrow> projection_state \<Rightarrow> bool" where
  "projection_inv isUuid isDatetime sha256 s \<longleftrightarrow>
     (\<forall>t a. isTenantId t \<and> agent_id_ok a \<longrightarrow> memory_ok isUuid isDatetime sha256 t a (agent_memory_of t a s))"

text \<open>One call moves the memory of one Agent by one step and leaves every other as it is.\<close>

lemma projection_exec_memory:
  assumes "projection_call (t, op)" and "isTenantId u" and "agent_id_ok b"
  obtains (same) "agent_memory_of u b (snd (projection_exec isUuid isDatetime sha256 t op s)) = agent_memory_of u b s"
  | (commit) input sn uuid now where "u = t" "b = ar_agentId (mi_agentRef (mm_identity (pi_mutation input)))" "op = ProjectionCommit input uuid now"
      "snapshot_content sha256 sn = contentFields (pi_mutation input)"
      "agent_memory_of u b (snd (projection_exec isUuid isDatetime sha256 t op s)) =
         snd (memory_commit isUuid isDatetime t input sn uuid now (agent_memory_of u b s))"
  | (erase) "u = t" "op = ProjectionErase b" "agent_memory_of u b (snd (projection_exec isUuid isDatetime sha256 t op s)) = snd (memory_erase (agent_memory_of u b s))"
proof (cases op)
  case (ProjectionErase a)
  then have a: "isTenantId t" "agent_id_ok a" using assms(1) by simp_all
  show ?thesis
  proof (cases "(u, b) = (t, a)")
    case True
    then show ?thesis using erase_spec [OF a, of s] that(3) ProjectionErase by (simp add: map_prod_def split_beta prod_eq_iff)
  next
    case False
    then show ?thesis using erase_frame [OF a(1) assms(2) a(2) assms(3) False, of s] that(1) ProjectionErase by simp
  qed
next
  case (ProjectionCommit input uuid now)
  have t: "isTenantId t" using assms(1) ProjectionCommit by simp
  show ?thesis
  proof (cases "commit_snapshot isUuid sha256 input")
    case (Inl e)
    then show ?thesis using that(1) ProjectionCommit by (simp add: projection_commit_def)
  next
    case (Inr sn)
    note C = commit_snapshot_Inr [OF Inr]
    let ?a = "ar_agentId (mi_agentRef (mm_identity (pi_mutation input)))"
    have x: "snd (projection_exec isUuid isDatetime sha256 t op s) = snd (commit_turn isUuid isDatetime t input sn uuid now s)"
      by (simp add: ProjectionCommit projection_commit_def Inr)
    show ?thesis
    proof (cases "(u, b) = (t, ?a)")
      case True
      then show ?thesis
        using commit_turn_spec [OF t C(3), of isUuid isDatetime sn uuid now s] that(2) [OF _ _ ProjectionCommit C(1)] x
        by (simp add: map_prod_def split_beta prod_eq_iff)
    next
      case False
      then show ?thesis using commit_turn_frame [OF t assms(2) C(3) assms(3) False, of isUuid isDatetime sn uuid now s] that(1) x by simp
    qed
  qed
qed

lemma projection_exec_inv:
  assumes "projection_call (t, op)" and "projection_inv isUuid isDatetime sha256 s"
  shows "projection_inv isUuid isDatetime sha256 (snd (projection_exec isUuid isDatetime sha256 t op s))"
  unfolding projection_inv_def
proof (intro allI impI)
  fix u b assume ub: "isTenantId u \<and> agent_id_ok b"
  then have ok: "memory_ok isUuid isDatetime sha256 u b (agent_memory_of u b s)" using assms(2) by (simp add: projection_inv_def)
  show "memory_ok isUuid isDatetime sha256 u b (agent_memory_of u b (snd (projection_exec isUuid isDatetime sha256 t op s)))"
    using ub
    by (cases rule: projection_exec_memory [OF assms(1), of u b isUuid isDatetime sha256 s])
      (use ok memory_commit_ok memory_erase_ok in auto)
qed

text \<open>Fences never go down.\<close>

definition fences_le :: "projection_state \<Rightarrow> projection_state \<Rightarrow> bool" where
  "fences_le s s' = (\<forall>t a f. isTenantId t \<and> agent_id_ok a \<and> am_fence (agent_memory_of t a s) = Some f \<longrightarrow>
     (\<exists>g. am_fence (agent_memory_of t a s') = Some g \<and> f \<le> g))"

lemma memory_commit_fence: "am_fence (snd (memory_commit isUuid isDatetime t input sn uuid now m)) = am_fence m"
  by (cases rule: memory_commit_cases [of m input isUuid isDatetime t sn uuid now]) auto

lemma memory_erase_fence: "am_fence m = Some f \<Longrightarrow> \<exists>g. am_fence (snd (memory_erase m)) = Some g \<and> f \<le> g"
  by (auto simp: memory_erase_def Let_def)

interpretation projection: monotone_store "projection_exec isUuid isDatetime sha256" projection_call "projection_inv isUuid isDatetime sha256" fences_le
proof (unfold_locales, goal_cases)
  case (1 t op s)
  then show ?case by (rule projection_exec_inv)
next
  case (2 s)
  then show ?case by (auto simp: fences_le_def)
next
  case (3 a b c)
  then show ?case unfolding fences_le_def by (meson order_trans)
next
  case (4 t op s)
  show ?case unfolding fences_le_def
  proof (intro allI impI)
    fix u b f assume f: "isTenantId u \<and> agent_id_ok b \<and> am_fence (agent_memory_of u b s) = Some f"
    then show "\<exists>g. am_fence (agent_memory_of u b (snd (projection_exec isUuid isDatetime sha256 t op s))) = Some g \<and> f \<le> g"
      by (cases rule: projection_exec_memory [OF 4(1), of u b isUuid isDatetime sha256 s])
        (auto simp: memory_commit_fence dest: memory_erase_fence)
  qed
qed

lemma projection_inv_empty: "projection_inv isUuid isDatetime sha256 empty_projection"
  by (simp add: projection_inv_def memory_ok_empty)

text \<open>Without an erasure of the Agent its receipts stay.\<close>

definition receipts_kept :: "tenant \<Rightarrow> string \<Rightarrow> projection_state \<Rightarrow> projection_state \<Rightarrow> bool" where
  "receipts_kept t a s s' = (\<forall>e q r. am_receipt (agent_memory_of t a s) e q = Some r \<longrightarrow> am_receipt (agent_memory_of t a s') e q = Some r)"

definition no_erase :: "tenant \<Rightarrow> string \<Rightarrow> tenant \<times> projection_op \<Rightarrow> bool" where
  "no_erase t a c = (isTenantId t \<and> agent_id_ok a \<and> projection_call c \<and> c \<noteq> (t, ProjectionErase a))"

lemma memory_commit_receipts: "am_receipt m e q = Some r \<Longrightarrow> am_receipt (snd (memory_commit isUuid isDatetime t input sn uuid now m)) e q = Some r"
  by (cases rule: memory_commit_cases [of m input isUuid isDatetime t sn uuid now]) auto

interpretation kept: monotone_store "projection_exec isUuid isDatetime sha256" "no_erase t a" "projection_inv isUuid isDatetime sha256" "receipts_kept t a"
proof (unfold_locales, goal_cases)
  case (1 u op s)
  then show ?case by (intro projection_exec_inv) (simp_all add: no_erase_def)
next
  case (2 s)
  then show ?case by (simp add: receipts_kept_def)
next
  case (3 a b c)
  then show ?case by (simp add: receipts_kept_def)
next
  case (4 u op s)
  then have c: "projection_call (u, op)" "isTenantId t" "agent_id_ok a" "(u, op) \<noteq> (t, ProjectionErase a)" by (simp_all add: no_erase_def)
  then show ?case unfolding receipts_kept_def
    by (cases rule: projection_exec_memory [OF c(1-3), of isUuid isDatetime sha256 s]) (auto simp: memory_commit_receipts)
qed

section \<open>Erasure, order and replay\<close>

lemma order_fence: "fence = Some f \<Longrightarrow> e < f \<Longrightarrow> order_error fence head e q = Some (ByokCloudError Agent_memory_projection_erased_epoch)"
  by (simp add: order_error_def)

text \<open>A commit is refused below the fence of its Agent.\<close>

lemma commit_below_fence:
  assumes "projection_inv isUuid isDatetime sha256 s" and "isTenantId t"
    and "am_fence (agent_memory_of t (ar_agentId (mi_agentRef (mm_identity (pi_mutation input)))) s) = Some f"
    and "mi_writerEpoch (mm_identity (pi_mutation input)) < f"
  shows "\<exists>e. projection_commit isUuid isDatetime sha256 t input uuid now s = (Inl e, s)"
proof (cases "commit_snapshot isUuid sha256 input")
  case (Inl e)
  then show ?thesis by (simp add: projection_commit_def)
next
  case (Inr sn)
  let ?i = "mm_identity (pi_mutation input)" and ?a = "ar_agentId (mi_agentRef (mm_identity (pi_mutation input)))"
  have ok: "memory_ok isUuid isDatetime sha256 t ?a (agent_memory_of t ?a s)"
    using assms(1,2) commit_snapshot_Inr(3) [OF Inr] by (simp add: projection_inv_def)
  have "am_receipt (agent_memory_of t ?a s) (mi_writerEpoch ?i) (mi_sourceSeq ?i) = None"
  proof (rule ccontr)
    assume "am_receipt (agent_memory_of t ?a s) (mi_writerEpoch ?i) (mi_sourceSeq ?i) \<noteq> None"
    then have "fence_below (am_fence (agent_memory_of t ?a s)) (mi_writerEpoch ?i)" using ok by (auto simp: memory_ok_def receipt_ok_def)
    then show False using assms(3,4) by (simp add: fence_below_def)
  qed
  then have "jget (ps_receipts s) (receiptKey t ?i) = None" by (simp add: agent_memory_of_def receiptKey_rkey)
  moreover have "jget (ps_eraseFences s) (agentKey t ?a) = Some f" using assms(3) by (simp add: agent_memory_of_def)
  ultimately show ?thesis using assms(4) by (simp add: projection_commit_def Inr commit_turn_def Let_def order_fence)
qed

lemma erase_answer:
  assumes "isTenantId t" and "agent_id_ok a" and "projection_erase t a s = (Inr n, s')"
  shows "agent_memory_of t a s' = \<lparr>am_fence = Some n, am_head = None, am_snapshot = None, am_receipt = \<lambda>_ _. None\<rparr>"
    "am_fence (agent_memory_of t a s) = Some f \<Longrightarrow> f \<le> n" "am_head (agent_memory_of t a s) = Some h \<Longrightarrow> ph_writerEpoch h < n"
  using erase_spec [OF assms(1,2), of s] assms(3) by (auto simp: memory_erase_def Let_def max_def split: if_splits)

text \<open>
  C27. Erasure is final. When the host erases an Agent's memory, the snapshot, the head and every receipt
  of the Agent are gone, the answered epoch lies above every epoch accepted so far, and through any
  history of calls no commit of the Agent below that epoch is accepted or answered from a receipt,
  and a later erasure never answers a lower epoch.
\<close>

theorem memory_erase_final:
  assumes "\<forall>c \<in> set before. projection_call c" and "\<forall>c \<in> set after. projection_call c" and "isTenantId t" and "agent_id_ok a"
    and "snd (run_ops (projection_exec isUuid isDatetime sha256) before empty_projection) = s"
    and "projection_erase t a s = (Inr n, s1)"
    and "snd (run_ops (projection_exec isUuid isDatetime sha256) after s1) = s2"
  shows "agent_memory_of t a s1 = \<lparr>am_fence = Some n, am_head = None, am_snapshot = None, am_receipt = \<lambda>_ _. None\<rparr> \<and>
    (\<forall>e q r. am_receipt (agent_memory_of t a s) e q = Some r \<longrightarrow> e < n) \<and>
    (\<forall>input uuid now. ar_agentId (mi_agentRef (mm_identity (pi_mutation input))) = a \<and> mi_writerEpoch (mm_identity (pi_mutation input)) < n \<longrightarrow>
       (\<exists>e. projection_commit isUuid isDatetime sha256 t input uuid now s2 = (Inl e, s2))) \<and>
    (\<forall>n' s3. projection_erase t a s2 = (Inr n', s3) \<longrightarrow> n \<le> n')"
proof -
  have inv: "projection_inv isUuid isDatetime sha256 s"
    unfolding assms(5) [symmetric] by (rule projection.run_inv [OF assms(1) projection_inv_empty])
  note E = erase_answer [OF assms(3,4,6)]
  have "projection_call (t, ProjectionErase a)" using assms(3,4) by simp
  then have inv1: "projection_inv isUuid isDatetime sha256 s1" using projection_exec_inv [of t "ProjectionErase a", OF _ inv] assms(6) by simp
  have inv2: "projection_inv isUuid isDatetime sha256 s2" unfolding assms(7) [symmetric] by (rule projection.run_inv [OF assms(2) inv1])
  have "fences_le s1 s2" unfolding assms(7) [symmetric] by (rule projection.run_mono [OF assms(2) inv1])
  moreover have "am_fence (agent_memory_of t a s1) = Some n" by (simp add: E(1))
  ultimately obtain f where f: "am_fence (agent_memory_of t a s2) = Some f" "n \<le> f" using assms(3,4) unfolding fences_le_def by blast
  have "e < n" if "am_receipt (agent_memory_of t a s) e q = Some r" for e q r
  proof -
    have "upto_head (am_head (agent_memory_of t a s)) e q"
      using inv assms(3,4) that by (auto simp: projection_inv_def memory_ok_def receipt_ok_def)
    then show ?thesis using E(3) by (auto simp: upto_head_def split: option.splits)
  qed
  moreover have "\<exists>e. projection_commit isUuid isDatetime sha256 t input uuid now s2 = (Inl e, s2)"
    if "ar_agentId (mi_agentRef (mm_identity (pi_mutation input))) = a" "mi_writerEpoch (mm_identity (pi_mutation input)) < n" for input uuid now
    using that f by (intro commit_below_fence [OF inv2 assms(3), of input f]) simp_all
  moreover have "n \<le> n'" if "projection_erase t a s2 = (Inr n', s3)" for n' s3
    using erase_answer(2) [OF assms(3,4) that f(1)] f(2) by simp
  ultimately show ?thesis using E(1) by blast
qed

text \<open>
  C28. The hosted copy is exact and gap-free: after any history an Agent has a snapshot exactly when it
  has a head; the receipts of the head's epoch are those of the sequence numbers 1 up to the head's, one
  each, at their own coordinates; every epoch's receipts start at 1 without a gap; and the stored body
  is the one that the receipt at the head names, by hash and size or by content MAC and padded length.
\<close>

theorem memory_gap_free:
  assumes "\<forall>c \<in> set ops. projection_call c" and "isTenantId t" and "agent_id_ok a"
    and "agent_memory_of t a (snd (run_ops (projection_exec isUuid isDatetime sha256) ops empty_projection)) = m"
  shows "(case am_head m of
       None \<Rightarrow> am_snapshot m = None \<and> am_receipt m = (\<lambda>_ _. None)
     | Some h \<Rightarrow>
         (\<forall>q. (am_receipt m (ph_writerEpoch h) q \<noteq> None) = (1 \<le> q \<and> q \<le> ph_sourceSeq h)) \<and>
         (\<exists>r sn. am_receipt m (ph_writerEpoch h) (ph_sourceSeq h) = Some r \<and> am_snapshot m = Some sn \<and> snapshot_content sha256 sn = mr_content r)) \<and>
    (\<forall>e q r. am_receipt m e q = Some r \<longrightarrow>
       mr_tenantId r = t \<and> mi_writerEpoch (mr_identity r) = e \<and> mi_sourceSeq (mr_identity r) = q \<and> (\<forall>p. 1 \<le> p \<and> p \<le> q \<longrightarrow> am_receipt m e p \<noteq> None))"
proof -
  have ok: "memory_ok isUuid isDatetime sha256 t a m"
    using projection.run_inv [OF assms(1) projection_inv_empty, of isUuid isDatetime sha256] assms(2,3) unfolding assms(4) [symmetric] projection_inv_def by blast
  have R: "receipt_ok isUuid isDatetime t a m e q r" if "am_receipt m e q = Some r" for e q r using ok that unfolding memory_ok_def by blast
  have D: "am_receipt m e p \<noteq> None" if "am_receipt m e q \<noteq> None" "1 \<le> p" "p \<le> q" for e q p using ok that unfolding memory_ok_def by blast
  have one: "1 \<le> q" if "am_receipt m e q = Some r" for e q r
    using R [OF that] by (auto simp: receipt_ok_def AgentMemoryProjectionReceiptSchema_def MUTATION_IDENTITY_def ordering_value_def)
  have "case am_head m of
       None \<Rightarrow> am_snapshot m = None \<and> am_receipt m = (\<lambda>_ _. None)
     | Some h \<Rightarrow>
         (\<forall>q. (am_receipt m (ph_writerEpoch h) q \<noteq> None) = (1 \<le> q \<and> q \<le> ph_sourceSeq h)) \<and>
         (\<exists>r sn. am_receipt m (ph_writerEpoch h) (ph_sourceSeq h) = Some r \<and> am_snapshot m = Some sn \<and> snapshot_content sha256 sn = mr_content r)"
  proof (cases "am_head m")
    case None
    have "am_receipt m e q = None" for e q using R [of e q] None by (cases "am_receipt m e q") (auto simp: receipt_ok_def upto_head_def)
    then show ?thesis using ok None by (auto simp: memory_ok_def)
  next
    case (Some h)
    then obtain r sn where h: "am_receipt m (ph_writerEpoch h) (ph_sourceSeq h) = Some r" "am_snapshot m = Some sn" "snapshot_content sha256 sn = mr_content r"
      using ok by (auto simp: memory_ok_def)
    have "q \<le> ph_sourceSeq h" if "am_receipt m (ph_writerEpoch h) q = Some x" for q x
      using R [OF that] by (simp add: receipt_ok_def upto_head_def Some)
    then show ?thesis using Some h one D [of "ph_writerEpoch h" "ph_sourceSeq h"] by auto
  qed
  moreover have "mr_tenantId r = t \<and> mi_writerEpoch (mr_identity r) = e \<and> mi_sourceSeq (mr_identity r) = q" if "am_receipt m e q = Some r" for e q r
    using R [OF that] by (simp add: receipt_ok_def)
  ultimately show ?thesis using D by blast
qed

subsection \<open>Exact replay\<close>

lemma same_receipt_own: "sameMutationReceipt (accepted_receipt t input uuid now) t (pi_deviceId input) (pi_mutation input)"
  by (simp add: sameMutationReceipt_def accepted_receipt_def Let_def)

lemma commit_accepted:
  assumes "projection_commit isUuid isDatetime sha256 t input uuid now s = (Inr r, s')" and "mr_outcome r = Accepted"
  shows "r = accepted_receipt t input uuid now" "\<exists>sn. commit_snapshot isUuid sha256 input = Inr sn"
    "AgentMemoryProjectionReceiptSchema isUuid isDatetime r" "jget (ps_receipts s') (receiptKey t (mm_identity (pi_mutation input))) = Some r"
  using assms by (auto simp: projection_commit_def commit_turn_def Let_def split: sum.splits option.splits if_splits)

lemma commit_known:
  assumes "commit_snapshot isUuid sha256 input = Inr sn" and "jget (ps_receipts s) (receiptKey t (mm_identity (pi_mutation input))) = Some r"
    and "AgentMemoryProjectionReceiptSchema isUuid isDatetime r"
  shows "projection_commit isUuid isDatetime sha256 t input uuid now s =
    (if sameMutationReceipt r t (pi_deviceId input) (pi_mutation input) then Inr (r\<lparr>mr_outcome := Idempotent\<rparr>)
     else Inl (ByokCloudError Agent_memory_projection_replay_mismatch), s)"
  using assms by (simp add: projection_commit_def commit_turn_def Let_def schema_outcome)

text \<open>
  C29. A mutation takes effect once. After a commit is accepted, and as long as the Agent is not erased,
  whatever other commits and erasures happen, the same submission is answered with the same receipt
  marked idempotent and changes nothing, also when newer sequence numbers and epochs have been written
  since; and another valid submission for the same epoch and sequence number is refused unless it is the
  same mutation by the same device.
\<close>

theorem memory_replay_exact:
  assumes "\<forall>c \<in> set before. projection_call c" and "isTenantId t"
    and "\<forall>c \<in> set after. no_erase t (ar_agentId (mi_agentRef (mm_identity (pi_mutation input)))) c"
    and "projection_commit isUuid isDatetime sha256 t input uuid now (snd (run_ops (projection_exec isUuid isDatetime sha256) before empty_projection)) = (Inr r, s1)"
    and "mr_outcome r = Accepted"
    and "snd (run_ops (projection_exec isUuid isDatetime sha256) after s1) = s2"
  shows "projection_commit isUuid isDatetime sha256 t input uuid' now' s2 = (Inr (r\<lparr>mr_outcome := Idempotent\<rparr>), s2) \<and>
    (\<forall>other sn. commit_snapshot isUuid sha256 other = Inr sn \<and>
        ar_agentId (mi_agentRef (mm_identity (pi_mutation other))) = ar_agentId (mi_agentRef (mm_identity (pi_mutation input))) \<and>
        mi_writerEpoch (mm_identity (pi_mutation other)) = mi_writerEpoch (mm_identity (pi_mutation input)) \<and>
        mi_sourceSeq (mm_identity (pi_mutation other)) = mi_sourceSeq (mm_identity (pi_mutation input)) \<and>
        \<not> (pi_deviceId other = pi_deviceId input \<and> mm_identity (pi_mutation other) = mm_identity (pi_mutation input) \<and>
           contentFields (pi_mutation other) = contentFields (pi_mutation input)) \<longrightarrow>
       projection_commit isUuid isDatetime sha256 t other uuid' now' s2 = (Inl (ByokCloudError Agent_memory_projection_replay_mismatch), s2))"
proof -
  let ?i = "mm_identity (pi_mutation input)" and ?a = "ar_agentId (mi_agentRef (mm_identity (pi_mutation input)))"
  note A = commit_accepted [OF assms(4,5)]
  obtain sn where sn: "commit_snapshot isUuid sha256 input = Inr sn" using A(2) by blast
  have "projection_inv isUuid isDatetime sha256 (snd (run_ops (projection_exec isUuid isDatetime sha256) before empty_projection))"
    by (rule projection.run_inv [OF assms(1) projection_inv_empty])
  then have inv1: "projection_inv isUuid isDatetime sha256 s1"
    using projection_exec_inv [of t "ProjectionCommit input uuid now" isUuid isDatetime sha256] assms(2,4) by fastforce
  have "receipts_kept t ?a s1 s2" unfolding assms(6) [symmetric] by (rule kept.run_mono [OF assms(3) inv1])
  then have k: "jget (ps_receipts s2) (receiptKey t ?i) = Some r"
    using A(4) by (simp add: receipts_kept_def agent_memory_of_def receiptKey_rkey)
  have "sameMutationReceipt r t (pi_deviceId input) (pi_mutation input)" unfolding A(1) by (rule same_receipt_own)
  then have "projection_commit isUuid isDatetime sha256 t input uuid' now' s2 = (Inr (r\<lparr>mr_outcome := Idempotent\<rparr>), s2)"
    using commit_known [OF sn k A(3)] by simp
  moreover have "projection_commit isUuid isDatetime sha256 t x uuid' now' s2 = (Inl (ByokCloudError Agent_memory_projection_replay_mismatch), s2)"
    if x: "commit_snapshot isUuid sha256 x = Inr sn'" "ar_agentId (mi_agentRef (mm_identity (pi_mutation x))) = ?a"
      "mi_writerEpoch (mm_identity (pi_mutation x)) = mi_writerEpoch ?i" "mi_sourceSeq (mm_identity (pi_mutation x)) = mi_sourceSeq ?i"
      "\<not> (pi_deviceId x = pi_deviceId input \<and> mm_identity (pi_mutation x) = ?i \<and> contentFields (pi_mutation x) = contentFields (pi_mutation input))" for x sn'
  proof -
    have "receiptKey t (mm_identity (pi_mutation x)) = receiptKey t ?i" using x(2-4) by (simp add: receiptKey_def)
    moreover have "\<not> sameMutationReceipt r t (pi_deviceId x) (pi_mutation x)"
    proof
      assume "sameMutationReceipt r t (pi_deviceId x) (pi_mutation x)"
      then have "mm_identity (pi_mutation x) = ?i" "pi_deviceId x = pi_deviceId input" "contentFields (pi_mutation x) = contentFields (pi_mutation input)"
        by (auto simp: A(1) sameMutationReceipt_def accepted_receipt_def Let_def intro!: memory_identity.equality agent_ref.equality)
      then show False using x(5) by blast
    qed
    ultimately show ?thesis using commit_known [OF x(1) _ A(3), of s2 t] k by simp
  qed
  ultimately show ?thesis by blast
qed

section \<open>Permits\<close>

datatype permit_op = PermitGrant authorizer_input "projection_sealing option" | PermitRevoke string

fun permit_exec :: "tenant \<Rightarrow> permit_op \<Rightarrow> authorizer_state \<Rightarrow> unit \<times> authorizer_state" where
  "permit_exec t (PermitGrant i sealing) a = ((), authorizer_grant i sealing a)"
| "permit_exec t (PermitRevoke agentId) a = ((), authorizer_revoke t agentId a)"

fun permit_call :: "tenant \<times> permit_op \<Rightarrow> bool" where
  "permit_call (t, PermitGrant i _) = (isTenantId t \<and> ai_tenantId i = t)"
| "permit_call (t, PermitRevoke _) = isTenantId t"

definition no_permits :: authorizer_state where
  "no_permits = \<lparr>as_grants = [], as_highestEpochs = []\<rparr>"

abbreviation permit_agent :: "authorizer_input \<Rightarrow> string" where
  "permit_agent i \<equiv> agentKey (ai_tenantId i) (ar_agentId (ai_agentRef i))"

text \<open>Every stored permit carries the highest epoch of its Agent.\<close>

definition permits_ok :: "authorizer_state \<Rightarrow> bool" where
  "permits_ok a \<longleftrightarrow> jmap_ok (as_grants a) \<and>
     (\<forall>k g sealing. jget (as_grants a) k = Some (g, sealing) \<longrightarrow>
        isTenantId (ai_tenantId g) \<and> k = permitKey g \<and> jget (as_highestEpochs a) (permit_agent g) = Some (ai_writerEpoch g))"

definition epochs_le :: "authorizer_state \<Rightarrow> authorizer_state \<Rightarrow> bool" where
  "epochs_le a a' = (\<forall>k h. jget (as_highestEpochs a) k = Some h \<longrightarrow> (\<exists>h'. jget (as_highestEpochs a') k = Some h' \<and> h \<le> h'))"

lemma permitKey_inject [simp]: "permitKey i = permitKey j \<longleftrightarrow> i = j"
  by (auto simp: permitKey_def intro!: authorizer_input.equality agent_ref.equality)

lemma jget_filter_Some: "jmap_ok m \<Longrightarrow> jget (filter P m) k = Some v \<longleftrightarrow> jget m k = Some v \<and> P (k, v)"
  by (auto simp: jget_Some_iff jmap_ok_filter)

lemma same_agent_key: "isTenantId t \<Longrightarrow> isTenantId (ai_tenantId g) \<Longrightarrow> same_agent t x g \<longleftrightarrow> permit_agent g = agentKey t x"
  by (auto simp: same_agent_def agentKey_inject)

lemma grant_cases:
  obtains (stale) h where "jget (as_highestEpochs a) (permit_agent i) = Some h" "ai_writerEpoch i < h" "authorizer_grant i sealing a = a"
  | (handoff) "\<And>h. jget (as_highestEpochs a) (permit_agent i) = Some h \<Longrightarrow> h < ai_writerEpoch i"
      "authorizer_grant i sealing a =
        \<lparr>as_grants = jset (permitKey i) (i, sealing)
           (filter (\<lambda>(_, g, _). \<not> (same_agent (ai_tenantId i) (ar_agentId (ai_agentRef i)) g \<and> ai_writerEpoch g < ai_writerEpoch i)) (as_grants a)),
         as_highestEpochs = jset (permit_agent i) (ai_writerEpoch i) (as_highestEpochs a)\<rparr>"
  | (same) "jget (as_highestEpochs a) (permit_agent i) = Some (ai_writerEpoch i)"
      "authorizer_grant i sealing a = a\<lparr>as_grants := jset (permitKey i) (i, sealing) (as_grants a)\<rparr>"
proof -
  consider "jget (as_highestEpochs a) (permit_agent i) = None" | h where "jget (as_highestEpochs a) (permit_agent i) = Some h" "ai_writerEpoch i < h"
    | h where "jget (as_highestEpochs a) (permit_agent i) = Some h" "h < ai_writerEpoch i"
    | "jget (as_highestEpochs a) (permit_agent i) = Some (ai_writerEpoch i)"
    by (cases "jget (as_highestEpochs a) (permit_agent i)") (auto, metis linorder_neqE)
  then show ?thesis
    by cases (auto simp: authorizer_grant_def Let_def intro: that)
qed

lemma permits_ok_grant:
  assumes "permits_ok a" and "isTenantId (ai_tenantId i)"
  shows "permits_ok (authorizer_grant i sealing a)"
proof (cases rule: grant_cases [of a i sealing])
  case stale
  then show ?thesis using assms by simp
next
  case same
  then show ?thesis using assms by (auto simp: permits_ok_def)
next
  case handoff
  have ok: "jmap_ok (as_grants a)" using assms by (simp add: permits_ok_def)
  have old: "jget (as_highestEpochs (authorizer_grant i sealing a)) (permit_agent g) = Some (ai_writerEpoch g)"
    if g: "jget (as_grants a) k = Some (g, x)" "\<not> (same_agent (ai_tenantId i) (ar_agentId (ai_agentRef i)) g \<and> ai_writerEpoch g < ai_writerEpoch i)" for k g x
  proof -
    have h: "isTenantId (ai_tenantId g)" "jget (as_highestEpochs a) (permit_agent g) = Some (ai_writerEpoch g)"
      using assms(1) g(1) by (auto simp: permits_ok_def)
    have "permit_agent i \<noteq> permit_agent g"
    proof
      assume eq: "permit_agent i = permit_agent g"
      then have "ai_writerEpoch g < ai_writerEpoch i" using handoff(1) h(2) by simp
      then show False using g(2) same_agent_key [OF assms(2) h(1)] eq by simp
    qed
    then show ?thesis using h(2) by (simp add: handoff(2))
  qed
  have "isTenantId (ai_tenantId g) \<and> k = permitKey g \<and> jget (as_highestEpochs (authorizer_grant i sealing a)) (permit_agent g) = Some (ai_writerEpoch g)"
    if g: "jget (as_grants (authorizer_grant i sealing a)) k = Some (g, x)" for k g x
  proof (cases "k = permitKey i")
    case True
    then have "g = i" using g by (simp add: handoff(2))
    then show ?thesis using True assms(2) by (simp add: handoff(2))
  next
    case False
    then have "jget (as_grants a) k = Some (g, x)" "\<not> (same_agent (ai_tenantId i) (ar_agentId (ai_agentRef i)) g \<and> ai_writerEpoch g < ai_writerEpoch i)"
      using g by (simp_all add: handoff(2) jget_filter_Some [OF ok])
    then show ?thesis using old [of k g x] assms(1) unfolding permits_ok_def by blast
  qed
  moreover have "jmap_ok (as_grants (authorizer_grant i sealing a))" using ok by (simp add: handoff(2) jmap_ok_filter jmap_ok_jset)
  ultimately show ?thesis unfolding permits_ok_def by blast
qed

lemma permits_ok_revoke: "permits_ok a \<Longrightarrow> permits_ok (authorizer_revoke t x a)"
  by (auto simp: permits_ok_def authorizer_revoke_def jget_filter_Some)

interpretation permits: monotone_store permit_exec permit_call permits_ok epochs_le
proof (unfold_locales, goal_cases)
  case (1 t op a)
  then show ?case by (cases op) (auto intro: permits_ok_grant permits_ok_revoke)
next
  case (2 a)
  then show ?case by (auto simp: epochs_le_def)
next
  case (3 a b c)
  then show ?case unfolding epochs_le_def by (meson order_trans)
next
  case (4 t op a)
  show ?case
  proof (cases op)
    case (PermitGrant i sealing)
    then show ?thesis by (cases rule: grant_cases [of a i sealing]) (auto simp: epochs_le_def less_imp_le)
  next
    case (PermitRevoke x)
    then show ?thesis by (simp add: epochs_le_def authorizer_revoke_def)
  qed
qed

lemma permits_ok_empty: "permits_ok no_permits"
  by (simp add: permits_ok_def no_permits_def)

lemma granted_epoch:
  "\<exists>h. jget (as_highestEpochs (authorizer_grant i sealing a)) (permit_agent i) = Some h \<and> ai_writerEpoch i \<le> h"
  by (cases rule: grant_cases [of a i sealing]) auto

lemma authorized_epoch:
  assumes "permits_ok a" and "authorizer_authorize k a = Authorized x"
  shows "jget (as_highestEpochs a) (permit_agent k) = Some (ai_writerEpoch k)"
proof -
  obtain g where g: "jget (as_grants a) (permitKey k) = Some (g, x)" using assms(2) by (auto simp: authorizer_authorize_def split: option.splits prod.splits)
  then have "permitKey k = permitKey g" "jget (as_highestEpochs a) (permit_agent g) = Some (ai_writerEpoch g)"
    using assms(1) unfolding permits_ok_def by blast+
  then show ?thesis by simp
qed

lemma granted_epoch_kept:
  assumes "\<forall>c \<in> set after. permit_call c" and "isTenantId (ai_tenantId i)" and "permits_ok a0"
  shows "\<exists>h. jget (as_highestEpochs (snd (run_ops permit_exec after (authorizer_grant i sealing a0)))) (permit_agent i) = Some h \<and> ai_writerEpoch i \<le> h"
proof -
  have "epochs_le (authorizer_grant i sealing a0) (snd (run_ops permit_exec after (authorizer_grant i sealing a0)))"
    by (rule permits.run_mono [OF assms(1) permits_ok_grant [OF assms(3,2)]])
  then show ?thesis using granted_epoch [of i sealing a0] unfolding epochs_le_def by (meson order_trans)
qed

text \<open>
  A writer hand-off is final. Once the host has granted an epoch for a tenant's Agent, no history of
  grants and revocations of any tenant ever authorizes a permit of that Agent with a lower epoch again,
  on any device, task or session; and all permits authorized at one moment for an Agent carry one epoch.
\<close>

theorem writer_handoff_final:
  assumes "\<forall>c \<in> set before. permit_call c" and "\<forall>c \<in> set after. permit_call c" and "isTenantId (ai_tenantId i)"
    and "snd (run_ops permit_exec after (authorizer_grant i sealing (snd (run_ops permit_exec before no_permits)))) = a"
    and "ai_tenantId j = ai_tenantId i" and "ar_agentId (ai_agentRef j) = ar_agentId (ai_agentRef i)"
  shows "(ai_writerEpoch j < ai_writerEpoch i \<longrightarrow> authorizer_authorize j a = Denied ''grant_not_authorized'') \<and>
    (\<forall>k x y. ai_tenantId k = ai_tenantId j \<and> ar_agentId (ai_agentRef k) = ar_agentId (ai_agentRef j) \<and>
       authorizer_authorize j a = Authorized x \<and> authorizer_authorize k a = Authorized y \<longrightarrow> ai_writerEpoch j = ai_writerEpoch k)"
proof -
  let ?a0 = "snd (run_ops permit_exec before no_permits)"
  have ok0: "permits_ok (authorizer_grant i sealing ?a0)"
    using permits.run_inv [OF assms(1) permits_ok_empty] assms(3) by (rule permits_ok_grant)
  have ok: "permits_ok a" unfolding assms(4) [symmetric] by (rule permits.run_inv [OF assms(2) ok0])
  obtain h where h: "jget (as_highestEpochs a) (permit_agent i) = Some h" "ai_writerEpoch i \<le> h"
    using granted_epoch_kept [OF assms(2,3) permits.run_inv [OF assms(1) permits_ok_empty], of sealing] unfolding assms(4) by blast
  have "ai_writerEpoch k = h" if "ai_tenantId k = ai_tenantId i" "ar_agentId (ai_agentRef k) = ar_agentId (ai_agentRef i)" "authorizer_authorize k a = Authorized x" for k x
    using authorized_epoch [OF ok that(3)] that(1,2) h(1) by simp
  note E = this
  have "authorizer_authorize j a = Denied ''grant_not_authorized''" if "ai_writerEpoch j < ai_writerEpoch i"
  proof (cases "authorizer_authorize j a")
    case (Authorized x)
    then show ?thesis using E [OF assms(5,6) Authorized] h(2) that by simp
  next
    case (Denied r)
    then show ?thesis by (auto simp: authorizer_authorize_def split: option.splits)
  qed
  then show ?thesis using E assms(5,6) by metis
qed

section \<open>The host's calls\<close>

text \<open>
  \<open>packages/cloud/src/api/agent-memory.ts\<close>: a commit checks the task attempt and the permit before it
  reaches the store; an erasure revokes the permits first. \<open>configured\<close> says whether the host has both
  an authorizer and a store.
\<close>

definition matchesAgentRef :: "agent_ref \<Rightarrow> agent_ref option \<Rightarrow> bool" where
  "matchesAgentRef expected actual =
     (case actual of None \<Rightarrow> False | Some r \<Rightarrow> ar_agentId r = ar_agentId expected \<and> ar_profileRevision r = ar_profileRevision expected)"

definition sealingMatches :: "projection_sealing option \<Rightarrow> memory_mutation \<Rightarrow> bool" where
  "sealingMatches sealing m =
     (case (sealing, mm_body m) of
        (None, Plain_body _) \<Rightarrow> True
      | (Some g, Sealed_body x) \<Rightarrow> sp_scopeId x = pg_scopeId g \<and> sp_scopeEpoch x = pg_epoch g
      | _ \<Rightarrow> False)"

definition permit_request :: "tenant \<Rightarrow> string \<Rightarrow> memory_identity \<Rightarrow> authorizer_input" where
  "permit_request t deviceId i =
     \<lparr>ai_tenantId = t, ai_deviceId = deviceId, ai_taskId = mi_taskId i, ai_agentRef = mi_agentRef i, ai_sessionRef = mi_sessionRef i,
      ai_runtimeId = mi_runtimeId i, ai_grantRef = mi_grantRef i, ai_writerEpoch = mi_writerEpoch i, ai_policyRevision = mi_policyRevision i\<rparr>"

text \<open>The checks of \<open>commitAgentMemoryProjectionFromStores\<close>: \<open>None\<close> when the submission may go to the store.\<close>

definition commit_checks :: "bool \<Rightarrow> tenant \<Rightarrow> commit_input \<Rightarrow> attempt_state \<Rightarrow> authorizer_state \<Rightarrow> cloud_error option" where
  "commit_checks configured t input tasks a =
     (let m = pi_mutation input; i = mm_identity m in
      case attempt_get t (mi_taskId i) tasks of
        None \<Rightarrow> Some (ByokCloudError Agent_memory_projection_task_mismatch)
      | Some attempt \<Rightarrow>
          if ta_deviceId attempt \<noteq> pi_deviceId input \<or> \<not> matchesAgentRef (mi_agentRef i) (ta_agentRef attempt)
          then Some (ByokCloudError Agent_memory_projection_task_mismatch)
          else if \<not> configured then Some (ByokCloudError Agent_capability_missing)
          else case authorizer_authorize (permit_request t (pi_deviceId input) i) a of
            Denied _ \<Rightarrow> Some (ByokCloudError Agent_memory_projection_authorization_denied)
          | Authorized sealing \<Rightarrow>
              if \<not> sealingMatches sealing m then Some (ByokCloudError Agent_memory_projection_sealing_mismatch) else None)"


definition eraseAgentMemoryProjection :: "bool \<Rightarrow> tenant \<Rightarrow> string \<Rightarrow> authorizer_state \<times> projection_state \<Rightarrow>
    (cloud_error + int) \<times> authorizer_state \<times> projection_state" where
  "eraseAgentMemoryProjection configured t agentId st =
     (if \<not> configured then (Inl (ByokCloudError Agent_capability_missing), st)
      else let (a, s) = st; a' = authorizer_revoke t agentId a; (r, s') = projection_erase t agentId s in (r, a', s'))"





section \<open>Examples\<close>

definition sample_sha :: "byte list \<Rightarrow> string" where
  "sample_sha _ = ''sha256:'' @ replicate 64 CHR ''a''"

definition sample_identity :: memory_identity where
  "sample_identity = \<lparr>mi_taskId = ''t1'', mi_agentRef = sample_ref, mi_sessionRef = ''s'', mi_runtimeId = ''pi'', mi_grantRef = ''g'',
     mi_writerEpoch = 1, mi_sourceSeq = 1, mi_mutationId = ''m'', mi_policyRevision = ''p''\<rparr>"

definition sample_commit :: commit_input where
  "sample_commit = \<lparr>pi_deviceId = ''d'',
     pi_mutation = \<lparr>mm_identity = sample_identity,
       mm_body = Plain_body \<lparr>sn_redactedHash = sample_sha [], sn_redactedByteCount = 0, sn_redactedBytes = []\<rparr>\<rparr>,
     pi_redactedBytes = Some []\<rparr>"

definition sample_attempts :: attempt_state where
  "sample_attempts = snd (attempt_open ''acme'' ''t1'' ''d'' (Some sample_ref) 0 empty_attempts)"

abbreviation any_text :: "string \<Rightarrow> bool" where
  "any_text \<equiv> \<lambda>_. True"

lemma sample_commit_snapshot: "commit_snapshot any_text sample_sha sample_commit = Inr (Stored_bytes [])"
  by code_simp

lemma sample_commit_receipt: "AgentMemoryProjectionReceiptSchema any_text any_text (accepted_receipt ''acme'' sample_commit ''u'' 5)"
proof -
  have "MUTATION_IDENTITY any_text sample_identity" "CONTENT_HASH_PATTERN (sample_sha [])" by code_simp+
  then show ?thesis
    by (simp add: AgentMemoryProjectionReceiptSchema_def accepted_receipt_def Let_def sample_commit_def contentFields_def byte_count_def
        AGENT_MEMORY_PROJECTION_MAX_REDACTED_BYTES_def)
qed

lemma sample_ids: "ar_agentId (mi_agentRef (mm_identity (pi_mutation sample_commit))) = ''bot''" "mi_writerEpoch (mm_identity (pi_mutation sample_commit)) = 1"
  "mi_sourceSeq (mm_identity (pi_mutation sample_commit)) = 1" "agent_id_ok ''bot''"
  by (simp_all add: sample_commit_def sample_identity_def sample_ref_def agent_id_ok_def TENANT_KEY_SEPARATOR_def)

definition sample_stored :: projection_state where
  "sample_stored = snd (projection_commit any_text any_text sample_sha ''acme'' sample_commit ''u'' 5 empty_projection)"

lemma sample_accepted:
  "projection_commit any_text any_text sample_sha ''acme'' sample_commit ''u'' 5 empty_projection =
     (Inr (accepted_receipt ''acme'' sample_commit ''u'' 5), sample_stored)"
  using sample_commit_receipt
  by (simp add: sample_stored_def projection_commit_def sample_commit_snapshot commit_turn_def Let_def empty_projection_def order_error_def sample_ids)

lemma sample_memory:
  "agent_memory_of ''acme'' ''bot'' sample_stored = \<lparr>am_fence = None, am_head = Some \<lparr>ph_writerEpoch = 1, ph_sourceSeq = 1\<rparr>,
     am_snapshot = Some (Stored_bytes []), am_receipt = (\<lambda>_ _. None)(1 := (\<lambda>_. None)(1 := Some (accepted_receipt ''acme'' sample_commit ''u'' 5)))\<rparr>"
proof -
  have "snd (projection_commit any_text any_text sample_sha ''acme'' sample_commit ''u'' 5 empty_projection) =
      snd (commit_turn any_text any_text ''acme'' sample_commit (Stored_bytes []) ''u'' 5 empty_projection)"
    by (simp add: projection_commit_def sample_commit_snapshot)
  then have "agent_memory_of ''acme'' ''bot'' sample_stored =
      snd (memory_commit any_text any_text ''acme'' sample_commit (Stored_bytes []) ''u'' 5 (agent_memory_of ''acme'' ''bot'' empty_projection))"
    using commit_turn_spec [of "''acme''" sample_commit any_text any_text "Stored_bytes []" "''u''" 5 empty_projection]
    by (simp add: sample_stored_def sample_ids map_prod_def split_beta prod_eq_iff)
  then show ?thesis
    using sample_commit_receipt
    by (simp add: memory_commit_def Let_def sample_ids agent_memory_of_def empty_projection_def order_error_def fun_eq_iff)
qed

lemma sample_erase: "projection_erase ''acme'' ''bot'' sample_stored = (Inr 2, snd (projection_erase ''acme'' ''bot'' sample_stored))"
  using erase_spec [of "''acme''" "''bot''" sample_stored]
  by (auto simp: sample_ids sample_memory memory_erase_def Let_def AGENT_MEMORY_PROJECTION_MAX_ORDERING_VALUE_def prod_eq_iff split_beta)

abbreviation sample_memory_history :: "(tenant \<times> projection_op) list" where
  "sample_memory_history \<equiv> [(''acme'', ProjectionCommit sample_commit ''u'' 5)]"

lemma sample_history_run: "snd (run_ops (projection_exec any_text any_text sample_sha) sample_memory_history empty_projection) = sample_stored"
  by (simp add: sample_accepted)

theorem memory_erase_final_witness:
  "\<exists>s1 e. projection_erase ''acme'' ''bot'' sample_stored = (Inr 2, s1) \<and> am_snapshot (agent_memory_of ''acme'' ''bot'' s1) = None \<and>
     projection_commit any_text any_text sample_sha ''acme'' sample_commit ''v'' 6 s1 = (Inl e, s1)"
proof -
  let ?s1 = "snd (projection_erase ''acme'' ''bot'' sample_stored)"
  have "agent_memory_of ''acme'' ''bot'' ?s1 = \<lparr>am_fence = Some 2, am_head = None, am_snapshot = None, am_receipt = \<lambda>_ _. None\<rparr> \<and>
      (\<exists>e. projection_commit any_text any_text sample_sha ''acme'' sample_commit ''v'' 6 ?s1 = (Inl e, ?s1))"
    using memory_erase_final [of sample_memory_history "[]" "''acme''" "''bot''" any_text any_text sample_sha sample_stored 2 ?s1 ?s1]
      sample_erase sample_history_run by (simp add: sample_ids del: run_ops.simps(2))
  then show ?thesis using sample_erase by (metis agent_memory.select_convs(3))
qed

theorem memory_gap_free_witness:
  "\<exists>r sn. am_receipt (agent_memory_of ''acme'' ''bot'' sample_stored) 1 1 = Some r \<and>
     am_snapshot (agent_memory_of ''acme'' ''bot'' sample_stored) = Some sn \<and> snapshot_content sample_sha sn = mr_content r"
  using memory_gap_free [of sample_memory_history "''acme''" "''bot''" any_text any_text sample_sha "agent_memory_of ''acme'' ''bot'' sample_stored"]
    sample_history_run by (simp add: sample_ids sample_memory del: run_ops.simps(2))

theorem memory_replay_exact_witness:
  "projection_commit any_text any_text sample_sha ''acme'' sample_commit ''v'' 6 sample_stored =
     (Inr ((accepted_receipt ''acme'' sample_commit ''u'' 5)\<lparr>mr_outcome := Idempotent\<rparr>), sample_stored)"
proof -
  have "mr_outcome (accepted_receipt ''acme'' sample_commit ''u'' 5) = Accepted" by (simp add: accepted_receipt_def Let_def)
  then show ?thesis
    using memory_replay_exact [of "[]" "''acme''" "[]" sample_commit any_text any_text sample_sha "''u''" 5 "accepted_receipt ''acme'' sample_commit ''u'' 5"
        sample_stored sample_stored "''v''" 6] sample_accepted
    by simp
qed

abbreviation sample_permit :: authorizer_input where
  "sample_permit \<equiv> permit_request ''acme'' ''d'' sample_identity"

theorem writer_handoff_final_witness:
  "authorizer_authorize sample_permit (authorizer_grant (sample_permit\<lparr>ai_writerEpoch := 2\<rparr>) None
     (snd (run_ops permit_exec [(''acme'', PermitGrant sample_permit None)] no_permits))) = Denied ''grant_not_authorized''"
  using writer_handoff_final [of "[(''acme'', PermitGrant sample_permit None)]" "[]" "sample_permit\<lparr>ai_writerEpoch := 2\<rparr>" None _ sample_permit]
  by (simp add: permit_request_def sample_identity_def)

lemma sample_checks:
  "commit_checks True ''acme'' sample_commit sample_attempts (snd (run_ops permit_exec [(''acme'', PermitGrant sample_permit None)] no_permits)) = None"
  by code_simp


section \<open>A commit in flight during an erasure\<close>

text \<open>
  The permit is checked before the commit waits for its hash and its turn in the store, and an erasure
  may run in between. The erasure revokes the permit and answers the next epoch, but when that epoch is
  not above the one of the commit in flight, as for an Agent that has stored nothing yet, the commit is
  still accepted afterwards and its body is stored, although the permit is gone and the erasure has
  returned.
\<close>

theorem erase_inflight_commit:
  "\<exists>a a' s' s''.
     snd (run_ops permit_exec [(''acme'', PermitGrant sample_permit None)] no_permits) = a \<and>
     commit_checks True ''acme'' sample_commit sample_attempts a = None \<and>
     eraseAgentMemoryProjection True ''acme'' ''bot'' (a, empty_projection) = (Inr 1, a', s') \<and>
     authorizer_authorize sample_permit a' = Denied ''grant_not_authorized'' \<and>
     projection_commit any_text any_text sample_sha ''acme'' sample_commit ''u'' 5 s' = (Inr (accepted_receipt ''acme'' sample_commit ''u'' 5), s'') \<and>
     jget (ps_snapshots s'') (agentKey ''acme'' ''bot'') = Some (Stored_bytes [])"
proof -
  let ?a = "snd (run_ops permit_exec [(''acme'', PermitGrant sample_permit None)] no_permits)"
  let ?s' = "snd (projection_erase ''acme'' ''bot'' empty_projection)"
  have e: "projection_erase ''acme'' ''bot'' empty_projection = (Inr 1, ?s')" by code_simp
  have "authorizer_authorize sample_permit (authorizer_revoke ''acme'' ''bot'' ?a) = Denied ''grant_not_authorized''" by code_simp
  moreover have s': "?s' = \<lparr>ps_heads = [], ps_snapshots = [], ps_receipts = [], ps_eraseFences = [(agentKey ''acme'' ''bot'', 1)]\<rparr>" by code_simp
  moreover have "projection_commit any_text any_text sample_sha ''acme'' sample_commit ''u'' 5 ?s' =
      (Inr (accepted_receipt ''acme'' sample_commit ''u'' 5), snd (projection_commit any_text any_text sample_sha ''acme'' sample_commit ''u'' 5 ?s'))"
    "jget (ps_snapshots (snd (projection_commit any_text any_text sample_sha ''acme'' sample_commit ''u'' 5 ?s'))) (agentKey ''acme'' ''bot'') = Some (Stored_bytes [])"
    using sample_commit_receipt
    by (simp_all add: s' projection_commit_def sample_commit_snapshot commit_turn_def Let_def order_error_def sample_ids jget_def [of "[_]"])
  ultimately show ?thesis using sample_checks e by (auto simp: eraseAgentMemoryProjection_def Let_def simp del: run_ops.simps)
qed

end
