(* ===== verification/Spec2Isabelle.thy ===== *)
theory Spec2Isabelle
  imports Truth Board Mailbox Presence Quota Replay Skill_Pack Pairing Drafts Task_Output Inbound_Gates E2ee_Members Task_Archive Memory_Projection
begin

text \<open>
  A verification development for the reference stores of the BYOK SDK: the tenant-first stores of
  \<open>packages/core\<close> and the task, device and authentication stores of \<open>packages/cloud\<close> that an
  in-memory composition runs and that the SQL drivers have to agree with.

  \<^bold>\<open>The program.\<close> A host runs devices of many tenants. Work reaches a device through its
  mailbox stream, is tracked by a task attempt, shows its progress in an activity log, an approval
  timeline and a message draft, and ends in a terminal truth record; around this stand a shared
  board, presence hints, skill packs, an object store with a storage quota, receipts of requests, the
  member keys and the sealed payloads of end-to-end encrypted tenants, a hosted copy of agent memory, the stores that enroll and authenticate devices, and
  the archive that redacts a finished task. Every port takes the tenant first and addresses rows by a
  composite key, so one process serves all tenants from shared maps.

  \<^bold>\<open>Theories and sources\<close> (paths under \<open>src/packages\<close>).

  \<^item> \<open>Prelude\<close>: maps in insertion order (\<open>jmap\<close>, a JavaScript \<open>Map\<close>), JavaScript numbers,
    slices, stable sorting, runs of tenant-scoped calls, and the calls one component makes on another.
  \<^item> \<open>Core_Errors\<close> (\<open>core/src/errors.ts\<close>), \<open>Tenant\<close> (\<open>core/src/tenant.ts\<close>; the locales
    \<open>invariant_store\<close>, \<open>monotone_store\<close>, \<open>isolated_store\<close>, \<open>tenant_store\<close>, \<open>row_store\<close>),
    \<open>Time\<close> (\<open>core/src/time.ts\<close>), \<open>Retention\<close> (\<open>core/src/retention.ts\<close>; \<open>bounded_collector\<close>),
    \<open>Feed\<close> (the paging contract \<open>cursor_feed\<close>).
  \<^item> \<open>Mailbox\<close>, \<open>Board\<close>, \<open>Truth\<close>, \<open>Presence\<close>, \<open>Skill_Pack\<close>, \<open>Replay\<close>: one store of
    \<open>core/src/in-memory\<close> each, with its port file. \<open>Storage_Ledger\<close>, \<open>Objects\<close>, \<open>Quota\<close>:
    the storage ledger that the object store and the quota store share.
  \<^item> \<open>Task_Attempts\<close>, \<open>Device_Directory\<close>, \<open>Task_Cancellation\<close>: the hosted stores
    \<open>task-attempts.ts\<close>, \<open>task-change-map.ts\<close>, \<open>task-retirement.ts\<close>, \<open>device-directory.ts\<close> and
    \<open>task-cancellations.ts\<close> of \<open>cloud/src/stores/in-memory\<close>. A retirement, a cancellation and an
    abandonment change the mailbox and the attempts together, so they work on \<open>hosted_state\<close>;
    \<open>Hosted\<close> runs histories of all their calls (\<open>index.ts\<close>), and \<open>Pairing\<close> adds the pairing codes
    (\<open>pairing-codes.ts\<close>) whose redemption registers a device there.
  \<^item> \<open>Cloud_Errors\<close> (\<open>cloud/src/errors.ts\<close>) and \<open>Json\<close> (\<open>JSON.stringify\<close>, the canonical JSON of
    \<open>cloud/src/activity.ts\<close>, \<open>cloud/src/sealed-comparison.ts\<close>). \<open>Activity\<close>, \<open>Approvals\<close>, \<open>Drafts\<close>:
    what a running task shows (\<open>activity.ts\<close>, \<open>approval-timeline.ts\<close>, \<open>agent-message-draft.ts\<close> of
    \<open>cloud/src\<close> and of \<open>cloud/src/stores/in-memory\<close>). \<open>Task_Output\<close>: the attempts composed with the
    activity logs and the approval timelines, which the attempt map closes in the same step.
  \<^item> \<open>Receipts\<close> (\<open>receipts.ts\<close>, \<open>proof-receipts.ts\<close>, \<open>agent-egress.ts\<close>, \<open>cloud/src/receipt-retention.ts\<close>,
    \<open>cloud/src/agent-reliability.ts\<close>; the locale \<open>write_once\<close>), \<open>Inbound_Gates\<close> (\<open>nonces.ts\<close>, \<open>dedup.ts\<close>) and
    \<open>E2ee_Members\<close> (\<open>e2ee-member.ts\<close>): what makes a request, an event, a nonce, an envelope and a key
    write take effect once.
  \<^item> \<open>Task_Redaction\<close> (\<open>cloud/src/task-redaction.ts\<close>, \<open>cloud/src/offer-identity.ts\<close>) and \<open>Task_Archive\<close>
    (\<open>cloud/src/task-archive.ts\<close>, \<open>task-archive.ts\<close> of the in-memory stores): tombstones, and the archive
    that rewrites receipts, admissions, mailbox rows and attempts with them, composed from the
    theories of all these stores.
  \<^item> \<open>Sealed_Bytes\<close> (base64url of \<open>core/src/sealed-provider-secret.ts\<close>, padded lengths and frames of
    \<open>core/src/sealed-payload/sealed-content.ts\<close>; the locale \<open>canonical_code\<close>) and \<open>Sealed_Payload\<close>
    (\<open>protocol/src/sealed-payload.ts\<close>, \<open>protocol/src/sealed-split-table.ts\<close>): the byte forms and the wire
    forms of end-to-end encrypted content. \<open>Json_Arrays\<close>: keys that are JSON texts of arrays.
    \<open>Memory_Projection\<close> (\<open>agent-memory-projection.ts\<close> of \<open>protocol/src\<close>, \<open>cloud/src\<close> and the in-memory
    stores, \<open>cloud/src/api/agent-memory.ts\<close>): the hosted copy of an Agent's memory, its permits and the
    host's calls over both.

  \<^bold>\<open>State and operations.\<close> A store is a record of its maps (or one map); each method is one
  definition with the tenant, the input and the reading of the clock as arguments, which returns
  the answer, an error as the left of a sum, and the new state. \<open>..._exec\<close> gathers the methods
  of one port so that histories are lists of (tenant, call) pairs (\<open>run_ops\<close>).

  \<^bold>\<open>What is shown.\<close> For each store an invariant that every call keeps; for each tenant-scoped
  store that the calls of other tenants are invisible (this theory and \<open>task_isolation\<close>). The
  mailbox never loses a pending message silently and an append is linearizable although it
  suspends; board claims and truth snapshots have exactly one winner; stored facts only move
  forward; storage accounts are exact and bounded by the hard limit; collections keep what is
  alive and end; pages are complete; canonical timestamps are the rendered instants and sort as
  time; a credential is single use; a skill pack serves what was hashed and stays in its
  directory; attempts are written once, cancellation outranks the device, retirement and
  cancellation move mailbox, attempts and directory together or not at all. A pairing code enrolls
  one device, where it was minted; a reader that resumes an activity log misses nothing unnoticed; the
  pending approval survives eviction and is decided once; a draft is a prefix of the message; a
  task's output closes as one. The first receipt under a key is the fact; a nonce and a device request
  take effect once; the deduplication rings are a window of the last envelopes; the member chain is
  append-only, a scope epoch has one key, and a shredded scope stays empty. An archive leaves no
  content of its task and keeps every comparison against it, is atomic although it waits for its
  codec, returns, and a run over the due tasks accounts for each of them. Base64url texts and frames are
  canonical, a padded length is the least legal one, a sealed member has one wire form and a task with
  sealed output shows only closed codes. The hosted memory of an Agent is gap-free and its store refines
  one small machine per Agent; a mutation takes effect once, an erased epoch never returns, and a commit
  call succeeds only under a grant that still holds (\<open>erase_inflight_commit\<close> shows the gap between the
  check of the permit and the turn of the commit).

  \<^bold>\<open>Choices.\<close> Strings are lists of code units below 256. Sequence numbers, byte counts and
  bigints are \<open>int\<close>; numbers that the code validates are \<open>jsnum\<close> (finite, infinite or not a
  number). The clock is read once per call, in milliseconds. A method runs as one step, as it does
  in JavaScript up to its first suspension; where a method suspends and others can run meanwhile it
  is split (\<open>append_begin\<close>/\<open>append_commit\<close>, \<open>finalize_begin\<close>/\<open>finalize_objects\<close>/\<open>finalize_resume\<close>), and where
  the code serializes calls on a chain they are steps. The message texts of errors are left out.
  Parameters stand for code that is not the program's own: \<open>lc\<close> is \<open>localeCompare\<close>, \<open>other\<close>
  is \<open>Date.parse\<close> on non-canonical text, \<open>json_parse\<close> is \<open>JSON.parse\<close>, the materializer of an append and the
  deletion of object bytes are caller code, the digest and the schema check of a skill pack are a
  hash and a zod parser. In the activity log and the approval timeline \<open>ntext\<close> prints the numbers
  that are not integers, \<open>digest\<close> is SHA-256, \<open>uuid\<close> and \<open>drawn\<close> are the values drawn from
  \<open>crypto.randomUUID\<close>, and \<open>schema\<close>, \<open>isoOk\<close> and \<open>sealedOk\<close> are zod schemas of the protocol package.
  \<open>TextEncoder\<close> lengths are those of \<open>utf8_length\<close> on code units below 256. Redemptions of one
  pairing code wait for each other in the code, so each is one step; \<open>inflight\<close> names the codes
  whose redemption has not ended, which a collection passes over. Appends to a member chain wait for
  each other in the code, so each is one step, and the recorded result of a write stands for its JSON
  text. The token of a nonce is an argument. The archive's loop takes the effect of the other calls in
  each round as a function on the state (\<open>archive_rounds\<close>); the run over the due tasks is modelled with
  nothing in between. \<open>isUuid\<close> and \<open>isDatetime\<close> are formats of the validator, \<open>sha256\<close> the host's hash;
  bytes are \<open>8 word\<close>s and the bit operators of the base64url code work on \<open>32 word\<close>s, as in the language.

  \<^bold>\<open>Fuel.\<close> \<open>poll\<close> and \<open>drain\<close> take fuel, and their theorems show that more fuel than rows
  is enough; \<open>task_seqs\<close> gets one more than the rows of its stream. \<open>retain_loop\<close> of the approval
  timeline ends because every round removes an observation. \<open>archive_rounds\<close> takes one entry per round, and
  \<open>archive_returns\<close> shows how many are enough. All other loops are structural.

  \<^bold>\<open>Not modelled.\<close> The client daemon (processes, files, runtimes), the SQL and Durable Object
  drivers, HTTP routing and the handlers, the mailbox wake-up timers, blob bytes, most zod
  schemas, cryptography (signatures, HPKE, the sealing itself), rendering code, tests, examples and
  deployment files.
\<close>

section \<open>Tenant isolation\<close>

text \<open>
  C35. Mailbox isolation: in any interleaving of calls by any tenants, every tenant receives the
  answers, and ends with the streams, that its own calls alone would have produced.
\<close>

theorem mailbox_isolation:
  assumes "isTenantId u" and "\<forall>(t, op) \<in> set ops. isTenantId t"
  shows "own_ops u (fst (run_ops mailbox_exec ops s)) = fst (run_ops mailbox_exec (own_ops u ops) s) \<and>
    tenant_rows u (snd (run_ops mailbox_exec ops s)) = tenant_rows u (snd (run_ops mailbox_exec (own_ops u ops) s))"
  using mailbox_store.isolation [OF assms] by simp

theorem mailbox_isolation_witness:
  "own_ops ''acme'' (fst (run_ops mailbox_exec [(''globex'', MReopenStream ''d''), (''acme'', MReadUsage)] sample_mailbox)) =
     fst (run_ops mailbox_exec [(''acme'', MReadUsage)] sample_mailbox)"
  using mailbox_isolation [of "''acme''" "[(''globex'', MReopenStream ''d''), (''acme'', MReadUsage)]" sample_mailbox]
  by (simp del: run_ops.simps)

text \<open>
  Board isolation: the items, the board feed and the answers a tenant sees are those of its own
  calls, whatever the other tenants do, down to the sequence numbers.
\<close>

theorem board_isolation:
  assumes "isTenantId u" and "\<forall>(t, op) \<in> set ops. isTenantId t"
  shows "own_ops u (fst (run_ops board_exec ops s)) = fst (run_ops board_exec (own_ops u ops) s) \<and>
    board_view u (snd (run_ops board_exec ops s)) = board_view u (snd (run_ops board_exec (own_ops u ops) s))"
  using board_store.isolation [OF assms] by simp

theorem board_isolation_witness:
  "own_ops ''acme'' (fst (run_ops board_exec [(''globex'', Remove ''i''), (''acme'', Get ''i'')] \<lparr>items = [], seqByTenant = []\<rparr>)) =
     fst (run_ops board_exec [(''acme'', Get ''i'')] \<lparr>items = [], seqByTenant = []\<rparr>)"
  using board_isolation [of "''acme''" "[(''globex'', Remove ''i''), (''acme'', Get ''i'')]" "\<lparr>items = [], seqByTenant = []\<rparr>"]
  by (simp del: run_ops.simps)

text \<open>
  Truth isolation: a tenant's records, its manifest listing and the outcome of its revision
  checks depend on its own calls only.
\<close>

theorem truth_isolation:
  assumes "isTenantId u" and "\<forall>(t, op) \<in> set ops. isTenantId t"
  shows "own_ops u (fst (run_ops (truth_exec lc) ops s)) = fst (run_ops (truth_exec lc) (own_ops u ops) s) \<and>
    tenant_rows u (snd (run_ops (truth_exec lc) ops s)) = tenant_rows u (snd (run_ops (truth_exec lc) (own_ops u ops) s))"
  using truth_store.isolation [OF assms] by simp

theorem truth_isolation_witness:
  "own_ops ''globex'' (fst (run_ops (truth_exec (\<lambda>_ _. 0))
       [(''acme'', WriteTerminal (sample_terminal ''a'') 1), (''globex'', WriteTerminal (sample_terminal ''b'') 2)] [])) =
     fst (run_ops (truth_exec (\<lambda>_ _. 0)) [(''globex'', WriteTerminal (sample_terminal ''b'') 2)] [])"
  using truth_isolation [of "''globex''" "[(''acme'', WriteTerminal (sample_terminal ''a'') 1), (''globex'', WriteTerminal (sample_terminal ''b'') 2)]" "\<lambda>_ _. 0" "[]"]
  by (simp del: run_ops.simps)

text \<open>
  Presence isolation: hints, throttling and collection of one tenant never depend on another,
  for every store that the calls themselves can build.
\<close>

theorem presence_isolation:
  assumes "isTenantId u" and "\<forall>(t, op) \<in> set ops. isTenantId t" and "presence_inv s"
  shows "own_ops u (fst (run_ops (presence_exec other lc) ops s)) = fst (run_ops (presence_exec other lc) (own_ops u ops) s) \<and>
    tenant_rows u (snd (run_ops (presence_exec other lc) ops s)) =
      tenant_rows u (snd (run_ops (presence_exec other lc) (own_ops u ops) s))"
  using assms by (rule presence_store.isolation)

theorem presence_isolation_witness:
  "own_ops ''globex'' (fst (run_ops (presence_exec (\<lambda>_. None) (\<lambda>_ _. 0))
       [(''acme'', PPublish sample_presence 1), (''globex'', PRead ''d1'' 2)] [])) =
     fst (run_ops (presence_exec (\<lambda>_. None) (\<lambda>_ _. 0)) [(''globex'', PRead ''d1'' 2)] [])"
  using presence_isolation [of "''globex''" "[(''acme'', PPublish sample_presence 1), (''globex'', PRead ''d1'' 2)]" "[]" "\<lambda>_. None" "\<lambda>_ _. 0"]
  by (simp add: presence_inv_def del: run_ops.simps)

end
